(* ===== verification/Prelude.thy ===== *)
theory Prelude
  imports Complex_Main
begin

text \<open>
  Shared vocabulary of the development.

  Python code raises exceptions and keeps whatever it mutated before the raise, so an
  operation on a state \<open>'s\<close> is modelled as a function that returns an outcome (\<open>Inl\<close> the
  exception, \<open>Inr\<close> the returned value) \<^emph>\<open>together with\<close> the state it leaves behind.  The type
  \<open>('a, 's) res\<close> names that pair; \<open>bind_res\<close> sequences two such operations and
  \<open>lift_res\<close> embeds a check that cannot touch the state.

  Python integers are \<open>int\<close>.  Checks of the form \<open>type(x) is T\<close> are decided by the HOL
  types and have no branch in the model.
\<close>

section \<open>Exceptions and results\<close>

datatype exc =
    ValueError string
  | TypeError string
  | RuntimeError string
  | MemoryError string
  | OverflowError string
  | KeyError string
  | IndexError string
  | LookupError string
  | StateConflict string
  | InvalidStatePublication string
  | CacheMiss
  | RouteUnavailable string
  | AtomicOwnerError string
  | CacheBranchTransactionError string
  | ToolCallConstraintError string
  | FileExistsError string
  | SlotUnavailable string
  | ResourceNotFound string
  | COWCacheStale string
  | COWCacheError string
  | WriteSubmissionError int
  | AssertionError

type_synonym ('a, 's) res = "(exc + 'a) \<times> 's"

definition bind_res :: "('a, 's) res \<Rightarrow> ('a \<Rightarrow> 's \<Rightarrow> ('b, 's) res) \<Rightarrow> ('b, 's) res" where
  "bind_res r k = (case fst r of Inl e \<Rightarrow> (Inl e, snd r) | Inr x \<Rightarrow> k x (snd r))"

definition lift_res :: "exc + 'a \<Rightarrow> 's \<Rightarrow> ('a \<Rightarrow> ('b, 's) res) \<Rightarrow> ('b, 's) res" where
  "lift_res r s k = (case r of Inl e \<Rightarrow> (Inl e, s) | Inr x \<Rightarrow> k x)"

definition succeeds :: "('a, 's) res \<Rightarrow> bool" where
  "succeeds r \<longleftrightarrow> (case fst r of Inl _ \<Rightarrow> False | Inr _ \<Rightarrow> True)"

named_theorems res_simps \<open>unfolding of the result combinators\<close>

lemma bind_res_simps [simp, res_simps]:
  "bind_res (Inl e, s) k = (Inl e, s)"
  "bind_res (Inr x, s) k = k x s"
  by (simp_all add: bind_res_def)

lemma lift_res_simps [simp, res_simps]:
  "lift_res (Inl e) s k = (Inl e, s)"
  "lift_res (Inr x) s k = k x"
  by (simp_all add: lift_res_def)

lemma bind_res_split [split]:
  "P (bind_res r k) \<longleftrightarrow>
     (\<forall>e s. r = (Inl e, s) \<longrightarrow> P (Inl e, s)) \<and> (\<forall>x s. r = (Inr x, s) \<longrightarrow> P (k x s))"
  by (cases r; cases "fst r") (auto simp: bind_res_def)

lemma bind_res_split_asm:
  "P (bind_res r k) \<longleftrightarrow>
     \<not> ((\<exists>e s. r = (Inl e, s) \<and> \<not> P (Inl e, s)) \<or> (\<exists>x s. r = (Inr x, s) \<and> \<not> P (k x s)))"
  by (cases r; cases "fst r") (auto simp: bind_res_def)

lemma lift_res_split [split]:
  "P (lift_res r s k) \<longleftrightarrow>
     (\<forall>e. r = Inl e \<longrightarrow> P (Inl e, s)) \<and> (\<forall>x. r = Inr x \<longrightarrow> P (k x))"
  by (cases r) auto

lemma lift_res_split_asm:
  "P (lift_res r s k) \<longleftrightarrow>
     \<not> ((\<exists>e. r = Inl e \<and> \<not> P (Inl e, s)) \<or> (\<exists>x. r = Inr x \<and> \<not> P (k x)))"
  by (cases r) auto

lemmas res_splits = bind_res_split_asm lift_res_split_asm

lemma bind_res_Inr_iff:
  "bind_res r k = (Inr y, t) \<longleftrightarrow> (\<exists>x s. r = (Inr x, s) \<and> k x s = (Inr y, t))"
  by (cases r; cases "fst r") (auto simp: bind_res_def)

lemma lift_res_Inr_iff:
  "lift_res r s k = (Inr y, t) \<longleftrightarrow> (\<exists>x. r = Inr x \<and> k x = (Inr y, t))"
  by (cases r) auto

lemma succeeds_simps [simp]: "succeeds (Inr x, s)" "\<not> succeeds (Inl e, s)"
  by (simp_all add: succeeds_def)

section \<open>Calls that fail without an effect\<close>

text \<open>
  \<open>atomic_res s r Q\<close>: the call with result \<open>r\<close>, made in state \<open>s\<close>, either raises and leaves
  \<open>s\<close>, or returns a value and a state that satisfy \<open>Q\<close>.  The rules follow the shape of the
  code, so a contract of an operation is proved by applying them and discharging what remains.
\<close>

definition atomic_res :: "'s \<Rightarrow> ('a, 's) res \<Rightarrow> ('a \<Rightarrow> 's \<Rightarrow> bool) \<Rightarrow> bool" where
  "atomic_res s r Q \<longleftrightarrow> (case fst r of Inl e \<Rightarrow> snd r = s | Inr x \<Rightarrow> Q x (snd r))"

named_theorems atomic_intros \<open>introduction rules for \<open>atomic_res\<close>\<close>

lemma atomic_raise [atomic_intros]: "atomic_res s (Inl e, s) Q"
  by (simp add: atomic_res_def)

lemma atomic_return [atomic_intros]: "Q x t \<Longrightarrow> atomic_res s (Inr x, t) Q"
  by (simp add: atomic_res_def)

lemma atomic_lift [atomic_intros]:
  "(\<And>x. r = Inr x \<Longrightarrow> atomic_res s (k x) Q) \<Longrightarrow> atomic_res s (lift_res r s k) Q"
  by (cases r) (auto simp: atomic_res_def)

lemma atomic_if [atomic_intros]:
  "(b \<Longrightarrow> atomic_res s r Q) \<Longrightarrow> (\<not> b \<Longrightarrow> atomic_res s r' Q) \<Longrightarrow>
     atomic_res s (if b then r else r') Q"
  by simp

lemma atomic_bind:
  assumes "atomic_res s r R" and "\<And>x t. R x t \<Longrightarrow> atomic_res s (k x t) Q"
  shows "atomic_res s (bind_res r k) Q"
  using assms by (cases r; cases "fst r") (auto simp: atomic_res_def)

lemma atomic_weaken: "atomic_res s r R \<Longrightarrow> (\<And>x t. R x t \<Longrightarrow> Q x t) \<Longrightarrow> atomic_res s r Q"
  by (auto simp: atomic_res_def split: sum.splits)

lemma atomic_failD: "atomic_res s r Q \<Longrightarrow> r = (Inl e, t) \<Longrightarrow> t = s"
  by (simp add: atomic_res_def)

lemma atomic_okD: "atomic_res s r Q \<Longrightarrow> r = (Inr x, t) \<Longrightarrow> Q x t"
  by (simp add: atomic_res_def)

lemma atomic_cases:
  assumes "atomic_res s r Q"
  obtains (fail) e where "r = (Inl e, s)" | (ok) x t where "r = (Inr x, t)" "Q x t"
  using assms by (cases r; cases "fst r") (auto simp: atomic_res_def)

section \<open>Integer checks of paged_attention_plan.py\<close>

text \<open>
  \<open>_uint\<close> and \<open>_positive\<close> guard every integer that enters the paged modules.  The
  messages keep the name of the checked argument.
\<close>

definition U32_MAX :: int where "U32_MAX = 2 ^ 32 - 1"
definition U64_MAX :: int where "U64_MAX = 2 ^ 64 - 1"

definition uint_check :: "string \<Rightarrow> int \<Rightarrow> int \<Rightarrow> exc + unit" where
  "uint_check name v limit =
     (if \<not> (0 \<le> v \<and> v \<le> limit) then Inl (ValueError (name @ '' must be an integer in range''))
      else Inr ())"

definition positive_check :: "string \<Rightarrow> int \<Rightarrow> int \<Rightarrow> exc + unit" where
  "positive_check name v limit =
     (case uint_check name v limit of
        Inl e \<Rightarrow> Inl e
      | Inr _ \<Rightarrow> if v = 0 then Inl (ValueError (name @ '' must be positive'')) else Inr ())"

lemma uint_check_Inr [simp]: "uint_check n v l = Inr u \<longleftrightarrow> 0 \<le> v \<and> v \<le> l"
  by (simp add: uint_check_def)

lemma positive_check_Inr [simp]: "positive_check n v l = Inr u \<longleftrightarrow> 0 < v \<and> v \<le> l"
  by (auto simp: positive_check_def uint_check_def)

lemma U_MAX_pos [simp]: "0 < U32_MAX" "0 < U64_MAX" "0 \<le> U32_MAX" "0 \<le> U64_MAX"
  by (simp_all add: U32_MAX_def U64_MAX_def)

section \<open>Pure checks\<close>

text \<open>
  \<open>raise_if\<close> is a run of guards \<open>if c: raise e\<close>, the first true one raising; \<open>bind_sum\<close>
  sequences computations that may raise and have no state.
\<close>

fun raise_if :: "(bool \<times> exc) list \<Rightarrow> exc + unit" where
  "raise_if [] = Inr ()"
| "raise_if ((c, e) # cs) = (if c then Inl e else raise_if cs)"

definition bind_sum :: "exc + 'a \<Rightarrow> ('a \<Rightarrow> exc + 'b) \<Rightarrow> exc + 'b" where
  "bind_sum r k = (case r of Inl e \<Rightarrow> Inl e | Inr x \<Rightarrow> k x)"

lemma bind_sum_simps [simp, res_simps]: "bind_sum (Inl e) k = Inl e" "bind_sum (Inr x) k = k x"
  by (simp_all add: bind_sum_def)

lemma bind_sum_Inr [simp]: "bind_sum r k = Inr y \<longleftrightarrow> (\<exists>x. r = Inr x \<and> k x = Inr y)"
  by (cases r) auto

fun uint_checks :: "(string \<times> int) list \<Rightarrow> exc + unit" where
  "uint_checks [] = Inr ()"
| "uint_checks ((n, v) # vs) = bind_sum (uint_check n v U32_MAX) (\<lambda>_. uint_checks vs)"

lemma uint_checks_Inr [simp]:
  "uint_checks vs = Inr u \<longleftrightarrow> (\<forall>(n, v) \<in> set vs. 0 \<le> v \<and> v \<le> U32_MAX)"
  by (induction vs rule: uint_checks.induct) auto

section \<open>Stateful components\<close>

text \<open>
  A component with state is an initial predicate and a step function indexed by the
  operation called.  A state is reachable when some sequence of calls produces it; a
  call that raises still contributes the state it leaves behind.
\<close>

inductive reachable :: "('s \<Rightarrow> bool) \<Rightarrow> ('c \<Rightarrow> 's \<Rightarrow> ('r, 's) res) \<Rightarrow> 's \<Rightarrow> bool"
  for init step where
  reachable_init: "init s \<Longrightarrow> reachable init step s"
| reachable_step: "reachable init step s \<Longrightarrow> reachable init step (snd (step c s))"

fun run_calls :: "('c \<Rightarrow> 's \<Rightarrow> ('r, 's) res) \<Rightarrow> 'c list \<Rightarrow> 's \<Rightarrow> 's" where
  "run_calls step [] s = s"
| "run_calls step (c # cs) s = run_calls step cs (snd (step c s))"

lemma reachable_run_calls:
  "reachable init step s \<Longrightarrow> reachable init step (run_calls step cs s)"
  by (induction cs arbitrary: s) (auto intro: reachable_step)

lemma run_calls_append: "run_calls step (cs @ ds) s = run_calls step ds (run_calls step cs s)"
  by (induction cs arbitrary: s) simp_all

locale stateful_component =
  fixes init :: "'s \<Rightarrow> bool"
    and step :: "'c \<Rightarrow> 's \<Rightarrow> ('r, 's) res"
    and inv :: "'s \<Rightarrow> bool"
  assumes inv_init: "init s \<Longrightarrow> inv s"
    and inv_step: "inv s \<Longrightarrow> inv (snd (step c s))"
begin

lemma inv_reachable: "reachable init step s \<Longrightarrow> inv s"
  by (induction rule: reachable.induct) (auto intro: inv_init inv_step)

lemma inv_run: "inv s \<Longrightarrow> inv (run_calls step cs s)"
  by (induction cs arbitrary: s) (auto intro: inv_step)

text \<open>A fact that every step of a run keeps, given the invariant, is kept by the run.\<close>

lemma run_keeps:
  assumes "inv s" and "Q s"
    and keep: "\<And>s c. c \<in> set cs \<Longrightarrow> inv s \<Longrightarrow> Q s \<Longrightarrow> Q (snd (step c s))"
  shows "Q (run_calls step cs s)"
  using assms
proof (induction cs arbitrary: s)
  case Nil
  then show ?case by simp
next
  case (Cons c cs)
  have "Q (run_calls step cs (snd (step c s)))"
    by (rule Cons.IH) (use Cons.prems inv_step in auto)
  then show ?case by simp
qed

end

section \<open>Python slices\<close>

text \<open>\<open>xs[:n]\<close> and \<open>xs[n:]\<close>; a negative bound counts from the end.\<close>

definition slice_to :: "int \<Rightarrow> 'a list \<Rightarrow> 'a list" where
  "slice_to n xs = (if 0 \<le> n then take (nat n) xs else take (length xs - nat (- n)) xs)"

definition slice_from :: "int \<Rightarrow> 'a list \<Rightarrow> 'a list" where
  "slice_from n xs = (if 0 \<le> n then drop (nat n) xs else drop (length xs - nat (- n)) xs)"

text \<open>\<open>xs[i]\<close>: a negative index counts from the end, anything else out of range raises.\<close>

definition py_index :: "int \<Rightarrow> 'a list \<Rightarrow> exc + 'a" where
  "py_index i xs =
     (if 0 \<le> i \<and> i < int (length xs) then Inr (xs ! nat i)
      else if i < 0 \<and> - i \<le> int (length xs) then Inr (xs ! (length xs - nat (- i)))
      else Inl (IndexError ''index out of range''))"

lemma py_index_nonneg [simp]: "0 \<le> i \<Longrightarrow> i < int (length xs) \<Longrightarrow> py_index i xs = Inr (xs ! nat i)"
  by (simp add: py_index_def)

lemma slice_append [simp]: "slice_to n xs @ slice_from n xs = xs"
  by (simp add: slice_to_def slice_from_def)

lemma slice_to_nonneg [simp]: "0 \<le> n \<Longrightarrow> slice_to n xs = take (nat n) xs"
  by (simp add: slice_to_def)

lemma slice_from_nonneg [simp]: "0 \<le> n \<Longrightarrow> slice_from n xs = drop (nat n) xs"
  by (simp add: slice_from_def)

section \<open>Generic list facts\<close>

lemma distinct_drop_take_disjoint:
  "distinct xs \<Longrightarrow> set (take n xs) \<inter> set (drop n xs) = {}"
  by (metis append_take_drop_id distinct_append)

lemma nth_list_update_if:
  "j < length xs \<Longrightarrow> xs[i := x] ! j = (if i = j then x else xs ! j)"
  by auto

text \<open>How many elements of a list satisfy a predicate, after one of them is replaced.\<close>

lemma filter_update_count:
  "i < length xs \<Longrightarrow> length (filter P (xs[i := x])) + (if P (xs ! i) then 1 else 0)
     = length (filter P xs) + (if P x then 1 else 0)"
proof (induction xs arbitrary: i)
  case (Cons y xs)
  then show ?case by (cases i) auto
qed simp

section \<open>Floating point values that are only compared\<close>

text \<open>
  Several decisions compare measured times or costs and never compute with them.  A finite
  float is the rational it denotes; a comparison with NaN is false, as in Python.
\<close>

datatype py_float = Finite rat | PosInf | NegInf | NaN

fun is_finite :: "py_float \<Rightarrow> bool" where
  "is_finite (Finite _) \<longleftrightarrow> True"
| "is_finite _ \<longleftrightarrow> False"

fun fl_less :: "py_float \<Rightarrow> py_float \<Rightarrow> bool" where
  "fl_less NaN y \<longleftrightarrow> False"
| "fl_less x NaN \<longleftrightarrow> False"
| "fl_less (Finite a) (Finite b) \<longleftrightarrow> a < b"
| "fl_less NegInf y \<longleftrightarrow> y \<noteq> NegInf"
| "fl_less x PosInf \<longleftrightarrow> x \<noteq> PosInf"
| "fl_less x y \<longleftrightarrow> False"

end
