(* ===== verification/PagedPool.thy ===== *)
theory PagedPool
  imports Prelude
begin

text \<open>
  The lease ledger of \<^verbatim>\<open>runtime/paged_kv_pool.py\<close> (class \<open>PagedKVPool\<close>) over the page handles
  of \<^verbatim>\<open>runtime/paged_attention_plan.py\<close>.

  A \<open>PageHandle\<close> names a physical slot and the generation it was reserved in; the constructor
  refuses negative ids, so the field is a \<open>nat\<close>.  The Python free list is a stack popped at its
  end, kept here in the same order; the pending deque is a list in arrival order.  Every
  operation is a function \<open>pool \<Rightarrow> (result, pool) res\<close>; a loop of the code that mutates slots is
  a recursive function that threads the pool, so the state left by an exception is the one the
  Python object would be left in.
\<close>

section \<open>State\<close>

datatype page_handle = PageHandle (page_id: nat) (generation: nat)

definition page_handle :: "nat \<Rightarrow> nat \<Rightarrow> exc + page_handle" where
  "page_handle i g =
     (case uint_check ''page_id'' (int i) U32_MAX of
        Inl e \<Rightarrow> Inl e
      | Inr _ \<Rightarrow>
          (case positive_check ''page generation'' (int g) U32_MAX of
             Inl e \<Rightarrow> Inl e
           | Inr _ \<Rightarrow> Inr (PageHandle i g)))"

record slot =
  slot_generation :: nat
  references :: int
  retired_after :: "int option"
  quarantined_generation :: "nat option"

definition new_slot :: slot where
  "new_slot = \<lparr>slot_generation = 0, references = 0, retired_after = None,
               quarantined_generation = None\<rparr>"

record pool =
  capacity :: nat
  slots :: "slot list"
  free :: "nat list"
  pending :: "(int \<times> page_handle) list"
  completed_epoch :: int

definition new_pool :: "int \<Rightarrow> exc + pool" where
  "new_pool cap =
     (case positive_check ''capacity'' cap U32_MAX of
        Inl e \<Rightarrow> Inl e
      | Inr _ \<Rightarrow> Inr \<lparr>capacity = nat cap, slots = replicate (nat cap) new_slot,
                     free = rev [0..<nat cap], pending = [], completed_epoch = 0\<rparr>)"

definition set_slot :: "nat \<Rightarrow> slot \<Rightarrow> pool \<Rightarrow> pool" where
  "set_slot i s p = p\<lparr>slots := (slots p)[i := s]\<rparr>"

section \<open>Observers\<close>

definition free_count :: "pool \<Rightarrow> nat" where
  "free_count p = length (free p)"

definition pending_count :: "pool \<Rightarrow> nat" where
  "pending_count p = length (pending p)"

definition quarantined_count :: "pool \<Rightarrow> nat" where
  "quarantined_count p = length (filter (\<lambda>s. quarantined_generation s \<noteq> None) (slots p))"

definition allocated_count :: "pool \<Rightarrow> nat" where
  "allocated_count p = length (filter (\<lambda>s. references s > 0) (slots p))"

definition live_generations :: "pool \<Rightarrow> nat \<rightharpoonup> nat" where
  "live_generations p i =
     (if i < length (slots p) \<and> references (slots p ! i) > 0
         \<and> quarantined_generation (slots p ! i) = None
      then Some (slot_generation (slots p ! i)) else None)"

text \<open>\<open>_active_slot\<close> returns the slot object; the model returns its index.\<close>

definition active_slot :: "page_handle \<Rightarrow> pool \<Rightarrow> exc + nat" where
  "active_slot h p =
     (if page_id h \<ge> capacity p then Inl (ValueError ''page handle is outside this pool'')
      else if slot_generation (slots p ! page_id h) \<noteq> generation h
              \<or> references (slots p ! page_id h) = 0
      then Inl (ValueError ''stale or unreferenced page handle'')
      else Inr (page_id h))"

definition handle_references :: "page_handle \<Rightarrow> pool \<Rightarrow> exc + int" where
  "handle_references h p =
     (case active_slot h p of Inl e \<Rightarrow> Inl e | Inr i \<Rightarrow> Inr (references (slots p ! i)))"

fun active_slots :: "page_handle list \<Rightarrow> pool \<Rightarrow> exc + nat list" where
  "active_slots [] p = Inr []"
| "active_slots (h # hs) p =
     (case active_slot h p of
        Inl e \<Rightarrow> Inl e
      | Inr i \<Rightarrow> (case active_slots hs p of Inl e \<Rightarrow> Inl e | Inr is \<Rightarrow> Inr (i # is)))"

definition validate_unique_active :: "page_handle list \<Rightarrow> pool \<Rightarrow> exc + nat list" where
  "validate_unique_active hs p =
     (if length hs \<noteq> card (set hs)
      then Inl (ValueError ''handles must be a tuple of unique page leases'')
      else active_slots hs p)"

section \<open>Operations\<close>

text \<open>One round of the loop of \<open>reserve\<close>: pop a slot, open a new generation with one lease.\<close>

fun reserve_loop :: "nat \<Rightarrow> pool \<Rightarrow> (page_handle list, pool) res" where
  "reserve_loop 0 p = (Inr [], p)"
| "reserve_loop (Suc n) p =
     (if free p = [] then (Inl (IndexError ''pop from empty list''), p)
      else
        (let i = last (free p);
             p1 = p\<lparr>free := butlast (free p)\<rparr>;
             s = (slots p ! i)\<lparr>slot_generation := slot_generation (slots p ! i) + 1,
                               references := 1, retired_after := None\<rparr>;
             p2 = set_slot i s p1
         in if quarantined_generation s \<noteq> None
            then (Inl (RuntimeError ''quarantined page entered the free list''), p2)
            else lift_res (page_handle i (slot_generation s)) p2 (\<lambda>h.
                 bind_res (reserve_loop n p2) (\<lambda>hs p3. (Inr (h # hs), p3)))))"

definition reserve :: "int \<Rightarrow> pool \<Rightarrow> (page_handle list, pool) res" where
  "reserve count p =
     lift_res (positive_check ''page count'' count U32_MAX) p (\<lambda>_.
       if count > int (length (free p))
       then (Inl (MemoryError ''paged KV arena has insufficient retired pages''), p)
       else if (\<exists>i \<in> set (drop (length (free p) - nat count) (free p)).
                  int (slot_generation (slots p ! i)) = U32_MAX)
       then (Inl (OverflowError ''page generation exhausted''), p)
       else reserve_loop (nat count) p)"

fun quarantine_loop :: "nat list \<Rightarrow> pool \<Rightarrow> pool" where
  "quarantine_loop [] p = p"
| "quarantine_loop (i # is) p =
     quarantine_loop is
       (set_slot i ((slots p ! i)\<lparr>quarantined_generation := Some (slot_generation (slots p ! i))\<rparr>) p)"

definition quarantine :: "page_handle list \<Rightarrow> pool \<Rightarrow> (unit, pool) res" where
  "quarantine hs p = lift_res (validate_unique_active hs p) p (\<lambda>is. (Inr (), quarantine_loop is p))"

fun retain_loop :: "nat list \<Rightarrow> pool \<Rightarrow> pool" where
  "retain_loop [] p = p"
| "retain_loop (i # is) p =
     retain_loop is (set_slot i ((slots p ! i)\<lparr>references := references (slots p ! i) + 1\<rparr>) p)"

definition retain :: "page_handle list \<Rightarrow> pool \<Rightarrow> (unit, pool) res" where
  "retain hs p =
     lift_res (validate_unique_active hs p) p (\<lambda>is.
       if (\<exists>i \<in> set is. quarantined_generation (slots p ! i) = Some (slot_generation (slots p ! i)))
       then (Inl (ValueError ''quarantined page cannot gain a new lease''), p)
       else (Inr (), retain_loop is p))"

definition release_one :: "page_handle \<Rightarrow> int \<Rightarrow> pool \<Rightarrow> pool" where
  "release_one h after p =
     (let s = slots p ! page_id h;
          fence = max (max (case retired_after s of None \<Rightarrow> 0 | Some e \<Rightarrow> e) after)
                      (completed_epoch p);
          s1 = s\<lparr>retired_after := Some fence, references := references s - 1\<rparr>;
          p1 = set_slot (page_id h) s1 p
      in if references s1 = 0 then p1\<lparr>pending := pending p @ [(fence, h)]\<rparr> else p1)"

fun release_loop :: "page_handle list \<Rightarrow> int \<Rightarrow> pool \<Rightarrow> pool" where
  "release_loop [] after p = p"
| "release_loop (h # hs) after p = release_loop hs after (release_one h after p)"

definition release :: "page_handle list \<Rightarrow> int \<Rightarrow> pool \<Rightarrow> (unit, pool) res" where
  "release hs after p =
     lift_res (uint_check ''last use epoch'' after U64_MAX) p (\<lambda>_.
       lift_res (validate_unique_active hs p) p (\<lambda>_.
         (Inr (), release_loop hs after p)))"

definition copy_on_write :: "page_handle \<Rightarrow> int \<Rightarrow> pool \<Rightarrow> (page_handle, pool) res" where
  "copy_on_write h after p =
     lift_res (uint_check ''last use epoch'' after U64_MAX) p (\<lambda>_.
       lift_res (handle_references h p) p (\<lambda>refs.
         if refs = 1 then (Inr h, p)
         else bind_res (reserve 1 p) (\<lambda>hs p1.
              bind_res (release [h] after p1) (\<lambda>_ p2. (Inr (hd hs), p2)))))"

text \<open>
  The scan of \<open>retire\<close> rebuilds the pending queue.  When it raises, the Python attribute
  \<open>_pending\<close> still is the deque the loop pops from, so the entries scanned so far are lost
  from it and the rest stay.
\<close>

fun retire_loop :: "(int \<times> page_handle) list \<Rightarrow> (int \<times> page_handle) list \<Rightarrow> int \<Rightarrow> pool
                    \<Rightarrow> (unit, pool) res" where
  "retire_loop [] kept completed p = (Inr (), p\<lparr>pending := kept\<rparr>)"
| "retire_loop ((required, h) # rest) kept completed p =
     (if required > completed
      then retire_loop rest (kept @ [(required, h)]) completed (p\<lparr>pending := rest\<rparr>)
      else if slot_generation (slots p ! page_id h) \<noteq> generation h
              \<or> references (slots p ! page_id h) \<noteq> 0
      then (Inl (RuntimeError ''retirement ledger is inconsistent''), p\<lparr>pending := rest\<rparr>)
      else
        (let s = (slots p ! page_id h)\<lparr>retired_after := None\<rparr>;
             p1 = set_slot (page_id h) s (p\<lparr>pending := rest\<rparr>);
             p2 = (if quarantined_generation s \<noteq> Some (generation h)
                   then p1\<lparr>free := free p @ [page_id h]\<rparr> else p1)
         in retire_loop rest kept completed p2))"

definition retire :: "int \<Rightarrow> pool \<Rightarrow> (unit, pool) res" where
  "retire completed p =
     lift_res (uint_check ''completed epoch'' completed U64_MAX) p (\<lambda>_.
       if completed < completed_epoch p
       then (Inl (ValueError ''completed epoch cannot move backward''), p)
       else retire_loop (pending p) [] completed (p\<lparr>completed_epoch := completed\<rparr>))"

section \<open>The ledger invariant\<close>


lemma set_slot_simps [simp]:
  "capacity (set_slot i s p) = capacity p" "free (set_slot i s p) = free p"
  "pending (set_slot i s p) = pending p" "completed_epoch (set_slot i s p) = completed_epoch p"
  "length (slots (set_slot i s p)) = length (slots p)"
  by (simp_all add: set_slot_def)

lemma slots_set_slot [simp]:
  "j < length (slots p) \<Longrightarrow> slots (set_slot i s p) ! j = (if i = j then s else slots p ! j)"
  by (simp add: set_slot_def nth_list_update_if)

lemma slots_set_slot_other [simp]: "i \<noteq> j \<Longrightarrow> slots (set_slot i s p) ! j = slots p ! j"
  by (simp add: set_slot_def)

definition pending_pages :: "pool \<Rightarrow> nat list" where
  "pending_pages p = map (\<lambda>x. page_id (snd x)) (pending p)"

definition slot_ok :: "slot \<Rightarrow> bool" where
  "slot_ok s \<longleftrightarrow> 0 \<le> references s \<and> int (slot_generation s) \<le> U32_MAX
     \<and> (0 < references s \<longrightarrow> 0 < slot_generation s)
     \<and> (quarantined_generation s \<noteq> None \<longrightarrow> quarantined_generation s = Some (slot_generation s))
     \<and> (\<forall>e. retired_after s = Some e \<longrightarrow> 0 \<le> e)"

definition pool_inv :: "pool \<Rightarrow> bool" where
  "pool_inv p \<longleftrightarrow>
     length (slots p) = capacity p \<and> int (capacity p) \<le> U32_MAX
   \<and> 0 \<le> completed_epoch p \<and> completed_epoch p \<le> U64_MAX
   \<and> distinct (free p) \<and> distinct (pending_pages p) \<and> set (free p) \<inter> set (pending_pages p) = {}
   \<and> (\<forall>i \<in> set (free p). i < capacity p \<and> references (slots p ! i) = 0
         \<and> quarantined_generation (slots p ! i) = None)
   \<and> (\<forall>(e, h) \<in> set (pending p). page_id h < capacity p \<and> references (slots p ! page_id h) = 0
         \<and> slot_generation (slots p ! page_id h) = generation h
         \<and> retired_after (slots p ! page_id h) = Some e)
   \<and> (\<forall>i < capacity p. slot_ok (slots p ! i)
         \<and> (references (slots p ! i) = 0 \<and> quarantined_generation (slots p ! i) = None \<longrightarrow>
              i \<in> set (free p) \<union> set (pending_pages p)))"

lemma pending_pages_set [simp]: "pending_pages (set_slot i s p) = pending_pages p"
  by (simp add: pending_pages_def)

lemma new_pool_inv: "new_pool cap = Inr p \<Longrightarrow> pool_inv p"
  by (auto simp: new_pool_def pool_inv_def pending_pages_def slot_ok_def new_slot_def
           split: sum.splits)

lemma pool_invD:
  assumes "pool_inv p"
  shows pool_inv_length: "length (slots p) = capacity p"
    and pool_inv_capacity: "int (capacity p) \<le> U32_MAX"
    and pool_inv_epoch: "0 \<le> completed_epoch p" "completed_epoch p \<le> U64_MAX"
    and pool_inv_free: "i \<in> set (free p) \<Longrightarrow> i < capacity p \<and> references (slots p ! i) = 0
         \<and> quarantined_generation (slots p ! i) = None"
    and pool_inv_pending: "(e, h) \<in> set (pending p) \<Longrightarrow> page_id h < capacity p
         \<and> references (slots p ! page_id h) = 0
         \<and> slot_generation (slots p ! page_id h) = generation h
         \<and> retired_after (slots p ! page_id h) = Some e"
    and pool_inv_distinct: "distinct (free p)" "distinct (pending_pages p)"
       "set (free p) \<inter> set (pending_pages p) = {}"
    and pool_inv_slot: "i < capacity p \<Longrightarrow> slot_ok (slots p ! i)"
    and pool_inv_idle: "i < capacity p \<Longrightarrow> references (slots p ! i) = 0 \<Longrightarrow>
         quarantined_generation (slots p ! i) = None \<Longrightarrow>
         i \<in> set (free p) \<union> set (pending_pages p)"
  using assms unfolding pool_inv_def by blast+

definition opened :: "slot \<Rightarrow> slot" where
  "opened s = s\<lparr>slot_generation := slot_generation s + 1, references := 1, retired_after := None\<rparr>"


text \<open>Every loop body rewrites one slot and moves at most that slot between the lists.\<close>

lemma pool_inv_update:
  assumes inv: "pool_inv p" and i: "i < capacity p" and ok: "slot_ok s"
    and q: "q = p\<lparr>slots := (slots p)[i := s], free := fr, pending := pe\<rparr>"
    and dfr: "distinct fr" and dpe: "distinct (map (\<lambda>x. page_id (snd x)) pe)"
    and apart: "i \<in> set fr \<Longrightarrow> i \<notin> page_id ` snd ` set pe"
    and fr: "set fr - {i} = set (free p) - {i}"
    and pe: "{x \<in> set pe. page_id (snd x) \<noteq> i} = {x \<in> set (pending p). page_id (snd x) \<noteq> i}"
    and s_free: "i \<in> set fr \<Longrightarrow> references s = 0 \<and> quarantined_generation s = None"
    and s_pend: "\<And>e h. (e, h) \<in> set pe \<Longrightarrow> page_id h = i \<Longrightarrow>
       references s = 0 \<and> slot_generation s = generation h \<and> retired_after s = Some e"
    and s_idle: "references s = 0 \<Longrightarrow> quarantined_generation s = None \<Longrightarrow>
       i \<in> set fr \<or> i \<in> page_id ` snd ` set pe"
  shows "pool_inv q"
proof -
  have len: "length (slots p) = capacity p" by (rule pool_inv_length[OF inv])
  have nth: "slots q ! j = (if i = j then s else slots p ! j)" if "j < capacity p" for j
    using that len by (simp add: q nth_list_update_if)
  have in_fr: "j \<in> set fr \<longleftrightarrow> j \<in> set (free p)" if "j \<noteq> i" for j
    using fr that by blast
  have in_pe: "x \<in> set pe \<longleftrightarrow> x \<in> set (pending p)" if "page_id (snd x) \<noteq> i" for x
    using pe that by blast
  have fq: "free q = fr" by (simp add: q)
  have pages: "set (pending_pages q) = page_id ` snd ` set pe"
    by (auto simp: pending_pages_def q)
  have pages_p: "set (pending_pages p) = page_id ` snd ` set (pending p)"
    by (auto simp: pending_pages_def)
  have in_pages: "j \<in> page_id ` snd ` set pe \<longleftrightarrow> j \<in> page_id ` snd ` set (pending p)"
    if "j \<noteq> i" for j
    using in_pe that by (auto simp: image_iff)
  show ?thesis
    unfolding pool_inv_def
  proof (intro conjI allI ballI impI)
    show "length (slots q) = capacity q" "int (capacity q) \<le> U32_MAX" "0 \<le> completed_epoch q"
      "completed_epoch q \<le> U64_MAX"
      using pool_invD(1-4)[OF inv] by (simp_all add: q)
    show "distinct (free q)" using dfr by (simp add: q)
    show "distinct (pending_pages q)" using dpe by (simp add: q pending_pages_def)
    have "j \<notin> page_id ` snd ` set pe" if "j \<in> set fr" for j
    proof (cases "j = i")
      case True
      then show ?thesis using apart that by blast
    next
      case False
      then have "j \<in> set (free p)" using in_fr that by blast
      then have "j \<notin> set (pending_pages p)" using pool_inv_distinct(3)[OF inv] by blast
      then show ?thesis using in_pages[OF False] pages_p by blast
    qed
    then show "set (free q) \<inter> set (pending_pages q) = {}"
      unfolding pages by (simp add: q disjoint_iff)
  next
    fix j assume "j \<in> set (free q)"
    then have j: "j \<in> set fr" by (simp add: q)
    show "j < capacity q"
      using j i in_fr[of j] pool_inv_free[OF inv, of j] by (cases "j = i") (auto simp: q)
    then have jc: "j < capacity p" by (simp add: q)
    show "references (slots q ! j) = 0" "quarantined_generation (slots q ! j) = None"
      using j s_free in_fr[of j] pool_inv_free[OF inv, of j] by (auto simp: nth[OF jc])
  next
    fix x assume x: "x \<in> set (pending q)"
    obtain e h where eh: "x = (e, h)" by (cases x)
    then have "(e, h) \<in> set pe" using x by (simp add: q)
    then have "page_id h < capacity p \<and> references (slots q ! page_id h) = 0
        \<and> slot_generation (slots q ! page_id h) = generation h
        \<and> retired_after (slots q ! page_id h) = Some e"
      using s_pend[of e h] in_pe[of "(e, h)"] pool_inv_pending[OF inv, of e h] nth[of "page_id h"] i
      by (cases "page_id h = i") auto
    then show "case x of (e, h) \<Rightarrow> page_id h < capacity q \<and> references (slots q ! page_id h) = 0
        \<and> slot_generation (slots q ! page_id h) = generation h
        \<and> retired_after (slots q ! page_id h) = Some e"
      by (simp add: eh) (simp add: q)
  next
    fix j assume "j < capacity q"
    then have jc: "j < capacity p" by (simp add: q)
    show "slot_ok (slots q ! j)" using ok pool_inv_slot[OF inv jc] by (simp add: nth[OF jc])
    assume "references (slots q ! j) = 0 \<and> quarantined_generation (slots q ! j) = None"
    then show "j \<in> set (free q) \<union> set (pending_pages q)"
      using s_idle pool_inv_idle[OF inv jc] in_fr[of j] in_pages[of j]
      unfolding pages pages_p fq nth[OF jc] by (cases "j = i") (metis Un_iff)+
  qed
qed

lemma pool_inv_open_slot:
  assumes inv: "pool_inv p" and fr: "free p = xs @ [i]"
    and gen: "int (slot_generation (slots p ! i)) < U32_MAX"
  shows "pool_inv (set_slot i (opened (slots p ! i)) (p\<lparr>free := xs\<rparr>))"
proof (rule pool_inv_update[OF inv, where fr = xs and pe = "pending p"])
  have i: "i \<in> set (free p)" using fr by simp
  show "i < capacity p" using pool_inv_free[OF inv i] by simp
  have quar: "quarantined_generation (slots p ! i) = None" using pool_inv_free[OF inv i] by simp
  show "slot_ok (opened (slots p ! i))" using gen quar by (simp add: slot_ok_def opened_def)
  have np: "i \<notin> page_id ` snd ` set (pending p)"
    using i pool_inv_distinct(3)[OF inv] by (auto simp: pending_pages_def)
  show "i \<in> set xs \<Longrightarrow> references (opened (slots p ! i)) = 0 \<and>
          quarantined_generation (opened (slots p ! i)) = None"
    using pool_inv_distinct(1)[OF inv] fr by simp
  show "references (opened (slots p ! i)) = 0 \<and>
        slot_generation (opened (slots p ! i)) = generation h \<and>
        retired_after (opened (slots p ! i)) = Some e"
    if "(e, h) \<in> set (pending p)" "page_id h = i" for e h
    using np that by force
qed (use pool_inv_distinct[OF inv] fr in \<open>auto simp: pending_pages_def opened_def set_slot_def\<close>)

text \<open>The effect of a successful reservation, read off the pool before and after.\<close>

definition reserved_from :: "pool \<Rightarrow> page_handle list \<Rightarrow> pool \<Rightarrow> bool" where
  "reserved_from p hs q \<longleftrightarrow>
     free p = free q @ rev (map page_id hs) \<and> pending q = pending p
   \<and> completed_epoch q = completed_epoch p \<and> capacity q = capacity p
   \<and> length (slots q) = length (slots p)
   \<and> (\<forall>i < length (slots p). slots q ! i =
        (if i \<in> page_id ` set hs then opened (slots p ! i) else slots p ! i))
   \<and> (\<forall>h \<in> set hs. generation h = slot_generation (slots p ! page_id h) + 1)"

lemma reserved_from_Cons:
  assumes inv: "pool_inv p" and fr: "free p = xs @ [i]"
    and r: "reserved_from (set_slot i (opened (slots p ! i)) (p\<lparr>free := xs\<rparr>)) hs q"
  shows "reserved_from p (PageHandle i (slot_generation (slots p ! i) + 1) # hs) q"
proof -
  have i: "i < length (slots p)" and nx: "i \<notin> set xs"
    using pool_inv_free[OF inv, of i] pool_inv_length[OF inv] pool_inv_distinct(1)[OF inv] fr
    by simp_all
  have "xs = free q @ rev (map page_id hs)" using r by (simp add: reserved_from_def)
  with nx have nh: "i \<notin> page_id ` set hs" by auto
  show ?thesis
    using r i nh fr unfolding reserved_from_def by (auto simp: image_iff)
qed

lemma reserve_loop_ok:
  assumes "pool_inv p" and "n \<le> length (free p)"
    and "\<forall>i \<in> set (drop (length (free p) - n) (free p)). int (slot_generation (slots p ! i)) < U32_MAX"
  shows "\<exists>hs q. reserve_loop n p = (Inr hs, q) \<and> length hs = n \<and> reserved_from p hs q \<and> pool_inv q"
  using assms
proof (induction n arbitrary: p)
  case 0
  then show ?case by (simp add: reserved_from_def)
next
  case (Suc n)
  note inv = Suc.prems(1)
  from Suc.prems(2) obtain xs i where fr: "free p = xs @ [i]"
    by (metis Suc_le_D length_0_conv nat.distinct(1) rev_exhaust length_append_singleton)
  let ?p = "set_slot i (opened (slots p ! i)) (p\<lparr>free := xs\<rparr>)"
  have ic: "i < capacity p" and iq: "quarantined_generation (slots p ! i) = None"
    using pool_inv_free[OF inv, of i] fr by auto
  have gen: "int (slot_generation (slots p ! i)) < U32_MAX"
    using Suc.prems(3) fr by auto
  have inv': "pool_inv ?p" by (rule pool_inv_open_slot[OF inv fr gen])
  have nx: "i \<notin> set xs" using pool_inv_distinct(1)[OF inv] fr by simp
  have "\<forall>j \<in> set (drop (length xs - n) xs). int (slot_generation (slots ?p ! j)) < U32_MAX"
  proof
    fix j assume j: "j \<in> set (drop (length xs - n) xs)"
    then have jx: "j \<in> set xs" by (rule in_set_dropD)
    have "j < length (slots p)"
      using jx pool_inv_free[OF inv, of j] fr pool_inv_length[OF inv] by simp
    moreover have "j \<in> set (drop (length (free p) - Suc n) (free p))"
      using j by (simp add: fr)
    ultimately show "int (slot_generation (slots ?p ! j)) < U32_MAX"
      using Suc.prems(3) jx nx by (cases "i = j") auto
  qed
  with Suc.prems(2) obtain hs q where
    hq: "reserve_loop n ?p = (Inr hs, q)" "length hs = n" "reserved_from ?p hs q" "pool_inv q"
    using Suc.IH[OF inv'] by (auto simp: fr)
  have ph: "page_handle i (slot_generation (opened (slots p ! i)))
            = Inr (PageHandle i (slot_generation (slots p ! i) + 1))"
    using ic gen pool_inv_capacity[OF inv] by (simp add: page_handle_def opened_def uint_check_def positive_check_def)
  have "reserve_loop (Suc n) p = (Inr (PageHandle i (slot_generation (slots p ! i) + 1) # hs), q)"
    using hq ph iq by (simp add: fr opened_def)
  then show ?case
    using hq reserved_from_Cons[OF inv fr hq(3)] by auto
qed

lemma reserve_cases [consumes 1]:
  assumes inv: "pool_inv p"
  obtains (fail) e where "reserve n p = (Inl e, p)"
  | (ok) hs q where "reserve n p = (Inr hs, q)" "int (length hs) = n" "0 < n"
      "reserved_from p hs q" "pool_inv q"
proof (cases "0 < n \<and> n \<le> U32_MAX \<and> n \<le> int (length (free p)) \<and>
    \<not> (\<exists>i \<in> set (drop (length (free p) - nat n) (free p)). int (slot_generation (slots p ! i)) = U32_MAX)")
  case False
  then have "\<exists>e. reserve n p = (Inl e, p)"
    by (cases "positive_check ''page count'' n U32_MAX") (auto simp: reserve_def)
  then show ?thesis using fail by blast
next
  case True
  have "\<forall>i \<in> set (drop (length (free p) - nat n) (free p)). int (slot_generation (slots p ! i)) < U32_MAX"
  proof
    fix i assume i: "i \<in> set (drop (length (free p) - nat n) (free p))"
    then have "i \<in> set (free p)" by (rule in_set_dropD)
    then have "slot_ok (slots p ! i)" using pool_inv_free[OF inv] pool_inv_slot[OF inv] by blast
    with True i show "int (slot_generation (slots p ! i)) < U32_MAX"
      by (force simp: slot_ok_def)
  qed
  with True obtain hs q where "reserve_loop (nat n) p = (Inr hs, q)" "length hs = nat n"
      "reserved_from p hs q" "pool_inv q"
    using reserve_loop_ok[OF inv, of "nat n"] by (auto simp: nat_le_iff)
  moreover have "reserve n p = reserve_loop (nat n) p"
    using True by (cases "positive_check ''page count'' n U32_MAX")
      (auto simp: reserve_def positive_check_def uint_check_def)
  ultimately show ?thesis using True ok by auto
qed

section \<open>Leases\<close>

definition active :: "page_handle \<Rightarrow> pool \<Rightarrow> bool" where
  "active h p \<longleftrightarrow> page_id h < capacity p \<and> slot_generation (slots p ! page_id h) = generation h
     \<and> references (slots p ! page_id h) \<noteq> 0"

lemma active_slot_Inr [simp]: "active_slot h p = Inr i \<longleftrightarrow> i = page_id h \<and> active h p"
  by (auto simp: active_slot_def active_def)

lemma active_slot_active: "active h p \<Longrightarrow> active_slot h p = Inr (page_id h)"
  by simp

lemma length_card_distinct: "length xs = card (set xs) \<longleftrightarrow> distinct xs"
  by (metis card_distinct distinct_card)

lemma active_slots_Inr [simp]:
  "active_slots hs p = Inr is \<longleftrightarrow> is = map page_id hs \<and> (\<forall>h \<in> set hs. active h p)"
  by (induction hs arbitrary: "is") (auto simp: active_slot_active split: sum.splits)

lemma validate_Inr [simp]:
  "validate_unique_active hs p = Inr is \<longleftrightarrow>
     distinct hs \<and> is = map page_id hs \<and> (\<forall>h \<in> set hs. active h p)"
  by (simp add: validate_unique_active_def length_card_distinct)

lemma handle_references_Inr [simp]:
  "handle_references h p = Inr n \<longleftrightarrow> active h p \<and> n = references (slots p ! page_id h)"
  by (auto simp: handle_references_def active_slot_active split: sum.splits)

lemma active_same_page:
  "active h p \<Longrightarrow> active k p \<Longrightarrow> page_id h = page_id k \<Longrightarrow> h = k"
  by (cases h; cases k) (auto simp: active_def)

lemma distinct_pages:
  "distinct hs \<Longrightarrow> \<forall>h \<in> set hs. active h p \<Longrightarrow> distinct (map page_id hs)"
  by (auto simp: distinct_map inj_on_def intro: active_same_page)

lemma active_refs: "pool_inv p \<Longrightarrow> active h p \<Longrightarrow> 0 < references (slots p ! page_id h)"
  using pool_inv_slot[of p "page_id h"] by (force simp: active_def slot_ok_def)

lemma pool_inv_leased_slot:
  assumes inv: "pool_inv p" and i: "i < capacity p" and r: "references (slots p ! i) \<noteq> 0"
    and ok: "slot_ok s" and pos: "0 < references s"
  shows "pool_inv (set_slot i s p)"
proof (rule pool_inv_update[OF inv i ok, where fr = "free p" and pe = "pending p"])
  show "i \<in> set (free p) \<Longrightarrow> references s = 0 \<and> quarantined_generation s = None"
    using pool_inv_free[OF inv] r by blast
  show "references s = 0 \<and> slot_generation s = generation h \<and> retired_after s = Some e"
    if "(e, h) \<in> set (pending p)" "page_id h = i" for e h
    using pool_inv_pending[OF inv that(1)] that(2) r by simp
  show "i \<in> set (free p) \<Longrightarrow> i \<notin> page_id ` snd ` set (pending p)"
    using pool_inv_free[OF inv] r by blast
qed (use pool_inv_distinct[OF inv] pos in \<open>auto simp: pending_pages_def set_slot_def\<close>)

text \<open>What a loop over leased slots leaves behind: one function applied to each of them.\<close>

definition slots_mapped :: "(slot \<Rightarrow> slot) \<Rightarrow> nat set \<Rightarrow> pool \<Rightarrow> pool \<Rightarrow> bool" where
  "slots_mapped f A p q \<longleftrightarrow>
     free q = free p \<and> pending q = pending p \<and> completed_epoch q = completed_epoch p
   \<and> capacity q = capacity p \<and> length (slots q) = length (slots p)
   \<and> (\<forall>i < length (slots p). slots q ! i = (if i \<in> A then f (slots p ! i) else slots p ! i))"

definition leased :: "slot \<Rightarrow> slot" where
  "leased s = s\<lparr>references := references s + 1\<rparr>"

definition quarantined :: "slot \<Rightarrow> slot" where
  "quarantined s = s\<lparr>quarantined_generation := Some (slot_generation s)\<rparr>"

lemma slots_mapped_step:
  assumes "slots_mapped f A (set_slot i (f (slots p ! i)) p) q" and "i \<notin> A" and "i < length (slots p)"
  shows "slots_mapped f (insert i A) p q"
  using assms by (auto simp: slots_mapped_def)

lemma fold_slots_ok:
  assumes "pool_inv p" and "distinct is" and "\<forall>i \<in> set is. i < capacity p \<and> 0 < references (slots p ! i)"
    and f: "\<And>s. slot_ok s \<Longrightarrow> 0 < references s \<Longrightarrow> slot_ok (f s) \<and> 0 < references (f s)"
  shows "pool_inv (fold (\<lambda>i p. set_slot i (f (slots p ! i)) p) is p)
       \<and> slots_mapped f (set is) p (fold (\<lambda>i p. set_slot i (f (slots p ! i)) p) is p)"
  using assms(1-3)
proof (induction "is" arbitrary: p)
  case Nil
  then show ?case by (simp add: slots_mapped_def)
next
  case (Cons i "is")
  let ?p = "set_slot i (f (slots p ! i)) p"
  have i: "i < capacity p" "0 < references (slots p ! i)" "slot_ok (slots p ! i)"
    using Cons.prems pool_inv_slot by auto
  then have inv: "pool_inv ?p"
    using f by (intro pool_inv_leased_slot Cons.prems(1)) auto
  have "\<forall>j \<in> set is. j < capacity ?p \<and> 0 < references (slots ?p ! j)"
    using Cons.prems by (metis distinct.simps(2) list.set_intros(2) set_slot_simps(1) slots_set_slot_other)
  then show ?case
    using Cons.IH[OF inv] Cons.prems i slots_mapped_step[of f "set is" i p]
      pool_inv_length[OF Cons.prems(1)]
    by simp
qed

lemma retain_loop_fold: "retain_loop is p = fold (\<lambda>i p. set_slot i (leased (slots p ! i)) p) is p"
  by (induction "is" p rule: retain_loop.induct) (simp_all add: leased_def)

lemma quarantine_loop_fold:
  "quarantine_loop is p = fold (\<lambda>i p. set_slot i (quarantined (slots p ! i)) p) is p"
  by (induction "is" p rule: quarantine_loop.induct) (simp_all add: quarantined_def)

lemma pages_leased:
  assumes "pool_inv p" and "\<forall>h \<in> set hs. active h p"
  shows "\<forall>i \<in> set (map page_id hs). i < capacity p \<and> 0 < references (slots p ! i)"
  using assms by (auto simp: active_refs) (auto simp: active_def)

lemma retain_loop_ok:
  assumes "pool_inv p" and "distinct hs" and "\<forall>h \<in> set hs. active h p"
  shows "pool_inv (retain_loop (map page_id hs) p)
       \<and> slots_mapped leased (page_id ` set hs) p (retain_loop (map page_id hs) p)"
  using fold_slots_ok[OF assms(1) distinct_pages[OF assms(2,3)] pages_leased[OF assms(1,3)], of leased]
  by (simp add: retain_loop_fold leased_def slot_ok_def)

lemma quarantine_loop_ok:
  assumes "pool_inv p" and "distinct hs" and "\<forall>h \<in> set hs. active h p"
  shows "pool_inv (quarantine_loop (map page_id hs) p)
       \<and> slots_mapped quarantined (page_id ` set hs) p (quarantine_loop (map page_id hs) p)"
  using fold_slots_ok[OF assms(1) distinct_pages[OF assms(2,3)] pages_leased[OF assms(1,3)], of quarantined]
  by (simp add: quarantine_loop_fold quarantined_def slot_ok_def)

definition fence :: "slot \<Rightarrow> int \<Rightarrow> pool \<Rightarrow> int" where
  "fence s after p = max (max (case retired_after s of None \<Rightarrow> 0 | Some e \<Rightarrow> e) after)
                         (completed_epoch p)"

definition dropped :: "int \<Rightarrow> pool \<Rightarrow> slot \<Rightarrow> slot" where
  "dropped after p s = s\<lparr>retired_after := Some (fence s after p), references := references s - 1\<rparr>"

lemma release_one_eq:
  "release_one h after p =
     (let s = dropped after p (slots p ! page_id h); p1 = set_slot (page_id h) s p
      in if references s = 0
         then p1\<lparr>pending := pending p @ [(fence (slots p ! page_id h) after p, h)]\<rparr> else p1)"
  by (simp add: release_one_def dropped_def fence_def Let_def)

lemma pool_inv_release_one:
  assumes inv: "pool_inv p" and a: "active h p" and after: "0 \<le> after"
  shows "pool_inv (release_one h after p)"
proof -
  let ?i = "page_id h" let ?s = "dropped after p (slots p ! ?i)"
  have i: "?i < capacity p" "slot_generation (slots p ! ?i) = generation h"
    and r: "0 < references (slots p ! ?i)"
    using a active_refs[OF inv a] by (auto simp: active_def)
  have ok: "slot_ok ?s"
    using pool_inv_slot[OF inv i(1)] r pool_inv_epoch[OF inv]
    by (auto simp: slot_ok_def dropped_def fence_def)
  have nf: "?i \<notin> set (free p)" "?i \<notin> page_id ` snd ` set (pending p)"
    using pool_inv_free[OF inv, of ?i] pool_inv_pending[OF inv] r by fastforce+
  show ?thesis
  proof (cases "references ?s = 0")
    case False
    then have "0 < references ?s" using r by (simp add: dropped_def)
    then have "pool_inv (set_slot ?i ?s p)"
      using r by (intro pool_inv_leased_slot[OF inv i(1) _ ok]) auto
    with False show ?thesis by (simp add: release_one_eq Let_def)
  next
    case True
    let ?e = "fence (slots p ! ?i) after p"
    have "pool_inv ((set_slot ?i ?s p)\<lparr>pending := pending p @ [(?e, h)]\<rparr>)"
    proof (rule pool_inv_update[OF inv i(1) ok, where fr = "free p" and pe = "pending p @ [(?e, h)]"])
      show "references ?s = 0 \<and> slot_generation ?s = generation k \<and> retired_after ?s = Some e"
        if "(e, k) \<in> set (pending p @ [(?e, h)])" "page_id k = ?i" for e k
      proof -
        have "(e, k) \<notin> set (pending p)" using that(2) nf(2) by (metis image_eqI snd_conv)
        then have "e = ?e" "k = h" using that(1) by auto
        then show ?thesis using True i(2) by (simp add: dropped_def)
      qed
    qed (use pool_inv_distinct[OF inv] nf in
        \<open>auto simp: pending_pages_def set_slot_def image_iff\<close>)
    with True show ?thesis by (simp add: release_one_eq Let_def)
  qed
qed

lemma release_one_frame [simp]:
  "free (release_one h after p) = free p" "completed_epoch (release_one h after p) = completed_epoch p"
  "capacity (release_one h after p) = capacity p"
  "length (slots (release_one h after p)) = length (slots p)"
  by (simp_all add: release_one_eq Let_def)

lemma release_one_slots:
  "j < length (slots p) \<Longrightarrow> slots (release_one h after p) ! j =
     (if j = page_id h then dropped after p (slots p ! j) else slots p ! j)"
  by (auto simp: release_one_eq Let_def)

lemma active_release_one:
  assumes "pool_inv p" "active h p" "active k p" "k \<noteq> h"
  shows "active k (release_one h after p)"
proof -
  have "page_id k \<noteq> page_id h" using assms(2-4) active_same_page by blast
  then show ?thesis
    using assms(3) release_one_slots[of "page_id k" p h after] pool_inv_length[OF assms(1)]
    by (simp add: active_def)
qed

lemma map_filter_cong:
  assumes "\<And>x. x \<in> set xs \<Longrightarrow> P x = Q x" and "\<And>x. x \<in> set xs \<Longrightarrow> f x = g x"
  shows "map f (filter P xs) = map g (filter Q xs)"
  using assms by (induction xs) auto

text \<open>
  What \<open>release\<close> leaves behind: each named slot loses one lease and remembers its fence;
  the slots that reached zero enter the pending queue, in order.
\<close>

definition released_to :: "pool \<Rightarrow> page_handle list \<Rightarrow> int \<Rightarrow> pool \<Rightarrow> bool" where
  "released_to p hs after q \<longleftrightarrow>
     free q = free p \<and> completed_epoch q = completed_epoch p \<and> capacity q = capacity p
   \<and> length (slots q) = length (slots p)
   \<and> (\<forall>i < length (slots p). slots q ! i =
        (if i \<in> page_id ` set hs then dropped after p (slots p ! i) else slots p ! i))
   \<and> pending q = pending p @ map (\<lambda>h. (fence (slots p ! page_id h) after p, h))
        (filter (\<lambda>h. references (slots p ! page_id h) = 1) hs)"

lemma release_loop_ok:
  assumes "pool_inv p" and "distinct hs" and "\<forall>h \<in> set hs. active h p" and "0 \<le> after"
  shows "pool_inv (release_loop hs after p) \<and> released_to p hs after (release_loop hs after p)"
  using assms
proof (induction hs arbitrary: p)
  case Nil
  then show ?case by (simp add: released_to_def)
next
  case (Cons h hs)
  let ?p = "release_one h after p"
  have a: "active h p" and inv: "pool_inv ?p"
    using Cons.prems pool_inv_release_one by auto
  have act: "\<forall>k \<in> set hs. active k ?p"
    using Cons.prems active_release_one by (metis distinct.simps(2) list.set_intros)
  have IH: "pool_inv (release_loop hs after ?p) \<and> released_to ?p hs after (release_loop hs after ?p)"
    using Cons.prems by (intro Cons.IH[OF inv _ act]) auto
  have len: "length (slots p) = capacity p" by (rule pool_inv_length[OF Cons.prems(1)])
  have pg: "page_id k < length (slots p)" "page_id k \<noteq> page_id h" if "k \<in> set hs" for k
    using that Cons.prems(2,3) active_same_page[of k p h] len
    by (simp add: active_def) (metis a that Cons.prems(2,3) active_same_page distinct.simps(2) list.set_intros(2))
  have nh: "page_id h \<notin> page_id ` set hs" using pg(2) by force
  have hl: "page_id h < length (slots p)" using a len by (simp add: active_def)
  have same: "slots ?p ! page_id k = slots p ! page_id k" if "k \<in> set hs" for k
    using pg[OF that] by (simp add: release_one_slots)
  have f: "fence s after ?p = fence s after p" "dropped after ?p s = dropped after p s" for s
    by (simp_all add: fence_def dropped_def)
  have pend: "pending ?p = pending p @ map (\<lambda>h. (fence (slots p ! page_id h) after p, h))
        (filter (\<lambda>h. references (slots p ! page_id h) = 1) [h])"
    by (simp add: release_one_eq Let_def dropped_def)
  have maps: "map (\<lambda>h. (fence (slots ?p ! page_id h) after ?p, h))
        (filter (\<lambda>h. references (slots ?p ! page_id h) = 1) hs)
      = map (\<lambda>h. (fence (slots p ! page_id h) after p, h))
        (filter (\<lambda>h. references (slots p ! page_id h) = 1) hs)"
    by (rule map_filter_cong) (simp_all add: same f)
  let ?q = "release_loop hs after ?p"
  have slots: "slots ?q ! i = (if i \<in> page_id ` set (h # hs) then dropped after p (slots p ! i)
      else slots p ! i)" if "i < length (slots p)" for i
    using IH that nh unfolding released_to_def by (auto simp: release_one_slots f)
  have "released_to p (h # hs) after ?q"
    using IH slots unfolding released_to_def maps pend by simp
  with IH show ?case by simp
qed

text \<open>
  What \<open>retire\<close> leaves behind: exactly the entries whose fence is complete leave the
  queue, and the slots among them that are not quarantined become free.
\<close>

definition retired_to :: "(int \<times> page_handle) list \<Rightarrow> int \<Rightarrow> pool \<Rightarrow> pool \<Rightarrow> bool" where
  "retired_to todo completed p q \<longleftrightarrow>
     capacity q = capacity p \<and> completed_epoch q = completed_epoch p
   \<and> length (slots q) = length (slots p)
   \<and> free q = free p @ map (\<lambda>x. page_id (snd x)) (filter (\<lambda>x. fst x \<le> completed
        \<and> quarantined_generation (slots p ! page_id (snd x)) = None) todo)
   \<and> (\<forall>i < length (slots p). slots q ! i =
        (if \<exists>x \<in> set todo. fst x \<le> completed \<and> page_id (snd x) = i
         then (slots p ! i)\<lparr>retired_after := None\<rparr> else slots p ! i))"

lemma retire_loop_ok:
  assumes "pool_inv (p\<lparr>pending := kept @ todo\<rparr>)"
  shows "\<exists>q. retire_loop todo kept c p = (Inr (), q) \<and> pool_inv q
           \<and> pending q = kept @ filter (\<lambda>x. c < fst x) todo \<and> retired_to todo c p q"
  using assms
proof (induction todo arbitrary: kept p)
  case Nil
  then show ?case by (simp add: retired_to_def)
next
  case (Cons x todo)
  obtain e h where x: "x = (e, h)" by (cases x)
  let ?P = "p\<lparr>pending := kept @ x # todo\<rparr>"
  let ?i = "page_id h"
  note inv = Cons.prems
  have h: "?i < capacity p" "references (slots p ! ?i) = 0"
      "slot_generation (slots p ! ?i) = generation h"
    using pool_inv_pending[OF inv, of e h] by (simp_all add: x)
  have len: "length (slots p) = capacity p" using pool_inv_length[OF inv] by simp
  show ?case
  proof (cases "c < e")
    case True
    have "pool_inv ((p\<lparr>pending := todo\<rparr>)\<lparr>pending := (kept @ [x]) @ todo\<rparr>)"
      using inv by simp
    from Cons.IH[OF this] True show ?thesis by (auto simp: x retired_to_def)
  next
    case False
    let ?q = "quarantined_generation (slots p ! ?i)"
    let ?s = "(slots p ! ?i)\<lparr>retired_after := None\<rparr>"
    let ?fr = "if ?q = None then free p @ [?i] else free p"
    let ?p = "(set_slot ?i ?s (p\<lparr>pending := todo\<rparr>))\<lparr>free := ?fr\<rparr>"
    have ok: "slot_ok (slots p ! ?i)" using pool_inv_slot[OF inv, of ?i] h by simp
    then have qg: "?q \<noteq> None \<longleftrightarrow> ?q = Some (generation h)"
      using h(3) by (auto simp: slot_ok_def)
    have dist: "distinct (map (\<lambda>x. page_id (snd x)) (kept @ x # todo))"
      using pool_inv_distinct(2)[OF inv] by (simp add: pending_pages_def)
    have nf: "?i \<notin> set (free p)"
      using pool_inv_distinct(3)[OF inv] by (auto simp: pending_pages_def x)
    have np: "?i \<notin> page_id ` snd ` set (kept @ todo)"
      using dist by (auto simp: x image_iff)
    have "pool_inv (?p\<lparr>pending := kept @ todo\<rparr>)"
    proof (rule pool_inv_update[OF inv, where i = ?i and s = ?s and fr = ?fr and pe = "kept @ todo"])
      show "?i < capacity ?P" using h by simp
      show "slot_ok ?s" using ok by (simp add: slot_ok_def)
      show "references ?s = 0 \<and> slot_generation ?s = generation k \<and> retired_after ?s = Some d"
        if "(d, k) \<in> set (kept @ todo)" "page_id k = ?i" for d k
        using that np by (metis image_eqI snd_conv)
    qed (use nf np dist h pool_inv_distinct(1)[OF inv] in
        \<open>auto simp: set_slot_def x split: if_splits\<close>)
    from Cons.IH[OF this] obtain r where
      r: "retire_loop todo kept c ?p = (Inr (), r)" "pool_inv r"
         "pending r = kept @ filter (\<lambda>x. c < fst x) todo" "retired_to todo c ?p r" by blast
    have "retire_loop (x # todo) kept c p = (Inr (), r)"
      using r(1) False h qg by (auto simp: x Let_def set_slot_def)
    moreover have "retired_to (x # todo) c p r"
    proof -
      have other: "?i \<noteq> page_id (snd y)" if "y \<in> set todo" for y
        using np that by (metis Un_iff image_eqI set_append)
      then have flt: "filter (\<lambda>y. fst y \<le> c \<and> quarantined_generation (slots ?p ! page_id (snd y)) = None) todo
          = filter (\<lambda>y. fst y \<le> c \<and> quarantined_generation (slots p ! page_id (snd y)) = None) todo"
        by (auto intro!: filter_cong simp: set_slot_def)
      show ?thesis
        using r(4) False h len other unfolding retired_to_def flt
        by (auto simp: x set_slot_def nth_list_update_if)
    qed
    ultimately show ?thesis using r False by (auto simp: x)
  qed
qed

section \<open>The operations preserve the invariant\<close>

lemma retire_cases [consumes 1]:
  assumes inv: "pool_inv p"
  obtains (fail) e where "retire c p = (Inl e, p)" "c < completed_epoch p \<or> U64_MAX < c"
  | (ok) q where "retire c p = (Inr (), q)" "pool_inv q" "completed_epoch p \<le> c" "c \<le> U64_MAX"
      "pending q = filter (\<lambda>x. c < fst x) (pending p)"
      "retired_to (pending p) c (p\<lparr>completed_epoch := c\<rparr>) q"
proof (cases "completed_epoch p \<le> c \<and> c \<le> U64_MAX")
  case True
  then have "pool_inv ((p\<lparr>completed_epoch := c\<rparr>)\<lparr>pending := [] @ pending p\<rparr>)"
    using inv by (simp add: pool_inv_def pending_pages_def)
  from retire_loop_ok[OF this, of c] True ok show ?thesis
    using pool_inv_epoch(1)[OF inv] by (auto simp: retire_def uint_check_def)
next
  case False
  then show ?thesis
    using pool_inv_epoch(1)[OF inv] fail
    by (cases "uint_check ''completed epoch'' c U64_MAX") (auto simp: retire_def uint_check_def split: if_splits)
qed

lemma retain_cases [consumes 1]:
  assumes inv: "pool_inv p"
  obtains (fail) e where "retain hs p = (Inl e, p)"
  | (ok) q where "retain hs p = (Inr (), q)" "pool_inv q" "distinct hs" "\<forall>h \<in> set hs. active h p"
      "\<forall>h \<in> set hs. quarantined_generation (slots p ! page_id h) = None"
      "slots_mapped leased (page_id ` set hs) p q"
proof (cases "validate_unique_active hs p")
  case (Inl e)
  then show ?thesis using fail by (simp add: retain_def)
next
  case (Inr "is")
  then have v: "distinct hs" "is = map page_id hs" "\<forall>h \<in> set hs. active h p" by simp_all
  have quar: "quarantined_generation (slots p ! page_id h) = None
      \<or> quarantined_generation (slots p ! page_id h) = Some (slot_generation (slots p ! page_id h))"
    if "h \<in> set hs" for h
    using that v(3) pool_inv_slot[OF inv, of "page_id h"] by (auto simp: active_def slot_ok_def)
  show ?thesis
  proof (cases "\<exists>h \<in> set hs. quarantined_generation (slots p ! page_id h)
                   = Some (slot_generation (slots p ! page_id h))")
    case True
    then show ?thesis using fail Inr v(2) by (auto simp: retain_def simp del: validate_Inr)
  next
    case False
    then have "retain hs p = (Inr (), retain_loop (map page_id hs) p)"
      using Inr v(2) by (simp add: retain_def del: validate_Inr)
    then show ?thesis
      using ok v retain_loop_ok[OF inv v(1,3)] quar False by blast
  qed
qed

lemma quarantine_cases [consumes 1]:
  assumes inv: "pool_inv p"
  obtains (fail) e where "quarantine hs p = (Inl e, p)"
  | (ok) q where "quarantine hs p = (Inr (), q)" "pool_inv q" "distinct hs" "\<forall>h \<in> set hs. active h p"
      "slots_mapped quarantined (page_id ` set hs) p q"
proof (cases "validate_unique_active hs p")
  case (Inl e)
  then show ?thesis using fail by (simp add: quarantine_def)
next
  case (Inr "is")
  then have v: "distinct hs" "is = map page_id hs" "\<forall>h \<in> set hs. active h p" by simp_all
  then show ?thesis
    using ok quarantine_loop_ok[OF inv v(1,3)] Inr by (simp add: quarantine_def del: validate_Inr)
qed

lemma release_cases [consumes 1]:
  assumes inv: "pool_inv p"
  obtains (fail) e where "release hs after p = (Inl e, p)"
      "\<not> (0 \<le> after \<and> after \<le> U64_MAX \<and> distinct hs \<and> (\<forall>h \<in> set hs. active h p))"
  | (ok) q where "release hs after p = (Inr (), q)" "pool_inv q" "distinct hs"
      "\<forall>h \<in> set hs. active h p" "0 \<le> after" "after \<le> U64_MAX" "released_to p hs after q"
proof (cases "0 \<le> after \<and> after \<le> U64_MAX \<and> distinct hs \<and> (\<forall>h \<in> set hs. active h p)")
  case True
  then have "validate_unique_active hs p = Inr (map page_id hs)" by simp
  then show ?thesis
    using ok True release_loop_ok[OF inv]
    by (simp add: release_def uint_check_def del: validate_Inr)
next
  case False
  show ?thesis
  proof (cases "uint_check ''last use epoch'' after U64_MAX")
    case Inl
    then show ?thesis using fail False by (simp add: release_def)
  next
    case (Inr u)
    then have "0 \<le> after \<and> after \<le> U64_MAX" by simp
    with Inr show ?thesis
      using fail False
      by (cases "validate_unique_active hs p") (auto simp: release_def simp del: uint_check_Inr)
  qed
qed


lemma reserve_keeps_active:
  assumes inv: "pool_inv p" and r: "reserved_from p hs q" and a: "active h p"
  shows "active h q" and "slots q ! page_id h = slots p ! page_id h"
proof -
  have i: "page_id h < length (slots p)" "references (slots p ! page_id h) \<noteq> 0"
    using a pool_inv_length[OF inv] by (auto simp: active_def)
  have "page_id h \<notin> set (free p)" using pool_inv_free[OF inv] i(2) by blast
  then have "page_id h \<notin> page_id ` set hs" using r by (auto simp: reserved_from_def)
  then show "slots q ! page_id h = slots p ! page_id h" using r i by (simp add: reserved_from_def)
  then show "active h q" using a r by (simp add: active_def reserved_from_def)
qed

lemma copy_on_write_cases [consumes 1]:
  assumes inv: "pool_inv p"
  obtains (fail) e where "copy_on_write h after p = (Inl e, p)"
  | (sole) "copy_on_write h after p = (Inr h, p)" "active h p" "references (slots p ! page_id h) = 1"
  | (copied) k q r where "copy_on_write h after p = (Inr k, r)" "active h p"
      "1 < references (slots p ! page_id h)" "0 \<le> after"
      "reserved_from p [k] q" "pool_inv q" "active h q" "released_to q [h] after r" "pool_inv r"
proof (cases "0 \<le> after \<and> after \<le> U64_MAX \<and> active h p \<and> references (slots p ! page_id h) \<noteq> 1")
  case False
  show ?thesis
  proof (cases "0 \<le> after \<and> after \<le> U64_MAX")
    case True
    then show ?thesis
      using False fail sole
      by (cases "handle_references h p")
        (auto simp: copy_on_write_def uint_check_def simp del: handle_references_Inr
              dest: handle_references_Inr[THEN iffD1])
  next
    case False
    then show ?thesis using fail by (simp add: copy_on_write_def uint_check_def)
  qed
next
  case True
  have hr: "handle_references h p = Inr (references (slots p ! page_id h))" using True by simp
  note failed = fail and finished = copied
  from inv show ?thesis
  proof (cases rule: reserve_cases[where n = 1])
    case (fail e)
    then show ?thesis
      using failed True hr by (simp add: copy_on_write_def uint_check_def del: handle_references_Inr)
  next
    case (ok hs q)
    then obtain k where k: "hs = [k]" by (cases hs) auto
    have aq: "active h q" by (rule reserve_keeps_active[OF inv ok(4)]) (use True in simp)
    from ok(5) show ?thesis
    proof (cases rule: release_cases[where hs = "[h]" and after = after])
      case (fail e)
      then show ?thesis using True aq by auto
    next
      case (ok r)
      then show ?thesis
        using finished[of k r q] True hr k aq \<open>reserve 1 p = (Inr hs, q)\<close>
          \<open>reserved_from p hs q\<close> \<open>pool_inv q\<close> active_refs[OF inv, of h]
        by (simp add: copy_on_write_def uint_check_def del: handle_references_Inr)
    qed
  qed
qed

section \<open>The pool as a machine\<close>

datatype pool_call =
    Reserve int
  | Quarantine "page_handle list"
  | Retain "page_handle list"
  | Release "page_handle list" int
  | CopyOnWrite page_handle int
  | Retire int

fun pool_step :: "pool_call \<Rightarrow> pool \<Rightarrow> (page_handle list, pool) res" where
  "pool_step (Reserve n) p = reserve n p"
| "pool_step (Quarantine hs) p = bind_res (quarantine hs p) (\<lambda>_ q. (Inr [], q))"
| "pool_step (Retain hs) p = bind_res (retain hs p) (\<lambda>_ q. (Inr [], q))"
| "pool_step (Release hs after) p = bind_res (release hs after p) (\<lambda>_ q. (Inr [], q))"
| "pool_step (CopyOnWrite h after) p = bind_res (copy_on_write h after p) (\<lambda>k q. (Inr [k], q))"
| "pool_step (Retire c) p = bind_res (retire c p) (\<lambda>_ q. (Inr [], q))"

definition pool_start :: "pool \<Rightarrow> bool" where
  "pool_start p \<longleftrightarrow> (\<exists>cap. new_pool cap = Inr p)"

text \<open>
  Every call either raises and leaves the pool alone, or is one of five changes.  All facts
  about single calls below are read off this case analysis.
\<close>

lemma pool_step_cases [consumes 1, case_names idle reserved mapped released copied retired]:
  assumes inv: "pool_inv p"
    and idle: "snd (pool_step c p) = p \<Longrightarrow> P"
    and reserved: "\<And>n hs q. c = Reserve n \<Longrightarrow> pool_step c p = (Inr hs, q) \<Longrightarrow> reserved_from p hs q
        \<Longrightarrow> pool_inv q \<Longrightarrow> P"
    and mapped: "\<And>f A q. pool_step c p = (Inr [], q) \<Longrightarrow> slots_mapped f A p q \<Longrightarrow> pool_inv q \<Longrightarrow>
        f = leased \<or> f = quarantined \<Longrightarrow>
        \<forall>i \<in> A. i < capacity p \<and> 0 < references (slots p ! i) \<Longrightarrow> P"
    and released: "\<And>hs after q. pool_step c p = (Inr [], q) \<Longrightarrow> released_to p hs after q \<Longrightarrow>
        pool_inv q \<Longrightarrow> \<forall>h \<in> set hs. active h p \<Longrightarrow> P"
    and copied: "\<And>h k after q r. pool_step c p = (Inr [k], r) \<Longrightarrow> reserved_from p [k] q \<Longrightarrow> pool_inv q \<Longrightarrow>
        active h q \<Longrightarrow> released_to q [h] after r \<Longrightarrow> pool_inv r \<Longrightarrow> P"
    and retired: "\<And>n q. c = Retire n \<Longrightarrow> pool_step c p = (Inr [], q) \<Longrightarrow> pool_inv q \<Longrightarrow>
        completed_epoch p \<le> n \<Longrightarrow>
        pending q = filter (\<lambda>x. n < fst x) (pending p) \<Longrightarrow>
        retired_to (pending p) n (p\<lparr>completed_epoch := n\<rparr>) q \<Longrightarrow> P"
  shows P
proof (cases c)
  case (Reserve n)
  from inv show ?thesis
    by (cases rule: reserve_cases[where n = n]) (auto intro: idle reserved simp: Reserve)
next
  case (Quarantine hs)
  from inv show ?thesis
  proof (cases rule: quarantine_cases[where hs = hs])
    case (fail e)
    then show ?thesis by (intro idle) (simp add: Quarantine)
  next
    case (ok q)
    show ?thesis
      by (rule mapped[OF _ ok(5) ok(2)])
        (use ok pages_leased[OF inv ok(4)] in \<open>auto simp: Quarantine\<close>)
  qed
next
  case (Retain hs)
  from inv show ?thesis
  proof (cases rule: retain_cases[where hs = hs])
    case (fail e)
    then show ?thesis by (intro idle) (simp add: Retain)
  next
    case (ok q)
    show ?thesis
      by (rule mapped[OF _ ok(6) ok(2)])
        (use ok pages_leased[OF inv ok(4)] in \<open>auto simp: Retain\<close>)
  qed
next
  case (Release hs after)
  from inv show ?thesis
    by (cases rule: release_cases[where hs = hs and after = after]) (auto simp: Release intro: idle released)
next
  case (CopyOnWrite h after)
  from inv show ?thesis
    by (cases rule: copy_on_write_cases[where h = h and after = after])
      (auto simp: CopyOnWrite intro: idle copied)
next
  case (Retire n)
  from inv show ?thesis
    by (cases rule: retire_cases[where c = n]) (auto simp: Retire intro: idle retired)
qed


interpretation pool_machine: stateful_component pool_start pool_step pool_inv
proof unfold_locales
  show "pool_start p \<Longrightarrow> pool_inv p" for p by (auto simp: pool_start_def intro: new_pool_inv)
  show "pool_inv p \<Longrightarrow> pool_inv (snd (pool_step c p))" for c p
    by (cases rule: pool_step_cases[where p = p and c = c]) auto
qed

definition lost_slots :: "pool \<Rightarrow> nat list" where
  "lost_slots p = filter (\<lambda>i. references (slots p ! i) = 0
     \<and> quarantined_generation (slots p ! i) \<noteq> None \<and> i \<notin> set (pending_pages p)) [0..<capacity p]"

lemma allocated_count_card:
  assumes "length (slots p) = capacity p"
  shows "allocated_count p = card {i. i < capacity p \<and> 0 < references (slots p ! i)}"
  using assms by (simp add: allocated_count_def length_filter_conv_card)

text \<open>
  C20: In every reachable pool the free slots, the slots waiting for a completed epoch, the
  leased slots and the slots lost to quarantine add up to the capacity: no page is leaked and
  none is counted twice.
\<close>

theorem pool_slots_partition:
  assumes "reachable pool_start pool_step p"
  shows "free_count p + pending_count p + allocated_count p + length (lost_slots p) = capacity p"
proof -
  have inv: "pool_inv p" by (rule pool_machine.inv_reachable[OF assms])
  let ?L = "{i. i < capacity p \<and> 0 < references (slots p ! i)}"
  let ?Q = "set (lost_slots p)"
  note pd = pool_inv_distinct[OF inv] and fr = pool_inv_free[OF inv]
  have pe: "i < capacity p \<and> references (slots p ! i) = 0" if "i \<in> set (pending_pages p)" for i
    using that pool_inv_pending[OF inv] by (auto simp: pending_pages_def)
  have cover: "{..<capacity p} = set (free p) \<union> set (pending_pages p) \<union> ?L \<union> ?Q"
  proof (intro equalityI subsetI)
    fix i assume "i \<in> {..<capacity p}"
    then have i: "i < capacity p" by simp
    then have "0 \<le> references (slots p ! i)" using pool_inv_slot[OF inv] by (simp add: slot_ok_def)
    then show "i \<in> set (free p) \<union> set (pending_pages p) \<union> ?L \<union> ?Q"
      using i pool_inv_idle[OF inv i]
      by (cases "quarantined_generation (slots p ! i)") (auto simp: lost_slots_def)
  qed (use fr pe in \<open>auto simp: lost_slots_def\<close>)
  have disj: "(set (free p) \<union> set (pending_pages p)) \<inter> (?L \<union> ?Q) = {}" "?L \<inter> ?Q = {}"
    using fr pe by (auto simp: lost_slots_def)
  have "distinct (lost_slots p)" by (simp add: lost_slots_def)
  moreover have "length (pending_pages p) = pending_count p"
    by (simp add: pending_pages_def pending_count_def)
  ultimately have cards: "card (set (pending_pages p)) = pending_count p"
      "card ?Q = length (lost_slots p)" "card ?L = allocated_count p"
    using pd(2) by (simp_all add: distinct_card allocated_count_card pool_inv_length[OF inv])
  have "capacity p = card (set (free p) \<union> set (pending_pages p) \<union> (?L \<union> ?Q))"
    using cover by (metis Un_assoc card_lessThan)
  also have "\<dots> = card (set (free p)) + card (set (pending_pages p)) + (card ?L + card ?Q)"
    using disj pd(3) by (simp add: card_Un_disjoint)
  finally show ?thesis
    using pd cards by (simp add: free_count_def distinct_card)
qed

theorem pool_failure_atomic:
  assumes "reachable pool_start pool_step p" and "pool_step c p = (Inl e, q)"
  shows "q = p"
  using pool_machine.inv_reachable[OF assms(1)] assms(2)
  by (cases rule: pool_step_cases[where c = c]) auto

text \<open>
  A successful reservation returns exactly the requested number of pages, on distinct slots
  that were free, each live with exactly one lease in a generation never used before.
\<close>

theorem reserve_fresh:
  assumes "reachable pool_start pool_step p" and "reserve n p = (Inr hs, q)"
  shows "int (length hs) = n \<and> distinct (map page_id hs)
     \<and> (\<forall>h \<in> set hs. active h q \<and> references (slots q ! page_id h) = 1
           \<and> generation h = slot_generation (slots p ! page_id h) + 1
           \<and> references (slots p ! page_id h) = 0
           \<and> quarantined_generation (slots p ! page_id h) = None
           \<and> page_id h \<notin> set (pending_pages p))
     \<and> (\<forall>k. active k p \<longrightarrow> active k q \<and> slots q ! page_id k = slots p ! page_id k
           \<and> page_id k \<notin> page_id ` set hs)"
proof -
  have inv: "pool_inv p" by (rule pool_machine.inv_reachable[OF assms(1)])
  from inv assms(2) have r: "int (length hs) = n" "reserved_from p hs q"
    by (auto elim: reserve_cases[where n = n])
  have pages: "page_id ` set hs \<subseteq> set (free p)" and d: "distinct (map page_id hs)"
    using r(2) pool_inv_distinct(1)[OF inv] by (auto simp: reserved_from_def)
  have fresh: "active h q \<and> references (slots q ! page_id h) = 1
      \<and> generation h = slot_generation (slots p ! page_id h) + 1
      \<and> references (slots p ! page_id h) = 0
      \<and> quarantined_generation (slots p ! page_id h) = None
      \<and> page_id h \<notin> set (pending_pages p)" if h: "h \<in> set hs" for h
  proof -
    have f: "page_id h \<in> set (free p)" using pages h by blast
    then show ?thesis
      using pool_inv_free[OF inv f] pool_inv_length[OF inv] pool_inv_distinct(3)[OF inv] r(2) h
      by (auto simp: reserved_from_def active_def opened_def)
  qed
  have keep: "active k q \<and> slots q ! page_id k = slots p ! page_id k \<and> page_id k \<notin> page_id ` set hs"
    if "active k p" for k
    using reserve_keeps_active[OF inv r(2) that] that pages pool_inv_free[OF inv]
    by (auto simp: active_def)
  show ?thesis using r(1) d fresh keep by blast
qed

text \<open>
  The pending queue, the free list and the generations over whole runs.  Each fact is first
  shown for one call and lifted with \<open>run_keeps\<close>.
\<close>

definition waits :: "int \<Rightarrow> page_handle \<Rightarrow> pool \<Rightarrow> bool" where
  "waits e h p \<longleftrightarrow> (e, h) \<in> set (pending p)"

lemma waits_not_free: "pool_inv p \<Longrightarrow> waits e h p \<Longrightarrow> page_id h \<notin> set (free p)"
  using pool_inv_distinct(3)[of p] by (force simp: waits_def pending_pages_def)

lemma waits_step:
  assumes inv: "pool_inv p" and w: "waits e h p" and c: "\<And>n. c = Retire n \<Longrightarrow> n < e"
  shows "waits e h (snd (pool_step c p))"
  using inv
proof (cases rule: pool_step_cases[where c = c])
  case (retired n q)
  then show ?thesis using w c[of n] by (simp add: waits_def)
next
  case (copied h k after q r)
  then show ?thesis using w by (auto simp: waits_def reserved_from_def released_to_def)
qed (use w in \<open>auto simp: waits_def reserved_from_def slots_mapped_def released_to_def\<close>)

text \<open>
  A page that was released with a fence epoch stays in the pending queue and out of the
  free list through every run of calls in which no retire reaches that epoch.
\<close>

theorem no_reuse_before_fence:
  assumes "reachable pool_start pool_step p" and "(e, h) \<in> set (pending p)"
    and "\<forall>n. Retire n \<in> set cs \<longrightarrow> n < e"
  shows "(e, h) \<in> set (pending (run_calls pool_step cs p))
       \<and> page_id h \<notin> set (free (run_calls pool_step cs p))"
proof -
  have inv: "pool_inv p" by (rule pool_machine.inv_reachable[OF assms(1)])
  have "waits e h (run_calls pool_step cs p)"
  proof (rule pool_machine.run_keeps[OF inv])
    show "waits e h (snd (pool_step c s))" if "c \<in> set cs" "pool_inv s" "waits e h s" for s c
      by (rule waits_step[OF that(2,3)]) (use assms(3) that(1) in auto)
  qed (use assms(2) in \<open>simp add: waits_def\<close>)
  then show ?thesis
    using waits_not_free pool_machine.inv_run[OF inv] by (auto simp: waits_def)
qed

definition barred :: "nat \<Rightarrow> nat \<Rightarrow> pool \<Rightarrow> bool" where
  "barred i g p \<longleftrightarrow> i < length (slots p) \<and> slot_generation (slots p ! i) = g
     \<and> quarantined_generation (slots p ! i) = Some g"

lemma barred_not_reserved:
  "pool_inv p \<Longrightarrow> barred i g p \<Longrightarrow> reserved_from p hs q \<Longrightarrow> i \<notin> page_id ` set hs"
  using pool_inv_free[of p i] by (auto simp: barred_def reserved_from_def)

lemma barred_step:
  assumes inv: "pool_inv p" and b: "barred i g p"
  shows "barred i g (snd (pool_step c p))"
  using inv
proof (cases rule: pool_step_cases[where c = c])
  case (reserved n hs q)
  then show ?thesis
    using b barred_not_reserved[OF inv b, of hs q] by (auto simp: barred_def reserved_from_def)
next
  case (copied h k after q r)
  then show ?thesis
    using b barred_not_reserved[OF inv b, of "[k]" q]
    by (auto simp: barred_def reserved_from_def released_to_def dropped_def)
qed (use b in \<open>auto simp: barred_def slots_mapped_def released_to_def retired_to_def
       leased_def quarantined_def dropped_def\<close>)

theorem quarantine_is_permanent:
  assumes "reachable pool_start pool_step p" and "quarantine hs p = (Inr (), q)" and "h \<in> set hs"
  shows "page_id h \<notin> set (free (run_calls pool_step cs q))
       \<and> slot_generation (slots (run_calls pool_step cs q) ! page_id h) = generation h
       \<and> live_generations (run_calls pool_step cs q) (page_id h) = None"
proof -
  have inv: "pool_inv p" by (rule pool_machine.inv_reachable[OF assms(1)])
  from inv assms(2) have "pool_inv q" "active h p" "slots_mapped quarantined (page_id ` set hs) p q"
    using assms(3) by (auto elim: quarantine_cases[where hs = hs])
  then have "pool_inv q \<and> barred (page_id h) (generation h) q"
    using assms(3) pool_inv_length[OF inv]
    by (auto simp: barred_def slots_mapped_def quarantined_def active_def)
  then have "pool_inv (run_calls pool_step cs q)"
    "barred (page_id h) (generation h) (run_calls pool_step cs q)"
    using pool_machine.inv_run pool_machine.run_keeps[where Q = "barred (page_id h) (generation h)"]
      barred_step by blast+
  then show ?thesis
    using pool_inv_free by (fastforce simp: barred_def live_generations_def)
qed

definition superseded :: "page_handle \<Rightarrow> pool \<Rightarrow> bool" where
  "superseded h p \<longleftrightarrow> page_id h < length (slots p) \<longrightarrow> generation h < slot_generation (slots p ! page_id h)"

lemma superseded_inactive: "pool_inv p \<Longrightarrow> superseded h p \<Longrightarrow> \<not> active h p"
  by (auto simp: superseded_def active_def dest: pool_inv_length)

lemma superseded_step:
  assumes inv: "pool_inv p" and s: "superseded h p"
  shows "superseded h (snd (pool_step c p))"
  using inv
  by (cases rule: pool_step_cases[where c = c])
    (use s in \<open>auto simp: superseded_def reserved_from_def slots_mapped_def released_to_def
       retired_to_def opened_def leased_def quarantined_def dropped_def\<close>)

fun call_handles :: "pool_call \<Rightarrow> page_handle set" where
  "call_handles (Quarantine hs) = set hs"
| "call_handles (Retain hs) = set hs"
| "call_handles (Release hs after) = set hs"
| "call_handles (CopyOnWrite h after) = {h}"
| "call_handles c = {}"

lemma inactive_call_raises:
  assumes inv: "pool_inv p" and h: "h \<in> call_handles c" and na: "\<not> active h p"
  shows "\<exists>e. pool_step c p = (Inl e, p)"
proof (cases c)
  case (Quarantine hs)
  from inv show ?thesis
    by (cases rule: quarantine_cases[where hs = hs]) (use h na in \<open>auto simp: Quarantine\<close>)
next
  case (Retain hs)
  from inv show ?thesis
    by (cases rule: retain_cases[where hs = hs]) (use h na in \<open>auto simp: Retain\<close>)
next
  case (Release hs after)
  from inv show ?thesis
    by (cases rule: release_cases[where hs = hs and after = after]) (use h na in \<open>auto simp: Release\<close>)
next
  case (CopyOnWrite k after)
  from inv show ?thesis
    by (cases rule: copy_on_write_cases[where h = k and after = after]) (use h na in \<open>auto simp: CopyOnWrite\<close>)
qed (use h in auto)

text \<open>
  C21: Once a slot was reserved again, every later call that names a handle of an older
  generation raises and changes nothing, whatever happened in between.
\<close>

theorem stale_handle_rejected_forever:
  assumes "reachable pool_start pool_step p" and "page_id h < capacity p"
    and "generation h < slot_generation (slots p ! page_id h)" and "h \<in> call_handles c"
  shows "\<exists>e. pool_step c (run_calls pool_step cs p) = (Inl e, run_calls pool_step cs p)"
proof -
  have inv: "pool_inv p" by (rule pool_machine.inv_reachable[OF assms(1)])
  have "superseded h p" using assms(3) by (simp add: superseded_def)
  then have "superseded h (run_calls pool_step cs p)"
    using pool_machine.run_keeps[where Q = "superseded h", OF inv] superseded_step by blast
  then have "\<not> active h (run_calls pool_step cs p)"
    by (rule superseded_inactive[OF pool_machine.inv_run[OF inv]])
  with pool_machine.inv_run[OF inv] assms(4) show ?thesis by (rule inactive_call_raises)
qed

section \<open>Concrete runs\<close>

definition demo_pool :: pool where
  "demo_pool = \<lparr>capacity = 2, slots = [new_slot, new_slot], free = [1, 0], pending = [],
                completed_epoch = 0\<rparr>"

lemma demo_pool_start: "new_pool 2 = Inr demo_pool"
  by code_simp

lemma demo_pool_reachable: "reachable pool_start pool_step (run_calls pool_step cs demo_pool)"
  using demo_pool_start by (intro reachable_run_calls reachable_init) (auto simp: pool_start_def)

theorem pool_slots_partition_witness:
  "free_count (run_calls pool_step [Reserve 2, Release [PageHandle 0 1] 3] demo_pool) = 0
   \<and> 0 + pending_count (run_calls pool_step [Reserve 2, Release [PageHandle 0 1] 3] demo_pool)
     + allocated_count (run_calls pool_step [Reserve 2, Release [PageHandle 0 1] 3] demo_pool)
     + length (lost_slots (run_calls pool_step [Reserve 2, Release [PageHandle 0 1] 3] demo_pool)) = 2"
proof -
  let ?p = "run_calls pool_step [Reserve 2, Release [PageHandle 0 1] 3] demo_pool"
  have "free_count ?p = 0" "capacity ?p = 2" by code_simp+
  with pool_slots_partition[OF demo_pool_reachable, of "[Reserve 2, Release [PageHandle 0 1] 3]"]
  show ?thesis by simp
qed

theorem pool_failure_atomic_witness:
  "pool_step (Retain [PageHandle 0 7]) (run_calls pool_step [Reserve 1] demo_pool)
     = (Inl (ValueError ''stale or unreferenced page handle''), run_calls pool_step [Reserve 1] demo_pool)"
proof -
  have e: "fst (pool_step (Retain [PageHandle 0 7]) (run_calls pool_step [Reserve 1] demo_pool))
      = Inl (ValueError ''stale or unreferenced page handle'')" by code_simp
  show ?thesis
    using pool_failure_atomic[OF demo_pool_reachable, of "Retain [PageHandle 0 7]" "[Reserve 1]"] e
    by (metis prod.collapse)
qed

theorem reserve_fresh_witness:
  "fst (reserve 2 (run_calls pool_step [] demo_pool)) = Inr [PageHandle 0 1, PageHandle 1 1]
   \<and> active (PageHandle 1 1) (snd (reserve 2 (run_calls pool_step [] demo_pool)))"
proof -
  have e: "fst (reserve 2 (run_calls pool_step [] demo_pool)) = Inr [PageHandle 0 1, PageHandle 1 1]"
    by code_simp
  show ?thesis
    using reserve_fresh[OF demo_pool_reachable, of 2 "[]" "[PageHandle 0 1, PageHandle 1 1]"
        "snd (reserve 2 (run_calls pool_step [] demo_pool))"] e
    by (metis list.set_intros prod.collapse)
qed

theorem no_reuse_before_fence_witness:
  "(5, PageHandle 0 1) \<in> set (pending (run_calls pool_step [Retire 4, Reserve 1]
      (run_calls pool_step [Reserve 1, Release [PageHandle 0 1] 5] demo_pool)))
   \<and> page_id (PageHandle 0 1) \<notin> set (free (run_calls pool_step [Retire 4, Reserve 1]
      (run_calls pool_step [Reserve 1, Release [PageHandle 0 1] 5] demo_pool)))"
proof (rule no_reuse_before_fence[OF demo_pool_reachable])
  show "(5, PageHandle 0 1) \<in> set (pending (run_calls pool_step
      [Reserve 1, Release [PageHandle 0 1] 5] demo_pool))" by code_simp
qed simp

theorem quarantine_is_permanent_witness:
  "live_generations (run_calls pool_step [Release [PageHandle 0 1] 0, Retire 9, Reserve 1]
     (snd (quarantine [PageHandle 0 1] (run_calls pool_step [Reserve 1] demo_pool)))) (page_id (PageHandle 0 1)) = None"
proof -
  have "fst (quarantine [PageHandle 0 1] (run_calls pool_step [Reserve 1] demo_pool)) = Inr ()"
    by code_simp
  then have q: "quarantine [PageHandle 0 1] (run_calls pool_step [Reserve 1] demo_pool)
      = (Inr (), snd (quarantine [PageHandle 0 1] (run_calls pool_step [Reserve 1] demo_pool)))"
    by (metis prod.collapse)
  show ?thesis
    using quarantine_is_permanent[OF demo_pool_reachable q, of "PageHandle 0 1"] by (simp only: list.set_intros)
qed

theorem stale_handle_rejected_forever_witness:
  "\<exists>e. pool_step (Retain [PageHandle 0 1]) (run_calls pool_step [Reserve 1]
     (run_calls pool_step [Reserve 1, Release [PageHandle 0 1] 0, Retire 0, Reserve 1] demo_pool))
   = (Inl e, run_calls pool_step [Reserve 1]
     (run_calls pool_step [Reserve 1, Release [PageHandle 0 1] 0, Retire 0, Reserve 1] demo_pool))"
proof (rule stale_handle_rejected_forever[OF demo_pool_reachable])
  show "page_id (PageHandle 0 1) < capacity (run_calls pool_step
      [Reserve 1, Release [PageHandle 0 1] 0, Retire 0, Reserve 1] demo_pool)" by code_simp
  show "generation (PageHandle 0 1) < slot_generation (slots (run_calls pool_step
      [Reserve 1, Release [PageHandle 0 1] 0, Retire 0, Reserve 1] demo_pool)
      ! page_id (PageHandle 0 1))" by code_simp
qed simp
end
