(* ===== verification/PagedLeases.thy ===== *)
theory PagedLeases
  imports PagedPool "HOL-Library.Multiset"
begin

text \<open>
  Lease accounting for the pool.  \<open>lease_exact M p\<close> says that the multiset \<open>M\<close> of handles held
  by all owners is exactly what the reference counts of the pool record: every held handle is
  active, and an active page has as many references as there are holders.  Each pool operation
  changes \<open>M\<close> the way its documentation says; the owners of leases (sequences, completion
  leases, caches) build their invariants on these laws, stated once as the interface
  \<open>lease_provider\<close>.
\<close>

section \<open>The interface between the pool and the owners of leases\<close>

locale lease_provider =
  fixes exact :: "'h multiset \<Rightarrow> 'p \<Rightarrow> bool"
    and take :: "int \<Rightarrow> 'p \<Rightarrow> ('h list, 'p) res"
    and share :: "'h list \<Rightarrow> 'p \<Rightarrow> (unit, 'p) res"
    and drop_leases :: "'h list \<Rightarrow> int \<Rightarrow> 'p \<Rightarrow> (unit, 'p) res"
    and collect :: "int \<Rightarrow> 'p \<Rightarrow> (unit, 'p) res"
  assumes take_ok: "exact M p \<Longrightarrow> take n p = (Inr hs, q) \<Longrightarrow> exact (M + mset hs) q \<and> int (length hs) = n
        \<and> distinct hs \<and> set hs \<inter> set_mset M = {}"
    and take_fail: "exact M p \<Longrightarrow> take n p = (Inl e, q) \<Longrightarrow> q = p"
    and share_ok: "exact M p \<Longrightarrow> share hs p = (Inr (), q) \<Longrightarrow> exact (M + mset hs) q \<and> distinct hs"
    and share_fail: "exact M p \<Longrightarrow> share hs p = (Inl e, q) \<Longrightarrow> q = p"
    and drop_ok: "exact M p \<Longrightarrow> drop_leases hs after p = (Inr (), q) \<Longrightarrow>
        distinct hs \<and> set hs \<subseteq> set_mset M \<and> 0 \<le> after \<and> after \<le> U64_MAX
        \<and> exact (M - mset hs) q"
    and drop_fail: "exact M p \<Longrightarrow> drop_leases hs after p = (Inl e, q) \<Longrightarrow> q = p"
    and drop_returns: "exact M p \<Longrightarrow> distinct hs \<Longrightarrow> set hs \<subseteq> set_mset M \<Longrightarrow> 0 \<le> after \<Longrightarrow>
        after \<le> U64_MAX \<Longrightarrow> \<exists>q. drop_leases hs after p = (Inr (), q)"
    and collect_exact: "exact M p \<Longrightarrow> exact M (snd (collect c p))"
begin

text \<open>Dropping leases one holds always succeeds and leaves the other holders' leases.\<close>

lemma drop_held:
  assumes "exact (M + mset hs) p" and "distinct hs" and "0 \<le> after" and "after \<le> U64_MAX"
  obtains q where "drop_leases hs after p = (Inr (), q)" and "exact M q"
proof -
  have "set hs \<subseteq> set_mset (M + mset hs)" by auto
  with assms obtain q where q: "drop_leases hs after p = (Inr (), q)"
    using drop_returns by blast
  moreover have "exact M q" using drop_ok[OF assms(1) q] by simp
  ultimately show ?thesis by (rule that)
qed

text \<open>The laws as outcome rules; a drop of held leases cannot raise, whatever was changed before.\<close>

lemma atomic_take:
  "exact M p \<Longrightarrow> atomic_res p (take n p) (\<lambda>hs q. exact (M + mset hs) q \<and> int (length hs) = n
     \<and> distinct hs \<and> set hs \<inter> set_mset M = {})"
  using take_ok take_fail by (cases "take n p"; cases "fst (take n p)") (auto simp: atomic_res_def)

lemma atomic_share:
  "exact M p \<Longrightarrow> atomic_res p (share hs p) (\<lambda>_ q. exact (M + mset hs) q \<and> distinct hs)"
  using share_ok share_fail by (cases "share hs p"; cases "fst (share hs p)") (auto simp: atomic_res_def)

lemma atomic_drop:
  assumes "exact (M + mset hs) p" and "distinct hs" and "0 \<le> after" and "after \<le> U64_MAX"
  shows "atomic_res s (drop_leases hs after p) (\<lambda>_. exact M)"
  by (rule drop_held[OF assms]) (simp add: atomic_res_def)

text \<open>
  The exchange behind copy-on-write: taking fresh pages and then dropping a held one replaces
  the old lease by the new ones.
\<close>

lemma exchange:
  assumes "exact (add_mset h M) p" and "take n p = (Inr hs, q)" and "0 \<le> after" and "after \<le> U64_MAX"
  obtains r where "drop_leases [h] after q = (Inr (), r)" and "exact (M + mset hs) r"
proof -
  have "exact (add_mset h M + mset hs) q" using take_ok[OF assms(1,2)] by blast
  then have "exact ((M + mset hs) + mset [h]) q" by simp
  then obtain r where "drop_leases [h] after q = (Inr (), r)" "exact (M + mset hs) r"
    by (rule drop_held[where hs = "[h]"]) (use assms(3,4) in auto)
  then show ?thesis by (rule that)
qed

end

section \<open>The pool provides leases\<close>

definition lease_exact :: "page_handle multiset \<Rightarrow> pool \<Rightarrow> bool" where
  "lease_exact M p \<longleftrightarrow> pool_inv p \<and> (\<forall>h \<in># M. active h p)
     \<and> (\<forall>h. active h p \<longrightarrow> references (slots p ! page_id h) = int (count M h))"

lemma count_mset_distinct:
  "distinct hs \<Longrightarrow> count (mset hs) h = (if h \<in> set hs then 1 else 0)"
  by (simp add: distinct_count_atmost_1)

lemma lease_exact_inv: "lease_exact M p \<Longrightarrow> pool_inv p"
  by (simp add: lease_exact_def)

lemma lease_exact_active_iff: "lease_exact M p \<Longrightarrow> h \<in># M \<longleftrightarrow> active h p"
  by (auto simp: lease_exact_def active_def)

lemma lease_exact_count:
  "lease_exact M p \<Longrightarrow> active h p \<Longrightarrow> references (slots p ! page_id h) = int (count M h)"
  by (simp add: lease_exact_def)

lemma lease_exact_intro:
  assumes "pool_inv p" and "\<And>h. h \<in># M \<longleftrightarrow> active h p"
    and "\<And>h. active h p \<Longrightarrow> references (slots p ! page_id h) = int (count M h)"
  shows "lease_exact M p"
  using assms by (simp add: lease_exact_def)

lemma lease_exact_new: "new_pool cap = Inr p \<Longrightarrow> lease_exact {#} p"
  using new_pool_inv[of cap p]
  by (auto simp: lease_exact_def new_pool_def active_def new_slot_def split: sum.splits)

lemma lease_exact_reserve:
  assumes ex: "lease_exact M p" and r: "reserved_from p hs q" and inv: "pool_inv q"
  shows "lease_exact (M + mset hs) q" and "distinct hs" and "set hs \<inter> set_mset M = {}"
proof -
  note pinv = lease_exact_inv[OF ex]
  have pages: "distinct (map page_id hs)" "page_id ` set hs \<subseteq> set (free p)"
    using pool_inv_distinct(1)[OF pinv] r by (auto simp: reserved_from_def)
  show dhs: "distinct hs" using pages(1) by (simp add: distinct_map)
  have idle: "\<not> active h p" if "page_id h \<in> page_id ` set hs" for h
    using that pages(2) pool_inv_free[OF pinv] by (auto simp: active_def)
  have new: "active h q \<and> references (slots q ! page_id h) = 1" if "h \<in> set hs" for h
    using that r pages(2) pool_inv_free[OF pinv] pool_inv_length[OF pinv]
    by (auto simp: reserved_from_def active_def opened_def)
  show "set hs \<inter> set_mset M = {}"
    using idle lease_exact_active_iff[OF ex] by blast
  have old: "active h q \<longleftrightarrow> active h p" "active h p \<Longrightarrow> slots q ! page_id h = slots p ! page_id h"
    if "page_id h \<notin> page_id ` set hs" for h
    using that r pool_inv_length[OF pinv] by (auto simp: reserved_from_def active_def)
  have mem: "h \<in> set hs" if "active h q" "page_id h \<in> page_id ` set hs" for h
    using that new active_same_page[of _ q h] by (metis imageE)
  show "lease_exact (M + mset hs) q"
  proof (rule lease_exact_intro[OF inv])
    fix h
    show "h \<in># M + mset hs \<longleftrightarrow> active h q"
    proof (cases "page_id h \<in> page_id ` set hs")
      case True
      then have "h \<notin># M" using idle lease_exact_active_iff[OF ex] by blast
      moreover have "h \<in> set hs \<longleftrightarrow> active h q" using mem[of h] new[of h] True by blast
      ultimately show ?thesis by simp
    next
      case False
      then have "h \<notin> set hs" by blast
      then show ?thesis using old(1)[OF False] lease_exact_active_iff[OF ex] by simp
    qed
    assume a: "active h q"
    show "references (slots q ! page_id h) = int (count (M + mset hs) h)"
    proof (cases "page_id h \<in> page_id ` set hs")
      case True
      then have "h \<in> set hs" using mem a by blast
      moreover have "count M h = 0"
        using idle[OF True] lease_exact_active_iff[OF ex] by (simp add: count_eq_zero_iff)
      ultimately show ?thesis using new by (simp add: count_mset_distinct[OF dhs])
    next
      case False
      then have "h \<notin> set hs" by blast
      then show ?thesis
        using old[OF False] a lease_exact_count[OF ex, of h] by (simp add: count_mset_distinct[OF dhs])
    qed
  qed
qed

lemma active_page_mem:
  assumes "\<forall>h \<in> set hs. active h p" and "active k p"
  shows "page_id k \<in> page_id ` set hs \<longleftrightarrow> k \<in> set hs"
proof
  assume "page_id k \<in> page_id ` set hs"
  then obtain j where j: "j \<in> set hs" "page_id k = page_id j" by (rule imageE)
  then have "k = j" using assms active_same_page[of k p j] by simp
  then show "k \<in> set hs" using j by simp
qed (rule imageI)

lemma slots_mapped_active:
  assumes m: "slots_mapped f A p q" and len: "length (slots p) = capacity p"
    and f: "\<And>i. i \<in> A \<Longrightarrow> 0 < references (slots p ! i)
        \<and> 0 < references (f (slots p ! i)) \<and> slot_generation (f (slots p ! i)) = slot_generation (slots p ! i)"
  shows "active h q \<longleftrightarrow> active h p"
  using m len f[of "page_id h"]
  by (cases "page_id h \<in> A"; cases "page_id h < capacity p") (auto simp: active_def slots_mapped_def)

lemma lease_exact_retain:
  assumes ex: "lease_exact M p" and d: "distinct hs" and act: "\<forall>h \<in> set hs. active h p"
    and m: "slots_mapped leased (page_id ` set hs) p q" and inv: "pool_inv q"
  shows "lease_exact (M + mset hs) q"
proof (rule lease_exact_intro[OF inv])
  fix h
  have len: "length (slots p) = capacity p" by (rule pool_inv_length[OF lease_exact_inv[OF ex]])
  have iff: "active h q \<longleftrightarrow> active h p"
    by (rule slots_mapped_active[OF m len])
      (use pages_leased[OF lease_exact_inv[OF ex] act] in \<open>auto simp: leased_def\<close>)
  show "h \<in># M + mset hs \<longleftrightarrow> active h q"
    using iff lease_exact_active_iff[OF ex] act by auto
  assume "active h q"
  then have a: "active h p" using iff by simp
  have "page_id h \<in> page_id ` set hs \<longleftrightarrow> h \<in> set hs"
    by (rule active_page_mem[OF act a])
  moreover have "slots q ! page_id h = (if page_id h \<in> page_id ` set hs
      then leased (slots p ! page_id h) else slots p ! page_id h)"
    using a m len by (simp add: slots_mapped_def active_def)
  ultimately show "references (slots q ! page_id h) = int (count (M + mset hs) h)"
    using lease_exact_count[OF ex a] count_mset_distinct[OF d, of h] by (simp add: leased_def)
qed

lemma lease_exact_quarantine:
  assumes ex: "lease_exact M p" and act: "\<forall>h \<in> set hs. active h p"
    and m: "slots_mapped quarantined (page_id ` set hs) p q" and inv: "pool_inv q"
  shows "lease_exact M q"
proof (rule lease_exact_intro[OF inv])
  fix h
  have len: "length (slots p) = capacity p" by (rule pool_inv_length[OF lease_exact_inv[OF ex]])
  have iff: "active h q \<longleftrightarrow> active h p"
    by (rule slots_mapped_active[OF m len])
      (use pages_leased[OF lease_exact_inv[OF ex] act] in \<open>auto simp: quarantined_def\<close>)
  show "h \<in># M \<longleftrightarrow> active h q" using iff lease_exact_active_iff[OF ex] by simp
  assume "active h q"
  then have a: "active h p" using iff by simp
  then have "references (slots q ! page_id h) = references (slots p ! page_id h)"
    using m len by (simp add: slots_mapped_def active_def quarantined_def)
  then show "references (slots q ! page_id h) = int (count M h)"
    using lease_exact_count[OF ex a] by simp
qed

lemma lease_exact_release:
  assumes ex: "lease_exact M p" and d: "distinct hs" and act: "\<forall>h \<in> set hs. active h p"
    and r: "released_to p hs after q" and inv: "pool_inv q"
  shows "lease_exact (M - mset hs) q"
proof (rule lease_exact_intro[OF inv])
  fix h
  have len: "length (slots p) = capacity p" by (rule pool_inv_length[OF lease_exact_inv[OF ex]])
  have cnt: "count (M - mset hs) h = count M h - (if h \<in> set hs then 1 else 0)"
    using count_mset_distinct[OF d] by simp
  have slot: "slots q ! page_id h = (if page_id h \<in> page_id ` set hs
      then dropped after p (slots p ! page_id h) else slots p ! page_id h)"
    if "page_id h < capacity p"
    using that r len by (simp add: released_to_def)
  have cap: "capacity q = capacity p" using r by (simp add: released_to_def)
  have mem: "page_id h \<in> page_id ` set hs \<longleftrightarrow> h \<in> set hs" if "active h p"
    by (rule active_page_mem[OF act that])
  have gen: "active h p" if "active h q"
  proof -
    have i: "page_id h < capacity p" and g: "slot_generation (slots q ! page_id h) = generation h"
      and n: "references (slots q ! page_id h) \<noteq> 0"
      using that cap by (auto simp: active_def)
    show ?thesis
    proof (cases "page_id h \<in> page_id ` set hs")
      case True
      then obtain k where k: "k \<in> set hs" "page_id h = page_id k" by blast
      then show ?thesis using act slot[OF i] True i g by (auto simp: active_def dropped_def)
    next
      case False
      then show ?thesis using slot[OF i] i g n by (simp add: active_def)
    qed
  qed
  have refs: "references (slots q ! page_id h) = int (count (M - mset hs) h)" if "active h p"
  proof -
    have i: "page_id h < capacity p" using that by (simp add: active_def)
    have "h \<in># M" using lease_exact_active_iff[OF ex] that by simp
    then have "0 < count M h" by simp
    then show ?thesis
      using slot[OF i] mem[OF that] lease_exact_count[OF ex that] cnt by (simp add: dropped_def)
  qed
  show "active h q \<Longrightarrow> references (slots q ! page_id h) = int (count (M - mset hs) h)"
    using gen refs by blast
  show "h \<in># M - mset hs \<longleftrightarrow> active h q"
  proof
    assume m: "h \<in># M - mset hs"
    then have a: "active h p" using lease_exact_active_iff[OF ex] in_diffD by metis
    have "0 < count (M - mset hs) h" using m by (simp only: count_greater_zero_iff)
    then have "references (slots q ! page_id h) \<noteq> 0" using refs[OF a] by simp
    then show "active h q" using a slot cap by (auto simp: active_def dropped_def)
  next
    assume a: "active h q"
    then have "count (M - mset hs) h \<noteq> 0" using refs[OF gen[OF a]] by (simp add: active_def)
    then show "h \<in># M - mset hs" by (simp only: count_eq_zero_iff not_not)
  qed
qed

lemma lease_exact_retire:
  assumes ex: "lease_exact M p" and r: "retired_to todo c (p\<lparr>completed_epoch := c\<rparr>) q" and inv: "pool_inv q"
  shows "lease_exact M q"
proof -
  have s: "slot_generation (slots q ! i) = slot_generation (slots p ! i)
      \<and> references (slots q ! i) = references (slots p ! i)" if "i < capacity p" for i
    using that r pool_inv_length[OF lease_exact_inv[OF ex]] by (auto simp: retired_to_def)
  have "capacity q = capacity p" using r by (simp add: retired_to_def)
  then have "active h q \<longleftrightarrow> active h p" for h using s[of "page_id h"] by (auto simp: active_def)
  then show ?thesis
    using ex inv s by (auto simp: lease_exact_def active_def)
qed

lemma release_returns:
  assumes "lease_exact M p" "distinct hs" "set hs \<subseteq> set_mset M" "0 \<le> after" "after \<le> U64_MAX"
  shows "\<exists>q. release hs after p = (Inr (), q)"
proof -
  have "\<forall>h \<in> set hs. active h p" using assms(1,3) lease_exact_active_iff by blast
  then show ?thesis
    using assms(2,4,5) lease_exact_inv[OF assms(1)]
    by (auto elim: release_cases[where hs = hs and after = after])
qed

interpretation leases: lease_provider lease_exact reserve retain release retire
proof unfold_locales
  fix M p n hs q and e :: exc and after c :: int
  note inv = lease_exact_inv
  show "lease_exact (M + mset hs) q \<and> int (length hs) = n \<and> distinct hs \<and> set hs \<inter> set_mset M = {}"
    if "lease_exact M p" "reserve n p = (Inr hs, q)"
    using inv[OF that(1)]
    by (cases rule: reserve_cases[where n = n]) (use that lease_exact_reserve in auto)
  show "q = p" if "lease_exact M p" "reserve n p = (Inl e, q)"
    using inv[OF that(1)] by (cases rule: reserve_cases[where n = n]) (use that in auto)
  show "lease_exact (M + mset hs) q \<and> distinct hs" if "lease_exact M p" "retain hs p = (Inr (), q)"
    using inv[OF that(1)]
    by (cases rule: retain_cases[where hs = hs]) (use that lease_exact_retain in auto)
  show "q = p" if "lease_exact M p" "retain hs p = (Inl e, q)"
    using inv[OF that(1)] by (cases rule: retain_cases[where hs = hs]) (use that in auto)
  show "distinct hs \<and> set hs \<subseteq> set_mset M \<and> 0 \<le> after \<and> after \<le> U64_MAX \<and> lease_exact (M - mset hs) q"
    if "lease_exact M p" "release hs after p = (Inr (), q)"
    using inv[OF that(1)]
    by (cases rule: release_cases[where hs = hs and after = after])
      (use that lease_exact_release[OF that(1)] lease_exact_active_iff[OF that(1)] in auto)
  show "q = p" if "lease_exact M p" "release hs after p = (Inl e, q)"
    using inv[OF that(1)]
    by (cases rule: release_cases[where hs = hs and after = after]) (use that in auto)
  show "\<exists>q. release hs after p = (Inr (), q)"
    if "lease_exact M p" "distinct hs" "set hs \<subseteq> set_mset M" "0 \<le> after" "after \<le> U64_MAX"
    using release_returns that .
  show "lease_exact M (snd (retire c p))" if "lease_exact M p"
    using inv[OF that]
    by (cases rule: retire_cases[where c = c]) (use that lease_exact_retire[OF that] in auto)
qed

end
