(* ===== verification/PagedSequence.thy ===== *)
theory PagedSequence
  imports PagedLeases
begin

text \<open>
  The logical page table \<open>PagedKVSequence\<close> of \<^verbatim>\<open>runtime/paged_kv_pool.py\<close>.

  A sequence owns one lease on each page of its table and shares the pool with every other
  sequence, so its methods are functions on the pair of the sequence and the pool.  An
  \<open>AppendReservation\<close> is compared by identity in the code; the identity the interpreter gives
  the new object is the argument \<open>oid\<close> of \<open>stage_append\<close> and the field \<open>stage_oid\<close> of the record.
\<close>

section \<open>State\<close>

definition PAGE_SIZE :: int where "PAGE_SIZE = 64"

record append_reservation =
  stage_oid :: nat
  stage_source :: "page_handle option"
  stage_destination :: "page_handle option"
  stage_handles :: "page_handle list"
  stage_reserved :: "page_handle list"
  stage_tokens :: int
  stage_old_end :: int

record sequence =
  retained_start :: int
  kv_end :: int
  first_block :: int
  pages :: "page_handle list"
  closed :: bool
  staged :: "append_reservation option"

definition new_sequence :: sequence where
  "new_sequence = \<lparr>retained_start = 0, kv_end = 0, first_block = 0, pages = [],
                   closed = False, staged = None\<rparr>"

type_synonym seq_state = "sequence \<times> pool"

definition on_pool :: "sequence \<Rightarrow> ('a, pool) res \<Rightarrow> ('a, seq_state) res" where
  "on_pool s r = (fst r, (s, snd r))"

section \<open>Guards\<close>

definition check_open :: "sequence \<Rightarrow> exc + unit" where
  "check_open s = (if closed s then Inl (ValueError ''sequence owner is closed'') else Inr ())"

definition check_no_stage :: "sequence \<Rightarrow> exc + unit" where
  "check_no_stage s =
     (case check_open s of Inl e \<Rightarrow> Inl e
      | Inr _ \<Rightarrow> if staged s \<noteq> None
               then Inl (RuntimeError ''sequence append reservation is pending'') else Inr ())"

definition check_stage :: "append_reservation \<Rightarrow> sequence \<Rightarrow> exc + unit" where
  "check_stage st s =
     (case check_open s of Inl e \<Rightarrow> Inl e
      | Inr _ \<Rightarrow> if staged s \<noteq> Some st
               then Inl (ValueError ''unknown append reservation'') else Inr ())"

text \<open>
  \<open>tail_shared k\<close>: the table ends in a partial page with more than \<open>k\<close> leases, so writing the
  next token needs a private copy.
\<close>

definition tail_shared :: "int \<Rightarrow> sequence \<Rightarrow> pool \<Rightarrow> exc + bool" where
  "tail_shared k s p =
     (if pages s = [] \<or> kv_end s mod PAGE_SIZE = 0 then Inr False
      else (case handle_references (last (pages s)) p of
              Inl e \<Rightarrow> Inl e | Inr n \<Rightarrow> Inr (n > k)))"

definition blocks_for :: "int \<Rightarrow> sequence \<Rightarrow> int" where
  "blocks_for end s = (end - 1) div PAGE_SIZE - first_block s + 1"

section \<open>Append\<close>

definition stage_append :: "nat \<Rightarrow> int \<Rightarrow> int \<Rightarrow> seq_state \<Rightarrow> (append_reservation, seq_state) res" where
  "stage_append oid tokens reuse sp = (case sp of (s, p) \<Rightarrow>
     lift_res (check_no_stage s) (s, p) (\<lambda>_.
     lift_res (positive_check ''token count'' tokens U32_MAX) (s, p) (\<lambda>_.
     if kv_end s + tokens > U32_MAX
     then (Inl (ValueError ''KV end exceeds uint32 token coordinates''), (s, p))
     else if reuse \<noteq> 1 \<and> reuse \<noteq> 2
     then (Inl (ValueError ''invalid private tail reference permit''), (s, p))
     else lift_res (tail_shared reuse s p) (s, p) (\<lambda>shared.
       let source = (if shared then Some (last (pages s)) else None);
           extra = blocks_for (kv_end s + tokens) s - int (length (pages s));
           n = (if shared then 1 else 0)
       in bind_res (on_pool s (if extra \<noteq> 0 \<or> shared then reserve (extra + n) p else (Inr [], p)))
          (\<lambda>reserved (s, p).
            let destination = (if shared then Some (hd reserved) else None);
                handles = (case destination of
                             Some d \<Rightarrow> butlast (pages s) @ [d] | None \<Rightarrow> pages s)
                          @ slice_from n reserved;
                stage = \<lparr>stage_oid = oid, stage_source = source, stage_destination = destination,
                         stage_handles = handles, stage_reserved = reserved,
                         stage_tokens = tokens, stage_old_end = kv_end s\<rparr>
            in (Inr stage, (s\<lparr>staged := Some stage\<rparr>, p)))))))"

definition commit_append :: "append_reservation \<Rightarrow> int \<Rightarrow> seq_state \<Rightarrow> (unit, seq_state) res" where
  "commit_append st after sp = (case sp of (s, p) \<Rightarrow>
     lift_res (check_stage st s) (s, p) (\<lambda>_.
     lift_res (uint_check ''last use epoch'' after U64_MAX) (s, p) (\<lambda>_.
     bind_res (on_pool s (case stage_source st of
                            Some h \<Rightarrow> release [h] after p | None \<Rightarrow> (Inr (), p)))
       (\<lambda>_ (s, p). (Inr (), (s\<lparr>pages := stage_handles st,
                                kv_end := stage_old_end st + stage_tokens st,
                                staged := None\<rparr>, p))))))"

definition discard_append :: "append_reservation \<Rightarrow> int \<Rightarrow> seq_state \<Rightarrow> (unit, seq_state) res" where
  "discard_append st after sp = (case sp of (s, p) \<Rightarrow>
     lift_res (check_stage st s) (s, p) (\<lambda>_.
     lift_res (uint_check ''last use epoch'' after U64_MAX) (s, p) (\<lambda>_.
     bind_res (on_pool s (if stage_reserved st \<noteq> [] then release (stage_reserved st) after p
                          else (Inr (), p)))
       (\<lambda>_ (s, p). (Inr (), (s\<lparr>staged := None\<rparr>, p))))))"

text \<open>
  \<open>append\<close> (here \<open>append_tokens\<close>) publishes at once and returns the (source, destination) copy pairs.
\<close>

definition append_tokens :: "int \<Rightarrow> int \<Rightarrow> seq_state \<Rightarrow> ((page_handle \<times> page_handle) list, seq_state) res" where
  "append_tokens tokens after sp = (case sp of (s, p) \<Rightarrow>
     lift_res (check_no_stage s) (s, p) (\<lambda>_.
     lift_res (positive_check ''token count'' tokens U32_MAX) (s, p) (\<lambda>_.
     lift_res (uint_check ''last use epoch'' after U64_MAX) (s, p) (\<lambda>_.
     if kv_end s + tokens > U32_MAX
     then (Inl (ValueError ''KV end exceeds uint32 token coordinates''), (s, p))
     else lift_res (tail_shared 1 s p) (s, p) (\<lambda>shared.
       let new_end = kv_end s + tokens;
           new_count = blocks_for new_end s - int (length (pages s));
           n = (if shared then 1 else 0)
       in bind_res (on_pool s (if new_count \<noteq> 0 \<or> shared then reserve (new_count + n) p
                               else (Inr [], p)))
          (\<lambda>reserved (s, p).
            if shared then
              (let old_tail = last (pages s);
                   s1 = s\<lparr>pages := butlast (pages s) @ [hd reserved]\<rparr>
               in bind_res (on_pool s1 (release [old_tail] after p))
                  (\<lambda>_ (s1, p). (Inr [(old_tail, hd reserved)],
                     (s1\<lparr>pages := pages s1 @ slice_from 1 reserved, kv_end := new_end\<rparr>, p))))
            else (Inr [], (s\<lparr>pages := pages s @ reserved, kv_end := new_end\<rparr>, p))))))))"

section \<open>Fork, trim, truncate, abort\<close>

definition fork :: "seq_state \<Rightarrow> (sequence, seq_state) res" where
  "fork sp = (case sp of (s, p) \<Rightarrow>
     lift_res (check_no_stage s) (s, p) (\<lambda>_.
     bind_res (on_pool s (retain (pages s) p))
       (\<lambda>_ (s, p). (Inr (new_sequence\<lparr>retained_start := retained_start s, kv_end := kv_end s,
                           first_block := first_block s, pages := pages s\<rparr>), (s, p)))))"

definition trim :: "int \<Rightarrow> int \<Rightarrow> seq_state \<Rightarrow> (unit, seq_state) res" where
  "trim start after sp = (case sp of (s, p) \<Rightarrow>
     lift_res (check_no_stage s) (s, p) (\<lambda>_.
     lift_res (uint_check ''retained start'' start U32_MAX) (s, p) (\<lambda>_.
     lift_res (uint_check ''last use epoch'' after U64_MAX) (s, p) (\<lambda>_.
     if \<not> (retained_start s \<le> start \<and> start \<le> kv_end s)
     then (Inl (ValueError ''retained start must move forward within KV''), (s, p))
     else
       let new_first = start div PAGE_SIZE;
           drop_count = (if start = kv_end s then int (length (pages s))
                         else new_first - first_block s)
       in bind_res (if drop_count \<noteq> 0
                    then bind_res (on_pool s (release (slice_to drop_count (pages s)) after p))
                           (\<lambda>_ (s, p). (Inr (), (s\<lparr>pages := slice_from drop_count (pages s)\<rparr>, p)))
                    else (Inr (), (s, p)))
          (\<lambda>_ (s, p). (Inr (), (s\<lparr>retained_start := start, first_block := new_first\<rparr>, p)))))))"

definition truncate_kv :: "int \<Rightarrow> int \<Rightarrow> seq_state \<Rightarrow> (unit, seq_state) res" where
  "truncate_kv new_end after sp = (case sp of (s, p) \<Rightarrow>
     lift_res (check_no_stage s) (s, p) (\<lambda>_.
     lift_res (uint_check ''new KV end'' new_end U32_MAX) (s, p) (\<lambda>_.
     lift_res (uint_check ''last use epoch'' after U64_MAX) (s, p) (\<lambda>_.
     if \<not> (retained_start s \<le> new_end \<and> new_end \<le> kv_end s)
     then (Inl (ValueError ''new KV end must be within retained KV''), (s, p))
     else
       let keep = (if new_end > retained_start s then blocks_for new_end s else 0)
       in bind_res (if keep < int (length (pages s))
                    then bind_res (on_pool s (release (slice_from keep (pages s)) after p))
                           (\<lambda>_ (s, p). (Inr (), (s\<lparr>pages := slice_to keep (pages s)\<rparr>, p)))
                    else (Inr (), (s, p)))
          (\<lambda>_ (s, p). (Inr (), (s\<lparr>kv_end := new_end,
              first_block := (if keep = 0 then new_end div PAGE_SIZE else first_block s)\<rparr>, p)))))))"

definition abort :: "int \<Rightarrow> seq_state \<Rightarrow> (unit, seq_state) res" where
  "abort after sp = (case sp of (s, p) \<Rightarrow>
     lift_res (check_no_stage s) (s, p) (\<lambda>_.
     bind_res (on_pool s (release (pages s) after p))
       (\<lambda>_ (s, p). (Inr (), (s\<lparr>pages := [], closed := True\<rparr>, p)))))"


section \<open>The page table covers the retained tokens exactly\<close>

definition table_blocks :: "sequence \<Rightarrow> int" where
  "table_blocks s = (if retained_start s < kv_end s then blocks_for (kv_end s) s else 0)"

definition stage_inv :: "sequence \<Rightarrow> append_reservation \<Rightarrow> bool" where
  "stage_inv s st \<longleftrightarrow>
     stage_old_end st = kv_end s \<and> 0 < stage_tokens st \<and> kv_end s + stage_tokens st \<le> U32_MAX
   \<and> distinct (pages s @ stage_reserved st)
   \<and> int (length (stage_handles st)) = blocks_for (kv_end s + stage_tokens st) s
   \<and> (case stage_source st of
        None \<Rightarrow> stage_destination st = None \<and> stage_handles st = pages s @ stage_reserved st
      | Some h \<Rightarrow> pages s \<noteq> [] \<and> h = last (pages s) \<and> stage_reserved st \<noteq> []
          \<and> stage_destination st = Some (hd (stage_reserved st))
          \<and> stage_handles st = butlast (pages s) @ stage_reserved st)"

definition seq_inv :: "sequence \<Rightarrow> bool" where
  "seq_inv s \<longleftrightarrow>
     0 \<le> retained_start s \<and> retained_start s \<le> kv_end s \<and> kv_end s \<le> U32_MAX
   \<and> first_block s = retained_start s div PAGE_SIZE
   \<and> distinct (pages s)
   \<and> (closed s \<longrightarrow> pages s = [] \<and> staged s = None)
   \<and> (\<not> closed s \<longrightarrow> int (length (pages s)) = table_blocks s)
   \<and> (case staged s of None \<Rightarrow> True | Some st \<Rightarrow> stage_inv s st)"

definition seq_leases :: "sequence \<Rightarrow> page_handle multiset" where
  "seq_leases s = mset (pages s)
     + (case staged s of None \<Rightarrow> {#} | Some st \<Rightarrow> mset (stage_reserved st))"

text \<open>\<open>M\<close> stands for the leases of every other owner of pages of the pool.\<close>

definition seq_ok :: "page_handle multiset \<Rightarrow> seq_state \<Rightarrow> bool" where
  "seq_ok M sp \<longleftrightarrow> seq_inv (fst sp) \<and> lease_exact (M + seq_leases (fst sp)) (snd sp)"

lemma new_sequence_inv [simp]: "seq_inv new_sequence" "seq_leases new_sequence = {#}"
  by (simp_all add: seq_inv_def new_sequence_def table_blocks_def seq_leases_def)

lemma on_pool_simps [simp]: "on_pool s (r, p) = (r, (s, p))"
  by (simp add: on_pool_def)

lemma check_open_Inr [simp]: "check_open s = Inr u \<longleftrightarrow> \<not> closed s"
  by (simp add: check_open_def)

lemma check_no_stage_Inr [simp]: "check_no_stage s = Inr u \<longleftrightarrow> \<not> closed s \<and> staged s = None"
  by (simp add: check_no_stage_def check_open_def)

lemma check_stage_Inr [simp]: "check_stage st s = Inr u \<longleftrightarrow> \<not> closed s \<and> staged s = Some st"
  by (simp add: check_stage_def check_open_def)

lemma blocks_mono: "a \<le> b \<Longrightarrow> blocks_for a s \<le> blocks_for b s"
  by (simp add: blocks_for_def PAGE_SIZE_def zdiv_mono1)

lemma table_blocks_le:
  assumes "seq_inv s" and "kv_end s \<le> e" and "retained_start s < e"
  shows "table_blocks s \<le> blocks_for e s" and "0 < blocks_for e s"
proof -
  have "retained_start s div PAGE_SIZE \<le> (e - 1) div PAGE_SIZE"
    using assms(3) by (intro zdiv_mono1) (simp_all add: PAGE_SIZE_def)
  then show "0 < blocks_for e s" using assms(1) by (simp add: blocks_for_def seq_inv_def)
  then show "table_blocks s \<le> blocks_for e s"
    using blocks_mono[OF assms(2), of s] by (simp add: table_blocks_def)
qed

lemma tail_shared_ok:
  assumes "seq_ok M (s, p)"
  obtains b where "tail_shared k s p = Inr b" and "b \<Longrightarrow> pages s \<noteq> []"
    and "b \<longleftrightarrow> pages s \<noteq> [] \<and> kv_end s mod PAGE_SIZE \<noteq> 0
          \<and> references (slots p ! page_id (last (pages s))) > k"
proof (cases "pages s = [] \<or> kv_end s mod PAGE_SIZE = 0")
  case True
  then show ?thesis using that[of False] by (auto simp: tail_shared_def)
next
  case False
  then have "last (pages s) \<in># M + seq_leases s" by (simp add: seq_leases_def)
  then have "active (last (pages s)) p"
    using assms lease_exact_active_iff[of "M + seq_leases s" p "last (pages s)"]
    by (simp add: seq_ok_def)
  then have "handle_references (last (pages s)) p = Inr (references (slots p ! page_id (last (pages s))))"
    by simp
  then show ?thesis using that False by (auto simp: tail_shared_def simp del: handle_references_Inr)
qed

section \<open>Contracts of the operations\<close>

lemma atomic_on_pool:
  "atomic_res p r (\<lambda>x q. Q x (s, q)) \<Longrightarrow> atomic_res (s, p) (on_pool s r) Q"
  by (cases r; cases "fst r") (auto simp: atomic_res_def)

lemma seq_okD:
  assumes "seq_ok M (s, p)"
  shows "seq_inv s" and "lease_exact (M + seq_leases s) p"
  using assms by (simp_all add: seq_ok_def)

lemma leases_no_stage: "staged s = None \<Longrightarrow> seq_leases s = mset (pages s)"
  by (simp add: seq_leases_def)

text \<open>The pages an append reserves: what the new table is missing, plus one for a shared tail.\<close>

lemma atomic_reserve_missing:
  assumes ok: "seq_ok M (s, p)" and open_: "\<not> closed s" "staged s = None"
    and e: "kv_end s < e" and b: "n = (if shared then 1 else 0)"
  shows "atomic_res (s, p)
     (on_pool s (if blocks_for e s - int (length (pages s)) \<noteq> 0 \<or> shared
                 then reserve (blocks_for e s - int (length (pages s)) + n) p else (Inr [], p)))
     (\<lambda>hs sq. fst sq = s \<and> lease_exact (M + mset (pages s) + mset hs) (snd sq)
        \<and> int (length hs) = blocks_for e s - int (length (pages s)) + n
        \<and> distinct (pages s @ hs) \<and> set hs \<inter> set_mset M = {})"
proof -
  have ex: "lease_exact (M + mset (pages s)) p"
    using seq_okD[OF ok] leases_no_stage[OF open_(2)] by simp
  have d: "distinct (pages s)" using seq_okD(1)[OF ok] by (simp add: seq_inv_def)
  have "atomic_res p (reserve (blocks_for e s - int (length (pages s)) + n) p)
    (\<lambda>hs q. lease_exact (M + mset (pages s) + mset hs) q
       \<and> int (length hs) = blocks_for e s - int (length (pages s)) + n \<and> distinct (pages s @ hs)
       \<and> set hs \<inter> set_mset M = {})"
    by (rule atomic_weaken[OF leases.atomic_take[OF ex]]) (use d in auto)
  then show ?thesis
    using ex d b by (intro atomic_on_pool) (auto intro: atomic_intros)
qed

text \<open>
  An append keeps the table up to the tail, which a copy replaces when somebody else (a lease
  in \<open>M\<close>) holds it; every page behind is fresh.
\<close>

definition appended :: "page_handle multiset \<Rightarrow> sequence \<Rightarrow> (page_handle \<times> page_handle) list \<Rightarrow> page_handle list \<Rightarrow> bool" where
  "appended M s copies hs \<longleftrightarrow> set hs \<inter> (set_mset M \<union> set (pages s)) = {}
     \<and> (if copies = [] then pages s = [] \<or> kv_end s mod PAGE_SIZE = 0 \<or> last (pages s) \<notin># M
        else pages s \<noteq> [] \<and> kv_end s mod PAGE_SIZE \<noteq> 0 \<and> hs \<noteq> []
           \<and> copies = [(last (pages s), hd hs)])"

lemma append_tokens_contract:
  assumes ok: "seq_ok M (s, p)"
  shows "atomic_res (s, p) (append_tokens n after (s, p)) (\<lambda>copies sq.
     seq_ok M sq \<and> \<not> closed s \<and> staged s = None \<and> 0 < n
     \<and> (\<exists>hs. appended M s copies hs \<and> fst sq = s\<lparr>kv_end := kv_end s + n,
          pages := (if copies = [] then pages s else butlast (pages s)) @ hs\<rparr>))"
  unfolding append_tokens_def prod.case Let_def
proof (intro atomic_lift atomic_if atomic_raise, goal_cases)
  case (1 _ _ _ shared)
  then have open_: "\<not> closed s" "staged s = None" and n: "0 < n" "0 \<le> after" "after \<le> U64_MAX"
    and big: "kv_end s + n \<le> U32_MAX" and sh: "tail_shared 1 s p = Inr shared"
    by simp_all
  note inv = seq_okD(1)[OF ok]
  have tail: "shared \<longleftrightarrow> pages s \<noteq> [] \<and> kv_end s mod PAGE_SIZE \<noteq> 0
      \<and> references (slots p ! page_id (last (pages s))) > 1"
    using sh by (rule_tac k = 1 in tail_shared_ok[OF ok]) simp
  have sole: "last (pages s) \<notin># M" if "\<not> shared" "pages s \<noteq> []" "kv_end s mod PAGE_SIZE \<noteq> 0"
  proof -
    let ?l = "last (pages s)"
    have m: "?l \<in># mset (pages s)" using that by simp
    have "active ?l p"
      using m lease_exact_active_iff[OF seq_okD(2)[OF ok], of ?l] leases_no_stage[OF open_(2)] by simp
    then have "references (slots p ! page_id ?l) = int (count (M + mset (pages s)) ?l)"
      using lease_exact_count[OF seq_okD(2)[OF ok]] leases_no_stage[OF open_(2)] by simp
    then have "count M ?l + count (mset (pages s)) ?l \<le> 1" using that tail by simp
    moreover have "0 < count (mset (pages s)) ?l" using m by (simp only: count_greater_zero_iff)
    ultimately show ?thesis unfolding not_in_iff by linarith
  qed
  have blocks: "0 < blocks_for (kv_end s + n) s" "int (length (pages s)) = table_blocks s"
    using table_blocks_le[OF inv, of "kv_end s + n"] inv open_ n by (auto simp: seq_inv_def)
  have table: "table_blocks (s\<lparr>pages := ps, kv_end := kv_end s + n\<rparr>) = blocks_for (kv_end s + n) s" for ps
    using inv n by (simp add: table_blocks_def blocks_for_def seq_inv_def)
  have inv': "seq_inv (s\<lparr>pages := ps, kv_end := kv_end s + n\<rparr>)"
    if "distinct ps" "int (length ps) = blocks_for (kv_end s + n) s" for ps
    using inv open_ n big that by (simp add: seq_inv_def table)
  show ?case
  proof (rule atomic_bind[OF atomic_reserve_missing[OF ok open_ _ refl]], goal_cases)
    case 1
    show ?case using n by simp
  next
    case (2 hs sq)
    obtain q where sq: "sq = (s, q)" using 2 by (cases sq) auto
    have hs: "lease_exact (M + mset (pages s) + mset hs) q" "distinct (pages s @ hs)"
      "set hs \<inter> set_mset M = {}"
      "int (length hs) = blocks_for (kv_end s + n) s - int (length (pages s)) + (if shared then 1 else 0)"
      using 2 by (auto simp: sq)
    show ?case
    proof (cases shared)
      case False
      have "seq_inv (s\<lparr>pages := pages s @ hs, kv_end := kv_end s + n\<rparr>)"
        by (rule inv') (use hs False in auto)
      moreover have "appended M s [] hs" using hs sole False by (auto simp: appended_def)
      ultimately show ?thesis
        using hs open_ n False
        by (auto simp: sq seq_ok_def seq_leases_def add.assoc intro!: atomic_return exI[of _ hs])
    next
      case True
      then have ne: "pages s \<noteq> []" "hs \<noteq> []"
        using tail hs(4) blocks table_blocks_le[OF inv, of "kv_end s + n"] n inv
        by (auto simp: seq_inv_def)
      then obtain ps l where ps: "pages s = ps @ [l]" by (metis append_butlast_last_id)
      obtain h hs' where hs': "hs = h # hs'" using ne by (cases hs) auto
      have ex: "lease_exact ((M + mset (ps @ hs)) + mset [l]) q" using hs(1) ps by (simp add: ac_simps)
      have final: "seq_inv (s\<lparr>pages := ps @ hs, kv_end := kv_end s + n\<rparr>)"
        by (rule inv') (use hs True ps in auto)
      obtain r where r: "release [l] after q = (Inr (), r)" "lease_exact (M + mset (ps @ hs)) r"
        by (rule leases.drop_held[OF ex]) (use n in auto)
      have "appended M s [(l, h)] hs" using hs tail True by (auto simp: appended_def ps hs')
      then show ?thesis
        using True final open_ r n
        by (auto simp: sq ps hs' seq_ok_def seq_leases_def intro!: atomic_return exI[of _ hs])
    qed
  qed
qed

lemma staged_update [simp]:
  "stage_inv (s\<lparr>staged := x\<rparr>) st = stage_inv s st"
  "table_blocks (s\<lparr>staged := x\<rparr>) = table_blocks s"
  by (simp_all add: stage_inv_def table_blocks_def blocks_for_def split: option.split)

lemma stage_append_contract:
  assumes ok: "seq_ok M (s, p)"
  shows "atomic_res (s, p) (stage_append oid n reuse (s, p)) (\<lambda>st sq.
     seq_ok M sq \<and> fst sq = s\<lparr>staged := Some st\<rparr> \<and> stage_oid st = oid \<and> stage_tokens st = n)"
  unfolding stage_append_def prod.case Let_def
proof (intro atomic_lift atomic_if atomic_raise, goal_cases)
  case (1 _ _ shared)
  then have open_: "\<not> closed s" "staged s = None" and n: "0 < n"
    and big: "kv_end s + n \<le> U32_MAX" and sh: "tail_shared reuse s p = Inr shared"
    by simp_all
  note inv = seq_okD(1)[OF ok]
  have tail: "shared \<Longrightarrow> pages s \<noteq> []"
    using sh by (auto simp: tail_shared_def split: if_splits sum.splits)
  have blocks: "table_blocks s \<le> blocks_for (kv_end s + n) s" "int (length (pages s)) = table_blocks s"
    using table_blocks_le[OF inv, of "kv_end s + n"] inv open_ n by (auto simp: seq_inv_def)
  have inv': "seq_inv (s\<lparr>staged := Some st\<rparr>)" if "stage_inv s st" for st
    using inv open_ that by (simp add: seq_inv_def)
  show ?case
  proof (rule atomic_bind[OF atomic_reserve_missing[OF ok open_ _ refl]], goal_cases)
    case 1
    show ?case using n by simp
  next
    case (2 hs sq)
    obtain q where sq: "sq = (s, q)" using 2 by (cases sq) auto
    have hs: "lease_exact (M + mset (pages s) + mset hs) q" "distinct (pages s @ hs)"
      "int (length hs) = blocks_for (kv_end s + n) s - int (length (pages s)) + (if shared then 1 else 0)"
      using 2 by (auto simp: sq)
    have leases: "seq_leases (s\<lparr>staged := Some st\<rparr>) = mset (pages s) + mset hs"
      if "stage_reserved st = hs" for st
      using that by (simp add: seq_leases_def)
    show ?case
    proof (cases shared)
      case True
      then have ne: "pages s \<noteq> []" "hs \<noteq> []" using tail blocks hs(3) by auto
      then have "int (length (pages s) - Suc 0) = int (length (pages s)) - 1"
        by (cases "pages s") auto
      then show ?thesis
        using ne True hs big n open_ unfolding sq prod.case
        by (cases hs) (auto simp: seq_ok_def leases add.assoc stage_inv_def intro!: atomic_return inv')
    next
      case False
      then show ?thesis
        using hs big n open_ unfolding sq prod.case
        by (auto simp: seq_ok_def leases add.assoc stage_inv_def intro!: atomic_return inv')
    qed
  qed
qed

lemma stage_invD: "seq_ok M (s, p) \<Longrightarrow> staged s = Some st \<Longrightarrow> stage_inv s st"
  by (simp add: seq_ok_def seq_inv_def)

lemma commit_append_contract:
  assumes ok: "seq_ok M (s, p)"
  shows "atomic_res (s, p) (commit_append st after (s, p)) (\<lambda>_ sq.
     seq_ok M sq \<and> staged s = Some st
     \<and> fst sq = s\<lparr>pages := stage_handles st, kv_end := kv_end s + stage_tokens st, staged := None\<rparr>)"
  unfolding commit_append_def prod.case
proof (intro atomic_lift atomic_if atomic_raise, goal_cases)
  case 1
  then have st: "\<not> closed s" "staged s = Some st" and a: "0 \<le> after" "after \<le> U64_MAX" by simp_all
  note inv = seq_okD(1)[OF ok] and si = stage_invD[OF ok st(2)]
  let ?s = "s\<lparr>pages := stage_handles st, kv_end := kv_end s + stage_tokens st, staged := None\<rparr>"
  have ex: "lease_exact (M + mset (pages s) + mset (stage_reserved st)) p"
    using seq_okD(2)[OF ok] st by (simp add: seq_leases_def add.assoc)
  have d: "distinct (stage_handles st)"
    using si by (cases "stage_source st")
      (auto simp: stage_inv_def distinct_butlast dest: in_set_butlastD)
  have "table_blocks ?s = blocks_for (kv_end s + stage_tokens st) s"
    using inv si by (simp add: table_blocks_def blocks_for_def seq_inv_def stage_inv_def)
  then have inv': "seq_inv ?s" using inv st d si by (simp add: seq_inv_def stage_inv_def)
  show ?case
  proof (cases "stage_source st")
    case None
    then show ?thesis
      using inv' ex si st
      by (auto simp: seq_ok_def seq_leases_def stage_inv_def add.assoc intro!: atomic_return)
  next
    case (Some h)
    obtain ps where ps: "pages s = ps @ [h]" and hs: "stage_handles st = ps @ stage_reserved st"
      using si Some by (auto simp: stage_inv_def) (metis append_butlast_last_id)
    have "lease_exact ((M + mset (stage_handles st)) + mset [h]) p"
      using ex by (simp add: ps hs ac_simps)
    then obtain r where "release [h] after p = (Inr (), r)" "lease_exact (M + mset (stage_handles st)) r"
      by (rule leases.drop_held) (use a in auto)
    then show ?thesis
      using inv' st si Some by (auto simp: seq_ok_def seq_leases_def stage_inv_def intro!: atomic_return)
  qed
qed

lemma discard_append_contract:
  assumes ok: "seq_ok M (s, p)"
  shows "atomic_res (s, p) (discard_append st after (s, p)) (\<lambda>_ sq.
     seq_ok M sq \<and> staged s = Some st \<and> fst sq = s\<lparr>staged := None\<rparr>)"
  unfolding discard_append_def prod.case
proof (intro atomic_lift atomic_if atomic_raise, goal_cases)
  case 1
  then have st: "\<not> closed s" "staged s = Some st" and a: "0 \<le> after" "after \<le> U64_MAX" by simp_all
  have inv': "seq_inv (s\<lparr>staged := None\<rparr>)"
    using seq_okD(1)[OF ok] st by (simp add: seq_inv_def table_blocks_def blocks_for_def)
  have ex: "lease_exact (M + mset (pages s) + mset (stage_reserved st)) p"
    using seq_okD(2)[OF ok] st by (simp add: seq_leases_def add.assoc)
  moreover have "distinct (stage_reserved st)"
    using stage_invD[OF ok st(2)] by (simp add: stage_inv_def)
  ultimately obtain r where "release (stage_reserved st) after p = (Inr (), r)"
      "lease_exact (M + mset (pages s)) r"
    by (rule leases.drop_held) (use a in auto)
  then show ?case
    using inv' ex st by (auto simp: seq_ok_def seq_leases_def intro!: atomic_return)
qed

lemma fork_contract:
  assumes ok: "seq_ok M (s, p)"
  shows "atomic_res (s, p) (fork (s, p)) (\<lambda>child sq.
     fst sq = s \<and> seq_ok (M + seq_leases child) sq \<and> seq_inv child
     \<and> child = new_sequence\<lparr>retained_start := retained_start s, kv_end := kv_end s,
                 first_block := first_block s, pages := pages s\<rparr>)"
  unfolding fork_def prod.case
proof (intro atomic_lift atomic_if atomic_raise, goal_cases)
  case 1
  then have open_: "\<not> closed s" "staged s = None" by simp_all
  have ex: "lease_exact (M + mset (pages s)) p"
    using seq_okD(2)[OF ok] leases_no_stage[OF open_(2)] by simp
  show ?case
    by (rule atomic_bind[OF atomic_on_pool[OF atomic_weaken[OF leases.atomic_share[OF ex]]],
          where R = "\<lambda>_ sq. fst sq = s \<and> lease_exact (M + mset (pages s) + mset (pages s)) (snd sq)"])
      (use seq_okD(1)[OF ok] open_ in
        \<open>auto simp: seq_ok_def seq_inv_def seq_leases_def new_sequence_def table_blocks_def
             blocks_for_def add.assoc intro!: atomic_return\<close>)
qed

text \<open>Dropping any part of the table releases exactly the leases of the dropped pages.\<close>

lemma release_part:
  assumes ex: "lease_exact (M + mset (pages s)) p" and d: "distinct (pages s)"
    and parts: "pages s = xs @ ys" and a: "0 \<le> after" "after \<le> U64_MAX"
  obtains q r where "release xs after p = (Inr (), q)" "lease_exact (M + mset ys) q"
    "release ys after p = (Inr (), r)" "lease_exact (M + mset xs) r"
proof -
  have "lease_exact ((M + mset ys) + mset xs) p" "lease_exact ((M + mset xs) + mset ys) p"
    using ex parts by (simp_all add: ac_simps)
  then obtain q r where "release xs after p = (Inr (), q)" "lease_exact (M + mset ys) q"
      "release ys after p = (Inr (), r)" "lease_exact (M + mset xs) r"
    using leases.drop_held d parts a by (metis distinct_append)
  then show ?thesis by (rule that)
qed

lemma int_length_drop:
  "0 \<le> k \<Longrightarrow> k \<le> int (length xs) \<Longrightarrow> int (length (drop (nat k) xs)) = int (length xs) - k"
  by (simp add: of_nat_diff nat_le_iff)

lemma int_length_take:
  "0 \<le> k \<Longrightarrow> k \<le> int (length xs) \<Longrightarrow> int (length (take (nat k) xs)) = k"
  by (simp add: min_def nat_le_iff) linarith

lemma trim_contract:
  assumes ok: "seq_ok M (s, p)"
  shows "atomic_res (s, p) (trim start after (s, p)) (\<lambda>_ sq.
     seq_ok M sq \<and> retained_start s \<le> start \<and> start \<le> kv_end s
     \<and> (\<exists>k. fst sq = s\<lparr>retained_start := start, first_block := start div PAGE_SIZE,
                         pages := drop k (pages s)\<rparr>))"
  unfolding trim_def prod.case Let_def
proof (intro atomic_lift atomic_if atomic_raise, goal_cases)
  case 1
  then have open_: "\<not> closed s" "staged s = None" and a: "0 \<le> after" "after \<le> U64_MAX"
    and st: "retained_start s \<le> start" "start \<le> kv_end s" by simp_all
  note inv = seq_okD(1)[OF ok]
  obtain k where kd: "(if start = kv_end s then int (length (pages s))
      else start div PAGE_SIZE - first_block s) = k" by blast
  let ?s = "s\<lparr>retained_start := start, first_block := start div PAGE_SIZE, pages := drop (nat k) (pages s)\<rparr>"
  have lenp: "int (length (pages s)) = table_blocks s" using inv open_ by (simp add: seq_inv_def)
  have k: "0 \<le> k \<and> k \<le> int (length (pages s)) \<and> int (length (pages s)) - k = table_blocks ?s"
  proof (cases "start = kv_end s")
    case True
    then show ?thesis using kd by (simp add: table_blocks_def)
  next
    case False
    then have "start div PAGE_SIZE \<le> (kv_end s - 1) div PAGE_SIZE"
      using st by (intro zdiv_mono1) (simp_all add: PAGE_SIZE_def)
    moreover have "retained_start s div PAGE_SIZE \<le> start div PAGE_SIZE"
      using st by (intro zdiv_mono1) (simp_all add: PAGE_SIZE_def)
    ultimately show ?thesis
      using False st inv lenp kd[symmetric] by (simp add: table_blocks_def blocks_for_def seq_inv_def)
  qed
  have "int (length (drop (nat k) (pages s))) = table_blocks ?s"
    using k int_length_drop[of k "pages s"] by linarith
  then have inv': "seq_inv ?s"
    using inv open_ st by (simp add: seq_inv_def del: length_drop)
  have ex: "lease_exact (M + mset (pages s)) p"
    using seq_okD(2)[OF ok] leases_no_stage[OF open_(2)] by simp
  have d: "distinct (pages s)" using inv by (simp add: seq_inv_def)
  obtain q r where qr: "release (take (nat k) (pages s)) after p = (Inr (), q)"
      "lease_exact (M + mset (drop (nat k) (pages s))) q"
    by (rule release_part[OF ex d append_take_drop_id[of "nat k", symmetric] a])
  have res: "fst sq = ?s \<Longrightarrow> lease_exact (M + mset (drop (nat k) (pages s))) (snd sq) \<Longrightarrow>
      seq_ok M sq \<and> retained_start s \<le> start \<and> start \<le> kv_end s
     \<and> (\<exists>k. fst sq = s\<lparr>retained_start := start, first_block := start div PAGE_SIZE,
                         pages := drop k (pages s)\<rparr>)" for sq
    using inv' st open_ by (auto simp: seq_ok_def seq_leases_def)
  show ?case
  proof (cases "k = 0")
    case True
    have same: "drop (nat k) (pages s) = pages s" using True by simp
    show ?thesis
      using True ex by (simp only: kd if_False simp_thms bind_res_simps prod.case)
        (rule atomic_return, rule res, simp_all add: same del: drop_eq_Nil)
  next
    case False
    then show ?thesis
      using k qr by (simp only: kd if_True simp_thms slice_to_nonneg slice_from_nonneg on_pool_simps
          bind_res_simps prod.case) (rule atomic_return, rule res, simp_all)
  qed
qed

lemma truncate_contract:
  assumes ok: "seq_ok M (s, p)"
  shows "atomic_res (s, p) (truncate_kv new_end after (s, p)) (\<lambda>_ sq.
     seq_ok M sq \<and> retained_start s \<le> new_end \<and> new_end \<le> kv_end s
     \<and> (\<exists>k. fst sq = s\<lparr>kv_end := new_end, pages := take k (pages s)\<rparr>))"
  unfolding truncate_kv_def prod.case Let_def
proof (intro atomic_lift atomic_if atomic_raise, goal_cases)
  case 1
  then have open_: "\<not> closed s" "staged s = None" and a: "0 \<le> after" "after \<le> U64_MAX"
    and en: "retained_start s \<le> new_end" "new_end \<le> kv_end s" by simp_all
  note inv = seq_okD(1)[OF ok]
  obtain k where kd: "(if retained_start s < new_end then blocks_for new_end s else 0) = k" by blast
  let ?s = "s\<lparr>kv_end := new_end, pages := take (nat k) (pages s)\<rparr>"
  have pos: "0 < blocks_for new_end s" if "retained_start s < new_end"
    using inv that zdiv_mono1[of "retained_start s" "new_end - 1" PAGE_SIZE]
    by (simp add: blocks_for_def seq_inv_def PAGE_SIZE_def)
  have k: "0 \<le> k \<and> k \<le> int (length (pages s)) \<and> k = table_blocks ?s"
  proof (cases "retained_start s < new_end")
    case True
    then show ?thesis
      using pos kd[symmetric] inv open_ en blocks_mono[OF en(2), of s]
      by (simp add: table_blocks_def blocks_for_def seq_inv_def)
  next
    case False
    then show ?thesis using kd by (simp add: table_blocks_def)
  qed
  have "int (length (take (nat k) (pages s))) = table_blocks ?s"
    using k int_length_take[of k "pages s"] by linarith
  then have inv': "seq_inv ?s"
    using inv open_ en by (simp add: seq_inv_def del: length_take)
  have fb: "(if k = 0 then new_end div PAGE_SIZE else first_block s) = first_block s"
  proof (cases "retained_start s < new_end")
    case True
    then show ?thesis using pos kd by simp
  next
    case False
    then show ?thesis using en inv by (simp add: seq_inv_def)
  qed
  have ex: "lease_exact (M + mset (pages s)) p"
    using seq_okD(2)[OF ok] leases_no_stage[OF open_(2)] by simp
  have d: "distinct (pages s)" using inv by (simp add: seq_inv_def)
  obtain q r where qr: "release (drop (nat k) (pages s)) after p = (Inr (), r)"
      "lease_exact (M + mset (take (nat k) (pages s))) r"
    by (rule release_part[OF ex d append_take_drop_id[of "nat k", symmetric] a])
  have res: "fst sq = ?s \<Longrightarrow> lease_exact (M + mset (take (nat k) (pages s))) (snd sq) \<Longrightarrow>
      seq_ok M sq \<and> retained_start s \<le> new_end \<and> new_end \<le> kv_end s
     \<and> (\<exists>k. fst sq = s\<lparr>kv_end := new_end, pages := take k (pages s)\<rparr>)" for sq
    using inv' en open_ by (auto simp: seq_ok_def seq_leases_def)
  have rec: "s\<lparr>pages := ps, kv_end := e, first_block := first_block s\<rparr> = s\<lparr>kv_end := e, pages := ps\<rparr>"
     "s\<lparr>kv_end := e, first_block := first_block s\<rparr> = s\<lparr>kv_end := e, pages := pages s\<rparr>" for ps e
    by (cases s, simp)+
  have fb0: "new_end div PAGE_SIZE = first_block s" if "k = 0" using fb that by simp
  show ?case
  proof (cases "k < int (length (pages s))")
    case True
    then show ?thesis
      using k qr by (simp only: kd if_True simp_thms slice_to_nonneg slice_from_nonneg on_pool_simps
          bind_res_simps prod.case)
        (rule atomic_return, rule res, cases "k = 0", simp_all add: rec fb0)
  next
    case False
    then have "take (nat k) (pages s) = pages s" using k by simp
    then show ?thesis
      using False ex fb by (simp only: kd if_False simp_thms bind_res_simps prod.case)
        (rule atomic_return, rule res, simp_all add: rec)
  qed
qed

lemma abort_contract:
  assumes ok: "seq_ok M (s, p)"
  shows "atomic_res (s, p) (abort after (s, p)) (\<lambda>_ sq.
     seq_ok M sq \<and> fst sq = s\<lparr>pages := [], closed := True\<rparr>)"
  unfolding abort_def prod.case
proof (intro atomic_lift atomic_if atomic_raise, goal_cases)
  case 1
  then have open_: "\<not> closed s" "staged s = None" by simp_all
  have ex: "lease_exact (M + mset (pages s)) p" and d: "distinct (pages s)"
    using seq_okD[OF ok] leases_no_stage[OF open_(2)] by (simp_all add: seq_inv_def)
  have "atomic_res p (release (pages s) after p) (\<lambda>_ q. lease_exact M q)"
    using leases.drop_ok[OF ex, of "pages s" after] leases.drop_fail[OF ex, of "pages s" after]
    by (cases "release (pages s) after p"; cases "fst (release (pages s) after p)")
      (simp_all add: atomic_res_def)
  then show ?case
    by (intro atomic_bind[OF atomic_on_pool, where R = "\<lambda>_ sq. fst sq = s \<and> lease_exact M (snd sq)"])
      (use seq_okD(1)[OF ok] open_ in
        \<open>auto simp: seq_ok_def seq_inv_def seq_leases_def atomic_res_def split: sum.splits\<close>)
qed
end
