(* ===== verification/PagedCompletion.thy ===== *)
theory PagedCompletion
  imports PagedLeases "HOL-Library.AList"
begin

text \<open>
  The completion ledger \<open>PagedKVCompletionLedger\<close> of \<^verbatim>\<open>runtime/paged_kv_native.py\<close>: it pins pages
  for the time a native command buffer may touch them and moves the retirement watermark of the
  pool through the contiguous prefix of finished epochs.

  A \<open>CompletionLease\<close> is compared by identity; \<open>lease_oid\<close> is the identity the interpreter
  gives the object, an argument of \<open>prepare\<close>.  The dict \<open>_uses\<close> is an association list with
  unique keys, and the ledger's methods are functions on the pair of the ledger and the pool.
\<close>

section \<open>State\<close>

datatype completion_lease = CompletionLease (lease_epoch: int) (lease_oid: nat)

datatype use_state = Prepared | Submitted | Completed

record ledger_use =
  use_lease :: completion_lease
  use_handles :: "page_handle list"
  use_state :: use_state
  use_cancelled :: bool

record ledger =
  next_epoch :: int
  ledger_epoch :: int
  uses :: "(int \<times> ledger_use) list"
  completed_leases :: "completion_lease set"

type_synonym ledger_state = "ledger \<times> pool"

definition new_ledger :: "pool \<Rightarrow> exc + ledger" where
  "new_ledger p =
     (if completed_epoch p \<noteq> 0 then Inl (ValueError ''completion ledger requires a fresh pool'')
      else Inr \<lparr>next_epoch = 1, ledger_epoch = 0, uses = [], completed_leases = {}\<rparr>)"

definition pending_uses :: "ledger \<Rightarrow> nat" where
  "pending_uses l = length (filter (\<lambda>(e, u). use_state u \<noteq> Completed) (uses l))"

section \<open>Operations\<close>

definition lookup_use :: "completion_lease \<Rightarrow> ledger \<Rightarrow> exc + ledger_use" where
  "lookup_use x l =
     (case map_of (uses l) (lease_epoch x) of
        None \<Rightarrow> Inl (ValueError ''unknown completion lease'')
      | Some u \<Rightarrow> if use_lease u \<noteq> x then Inl (ValueError ''unknown completion lease'') else Inr u)"

definition set_use :: "ledger_use \<Rightarrow> ledger \<Rightarrow> ledger" where
  "set_use u l = l\<lparr>uses := AList.update (lease_epoch (use_lease u)) u (uses l)\<rparr>"

definition prepare :: "nat \<Rightarrow> page_handle list \<Rightarrow> ledger_state \<Rightarrow> (completion_lease, ledger_state) res" where
  "prepare oid hs lp = (case lp of (l, p) \<Rightarrow>
     if hs = [] then (Inl (ValueError ''a completion lease requires pages''), (l, p))
     else if next_epoch l > U64_MAX then (Inl (OverflowError ''completion epoch exhausted''), (l, p))
     else bind_res (case retain hs p of (r, p) \<Rightarrow> (r, (l, p)))
       (\<lambda>_ (l, p).
          let lease = CompletionLease (next_epoch l) oid;
              u = \<lparr>use_lease = lease, use_handles = hs, use_state = Prepared, use_cancelled = False\<rparr>
          in (Inr lease, ((set_use u l)\<lparr>next_epoch := next_epoch l + 1\<rparr>, p))))"

definition submit :: "completion_lease \<Rightarrow> ledger_state \<Rightarrow> (unit, ledger_state) res" where
  "submit x lp = (case lp of (l, p) \<Rightarrow>
     lift_res (lookup_use x l) (l, p) (\<lambda>u.
       if use_state u \<noteq> Prepared then (Inl (ValueError ''lease is not prepared''), (l, p))
       else (Inr (), (set_use (u\<lparr>use_state := Submitted\<rparr>) l, p))))"

definition pinned_handles :: "completion_lease \<Rightarrow> ledger \<Rightarrow> exc + page_handle list" where
  "pinned_handles x l =
     (case lookup_use x l of
        Inl e \<Rightarrow> Inl e
      | Inr u \<Rightarrow> if use_state u = Completed
               then Inl (ValueError ''completed lease no longer pins pages'') else Inr (use_handles u))"

text \<open>The loop of \<open>_finish\<close> that walks the watermark over finished epochs.\<close>

function watermark :: "(int \<times> ledger_use) list \<Rightarrow> int \<Rightarrow> int" where
  "watermark us w =
     (case map_of us (w + 1) of
        None \<Rightarrow> w
      | Some u \<Rightarrow> if use_state u = Completed then watermark us (w + 1) else w)"
  by pat_completeness auto

termination
proof (relation "measure (\<lambda>(us, w). length (filter (\<lambda>x. w < fst x) us))", goal_cases)
  case (2 us w u)
  then have "(w + 1, u) \<in> set (filter (\<lambda>x. w < fst x) us)"
    by (auto dest: map_of_SomeD)
  then have "filter (\<lambda>x. w + 1 < fst x) (filter (\<lambda>x. w < fst x) us) \<noteq> filter (\<lambda>x. w < fst x) us"
    unfolding filter_id_conv by force
  then have "length (filter (\<lambda>x. w + 1 < fst x) (filter (\<lambda>x. w < fst x) us)) < length (filter (\<lambda>x. w < fst x) us)"
    by (metis length_filter_le le_neq_implies_less length_filter_less filter_id_conv)
  moreover have "filter (\<lambda>x. w + 1 < fst x) (filter (\<lambda>x. w < fst x) us) = filter (\<lambda>x. w + 1 < fst x) us"
    by (auto intro!: filter_cong)
  ultimately show ?case by simp
qed simp

declare watermark.simps [simp del]

definition finish :: "ledger_use \<Rightarrow> ledger_state \<Rightarrow> (unit, ledger_state) res" where
  "finish u lp = (case lp of (l, p) \<Rightarrow>
     bind_res (case release (use_handles u) (lease_epoch (use_lease u)) p of (r, p) \<Rightarrow> (r, (l, p)))
       (\<lambda>_ (l, p).
          let l = (set_use (u\<lparr>use_state := Completed\<rparr>) l)
                    \<lparr>completed_leases := insert (use_lease u) (completed_leases l)\<rparr>;
              w = watermark (uses l) (ledger_epoch l)
          in if w \<noteq> ledger_epoch l
             then bind_res (case retire w p of (r, p) \<Rightarrow> (r, (l, p)))
               (\<lambda>_ (l, p). (Inr (), (l\<lparr>ledger_epoch := w,
                              uses := fold AList.delete [ledger_epoch l + 1..w] (uses l)\<rparr>, p)))
             else (Inr (), (l, p))))"

definition abort_before_submit :: "completion_lease \<Rightarrow> ledger_state \<Rightarrow> (unit, ledger_state) res" where
  "abort_before_submit x lp = (case lp of (l, p) \<Rightarrow>
     lift_res (lookup_use x l) (l, p) (\<lambda>u.
       if use_state u \<noteq> Prepared
       then (Inl (ValueError ''submitted work requires completion proof''), (l, p))
       else finish u (l, p)))"

definition cancel :: "completion_lease \<Rightarrow> ledger_state \<Rightarrow> (unit, ledger_state) res" where
  "cancel x lp = (case lp of (l, p) \<Rightarrow>
     if x \<in> completed_leases l then (Inr (), (l, p))
     else lift_res (lookup_use x l) (l, p) (\<lambda>u.
       if use_state u = Completed then (Inr (), (l, p))
       else (Inr (), (set_use (u\<lparr>use_cancelled := True\<rparr>) l, p))))"

definition complete :: "completion_lease \<Rightarrow> bool \<Rightarrow> ledger_state \<Rightarrow> (unit, ledger_state) res" where
  "complete x succeeded lp = (case lp of (l, p) \<Rightarrow>
     if x \<in> completed_leases l then (Inr (), (l, p))
     else lift_res (lookup_use x l) (l, p) (\<lambda>u.
       if use_state u = Completed then (Inr (), (l, p))
       else if use_state u \<noteq> Submitted
       then (Inl (ValueError ''unsubmitted work has no native completion''), (l, p))
       else bind_res (if \<not> succeeded
                      then (case quarantine (use_handles u) p of (r, p) \<Rightarrow> (r, (l, p)))
                      else (Inr (), (l, p)))
              (\<lambda>_ lp. finish u lp)))"

section \<open>Association lists with unique keys\<close>

text \<open>A total over the entries changes only by the entry a dict assignment replaces.\<close>

lemma total_update_new:
  fixes f :: "'k \<times> 'v \<Rightarrow> 'm::comm_monoid_add"
  shows "map_of xs k = None \<Longrightarrow>
    sum_list (map f (AList.update k v xs)) = sum_list (map f xs) + f (k, v)"
  by (induction xs) (auto simp: ac_simps split: if_splits)

lemma total_update_old:
  fixes f :: "'k \<times> 'v \<Rightarrow> 'm::comm_monoid_add"
  shows "map_of xs k = Some w \<Longrightarrow>
    sum_list (map f (AList.update k v xs)) + f (k, w) = sum_list (map f xs) + f (k, v)"
  by (induction xs) (auto simp: ac_simps split: if_splits)

lemma total_delete:
  fixes f :: "'k \<times> 'v \<Rightarrow> 'm::comm_monoid_add"
  assumes "\<And>v. (k, v) \<in> set xs \<Longrightarrow> f (k, v) = 0"
  shows "sum_list (map f (AList.delete k xs)) = sum_list (map f xs)"
  using assms by (induction xs) auto

lemma total_deletes:
  fixes f :: "'k \<times> 'v \<Rightarrow> 'm::comm_monoid_add"
  assumes "\<And>k v. k \<in> set ks \<Longrightarrow> (k, v) \<in> set xs \<Longrightarrow> f (k, v) = 0"
  shows "sum_list (map f (fold AList.delete ks xs)) = sum_list (map f xs)"
  using assms
proof (induction ks arbitrary: xs)
  case (Cons k ks)
  then have "sum_list (map f (fold AList.delete ks (AList.delete k xs))) = sum_list (map f (AList.delete k xs))"
    by (intro Cons.IH) (auto simp: AList.delete_eq)
  then show ?case using Cons.prems total_delete[of k xs f] by simp
qed simp

lemma map_of_deletes:
  "map_of (fold AList.delete ks xs) k = (if k \<in> set ks then None else map_of xs k)"
  by (induction ks arbitrary: xs) (auto simp: delete_conv')

lemma distinct_deletes:
  "distinct (map fst xs) \<Longrightarrow> distinct (map fst (fold AList.delete ks xs))"
  by (induction ks arbitrary: xs) (auto simp: distinct_delete)

lemma sum_list_member_subset: "x \<in> set xs \<Longrightarrow> f x \<subseteq># sum_list (map f xs)"
  by (induction xs) (auto intro: subset_mset.add_increasing)

section \<open>The ledger invariant\<close>

definition pins :: "ledger_use \<Rightarrow> page_handle multiset" where
  "pins u = (if use_state u = Completed then {#} else mset (use_handles u))"

definition pinned :: "ledger \<Rightarrow> page_handle multiset" where
  "pinned l = sum_list (map (\<lambda>x. pins (snd x)) (uses l))"

definition use_ok :: "completion_lease set \<Rightarrow> int \<Rightarrow> ledger_use \<Rightarrow> bool" where
  "use_ok done e u \<longleftrightarrow> lease_epoch (use_lease u) = e \<and> distinct (use_handles u) \<and> use_handles u \<noteq> []
     \<and> (use_state u = Completed \<longleftrightarrow> use_lease u \<in> done)"

definition ledger_inv :: "ledger \<Rightarrow> bool" where
  "ledger_inv l \<longleftrightarrow>
     0 \<le> ledger_epoch l \<and> ledger_epoch l < next_epoch l \<and> next_epoch l \<le> U64_MAX + 1
   \<and> distinct (map fst (uses l))
   \<and> (\<forall>e. map_of (uses l) e \<noteq> None \<longleftrightarrow> ledger_epoch l < e \<and> e < next_epoch l)
   \<and> (\<forall>e u. map_of (uses l) e = Some u \<longrightarrow> use_ok (completed_leases l) e u)
   \<and> (\<forall>x \<in> completed_leases l. 0 < lease_epoch x \<and> lease_epoch x < next_epoch l)
   \<and> (\<forall>u. map_of (uses l) (ledger_epoch l + 1) = Some u \<longrightarrow> use_state u \<noteq> Completed)"

definition ledger_ok :: "page_handle multiset \<Rightarrow> ledger_state \<Rightarrow> bool" where
  "ledger_ok M lp \<longleftrightarrow> ledger_inv (fst lp) \<and> completed_epoch (snd lp) = ledger_epoch (fst lp)
     \<and> lease_exact (M + pinned (fst lp)) (snd lp)"

lemma watermark_spec:
  "w \<le> watermark us w
   \<and> (\<forall>e. w < e \<and> e \<le> watermark us w \<longrightarrow> (\<exists>u. map_of us e = Some u \<and> use_state u = Completed))
   \<and> (\<forall>u. map_of us (watermark us w + 1) = Some u \<longrightarrow> use_state u \<noteq> Completed)"
proof (induction us w rule: watermark.induct)
  case (1 us w)
  show ?case
  proof (cases "\<exists>u. map_of us (w + 1) = Some u \<and> use_state u = Completed")
    case True
    then obtain u where u: "map_of us (w + 1) = Some u" "use_state u = Completed" by blast
    have "e = w + 1 \<or> w + 1 < e" if "w < e" for e using that by linarith
    then show ?thesis using 1 u watermark.simps[of us w] by fastforce
  next
    case False
    then have "watermark us w = w"
      using watermark.simps[of us w] by (auto split: option.splits)
    then show ?thesis using False by auto
  qed
qed

lemma new_ledger_ok:
  assumes "new_pool cap = Inr p"
  shows "\<exists>l. new_ledger p = Inr l \<and> ledger_ok {#} (l, p)"
  using assms lease_exact_new[OF assms]
  by (auto simp: new_ledger_def ledger_ok_def ledger_inv_def pinned_def U64_MAX_def new_pool_def
           split: sum.splits)

lemma lookup_use_Inr:
  "lookup_use x l = Inr u \<longleftrightarrow> map_of (uses l) (lease_epoch x) = Some u \<and> use_lease u = x"
  by (auto simp: lookup_use_def split: option.splits)

lemma map_of_set_use [simp]:
  "map_of (uses (set_use u l)) = (map_of (uses l))(lease_epoch (use_lease u) \<mapsto> u)"
  by (simp add: set_use_def update_conv')

lemma set_use_simps [simp]:
  "next_epoch (set_use u l) = next_epoch l" "ledger_epoch (set_use u l) = ledger_epoch l"
  "completed_leases (set_use u l) = completed_leases l"
  by (simp_all add: set_use_def)

lemma distinct_set_use: "distinct (map fst (uses l)) \<Longrightarrow> distinct (map fst (uses (set_use u l)))"
  by (simp add: set_use_def distinct_update)

lemma pinned_set_use:
  assumes "map_of (uses l) (lease_epoch (use_lease u)) = Some v"
  shows "pinned (set_use u l) + pins v = pinned l + pins u"
  using total_update_old[OF assms, of "\<lambda>x. pins (snd x)" u]
  by (simp add: pinned_def set_use_def)

lemma pinned_new_use:
  assumes "map_of (uses l) (lease_epoch (use_lease u)) = None"
  shows "pinned (set_use u l) = pinned l + pins u"
  using total_update_new[OF assms, of "\<lambda>x. pins (snd x)" u]
  by (simp add: pinned_def set_use_def)


section \<open>Contracts of the operations\<close>

lemma ledger_okD:
  assumes "ledger_ok M (l, p)"
  shows "ledger_inv l" and "completed_epoch p = ledger_epoch l" and "lease_exact (M + pinned l) p"
  using assms by (simp_all add: ledger_ok_def)

lemma ledger_invD:
  assumes "ledger_inv l"
  shows "0 \<le> ledger_epoch l" and "ledger_epoch l < next_epoch l" and "next_epoch l \<le> U64_MAX + 1"
    and "distinct (map fst (uses l))"
    and "map_of (uses l) e = Some u \<Longrightarrow> ledger_epoch l < e \<and> e < next_epoch l"
    and "ledger_epoch l < e \<Longrightarrow> e < next_epoch l \<Longrightarrow> \<exists>u. map_of (uses l) e = Some u"
    and "map_of (uses l) e = Some u \<Longrightarrow> use_ok (completed_leases l) e u"
    and "x \<in> completed_leases l \<Longrightarrow> 0 < lease_epoch x \<and> lease_epoch x < next_epoch l"
    and "map_of (uses l) (ledger_epoch l + 1) = Some u \<Longrightarrow> use_state u \<noteq> Completed"
  using assms unfolding ledger_inv_def by (blast | metis option.exhaust option.distinct(1))+

lemma reserve_epoch: "pool_inv p \<Longrightarrow> completed_epoch (snd (reserve n p)) = completed_epoch p"
  by (cases rule: reserve_cases[where n = n, consumes 1]) (auto simp: reserved_from_def)

lemma retain_epoch: "pool_inv p \<Longrightarrow> completed_epoch (snd (retain hs p)) = completed_epoch p"
  by (cases rule: retain_cases[where hs = hs, consumes 1]) (auto simp: slots_mapped_def)

lemma quarantine_epoch: "pool_inv p \<Longrightarrow> completed_epoch (snd (quarantine hs p)) = completed_epoch p"
  by (cases rule: quarantine_cases[where hs = hs, consumes 1]) (auto simp: slots_mapped_def)

lemma release_epoch: "pool_inv p \<Longrightarrow> completed_epoch (snd (release hs after p)) = completed_epoch p"
  by (cases rule: release_cases[where hs = hs and after = after, consumes 1]) (auto simp: released_to_def)

text \<open>A use that stays open keeps its pins.\<close>

lemma set_use_open:
  assumes ok: "ledger_ok M (l, p)" and u: "map_of (uses l) (lease_epoch (use_lease u)) = Some u"
    and v: "use_lease v = use_lease u" "use_handles v = use_handles u"
      "use_state v \<noteq> Completed" "use_state u \<noteq> Completed"
  shows "ledger_ok M (set_use v l, p)"
proof -
  note inv = ledger_okD(1)[OF ok]
  have "pins v = pins u" using v by (simp add: pins_def)
  then have "pinned (set_use v l) = pinned l" using pinned_set_use[of l v u] u v by simp
  moreover have "use_ok (completed_leases l) (lease_epoch (use_lease u)) v"
    using ledger_invD(7)[OF inv u] v by (simp add: use_ok_def)
  ultimately show ?thesis
    using ok u v unfolding ledger_ok_def ledger_inv_def
    by (auto simp: distinct_set_use split: if_splits)
qed

lemma finish_contract:
  assumes ok: "ledger_ok M (l, p)" and u: "map_of (uses l) (lease_epoch (use_lease u)) = Some u"
    and open_: "use_state u \<noteq> Completed"
  obtains l' p' where "finish u (l, p) = (Inr (), (l', p'))" and "ledger_ok M (l', p')"
    and "next_epoch l' = next_epoch l" and "ledger_epoch l \<le> ledger_epoch l'"
    and "completed_leases l' = insert (use_lease u) (completed_leases l)"
    and "\<And>e. map_of (uses l') e = (if e \<le> ledger_epoch l' then None
           else if e = lease_epoch (use_lease u) then Some (u\<lparr>use_state := Completed\<rparr>)
           else map_of (uses l) e)"
    and "\<And>e v. map_of (uses l) e = Some v \<Longrightarrow> e \<le> ledger_epoch l' \<Longrightarrow>
           e = lease_epoch (use_lease u) \<or> use_state v = Completed"
proof -
  note inv = ledger_okD(1)[OF ok] and ep = ledger_okD(2)[OF ok]
  let ?e = "lease_epoch (use_lease u)" and ?v = "u\<lparr>use_state := Completed\<rparr>"
  define l1 where "l1 = (set_use ?v l)\<lparr>completed_leases := insert (use_lease u) (completed_leases l)\<rparr>"
  define w where "w = watermark (uses l1) (ledger_epoch l)"
  define l2 where "l2 = l1\<lparr>ledger_epoch := w, uses := fold AList.delete [ledger_epoch l + 1..w] (uses l1)\<rparr>"
  have e: "ledger_epoch l < ?e" "?e < next_epoch l" "use_ok (completed_leases l) ?e u"
    using ledger_invD(5,7)[OF inv u] by auto
  have l1: "ledger_epoch l1 = ledger_epoch l" "next_epoch l1 = next_epoch l"
    "map_of (uses l1) = (map_of (uses l))(?e \<mapsto> ?v)"
    by (simp_all add: l1_def)
  have d1: "distinct (map fst (uses l1))"
    using distinct_set_use[OF ledger_invD(4)[OF inv], of ?v] by (simp add: l1_def)
  have pin: "pinned l1 + mset (use_handles u) = pinned l"
    using pinned_set_use[of l ?v u] u open_ by (simp add: pins_def l1_def pinned_def)
  have "lease_exact ((M + pinned l1) + mset (use_handles u)) p"
    using ledger_okD(3)[OF ok] pin by (simp add: add.assoc)
  then obtain q where q: "release (use_handles u) ?e p = (Inr (), q)" "lease_exact (M + pinned l1) q"
    by (rule leases.drop_held[where after = ?e]) (use e ledger_invD(1-3)[OF inv] in \<open>auto simp: use_ok_def\<close>)
  have epq: "completed_epoch q = ledger_epoch l"
    using release_epoch[OF lease_exact_inv[OF ledger_okD(3)[OF ok]], of "use_handles u" ?e] q ep by simp
  have w: "ledger_epoch l \<le> w" "\<And>k. ledger_epoch l < k \<Longrightarrow> k \<le> w \<Longrightarrow>
        \<exists>x. map_of (uses l1) k = Some x \<and> use_state x = Completed"
      "\<And>x. map_of (uses l1) (w + 1) = Some x \<Longrightarrow> use_state x \<noteq> Completed"
    using watermark_spec[of "ledger_epoch l" "uses l1"] by (auto simp: w_def)
  have dom1: "map_of (uses l1) k \<noteq> None \<longleftrightarrow> ledger_epoch l < k \<and> k < next_epoch l" for k
    using ledger_invD(5,6)[OF inv, of k] e by (auto simp: l1(3) split: if_splits)
  have wn: "w < next_epoch l"
    using w(1) w(2)[of w] dom1[of w] ledger_invD(2)[OF inv] by fastforce
  have uses1: "use_ok (completed_leases l1) k x" if "map_of (uses l1) k = Some x" for k x
    using that ledger_invD(7)[OF inv, of k x] e by (auto simp: l1(3) use_ok_def l1_def split: if_splits)
  have l2: "ledger_epoch l2 = w" "next_epoch l2 = next_epoch l" "completed_leases l2 = completed_leases l1"
    "map_of (uses l2) k = (if ledger_epoch l < k \<and> k \<le> w then None else map_of (uses l1) k)" for k
    by (auto simp: l2_def l1 map_of_deletes)
  have dom2: "map_of (uses l2) k \<noteq> None \<longleftrightarrow> w < k \<and> k < next_epoch l" for k
    using dom1[of k] w(1) by (auto simp: l2(4))
  have inv2: "ledger_inv l2"
    unfolding ledger_inv_def l2(1-3)
  proof (intro conjI)
    show "0 \<le> w" "w < next_epoch l" "next_epoch l \<le> U64_MAX + 1"
      using ledger_invD(1,3)[OF inv] w(1) wn by auto
    show "distinct (map fst (uses l2))" using distinct_deletes[OF d1] by (simp add: l2_def)
    show "\<forall>e. (map_of (uses l2) e \<noteq> None) = (w < e \<and> e < next_epoch l)" using dom2 by blast
    show "\<forall>e u. map_of (uses l2) e = Some u \<longrightarrow> use_ok (completed_leases l1) e u"
      using uses1 by (simp add: l2(4))
    show "\<forall>x \<in> completed_leases l1. 0 < lease_epoch x \<and> lease_epoch x < next_epoch l"
      using ledger_invD(1,8)[OF inv] e by (auto simp: l1_def)
    show "\<forall>u. map_of (uses l2) (w + 1) = Some u \<longrightarrow> use_state u \<noteq> Completed"
      using w(3) by (simp add: l2(4))
  qed
  have "pins x = {#}" if kx: "k \<in> set [ledger_epoch l + 1..w]" "(k, x) \<in> set (uses l1)" for k x
  proof -
    have "map_of (uses l1) k = Some x" using kx(2) d1 by simp
    then show ?thesis using w(2)[of k] kx(1) by (simp add: pins_def)
  qed
  then have pin2: "pinned l2 = pinned l1"
    using total_deletes[of "[ledger_epoch l + 1..w]" "uses l1" "\<lambda>x. pins (snd x)"]
    by (simp add: pinned_def l2_def)
  have uses2: "map_of (uses l2) k = (if k \<le> w then None
      else if k = ?e then Some ?v else map_of (uses l) k)" for k
    using dom1[of k] e by (auto simp: l2(4) l1(3))
  have walked: "k = ?e \<or> use_state v = Completed" if "map_of (uses l) k = Some v" "k \<le> w" for k v
    using w(2)[of k] that ledger_invD(5)[OF inv that(1)] by (auto simp: l1(3) split: if_splits)
  have run: "finish u (l, p) = (if w \<noteq> ledger_epoch l
      then bind_res (case retire w q of (r, p) \<Rightarrow> (r, (l1, p)))
        (\<lambda>_ (l, p). (Inr (), (l\<lparr>ledger_epoch := w,
            uses := fold AList.delete [ledger_epoch l + 1..w] (uses l)\<rparr>, p)))
      else (Inr (), (l1, q)))"
    by (simp add: finish_def q(1) Let_def w_def l1_def)
  show ?thesis
  proof (cases "w = ledger_epoch l")
    case True
    then have "l2 = l1" by (simp add: l2_def l1_def)
    then show ?thesis
      using that[of l1 q] run True inv2 q(2) epq l2 uses2 walked by (auto simp: ledger_ok_def l1_def)
  next
    case False
    obtain r where r: "retire w q = (Inr (), r)" "completed_epoch r = w"
      using lease_exact_inv[OF q(2)]
      by (cases rule: retire_cases[where c = w, consumes 1])
        (use w(1) wn ledger_invD(3)[OF inv] epq in \<open>auto simp: retired_to_def\<close>)
    have "lease_exact (M + pinned l1) r" using leases.collect_exact[OF q(2), of w] r(1) by simp
    then have "ledger_ok M (l2, r)" using inv2 r(2) pin2 by (simp add: ledger_ok_def l2(1))
    moreover have "finish u (l, p) = (Inr (), (l2, r))"
      using run False r(1) by (simp add: l2_def l1(1))
    ultimately show ?thesis
      using that[of l2 r] l2 uses2 walked w(1) by (auto simp: l1_def)
  qed
qed

lemma prepare_contract:
  assumes ok: "ledger_ok M (l, p)"
  shows "atomic_res (l, p) (prepare oid hs (l, p)) (\<lambda>x lp.
     ledger_ok M lp \<and> x = CompletionLease (next_epoch l) oid \<and> hs \<noteq> []
     \<and> next_epoch (fst lp) = next_epoch l + 1 \<and> ledger_epoch (fst lp) = ledger_epoch l
     \<and> completed_leases (fst lp) = completed_leases l
     \<and> map_of (uses (fst lp)) = (map_of (uses l))(next_epoch l \<mapsto>
         \<lparr>use_lease = x, use_handles = hs, use_state = Prepared, use_cancelled = False\<rparr>))"
  unfolding prepare_def prod.case
proof (intro atomic_if atomic_raise, goal_cases)
  case 1
  note inv = ledger_okD(1)[OF ok]
  let ?u = "\<lparr>use_lease = CompletionLease (next_epoch l) oid, use_handles = hs,
             use_state = Prepared, use_cancelled = False\<rparr>"
  let ?l = "(set_use ?u l)\<lparr>next_epoch := next_epoch l + 1\<rparr>"
  have new: "map_of (uses l) (next_epoch l) = None"
    using ledger_invD(5)[OF inv, of "next_epoch l"] by (cases "map_of (uses l) (next_epoch l)") auto
  have fresh: "CompletionLease (next_epoch l) oid \<notin> completed_leases l"
    using ledger_invD(8)[OF inv, of "CompletionLease (next_epoch l) oid"] by auto
  have pin: "pinned ?l = pinned l + mset hs"
    using pinned_new_use[of l ?u] new by (simp add: pins_def pinned_def)
  from leases.atomic_share[OF ledger_okD(3)[OF ok], of hs] show ?case
  proof (cases rule: atomic_cases)
    case (fail e)
    then show ?thesis by (simp add: atomic_raise)
  next
    case (ok x q)
    have "completed_epoch q = ledger_epoch l"
      using retain_epoch[OF lease_exact_inv[OF ledger_okD(3)[OF assms]], of hs] ok(1)
        ledger_okD(2)[OF assms] by simp
    moreover have "ledger_inv ?l"
      unfolding ledger_inv_def
    proof (intro conjI)
      show "\<forall>e. (map_of (uses ?l) e \<noteq> None) = (ledger_epoch ?l < e \<and> e < next_epoch ?l)"
        using ledger_invD(2,5,6)[OF inv] new by fastforce
      show "\<forall>e u. map_of (uses ?l) e = Some u \<longrightarrow> use_ok (completed_leases ?l) e u"
        using ledger_invD(7)[OF inv] ok(2) fresh 1 by (auto simp: use_ok_def)
      show "\<forall>x \<in> completed_leases ?l. 0 < lease_epoch x \<and> lease_epoch x < next_epoch ?l"
        using ledger_invD(8)[OF inv] by fastforce
      show "\<forall>u. map_of (uses ?l) (ledger_epoch ?l + 1) = Some u \<longrightarrow> use_state u \<noteq> Completed"
        using ledger_invD(9)[OF inv] by auto
    qed (use ledger_invD(1-4)[OF inv] 1 in \<open>auto simp: distinct_set_use\<close>)
    ultimately show ?thesis
      using ok 1 pin by (auto simp: ledger_ok_def Let_def add.assoc intro!: atomic_return)
  qed
qed

lemma submit_contract:
  assumes ok: "ledger_ok M (l, p)"
  shows "atomic_res (l, p) (submit x (l, p)) (\<lambda>_ lp. ledger_ok M lp \<and> snd lp = p
     \<and> (\<exists>u. lookup_use x l = Inr u \<and> use_state u = Prepared
          \<and> fst lp = set_use (u\<lparr>use_state := Submitted\<rparr>) l))"
  unfolding submit_def prod.case
proof (intro atomic_lift atomic_if atomic_raise, goal_cases)
  case (1 u)
  then have "map_of (uses l) (lease_epoch (use_lease u)) = Some u" by (auto simp: lookup_use_Inr)
  then have "ledger_ok M (set_use (u\<lparr>use_state := Submitted\<rparr>) l, p)"
    by (rule set_use_open[OF ok]) (use 1 in auto)
  then show ?case using 1 by (auto intro!: atomic_return)
qed

lemma cancel_contract:
  assumes ok: "ledger_ok M (l, p)"
  shows "atomic_res (l, p) (cancel x (l, p)) (\<lambda>_ lp. ledger_ok M lp \<and> snd lp = p
     \<and> (fst lp = l \<or> (\<exists>u. lookup_use x l = Inr u \<and> use_state u \<noteq> Completed
          \<and> fst lp = set_use (u\<lparr>use_cancelled := True\<rparr>) l)))"
  unfolding cancel_def prod.case
proof (intro atomic_lift atomic_if atomic_raise, goal_cases)
  case (3 u)
  then have "map_of (uses l) (lease_epoch (use_lease u)) = Some u" by (auto simp: lookup_use_Inr)
  then have "ledger_ok M (set_use (u\<lparr>use_cancelled := True\<rparr>) l, p)"
    by (rule set_use_open[OF ok]) (use 3 in auto)
  then show ?case using 3 by (auto intro!: atomic_return)
qed (use ok in \<open>auto intro: atomic_return\<close>)

text \<open>What finishing a use changes, shared by \<open>abort_before_submit\<close> and \<open>complete\<close>.\<close>

definition finished :: "ledger_use \<Rightarrow> ledger \<Rightarrow> ledger \<Rightarrow> bool" where
  "finished u l l' \<longleftrightarrow> next_epoch l' = next_epoch l \<and> ledger_epoch l \<le> ledger_epoch l'
     \<and> completed_leases l' = insert (use_lease u) (completed_leases l)
     \<and> (\<forall>e. map_of (uses l') e = (if e \<le> ledger_epoch l' then None
           else if e = lease_epoch (use_lease u) then Some (u\<lparr>use_state := Completed\<rparr>)
           else map_of (uses l) e))
     \<and> (\<forall>e v. map_of (uses l) e = Some v \<longrightarrow> e \<le> ledger_epoch l' \<longrightarrow>
           e = lease_epoch (use_lease u) \<or> use_state v = Completed)"

lemma finish_atomic:
  assumes "ledger_ok M (l, p)" and "lookup_use x l = Inr u" and "use_state u \<noteq> Completed"
  obtains l' p' where "finish u (l, p) = (Inr (), (l', p'))" and "ledger_ok M (l', p')"
    and "finished u l l'"
proof -
  have "map_of (uses l) (lease_epoch (use_lease u)) = Some u"
    using assms(2) by (auto simp: lookup_use_Inr)
  then show ?thesis
    by (rule finish_contract[OF assms(1) _ assms(3)]) (rule that, auto simp: finished_def)
qed

lemma abort_before_submit_contract:
  assumes ok: "ledger_ok M (l, p)"
  shows "atomic_res (l, p) (abort_before_submit x (l, p)) (\<lambda>_ lp. ledger_ok M lp
     \<and> (\<exists>u. lookup_use x l = Inr u \<and> use_state u = Prepared \<and> finished u l (fst lp)))"
  unfolding abort_before_submit_def prod.case
proof (intro atomic_lift atomic_if atomic_raise, goal_cases)
  case (1 u)
  obtain l' p' where f: "finish u (l, p) = (Inr (), (l', p'))" "ledger_ok M (l', p')" "finished u l l'"
    by (rule finish_atomic[OF ok 1(1)]) (use 1 in auto)
  show ?case using 1 unfolding f(1) by (intro atomic_return) (auto simp: f)
qed

lemma pins_pinned: "map_of (uses l) e = Some u \<Longrightarrow> pins u \<subseteq># pinned l"
  using sum_list_member_subset[of "(e, u)" "uses l" "\<lambda>x. pins (snd x)"]
  by (auto simp: pinned_def dest: map_of_SomeD)

text \<open>Marking the pages of an open use quarantined cannot fail and keeps every lease.\<close>

lemma quarantine_pins:
  assumes ok: "ledger_ok M (l, p)" and u: "lookup_use x l = Inr u" and open_: "use_state u \<noteq> Completed"
  obtains q where "quarantine (use_handles u) p = (Inr (), q)" and "ledger_ok M (l, q)"
    and "\<And>h. h \<in> set (use_handles u) \<Longrightarrow> barred (page_id h) (generation h) q"
proof -
  have m: "map_of (uses l) (lease_epoch x) = Some u" using u by (simp add: lookup_use_Inr)
  then have "mset (use_handles u) \<subseteq># pinned l"
    using pins_pinned[of l "lease_epoch x" u] open_ by (simp add: pins_def)
  then have "set (use_handles u) \<subseteq> set_mset (M + pinned l)"
    using set_mset_mono by fastforce
  then have act: "\<forall>h \<in> set (use_handles u). active h p"
    using lease_exact_active_iff[OF ledger_okD(3)[OF ok]] by blast
  have d: "distinct (use_handles u)"
    using ledger_invD(7)[OF ledger_okD(1)[OF ok] m] by (simp add: use_ok_def)
  have inv: "pool_inv p" using lease_exact_inv[OF ledger_okD(3)[OF ok]] .
  then show ?thesis
  proof (cases rule: quarantine_cases[where hs = "use_handles u"])
    case (fail e)
    have "validate_unique_active (use_handles u) p = Inr (map page_id (use_handles u))"
      using act d by simp
    then show ?thesis using fail by (simp add: quarantine_def del: validate_Inr)
  next
    case (ok q)
    have "ledger_ok M (l, q)"
      using lease_exact_quarantine[OF ledger_okD(3)[OF assms(1)] act ok(5,2)]
        quarantine_epoch[OF inv, of "use_handles u"] ledger_okD(2)[OF assms(1)] ok(1)
        ledger_okD(1)[OF assms(1)]
      by (simp add: ledger_ok_def)
    moreover have "barred (page_id h) (generation h) q" if "h \<in> set (use_handles u)" for h
      using that act ok(5) pool_inv_length[OF inv]
      by (auto simp: barred_def slots_mapped_def quarantined_def active_def)
    ultimately show ?thesis using that ok(1) by blast
  qed
qed

lemma complete_submitted:
  assumes ok: "ledger_ok M (l, p)" and u: "lookup_use x l = Inr u" and sub: "use_state u = Submitted"
  obtains q l' p' where "complete x b (l, p) = (Inr (), (l', p'))" and "ledger_ok M (l', p')"
    and "finished u l l'" and "finish u (l, q) = (Inr (), (l', p'))" and "pool_inv q"
    and "\<And>h. \<not> b \<Longrightarrow> h \<in> set (use_handles u) \<Longrightarrow> barred (page_id h) (generation h) q"
proof -
  have open_: "use_state u \<noteq> Completed" using sub by simp
  have nc: "x \<notin> completed_leases l"
    using ledger_invD(7)[OF ledger_okD(1)[OF ok], of "lease_epoch x" u] u open_
    by (auto simp: lookup_use_Inr use_ok_def)
  obtain q0 where q0: "quarantine (use_handles u) p = (Inr (), q0)" "ledger_ok M (l, q0)"
      "\<And>h. h \<in> set (use_handles u) \<Longrightarrow> barred (page_id h) (generation h) q0"
    using quarantine_pins[OF ok u open_] by blast
  define q where "q = (if b then p else q0)"
  have q: "ledger_ok M (l, q)" "(if \<not> b
        then (case quarantine (use_handles u) p of (r, p) \<Rightarrow> (r, (l, p))) else (Inr (), (l, p)))
      = (Inr (), (l, q))"
      "\<not> b \<Longrightarrow> h \<in> set (use_handles u) \<Longrightarrow> barred (page_id h) (generation h) q" for h
    using ok q0 by (simp_all add: q_def)
  obtain l' p' where f: "finish u (l, q) = (Inr (), (l', p'))" "ledger_ok M (l', p')" "finished u l l'"
    by (rule finish_atomic[OF q(1) u open_])
  have "complete x b (l, p) = (Inr (), (l', p'))"
    using nc u sub q(2) f(1) unfolding complete_def prod.case by simp
  then show ?thesis
    using that f q(3) lease_exact_inv[OF ledger_okD(3)[OF q(1)]] by blast
qed

lemma complete_contract:
  assumes ok: "ledger_ok M (l, p)"
  shows "atomic_res (l, p) (complete x b (l, p)) (\<lambda>_ lp. ledger_ok M lp
     \<and> (x \<in> completed_leases l \<and> lp = (l, p)
        \<or> (\<exists>u. lookup_use x l = Inr u \<and> use_state u = Submitted \<and> finished u l (fst lp))))"
proof (cases "\<exists>u. lookup_use x l = Inr u \<and> use_state u = Submitted")
  case True
  then obtain u where u: "lookup_use x l = Inr u" "use_state u = Submitted" by blast
  obtain q l' p' where "complete x b (l, p) = (Inr (), (l', p'))" "ledger_ok M (l', p')" "finished u l l'"
    by (rule complete_submitted[OF ok u])
  then show ?thesis using u by (auto intro!: atomic_return)
next
  case False
  then show ?thesis
    unfolding complete_def prod.case
    using ledger_invD(7)[OF ledger_okD(1)[OF ok], of "lease_epoch x"] ok
    by (intro atomic_if atomic_lift atomic_raise)
      (auto simp: lookup_use_Inr use_ok_def intro!: atomic_return)
qed

end
