(* ===== verification/PagedWorld.thy ===== *)
theory PagedWorld
  imports PagedSequence PagedCompletion
begin

text \<open>
  One pool with any number of page tables and the completion ledger of
  \<^verbatim>\<open>runtime/paged_kv_native.py\<close>, under any interleaving of their calls.

  The calls of a table or of the ledger are steps of the world.  The pool's leases are accounted
  for exactly: each belongs to an entry of a table, to a staged append or to a pending use.  From
  that the properties derive who may read, write or reuse a page.
\<close>

section \<open>State\<close>

record world =
  arena :: pool
  tables :: "sequence list"
  completion :: ledger

datatype world_call =
    OpenTable
  | AppendTokens nat int int
  | StageAppend nat nat int int
  | CommitAppend nat append_reservation int
  | DiscardAppend nat append_reservation int
  | ForkTable nat
  | TrimTable nat int int
  | TruncateTable nat int int
  | AbortTable nat int
  | PrepareUse nat "page_handle list"
  | SubmitUse completion_lease
  | AbortUse completion_lease
  | CancelUse completion_lease
  | CompleteUse completion_lease bool

datatype reply = Done | Copies "(page_handle \<times> page_handle) list"
  | Reserved append_reservation | Leased completion_lease

definition on_table :: "nat \<Rightarrow> ('a \<Rightarrow> reply) \<Rightarrow> (seq_state \<Rightarrow> ('a, seq_state) res) \<Rightarrow> world \<Rightarrow> (reply, world) res" where
  "on_table i reply_of f w =
     (if i < length (tables w)
      then (case f (tables w ! i, arena w) of (r, (s, p)) \<Rightarrow>
              (map_sum id reply_of r, w\<lparr>arena := p, tables := (tables w)[i := s]\<rparr>))
      else (Inl (IndexError ''no such sequence''), w))"

definition on_ledger :: "('a \<Rightarrow> reply) \<Rightarrow> (ledger_state \<Rightarrow> ('a, ledger_state) res) \<Rightarrow> world \<Rightarrow> (reply, world) res" where
  "on_ledger reply_of f w =
     (case f (completion w, arena w) of (r, (l, p)) \<Rightarrow>
        (map_sum id reply_of r, w\<lparr>arena := p, completion := l\<rparr>))"

definition fork_table :: "nat \<Rightarrow> world \<Rightarrow> (reply, world) res" where
  "fork_table i w =
     (if i < length (tables w)
      then (case fork (tables w ! i, arena w) of
              (Inl e, (s, p)) \<Rightarrow> (Inl e, w\<lparr>arena := p, tables := (tables w)[i := s]\<rparr>)
            | (Inr child, (s, p)) \<Rightarrow> (Inr Done, w\<lparr>arena := p, tables := (tables w)[i := s] @ [child]\<rparr>))
      else (Inl (IndexError ''no such sequence''), w))"

fun world_step :: "world_call \<Rightarrow> world \<Rightarrow> (reply, world) res" where
  "world_step OpenTable w = (Inr Done, w\<lparr>tables := tables w @ [new_sequence]\<rparr>)"
| "world_step (AppendTokens i n after) w = on_table i Copies (append_tokens n after) w"
| "world_step (StageAppend i oid n reuse) w = on_table i Reserved (stage_append oid n reuse) w"
| "world_step (CommitAppend i st after) w = on_table i (\<lambda>_. Done) (commit_append st after) w"
| "world_step (DiscardAppend i st after) w = on_table i (\<lambda>_. Done) (discard_append st after) w"
| "world_step (ForkTable i) w = fork_table i w"
| "world_step (TrimTable i start after) w = on_table i (\<lambda>_. Done) (trim start after) w"
| "world_step (TruncateTable i e after) w = on_table i (\<lambda>_. Done) (truncate_kv e after) w"
| "world_step (AbortTable i after) w = on_table i (\<lambda>_. Done) (abort after) w"
| "world_step (PrepareUse oid hs) w = on_ledger Leased (prepare oid hs) w"
| "world_step (SubmitUse x) w = on_ledger (\<lambda>_. Done) (submit x) w"
| "world_step (AbortUse x) w = on_ledger (\<lambda>_. Done) (abort_before_submit x) w"
| "world_step (CancelUse x) w = on_ledger (\<lambda>_. Done) (cancel x) w"
| "world_step (CompleteUse x ok) w = on_ledger (\<lambda>_. Done) (complete x ok) w"

definition world_start :: "world \<Rightarrow> bool" where
  "world_start w \<longleftrightarrow> (\<exists>cap p l. new_pool cap = Inr p \<and> new_ledger p = Inr l
     \<and> w = \<lparr>arena = p, tables = [], completion = l\<rparr>)"

section \<open>The invariant over all owners\<close>

definition table_leases :: "sequence list \<Rightarrow> page_handle multiset" where
  "table_leases ss = sum_list (map seq_leases ss)"

definition world_inv :: "world \<Rightarrow> bool" where
  "world_inv w \<longleftrightarrow> (\<forall>s \<in> set (tables w). seq_inv s)
     \<and> ledger_ok (table_leases (tables w)) (completion w, arena w)"

lemma table_leases_simps [simp]:
  "table_leases [] = {#}" "table_leases (ss @ [s]) = table_leases ss + seq_leases s"
  by (simp_all add: table_leases_def)

lemma table_leases_update:
  "i < length ss \<Longrightarrow> table_leases (ss[i := s]) + seq_leases (ss ! i) = table_leases ss + seq_leases s"
  by (induction ss arbitrary: i) (auto simp: table_leases_def nth_Cons ac_simps split: nat.splits)

lemma pool_epochs [simp]:
  "completed_epoch (retain_loop is p) = completed_epoch p"
  "completed_epoch (release_loop hs after p) = completed_epoch p"
proof -
  show "completed_epoch (retain_loop is p) = completed_epoch p"
    by (induction "is" arbitrary: p) auto
  show "completed_epoch (release_loop hs after p) = completed_epoch p"
    by (induction hs arbitrary: p) (auto simp: release_one_def Let_def)
qed

lemma snd_bind_keep: "snd (bind_res r (\<lambda>x s. (g x, s))) = snd r"
  by (simp add: bind_res_def split: sum.split)

lemma reserve_loop_epoch [simp]: "completed_epoch (snd (reserve_loop n p)) = completed_epoch p"
proof (induction n arbitrary: p)
  case (Suc n)
  then show ?case by (simp add: Let_def snd_bind_keep split del: bind_res_split)
qed simp

lemma keeps_epoch:
  "completed_epoch (snd (reserve n p)) = completed_epoch p"
  "completed_epoch (snd (retain hs p)) = completed_epoch p"
  "completed_epoch (snd (release hs after p)) = completed_epoch p"
  by (simp_all add: reserve_def retain_def release_def)

text \<open>An operation on a table that is built from pool calls keeps the completed epoch.\<close>

definition epoch_kept :: "int \<Rightarrow> ('a, seq_state) res \<Rightarrow> bool" where
  "epoch_kept e r \<longleftrightarrow> completed_epoch (snd (snd r)) = e"

named_theorems epoch_intros \<open>rules for \<open>epoch_kept\<close>, by the shape of the code\<close>

lemma epoch_kept_base [epoch_intros]: "completed_epoch p = e \<Longrightarrow> epoch_kept e (r, (s, p))"
  by (simp add: epoch_kept_def)

lemma epoch_kept_lift [epoch_intros]:
  "completed_epoch (snd sp) = e \<Longrightarrow> (\<And>x. r = Inr x \<Longrightarrow> epoch_kept e (k x)) \<Longrightarrow> epoch_kept e (lift_res r sp k)"
  by (simp add: epoch_kept_def)

lemma epoch_kept_if [epoch_intros]:
  "epoch_kept e r \<Longrightarrow> epoch_kept e r' \<Longrightarrow> epoch_kept e (if b then r else r')"
  by simp

lemma epoch_kept_bind [epoch_intros]:
  "epoch_kept e r \<Longrightarrow> (\<And>x s p. completed_epoch p = e \<Longrightarrow> epoch_kept e (k x (s, p)))
    \<Longrightarrow> epoch_kept e (bind_res r k)"
  by (cases r; cases "fst r") (auto simp: epoch_kept_def bind_res_def)

lemma epoch_kept_call [epoch_intros]:
  "completed_epoch p = e \<Longrightarrow> completed_epoch (snd (reserve n p)) = e"
  "completed_epoch p = e \<Longrightarrow> completed_epoch (snd (retain hs p)) = e"
  "completed_epoch p = e \<Longrightarrow> completed_epoch (snd (release hs after p)) = e"
  "completed_epoch p = e \<Longrightarrow> completed_epoch (snd (x, p)) = e"
  "completed_epoch p = e \<Longrightarrow> completed_epoch (snd (s, p)) = e"
  "completed_epoch (snd r) = e \<Longrightarrow> completed_epoch (snd r') = e \<Longrightarrow>
     completed_epoch (snd (if b then r else r')) = e"
  "completed_epoch (snd r) = e \<Longrightarrow> (\<And>y. completed_epoch (snd (f y)) = e) \<Longrightarrow>
     completed_epoch (snd (case o' of None \<Rightarrow> r | Some y \<Rightarrow> f y)) = e"
  by (simp_all add: keeps_epoch split: option.split)

lemma epoch_kept_pool [epoch_intros]: "completed_epoch (snd r) = e \<Longrightarrow> epoch_kept e (on_pool s r)"
  by (simp add: epoch_kept_def on_pool_def)



lemma table_ops_epoch:
  assumes "completed_epoch p = e"
  shows "epoch_kept e (append_tokens n after (s, p))"
    and "epoch_kept e (stage_append oid n reuse (s, p))"
    and "epoch_kept e (commit_append st after (s, p))"
    and "epoch_kept e (discard_append st after (s, p))"
    and "epoch_kept e (fork (s, p))"
    and "epoch_kept e (trim start after (s, p))"
    and "epoch_kept e (truncate_kv new_end after (s, p))"
    and "epoch_kept e (abort after (s, p))"
  unfolding append_tokens_def stage_append_def commit_append_def discard_append_def fork_def
    trim_def truncate_kv_def abort_def prod.case Let_def
  by (rule epoch_intros assms | assumption | simp only: prod.case)+


text \<open>The leases of everything but table \<open>i\<close>: a table with no pages in its place.\<close>

definition others :: "nat \<Rightarrow> world \<Rightarrow> page_handle multiset" where
  "others i w = table_leases ((tables w)[i := new_sequence]) + pinned (completion w)"

lemma world_table:
  assumes "world_inv w" and "i < length (tables w)"
  shows "seq_ok (others i w) (tables w ! i, arena w)"
    and "table_leases ((tables w)[i := s]) + pinned (completion w) = others i w + seq_leases s"
proof -
  have upd: "table_leases ((tables w)[i := s]) = table_leases ((tables w)[i := new_sequence]) + seq_leases s" for s
    using table_leases_update[of i "(tables w)[i := new_sequence]" s] assms(2) by simp
  show "table_leases ((tables w)[i := s]) + pinned (completion w) = others i w + seq_leases s"
    unfolding others_def upd[of s] by (simp add: ac_simps)
  have "seq_inv (tables w ! i)" using assms by (simp add: world_inv_def)
  moreover have "table_leases (tables w) + pinned (completion w) = others i w + seq_leases (tables w ! i)"
    using upd[of "tables w ! i"] assms(2) by (simp add: others_def ac_simps)
  ultimately show "seq_ok (others i w) (tables w ! i, arena w)"
    using assms(1) by (simp add: world_inv_def ledger_ok_def seq_ok_def)
qed

lemma world_inv_table:
  assumes inv: "world_inv w" and i: "i < length (tables w)" and ok: "seq_ok (others i w) (s, p)"
    and e: "completed_epoch p = completed_epoch (arena w)"
  shows "world_inv (w\<lparr>arena := p, tables := (tables w)[i := s]\<rparr>)"
  using inv ok e world_table(2)[OF inv i, of s]
  by (auto simp: world_inv_def ledger_ok_def seq_ok_def dest: set_update_subset_insert[THEN subsetD])

lemma on_table_atomic:
  assumes inv: "world_inv w"
    and contract: "\<And>M s p. seq_ok M (s, p) \<Longrightarrow> atomic_res (s, p) (f (s, p)) (\<lambda>_. seq_ok M)"
    and epoch: "\<And>s p. epoch_kept (completed_epoch p) (f (s, p))"
  shows "atomic_res w (on_table i g f w) (\<lambda>y w'. world_inv w' \<and> i < length (tables w)
     \<and> (\<exists>x s p. f (tables w ! i, arena w) = (Inr x, (s, p)) \<and> y = g x
          \<and> w' = w\<lparr>arena := p, tables := (tables w)[i := s]\<rparr>))"
  unfolding on_table_def
proof (intro atomic_if atomic_raise)
  assume i: "i < length (tables w)"
  from contract[OF world_table(1)[OF inv i]]
  show "atomic_res w (case f (tables w ! i, arena w) of (r, (s, p)) \<Rightarrow>
      (map_sum id g r, w\<lparr>arena := p, tables := (tables w)[i := s]\<rparr>))
    (\<lambda>y w'. world_inv w' \<and> i < length (tables w)
     \<and> (\<exists>x s p. f (tables w ! i, arena w) = (Inr x, (s, p)) \<and> y = g x
          \<and> w' = w\<lparr>arena := p, tables := (tables w)[i := s]\<rparr>))"
  proof (cases rule: atomic_cases)
    case (fail e)
    then show ?thesis by (simp add: atomic_raise)
  next
    case (ok x sp)
    obtain s p where sp: "sp = (s, p)" by (cases sp)
    have "completed_epoch p = completed_epoch (arena w)"
      using epoch[of "arena w" "tables w ! i"] ok(1) by (simp add: epoch_kept_def sp)
    then show ?thesis
      using ok i world_inv_table[OF inv i, of s p] by (auto simp: sp intro!: atomic_return)
  qed
qed

lemma on_ledger_atomic:
  assumes inv: "world_inv w"
    and contract: "\<And>M l p. ledger_ok M (l, p) \<Longrightarrow> atomic_res (l, p) (f (l, p)) (\<lambda>_. ledger_ok M)"
  shows "atomic_res w (on_ledger g f w) (\<lambda>y w'. world_inv w'
     \<and> (\<exists>x l p. f (completion w, arena w) = (Inr x, (l, p)) \<and> y = g x
          \<and> w' = w\<lparr>arena := p, completion := l\<rparr>))"
proof -
  have "ledger_ok (table_leases (tables w)) (completion w, arena w)" using inv by (simp add: world_inv_def)
  from contract[OF this] show ?thesis
  proof (cases rule: atomic_cases)
    case (fail e)
    then show ?thesis by (simp add: on_ledger_def atomic_raise)
  next
    case (ok x lp)
    obtain l p where lp: "lp = (l, p)" by (cases lp)
    then show ?thesis
      using ok inv by (auto simp: on_ledger_def world_inv_def intro!: atomic_return)
  qed
qed

lemma fork_table_atomic:
  assumes inv: "world_inv w"
  shows "atomic_res w (fork_table i w) (\<lambda>_ w'. world_inv w' \<and> i < length (tables w)
     \<and> (\<exists>child p. w' = w\<lparr>arena := p, tables := tables w @ [child]\<rparr> \<and>
          child = new_sequence\<lparr>retained_start := retained_start (tables w ! i), kv_end := kv_end (tables w ! i),
                 first_block := first_block (tables w ! i), pages := pages (tables w ! i)\<rparr>))"
  unfolding fork_table_def
proof (intro atomic_if atomic_raise)
  assume i: "i < length (tables w)"
  from fork_contract[OF world_table(1)[OF inv i]]
  show "atomic_res w (case fork (tables w ! i, arena w) of
              (Inl e, (s, p)) \<Rightarrow> (Inl e, w\<lparr>arena := p, tables := (tables w)[i := s]\<rparr>)
            | (Inr child, (s, p)) \<Rightarrow> (Inr Done, w\<lparr>arena := p, tables := (tables w)[i := s] @ [child]\<rparr>))
    (\<lambda>_ w'. world_inv w' \<and> i < length (tables w)
     \<and> (\<exists>child p. w' = w\<lparr>arena := p, tables := tables w @ [child]\<rparr> \<and>
          child = new_sequence\<lparr>retained_start := retained_start (tables w ! i), kv_end := kv_end (tables w ! i),
                 first_block := first_block (tables w ! i), pages := pages (tables w ! i)\<rparr>))"
  proof (cases rule: atomic_cases)
    case (fail e)
    then show ?thesis by (simp add: atomic_raise)
  next
    case (ok child sp)
    obtain s p where sp: "sp = (s, p)" by (cases sp)
    have "completed_epoch p = completed_epoch (arena w)"
      using table_ops_epoch(5)[of "arena w" _ "tables w ! i", OF refl] ok(1) by (simp add: epoch_kept_def sp)
    moreover have "table_leases (tables w @ [child]) + pinned (completion w)
        = others i w + seq_leases child + seq_leases s"
      using world_table(2)[OF inv i, of "tables w ! i"] ok(2) sp by (simp add: ac_simps)
    ultimately have "world_inv (w\<lparr>arena := p, tables := tables w @ [child]\<rparr>)"
      using inv ok(2) sp by (auto simp: world_inv_def ledger_ok_def seq_ok_def simp del: table_leases_simps)
    then show ?thesis
      using ok i sp by (auto intro!: atomic_return)
  qed
qed

text \<open>The contracts, lifted to the world.\<close>

lemma on_table_inv:
  assumes "world_inv w"
    and "\<And>M s p. seq_ok M (s, p) \<Longrightarrow> atomic_res (s, p) (f (s, p)) (R M s p)"
    and "\<And>s p. epoch_kept (completed_epoch p) (f (s, p))"
    and "\<And>M s p x sq. R M s p x sq \<Longrightarrow> seq_ok M sq"
  shows "atomic_res w (on_table i g f w) (\<lambda>_. world_inv)"
  by (rule atomic_weaken[OF on_table_atomic[OF assms(1) atomic_weaken[OF assms(2)] assms(3)]])
    (use assms(4) in auto)

lemma on_ledger_inv:
  assumes "world_inv w"
    and "\<And>M l p. ledger_ok M (l, p) \<Longrightarrow> atomic_res (l, p) (f (l, p)) (R M l p)"
    and "\<And>M l p x lp. R M l p x lp \<Longrightarrow> ledger_ok M lp"
  shows "atomic_res w (on_ledger g f w) (\<lambda>_. world_inv)"
  by (rule atomic_weaken[OF on_ledger_atomic[OF assms(1) atomic_weaken[OF assms(2)]]])
    (use assms(3) in auto)

lemmas table_steps =
  on_table_inv[OF _ append_tokens_contract table_ops_epoch(1)[OF refl]]
  on_table_inv[OF _ stage_append_contract table_ops_epoch(2)[OF refl]]
  on_table_inv[OF _ commit_append_contract table_ops_epoch(3)[OF refl]]
  on_table_inv[OF _ discard_append_contract table_ops_epoch(4)[OF refl]]
  on_table_inv[OF _ trim_contract table_ops_epoch(6)[OF refl]]
  on_table_inv[OF _ truncate_contract table_ops_epoch(7)[OF refl]]
  on_table_inv[OF _ abort_contract table_ops_epoch(8)[OF refl]]

lemmas ledger_steps =
  on_ledger_inv[OF _ prepare_contract] on_ledger_inv[OF _ submit_contract]
  on_ledger_inv[OF _ abort_before_submit_contract] on_ledger_inv[OF _ cancel_contract]
  on_ledger_inv[OF _ complete_contract]

lemma world_step_atomic:
  assumes inv: "world_inv w"
  shows "atomic_res w (world_step c w) (\<lambda>_. world_inv)"
proof (cases c)
  case OpenTable
  then show ?thesis using inv by (auto simp: world_inv_def intro!: atomic_return)
next
  case ForkTable
  then show ?thesis using fork_table_atomic[OF inv] by (auto intro: atomic_weaken)
qed (simp_all only: world_step.simps, (intro table_steps ledger_steps inv; blast)+)

interpretation paged_world: stateful_component world_start world_step world_inv
proof unfold_locales
  show "world_start w \<Longrightarrow> world_inv w" for w
    using new_ledger_ok by (fastforce simp: world_start_def world_inv_def)
  show "world_inv w \<Longrightarrow> world_inv (snd (world_step c w))" for c w
    using world_step_atomic[of w c] by (auto simp: atomic_res_def split: sum.splits)
qed


section \<open>Properties of the paged runtime\<close>

definition held :: "world \<Rightarrow> page_handle multiset" where
  "held w = table_leases (tables w) + pinned (completion w)"

lemma world_leases: "world_inv w \<Longrightarrow> lease_exact (held w) (arena w)"
  by (simp add: world_inv_def ledger_ok_def held_def)

lemma leased_not_idle:
  assumes "lease_exact M p" and "h \<in># M"
  shows "page_id h \<notin> set (free p)" and "page_id h \<notin> set (pending_pages p)"
proof -
  have "0 < references (slots p ! page_id h)"
    using assms lease_exact_active_iff[OF assms(1)] lease_exact_count[OF assms(1)] by auto
  then show "page_id h \<notin> set (free p)" "page_id h \<notin> set (pending_pages p)"
    using pool_inv_free[OF lease_exact_inv[OF assms(1)]] pool_inv_pending[OF lease_exact_inv[OF assms(1)]]
    by (fastforce simp: pending_pages_def)+
qed

text \<open>
  C1: Whatever sequence of client calls and completions produced the state, every page handle
  that a page table, a staged append or an unfinished submission still names is live in the
  pool, is neither free nor waiting for reuse, and its reference count is exactly the number of
  its holders.
\<close>

theorem leased_pages_are_safe:
  assumes "reachable world_start world_step w" and "h \<in># held w"
  shows "active h (arena w) \<and> page_id h \<notin> set (free (arena w))
     \<and> page_id h \<notin> set (pending_pages (arena w))
     \<and> references (slots (arena w) ! page_id h) = int (count (held w) h)"
proof -
  have ex: "lease_exact (held w) (arena w)"
    using world_leases paged_world.inv_reachable[OF assms(1)] by blast
  then show ?thesis
    using assms(2) leased_not_idle[OF ex] lease_exact_active_iff[OF ex] lease_exact_count[OF ex] by simp
qed

text \<open>
  C19: A call of any client that raises leaves the pool, every page table and the ledger exactly
  as they were.
\<close>

theorem world_failure_atomic:
  assumes "reachable world_start world_step w" and "world_step c w = (Inl e, w')"
  shows "w' = w"
  using world_step_atomic[OF paged_world.inv_reachable[OF assms(1)], of c] assms(2)
  by (auto dest: atomic_failD)

definition page_of :: "sequence \<Rightarrow> int \<Rightarrow> page_handle" where
  "page_of s t = pages s ! nat (t div PAGE_SIZE - first_block s)"

lemma block_index:
  assumes inv: "seq_inv s" and "\<not> closed s" and "retained_start s \<le> t" "t < kv_end s"
  shows "first_block s \<le> t div PAGE_SIZE" and "nat (t div PAGE_SIZE - first_block s) < length (pages s)"
proof -
  have "retained_start s div PAGE_SIZE \<le> t div PAGE_SIZE" "t div PAGE_SIZE \<le> (kv_end s - 1) div PAGE_SIZE"
    using assms by (auto simp: PAGE_SIZE_def intro!: zdiv_mono1)
  then show "first_block s \<le> t div PAGE_SIZE" "nat (t div PAGE_SIZE - first_block s) < length (pages s)"
    using assms by (auto simp: seq_inv_def table_blocks_def blocks_for_def)
qed

lemma appended_page_sole:
  assumes ok: "seq_ok M (s, p)" and open_: "\<not> closed s" "staged s = None" and n: "0 < n"
    and ap: "appended M s copies hs"
    and s': "s' = s\<lparr>kv_end := kv_end s + n, pages := (if copies = [] then pages s else butlast (pages s)) @ hs\<rparr>"
    and inv': "seq_inv s'" and t: "kv_end s \<le> t" "t < kv_end s + n"
  shows "page_of s' t \<in> set (pages s')" and "page_of s' t \<notin># M"
proof -
  note inv = seq_okD(1)[OF ok]
  have idx: "first_block s' \<le> t div PAGE_SIZE" "nat (t div PAGE_SIZE - first_block s') < length (pages s')"
    using block_index[OF inv', of t] inv open_ t by (auto simp: s' seq_inv_def)
  then show mem: "page_of s' t \<in> set (pages s')" by (simp add: page_of_def)
  let ?i = "nat (t div PAGE_SIZE - first_block s)"
  have len: "int (length (pages s)) = table_blocks s" using inv open_ by (simp add: seq_inv_def)
  have le: "kv_end s div PAGE_SIZE \<le> t div PAGE_SIZE" using t by (auto simp: PAGE_SIZE_def intro!: zdiv_mono1)
  have old: "kv_end s mod PAGE_SIZE \<noteq> 0 \<and> ?i = length (pages s) - 1" if "?i < length (pages s)"
  proof -
    have ne: "retained_start s < kv_end s"
      using that len by (auto simp: table_blocks_def split: if_splits)
    then have "t div PAGE_SIZE \<le> (kv_end s - 1) div PAGE_SIZE"
      using that len idx(1) by (auto simp: table_blocks_def blocks_for_def s')
    moreover have "(kv_end s - 1) div PAGE_SIZE \<le> kv_end s div PAGE_SIZE"
      by (auto simp: PAGE_SIZE_def intro!: zdiv_mono1)
    ultimately have "(kv_end s - 1) div PAGE_SIZE = kv_end s div PAGE_SIZE" "t div PAGE_SIZE = kv_end s div PAGE_SIZE"
      using le by auto
    then show ?thesis
      using len ne idx(1) by (auto simp: table_blocks_def blocks_for_def s' PAGE_SIZE_def nat_diff_distrib)
  qed
  have "page_of s' t \<in> set hs \<or> page_of s' t \<notin># M"
  proof (cases "copies = []")
    case True
    show ?thesis
    proof (cases "?i < length (pages s)")
      case True
      then have ne: "pages s \<noteq> []" by auto
      then have "page_of s' t = last (pages s)"
        using old[OF True] \<open>copies = []\<close> by (simp add: page_of_def s' nth_append last_conv_nth)
      then show ?thesis using ap \<open>copies = []\<close> old[OF True] ne by (auto simp: appended_def)
    next
      case False
      then have "page_of s' t = hs ! (?i - length (pages s))"
        using \<open>copies = []\<close> by (simp add: page_of_def s' nth_append)
      moreover have "?i - length (pages s) < length hs" using idx(2) False \<open>copies = []\<close> by (auto simp: s')
      ultimately show ?thesis by simp
    qed
  next
    case False
    then have ne: "pages s \<noteq> []" using ap by (auto simp: appended_def)
    have "\<not> ?i < length (pages s) - 1" using old by fastforce
    then have "page_of s' t = hs ! (?i - (length (pages s) - 1))"
      using False ne by (simp add: page_of_def s' nth_append)
    moreover have "?i - (length (pages s) - 1) < length hs"
      using idx(2) False \<open>\<not> ?i < length (pages s) - 1\<close> ne by (auto simp: s')
    ultimately show ?thesis by simp
  qed
  then show "page_of s' t \<notin># M" using ap by (auto simp: appended_def)
qed

lemma on_table_Inr:
  "on_table i g f w = (Inr y, w') \<longleftrightarrow> i < length (tables w) \<and> (\<exists>x s p.
     f (tables w ! i, arena w) = (Inr x, (s, p)) \<and> y = g x
     \<and> w' = w\<lparr>arena := p, tables := (tables w)[i := s]\<rparr>)"
  by (cases "f (tables w ! i, arena w)"; cases "fst (f (tables w ! i, arena w))") (auto simp: on_table_def)

text \<open>
  C2: After a successful append to a table, every page that holds one of the new tokens has
  exactly one lease: no other table, staged append or submission shares it, so a write cannot be
  seen through a fork (copy-on-write isolation).
\<close>

theorem written_pages_are_private:
  assumes "reachable world_start world_step w"
    and "world_step (AppendTokens i n after) w = (Inr (Copies cs), w')"
    and "kv_end (tables w ! i) \<le> t" and "t < kv_end (tables w ! i) + n"
  shows "references (slots (arena w') ! page_id (page_of (tables w' ! i) t)) = 1
     \<and> (\<forall>j < length (tables w'). j \<noteq> i \<longrightarrow> page_of (tables w' ! i) t \<notin># seq_leases (tables w' ! j))
     \<and> page_of (tables w' ! i) t \<notin># pinned (completion w')"
proof -
  have inv: "world_inv w" by (rule paged_world.inv_reachable[OF assms(1)])
  have i: "i < length (tables w)" using assms(2) by (simp add: on_table_Inr)
  obtain s p where sp: "append_tokens n after (tables w ! i, arena w) = (Inr cs, (s, p))"
    and w': "w' = w\<lparr>arena := p, tables := (tables w)[i := s]\<rparr>"
    using assms(2) by (auto simp: on_table_Inr)
  note ok = world_table(1)[OF inv i]
  from atomic_okD[OF append_tokens_contract[OF ok] sp] obtain hs where
    new: "seq_ok (others i w) (s, p)" "\<not> closed (tables w ! i)" "staged (tables w ! i) = None" "0 < n"
      "appended (others i w) (tables w ! i) cs hs"
      "s = (tables w ! i)\<lparr>kv_end := kv_end (tables w ! i) + n,
         pages := (if cs = [] then pages (tables w ! i) else butlast (pages (tables w ! i))) @ hs\<rparr>"
    by auto
  have h: "page_of s t \<in> set (pages s)" "page_of s t \<notin># others i w"
    using appended_page_sole[OF ok new(2-6) seq_okD(1)[OF new(1)] assms(3,4)] by auto
  have staged_s: "staged s = None" using new(3,6) by simp
  have d: "distinct (pages s)" using seq_okD(1)[OF new(1)] by (simp add: seq_inv_def)
  have ex: "lease_exact (others i w + seq_leases s) p" using new(1) by (simp add: seq_ok_def)
  have m: "page_of s t \<in># others i w + seq_leases s" using h leases_no_stage[OF staged_s] by simp
  have "count (others i w + seq_leases s) (page_of s t) = 1"
    using h d leases_no_stage[OF staged_s] by (simp add: count_mset_distinct not_in_iff)
  then have "references (slots p ! page_id (page_of s t)) = 1"
    using lease_exact_count[OF ex] lease_exact_active_iff[OF ex] m by simp
  moreover have "page_of s t \<notin># seq_leases (tables w ! j)" if "j < length (tables w)" "j \<noteq> i" for j
  proof -
    have "seq_leases (tables w ! j) \<subseteq># table_leases ((tables w)[i := new_sequence])"
      unfolding table_leases_def using that
      by (intro sum_list_member_subset) (metis length_list_update nth_list_update_neq nth_mem)
    then show ?thesis using h(2) by (auto simp: others_def dest: mset_subset_eqD)
  qed
  ultimately show ?thesis
    using i h(2) by (auto simp: w' others_def)
qed


lemma table_page_held:
  "s \<in> set ss \<Longrightarrow> h \<in> set (pages s) \<Longrightarrow> h \<in># table_leases ss"
  using sum_list_member_subset[of s ss seq_leases]
  by (auto simp: table_leases_def seq_leases_def dest!: mset_subset_eqD)

text \<open>The handle the block arithmetic finds for a retained token is a live page of the table.\<close>

lemma retained_page:
  assumes inv: "world_inv w" and "s \<in> set (tables w)" and "\<not> closed s" and "retained_start s \<le> t" and "t < kv_end s"
  shows "first_block s \<le> t div PAGE_SIZE" and "nat (t div PAGE_SIZE - first_block s) < length (pages s)"
    and "active (page_of s t) (arena w)"
proof -
  have "seq_inv s" using assms(1,2) by (simp add: world_inv_def)
  note idx = block_index[OF this assms(3-5)]
  then show "first_block s \<le> t div PAGE_SIZE" "nat (t div PAGE_SIZE - first_block s) < length (pages s)" by simp_all
  from idx(2) have "page_of s t \<in># held w"
    using table_page_held[OF assms(2)] by (simp add: page_of_def held_def)
  then show "active (page_of s t) (arena w)"
    using lease_exact_active_iff[OF world_leases[OF inv]] by simp
qed

text \<open>
  An open table in a reachable state has a page for every token it retains, at the index the
  block arithmetic computes, and the handle found there is live in the pool.
\<close>

theorem retained_tokens_have_pages:
  assumes "reachable world_start world_step w" and "s \<in> set (tables w)" and "\<not> closed s"
    and "retained_start s \<le> t" and "t < kv_end s"
  shows "nat (t div PAGE_SIZE - first_block s) < length (pages s)
     \<and> first_block s \<le> t div PAGE_SIZE \<and> active (page_of s t) (arena w)"
  using retained_page[OF paged_world.inv_reachable[OF assms(1)] assms(2-5)] by blast

text \<open>A submission in flight.\<close>

definition in_flight :: "completion_lease \<Rightarrow> page_handle list \<Rightarrow> ledger \<Rightarrow> bool" where
  "in_flight x hs l \<longleftrightarrow> (\<exists>u. lookup_use x l = Inr u \<and> use_state u = Submitted \<and> use_handles u = hs)"

lemma in_flight_finished:
  assumes f: "in_flight x hs l" and u: "lookup_use y l = Inr u" "finished u l l'" and ne: "y \<noteq> x"
  shows "in_flight x hs l'"
proof -
  obtain v where v: "map_of (uses l) (lease_epoch x) = Some v" "use_lease v = x"
      "use_state v = Submitted" "use_handles v = hs"
    using f by (auto simp: in_flight_def lookup_use_Inr)
  have "map_of (uses l) (lease_epoch y) = Some u" "use_lease u = y"
    using u(1) by (simp_all add: lookup_use_Inr)
  then have other: "lease_epoch x \<noteq> lease_epoch (use_lease u)"
    using v(1,2) ne by (metis option.inject)
  have "lease_epoch x = lease_epoch (use_lease u) \<or> use_state v = Completed"
    if "lease_epoch x \<le> ledger_epoch l'"
    using u(2) v(1) that unfolding finished_def by blast
  then have "\<not> lease_epoch x \<le> ledger_epoch l'" using other v(3) by auto
  then have "map_of (uses l') (lease_epoch x) = map_of (uses l) (lease_epoch x)"
    using u(2) other by (simp add: finished_def)
  then show ?thesis using v by (auto simp: in_flight_def lookup_use_Inr)
qed

lemma in_flight_set_use:
  assumes "in_flight x hs l" and "lookup_use y l = Inr u"
  shows "in_flight x hs (set_use (u\<lparr>use_state := Submitted\<rparr>) l)"
    and "in_flight x hs (set_use (u\<lparr>use_cancelled := True\<rparr>) l)"
  using assms by (auto simp: in_flight_def lookup_use_Inr)

lemma in_flight_step:
  assumes inv: "world_inv w" and f: "in_flight x hs (completion w)" and c: "\<And>b. c \<noteq> CompleteUse x b"
  shows "in_flight x hs (completion (snd (world_step c w)))"
proof -
  have ok: "ledger_ok (table_leases (tables w)) (completion w, arena w)"
    using inv by (simp add: world_inv_def)
  have table: "completion (snd (on_table i g h w)) = completion w" for i g and h :: "seq_state \<Rightarrow> ('b, seq_state) res"
    by (simp add: on_table_def split: prod.split)
  have ledger: "completion (snd (on_ledger g h w)) = fst (snd (h (completion w, arena w)))"
    for g and h :: "ledger_state \<Rightarrow> ('b, ledger_state) res"
    by (simp add: on_ledger_def split: prod.split)
  have fork: "completion (snd (fork_table i w)) = completion w" for i
    by (simp add: fork_table_def split: prod.split sum.split)
  note keep = in_flight_set_use[OF f] in_flight_finished[OF f]
  show ?thesis
  proof (cases c)
    case (PrepareUse oid ps)
    have new: "map_of (uses (completion w)) (next_epoch (completion w)) = None"
      using ledger_invD(5)[OF ledger_okD(1)[OF ok], of "next_epoch (completion w)"] by fastforce
    show ?thesis
      using prepare_contract[OF ok, of oid ps] f new unfolding PrepareUse world_step.simps ledger
      by (cases rule: atomic_cases) (auto simp: in_flight_def lookup_use_Inr)
  next
    case (SubmitUse y)
    show ?thesis
      using submit_contract[OF ok, of y] f unfolding SubmitUse world_step.simps ledger
      by (cases rule: atomic_cases) (auto intro: keep)
  next
    case (AbortUse y)
    show ?thesis
      using abort_before_submit_contract[OF ok, of y]
    proof (cases rule: atomic_cases)
      case (fail e)
      then show ?thesis using f by (simp add: AbortUse ledger)
    next
      case (ok r lp)
      then obtain u where u: "lookup_use y (completion w) = Inr u" "use_state u = Prepared"
          "finished u (completion w) (fst lp)" by blast
      then have "y \<noteq> x" using f by (auto simp: in_flight_def)
      then show ?thesis using keep(3)[OF u(1,3)] ok(1) by (simp add: AbortUse ledger)
    qed
  next
    case (CancelUse y)
    show ?thesis
      using cancel_contract[OF ok, of y] f unfolding CancelUse world_step.simps ledger
      by (cases rule: atomic_cases) (auto intro: keep)
  next
    case (CompleteUse y b)
    then have ne: "y \<noteq> x" using c by blast
    show ?thesis
      using complete_contract[OF ok, of y b] f ne unfolding CompleteUse world_step.simps ledger
      by (cases rule: atomic_cases) (auto intro: keep)
  qed (use f in \<open>simp_all add: table fork\<close>)
qed

text \<open>
  C5: Once a submission is in flight, its pages stay live and out of the free list through any
  further calls of any client, cancellation of the request and abort of the tables included,
  until its own completion arrives.
\<close>

theorem submitted_pins_survive:
  assumes "reachable world_start world_step w" and "in_flight x hs (completion w)"
    and "\<forall>b. CompleteUse x b \<notin> set cs" and "h \<in> set hs"
  shows "active h (arena (run_calls world_step cs w))
     \<and> page_id h \<notin> set (free (arena (run_calls world_step cs w)))"
proof -
  have inv: "world_inv w" by (rule paged_world.inv_reachable[OF assms(1)])
  let ?w = "run_calls world_step cs w"
  have "in_flight x hs (completion ?w)"
  proof (rule paged_world.run_keeps[OF inv])
    show "in_flight x hs (completion (snd (world_step c s)))"
      if "c \<in> set cs" "world_inv s" "in_flight x hs (completion s)" for s c
      by (rule in_flight_step[OF that(2,3)]) (use assms(3) that(1) in auto)
  qed (rule assms(2))
  then obtain u where "map_of (uses (completion ?w)) (lease_epoch x) = Some u" "pins u = mset hs"
    by (auto simp: in_flight_def lookup_use_Inr pins_def)
  then have "mset hs \<subseteq># pinned (completion ?w)" using pins_pinned by metis
  then have "h \<in># held ?w" using assms(4) by (auto simp: held_def dest: mset_subset_eqD)
  with world_leases[OF paged_world.inv_run[OF inv]] show ?thesis
    using leased_not_idle(1) lease_exact_active_iff by blast
qed


section \<open>Every step of the world is a run of the pool\<close>

text \<open>
  Tables and ledger touch the pool only through its calls, so facts about runs of the pool
  carry over to runs of the world.
\<close>

definition pool_run :: "pool \<Rightarrow> pool \<Rightarrow> bool" where
  "pool_run p q \<longleftrightarrow> (\<exists>cs. q = run_calls pool_step cs p)"

definition runs_pool :: "pool \<Rightarrow> ('a, 's \<times> pool) res \<Rightarrow> bool" where
  "runs_pool p r \<longleftrightarrow> pool_run p (snd (snd r))"

named_theorems run_intros \<open>rules for \<open>runs_pool\<close>, by the shape of the code\<close>

lemma pool_run_refl [run_intros]: "pool_run p p"
  unfolding pool_run_def by (rule exI[of _ "[]"]) simp

lemma pool_run_trans: "pool_run p q \<Longrightarrow> pool_run q r \<Longrightarrow> pool_run p r"
  unfolding pool_run_def by (metis run_calls_append)

lemma pool_run_step: "pool_run p q \<Longrightarrow> pool_run p (snd (pool_step c q))"
  by (rule pool_run_trans) (auto simp: pool_run_def intro!: exI[of _ "[c]"])

lemma pool_run_call [run_intros]:
  "pool_run p q \<Longrightarrow> pool_run p (snd (reserve n q))"
  "pool_run p q \<Longrightarrow> pool_run p (snd (retain hs q))"
  "pool_run p q \<Longrightarrow> pool_run p (snd (release hs after q))"
  "pool_run p q \<Longrightarrow> pool_run p (snd (quarantine hs q))"
  "pool_run p q \<Longrightarrow> pool_run p (snd (retire e q))"
  using pool_run_step[of p q "Reserve n"] pool_run_step[of p q "Retain hs"]
    pool_run_step[of p q "Release hs after"] pool_run_step[of p q "Quarantine hs"]
    pool_run_step[of p q "Retire e"]
  by (simp_all add: snd_bind_keep split del: bind_res_split)

lemma pool_run_branch [run_intros]:
  "pool_run p q \<Longrightarrow> pool_run p (snd (x, q))"
  "pool_run p (snd r) \<Longrightarrow> pool_run p (snd r') \<Longrightarrow> pool_run p (snd (if b then r else r'))"
  "pool_run p (snd r) \<Longrightarrow> (\<And>y. pool_run p (snd (f y))) \<Longrightarrow>
     pool_run p (snd (case o' of None \<Rightarrow> r | Some y \<Rightarrow> f y))"
  by (simp_all split: option.split)

lemma runs_pool_shape [run_intros]:
  "pool_run p q \<Longrightarrow> runs_pool p (r, (s, q))"
  "pool_run p (snd sp) \<Longrightarrow> (\<And>x. c = Inr x \<Longrightarrow> runs_pool p (k x)) \<Longrightarrow> runs_pool p (lift_res c sp k)"
  "runs_pool p r1 \<Longrightarrow> runs_pool p r2 \<Longrightarrow> runs_pool p (if b then r1 else r2)"
  by (simp_all add: runs_pool_def)

lemma runs_pool_bind [run_intros]:
  "runs_pool p r \<Longrightarrow> (\<And>x s q. pool_run p q \<Longrightarrow> runs_pool p (k' x (s, q))) \<Longrightarrow> runs_pool p (bind_res r k')"
  by (cases r; cases "fst r") (auto simp: runs_pool_def bind_res_def)

lemma runs_pool_call [run_intros]:
  "pool_run p (snd r) \<Longrightarrow> runs_pool p (on_pool s r)"
  "pool_run p (snd r) \<Longrightarrow> runs_pool p (case r of (x, q) \<Rightarrow> (x, (l, q)))"
  by (auto simp: runs_pool_def on_pool_def split: prod.splits)

lemma table_ops_run:
  "runs_pool p (append_tokens n after (s, p))" "runs_pool p (stage_append oid n reuse (s, p))"
  "runs_pool p (commit_append st after (s, p))" "runs_pool p (discard_append st after (s, p))"
  "runs_pool p (fork (s, p))" "runs_pool p (trim start after (s, p))"
  "runs_pool p (truncate_kv new_end after (s, p))" "runs_pool p (abort after (s, p))"
  unfolding append_tokens_def stage_append_def commit_append_def discard_append_def fork_def
    trim_def truncate_kv_def abort_def prod.case Let_def
  by (rule run_intros | assumption | simp only: prod.case)+

lemma finish_runs [run_intros]: "pool_run p q \<Longrightarrow> runs_pool p (finish u (l, q))"
  unfolding finish_def prod.case Let_def
  by (rule run_intros | assumption | simp only: prod.case)+

lemma ledger_ops_run:
  "runs_pool p (prepare oid hs (l, p))" "runs_pool p (submit x (l, p))"
  "runs_pool p (abort_before_submit x (l, p))" "runs_pool p (cancel x (l, p))"
  "runs_pool p (complete x b (l, p))"
  unfolding prepare_def submit_def abort_before_submit_def cancel_def complete_def prod.case Let_def
  by (rule run_intros | assumption | simp only: prod.case)+

lemma world_step_pool_run: "pool_run (arena w) (arena (snd (world_step c w)))"
proof -
  have table: "pool_run (arena w) (arena (snd (on_table i g f w)))"
    if "\<And>s. runs_pool (arena w) (f (s, arena w))" for i g and f :: "seq_state \<Rightarrow> ('b, seq_state) res"
    using that[of "tables w ! i"] by (auto simp: on_table_def runs_pool_def pool_run_refl split: prod.splits)
  have ledger: "pool_run (arena w) (arena (snd (on_ledger g f w)))"
    if "\<And>l. runs_pool (arena w) (f (l, arena w))" for g and f :: "ledger_state \<Rightarrow> ('b, ledger_state) res"
    using that[of "completion w"] by (auto simp: on_ledger_def runs_pool_def split: prod.splits)
  have "pool_run (arena w) (arena (snd (fork_table i w)))" for i
    using table_ops_run(5)[of "arena w" "tables w ! i"]
    by (auto simp: fork_table_def runs_pool_def pool_run_refl split: prod.splits sum.splits)
  then show ?thesis
    by (cases c) (simp_all add: table ledger table_ops_run ledger_ops_run pool_run_refl)
qed

lemma world_run_pool_run: "pool_run (arena w) (arena (run_calls world_step cs w))"
proof (induction cs arbitrary: w)
  case (Cons c cs)
  then show ?case using world_step_pool_run[of w c] pool_run_trans by fastforce
qed (simp add: pool_run_refl)

lemma barred_run:
  assumes "pool_run p q" and "pool_inv p" and "barred i g p"
  shows "barred i g q"
proof -
  obtain cs where "q = run_calls pool_step cs p" using assms(1) by (auto simp: pool_run_def)
  then show ?thesis
    using pool_machine.run_keeps[where Q = "barred i g", OF assms(2,3)] barred_step by blast
qed

text \<open>A completion of work in flight is always accepted, and then acknowledged for good.\<close>

lemma complete_in_flight:
  assumes inv: "world_inv w" and f: "in_flight x hs (completion w)"
  obtains w' where "world_step (CompleteUse x b) w = (Inr Done, w')" and "world_inv w'"
    and "x \<in> completed_leases (completion w')" and "tables w' = tables w"
    and "\<And>h. \<not> b \<Longrightarrow> h \<in> set hs \<Longrightarrow> barred (page_id h) (generation h) (arena w')"
proof -
  have ok: "ledger_ok (table_leases (tables w)) (completion w, arena w)"
    using inv by (simp add: world_inv_def)
  obtain u where u: "lookup_use x (completion w) = Inr u" "use_state u = Submitted" "use_handles u = hs"
    using f by (auto simp: in_flight_def)
  obtain q l' p' where c: "complete x b (completion w, arena w) = (Inr (), (l', p'))"
      "ledger_ok (table_leases (tables w)) (l', p')" "finished u (completion w) l'"
      "finish u (completion w, q) = (Inr (), (l', p'))" "pool_inv q"
      "\<And>h. \<not> b \<Longrightarrow> h \<in> set (use_handles u) \<Longrightarrow> barred (page_id h) (generation h) q"
    by (rule complete_submitted[OF ok u(1,2), where b = b]) blast
  have "pool_run q p'"
    using finish_runs[OF pool_run_refl, of q u "completion w"] c(4) by (simp add: runs_pool_def)
  then have "barred (page_id h) (generation h) p'" if "\<not> b" "h \<in> set hs" for h
    using barred_run[OF _ c(5)] c(6) that u(3) by blast
  moreover have "use_lease u = x" using u(1) by (simp add: lookup_use_Inr)
  ultimately show ?thesis
    using that[of "w\<lparr>arena := p', completion := l'\<rparr>"] c(1-3) inv
    by (simp add: on_ledger_def world_inv_def finished_def)
qed

text \<open>
  C18: A completion report for work in flight is always accepted, whatever its status, it
  changes no table, and repeating it with any status is a no-op.
\<close>

theorem completion_is_accepted_once:
  assumes "reachable world_start world_step w" and "in_flight x hs (completion w)"
  shows "\<exists>w'. world_step (CompleteUse x b) w = (Inr Done, w') \<and> tables w' = tables w
     \<and> world_step (CompleteUse x b') w' = (Inr Done, w')"
proof -
  obtain w' where "world_step (CompleteUse x b) w = (Inr Done, w')"
      "x \<in> completed_leases (completion w')" "tables w' = tables w"
    by (rule complete_in_flight[OF paged_world.inv_reachable[OF assms(1)] assms(2)])
  moreover from this(2) have "world_step (CompleteUse x b') w' = (Inr Done, w')"
    by (simp add: on_ledger_def complete_def)
  ultimately show ?thesis by blast
qed

text \<open>
  C6: When the native backend reports that a submission failed, each of its pages is never put
  on the free list and never offered to a plan again, whatever is called afterwards.
\<close>

theorem failed_submission_quarantines_forever:
  assumes "reachable world_start world_step w" and "in_flight x hs (completion w)" and "h \<in> set hs"
    and "world_step (CompleteUse x False) w = (Inr r, w')"
  shows "page_id h \<notin> set (free (arena (run_calls world_step cs w')))
     \<and> live_generations (arena (run_calls world_step cs w')) (page_id h) = None"
proof -
  have b: "barred (page_id h) (generation h) (arena w')" and inv: "world_inv w'"
    using complete_in_flight[OF paged_world.inv_reachable[OF assms(1)] assms(2), of False] assms(3,4)
    by auto
  have "pool_inv (arena w')" using lease_exact_inv[OF world_leases[OF inv]] .
  then have "barred (page_id h) (generation h) (arena (run_calls world_step cs w'))"
    using barred_run[OF world_run_pool_run _ b] by blast
  moreover have "pool_inv (arena (run_calls world_step cs w'))"
    using lease_exact_inv[OF world_leases[OF paged_world.inv_run[OF inv]]] .
  ultimately show ?thesis
    using pool_inv_free by (fastforce simp: barred_def live_generations_def)
qed

text \<open>
  The retirement epoch of the pool equals the watermark of the ledger, every use still
  recorded is above it, and when nothing is pending the watermark has reached the last epoch
  handed out.
\<close>

theorem watermark_is_contiguous:
  assumes "reachable world_start world_step w"
  shows "completed_epoch (arena w) = ledger_epoch (completion w)
     \<and> (\<forall>e u. map_of (uses (completion w)) e = Some u \<longrightarrow> ledger_epoch (completion w) < e)
     \<and> (pending_uses (completion w) = 0 \<longrightarrow> ledger_epoch (completion w) = next_epoch (completion w) - 1)"
proof -
  have ok: "ledger_ok (table_leases (tables w)) (completion w, arena w)"
    using paged_world.inv_reachable[OF assms] by (simp add: world_inv_def)
  let ?l = "completion w"
  note inv = ledger_okD(1)[OF ok]
  have "ledger_epoch ?l = next_epoch ?l - 1" if "pending_uses ?l = 0"
  proof (rule ccontr)
    assume "ledger_epoch ?l \<noteq> next_epoch ?l - 1"
    then have "ledger_epoch ?l + 1 < next_epoch ?l" using ledger_invD(2)[OF inv] by linarith
    then obtain u where u: "map_of (uses ?l) (ledger_epoch ?l + 1) = Some u"
      using ledger_invD(6)[OF inv, of "ledger_epoch ?l + 1"] by auto
    then have "use_state u \<noteq> Completed" by (rule ledger_invD(9)[OF inv])
    then show False
      using that map_of_SomeD[OF u] by (auto simp: pending_uses_def filter_empty_conv)
  qed
  then show ?thesis using ledger_okD(2)[OF ok] ledger_invD(5)[OF inv] by blast
qed


section \<open>Concrete runs\<close>

definition demo_world :: world where
  "demo_world = \<lparr>arena = \<lparr>capacity = 3, slots = [new_slot, new_slot, new_slot], free = [2, 1, 0],
                          pending = [], completed_epoch = 0\<rparr>,
     tables = [], completion = \<lparr>next_epoch = 1, ledger_epoch = 0, uses = [], completed_leases = {}\<rparr>\<rparr>"

lemma demo_world_reachable: "reachable world_start world_step (run_calls world_step cs demo_world)"
proof -
  have "new_pool 3 = Inr (arena demo_world)" "new_ledger (arena demo_world) = Inr (completion demo_world)"
    by code_simp+
  then have "world_start demo_world" by (auto simp: world_start_def demo_world_def)
  then show ?thesis by (intro reachable_run_calls reachable_init)
qed

text \<open>A table with 70 tokens on two pages, forked; one submission over its pages in flight.\<close>

abbreviation "demo_lease \<equiv> CompletionLease 1 7"

definition demo_forked :: world where
  "demo_forked = run_calls world_step [OpenTable, AppendTokens 0 70 0, ForkTable 0,
      PrepareUse 7 [PageHandle 0 1, PageHandle 1 1], SubmitUse demo_lease] demo_world"

lemma demo_forked_reachable: "reachable world_start world_step demo_forked"
  unfolding demo_forked_def by (rule demo_world_reachable)

lemma demo_in_flight: "in_flight demo_lease [PageHandle 0 1, PageHandle 1 1] (completion demo_forked)"
proof -
  have "lookup_use demo_lease (completion demo_forked) = Inr \<lparr>use_lease = demo_lease,
      use_handles = [PageHandle 0 1, PageHandle 1 1], use_state = Submitted, use_cancelled = False\<rparr>"
    by code_simp
  then show ?thesis by (simp add: in_flight_def)
qed

theorem leased_pages_are_safe_witness:
  "active (PageHandle 1 1) (arena demo_forked) \<and> references (slots (arena demo_forked) ! 1) = 3"
proof -
  have "PageHandle 1 1 \<in># held demo_forked" "count (held demo_forked) (PageHandle 1 1) = 3" by code_simp+
  then show ?thesis using leased_pages_are_safe[OF demo_forked_reachable, of "PageHandle 1 1"] by simp
qed

theorem world_failure_atomic_witness:
  "snd (world_step (AppendTokens 0 200 0) demo_forked) = demo_forked"
proof -
  have "fst (world_step (AppendTokens 0 200 0) demo_forked)
      = Inl (MemoryError ''paged KV arena has insufficient retired pages'')" by code_simp
  then show ?thesis using world_failure_atomic[OF demo_forked_reachable] by (metis prod.collapse)
qed

theorem written_pages_are_private_witness:
  "references (slots (arena (snd (world_step (AppendTokens 0 10 0) demo_forked)))
     ! page_id (page_of (tables (snd (world_step (AppendTokens 0 10 0) demo_forked)) ! 0) 75)) = 1"
proof -
  have "fst (world_step (AppendTokens 0 10 0) demo_forked) = Inr (Copies [(PageHandle 1 1, PageHandle 2 1)])"
    and k: "kv_end (tables demo_forked ! 0) = 70"
    by code_simp+
  then have "world_step (AppendTokens 0 10 0) demo_forked = (Inr (Copies [(PageHandle 1 1, PageHandle 2 1)]),
      snd (world_step (AppendTokens 0 10 0) demo_forked))"
    by (metis prod.collapse)
  from written_pages_are_private[OF demo_forked_reachable this, of 75] show ?thesis by (simp add: k)
qed

theorem retained_tokens_have_pages_witness:
  "active (page_of (tables demo_forked ! 1) 69) (arena demo_forked)"
proof -
  have "1 < length (tables demo_forked)" "\<not> closed (tables demo_forked ! 1)"
    "retained_start (tables demo_forked ! 1) = 0" "kv_end (tables demo_forked ! 1) = 70"
    by code_simp+
  then show ?thesis
    using retained_tokens_have_pages[OF demo_forked_reachable nth_mem, of 1 69] by simp
qed

theorem submitted_pins_survive_witness:
  "active (PageHandle 1 1) (arena (run_calls world_step
     [AbortTable 0 0, CancelUse demo_lease, AbortTable 1 0] demo_forked))"
  using submitted_pins_survive[OF demo_forked_reachable demo_in_flight,
      of "[AbortTable 0 0, CancelUse demo_lease, AbortTable 1 0]" "PageHandle 1 1"] by simp

theorem completion_is_accepted_once_witness:
  "\<exists>w'. world_step (CompleteUse demo_lease False) demo_forked = (Inr Done, w')
     \<and> world_step (CompleteUse demo_lease True) w' = (Inr Done, w')"
  using completion_is_accepted_once[OF demo_forked_reachable demo_in_flight, of False True] by blast

theorem failed_submission_quarantines_forever_witness:
  "live_generations (arena (run_calls world_step [AbortTable 0 0, AbortTable 1 0, OpenTable, AppendTokens 2 64 0]
      (snd (world_step (CompleteUse demo_lease False) demo_forked)))) (page_id (PageHandle 0 1)) = None"
proof -
  have "fst (world_step (CompleteUse demo_lease False) demo_forked) = Inr Done" by code_simp
  then have "world_step (CompleteUse demo_lease False) demo_forked
      = (Inr Done, snd (world_step (CompleteUse demo_lease False) demo_forked))" by (metis prod.collapse)
  from failed_submission_quarantines_forever[OF demo_forked_reachable demo_in_flight _ this, of "PageHandle 0 1"]
  show ?thesis by (simp only: list.set_intros simp_thms)
qed

theorem watermark_is_contiguous_witness:
  "ledger_epoch (completion (run_calls world_step [CompleteUse demo_lease True] demo_forked)) = 1"
proof -
  let ?w = "run_calls world_step [CompleteUse demo_lease True] demo_forked"
  have "pending_uses (completion ?w) = 0" "next_epoch (completion ?w) = 2" by code_simp+
  then show ?thesis
    using watermark_is_contiguous[OF reachable_run_calls[OF demo_forked_reachable], of "[CompleteUse demo_lease True]"]
    by simp
qed

end
