(* ===== verification/AttentionPlan.thy ===== *)
theory AttentionPlan
  imports PagedWorld
begin

text \<open>
  The geometry contract of \<^verbatim>\<open>runtime/paged_attention_plan.py\<close>: \<open>SequenceSpan\<close>,
  \<open>PagedAttentionPlan\<close> and its constructor checks, and the resolution of a token to a page.
\<close>

section \<open>Spans and plans\<close>

definition KV_CHUNK :: int where "KV_CHUNK = 512"

record sequence_span =
  row_begin :: int
  row_count :: int
  query_start :: int
  span_kv_end :: int
  span_retained_start :: int
  span_first_block :: int
  table_begin :: int
  table_count :: int
  owner_generation :: int
  mask_kind :: string
  span_window :: "int option"

definition row_end :: "sequence_span \<Rightarrow> int" where
  "row_end s = row_begin s + row_count s"

definition visible_bounds :: "sequence_span \<Rightarrow> int \<Rightarrow> exc + int \<times> int" where
  "visible_bounds s local_row =
     bind_sum (uint_check ''local_row'' local_row U32_MAX) (\<lambda>_.
     if local_row \<ge> row_count s then Inl (ValueError ''local_row is outside the span'')
     else let upper = query_start s + local_row + 1;
              lower = (case span_window s of None \<Rightarrow> span_retained_start s
                       | Some w \<Rightarrow> max (span_retained_start s) (upper - w))
          in Inr (lower, upper))"

record attention_plan =
  plan_spans :: "sequence_span list"
  page_table :: "page_handle list"
  total_rows :: int
  query_heads :: int
  kv_heads :: int
  head_dim :: int
  plan_dtype :: string
  pool_capacity :: int
  plan_generations :: "nat \<rightharpoonup> nat"
  max_work_items :: int
  max_scratch_bytes :: int
  plan_profile :: string
  page_size :: int

definition long_prefill :: "attention_plan \<Rightarrow> bool" where
  "long_prefill pl \<longleftrightarrow> plan_profile pl \<in> {''prefill_long_nax_v1'', ''prefill_long_n20_v1''}"

definition n20_q1 :: "attention_plan \<Rightarrow> bool" where
  "n20_q1 pl \<longleftrightarrow> plan_profile pl = ''q1_long_n20_v1''"

section \<open>The constructor\<close>

definition check_geometry :: "attention_plan \<Rightarrow> exc + unit" where
  "check_geometry pl =
     bind_sum (uint_check ''total_rows'' (total_rows pl) U32_MAX) (\<lambda>_.
     bind_sum (positive_check ''query_heads'' (query_heads pl) U32_MAX) (\<lambda>_.
     bind_sum (positive_check ''kv_heads'' (kv_heads pl) U32_MAX) (\<lambda>_.
     bind_sum (positive_check ''head_dim'' (head_dim pl) U32_MAX) (\<lambda>_.
     bind_sum (positive_check ''pool_capacity'' (pool_capacity pl) U32_MAX) (\<lambda>_.
     bind_sum (positive_check ''max_work_items'' (max_work_items pl) U32_MAX) (\<lambda>_.
     bind_sum (uint_check ''max_scratch_bytes'' (max_scratch_bytes pl) U64_MAX) (\<lambda>_.
     raise_if
       [(plan_profile pl \<notin> {''dense_vector_v1'', ''prefill_long_nax_v1'', ''prefill_long_n20_v1'',
           ''q1_long_n20_v1''} \<or> page_size pl \<noteq> PAGE_SIZE,
         ValueError ''unsupported paged attention profile or page size''),
        (plan_dtype pl \<notin> {''float16'', ''bfloat16''} \<or> head_dim pl \<notin> {128, 256},
         ValueError ''unsupported dtype or head dimension''),
        (query_heads pl mod kv_heads pl \<noteq> 0,
         ValueError ''query_heads must be divisible by kv_heads''),
        (total_rows pl = 0 \<and> (plan_spans pl \<noteq> [] \<or> page_table pl \<noteq> []),
         ValueError ''zero-work plan must have no spans or pages''),
        (total_rows pl \<noteq> 0 \<and> plan_spans pl = [], ValueError ''nonempty plan requires spans''),
        ((pool_capacity pl * kv_heads pl * PAGE_SIZE * head_dim pl - 1) * 2 > U64_MAX,
         ValueError ''pool element address exceeds uint64''),
        (long_prefill pl \<and> (plan_dtype pl \<noteq> ''bfloat16'' \<or> head_dim pl \<noteq> 256
           \<or> query_heads pl \<noteq> 24 \<or> kv_heads pl \<noteq> 4
           \<or> \<not> (if plan_profile pl = ''prefill_long_n20_v1''
                then 1 \<le> length (plan_spans pl) \<and> length (plan_spans pl) \<le> 20
                else length (plan_spans pl) = 2)
           \<or> max_scratch_bytes pl \<noteq> 0
           \<or> max_work_items pl \<noteq> (if plan_profile pl = ''prefill_long_n20_v1'' then 20 else 2) * 8192 * 24),
         ValueError ''long fused plan requires exact bounded BF16 head geometry and zero score scratch''),
        (n20_q1 pl \<and> (plan_dtype pl \<noteq> ''bfloat16'' \<or> head_dim pl \<noteq> 256
           \<or> query_heads pl \<noteq> 24 \<or> kv_heads pl \<noteq> 4
           \<or> \<not> (1 \<le> length (plan_spans pl) \<and> length (plan_spans pl) \<le> 20)
           \<or> max_work_items pl \<noteq> 20 * 8192 * 24 \<or> max_scratch_bytes pl \<noteq> 64 * 1024 * 1024),
         ValueError ''N20 Q1 plan geometry or scratch bound differs'')])))))))"

definition check_mask :: "sequence_span \<Rightarrow> exc + unit" where
  "check_mask s =
     (if mask_kind s = ''causal''
      then (if span_window s \<noteq> None then Inl (ValueError ''causal mask cannot specify a window'') else Inr ())
      else if mask_kind s = ''sliding''
      then (case span_window s of
              None \<Rightarrow> Inl (ValueError ''window must be an integer in range'')
            | Some w \<Rightarrow> positive_check ''window'' w U32_MAX)
      else Inl (ValueError ''unsupported mask kind''))"

definition required_pages :: "sequence_span \<Rightarrow> int" where
  "required_pages s = (span_kv_end s - 1) div PAGE_SIZE - span_first_block s + 1"

definition check_span :: "attention_plan \<Rightarrow> int \<Rightarrow> int \<Rightarrow> sequence_span \<Rightarrow> exc + unit" where
  "check_span pl expected_row expected_table s =
     bind_sum (uint_checks
       [(''row_begin'', row_begin s), (''row_count'', row_count s), (''query_start'', query_start s),
        (''kv_end'', span_kv_end s), (''retained_start'', span_retained_start s),
        (''first_block'', span_first_block s), (''table_begin'', table_begin s),
        (''table_count'', table_count s), (''owner_generation'', owner_generation s)]) (\<lambda>_.
     bind_sum (raise_if
       [(row_count s = 0 \<or> owner_generation s = 0,
         ValueError ''each span needs rows and a positive owner generation''),
        (row_begin s \<noteq> expected_row \<or> table_begin s \<noteq> expected_table,
         ValueError ''row offsets and table offsets must be contiguous and ordered''),
        (row_end s > total_rows pl \<or> row_end s > U32_MAX,
         ValueError ''row interval exceeds packed rows''),
        (\<not> (span_retained_start s \<le> query_start s \<and> query_start s < span_kv_end s
              \<and> span_kv_end s \<le> U32_MAX),
         ValueError ''invalid retained or causal positions''),
        (query_start s + row_count s \<noteq> span_kv_end s,
         ValueError ''query rows must be the new KV suffix''),
        (span_first_block s \<noteq> span_retained_start s div PAGE_SIZE,
         ValueError ''first block does not match retained start''),
        (table_count s \<noteq> required_pages s
           \<or> table_begin s + required_pages s > int (length (page_table pl)),
         ValueError ''page table does not exactly cover retained KV'')]) (\<lambda>_.
     check_mask s))"

text \<open>The loop over the pages of one span; \<open>seen\<close> is the dict \<open>seen_generations\<close>.\<close>

fun check_pages :: "attention_plan \<Rightarrow> page_handle list \<Rightarrow> (nat \<rightharpoonup> nat) \<Rightarrow> exc + (nat \<rightharpoonup> nat)" where
  "check_pages pl [] seen = Inr seen"
| "check_pages pl (h # hs) seen =
     (if int (page_id h) \<ge> pool_capacity pl then Inl (ValueError ''page handle is outside the pool'')
      else if plan_generations pl (page_id h) \<noteq> Some (generation h)
      then Inl (ValueError ''stale or unknown page generation'')
      else (case seen (page_id h) of
              None \<Rightarrow> check_pages pl hs (seen(page_id h \<mapsto> generation h))
            | Some old \<Rightarrow> if old \<noteq> generation h
                        then Inl (ValueError ''one page slot has conflicting generations'')
                        else check_pages pl hs seen))"

definition check_profile_span :: "attention_plan \<Rightarrow> sequence_span \<Rightarrow> exc + unit" where
  "check_profile_span pl s = raise_if
     [(long_prefill pl \<and> (\<not> (256 \<le> row_count s \<and> row_count s \<le> 8192) \<or> span_kv_end s > 8192
         \<or> span_retained_start s \<noteq> 0 \<or> span_first_block s \<noteq> 0 \<or> mask_kind s \<noteq> ''causal''
         \<or> span_window s \<noteq> None),
       ValueError ''long fused plan span geometry differs''),
      (n20_q1 pl \<and> (row_count s \<noteq> 1 \<or> span_kv_end s > 8192
         \<or> span_retained_start s \<noteq> 0 \<or> span_first_block s \<noteq> 0 \<or> mask_kind s \<noteq> ''causal''
         \<or> span_window s \<noteq> None),
       ValueError ''N20 Q1 requires one full-prefix unwindowed row'')]"

fun check_rows :: "attention_plan \<Rightarrow> sequence_span \<Rightarrow> int list \<Rightarrow> int \<Rightarrow> int \<Rightarrow> exc + int \<times> int" where
  "check_rows pl s [] work scratch = Inr (work, scratch)"
| "check_rows pl s (r # rs) work scratch =
     bind_sum (visible_bounds s r) (\<lambda>(lower, upper).
       if lower \<ge> upper then Inl (ValueError ''query has no visible retained key'')
       else
         let splits = (if long_prefill pl then 1 else (upper - lower + KV_CHUNK - 1) div KV_CHUNK);
             work = work + query_heads pl * splits;
             scratch = (if long_prefill pl then scratch
                        else scratch + 4 * query_heads pl * splits * (head_dim pl + 2))
         in if work > max_work_items pl \<or> scratch > max_scratch_bytes pl
            then Inl (ValueError ''work item or scratch capacity exceeded'')
            else check_rows pl s rs work scratch)"

record plan_scan =
  expected_row :: int
  expected_table :: int
  scan_scratch :: int
  scan_work :: int
  seen_generations :: "nat \<rightharpoonup> nat"

definition scan_span :: "attention_plan \<Rightarrow> sequence_span \<Rightarrow> plan_scan \<Rightarrow> exc + plan_scan" where
  "scan_span pl s sc =
     bind_sum (check_span pl (expected_row sc) (expected_table sc) s) (\<lambda>_.
     bind_sum (check_pages pl
         (take (nat (required_pages s)) (drop (nat (table_begin s)) (page_table pl)))
         (seen_generations sc)) (\<lambda>seen.
     bind_sum (check_profile_span pl s) (\<lambda>_.
     let work = (if long_prefill pl then scan_work sc + query_heads pl * row_count s else scan_work sc)
     in if long_prefill pl \<and> work > max_work_items pl
        then Inl (ValueError ''work item or scratch capacity exceeded'')
        else bind_sum (check_rows pl s (if long_prefill pl then [] else [0..row_count s - 1])
                 work (scan_scratch sc)) (\<lambda>(work, scratch).
          Inr \<lparr>expected_row = row_end s, expected_table = expected_table sc + required_pages s,
               scan_scratch = scratch, scan_work = work, seen_generations = seen\<rparr>))))"

fun scan_spans :: "attention_plan \<Rightarrow> sequence_span list \<Rightarrow> plan_scan \<Rightarrow> exc + plan_scan" where
  "scan_spans pl [] sc = Inr sc"
| "scan_spans pl (s # ss) sc = bind_sum (scan_span pl s sc) (scan_spans pl ss)"

definition check_plan :: "attention_plan \<Rightarrow> exc + unit" where
  "check_plan pl =
     bind_sum (check_geometry pl) (\<lambda>_.
     bind_sum (scan_spans pl (plan_spans pl)
       \<lparr>expected_row = 0, expected_table = 0, scan_scratch = 0, scan_work = 0,
        seen_generations = Map.empty\<rparr>) (\<lambda>sc.
     if expected_row sc \<noteq> total_rows pl \<or> expected_table sc \<noteq> int (length (page_table pl))
     then Inl (ValueError ''row or page table has unused entries'') else Inr ()))"

definition page_for_token :: "attention_plan \<Rightarrow> int \<Rightarrow> int \<Rightarrow> exc + page_handle \<times> int" where
  "page_for_token pl sequence_index token =
     bind_sum (uint_check ''sequence_index'' sequence_index U32_MAX) (\<lambda>_.
     if sequence_index \<ge> int (length (plan_spans pl))
     then Inl (ValueError ''sequence index is outside the plan'')
     else let s = plan_spans pl ! nat sequence_index
          in bind_sum (uint_check ''token'' token U32_MAX) (\<lambda>_.
             if \<not> (span_retained_start s \<le> token \<and> token < span_kv_end s)
             then Inl (ValueError ''token is outside retained KV'')
             else let index = table_begin s + token div PAGE_SIZE - span_first_block s
                  in bind_sum (py_index index (page_table pl)) (\<lambda>h. Inr (h, token mod PAGE_SIZE))))"

section \<open>What an accepted plan satisfies\<close>

definition span_pages :: "attention_plan \<Rightarrow> sequence_span \<Rightarrow> page_handle list" where
  "span_pages pl s = take (nat (required_pages s)) (drop (nat (table_begin s)) (page_table pl))"

definition row_splits :: "sequence_span \<Rightarrow> int \<Rightarrow> int" where
  "row_splits s r = (case visible_bounds s r of
     Inl _ \<Rightarrow> 0 | Inr (lower, upper) \<Rightarrow> (upper - lower + KV_CHUNK - 1) div KV_CHUNK)"

definition span_work :: "attention_plan \<Rightarrow> sequence_span \<Rightarrow> int" where
  "span_work pl s = (if long_prefill pl then query_heads pl * row_count s
     else (\<Sum>r\<leftarrow>[0..row_count s - 1]. query_heads pl * row_splits s r))"

definition span_scratch :: "attention_plan \<Rightarrow> sequence_span \<Rightarrow> int" where
  "span_scratch pl s = (if long_prefill pl then 0
     else (\<Sum>r\<leftarrow>[0..row_count s - 1]. 4 * query_heads pl * row_splits s r * (head_dim pl + 2)))"

definition span_ok :: "attention_plan \<Rightarrow> sequence_span \<Rightarrow> bool" where
  "span_ok pl s \<longleftrightarrow>
     0 < row_count s \<and> 0 \<le> row_begin s \<and> 0 \<le> table_begin s \<and> 0 \<le> span_retained_start s
   \<and> span_retained_start s \<le> query_start s \<and> query_start s + row_count s = span_kv_end s
   \<and> span_kv_end s \<le> U32_MAX \<and> span_first_block s = span_retained_start s div PAGE_SIZE
   \<and> table_begin s + required_pages s \<le> int (length (page_table pl))
   \<and> (\<forall>w. span_window s = Some w \<longrightarrow> 0 < w)
   \<and> (\<forall>h \<in> set (span_pages pl s). int (page_id h) < pool_capacity pl
         \<and> plan_generations pl (page_id h) = Some (generation h))"

lemma check_mask_window: "check_mask s = Inr u \<Longrightarrow> span_window s = Some w \<Longrightarrow> 0 < w"
  by (auto simp: check_mask_def split: if_splits)

lemma check_pages_ok:
  "check_pages pl hs seen = Inr seen' \<Longrightarrow>
     \<forall>h \<in> set hs. int (page_id h) < pool_capacity pl \<and> plan_generations pl (page_id h) = Some (generation h)"
proof (induction hs arbitrary: seen)
  case (Cons h hs)
  then have "int (page_id h) < pool_capacity pl" "plan_generations pl (page_id h) = Some (generation h)"
    and "\<exists>seen. check_pages pl hs seen = Inr seen'"
    by (force split: if_splits option.splits)+
  with Cons.IH show ?case by fastforce
qed simp

lemma check_rows_sum:
  assumes "check_rows pl s rs work scratch = Inr (work', scratch')" and "\<not> long_prefill pl"
    and "work \<le> max_work_items pl" and "scratch \<le> max_scratch_bytes pl"
  shows "work' = work + (\<Sum>r\<leftarrow>rs. query_heads pl * row_splits s r)
     \<and> scratch' = scratch + (\<Sum>r\<leftarrow>rs. 4 * query_heads pl * row_splits s r * (head_dim pl + 2))
     \<and> work' \<le> max_work_items pl \<and> scratch' \<le> max_scratch_bytes pl"
  using assms
proof (induction rs arbitrary: work scratch)
  case (Cons r rs)
  obtain lower upper where b: "visible_bounds s r = Inr (lower, upper)" "\<not> lower \<ge> upper"
    using Cons.prems(1) by (auto split: if_splits)
  define W where "W = work + query_heads pl * row_splits s r"
  define S where "S = scratch + 4 * query_heads pl * row_splits s r * (head_dim pl + 2)"
  have sp: "(upper - lower + KV_CHUNK - 1) div KV_CHUNK = row_splits s r" using b by (simp add: row_splits_def)
  have step: "check_rows pl s rs W S = Inr (work', scratch')" "W \<le> max_work_items pl" "S \<le> max_scratch_bytes pl"
    using Cons.prems(1,2) b by (auto simp: Let_def sp W_def S_def split: if_splits)
  show ?case using Cons.IH[OF step(1) Cons.prems(2) step(2,3)] by (simp add: W_def S_def)
qed simp

lemma scan_span_ok:
  assumes "scan_span pl s sc = Inr sc'"
  shows "span_ok pl s" and "row_begin s = expected_row sc" and "expected_row sc' = row_end s"
    and "table_begin s = expected_table sc" and "expected_table sc' = expected_table sc + required_pages s"
    and "row_end s \<le> total_rows pl"
    and "scan_work sc \<le> max_work_items pl \<Longrightarrow> scan_scratch sc \<le> max_scratch_bytes pl \<Longrightarrow>
      scan_work sc' = scan_work sc + span_work pl s \<and> scan_scratch sc' = scan_scratch sc + span_scratch pl s
      \<and> scan_work sc' \<le> max_work_items pl \<and> scan_scratch sc' \<le> max_scratch_bytes pl"
proof -
  obtain seen work scratch where c: "check_span pl (expected_row sc) (expected_table sc) s = Inr ()"
    "check_pages pl (span_pages pl s) (seen_generations sc) = Inr seen"
    and w: "\<not> (long_prefill pl \<and> scan_work sc + query_heads pl * row_count s > max_work_items pl)"
      "check_rows pl s (if long_prefill pl then [] else [0..row_count s - 1])
         (if long_prefill pl then scan_work sc + query_heads pl * row_count s else scan_work sc)
         (scan_scratch sc) = Inr (work, scratch)"
    and sc': "sc' = \<lparr>expected_row = row_end s, expected_table = expected_table sc + required_pages s,
               scan_scratch = scratch, scan_work = work, seen_generations = seen\<rparr>"
    using assms by (auto simp: scan_span_def span_pages_def Let_def split: if_splits)
  show "span_ok pl s"
    using c(1) check_pages_ok[OF c(2)] check_mask_window[of s]
    by (auto simp: check_span_def span_ok_def split: if_splits)
  show "row_begin s = expected_row sc" "table_begin s = expected_table sc" "row_end s \<le> total_rows pl"
    using c(1) by (auto simp: check_span_def split: if_splits)
  show "expected_row sc' = row_end s" "expected_table sc' = expected_table sc + required_pages s"
    by (simp_all add: sc')
  show "scan_work sc' = scan_work sc + span_work pl s \<and> scan_scratch sc' = scan_scratch sc + span_scratch pl s
      \<and> scan_work sc' \<le> max_work_items pl \<and> scan_scratch sc' \<le> max_scratch_bytes pl"
    if "scan_work sc \<le> max_work_items pl" "scan_scratch sc \<le> max_scratch_bytes pl"
    using w that check_rows_sum[of pl s "[0..row_count s - 1]" "scan_work sc" "scan_scratch sc" work scratch]
    by (cases "long_prefill pl") (auto simp: sc' span_work_def span_scratch_def)
qed

lemma scan_spans_ok:
  assumes "scan_spans pl ss sc = Inr sc'"
  shows "\<forall>s \<in> set ss. span_ok pl s"
    and "expected_row sc \<le> expected_row sc'"
    and "\<forall>s \<in> set ss. expected_row sc \<le> row_begin s \<and> row_end s \<le> expected_row sc'"
    and "\<And>r. expected_row sc \<le> r \<Longrightarrow> r < expected_row sc' \<Longrightarrow>
          \<exists>!i. i < length ss \<and> row_begin (ss ! i) \<le> r \<and> r < row_end (ss ! i)"
    and "scan_work sc \<le> max_work_items pl \<Longrightarrow> scan_scratch sc \<le> max_scratch_bytes pl \<Longrightarrow>
      scan_work sc' = scan_work sc + (\<Sum>s\<leftarrow>ss. span_work pl s)
      \<and> scan_scratch sc' = scan_scratch sc + (\<Sum>s\<leftarrow>ss. span_scratch pl s)
      \<and> scan_work sc' \<le> max_work_items pl \<and> scan_scratch sc' \<le> max_scratch_bytes pl"
proof -
  show "\<forall>s \<in> set ss. span_ok pl s"
    using assms by (induction ss arbitrary: sc) (auto dest: scan_span_ok(1))
  have mono: "expected_row sc \<le> expected_row sc'" if "scan_spans pl ss sc = Inr sc'" for ss sc
    using that
  proof (induction ss arbitrary: sc)
    case (Cons s ss)
    then obtain sc1 where "scan_span pl s sc = Inr sc1" "scan_spans pl ss sc1 = Inr sc'" by auto
    with Cons.IH scan_span_ok[of pl s sc sc1] show ?case by (fastforce simp: span_ok_def row_end_def)
  qed simp
  then show "expected_row sc \<le> expected_row sc'" using assms .
  have within: "\<forall>s \<in> set ss. expected_row sc \<le> row_begin s \<and> row_end s \<le> expected_row sc'"
    if "scan_spans pl ss sc = Inr sc'" for ss sc
    using that
  proof (induction ss arbitrary: sc)
    case (Cons s ss)
    then obtain sc1 where "scan_span pl s sc = Inr sc1" "scan_spans pl ss sc1 = Inr sc'" by auto
    with Cons.IH[of sc1] mono[of ss sc1] scan_span_ok[of pl s sc sc1] show ?case
      by (fastforce simp: span_ok_def row_end_def)
  qed simp
  then show "\<forall>s \<in> set ss. expected_row sc \<le> row_begin s \<and> row_end s \<le> expected_row sc'" using assms .
  show "\<exists>!i. i < length ss \<and> row_begin (ss ! i) \<le> r \<and> r < row_end (ss ! i)"
    if "expected_row sc \<le> r" "r < expected_row sc'" for r
    using assms that
  proof (induction ss arbitrary: sc)
    case (Cons s ss)
    then obtain sc1 where sc1: "scan_span pl s sc = Inr sc1" "scan_spans pl ss sc1 = Inr sc'" by auto
    note f = scan_span_ok[OF sc1(1)]
    have later: "row_end s \<le> row_begin (ss ! k)" if "k < length ss" for k
      using within[OF sc1(2)] that f(3) by auto
    show ?case
    proof (cases "r < row_end s")
      case True
      show ?thesis
      proof (rule ex1I[of _ 0])
        show "i = 0" if "i < length (s # ss) \<and> row_begin ((s # ss) ! i) \<le> r \<and> r < row_end ((s # ss) ! i)" for i
          using that later[of "i - 1"] True by (cases i) auto
      qed (use True Cons.prems(2) f(2) in simp)
    next
      case False
      then obtain i where i: "i < length ss \<and> row_begin (ss ! i) \<le> r \<and> r < row_end (ss ! i)"
        and u: "\<And>k. k < length ss \<and> row_begin (ss ! k) \<le> r \<and> r < row_end (ss ! k) \<Longrightarrow> k = i"
        using Cons.IH[OF sc1(2)] Cons.prems(3) f(3) by auto
      show ?thesis
      proof (rule ex1I[of _ "Suc i"])
        show "k = Suc i" if "k < length (s # ss) \<and> row_begin ((s # ss) ! k) \<le> r \<and> r < row_end ((s # ss) ! k)" for k
          using that u[of "k - 1"] False by (cases k) auto
      qed (use i in simp)
    qed
  qed simp
  show "scan_work sc' = scan_work sc + (\<Sum>s\<leftarrow>ss. span_work pl s)
      \<and> scan_scratch sc' = scan_scratch sc + (\<Sum>s\<leftarrow>ss. span_scratch pl s)
      \<and> scan_work sc' \<le> max_work_items pl \<and> scan_scratch sc' \<le> max_scratch_bytes pl"
    if "scan_work sc \<le> max_work_items pl" "scan_scratch sc \<le> max_scratch_bytes pl"
    using assms that
  proof (induction ss arbitrary: sc)
    case (Cons s ss)
    then obtain sc1 where sc1: "scan_span pl s sc = Inr sc1" "scan_spans pl ss sc1 = Inr sc'" by auto
    show ?case using Cons.IH[OF sc1(2)] scan_span_ok(7)[OF sc1(1)] Cons.prems by simp
  qed simp
qed


lemma scan_spans_table:
  assumes "scan_spans pl ss sc = Inr sc'" and "expected_table sc \<le> k" and "k < expected_table sc'"
  shows "\<exists>s \<in> set ss. table_begin s \<le> k \<and> k < table_begin s + required_pages s"
  using assms
proof (induction ss arbitrary: sc)
  case (Cons s ss)
  then obtain sc1 where sc1: "scan_span pl s sc = Inr sc1" "scan_spans pl ss sc1 = Inr sc'" by auto
  show ?case
    using Cons.IH[OF sc1(2)] Cons.prems(2,3) scan_span_ok(4,5)[OF sc1(1)]
    by (cases "k < expected_table sc1") auto
qed simp

lemma check_plan_ok:
  assumes "check_plan pl = Inr u"
  shows "\<forall>s \<in> set (plan_spans pl). span_ok pl s"
    and "\<And>r. 0 \<le> r \<Longrightarrow> r < total_rows pl \<Longrightarrow>
          \<exists>!i. i < length (plan_spans pl) \<and> row_begin (plan_spans pl ! i) \<le> r \<and> r < row_end (plan_spans pl ! i)"
    and "(\<Sum>s\<leftarrow>plan_spans pl. span_work pl s) \<le> max_work_items pl"
    and "(\<Sum>s\<leftarrow>plan_spans pl. span_scratch pl s) \<le> max_scratch_bytes pl"
    and "h \<in> set (page_table pl) \<Longrightarrow> plan_generations pl (page_id h) = Some (generation h)"
proof -
  define sc where "sc = \<lparr>expected_row = 0, expected_table = 0, scan_scratch = 0, scan_work = 0,
        seen_generations = Map.empty\<rparr>"
  obtain sc' where g: "check_geometry pl = Inr ()" and s: "scan_spans pl (plan_spans pl) sc = Inr sc'"
    and e: "expected_row sc' = total_rows pl" "expected_table sc' = int (length (page_table pl))"
    using assms by (auto simp: check_plan_def sc_def split: if_splits)
  have z: "0 \<le> max_work_items pl" "0 \<le> max_scratch_bytes pl"
    using g by (auto simp: check_geometry_def)
  note f = scan_spans_ok[OF s]
  show "\<forall>s \<in> set (plan_spans pl). span_ok pl s" by (rule f(1))
  show "\<exists>!i. i < length (plan_spans pl) \<and> row_begin (plan_spans pl ! i) \<le> r \<and> r < row_end (plan_spans pl ! i)"
    if "0 \<le> r" "r < total_rows pl" for r
    using f(4)[of r] that e by (simp add: sc_def)
  show "(\<Sum>s\<leftarrow>plan_spans pl. span_work pl s) \<le> max_work_items pl"
    "(\<Sum>s\<leftarrow>plan_spans pl. span_scratch pl s) \<le> max_scratch_bytes pl"
    using f(5) z by (simp_all add: sc_def)
  show "plan_generations pl (page_id h) = Some (generation h)" if h: "h \<in> set (page_table pl)"
  proof -
    obtain k where k: "k < length (page_table pl)" "h = page_table pl ! k"
      using h by (auto simp: in_set_conv_nth)
    then obtain s where sp: "s \<in> set (plan_spans pl)" "table_begin s \<le> int k"
        "int k < table_begin s + required_pages s"
      using scan_spans_table[OF s, of "int k"] e by (auto simp: sc_def)
    then have ok: "span_ok pl s" using f(1) by blast
    have "h = span_pages pl s ! (k - nat (table_begin s))" "k - nat (table_begin s) < length (span_pages pl s)"
      using sp(2,3) k ok by (auto simp: span_pages_def span_ok_def)
    then have "h \<in> set (span_pages pl s)" by simp
    then show ?thesis using ok by (simp add: span_ok_def)
  qed
qed

text \<open>
  The spans of an accepted plan cut the packed query rows into disjoint intervals that
  cover them: each row belongs to exactly one span.
\<close>

theorem plan_rows_partition:
  assumes "check_plan pl = Inr ()" and "0 \<le> r" and "r < total_rows pl"
  shows "\<exists>!i. i < length (plan_spans pl) \<and> row_begin (plan_spans pl ! i) \<le> r \<and> r < row_end (plan_spans pl ! i)"
  using check_plan_ok(2)[OF assms(1)] assms(2,3) .

text \<open>
  The work items and scratch bytes that the spans of an accepted plan need, summed over all
  rows, stay within the limits of the plan.
\<close>

theorem plan_work_is_bounded:
  assumes "check_plan pl = Inr ()"
  shows "(\<Sum>s\<leftarrow>plan_spans pl. span_work pl s) \<le> max_work_items pl
     \<and> (\<Sum>s\<leftarrow>plan_spans pl. span_scratch pl s) \<le> max_scratch_bytes pl"
  using check_plan_ok(3,4)[OF assms] by simp

lemma block_in_span:
  assumes ok: "span_ok pl s" and t: "span_retained_start s \<le> t" "t < span_kv_end s"
  shows "0 \<le> t div PAGE_SIZE - span_first_block s" and "t div PAGE_SIZE - span_first_block s < required_pages s"
    and "0 \<le> table_begin s + t div PAGE_SIZE - span_first_block s"
    and "table_begin s + t div PAGE_SIZE - span_first_block s < int (length (page_table pl))"
    and "page_table pl ! nat (table_begin s + t div PAGE_SIZE - span_first_block s) \<in> set (span_pages pl s)"
proof -
  have "span_retained_start s div PAGE_SIZE \<le> t div PAGE_SIZE" "t div PAGE_SIZE \<le> (span_kv_end s - 1) div PAGE_SIZE"
    using t by (auto simp: PAGE_SIZE_def intro!: zdiv_mono1)
  then show k: "0 \<le> t div PAGE_SIZE - span_first_block s" "t div PAGE_SIZE - span_first_block s < required_pages s"
    using ok by (auto simp: span_ok_def required_pages_def)
  then show i: "0 \<le> table_begin s + t div PAGE_SIZE - span_first_block s"
    "table_begin s + t div PAGE_SIZE - span_first_block s < int (length (page_table pl))"
    using ok by (auto simp: span_ok_def)
  let ?k = "nat (t div PAGE_SIZE - span_first_block s)"
  have "nat (table_begin s + t div PAGE_SIZE - span_first_block s) = nat (table_begin s) + ?k"
    using ok k(1) by (simp add: span_ok_def nat_add_distrib[symmetric] algebra_simps)
  moreover have "?k < length (span_pages pl s)"
    using k ok by (auto simp: span_pages_def span_ok_def nat_less_iff)
  ultimately show "page_table pl ! nat (table_begin s + t div PAGE_SIZE - span_first_block s) \<in> set (span_pages pl s)"
    using ok by (auto simp: span_pages_def span_ok_def in_set_conv_nth intro!: exI[of _ ?k])
qed

text \<open>
  An accepted attention plan resolves every retained token of every span to a page of that
  span whose generation is the live one, never raising and never leaving the page table.
\<close>

theorem plan_resolves_every_retained_token:
  assumes "check_plan pl = Inr ()" and "i < length (plan_spans pl)" and "int i \<le> U32_MAX"
    and "span_retained_start (plan_spans pl ! i) \<le> t" and "t < span_kv_end (plan_spans pl ! i)"
  shows "\<exists>h. page_for_token pl (int i) t = Inr (h, t mod PAGE_SIZE)
     \<and> h \<in> set (span_pages pl (plan_spans pl ! i))
     \<and> plan_generations pl (page_id h) = Some (generation h)"
proof -
  let ?s = "plan_spans pl ! i"
  have ok: "span_ok pl ?s" using check_plan_ok(1)[OF assms(1)] assms(2) by simp
  note b = block_in_span[OF ok assms(4,5)]
  have "0 \<le> t" "t \<le> U32_MAX" using ok assms(4,5) by (auto simp: span_ok_def)
  then have "page_for_token pl (int i) t
      = Inr (page_table pl ! nat (table_begin ?s + t div PAGE_SIZE - span_first_block ?s), t mod PAGE_SIZE)"
    using assms(2-5) b(3,4) by (simp add: page_for_token_def uint_check_def Let_def)
  then show ?thesis using b(5) ok by (auto simp: span_ok_def)
qed


text \<open>What one query row of an accepted plan may read.\<close>

text \<open>
  C12: Each query row of an accepted plan sees a nonempty interval of retained keys ending at
  its own position, and every key in it lies on a page of its span.
\<close>

theorem plan_row_reads_are_resolved:
  assumes "check_plan pl = Inr ()" and "s \<in> set (plan_spans pl)" and "0 \<le> r" and "r < row_count s"
  shows "\<exists>lower. visible_bounds s r = Inr (lower, query_start s + r + 1)
     \<and> span_retained_start s \<le> lower \<and> lower \<le> query_start s + r \<and> query_start s + r < span_kv_end s
     \<and> (\<forall>t. lower \<le> t \<and> t \<le> query_start s + r \<longrightarrow>
          page_table pl ! nat (table_begin s + t div PAGE_SIZE - span_first_block s) \<in> set (span_pages pl s))
     \<and> (\<forall>h \<in> set (span_pages pl s). plan_generations pl (page_id h) = Some (generation h))"
proof -
  have ok: "span_ok pl s" using check_plan_ok(1)[OF assms(1)] assms(2) by simp
  define lower where "lower = (case span_window s of None \<Rightarrow> span_retained_start s
      | Some w \<Rightarrow> max (span_retained_start s) (query_start s + r + 1 - w))"
  have "visible_bounds s r = Inr (lower, query_start s + r + 1)"
    using assms(3,4) ok by (simp add: visible_bounds_def lower_def Let_def uint_check_def span_ok_def)
  moreover have "span_retained_start s \<le> lower" "lower \<le> query_start s + r"
    using ok assms(3) by (auto simp: lower_def span_ok_def split: option.split)
  moreover have "query_start s + r < span_kv_end s" using ok assms(4) by (simp add: span_ok_def)
  moreover have "\<forall>h \<in> set (span_pages pl s). plan_generations pl (page_id h) = Some (generation h)"
    using ok by (simp add: span_ok_def)
  ultimately show ?thesis using block_in_span(5)[OF ok] by force
qed

section \<open>Plans, tables and pins\<close>

lemma live_generations_active:
  "pool_inv p \<Longrightarrow> live_generations p (page_id h) = Some (generation h) \<longleftrightarrow>
     active h p \<and> quarantined_generation (slots p ! page_id h) = None"
  using pool_inv_length[of p] pool_inv_slot[of p "page_id h"]
  by (auto simp: live_generations_def active_def slot_ok_def)



text \<open>The span a backend writes for the last \<open>n\<close> tokens of a table.\<close>

definition span_of_table :: "sequence \<Rightarrow> int \<Rightarrow> int \<Rightarrow> sequence_span" where
  "span_of_table s n gen = \<lparr>row_begin = 0, row_count = n, query_start = kv_end s - n,
     span_kv_end = kv_end s, span_retained_start = retained_start s, span_first_block = first_block s,
     table_begin = 0, table_count = int (length (pages s)), owner_generation = gen,
     mask_kind = ''causal'', span_window = None\<rparr>"

lemma check_pages_pass:
  assumes "\<forall>h \<in> set hs. int (page_id h) < pool_capacity pl \<and> plan_generations pl (page_id h) = Some (generation h)"
    and "\<forall>i g. seen i = Some g \<longrightarrow> plan_generations pl i = Some g"
  shows "\<exists>seen'. check_pages pl hs seen = Inr seen'"
  using assms
proof (induction hs arbitrary: seen)
  case (Cons h hs)
  show ?case
  proof (cases "seen (page_id h)")
    case None
    have "\<exists>seen'. check_pages pl hs (seen(page_id h \<mapsto> generation h)) = Inr seen'"
      by (rule Cons.IH) (use Cons.prems in auto)
    then show ?thesis using Cons.prems(1) None by simp
  next
    case (Some g)
    then have "g = generation h" using Cons.prems by force
    then show ?thesis using Cons Some by simp
  qed
qed simp

text \<open>
  The span a backend writes for the last rows of an open page table in a reachable state
  passes all position, page-table and generation checks of the plan, unless a page of the table
  is quarantined.
\<close>

theorem table_spans_are_accepted:
  assumes "reachable world_start world_step w" and "s \<in> set (tables w)" and "\<not> closed s"
    and "0 < n" and "retained_start s \<le> kv_end s - n" and "0 < gen" and "gen \<le> U32_MAX"
    and "\<forall>h \<in> set (pages s). quarantined_generation (slots (arena w) ! page_id h) = None"
    and "page_table pl = pages s" and "total_rows pl = n" and "pool_capacity pl = int (capacity (arena w))"
    and "plan_generations pl = live_generations (arena w)"
  shows "check_span pl 0 0 (span_of_table s n gen) = Inr ()
     \<and> (\<exists>seen. check_pages pl (span_pages pl (span_of_table s n gen)) Map.empty = Inr seen)"
proof -
  have inv: "world_inv w" by (rule paged_world.inv_reachable[OF assms(1)])
  then have si: "seq_inv s" using assms(2) by (simp add: world_inv_def)
  have len: "int (length (pages s)) = required_pages (span_of_table s n gen)"
    using si assms(3-5) by (simp add: seq_inv_def table_blocks_def blocks_for_def required_pages_def span_of_table_def)
  have ex: "lease_exact (held w) (arena w)" by (rule world_leases[OF inv])
  have live: "live_generations (arena w) (page_id h) = Some (generation h) \<and> page_id h < capacity (arena w)"
    if "h \<in> set (pages s)" for h
  proof -
    have "h \<in># held w" using table_page_held[OF assms(2) that] by (simp add: held_def)
    then have "active h (arena w)" using lease_exact_active_iff[OF ex] by simp
    then show ?thesis
      using live_generations_active[OF lease_exact_inv[OF ex], of h] assms(8) that by (simp add: active_def)
  qed
  have "check_span pl 0 0 (span_of_table s n gen) = Inr ()"
  proof -
    have s: "0 \<le> retained_start s" "retained_start s \<le> kv_end s" "kv_end s \<le> U32_MAX"
      "first_block s = retained_start s div PAGE_SIZE" using si by (simp_all add: seq_inv_def)
    have d: "(kv_end s - 1) div PAGE_SIZE \<le> kv_end s - 1" "retained_start s div PAGE_SIZE \<le> retained_start s"
      "0 \<le> retained_start s div PAGE_SIZE"
      using s assms(4,5) by (auto simp: PAGE_SIZE_def)
    have "required_pages (span_of_table s n gen) = (kv_end s - 1) div PAGE_SIZE - first_block s + 1"
      by (simp add: required_pages_def span_of_table_def)
    then have b: "int (length (pages s)) \<le> U32_MAX" and fb: "0 \<le> first_block s" "first_block s \<le> U32_MAX"
      using d s len by simp_all
    let ?s = "span_of_table s n gen"
    have sel: "row_begin ?s = 0" "row_count ?s = n" "query_start ?s = kv_end s - n" "span_kv_end ?s = kv_end s"
      "span_retained_start ?s = retained_start s" "span_first_block ?s = first_block s" "table_begin ?s = 0"
      "table_count ?s = int (length (pages s))" "owner_generation ?s = gen" "row_end ?s = n"
      "check_mask ?s = Inr ()"
      by (simp_all add: span_of_table_def row_end_def check_mask_def)
    have u: "uint_check name v U32_MAX = Inr ()" if "0 \<le> v" "v \<le> U32_MAX" for name v
      using that by simp
    have range: "n \<le> U32_MAX" "0 \<le> kv_end s - n" "kv_end s - n \<le> U32_MAX" "0 \<le> kv_end s" "retained_start s \<le> U32_MAX"
      using s assms(4,5) by linarith+
    show ?thesis
      unfolding check_span_def sel assms(9,10) len[symmetric]
      using s(1-3) s(4) fb b range assms(4-7) by (simp add: u del: uint_check_Inr)
  qed
  moreover have "\<exists>seen. check_pages pl (span_pages pl (span_of_table s n gen)) Map.empty = Inr seen"
    using live assms(9,11,12)
    by (intro check_pages_pass) (auto simp: span_pages_def span_of_table_def dest: in_set_takeD)
  ultimately show ?thesis by simp
qed


section \<open>A concrete plan\<close>

definition demo_plan :: attention_plan where
  "demo_plan = \<lparr>plan_spans = [span_of_table (tables demo_forked ! 0) 2 1], page_table = pages (tables demo_forked ! 0),
     total_rows = 2, query_heads = 4, kv_heads = 2, head_dim = 128, plan_dtype = ''bfloat16'',
     pool_capacity = 3, plan_generations = live_generations (arena demo_forked), max_work_items = 65536,
     max_scratch_bytes = 2 ^ 30, plan_profile = ''dense_vector_v1'', page_size = 64\<rparr>"

lemma demo_plan_ok: "check_plan demo_plan = Inr ()"
  by code_simp

theorem plan_rows_partition_witness:
  "\<exists>!i. i < length (plan_spans demo_plan) \<and> row_begin (plan_spans demo_plan ! i) \<le> 1
     \<and> 1 < row_end (plan_spans demo_plan ! i)"
  by (rule plan_rows_partition[OF demo_plan_ok]) (simp_all add: demo_plan_def)

theorem plan_work_is_bounded_witness:
  "(\<Sum>s\<leftarrow>plan_spans demo_plan. span_work demo_plan s) \<le> 65536"
  using plan_work_is_bounded[OF demo_plan_ok] by (simp add: demo_plan_def)

theorem plan_resolves_every_retained_token_witness:
  "\<exists>h. page_for_token demo_plan (int 0) 69 = Inr (h, 5)"
proof -
  have "0 < length (plan_spans demo_plan)" "span_retained_start (plan_spans demo_plan ! 0) \<le> 69"
    "69 < span_kv_end (plan_spans demo_plan ! 0)" "69 mod PAGE_SIZE = 5"
    by code_simp+
  then show ?thesis
    using plan_resolves_every_retained_token[OF demo_plan_ok, of 0 69] by (auto simp: U32_MAX_def)
qed

theorem plan_row_reads_are_resolved_witness:
  "\<exists>lower. visible_bounds (hd (plan_spans demo_plan)) 1 = Inr (lower, 70)"
proof -
  have "hd (plan_spans demo_plan) \<in> set (plan_spans demo_plan)" "1 < row_count (hd (plan_spans demo_plan))"
    "query_start (hd (plan_spans demo_plan)) = 68"
    by code_simp+
  then show ?thesis using plan_row_reads_are_resolved[OF demo_plan_ok, of _ 1] by fastforce
qed


theorem table_spans_are_accepted_witness:
  "check_span demo_plan 0 0 (span_of_table (tables demo_forked ! 0) 2 1) = Inr ()"
proof -
  have "0 < length (tables demo_forked)" "\<not> closed (tables demo_forked ! 0)"
    "retained_start (tables demo_forked ! 0) \<le> kv_end (tables demo_forked ! 0) - 2"
    "\<forall>h \<in> set (pages (tables demo_forked ! 0)). quarantined_generation (slots (arena demo_forked) ! page_id h) = None"
    "int (capacity (arena demo_forked)) = 3" "(1::int) \<le> U32_MAX"
    by code_simp+
  then show ?thesis
    using table_spans_are_accepted[OF demo_forked_reachable nth_mem, of 0 2 1 demo_plan]
    by (simp add: demo_plan_def)
qed

end
