(* ===== verification/PackScheduler.thy ===== *)
theory PackScheduler
  imports Prelude
begin

text \<open>
  The mixed-forward chooser \<open>choose_paged_pack\<close> of \<^verbatim>\<open>runtime/paged_pack_scheduler.py\<close>.  The
  measured price profile is code of the caller (\<open>PackPrice\<close> is a Protocol): it is the record
  \<open>pack_price\<close>, whose \<open>estimate_ms\<close> is a parameter of every definition that asks for a cost.
\<close>

section \<open>Values\<close>

definition positive_int :: "string \<Rightarrow> int \<Rightarrow> exc + int" where
  "positive_int name v = (if v < 1 then Inl (ValueError (name @ '' must be a positive integer'')) else Inr v)"

definition nonnegative_int :: "string \<Rightarrow> int \<Rightarrow> exc + int" where
  "nonnegative_int name v = (if v < 0 then Inl (ValueError (name @ '' must be a nonnegative integer'')) else Inr v)"

record reserved_rows =
  reserved_lane :: int
  reserved_phase :: string
  reserved_count :: int
  reserved_pages :: int
  deadline_ms :: py_float


record prefill_option =
  option_rows :: int
  option_pages :: int

definition check_option :: "prefill_option \<Rightarrow> exc + unit" where
  "check_option p =
     bind_sum (positive_int ''rows'' (option_rows p)) (\<lambda>_.
     bind_sum (nonnegative_int ''new_pages'' (option_pages p)) (\<lambda>_. Inr ()))"

record prefill_offer =
  offer_lane :: int
  offer_options :: "prefill_option list"

definition check_offer :: "prefill_offer \<Rightarrow> exc + unit" where
  "check_offer p =
     bind_sum (nonnegative_int ''lane_id'' (offer_lane p)) (\<lambda>_.
     raise_if [(offer_options p = [], ValueError ''prefill options must be a nonempty tuple''),
       (map option_rows (offer_options p) \<noteq> sorted_list_of_set (set (map option_rows (offer_options p))),
        ValueError ''prefill option rows must increase without duplicates'')])"

record pack_price =
  profile_id :: "string option"
  research_graph :: bool
  price_validated :: bool
  estimate_ms :: "reserved_rows list \<Rightarrow> (int \<times> prefill_option) option \<Rightarrow> exc + py_float"

record pack_decision =
  accepted :: bool
  reason :: string
  decision_reserved :: "reserved_rows list"
  prefill_lane_id :: "int option"
  prefill_rows :: int
  estimated_ms :: "py_float option"
  decision_profile :: "string option"

section \<open>The chooser\<close>

definition estimate :: "pack_price \<Rightarrow> reserved_rows list \<Rightarrow> (int \<times> prefill_option) option \<Rightarrow> exc + py_float" where
  "estimate pr rs pre =
     bind_sum (estimate_ms pr rs pre) (\<lambda>v.
       if \<not> is_finite v \<or> fl_less v (Finite 0)
       then Inl (ValueError ''pack cost estimate must be finite and nonnegative'') else Inr v)"

fun min_deadline :: "reserved_rows list \<Rightarrow> py_float" where
  "min_deadline [] = PosInf"
| "min_deadline [r] = deadline_ms r"
| "min_deadline (r # s # rs) =
     (if fl_less (deadline_ms s) (deadline_ms r) then min_deadline (s # rs)
      else min_deadline (r # rs))"

definition mandatory_rows :: "reserved_rows list \<Rightarrow> int" where
  "mandatory_rows rs = (\<Sum>r\<leftarrow>rs. reserved_count r)"

definition mandatory_pages :: "reserved_rows list \<Rightarrow> int" where
  "mandatory_pages rs = (\<Sum>r\<leftarrow>rs. reserved_pages r)"

type_synonym best = "(nat \<times> int \<times> prefill_option \<times> py_float) option"

definition improves :: "nat \<Rightarrow> prefill_option \<Rightarrow> py_float \<Rightarrow> best \<Rightarrow> bool" where
  "improves priority opt cost best =
     (case best of None \<Rightarrow> True
      | Some (p, _, o', c) \<Rightarrow> priority < p \<or> (priority = p
          \<and> (option_rows opt > option_rows o'
             \<or> (option_rows opt = option_rows o' \<and> fl_less cost c))))"

fun scan_options :: "pack_price \<Rightarrow> reserved_rows list \<Rightarrow> int \<Rightarrow> int \<Rightarrow> nat \<Rightarrow> int
    \<Rightarrow> prefill_option list \<Rightarrow> best \<Rightarrow> exc + best" where
  "scan_options pr rs row_capacity free_pages priority lane [] best = Inr best"
| "scan_options pr rs row_capacity free_pages priority lane (opt # opts) best =
     (if mandatory_rows rs + option_rows opt > row_capacity
         \<or> mandatory_pages rs + option_pages opt > free_pages
      then scan_options pr rs row_capacity free_pages priority lane opts best
      else bind_sum (estimate pr rs (Some (lane, opt))) (\<lambda>cost.
        if fl_less (min_deadline rs) cost
        then scan_options pr rs row_capacity free_pages priority lane opts best
        else scan_options pr rs row_capacity free_pages priority lane opts
               (if improves priority opt cost best then Some (priority, lane, opt, cost) else best)))"

fun scan_offers :: "pack_price \<Rightarrow> reserved_rows list \<Rightarrow> int \<Rightarrow> int \<Rightarrow> nat
    \<Rightarrow> prefill_offer list \<Rightarrow> best \<Rightarrow> exc + best" where
  "scan_offers pr rs row_capacity free_pages priority [] best = Inr best"
| "scan_offers pr rs row_capacity free_pages priority (o' # os) best =
     bind_sum (scan_options pr rs row_capacity free_pages priority (offer_lane o') (offer_options o') best)
       (scan_offers pr rs row_capacity free_pages (Suc priority) os)"

definition conclude :: "reserved_rows list \<Rightarrow> pack_price \<Rightarrow> py_float \<Rightarrow> best \<Rightarrow> pack_decision" where
  "conclude rs pr base_ms best =
     (case best of
        None \<Rightarrow> \<lparr>accepted = True, reason = ''decode_only'', decision_reserved = rs,
          prefill_lane_id = None, prefill_rows = 0, estimated_ms = Some base_ms,
          decision_profile = profile_id pr\<rparr>
      | Some (_, lane, opt, cost) \<Rightarrow> \<lparr>accepted = True, reason = ''mixed_pack'', decision_reserved = rs,
          prefill_lane_id = Some lane, prefill_rows = option_rows opt,
          estimated_ms = Some cost, decision_profile = profile_id pr\<rparr>)"

definition choose_paged_pack :: "reserved_rows list \<Rightarrow> prefill_offer list \<Rightarrow> pack_price option
    \<Rightarrow> int \<Rightarrow> int \<Rightarrow> bool \<Rightarrow> bool \<Rightarrow> exc + pack_decision" where
  "choose_paged_pack rs offers price row_capacity free_pages permit_candidate permit_research_graph =
     bind_sum (positive_int ''row_capacity'' row_capacity) (\<lambda>_.
     bind_sum (nonnegative_int ''free_pages'' free_pages) (\<lambda>_.
     let ids = map reserved_lane rs @ map offer_lane offers;
         profile = (case price of None \<Rightarrow> None | Some pr \<Rightarrow> profile_id pr);
         reject = (\<lambda>why est. Inr \<lparr>accepted = False, reason = why, decision_reserved = rs,
            prefill_lane_id = None, prefill_rows = 0, estimated_ms = est, decision_profile = profile\<rparr>)
     in if length ids \<noteq> card (set ids) then Inl (ValueError ''each lane must appear exactly once'')
        else if \<not> permit_candidate then reject ''paged_pack_disabled'' None
        else if mandatory_rows rs > row_capacity \<or> mandatory_pages rs > free_pages
        then reject ''mandatory_decode_capacity'' None
        else (case price of
                None \<Rightarrow> reject ''source_bound_price_missing'' None
              | Some pr \<Rightarrow>
                  if profile_id pr = None \<or> profile_id pr = Some ''''
                  then reject ''source_bound_price_missing'' None
                  else if research_graph pr \<and> (\<not> permit_research_graph \<or> \<not> price_validated pr)
                  then reject ''research_graph_price_disabled'' None
                  else bind_sum (estimate pr rs None) (\<lambda>base_ms.
                    if fl_less (min_deadline rs) base_ms
                    then reject ''mandatory_decode_deadline'' (Some base_ms)
                    else bind_sum (scan_offers pr rs row_capacity free_pages 0 offers None) (\<lambda>best. Inr (conclude rs pr base_ms best))))))"

section \<open>The choice is feasible and the best one\<close>

definition feasible :: "pack_price \<Rightarrow> reserved_rows list \<Rightarrow> int \<Rightarrow> int \<Rightarrow> int \<Rightarrow> prefill_option \<Rightarrow> py_float \<Rightarrow> bool" where
  "feasible pr rs row_capacity free_pages lane opt cost \<longleftrightarrow>
     mandatory_rows rs + option_rows opt \<le> row_capacity
   \<and> mandatory_pages rs + option_pages opt \<le> free_pages
   \<and> estimate pr rs (Some (lane, opt)) = Inr cost \<and> \<not> fl_less (min_deadline rs) cost"

lemma scan_options_older:
  assumes "scan_options pr rs cap pages pri lane opts (Some (p, l, o', c)) = Inr best" and "p < pri"
  shows "best = Some (p, l, o', c)"
  using assms by (induction opts) (auto simp: improves_def split: if_splits)

lemma scan_options_best:
  assumes "scan_options pr rs cap pages pri lane opts best = Inr best'"
    and "best = None \<or> (\<exists>o0 c0. best = Some (pri, lane, o0, c0) \<and> feasible pr rs cap pages lane o0 c0)"
  shows "(case best' of
       None \<Rightarrow> best = None \<and> (\<forall>o' \<in> set opts. \<forall>c. \<not> feasible pr rs cap pages lane o' c)
     | Some (p, l, o', c) \<Rightarrow> p = pri \<and> l = lane \<and> feasible pr rs cap pages lane o' c
         \<and> (o' \<in> set opts \<or> (\<exists>c. best = Some (pri, lane, o', c)))
         \<and> (\<forall>o2 \<in> set opts. \<forall>c2. feasible pr rs cap pages lane o2 c2 \<longrightarrow> option_rows o2 \<le> option_rows o')
         \<and> (\<forall>o2 c2. best = Some (pri, lane, o2, c2) \<longrightarrow> option_rows o2 \<le> option_rows o'))"
  using assms
proof (induction opts arbitrary: best)
  case (Cons opt opts)
  show ?case
  proof (cases "\<exists>c. feasible pr rs cap pages lane opt c")
    case False
    then have "scan_options pr rs cap pages pri lane opts best = Inr best'"
      using Cons.prems(1) by (auto simp: feasible_def split: if_splits)
    from Cons.IH[OF this Cons.prems(2)] False show ?thesis by (auto split: option.splits)
  next
    case True
    then obtain c where c: "feasible pr rs cap pages lane opt c" ..
    define b where "b = (if improves pri opt c best then Some (pri, lane, opt, c) else best)"
    have step: "scan_options pr rs cap pages pri lane opts b = Inr best'"
      using Cons.prems(1) c by (auto simp: feasible_def b_def split: if_splits)
    have "b = None \<or> (\<exists>o0 c0. b = Some (pri, lane, o0, c0) \<and> feasible pr rs cap pages lane o0 c0)"
      using Cons.prems(2) c by (auto simp: b_def)
    note IH = Cons.IH[OF step this]
    have bs: "\<exists>ob cb. b = Some (pri, lane, ob, cb) \<and> option_rows opt \<le> option_rows ob
        \<and> (ob = opt \<or> best = Some (pri, lane, ob, cb))
        \<and> (\<forall>o2 c2. best = Some (pri, lane, o2, c2) \<longrightarrow> option_rows o2 \<le> option_rows ob)"
      using Cons.prems(2) by (auto simp: b_def improves_def)
    have only: "c2 = c" if "feasible pr rs cap pages lane opt c2" for c2
      using that c by (simp add: feasible_def)
    show ?thesis using IH bs by (fastforce split: option.splits)
  qed
qed (auto split: option.splits)

lemma scan_offers_older:
  assumes "scan_offers pr rs cap pages pri offers (Some (p, l, o', c)) = Inr best" and "p < pri"
  shows "best = Some (p, l, o', c)"
  using assms
proof (induction offers arbitrary: pri)
  case (Cons off offers)
  then obtain b where "scan_options pr rs cap pages pri (offer_lane off) (offer_options off) (Some (p, l, o', c)) = Inr b"
    "scan_offers pr rs cap pages (Suc pri) offers b = Inr best" by auto
  then show ?case using scan_options_older Cons by fastforce
qed simp

lemma scan_offers_best:
  assumes "scan_offers pr rs cap pages pri offers None = Inr best"
  shows "case best of
       None \<Rightarrow> \<forall>off \<in> set offers. \<forall>o' \<in> set (offer_options off). \<forall>c. \<not> feasible pr rs cap pages (offer_lane off) o' c
     | Some (p, l, o', c) \<Rightarrow> \<exists>before off after. offers = before @ off # after
         \<and> l = offer_lane off \<and> o' \<in> set (offer_options off) \<and> feasible pr rs cap pages l o' c
         \<and> (\<forall>off' \<in> set before. \<forall>o2 \<in> set (offer_options off'). \<forall>c2. \<not> feasible pr rs cap pages (offer_lane off') o2 c2)
         \<and> (\<forall>o2 \<in> set (offer_options off). \<forall>c2. feasible pr rs cap pages l o2 c2 \<longrightarrow> option_rows o2 \<le> option_rows o')"
  using assms
proof (induction offers arbitrary: pri)
  case (Cons off offers)
  then obtain b where b: "scan_options pr rs cap pages pri (offer_lane off) (offer_options off) None = Inr b"
    and rest: "scan_offers pr rs cap pages (Suc pri) offers b = Inr best" by auto
  note first = scan_options_best[OF b, simplified]
  show ?case
  proof (cases b)
    case None
    note IH = Cons.IH[OF rest[unfolded None]]
    show ?thesis
    proof (cases best)
      case None
      then show ?thesis using IH first \<open>b = None\<close> by auto
    next
      case (Some x)
      obtain p l o' c where x: "x = (p, l, o', c)" by (cases x)
      with IH Some obtain before off2 after where "offers = before @ off2 # after"
        and "l = offer_lane off2 \<and> o' \<in> set (offer_options off2) \<and> feasible pr rs cap pages l o' c"
        and "\<forall>off' \<in> set before. \<forall>o2 \<in> set (offer_options off'). \<forall>c2. \<not> feasible pr rs cap pages (offer_lane off') o2 c2"
        and "\<forall>o2 \<in> set (offer_options off2). \<forall>c2. feasible pr rs cap pages l o2 c2 \<longrightarrow> option_rows o2 \<le> option_rows o'"
        by auto
      then show ?thesis
        using first \<open>b = None\<close> unfolding Some x option.case prod.case
        by (intro exI[of _ "off # before"] exI[of _ off2] exI[of _ after]) auto
    qed
  next
    case (Some x)
    obtain p l o' c where x: "x = (p, l, o', c)" by (cases x)
    with first Some have f: "p = pri" "l = offer_lane off" "feasible pr rs cap pages (offer_lane off) o' c"
      "o' \<in> set (offer_options off)"
      "\<forall>o2 \<in> set (offer_options off). \<forall>c2. feasible pr rs cap pages (offer_lane off) o2 c2 \<longrightarrow> option_rows o2 \<le> option_rows o'"
      by auto
    have "best = Some (p, l, o', c)" using scan_offers_older[OF rest[unfolded Some x]] f(1) by simp
    then show ?thesis using f
      by (simp only: option.case prod.case, intro exI[of _ "[]"] exI[of _ off] exI[of _ offers]) simp
  qed
qed simp






lemma conclude_accepted [simp]: "accepted (conclude rs pr b best)"
  by (simp add: conclude_def split: option.split prod.split)

lemma refusal_no_conclusion [simp]:
  "\<lparr>accepted = False, reason = r, decision_reserved = rs', prefill_lane_id = l, prefill_rows = n,
     estimated_ms = e, decision_profile = p\<rparr> \<noteq> conclude rs pr b best"
  using conclude_accepted[of rs pr b best] by (metis pack_decision.select_convs(1))

lemma choose_accepted:
  assumes "choose_paged_pack rs offers price cap pages permit rg = Inr d" and "accepted d"
  obtains pr best base where "price = Some pr" "permit" "mandatory_rows rs \<le> cap" "mandatory_pages rs \<le> pages"
    "estimate pr rs None = Inr base" "\<not> fl_less (min_deadline rs) base"
    "scan_offers pr rs cap pages 0 offers None = Inr best"
    "d = conclude rs pr base best"
    "research_graph pr \<Longrightarrow> rg \<and> price_validated pr"
  using assms by (auto simp: choose_paged_pack_def Let_def split: if_splits option.split_asm)


text \<open>What the chosen slice is compared with: every option of every offer, priced by the profile.\<close>

definition oldest_largest :: "pack_price \<Rightarrow> reserved_rows list \<Rightarrow> prefill_offer list \<Rightarrow> int \<Rightarrow> int \<Rightarrow> pack_decision \<Rightarrow> bool" where
  "oldest_largest pr rs offers cap pages d \<longleftrightarrow>
     (case prefill_lane_id d of
        None \<Rightarrow> \<forall>off \<in> set offers. \<forall>opt \<in> set (offer_options off). \<forall>c. \<not> feasible pr rs cap pages (offer_lane off) opt c
      | Some lane \<Rightarrow> \<exists>before off after opt c. offers = before @ off # after \<and> lane = offer_lane off
          \<and> opt \<in> set (offer_options off) \<and> prefill_rows d = option_rows opt \<and> estimated_ms d = Some c
          \<and> feasible pr rs cap pages lane opt c
          \<and> (\<forall>old \<in> set before. \<forall>o2 \<in> set (offer_options old). \<forall>c2. \<not> feasible pr rs cap pages (offer_lane old) o2 c2)
          \<and> (\<forall>o2 \<in> set (offer_options off). \<forall>c2. feasible pr rs cap pages lane o2 c2 \<longrightarrow> option_rows o2 \<le> option_rows opt))"

text \<open>
  The accepted prefill slice is feasible, comes from the first offer in the caller order
  that has a feasible option, and is at least as large as every feasible option of that offer;
  without a slice no option of any offer was feasible.
\<close>

theorem pack_takes_oldest_largest:
  assumes "choose_paged_pack rs offers (Some pr) cap pages permit rg = Inr d" and "accepted d"
  shows "oldest_largest pr rs offers cap pages d"
proof -
  obtain pr' best base where "Some pr = Some pr'" "scan_offers pr' rs cap pages 0 offers None = Inr best"
    "d = conclude rs pr' base best"
    by (rule choose_accepted[OF assms])
  then have c: "scan_offers pr rs cap pages 0 offers None = Inr best" "d = conclude rs pr base best"
    by simp_all
  show ?thesis
  proof (cases best)
    case None
    then show ?thesis using scan_offers_best[OF c(1)] c(2) by (simp add: oldest_largest_def conclude_def)
  next
    case (Some x)
    obtain p l o' k where x: "x = (p, l, o', k)" by (cases x)
    from scan_offers_best[OF c(1)] obtain before off after where h: "offers = before @ off # after"
      "l = offer_lane off" "o' \<in> set (offer_options off)" "feasible pr rs cap pages l o' k"
      "\<forall>old \<in> set before. \<forall>o2 \<in> set (offer_options old). \<forall>c2. \<not> feasible pr rs cap pages (offer_lane old) o2 c2"
      "\<forall>o2 \<in> set (offer_options off). \<forall>c2. feasible pr rs cap pages l o2 c2 \<longrightarrow> option_rows o2 \<le> option_rows o'"
      unfolding Some x option.case prod.case by blast
    have "prefill_lane_id d = Some l" "prefill_rows d = option_rows o'" "estimated_ms d = Some k"
      by (simp_all add: c(2) conclude_def Some x)
    then show ?thesis unfolding oldest_largest_def using h by (simp only: option.case) blast
  qed
qed

section \<open>A concrete pack\<close>

definition demo_price :: pack_price where
  "demo_price = \<lparr>profile_id = Some ''p'', research_graph = False, price_validated = False,
     estimate_ms = (\<lambda>rs pre. Inr (Finite (case pre of None \<Rightarrow> 4 | Some (l, opt) \<Rightarrow> 4 + of_int (option_rows opt))))\<rparr>"

definition demo_reserved :: "reserved_rows list" where
  "demo_reserved = [\<lparr>reserved_lane = 1, reserved_phase = ''decode'', reserved_count = 1, reserved_pages = 0,
     deadline_ms = Finite 40\<rparr>]"

definition demo_offers :: "prefill_offer list" where
  "demo_offers = [\<lparr>offer_lane = 2, offer_options = [\<lparr>option_rows = 64, option_pages = 1\<rparr>]\<rparr>,
     \<lparr>offer_lane = 3, offer_options = [\<lparr>option_rows = 16, option_pages = 1\<rparr>, \<lparr>option_rows = 32, option_pages = 1\<rparr>]\<rparr>]"

definition demo_decision :: pack_decision where
  "demo_decision = \<lparr>accepted = True, reason = ''mixed_pack'', decision_reserved = demo_reserved,
     prefill_lane_id = Some 3, prefill_rows = 32, estimated_ms = Some (Finite 36), decision_profile = Some ''p''\<rparr>"

lemma demo_choice:
  "choose_paged_pack demo_reserved demo_offers (Some demo_price) 128 8 True False = Inr demo_decision"
  by (simp add: choose_paged_pack_def demo_reserved_def demo_offers_def demo_price_def demo_decision_def
      estimate_def conclude_def mandatory_rows_def mandatory_pages_def positive_int_def nonnegative_int_def improves_def)


theorem pack_takes_oldest_largest_witness:
  "oldest_largest demo_price demo_reserved demo_offers 128 8 demo_decision"
  by (rule pack_takes_oldest_largest[OF demo_choice]) (simp add: demo_decision_def)

end
