(* ===== verification/RequestTransaction.thy ===== *)
theory RequestTransaction
  imports PackScheduler
begin

text \<open>
  The boundary \<open>execute_paged_request\<close> of \<^verbatim>\<open>runtime/paged_request_transaction.py\<close>.  The three
  Protocol classes of that file are the interface it relies on: the record \<open>owner_ops\<close> lists the
  methods the function calls, the locale \<open>atomic_request_owner\<close> the promises the Protocol
  documents, and the owner of \<^verbatim>\<open>runtime/paged_atomic_owner.py\<close> is its interpretation.

  The callables \<open>run_candidate\<close> and \<open>cancelled\<close> are arguments; both may raise and may change the
  state.
\<close>

section \<open>Requests and receipts\<close>

definition STATE_PLANES :: "string list" where
  "STATE_PLANES = [''kv'', ''gdn'', ''qsa'', ''mtp'']"

record candidate_request =
  request_lane :: int
  request_revision :: string
  proposed_rows :: int
  request_planes :: "string list"

definition check_request :: "candidate_request \<Rightarrow> exc + unit" where
  "check_request r = raise_if
     [(request_lane r < 0, ValueError ''lane_id must be a nonnegative integer''),
      (request_revision r = '''', ValueError ''revision is required''),
      (proposed_rows r < 1, ValueError ''proposed_rows must be a positive integer''),
      (request_planes r = [] \<or> ''kv'' \<notin> set (request_planes r)
         \<or> filter (\<lambda>p. p \<in> set (request_planes r)) STATE_PLANES \<noteq> request_planes r,
       ValueError ''planes must be ordered, unique known planes including kv'')]"

record candidate_receipt =
  receipt_lane :: int
  receipt_revision :: string
  receipt_profile :: "string option"
  receipt_proposed :: int
  receipt_accepted :: int
  receipt_planes :: "string list"
  published :: bool
  receipt_reason :: string

definition receipt :: "candidate_request \<Rightarrow> pack_decision \<Rightarrow> string \<Rightarrow> int \<Rightarrow> bool \<Rightarrow> candidate_receipt" where
  "receipt r d why acc pub = \<lparr>receipt_lane = request_lane r, receipt_revision = request_revision r,
     receipt_profile = decision_profile d, receipt_proposed = proposed_rows r, receipt_accepted = acc,
     receipt_planes = request_planes r, published = pub, receipt_reason = why\<rparr>"

section \<open>The owner as the code sees it\<close>

record ('c, 'p, 's) owner_ops =
  ops_supported :: "'s \<Rightarrow> string list"
  ops_atomic :: "'s \<Rightarrow> bool"
  ops_begin :: "candidate_request \<Rightarrow> 's \<Rightarrow> ('c, 's) res"
  ops_prepare :: "'c \<Rightarrow> int \<Rightarrow> 's \<Rightarrow> ('p, 's) res"
  ops_discard :: "'c \<Rightarrow> 's \<Rightarrow> (unit, 's) res"
  ops_planes :: "'p \<Rightarrow> 's \<Rightarrow> string list"
  ops_revision :: "'p \<Rightarrow> 's \<Rightarrow> string"
  ops_publish :: "'p \<Rightarrow> 's \<Rightarrow> (unit, 's) res"
  ops_rollback :: "'p \<Rightarrow> 's \<Rightarrow> (unit, 's) res"

text \<open>\<open>try: x = r; k x except BaseException as e: h e\<close>, for a \<open>k\<close> that catches for itself.\<close>

definition catch_res :: "('a, 's) res \<Rightarrow> (exc \<Rightarrow> 's \<Rightarrow> ('b, 's) res) \<Rightarrow> ('a \<Rightarrow> 's \<Rightarrow> ('b, 's) res) \<Rightarrow> ('b, 's) res" where
  "catch_res r h k = (case fst r of Inl e \<Rightarrow> h e (snd r) | Inr x \<Rightarrow> k x (snd r))"

text \<open>The \<open>except\<close> block: roll back, then raise again; a rollback that raises replaces the exception.\<close>

definition unwind :: "('c, 'p, 's) owner_ops \<Rightarrow> 'c \<Rightarrow> 'p option \<Rightarrow> exc \<Rightarrow> 's \<Rightarrow> ('b, 's) res" where
  "unwind ops candidate prepared e s =
     bind_res (case prepared of Some p \<Rightarrow> ops_rollback ops p s | None \<Rightarrow> ops_discard ops candidate s)
       (\<lambda>_ s. (Inl e, s))"

definition run_selected :: "('c, 'p, 's) owner_ops \<Rightarrow> pack_decision \<Rightarrow> candidate_request
    \<Rightarrow> ('c \<Rightarrow> 's \<Rightarrow> (int, 's) res) \<Rightarrow> ('s \<Rightarrow> (bool, 's) res) \<Rightarrow> 'c \<Rightarrow> 's \<Rightarrow> (candidate_receipt, 's) res" where
  "run_selected ops d request run_candidate cancelled candidate s =
     catch_res (run_candidate candidate s) (unwind ops candidate None) (\<lambda>acc s.
     if \<not> (0 \<le> acc \<and> acc \<le> proposed_rows request)
     then unwind ops candidate None
            (ValueError ''accepted rows must be an integer prefix within the proposal'') s
     else catch_res (cancelled s) (unwind ops candidate None) (\<lambda>stop s.
     if stop
     then bind_res (ops_discard ops candidate s) (\<lambda>_ s. (Inr (receipt request d ''cancelled'' 0 False), s))
     else catch_res (ops_prepare ops candidate acc s) (unwind ops candidate None) (\<lambda>prepared s.
     if ops_planes ops prepared s \<noteq> request_planes request
        \<or> ops_revision ops prepared s \<noteq> request_revision request
     then unwind ops candidate (Some prepared)
            (ValueError ''prepared boundary changed revision or state planes'') s
     else catch_res (cancelled s) (unwind ops candidate (Some prepared)) (\<lambda>stop s.
     if stop
     then bind_res (ops_rollback ops prepared s) (\<lambda>_ s. (Inr (receipt request d ''cancelled'' 0 False), s))
     else catch_res (ops_publish ops prepared s) (unwind ops candidate (Some prepared)) (\<lambda>_ s.
       (Inr (receipt request d ''accepted'' acc True), s))))))"

text \<open>The dict \<open>selected\<close>: the reserved rows, with the prefill slice written last.\<close>

definition selected_rows :: "pack_decision \<Rightarrow> int \<rightharpoonup> int" where
  "selected_rows d =
     (let m = map_of (rev (map (\<lambda>r. (reserved_lane r, reserved_count r)) (decision_reserved d)))
      in case prefill_lane_id d of None \<Rightarrow> m | Some lane \<Rightarrow> m(lane \<mapsto> prefill_rows d))"

definition execute_paged_request :: "('c, 'p, 's) owner_ops \<Rightarrow> pack_decision \<Rightarrow> candidate_request
    \<Rightarrow> ('c \<Rightarrow> 's \<Rightarrow> (int, 's) res) \<Rightarrow> bool \<Rightarrow> ('s \<Rightarrow> (bool, 's) res) \<Rightarrow> 's \<Rightarrow> (candidate_receipt, 's) res" where
  "execute_paged_request ops d request run_candidate permit_candidate cancelled s =
     (if \<not> permit_candidate then (Inr (receipt request d ''paged_request_disabled'' 0 False), s)
      else if \<not> accepted d then (Inr (receipt request d (reason d) 0 False), s)
      else if selected_rows d (request_lane request) \<noteq> Some (proposed_rows request)
      then (Inr (receipt request d ''request_not_selected'' 0 False), s)
      else if \<not> ops_atomic ops s \<or> (\<exists>p \<in> set (request_planes request). p \<notin> set (ops_supported ops s))
      then (Inr (receipt request d ''atomic_state_capability_missing'' 0 False), s)
      else bind_res (cancelled s) (\<lambda>stop s.
        if stop then (Inr (receipt request d ''cancelled'' 0 False), s)
        else bind_res (ops_begin ops request s)
               (run_selected ops d request run_candidate cancelled)))"

section \<open>All or nothing\<close>

lemma catch_res_simps [simp]:
  "catch_res (Inl e, s) h k = h e s" "catch_res (Inr x, s) h k = k x s"
  by (simp_all add: catch_res_def)

text \<open>
  \<open>seen v s\<close>: \<open>s\<close> is a good state in which everybody else sees \<open>v\<close>.  \<open>settled made seen ops v r\<close>: an
  exception or a receipt that says nothing was published leaves \<open>v\<close> visible; a receipt that says
  it published follows from preparing exactly the accepted rows of the request and a successful
  publication of that boundary, with \<open>v\<close> visible until then.  \<open>made c n s\<close> says which candidate
  that was, how many of its rows the caller accepted, and the state that left.
\<close>

definition settled :: "('c \<Rightarrow> int \<Rightarrow> 's \<Rightarrow> bool) \<Rightarrow> ('v \<Rightarrow> 's \<Rightarrow> bool) \<Rightarrow> ('c, 'p, 's) owner_ops \<Rightarrow> candidate_request \<Rightarrow> 'v \<Rightarrow> (candidate_receipt, 's) res \<Rightarrow> bool" where
  "settled made seen ops request v r \<longleftrightarrow>
     (case fst r of
        Inl e \<Rightarrow> seen v (snd r)
      | Inr rc \<Rightarrow>
          if published rc
          then 0 \<le> receipt_accepted rc \<and> receipt_accepted rc \<le> proposed_rows request
             \<and> (\<exists>c p s t. seen v s \<and> made c (receipt_accepted rc) s \<and> ops_prepare ops c (receipt_accepted rc) s = (Inr p, t)
                  \<and> ops_planes ops p t = request_planes request
                  \<and> ops_revision ops p t = request_revision request
                  \<and> seen v t \<and> ops_publish ops p t = (Inr (), snd r))
          else receipt_accepted rc = 0 \<and> seen v (snd r))"

lemma receipt_simps [simp]:
  "published (receipt r d w n b) = b" "receipt_accepted (receipt r d w n b) = n"
  by (simp_all add: receipt_def)

locale atomic_request_owner =
  fixes ops :: "('c, 'p, 's) owner_ops"
    and seen :: "'v \<Rightarrow> 's \<Rightarrow> bool"
  assumes begin_at: "check_request r = Inr () \<Longrightarrow> seen v s \<Longrightarrow> seen v (snd (ops_begin ops r s))"
    and prepare_at: "seen v s \<Longrightarrow> seen v (snd (ops_prepare ops c n s))"
    and discard_at: "seen v s \<Longrightarrow> seen v (snd (ops_discard ops c s))"
    and rollback_at: "seen v s \<Longrightarrow> seen v (snd (ops_rollback ops p s))"
    and publish_fails: "ops_publish ops p s = (Inl e, t) \<Longrightarrow> seen v s \<Longrightarrow> seen v t"
begin

lemma settled_refused:
  "seen v s \<Longrightarrow> settled made seen ops rq v (Inr (receipt r d w 0 False), s)"
  by (simp add: settled_def)

lemma settled_unwind: "seen v s \<Longrightarrow> settled made seen ops rq v (unwind ops c prep e s)"
  using discard_at[of v s c] rollback_at[of v s]
  by (auto simp: unwind_def bind_res_def settled_def split: sum.splits option.splits)

lemma settled_catch:
  assumes "seen v (snd r)"
    and "\<And>x s. r = (Inr x, s) \<Longrightarrow> seen v s \<Longrightarrow> settled made seen ops rq v (k x s)"
  shows "settled made seen ops rq v (catch_res r (unwind ops c prep) k)"
  using assms settled_unwind by (cases r; cases "fst r") (auto simp: catch_res_def)

lemma settled_mono:
  assumes "settled made seen ops rq v r" and "\<And>c n s. made c n s \<Longrightarrow> made' c n s"
  shows "settled made' seen ops rq v r"
proof (cases "fst r")
  case (Inr rc)
  show ?thesis
  proof (cases "published rc")
    case True
    then show ?thesis using assms Inr unfolding settled_def by simp meson
  qed (use assms Inr in \<open>simp add: settled_def\<close>)
qed (use assms in \<open>simp add: settled_def\<close>)

lemma settled_stop:
  "seen v (snd r) \<Longrightarrow> settled made seen ops rq v (bind_res r (\<lambda>_ s. (Inr (receipt q d w 0 False), s)))"
  by (cases r; cases "fst r") (auto simp: settled_def bind_res_def)

text \<open>The last step, once a boundary was prepared in \<open>s\<close>.\<close>

lemma settled_publish:
  assumes "seen v s" and "made c acc s" and "ops_prepare ops c acc s = (Inr p, t)" and "0 \<le> acc" "acc \<le> proposed_rows rq"
    and "ops_planes ops p t = request_planes rq" and "ops_revision ops p t = request_revision rq"
    and t: "seen v t"
  shows "settled made seen ops rq v (catch_res (ops_publish ops p t) (unwind ops c (Some p))
    (\<lambda>_ s. (Inr (receipt rq d ''accepted'' acc True), s)))"
proof (cases "ops_publish ops p t")
  case (Pair r u)
  show ?thesis
  proof (cases r)
    case (Inl e)
    then show ?thesis using Pair settled_unwind publish_fails[of p t e u] t by simp
  next
    case (Inr x)
    then show ?thesis using Pair assms by (auto simp: settled_def)
  qed
qed

lemma run_selected_settled:
  assumes run: "\<And>s. seen v s \<Longrightarrow> seen v (snd (run c s))" and cancel: "\<And>s. snd (cancelled s) = s"
    and v: "seen v s0"
  shows "settled (\<lambda>c' n s'. c' = c \<and> run c s0 = (Inr n, s')) seen ops rq v (run_selected ops d rq run cancelled c s0)"
  unfolding run_selected_def
proof (rule settled_catch, goal_cases)
  case 1
  show ?case using run v by simp
next
  case (2 acc s)
  let ?made = "\<lambda>c' n s'. c' = c \<and> run c s0 = (Inr n, s')"
  have made: "?made c acc s" using 2(1) by simp
  note s = 2(2)
  have poll: "t' = t" if "cancelled t = (r, t')" for t r t'
    using cancel[of t] that by simp
  show ?case
  proof (cases "0 \<le> acc \<and> acc \<le> proposed_rows rq")
    case False
    then show ?thesis using settled_unwind[OF s] by auto
  next
    case True
    have boundary: "settled ?made seen ops rq v
        (if ops_planes ops p t \<noteq> request_planes rq \<or> ops_revision ops p t \<noteq> request_revision rq
         then unwind ops c (Some p) (ValueError ''prepared boundary changed revision or state planes'') t
         else catch_res (cancelled t) (unwind ops c (Some p)) (\<lambda>stop s.
           if stop
           then bind_res (ops_rollback ops p s) (\<lambda>_ s. (Inr (receipt rq d ''cancelled'' 0 False), s))
           else catch_res (ops_publish ops p s) (unwind ops c (Some p)) (\<lambda>_ s.
             (Inr (receipt rq d ''accepted'' acc True), s))))"
      if p: "ops_prepare ops c acc s = (Inr p, t)" and t: "seen v t" for p t
    proof (cases "ops_planes ops p t \<noteq> request_planes rq \<or> ops_revision ops p t \<noteq> request_revision rq")
      case True
      then show ?thesis using settled_unwind[OF t] by simp
    next
      case False
      have "settled ?made seen ops rq v (catch_res (cancelled t) (unwind ops c (Some p)) (\<lambda>stop s.
           if stop
           then bind_res (ops_rollback ops p s) (\<lambda>_ s. (Inr (receipt rq d ''cancelled'' 0 False), s))
           else catch_res (ops_publish ops p s) (unwind ops c (Some p)) (\<lambda>_ s.
             (Inr (receipt rq d ''accepted'' acc True), s))))"
      proof (rule settled_catch)
        show "seen v (snd (cancelled t))" using cancel t by simp
        fix stop t' assume "cancelled t = (Inr stop, t')" and t': "seen v t'"
        then have [simp]: "t' = t" using poll by blast
        show "settled ?made seen ops rq v (if stop
           then bind_res (ops_rollback ops p t') (\<lambda>_ s. (Inr (receipt rq d ''cancelled'' 0 False), s))
           else catch_res (ops_publish ops p t') (unwind ops c (Some p)) (\<lambda>_ s.
             (Inr (receipt rq d ''accepted'' acc True), s)))"
          using settled_publish[where made = ?made, OF s made p] settled_stop[OF rollback_at[OF t]] True False t
          by (simp split del: bind_res_split)
      qed
      then show ?thesis using False by (simp split del: bind_res_split)
    qed
    have "settled ?made seen ops rq v (catch_res (cancelled s) (unwind ops c None) (\<lambda>stop s.
       if stop
       then bind_res (ops_discard ops c s) (\<lambda>_ s. (Inr (receipt rq d ''cancelled'' 0 False), s))
       else catch_res (ops_prepare ops c acc s) (unwind ops c None) (\<lambda>p t.
         if ops_planes ops p t \<noteq> request_planes rq \<or> ops_revision ops p t \<noteq> request_revision rq
         then unwind ops c (Some p) (ValueError ''prepared boundary changed revision or state planes'') t
         else catch_res (cancelled t) (unwind ops c (Some p)) (\<lambda>stop s.
           if stop
           then bind_res (ops_rollback ops p s) (\<lambda>_ s. (Inr (receipt rq d ''cancelled'' 0 False), s))
           else catch_res (ops_publish ops p s) (unwind ops c (Some p)) (\<lambda>_ s.
             (Inr (receipt rq d ''accepted'' acc True), s))))))"
    proof (rule settled_catch)
      show "seen v (snd (cancelled s))" using cancel s by simp
      fix stop s' assume "cancelled s = (Inr stop, s')" and "seen v s'"
      then have [simp]: "s' = s" using poll by blast
      show "settled ?made seen ops rq v (if stop
       then bind_res (ops_discard ops c s') (\<lambda>_ s. (Inr (receipt rq d ''cancelled'' 0 False), s))
       else catch_res (ops_prepare ops c acc s') (unwind ops c None) (\<lambda>p t.
         if ops_planes ops p t \<noteq> request_planes rq \<or> ops_revision ops p t \<noteq> request_revision rq
         then unwind ops c (Some p) (ValueError ''prepared boundary changed revision or state planes'') t
         else catch_res (cancelled t) (unwind ops c (Some p)) (\<lambda>stop s.
           if stop
           then bind_res (ops_rollback ops p s) (\<lambda>_ s. (Inr (receipt rq d ''cancelled'' 0 False), s))
           else catch_res (ops_publish ops p s) (unwind ops c (Some p)) (\<lambda>_ s.
             (Inr (receipt rq d ''accepted'' acc True), s)))))"
        using settled_stop[OF discard_at[OF s]] settled_catch[OF prepare_at[OF s] boundary]
        by (simp split del: bind_res_split)
    qed
    then show ?thesis using True by (simp split del: bind_res_split)
  qed
qed

text \<open>The contract of the whole call.\<close>

lemma execute_settled:
  assumes run: "\<And>c s. seen v s \<Longrightarrow> seen v (snd (run c s))" and cancel: "\<And>s. snd (cancelled s) = s"
    and v: "seen v s" and rq: "check_request rq = Inr ()"
  shows "settled (\<lambda>c n s'. \<exists>u. ops_begin ops rq s = (Inr c, u) \<and> run c u = (Inr n, s')) seen ops rq v (execute_paged_request ops d rq run permit cancelled s)"
proof -
  let ?made = "\<lambda>c n s'. \<exists>u. ops_begin ops rq s = (Inr c, u) \<and> run c u = (Inr n, s')"
  have sel: "settled ?made seen ops rq v (bind_res (ops_begin ops rq s) (run_selected ops d rq run cancelled))"
  proof (cases "ops_begin ops rq s")
    case (Pair r u)
    have u: "seen v u" using begin_at[OF rq v] Pair by simp
    show ?thesis
    proof (cases r)
      case (Inl e)
      then show ?thesis using Pair u by (simp add: settled_def)
    next
      case (Inr c)
      then have "settled ?made seen ops rq v (run_selected ops d rq run cancelled c u)"
        using Pair by (intro settled_mono[OF run_selected_settled[of v run c cancelled u, OF run cancel u]]) auto
      then show ?thesis using Pair Inr by simp
    qed
  qed
  have "settled ?made seen ops rq v (bind_res (cancelled s) (\<lambda>stop s.
        if stop then (Inr (receipt rq d ''cancelled'' 0 False), s)
        else bind_res (ops_begin ops rq s) (run_selected ops d rq run cancelled)))"
    using cancel[of s] sel settled_refused[OF v] v
    by (cases "cancelled s"; cases "fst (cancelled s)") (auto simp: settled_def)
  then show ?thesis
    unfolding execute_paged_request_def using settled_refused[OF v] by auto
qed

end

end
