(* ===== verification/AtomicOwner.thy ===== *)
theory AtomicOwner
  imports RequestTransaction
begin

text \<open>
  The host owner of \<^verbatim>\<open>runtime/paged_atomic_owner.py\<close>: one request's state as one public snapshot,
  replaced by one assignment.

  Objects whose identity matters are explicit: a snapshot carries the id it was allocated with
  (\<open>is\<close> compares ids), candidates and prepared boundaries are cells of the owner's state named by
  their index.  A name that belongs to no cell has no counterpart in the code; calls on it raise.
  Deep copies are the identity on values, and the lock makes each method one step.
\<close>

section \<open>Data\<close>

record 'r snapshot =
  snap_id :: nat
  snap_revision :: string
  snap_generation :: int
  snap_planes :: "(string \<times> 'r list) list"

record 'r private_candidate =
  cand_request :: candidate_request
  cand_origin :: "'r snapshot"
  cand_staged :: "(string \<times> 'r list) list"
  cand_closed :: bool

record 'r prepared_candidate =
  prep_planes :: "string list"
  prep_revision :: string
  prep_origin :: "'r snapshot"
  prep_successor :: "'r snapshot option"

record 'r atomic_owner =
  supported_planes :: "string list"
  owner_enabled :: bool
  public_snapshot :: "'r snapshot"
  fresh_id :: nat
  candidates :: "'r private_candidate list"
  boundaries :: "'r prepared_candidate list"

definition snapshot_rows :: "'r snapshot \<Rightarrow> string \<Rightarrow> exc + 'r list" where
  "snapshot_rows s plane =
     (case map_of (snap_planes s) plane of None \<Rightarrow> Inl (KeyError plane) | Some rows \<Rightarrow> Inr rows)"

section \<open>The owner's methods\<close>

fun copy_planes :: "string list \<Rightarrow> (string \<times> 'r list) list \<Rightarrow> exc + (string \<times> 'r list) list" where
  "copy_planes [] source = Inr []"
| "copy_planes (plane # ps) source =
     (case map_of source plane of
        None \<Rightarrow> Inl (KeyError plane)
      | Some rows \<Rightarrow> bind_sum (copy_planes ps source) (\<lambda>rest. Inr ((plane, rows) # rest)))"

definition new_owner :: "string \<Rightarrow> (string \<times> 'r list) list \<Rightarrow> string list \<Rightarrow> bool \<Rightarrow> exc + 'r atomic_owner" where
  "new_owner revision initial supported enabled =
     bind_sum (raise_if
       [(revision = '''', ValueError ''revision is required''),
        (supported = [] \<or> filter (\<lambda>p. p \<in> set supported) STATE_PLANES \<noteq> supported
           \<or> ''kv'' \<notin> set supported,
         ValueError ''supported planes must be ordered, unique and include kv''),
        (set (map fst initial) \<noteq> set supported,
         ValueError ''initial state must cover supported planes exactly'')]) (\<lambda>_.
     bind_sum (copy_planes supported initial) (\<lambda>planes.
       Inr \<lparr>supported_planes = supported, owner_enabled = enabled,
            public_snapshot = \<lparr>snap_id = 0, snap_revision = revision, snap_generation = 0, snap_planes = planes\<rparr>,
            fresh_id = 1, candidates = [], boundaries = []\<rparr>))"

definition atomic_publish :: "'r atomic_owner \<Rightarrow> bool" where
  "atomic_publish s = owner_enabled s"

definition replace_reference :: "string \<Rightarrow> (string \<times> 'r list) list \<Rightarrow> 'r atomic_owner \<Rightarrow> ('r snapshot, 'r atomic_owner) res" where
  "replace_reference revision state s =
     lift_res (raise_if
       [(revision = '''', ValueError ''revision is required''),
        (set (map fst state) \<noteq> set (supported_planes s),
         ValueError ''reference state must cover supported planes exactly'')]) s (\<lambda>_.
     lift_res (copy_planes (supported_planes s) state) s (\<lambda>planes.
       let new = \<lparr>snap_id = fresh_id s, snap_revision = revision,
                  snap_generation = snap_generation (public_snapshot s) + 1, snap_planes = planes\<rparr>
       in (Inr new, s\<lparr>public_snapshot := new, fresh_id := fresh_id s + 1\<rparr>)))"

definition begin_candidate :: "candidate_request \<Rightarrow> 'r atomic_owner \<Rightarrow> (nat, 'r atomic_owner) res" where
  "begin_candidate request s =
     (if \<not> owner_enabled s then (Inl (AtomicOwnerError ''paged atomic owner is disabled''), s)
      else if \<exists>p \<in> set (request_planes request). p \<notin> set (supported_planes s)
      then (Inl (AtomicOwnerError ''requested state plane is unsupported''), s)
      else if request_revision request \<noteq> snap_revision (public_snapshot s)
      then (Inl (AtomicOwnerError ''request revision differs from public state''), s)
      else (Inr (length (candidates s)),
            s\<lparr>candidates := candidates s @ [\<lparr>cand_request = request, cand_origin = public_snapshot s,
                 cand_staged = [], cand_closed = False\<rparr>]\<rparr>))"

section \<open>Candidates\<close>

definition get_candidate :: "nat \<Rightarrow> 'r atomic_owner \<Rightarrow> exc + 'r private_candidate" where
  "get_candidate c s = (if c < length (candidates s) then Inr (candidates s ! c)
     else Inl (LookupError ''no such candidate''))"

definition put_candidate :: "nat \<Rightarrow> 'r private_candidate \<Rightarrow> 'r atomic_owner \<Rightarrow> 'r atomic_owner" where
  "put_candidate c x s = s\<lparr>candidates := (candidates s)[c := x]\<rparr>"

definition stage :: "nat \<Rightarrow> string \<Rightarrow> 'r list \<Rightarrow> 'r atomic_owner \<Rightarrow> (unit, 'r atomic_owner) res" where
  "stage c plane rows s =
     lift_res (get_candidate c s) s (\<lambda>x.
       if cand_closed x then (Inl (AtomicOwnerError ''candidate is closed''), s)
       else if plane \<notin> set (request_planes (cand_request x)) \<or> plane \<in> set (map fst (cand_staged x))
       then (Inl (AtomicOwnerError ''plane is unrequested or already staged''), s)
       else if int (length rows) \<noteq> proposed_rows (cand_request x)
       then (Inl (AtomicOwnerError ''staged rows must cover the complete proposal''), s)
       else (Inr (), put_candidate c (x\<lparr>cand_staged := cand_staged x @ [(plane, rows)]\<rparr>) s))"

text \<open>The loop of \<open>prepare\<close> over the requested planes, on the dict \<open>next_planes\<close>.\<close>

fun extend_planes :: "(string \<rightharpoonup> 'r list) \<Rightarrow> int \<Rightarrow> string list \<Rightarrow> (string \<rightharpoonup> 'r list) \<Rightarrow> exc + (string \<rightharpoonup> 'r list)" where
  "extend_planes staged n [] next = Inr next"
| "extend_planes staged n (plane # ps) next =
     (case (next plane, staged plane) of
        (Some old, Some rows) \<Rightarrow> extend_planes staged n ps (next(plane \<mapsto> old @ slice_to n rows))
      | _ \<Rightarrow> Inl (KeyError plane))"

fun gather_planes :: "(string \<rightharpoonup> 'r list) \<Rightarrow> string list \<Rightarrow> exc + (string \<times> 'r list) list" where
  "gather_planes next [] = Inr []"
| "gather_planes next (plane # ps) =
     (case next plane of
        None \<Rightarrow> Inl (KeyError plane)
      | Some rows \<Rightarrow> bind_sum (gather_planes next ps) (\<lambda>rest. Inr ((plane, rows) # rest)))"

definition successor_planes :: "'r private_candidate \<Rightarrow> int \<Rightarrow> string list \<Rightarrow> exc + (string \<times> 'r list) list" where
  "successor_planes x n supported =
     bind_sum (extend_planes (map_of (cand_staged x)) n (request_planes (cand_request x))
         (map_of (snap_planes (cand_origin x)))) (\<lambda>next. gather_planes next supported)"

definition prepare_candidate :: "nat \<Rightarrow> int \<Rightarrow> 'r atomic_owner \<Rightarrow> (nat, 'r atomic_owner) res" where
  "prepare_candidate c n s =
     lift_res (get_candidate c s) s (\<lambda>x.
       if cand_closed x then (Inl (AtomicOwnerError ''candidate is closed''), s)
       else if \<not> (0 \<le> n \<and> n \<le> proposed_rows (cand_request x))
       then (Inl (ValueError ''accepted rows must be an integer prefix within the proposal''), s)
       else if set (map fst (cand_staged x)) \<noteq> set (request_planes (cand_request x))
       then (Inl (AtomicOwnerError ''all requested state planes must be staged''), s)
       else lift_res (successor_planes x n (supported_planes s)) s (\<lambda>planes.
         let next = \<lparr>snap_id = fresh_id s, snap_revision = request_revision (cand_request x),
               snap_generation = snap_generation (cand_origin x) + 1, snap_planes = planes\<rparr>;
             s = put_candidate c (x\<lparr>cand_closed := True, cand_staged := []\<rparr>) s
         in (Inr (length (boundaries s)),
             s\<lparr>fresh_id := fresh_id s + 1,
               boundaries := boundaries s @ [\<lparr>prep_planes = request_planes (cand_request x),
                 prep_revision = request_revision (cand_request x),
                 prep_origin = cand_origin x, prep_successor = Some next\<rparr>]\<rparr>)))"

definition rollback_candidate :: "nat \<Rightarrow> 'r atomic_owner \<Rightarrow> (unit, 'r atomic_owner) res" where
  "rollback_candidate c s =
     lift_res (get_candidate c s) s (\<lambda>x.
       (Inr (), put_candidate c (x\<lparr>cand_staged := [], cand_closed := True\<rparr>) s))"

section \<open>Prepared boundaries\<close>

definition get_boundary :: "nat \<Rightarrow> 'r atomic_owner \<Rightarrow> exc + 'r prepared_candidate" where
  "get_boundary b s = (if b < length (boundaries s) then Inr (boundaries s ! b)
     else Inl (LookupError ''no such boundary''))"

definition put_boundary :: "nat \<Rightarrow> 'r prepared_candidate \<Rightarrow> 'r atomic_owner \<Rightarrow> 'r atomic_owner" where
  "put_boundary b x s = s\<lparr>boundaries := (boundaries s)[b := x]\<rparr>"

definition publish :: "nat \<Rightarrow> 'r atomic_owner \<Rightarrow> (unit, 'r atomic_owner) res" where
  "publish b s =
     lift_res (get_boundary b s) s (\<lambda>x.
       case prep_successor x of
         None \<Rightarrow> (Inl (AtomicOwnerError ''prepared boundary is closed''), s)
       | Some next \<Rightarrow>
           if snap_id (public_snapshot s) \<noteq> snap_id (prep_origin x)
           then (Inl (AtomicOwnerError ''public revision or generation drifted''), s)
           else (Inr (), put_boundary b (x\<lparr>prep_successor := None\<rparr>) (s\<lparr>public_snapshot := next\<rparr>)))"

definition rollback_boundary :: "nat \<Rightarrow> 'r atomic_owner \<Rightarrow> (unit, 'r atomic_owner) res" where
  "rollback_boundary b s =
     lift_res (get_boundary b s) s (\<lambda>x. (Inr (), put_boundary b (x\<lparr>prep_successor := None\<rparr>) s))"

definition owner_methods :: "(nat, nat, 'r atomic_owner) owner_ops" where
  "owner_methods = \<lparr>ops_supported = supported_planes, ops_atomic = atomic_publish,
     ops_begin = begin_candidate, ops_prepare = prepare_candidate, ops_discard = rollback_candidate,
     ops_planes = (\<lambda>b s. prep_planes (boundaries s ! b)),
     ops_revision = (\<lambda>b s. prep_revision (boundaries s ! b)),
     ops_publish = publish, ops_rollback = rollback_boundary\<rparr>"

section \<open>The owner as a machine\<close>

datatype 'r owner_call =
    ReplaceCall string "(string \<times> 'r list) list"
  | BeginCall candidate_request
  | StageCall nat string "'r list"
  | PrepareCall nat int
  | RollbackCall nat
  | PublishCall nat
  | RollbackBoundaryCall nat

definition no_value :: "('a, 's) res \<Rightarrow> (unit, 's) res" where
  "no_value r = bind_res r (\<lambda>_ s. (Inr (), s))"

lemma snd_no_value [simp]: "snd (no_value r) = snd r"
  by (cases r; cases "fst r") (auto simp: no_value_def)

text \<open>The constructor of \<open>CandidateRequest\<close> runs before a request exists.\<close>

fun owner_step :: "'r owner_call \<Rightarrow> 'r atomic_owner \<Rightarrow> (unit, 'r atomic_owner) res" where
  "owner_step (ReplaceCall revision state) s = no_value (replace_reference revision state s)"
| "owner_step (BeginCall r) s = lift_res (check_request r) s (\<lambda>_. no_value (begin_candidate r s))"
| "owner_step (StageCall c plane rows) s = stage c plane rows s"
| "owner_step (PrepareCall c n) s = no_value (prepare_candidate c n s)"
| "owner_step (RollbackCall c) s = rollback_candidate c s"
| "owner_step (PublishCall b) s = publish b s"
| "owner_step (RollbackBoundaryCall b) s = rollback_boundary b s"

definition owner_start :: "'r atomic_owner \<Rightarrow> bool" where
  "owner_start s \<longleftrightarrow> (\<exists>r initial supported enabled. new_owner r initial supported enabled = Inr s)"

section \<open>Growth of a snapshot\<close>

text \<open>\<open>b\<close> is \<open>a\<close> with the first \<open>n\<close> rows of every plane in \<open>ps\<close> appended, and nothing else.\<close>

definition grows :: "string list \<Rightarrow> (string \<Rightarrow> 'r list) \<Rightarrow> nat \<Rightarrow> 'r snapshot \<Rightarrow> 'r snapshot \<Rightarrow> bool" where
  "grows ps rows n a b \<longleftrightarrow> snap_revision b = snap_revision a
     \<and> snap_generation b = snap_generation a + 1
     \<and> map fst (snap_planes b) = map fst (snap_planes a)
     \<and> (\<forall>p. map_of (snap_planes b) p =
          map_option (\<lambda>old. if p \<in> set ps then old @ take n (rows p) else old) (map_of (snap_planes a) p))"

lemma grows_cong:
  assumes "\<And>p. p \<in> set ps \<Longrightarrow> rows p = rows' p"
  shows "grows ps rows n a b = grows ps rows' n a b"
proof -
  have "(\<lambda>old. if p \<in> set ps then old @ take n (rows p) else old) = (\<lambda>old. if p \<in> set ps then old @ take n (rows' p) else old)" for p
    using assms by auto
  then show ?thesis by (simp add: grows_def)
qed

lemma extend_planes_Inr:
  assumes "distinct ps"
  shows "extend_planes staged n ps next = Inr next' \<longleftrightarrow>
    (\<forall>p \<in> set ps. next p \<noteq> None \<and> staged p \<noteq> None) \<and>
    next' = (\<lambda>p. if p \<in> set ps then Some (the (next p) @ slice_to n (the (staged p))) else next p)"
  using assms
  by (induction staged n ps "next" rule: extend_planes.induct)
    (auto split: option.splits simp: fun_eq_iff)

lemma gather_planes_Inr:
  "gather_planes next ps = Inr xs \<longleftrightarrow>
     (\<forall>p \<in> set ps. next p \<noteq> None) \<and> xs = map (\<lambda>p. (p, the (next p))) ps"
  by (induction ps arbitrary: xs) (auto split: option.splits)

lemma copy_planes_Inr:
  "copy_planes ps source = Inr xs \<longleftrightarrow>
     (\<forall>p \<in> set ps. map_of source p \<noteq> None) \<and> xs = map (\<lambda>p. (p, the (map_of source p))) ps"
  by (induction ps arbitrary: xs) (auto split: option.splits)

lemma map_of_tabulate:
  "map_of (map (\<lambda>p. (p, f p)) ps) p = (if p \<in> set ps then Some (f p) else None)"
  by (induction ps) auto

lemma dom_planes: "map fst xs = ps \<Longrightarrow> map_of xs p = None \<longleftrightarrow> p \<notin> set ps"
  by (metis list.set_map map_of_eq_None_iff)

section \<open>Invariant\<close>

definition fits :: "'r atomic_owner \<Rightarrow> 'r snapshot \<Rightarrow> bool" where
  "fits s x \<longleftrightarrow> snap_id x < fresh_id s \<and> map fst (snap_planes x) = supported_planes s"

definition origin_ok :: "'r atomic_owner \<Rightarrow> 'r snapshot \<Rightarrow> bool" where
  "origin_ok s x \<longleftrightarrow> fits s x \<and> snap_id x \<le> snap_id (public_snapshot s)
     \<and> (snap_id x = snap_id (public_snapshot s) \<longrightarrow> x = public_snapshot s)"

definition candidate_ok :: "'r atomic_owner \<Rightarrow> 'r private_candidate \<Rightarrow> bool" where
  "candidate_ok s x \<longleftrightarrow> origin_ok s (cand_origin x) \<and> check_request (cand_request x) = Inr ()
     \<and> set (request_planes (cand_request x)) \<subseteq> set (supported_planes s)
     \<and> request_revision (cand_request x) = snap_revision (cand_origin x)
     \<and> (\<forall>(p, rows) \<in> set (cand_staged x). int (length rows) = proposed_rows (cand_request x))"

definition boundary_ok :: "'r atomic_owner \<Rightarrow> 'r prepared_candidate \<Rightarrow> bool" where
  "boundary_ok s x \<longleftrightarrow> origin_ok s (prep_origin x)
     \<and> set (prep_planes x) \<subseteq> set (supported_planes s)
     \<and> (\<forall>next. prep_successor x = Some next \<longrightarrow> fits s next
          \<and> snap_id (prep_origin x) < snap_id next
          \<and> (\<exists>rows n. (\<forall>p \<in> set (prep_planes x). n \<le> length (rows p))
               \<and> grows (prep_planes x) rows n (prep_origin x) next))"

definition owner_inv :: "'r atomic_owner \<Rightarrow> bool" where
  "owner_inv s \<longleftrightarrow> distinct (supported_planes s) \<and> fits s (public_snapshot s)
     \<and> (\<forall>x \<in> set (candidates s). candidate_ok s x) \<and> (\<forall>x \<in> set (boundaries s). boundary_ok s x)"

lemma owner_invD:
  assumes "owner_inv s"
  shows "distinct (supported_planes s)" "fits s (public_snapshot s)"
    "c < length (candidates s) \<Longrightarrow> candidate_ok s (candidates s ! c)"
    "b < length (boundaries s) \<Longrightarrow> boundary_ok s (boundaries s ! b)"
  using assms by (auto simp: owner_inv_def)

lemma distinct_filter_subset: "distinct (filter (\<lambda>p. p \<in> A) STATE_PLANES)"
  by (simp add: STATE_PLANES_def)

lemma check_request_distinct:
  assumes "check_request r = Inr ()"
  shows "distinct (request_planes r)"
proof -
  have "filter (\<lambda>p. p \<in> set (request_planes r)) STATE_PLANES = request_planes r"
    using assms unfolding check_request_def raise_if.simps by (metis Inl_Inr_False)
  then show ?thesis using distinct_filter_subset[of "set (request_planes r)"] by simp
qed

text \<open>A state in which only the public snapshot moved forward, or nothing visible moved.\<close>

definition forward :: "'r atomic_owner \<Rightarrow> 'r atomic_owner \<Rightarrow> bool" where
  "forward s t \<longleftrightarrow> supported_planes t = supported_planes s \<and> fresh_id s \<le> fresh_id t
     \<and> (public_snapshot t = public_snapshot s
        \<or> snap_id (public_snapshot s) < snap_id (public_snapshot t))"

lemma forward_fits: "forward s t \<Longrightarrow> fits s x \<Longrightarrow> fits t x"
  by (simp add: forward_def fits_def)

lemma forward_origin:
  assumes "forward s t" and "origin_ok s x"
  shows "origin_ok t x"
proof (cases "public_snapshot t = public_snapshot s")
  case True
  then show ?thesis using assms forward_fits[OF assms(1), of x] by (simp add: origin_ok_def)
next
  case False
  then have "snap_id (public_snapshot s) < snap_id (public_snapshot t)"
    using assms(1) by (simp add: forward_def)
  then show ?thesis using assms forward_fits[OF assms(1), of x] by (auto simp: origin_ok_def)
qed

lemma forward_candidate: "forward s t \<Longrightarrow> candidate_ok s x \<Longrightarrow> candidate_ok t x"
  using forward_origin[of s t "cand_origin x"] by (simp add: candidate_ok_def forward_def)

lemma forward_boundary: "forward s t \<Longrightarrow> boundary_ok s x \<Longrightarrow> boundary_ok t x"
  using forward_origin[of s t "prep_origin x"] forward_fits[of s t]
  by (simp add: boundary_ok_def forward_def)

lemma forward_inv:
  assumes "owner_inv s" and "forward s t" and "fits t (public_snapshot t)"
    and "\<forall>x \<in> set (candidates t). x \<in> set (candidates s) \<or> candidate_ok t x"
    and "\<forall>x \<in> set (boundaries t). x \<in> set (boundaries s) \<or> boundary_ok t x"
  shows "owner_inv t"
proof -
  have "distinct (supported_planes t)" using assms(1,2) by (simp add: owner_inv_def forward_def)
  moreover have "\<forall>x \<in> set (candidates t). candidate_ok t x"
    using assms(1,4) forward_candidate[OF assms(2)] unfolding owner_inv_def by blast
  moreover have "\<forall>x \<in> set (boundaries t). boundary_ok t x"
    using assms(1,5) forward_boundary[OF assms(2)] unfolding owner_inv_def by blast
  ultimately show ?thesis using assms(3) by (simp add: owner_inv_def)
qed

lemma set_update_cases: "x \<in> set (xs[i := y]) \<Longrightarrow> x \<in> set xs \<or> x = y"
  using set_update_subset_insert[of xs i y] by blast

lemma candidates_put [simp]:
  "candidates (put_candidate c x s) = (candidates s)[c := x]"
  "public_snapshot (put_candidate c x s) = public_snapshot s"
  "supported_planes (put_candidate c x s) = supported_planes s"
  "fresh_id (put_candidate c x s) = fresh_id s" "boundaries (put_candidate c x s) = boundaries s"
  by (simp_all add: put_candidate_def)

lemma boundaries_put [simp]:
  "boundaries (put_boundary b y s) = (boundaries s)[b := y]"
  "public_snapshot (put_boundary b y s) = public_snapshot s"
  "supported_planes (put_boundary b y s) = supported_planes s"
  "fresh_id (put_boundary b y s) = fresh_id s" "candidates (put_boundary b y s) = candidates s"
  by (simp_all add: put_boundary_def)

lemma get_candidate_Inr [simp]: "get_candidate c s = Inr x \<longleftrightarrow> c < length (candidates s) \<and> x = candidates s ! c"
  by (auto simp: get_candidate_def)

lemma get_boundary_Inr [simp]: "get_boundary b s = Inr x \<longleftrightarrow> b < length (boundaries s) \<and> x = boundaries s ! b"
  by (auto simp: get_boundary_def)

text \<open>Changing a candidate or closing a boundary moves nothing that is visible.\<close>

lemma put_candidate_inv:
  assumes "owner_inv s" and "candidate_ok s x"
  shows "owner_inv (put_candidate c x s)"
proof (rule forward_inv[OF assms(1)])
  show f: "forward s (put_candidate c x s)" by (simp add: forward_def)
  show "\<forall>y \<in> set (candidates (put_candidate c x s)). y \<in> set (candidates s) \<or> candidate_ok (put_candidate c x s) y"
    using forward_candidate[OF f assms(2)] set_update_cases by (fastforce simp: put_candidate_def)
qed (use owner_invD(2)[OF assms(1)] in \<open>simp_all add: fits_def\<close>)

lemma put_boundary_inv:
  assumes "owner_inv s" and "boundary_ok s x"
  shows "owner_inv (put_boundary b x s)"
proof (rule forward_inv[OF assms(1)])
  show f: "forward s (put_boundary b x s)" by (simp add: forward_def)
  show "\<forall>y \<in> set (boundaries (put_boundary b x s)). y \<in> set (boundaries s) \<or> boundary_ok (put_boundary b x s) y"
    using forward_boundary[OF f assms(2)] set_update_cases by (fastforce simp: put_boundary_def)
qed (use owner_invD(2)[OF assms(1)] in \<open>simp_all add: fits_def\<close>)

lemma close_boundary_inv:
  assumes "owner_inv s" and "b < length (boundaries s)"
  shows "owner_inv (put_boundary b ((boundaries s ! b)\<lparr>prep_successor := None\<rparr>) s)"
  using put_boundary_inv[OF assms(1)] owner_invD(4)[OF assms] by (simp add: boundary_ok_def)

section \<open>Contracts of the methods\<close>

lemma replace_reference_contract:
  assumes inv: "owner_inv s"
  shows "atomic_res s (replace_reference r state s) (\<lambda>x t. owner_inv t
     \<and> public_snapshot t = x \<and> snap_id (public_snapshot s) < snap_id x \<and> snap_revision x = r
     \<and> boundaries t = boundaries s)"
  unfolding replace_reference_def Let_def
proof (intro atomic_lift atomic_return conjI, goal_cases)
  case (1 u planes)
  show ?case
    by (rule forward_inv[OF inv])
      (use owner_invD(2)[OF inv] 1 in \<open>auto simp: forward_def fits_def copy_planes_Inr comp_def\<close>)
qed (use owner_invD(2)[OF inv] in \<open>auto simp: fits_def\<close>)

lemma begin_contract:
  assumes inv: "owner_inv s" and rq: "check_request r = Inr ()"
  shows "atomic_res s (begin_candidate r s) (\<lambda>c t. owner_inv t \<and> public_snapshot t = public_snapshot s
     \<and> c = length (candidates s) \<and> boundaries t = boundaries s \<and> snap_revision (public_snapshot s) = request_revision r)"
  unfolding begin_candidate_def
proof (intro atomic_if atomic_raise atomic_return conjI, goal_cases)
  case 1
  show ?case
    by (rule forward_inv[OF inv])
      (use owner_invD(2)[OF inv] rq 1 in
        \<open>auto simp: forward_def candidate_ok_def origin_ok_def fits_def\<close>)
qed auto

lemma stage_contract:
  assumes inv: "owner_inv s"
  shows "atomic_res s (stage c plane rows s) (\<lambda>_ t. owner_inv t \<and> public_snapshot t = public_snapshot s
     \<and> boundaries t = boundaries s)"
  unfolding stage_def
proof (intro atomic_lift atomic_if atomic_raise atomic_return conjI, goal_cases)
  case (1 x)
  then have "candidate_ok s x" using owner_invD(3)[OF inv] by simp
  then show ?case
    by (intro put_candidate_inv[OF inv]) (use 1 in \<open>auto simp: candidate_ok_def\<close>)
qed auto

lemma rollback_candidate_contract:
  assumes inv: "owner_inv s"
  shows "atomic_res s (rollback_candidate c s) (\<lambda>_ t. owner_inv t \<and> public_snapshot t = public_snapshot s
     \<and> boundaries t = boundaries s)"
  unfolding rollback_candidate_def
proof (intro atomic_lift atomic_return conjI, goal_cases)
  case (1 x)
  then have "candidate_ok s x" using owner_invD(3)[OF inv] by simp
  then show ?case by (intro put_candidate_inv[OF inv]) (auto simp: candidate_ok_def)
qed auto

lemma rollback_boundary_contract:
  assumes inv: "owner_inv s"
  shows "atomic_res s (rollback_boundary b s) (\<lambda>_ t. owner_inv t \<and> public_snapshot t = public_snapshot s
     \<and> t = put_boundary b ((boundaries s ! b)\<lparr>prep_successor := None\<rparr>) s)"
  unfolding rollback_boundary_def
  by (intro atomic_lift atomic_return) (use close_boundary_inv[OF inv] in auto)

text \<open>The snapshot \<open>prepare\<close> builds grows every requested plane by the accepted prefix.\<close>

lemma successor_planes_grow:
  assumes x: "candidate_ok s x" and s: "distinct (supported_planes s)"
    and planes: "successor_planes x n (supported_planes s) = Inr planes"
    and n: "0 \<le> n" "n \<le> proposed_rows (cand_request x)"
  shows "map fst planes = supported_planes s"
    and "grows (request_planes (cand_request x)) (\<lambda>p. the (map_of (cand_staged x) p)) (nat n) (cand_origin x)
      \<lparr>snap_id = i, snap_revision = request_revision (cand_request x),
       snap_generation = snap_generation (cand_origin x) + 1, snap_planes = planes\<rparr>"
    and "\<forall>p \<in> set (request_planes (cand_request x)). nat n \<le> length (the (map_of (cand_staged x) p))"
proof -
  let ?o = "map_of (snap_planes (cand_origin x))"
  have o: "map fst (snap_planes (cand_origin x)) = supported_planes s"
    using x by (simp add: candidate_ok_def origin_ok_def fits_def)
  have d: "distinct (request_planes (cand_request x))"
    using x check_request_distinct by (simp add: candidate_ok_def)
  have staged: "\<forall>p \<in> set (request_planes (cand_request x)). map_of (cand_staged x) p \<noteq> None"
    and planes: "planes = map (\<lambda>p. (p, the (if p \<in> set (request_planes (cand_request x))
        then Some (the (?o p) @ slice_to n (the (map_of (cand_staged x) p))) else ?o p))) (supported_planes s)"
    using planes by (auto simp: successor_planes_def extend_planes_Inr[OF d] gather_planes_Inr)
  show 1: "map fst planes = supported_planes s" by (simp add: planes comp_def)
  show "grows (request_planes (cand_request x)) (\<lambda>p. the (map_of (cand_staged x) p)) (nat n) (cand_origin x)
      \<lparr>snap_id = i, snap_revision = request_revision (cand_request x),
       snap_generation = snap_generation (cand_origin x) + 1, snap_planes = planes\<rparr>"
    unfolding grows_def
  proof (intro conjI allI)
    fix p
    show "map_of (snap_planes \<lparr>snap_id = i, snap_revision = request_revision (cand_request x),
         snap_generation = snap_generation (cand_origin x) + 1, snap_planes = planes\<rparr>) p
      = map_option (\<lambda>old. if p \<in> set (request_planes (cand_request x))
          then old @ take (nat n) (the (map_of (cand_staged x) p)) else old) (?o p)"
      using dom_planes[OF o, of p] n x
      by (cases "?o p") (auto simp: planes map_of_tabulate candidate_ok_def)
  qed (use x 1 o in \<open>simp_all add: candidate_ok_def\<close>)
  show "\<forall>p \<in> set (request_planes (cand_request x)). nat n \<le> length (the (map_of (cand_staged x) p))"
    using x staged n by (fastforce simp: candidate_ok_def dest: map_of_SomeD)
qed

lemma prepare_contract_owner:
  assumes inv: "owner_inv s"
  shows "atomic_res s (prepare_candidate c n s) (\<lambda>b t. owner_inv t \<and> public_snapshot t = public_snapshot s
     \<and> b = length (boundaries s) \<and> take b (boundaries t) = boundaries s \<and> 0 \<le> n
     \<and> (\<exists>next. b < length (boundaries t) \<and> prep_successor (boundaries t ! b) = Some next
          \<and> grows (prep_planes (boundaries t ! b)) (\<lambda>p. the (map_of (cand_staged (candidates s ! c)) p)) (nat n)
              (prep_origin (boundaries t ! b)) next))"
  unfolding prepare_candidate_def Let_def
proof (intro atomic_lift atomic_if atomic_raise atomic_return, goal_cases)
  case (1 x planes)
  have x: "candidate_ok s x" using 1 owner_invD(3)[OF inv] by simp
  have n: "0 \<le> n" "n \<le> proposed_rows (cand_request x)" using 1 by auto
  note grow = successor_planes_grow[OF x owner_invD(1)[OF inv] 1(5) n]
  let ?x = "x\<lparr>cand_closed := True, cand_staged := []\<rparr>"
  let ?next = "\<lparr>snap_id = fresh_id s, snap_revision = request_revision (cand_request x),
       snap_generation = snap_generation (cand_origin x) + 1, snap_planes = planes\<rparr>"
  let ?b = "\<lparr>prep_planes = request_planes (cand_request x), prep_revision = request_revision (cand_request x),
       prep_origin = cand_origin x, prep_successor = Some ?next\<rparr>"
  let ?s = "put_candidate c ?x s"
  let ?t = "?s\<lparr>fresh_id := fresh_id s + 1, boundaries := boundaries s @ [?b]\<rparr>"
  have s: "owner_inv ?s" by (rule put_candidate_inv[OF inv]) (use x in \<open>simp add: candidate_ok_def\<close>)
  have f: "forward s ?t" by (simp add: forward_def)
  have "owner_inv ?t"
  proof (rule forward_inv[OF s])
    show "forward ?s ?t" by (simp add: forward_def)
    have "boundary_ok ?t ?b"
      using forward_origin[OF f, of "cand_origin x"] x grow
      unfolding boundary_ok_def
      by (auto simp: candidate_ok_def fits_def origin_ok_def
          intro!: exI[of _ "\<lambda>p. the (map_of (cand_staged x) p)"] exI[of _ "nat n"])
    then show "\<forall>y \<in> set (boundaries ?t). y \<in> set (boundaries ?s) \<or> boundary_ok ?t y" by auto
  qed (use owner_invD(2)[OF inv] in \<open>simp_all add: fits_def\<close>)
  moreover have "x = candidates s ! c" using 1 by simp
  ultimately show ?case using grow n by auto
qed

lemma publish_contract:
  assumes inv: "owner_inv s"
  shows "atomic_res s (publish b s) (\<lambda>_ t. owner_inv t \<and> b < length (boundaries s)
     \<and> prep_origin (boundaries s ! b) = public_snapshot s
     \<and> prep_successor (boundaries s ! b) = Some (public_snapshot t)
     \<and> snap_id (public_snapshot s) < snap_id (public_snapshot t)
     \<and> boundaries t = (boundaries s)[b := (boundaries s ! b)\<lparr>prep_successor := None\<rparr>])"
  unfolding publish_def
proof (intro atomic_lift, goal_cases)
  case (1 x)
  then have x: "boundary_ok s x" "x = boundaries s ! b" "b < length (boundaries s)"
    using owner_invD(4)[OF inv] by auto
  show ?case
  proof (cases "prep_successor x")
    case None
    then show ?thesis by (simp add: atomic_raise)
  next
    case (Some y)
    let ?s = "s\<lparr>public_snapshot := y\<rparr>"
    have inv': "owner_inv (put_boundary b (x\<lparr>prep_successor := None\<rparr>) ?s)"
      if "snap_id (public_snapshot s) = snap_id (prep_origin x)"
    proof -
      have "owner_inv ?s"
        by (rule forward_inv[OF inv])
          (use x Some that in \<open>auto simp: forward_def boundary_ok_def fits_def\<close>)
      then show ?thesis using close_boundary_inv[of ?s b] x by simp
    qed
    have o: "origin_ok s (prep_origin x)" "snap_id (prep_origin x) < snap_id y"
      using x(1) Some by (auto simp: boundary_ok_def)
    show ?thesis
      unfolding Some option.case
    proof (intro atomic_if atomic_raise atomic_return conjI, goal_cases)
      case 3
      then show ?case using o(1) x(2) by (auto simp: origin_ok_def)
    qed (use inv' o x Some in simp_all)
  qed
qed

section \<open>The machine and the interface\<close>

lemma new_owner_inv:
  assumes "new_owner r initial supported enabled = Inr s"
  shows "owner_inv s"
proof -
  obtain planes where c: "copy_planes supported initial = Inr planes"
    and sup: "filter (\<lambda>p. p \<in> set supported) STATE_PLANES = supported"
    and s: "s = \<lparr>supported_planes = supported, owner_enabled = enabled,
      public_snapshot = \<lparr>snap_id = 0, snap_revision = r, snap_generation = 0, snap_planes = planes\<rparr>,
      fresh_id = 1, candidates = [], boundaries = []\<rparr>"
    using assms by (auto simp: new_owner_def split: if_splits)
  have "distinct supported" using distinct_filter_subset[of "set supported"] sup by simp
  moreover have "map fst planes = supported" using c by (simp add: copy_planes_Inr comp_def)
  ultimately show ?thesis by (simp add: s owner_inv_def fits_def)
qed

text \<open>What every call keeps besides the invariant.\<close>

definition advances :: "'r atomic_owner \<Rightarrow> 'r atomic_owner \<Rightarrow> bool" where
  "advances s t \<longleftrightarrow> owner_inv t \<and> snap_id (public_snapshot s) \<le> snap_id (public_snapshot t)
     \<and> length (boundaries s) \<le> length (boundaries t)
     \<and> (\<forall>b < length (boundaries s). prep_origin (boundaries t ! b) = prep_origin (boundaries s ! b))"

lemma advances_same: "owner_inv s \<Longrightarrow> advances s s"
  by (simp add: advances_def)

lemma atomic_advances:
  assumes "atomic_res s r Q" and "owner_inv s" and "\<And>x t. Q x t \<Longrightarrow> advances s t"
  shows "advances s (snd r)"
  using assms advances_same by (auto simp: atomic_res_def split: sum.splits)

lemma owner_step_advances:
  assumes inv: "owner_inv s"
  shows "advances s (snd (owner_step c s))"
proof (cases c)
  case (ReplaceCall r state)
  show ?thesis
    unfolding ReplaceCall owner_step.simps snd_no_value
    by (rule atomic_advances[OF replace_reference_contract[OF inv] inv]) (auto simp: advances_def)
next
  case (BeginCall r)
  show ?thesis
  proof (cases "check_request r")
    case (Inl e)
    then show ?thesis using BeginCall advances_same[OF inv] by simp
  next
    case (Inr u)
    then have "advances s (snd (begin_candidate r s))"
      by (intro atomic_advances[OF begin_contract[OF inv] inv]) (auto simp: advances_def)
    then show ?thesis using BeginCall Inr by simp
  qed
next
  case (StageCall x plane rows)
  show ?thesis
    unfolding StageCall owner_step.simps
    by (rule atomic_advances[OF stage_contract[OF inv] inv]) (auto simp: advances_def)
next
  case (PrepareCall x n)
  have "prep_origin (bs ! b) = prep_origin (as ! b)"
    if "take (length as) bs = as" "b < length as" for as bs :: "'a prepared_candidate list" and b
    using that by (metis nth_take)
  then show ?thesis
    unfolding PrepareCall owner_step.simps snd_no_value
    by (intro atomic_advances[OF prepare_contract_owner[OF inv] inv]) (auto simp: advances_def)
next
  case (RollbackCall x)
  show ?thesis
    unfolding RollbackCall owner_step.simps
    by (rule atomic_advances[OF rollback_candidate_contract[OF inv] inv]) (auto simp: advances_def)
next
  case (PublishCall b)
  show ?thesis
    unfolding PublishCall owner_step.simps
    by (rule atomic_advances[OF publish_contract[OF inv] inv]) (auto simp: advances_def nth_list_update_if)
next
  case (RollbackBoundaryCall b)
  show ?thesis
    unfolding RollbackBoundaryCall owner_step.simps
    by (rule atomic_advances[OF rollback_boundary_contract[OF inv] inv])
      (auto simp: advances_def nth_list_update_if)
qed

interpretation owner_machine: stateful_component owner_start owner_step owner_inv
proof unfold_locales
  show "owner_start s \<Longrightarrow> owner_inv s" for s :: "'r atomic_owner"
    using new_owner_inv by (auto simp: owner_start_def)
  show "owner_inv s \<Longrightarrow> owner_inv (snd (owner_step c s))" for c and s :: "'r atomic_owner"
    using owner_step_advances[of s c] by (simp add: advances_def)
qed

lemma methods_simps [simp]:
  "ops_begin owner_methods = begin_candidate" "ops_prepare owner_methods = prepare_candidate"
  "ops_discard owner_methods = rollback_candidate" "ops_publish owner_methods = publish"
  "ops_rollback owner_methods = rollback_boundary"
  "ops_planes owner_methods b s = prep_planes (boundaries s ! b)"
  "ops_revision owner_methods b s = prep_revision (boundaries s ! b)"
  by (simp_all add: owner_methods_def)

lemma atomic_visible:
  assumes "atomic_res s r Q" and "owner_inv s \<and> public_snapshot s = v"
    and "\<And>x t. Q x t \<Longrightarrow> owner_inv t \<and> public_snapshot t = public_snapshot s"
  shows "owner_inv (snd r) \<and> public_snapshot (snd r) = v"
  using assms by (auto simp: atomic_res_def split: sum.splits)

interpretation request_owner:
  atomic_request_owner owner_methods "\<lambda>v s. owner_inv s \<and> public_snapshot s = v"
proof unfold_locales
  fix s t :: "'r atomic_owner" and v and r :: candidate_request and c p :: nat and n e
  assume v: "owner_inv s \<and> public_snapshot s = v"
  note inv = conjunct1[OF v]
  show "owner_inv (snd (ops_begin owner_methods r s)) \<and> public_snapshot (snd (ops_begin owner_methods r s)) = v"
    if "check_request r = Inr ()"
    using atomic_visible[OF begin_contract[OF inv that] v] by simp
  show "owner_inv (snd (ops_prepare owner_methods c n s)) \<and> public_snapshot (snd (ops_prepare owner_methods c n s)) = v"
    using atomic_visible[OF prepare_contract_owner[OF inv] v] by simp
  show "owner_inv (snd (ops_discard owner_methods c s)) \<and> public_snapshot (snd (ops_discard owner_methods c s)) = v"
    using atomic_visible[OF rollback_candidate_contract[OF inv] v] by simp
  show "owner_inv (snd (ops_rollback owner_methods p s)) \<and> public_snapshot (snd (ops_rollback owner_methods p s)) = v"
    using atomic_visible[OF rollback_boundary_contract[OF inv] v] by simp
  show "owner_inv t \<and> public_snapshot t = v" if "ops_publish owner_methods p s = (Inl e, t)"
    using atomic_failD[OF publish_contract[OF inv], of p e t] that v by auto
qed

section \<open>Where published rows come from\<close>

text \<open>
  In the run of \<open>cs\<close> from \<open>s0\<close> the call \<open>k\<close> was made in \<open>u\<close> and did not raise.
\<close>

definition happened :: "'r owner_call list \<Rightarrow> 'r atomic_owner \<Rightarrow> 'r owner_call \<Rightarrow> 'r atomic_owner \<Rightarrow> bool" where
  "happened cs s0 k u \<longleftrightarrow> (\<exists>before after t. cs = before @ k # after \<and> u = run_calls owner_step before s0 \<and> owner_step k u = (Inr (), t))"

lemma happened_snoc:
  "happened (cs @ [k]) s0 k' u \<longleftrightarrow> happened cs s0 k' u \<or> k' = k \<and> u = run_calls owner_step cs s0 \<and> (\<exists>t. owner_step k u = (Inr (), t))"
proof
  assume "happened (cs @ [k]) s0 k' u"
  then obtain before after t where h: "cs @ [k] = before @ k' # after" "u = run_calls owner_step before s0" "owner_step k' u = (Inr (), t)"
    unfolding happened_def by blast
  then show "happened cs s0 k' u \<or> k' = k \<and> u = run_calls owner_step cs s0 \<and> (\<exists>t. owner_step k u = (Inr (), t))"
    by (cases after rule: rev_cases) (auto simp: happened_def)
next
  assume "happened cs s0 k' u \<or> k' = k \<and> u = run_calls owner_step cs s0 \<and> (\<exists>t. owner_step k u = (Inr (), t))"
  then show "happened (cs @ [k]) s0 k' u" unfolding happened_def by (metis append.assoc append_Cons)
qed

lemma not_happened_nil: "\<not> happened [] s0 k u"
  by (simp add: happened_def)

text \<open>
  \<open>drawn H r c n b rows a next\<close>: in the history \<open>H\<close> the candidate \<open>c\<close> was begun for \<open>r\<close> from the
  snapshot \<open>a\<close>, \<open>rows p\<close> is all that was ever staged on it for a requested plane \<open>p\<close>, and it was prepared
  with \<open>n\<close> accepted rows as the boundary \<open>b\<close>, whose successor \<open>next\<close> grows \<open>a\<close> by just those.
\<close>

definition drawn :: "('r owner_call \<Rightarrow> 'r atomic_owner \<Rightarrow> bool) \<Rightarrow> candidate_request \<Rightarrow> nat \<Rightarrow> int \<Rightarrow> nat \<Rightarrow> (string \<Rightarrow> 'r list)
    \<Rightarrow> 'r snapshot \<Rightarrow> 'r snapshot \<Rightarrow> bool" where
  "drawn H r c n b rows a next \<longleftrightarrow>
     (\<exists>u. H (BeginCall r) u \<and> c = length (candidates u) \<and> a = public_snapshot u)
     \<and> (\<exists>v. H (PrepareCall c n) v \<and> b = length (boundaries v)) \<and> 0 \<le> n \<and> n \<le> proposed_rows r
     \<and> (\<forall>p \<in> set (request_planes r). int (length (rows p)) = proposed_rows r
          \<and> (\<forall>rows'. (\<exists>w. H (StageCall c p rows') w) \<longleftrightarrow> rows' = rows p))
     \<and> grows (request_planes r) rows (nat n) a next"

definition boundary_drawn :: "('r owner_call \<Rightarrow> 'r atomic_owner \<Rightarrow> bool) \<Rightarrow> 'r atomic_owner \<Rightarrow> nat \<Rightarrow> 'r snapshot \<Rightarrow> bool" where
  "boundary_drawn H s b next \<longleftrightarrow> (\<exists>r c n rows. c < length (candidates s) \<and> cand_closed (candidates s ! c)
     \<and> prep_planes (boundaries s ! b) = request_planes r \<and> drawn H r c n b rows (prep_origin (boundaries s ! b)) next)"

definition traced :: "('r owner_call \<Rightarrow> 'r atomic_owner \<Rightarrow> bool) \<Rightarrow> 'r atomic_owner \<Rightarrow> bool" where
  "traced H s \<longleftrightarrow>
     (\<forall>c < length (candidates s). \<exists>u. H (BeginCall (cand_request (candidates s ! c))) u \<and> c = length (candidates u)
        \<and> cand_origin (candidates s ! c) = public_snapshot u)
   \<and> (\<forall>c p rows w. H (StageCall c p rows) w \<longrightarrow> c < length (candidates s)
        \<and> (\<not> cand_closed (candidates s ! c) \<longrightarrow> map_of (cand_staged (candidates s ! c)) p = Some rows))
   \<and> (\<forall>c < length (candidates s). \<forall>p rows. map_of (cand_staged (candidates s ! c)) p = Some rows \<longrightarrow> (\<exists>w. H (StageCall c p rows) w))
   \<and> (\<forall>b < length (boundaries s). \<forall>next. prep_successor (boundaries s ! b) = Some next \<longrightarrow> boundary_drawn H s b next)"

text \<open>A history may grow; only a staging call on an open candidate changes what was staged.\<close>

lemma drawn_grow:
  assumes "drawn H r c n b rows a next" and "\<And>k u. H k u \<Longrightarrow> H' k u"
    and "\<And>p rows w. H' (StageCall c p rows) w \<Longrightarrow> H (StageCall c p rows) w"
  shows "drawn H' r c n b rows a next"
proof -
  note d = assms(1) [unfolded drawn_def]
  have "(\<exists>w. H' (StageCall c p rows') w) \<longleftrightarrow> (\<exists>w. H (StageCall c p rows') w)" for p rows' using assms(2,3) by blast
  moreover have "\<exists>u. H' (BeginCall r) u \<and> c = length (candidates u) \<and> a = public_snapshot u" using d assms(2) by blast
  moreover have "\<exists>v. H' (PrepareCall c n) v \<and> b = length (boundaries v)" using d assms(2) by blast
  ultimately show ?thesis using d unfolding drawn_def by simp
qed

lemma traced_grow:
  assumes old: "traced H s" and grow: "\<And>k u. H k u \<Longrightarrow> H' k u"
    and kept: "\<And>c. c < length (candidates s) \<Longrightarrow> c < length (candidates t) \<and> cand_request (candidates t ! c) = cand_request (candidates s ! c)
        \<and> cand_origin (candidates t ! c) = cand_origin (candidates s ! c) \<and> (cand_closed (candidates s ! c) \<longrightarrow> cand_closed (candidates t ! c))"
    and fresh: "\<And>c. length (candidates s) \<le> c \<Longrightarrow> c < length (candidates t) \<Longrightarrow>
        (\<exists>u. H' (BeginCall (cand_request (candidates t ! c))) u \<and> c = length (candidates u) \<and> cand_origin (candidates t ! c) = public_snapshot u)"
    and closed: "\<And>c p rows w. c < length (candidates s) \<Longrightarrow> cand_closed (candidates s ! c) \<Longrightarrow> H' (StageCall c p rows) w \<Longrightarrow> H (StageCall c p rows) w"
    and staged: "\<And>c p rows w. H' (StageCall c p rows) w \<Longrightarrow> c < length (candidates t)
        \<and> (\<not> cand_closed (candidates t ! c) \<longrightarrow> map_of (cand_staged (candidates t ! c)) p = Some rows)"
    and source: "\<And>c p rows. c < length (candidates t) \<Longrightarrow> map_of (cand_staged (candidates t ! c)) p = Some rows \<Longrightarrow> \<exists>w. H' (StageCall c p rows) w"
    and bound: "\<And>b next. b < length (boundaries t) \<Longrightarrow> prep_successor (boundaries t ! b) = Some next \<Longrightarrow>
        b < length (boundaries s) \<and> boundaries t ! b = boundaries s ! b \<or> boundary_drawn H' t b next"
  shows "traced H' t"
  unfolding traced_def
proof (intro conjI allI impI)
  fix c assume c: "c < length (candidates t)"
  show "\<exists>u. H' (BeginCall (cand_request (candidates t ! c))) u \<and> c = length (candidates u) \<and> cand_origin (candidates t ! c) = public_snapshot u"
  proof (cases "c < length (candidates s)")
    case True
    then obtain u where "H (BeginCall (cand_request (candidates s ! c))) u" "c = length (candidates u)" "cand_origin (candidates s ! c) = public_snapshot u"
      using old unfolding traced_def by blast
    then show ?thesis using kept [OF True] grow by auto
  qed (use fresh c in auto)
next
  fix b "next" assume b: "b < length (boundaries t)" "prep_successor (boundaries t ! b) = Some next"
  from bound [OF this] show "boundary_drawn H' t b next"
  proof
    assume same: "b < length (boundaries s) \<and> boundaries t ! b = boundaries s ! b"
    then have "boundary_drawn H s b next" using old b(2) unfolding traced_def by metis
    then obtain r c n rows where d: "c < length (candidates s)" "cand_closed (candidates s ! c)" "prep_planes (boundaries s ! b) = request_planes r"
      "drawn H r c n b rows (prep_origin (boundaries s ! b)) next" unfolding boundary_drawn_def by blast
    have "drawn H' r c n b rows (prep_origin (boundaries s ! b)) next" by (rule drawn_grow [OF d(4) grow closed [OF d(1,2)]])
    then show ?thesis using d kept [OF d(1)] same unfolding boundary_drawn_def by metis
  qed
qed (use staged source in blast)+

lemma tracedD:
  assumes "traced H s"
  shows "c < length (candidates s) \<Longrightarrow> \<exists>u. H (BeginCall (cand_request (candidates s ! c))) u \<and> c = length (candidates u) \<and> cand_origin (candidates s ! c) = public_snapshot u"
    and "H (StageCall c p rows) w \<Longrightarrow> c < length (candidates s)"
    and "H (StageCall c p rows) w \<Longrightarrow> \<not> cand_closed (candidates s ! c) \<Longrightarrow> map_of (cand_staged (candidates s ! c)) p = Some rows"
    and "c < length (candidates s) \<Longrightarrow> map_of (cand_staged (candidates s ! c)) p = Some rows \<Longrightarrow> \<exists>w. H (StageCall c p rows) w"
    and "b < length (boundaries s) \<Longrightarrow> prep_successor (boundaries s ! b) = Some next \<Longrightarrow> boundary_drawn H s b next"
  using assms unfolding traced_def by blast+

text \<open>Calls that leave the candidates alone and prepare nothing.\<close>

lemma traced_same:
  assumes "traced H s" and "\<And>k u. H k u \<Longrightarrow> H' k u" and "\<And>c p rows w. H' (StageCall c p rows) w \<Longrightarrow> H (StageCall c p rows) w"
    and "candidates t = candidates s"
    and "\<And>b next. b < length (boundaries t) \<Longrightarrow> prep_successor (boundaries t ! b) = Some next \<Longrightarrow>
        b < length (boundaries s) \<and> boundaries t ! b = boundaries s ! b"
  shows "traced H' t"
proof (rule traced_grow [OF assms(1,2)])
  show "b < length (boundaries s) \<and> boundaries t ! b = boundaries s ! b \<or> boundary_drawn H' t b next"
    if "b < length (boundaries t)" "prep_successor (boundaries t ! b) = Some next" for b "next"
    using assms(5) [OF that] by blast
  show "c < length (candidates t) \<and> (\<not> cand_closed (candidates t ! c) \<longrightarrow> map_of (cand_staged (candidates t ! c)) p = Some rows)"
    if "H' (StageCall c p rows) w" for c p rows w
    using assms(3) [OF that] tracedD(2,3) [OF assms(1)] assms(4) by metis
  show "\<exists>w. H' (StageCall c p rows) w" if "c < length (candidates t)" "map_of (cand_staged (candidates t ! c)) p = Some rows" for c p rows
    using tracedD(4) [OF assms(1)] assms(2,4) that by metis
qed (use assms(3,4) in simp_all)

lemma owner_step_fails: "owner_inv s \<Longrightarrow> owner_step k s = (Inl e, t) \<Longrightarrow> t = s"
proof (cases k)
  case (ReplaceCall r state)
  assume "owner_inv s" "owner_step k s = (Inl e, t)"
  then show ?thesis using atomic_failD[OF replace_reference_contract[of s r state]] ReplaceCall
    by (cases "replace_reference r state s") (auto simp: no_value_def bind_res_def split: sum.splits)
next
  case (BeginCall r)
  assume "owner_inv s" "owner_step k s = (Inl e, t)"
  then show ?thesis using atomic_failD[OF begin_contract[of s r]] BeginCall
    by (cases "begin_candidate r s"; cases "check_request r") (auto simp: no_value_def bind_res_def split: sum.splits)
next
  case (StageCall c p rows)
  assume "owner_inv s" "owner_step k s = (Inl e, t)"
  then show ?thesis using atomic_failD[OF stage_contract[of s c p rows]] StageCall by simp
next
  case (PrepareCall c n)
  assume "owner_inv s" "owner_step k s = (Inl e, t)"
  then show ?thesis using atomic_failD[OF prepare_contract_owner[of s c n]] PrepareCall
    by (cases "prepare_candidate c n s") (auto simp: no_value_def bind_res_def split: sum.splits)
next
  case (RollbackCall c)
  assume "owner_inv s" "owner_step k s = (Inl e, t)"
  then show ?thesis using atomic_failD[OF rollback_candidate_contract[of s c]] RollbackCall by simp
next
  case (PublishCall b)
  assume "owner_inv s" "owner_step k s = (Inl e, t)"
  then show ?thesis using atomic_failD[OF publish_contract[of s b]] PublishCall by simp
next
  case (RollbackBoundaryCall b)
  assume "owner_inv s" "owner_step k s = (Inl e, t)"
  then show ?thesis using atomic_failD[OF rollback_boundary_contract[of s b]] RollbackBoundaryCall by simp
qed

text \<open>One call extends the history.\<close>

definition extends :: "'r owner_call \<Rightarrow> 'r atomic_owner \<Rightarrow> ('r owner_call \<Rightarrow> 'r atomic_owner \<Rightarrow> bool)
    \<Rightarrow> ('r owner_call \<Rightarrow> 'r atomic_owner \<Rightarrow> bool) \<Rightarrow> bool" where
  "extends k s H H' \<longleftrightarrow> (\<forall>k' u. H' k' u \<longleftrightarrow> H k' u \<or> k' = k \<and> u = s)"

lemma extendsD:
  assumes "extends k s H H'"
  shows "H k' u \<Longrightarrow> H' k' u" and "H' k' u \<Longrightarrow> k' \<noteq> k \<Longrightarrow> H k' u" and "H' k s"
    and "H' k' u \<Longrightarrow> H k' u \<or> k' = k \<and> u = s"
  using assms unfolding extends_def by blast+

lemma traced_begin:
  assumes T: "traced H s" and H: "extends (BeginCall r) s H H'" and b: "begin_candidate r s = (Inr c, t)"
  shows "traced H' t"
proof -
  have t: "t = s\<lparr>candidates := candidates s @ [\<lparr>cand_request = r, cand_origin = public_snapshot s, cand_staged = [], cand_closed = False\<rparr>]\<rparr>"
    using b by (auto simp: begin_candidate_def split: if_splits)
  have stages: "H (StageCall c p rows) w" if "H' (StageCall c p rows) w" for c p rows w using extendsD(2)[OF H that] by simp
  show ?thesis
  proof (rule traced_grow[OF T extendsD(1)[OF H]])
    show "\<exists>u. H' (BeginCall (cand_request (candidates t ! c))) u \<and> c = length (candidates u) \<and> cand_origin (candidates t ! c) = public_snapshot u"
      if "length (candidates s) \<le> c" "c < length (candidates t)" for c
    proof -
      have "c = length (candidates s)" using that t by simp
      then show ?thesis using extendsD(3)[OF H] t by auto
    qed
    show "c < length (candidates t) \<and> (\<not> cand_closed (candidates t ! c) \<longrightarrow> map_of (cand_staged (candidates t ! c)) p = Some rows)"
      if "H' (StageCall c p rows) w" for c p rows w
      using tracedD(2,3)[OF T stages[OF that]] t by (simp add: nth_append)
    show "\<exists>w. H' (StageCall c p rows) w" if "c < length (candidates t)" "map_of (cand_staged (candidates t ! c)) p = Some rows" for c p rows
    proof (cases "c < length (candidates s)")
      case True
      then show ?thesis using tracedD(4)[OF T True] that(2) t extendsD(1)[OF H] by (fastforce simp: nth_append)
    next
      case False
      then show ?thesis using that t by (simp add: nth_append)
    qed
  qed (use t stages in \<open>auto simp: nth_append\<close>)
qed

lemma traced_stage:
  assumes T: "traced H s" and H: "extends (StageCall c p rows) s H H'" and st: "stage c p rows s = (Inr (), t)"
  shows "traced H' t"
proof -
  let ?x = "candidates s ! c"
  have x: "c < length (candidates s)" "\<not> cand_closed ?x" "p \<notin> fst ` set (cand_staged ?x)"
    and t: "t = put_candidate c (?x\<lparr>cand_staged := cand_staged ?x @ [(p, rows)]\<rparr>) s"
    using st by (auto simp: stage_def lift_res_Inr_iff split: if_splits)
  have new: "map_of (cand_staged ?x @ [(p, rows)]) q = (if q = p then Some rows else map_of (cand_staged ?x) q)" for q
  proof -
    have "map_of (cand_staged ?x) p = None" using x(3) by (simp add: map_of_eq_None_iff)
    then show ?thesis by (auto simp: map_add_def split: option.split)
  qed
  show ?thesis
  proof (rule traced_grow[OF T extendsD(1)[OF H]])
    show "H (StageCall d q rs) w" if "d < length (candidates s)" "cand_closed (candidates s ! d)" "H' (StageCall d q rs) w" for d q rs w
      using extendsD(4)[OF H that(3)] that(2) x(2) by auto
    show "d < length (candidates t) \<and> (\<not> cand_closed (candidates t ! d) \<longrightarrow> map_of (cand_staged (candidates t ! d)) q = Some rs)"
      if "H' (StageCall d q rs) w" for d q rs w
    proof (cases "H (StageCall d q rs) w")
      case True
      have "d < length (candidates s)" "\<not> cand_closed (candidates s ! d) \<Longrightarrow> map_of (cand_staged (candidates s ! d)) q = Some rs"
        using tracedD(2,3)[OF T True] by auto
      moreover have "q \<noteq> p" if "d = c" "map_of (cand_staged ?x) q = Some rs" using x(3) that(2) by (force dest: map_of_SomeD)
      ultimately show ?thesis using x t new by (cases "d = c") auto
    next
      case False
      then have "d = c" "q = p" "rs = rows" using extendsD(4)[OF H that] by auto
      then show ?thesis using x(1) t new by simp
    qed
    show "\<exists>w. H' (StageCall d q rs) w" if "d < length (candidates t)" "map_of (cand_staged (candidates t ! d)) q = Some rs" for d q rs
    proof (cases "d = c \<and> q = p")
      case True
      then show ?thesis using that t new x(1) extendsD(3)[OF H] by auto
    next
      case False
      then have "map_of (cand_staged (candidates s ! d)) q = Some rs" using that t new x(1) by (cases "d = c") auto
      then show ?thesis using tracedD(4)[OF T] that(1) t extendsD(1)[OF H] by fastforce
    qed
  qed (use x t in \<open>auto simp: nth_list_update\<close>)
qed

text \<open>Closing a candidate forgets its rows, so no open candidate is affected.\<close>

lemma traced_close:
  assumes T: "traced H s" and sub: "\<And>k u. H k u \<Longrightarrow> H' k u" and stages: "\<And>c p rows w. H' (StageCall c p rows) w \<Longrightarrow> H (StageCall c p rows) w"
    and c: "c < length (candidates s)" and t: "candidates t = (candidates s)[c := y]" "cand_request y = cand_request (candidates s ! c)"
      "cand_origin y = cand_origin (candidates s ! c)" "cand_staged y = []" "cand_closed y"
    and bound: "\<And>b next. b < length (boundaries t) \<Longrightarrow> prep_successor (boundaries t ! b) = Some next \<Longrightarrow>
        b < length (boundaries s) \<and> boundaries t ! b = boundaries s ! b \<or> boundary_drawn H' t b next"
  shows "traced H' t"
proof (rule traced_grow[OF T sub _ _ _ _ _ bound])
  show "d < length (candidates t) \<and> (\<not> cand_closed (candidates t ! d) \<longrightarrow> map_of (cand_staged (candidates t ! d)) q = Some rs)"
    if "H' (StageCall d q rs) w" for d q rs w
    using tracedD(2,3)[OF T stages[OF that]] t c by (cases "d = c") auto
  show "\<exists>w. H' (StageCall d q rs) w" if "d < length (candidates t)" "map_of (cand_staged (candidates t ! d)) q = Some rs" for d q rs
    using tracedD(4)[OF T, of d q rs] that t c sub by (cases "d = c") fastforce+
qed (use t stages c in \<open>auto simp: nth_list_update\<close>)

lemma traced_prepare:
  assumes inv: "owner_inv s" and T: "traced H s" and H: "extends (PrepareCall c n) s H H'" and pr: "prepare_candidate c n s = (Inr b, t)"
  shows "traced H' t"
proof -
  let ?x = "candidates s ! c" and ?rows = "\<lambda>p. the (map_of (cand_staged (candidates s ! c)) p)"
  let ?r = "cand_request ?x"
  obtain planes where x: "c < length (candidates s)" "\<not> cand_closed ?x" "0 \<le> n" "n \<le> proposed_rows ?r"
      "fst ` set (cand_staged ?x) = set (request_planes ?r)" "successor_planes ?x n (supported_planes s) = Inr planes"
    and t: "candidates t = (candidates s)[c := ?x\<lparr>cand_closed := True, cand_staged := []\<rparr>]"
      "boundaries t = boundaries s @ [\<lparr>prep_planes = request_planes ?r, prep_revision = request_revision ?r, prep_origin = cand_origin ?x,
         prep_successor = Some \<lparr>snap_id = fresh_id s, snap_revision = request_revision ?r,
           snap_generation = snap_generation (cand_origin ?x) + 1, snap_planes = planes\<rparr>\<rparr>]"
    using pr by (auto simp: prepare_candidate_def Let_def lift_res_Inr_iff split: if_splits)
  note ok = owner_invD(1)[OF inv] owner_invD(3)[OF inv x(1)]
  note grow = successor_planes_grow(2)[OF ok(2,1) x(6,3,4), of "fresh_id s"]
  have stages: "H (StageCall d p rs) w" if "H' (StageCall d p rs) w" for d p rs w using extendsD(2)[OF H that] by simp
  show ?thesis
  proof (rule traced_close[OF T extendsD(1)[OF H] stages x(1) t(1)])
    show "b < length (boundaries s) \<and> boundaries t ! b = boundaries s ! b \<or> boundary_drawn H' t b next"
      if b: "b < length (boundaries t)" "prep_successor (boundaries t ! b) = Some next" for b "next"
    proof (cases "b < length (boundaries s)")
      case True
      then show ?thesis by (simp add: t(2) nth_append)
    next
      case False
      then have b': "b = length (boundaries s)" using b(1) t(2) by simp
      obtain u where u: "H (BeginCall ?r) u" "c = length (candidates u)" "cand_origin ?x = public_snapshot u" using tracedD(1)[OF T x(1)] by blast
      have rows: "int (length (?rows p)) = proposed_rows ?r \<and> (\<forall>rs. (\<exists>w. H' (StageCall c p rs) w) \<longleftrightarrow> rs = ?rows p)"
        if "p \<in> set (request_planes ?r)" for p
      proof -
        have "p \<in> fst ` set (cand_staged ?x)" using that x(5) by simp
        then obtain rs0 where rs0: "map_of (cand_staged ?x) p = Some rs0" by (metis map_of_eq_None_iff not_Some_eq)
        have "int (length rs0) = proposed_rows ?r" using ok(2) map_of_SomeD[OF rs0] by (auto simp: candidate_ok_def)
        moreover have "\<exists>w. H' (StageCall c p rs0) w" using tracedD(4)[OF T x(1) rs0] extendsD(1)[OF H] by blast
        moreover have "rs = rs0" if "H' (StageCall c p rs) w" for rs w using tracedD(3)[OF T stages[OF that] x(2)] rs0 by simp
        ultimately show ?thesis using rs0 by auto
      qed
      have "drawn H' ?r c n b ?rows (cand_origin ?x) next"
        unfolding drawn_def using rows u x(3,4) extendsD(1)[OF H u(1)] extendsD(3)[OF H] b' grow b(2) by (auto simp: t(2) nth_append)
      then show ?thesis using b' t x(1) unfolding boundary_drawn_def by (intro disjI2 exI[of _ ?r] exI[of _ c]) (auto simp: nth_append)
    qed
  qed simp_all
qed

lemma traced_step:
  assumes inv: "owner_inv s" and T: "traced H s" and ok: "owner_step k s = (Inr (), t)" and H: "extends k s H H'"
  shows "traced H' t"
proof (cases k)
  case (ReplaceCall r state)
  have "candidates t = candidates s" "boundaries t = boundaries s"
    using ok unfolding ReplaceCall
    by (auto simp: no_value_def bind_res_Inr_iff replace_reference_def lift_res_Inr_iff Let_def)
  then show ?thesis using extendsD[OF H] ReplaceCall by (intro traced_same[OF T]) auto
next
  case (BeginCall r)
  then obtain c where "begin_candidate r s = (Inr c, t)" using ok by (auto simp: no_value_def bind_res_Inr_iff lift_res_Inr_iff)
  then show ?thesis using traced_begin[OF T] H BeginCall by blast
next
  case (StageCall c p rows)
  then show ?thesis using traced_stage[OF T] H ok by simp
next
  case (PrepareCall c n)
  then obtain b where "prepare_candidate c n s = (Inr b, t)" using ok by (auto simp: no_value_def bind_res_Inr_iff)
  then show ?thesis using traced_prepare[OF inv T] H PrepareCall by blast
next
  case (RollbackCall c)
  then have c: "c < length (candidates s)" "t = put_candidate c ((candidates s ! c)\<lparr>cand_staged := [], cand_closed := True\<rparr>) s"
    using ok by (auto simp: rollback_candidate_def lift_res_Inr_iff)
  show ?thesis
    by (rule traced_close[OF T extendsD(1)[OF H] _ c(1), where y = "(candidates s ! c)\<lparr>cand_staged := [], cand_closed := True\<rparr>"])
      (use c extendsD(2)[OF H] RollbackCall in auto)
next
  case (PublishCall b)
  then have "candidates t = candidates s \<and> boundaries t = (boundaries s)[b := (boundaries s ! b)\<lparr>prep_successor := None\<rparr>]"
    using ok by (auto simp: publish_def lift_res_Inr_iff split: option.splits if_splits)
  then show ?thesis using extendsD[OF H] PublishCall by (intro traced_same[OF T]) (auto simp: nth_list_update_if split: if_splits)
next
  case (RollbackBoundaryCall b)
  then have "candidates t = candidates s \<and> boundaries t = (boundaries s)[b := (boundaries s ! b)\<lparr>prep_successor := None\<rparr>]"
    using ok by (auto simp: rollback_boundary_def lift_res_Inr_iff)
  then show ?thesis using extendsD[OF H] RollbackBoundaryCall by (intro traced_same[OF T]) (auto simp: nth_list_update_if split: if_splits)
qed

lemma start_run_inv: "owner_start s0 \<Longrightarrow> owner_inv (run_calls owner_step cs s0)"
  by (rule owner_machine.inv_run) (auto simp: owner_start_def new_owner_inv)

lemma traced_run:
  assumes "owner_start s0"
  shows "traced (happened cs s0) (run_calls owner_step cs s0)"
proof (induction cs rule: rev_induct)
  case Nil
  have "candidates s0 = [] \<and> boundaries s0 = []"
    using assms by (auto simp: owner_start_def new_owner_def split: if_splits)
  then show ?case by (simp add: traced_def not_happened_nil)
next
  case (snoc k cs)
  let ?s = "run_calls owner_step cs s0"
  have inv: "owner_inv ?s" by (rule start_run_inv[OF assms])
  have run: "run_calls owner_step (cs @ [k]) s0 = snd (owner_step k ?s)" by (simp add: run_calls_append)
  show ?case
  proof (cases "owner_step k ?s")
    case (Pair r t)
    show ?thesis
    proof (cases r)
      case (Inl e)
      then have "t = ?s" using owner_step_fails[OF inv] Pair by blast
      moreover have "happened (cs @ [k]) s0 = happened cs s0" using Pair Inl by (auto simp: happened_snoc fun_eq_iff)
      ultimately show ?thesis using snoc run Pair by simp
    next
      case (Inr v)
      then have "extends k ?s (happened cs s0) (happened (cs @ [k]) s0)"
        using Pair by (auto simp: extends_def happened_snoc)
      then show ?thesis using traced_step[OF inv snoc.IH] run Pair Inr by simp
    qed
  qed
qed

section \<open>Properties of the owner\<close>

text \<open>
  C10: A successful publish replaces the very snapshot its candidate was begun from, and the new
  state is that snapshot with the same number of staged rows appended to every requested plane.
\<close>

theorem publish_is_compare_and_swap:
  assumes "owner_start s0" and "s = run_calls owner_step cs s0" and "publish b s = (Inr (), t)"
  shows "\<exists>r c n rows. prep_planes (boundaries s ! b) = request_planes r \<and> prep_origin (boundaries s ! b) = public_snapshot s
     \<and> (\<exists>u. happened cs s0 (BeginCall r) u \<and> c = length (candidates u) \<and> public_snapshot u = public_snapshot s)
     \<and> (\<exists>v. happened cs s0 (PrepareCall c n) v \<and> b = length (boundaries v)) \<and> 0 \<le> n \<and> n \<le> proposed_rows r
     \<and> (\<forall>p \<in> set (request_planes r). int (length (rows p)) = proposed_rows r
          \<and> (\<forall>rows'. (\<exists>w. happened cs s0 (StageCall c p rows') w) \<longleftrightarrow> rows' = rows p))
     \<and> grows (request_planes r) rows (nat n) (public_snapshot s) (public_snapshot t)"
proof -
  have inv: "owner_inv s" unfolding assms(2) by (rule start_run_inv[OF assms(1)])
  note p = atomic_okD[OF publish_contract[OF inv] assms(3)]
  have "traced (happened cs s0) s" using traced_run[OF assms(1)] assms(2) by simp
  then have "boundary_drawn (happened cs s0) s b (public_snapshot t)" using tracedD(5) p by blast
  then obtain r c n rows where planes: "prep_planes (boundaries s ! b) = request_planes r"
    and d: "drawn (happened cs s0) r c n b rows (public_snapshot s) (public_snapshot t)"
    using p unfolding boundary_drawn_def by metis
  then show ?thesis using p unfolding drawn_def by (intro exI[of _ r] exI[of _ c] exI[of _ n] exI[of _ rows]) metis
qed

text \<open>
  Once a boundary was published, every boundary prepared from the same snapshot, itself
  included, fails to publish for ever and leaves the state alone.
\<close>

theorem published_origin_is_spent:
  assumes s: "reachable owner_start owner_step s" and p: "publish b s = (Inr (), t)"
    and sib: "sibling < length (boundaries s)" "prep_origin (boundaries s ! sibling) = prep_origin (boundaries s ! b)"
  shows "\<exists>e. publish sibling (run_calls owner_step cs t) = (Inl (AtomicOwnerError e), run_calls owner_step cs t)"
proof -
  note inv = owner_machine.inv_reachable[OF s]
  note c = atomic_okD[OF publish_contract[OF inv] p]
  let ?Q = "\<lambda>t. sibling < length (boundaries t) \<and> prep_origin (boundaries t ! sibling) = public_snapshot s
    \<and> snap_id (public_snapshot s) < snap_id (public_snapshot t)"
  have "?Q (run_calls owner_step cs t)"
  proof (rule owner_machine.run_keeps)
    show "owner_inv t" "?Q t" using c sib by (auto simp: nth_list_update_if)
    show "?Q (snd (owner_step k u))" if "owner_inv u" "?Q u" for k u
      using owner_step_advances[OF that(1), of k] that(2) by (auto simp: advances_def)
  qed
  then show ?thesis by (auto simp: publish_def get_boundary_def split: option.splits)
qed

text \<open>The rows a run stages for a plane: the first that have a row for every proposed token.\<close>

definition first_fitting :: "candidate_request \<Rightarrow> (string \<times> 'r list) list \<Rightarrow> string \<Rightarrow> 'r list option" where
  "first_fitting rq calls = map_of (filter (\<lambda>(p, rows). int (length rows) = proposed_rows rq) calls)"

lemma staging_run_seen:
  assumes "owner_inv s \<and> public_snapshot s = v"
  shows "owner_inv (run_calls owner_step (map (\<lambda>(p, rows). StageCall c p rows) calls) s)
     \<and> public_snapshot (run_calls owner_step (map (\<lambda>(p, rows). StageCall c p rows) calls) s) = v"
  using assms
proof (induction calls arbitrary: s)
  case (Cons x calls)
  obtain p rows where x: "x = (p, rows)" by (cases x)
  have "owner_inv (snd (stage c p rows s)) \<and> public_snapshot (snd (stage c p rows s)) = v"
    by (rule atomic_visible[OF stage_contract[OF conjunct1[OF Cons.prems]] Cons.prems]) simp
  from Cons.IH[OF this] show ?case by (simp add: x)
qed simp

lemma staging_run:
  assumes "c < length (candidates s)" and "candidates s ! c = x" and "\<not> cand_closed x"
  shows "\<exists>y. candidates (run_calls owner_step (map (\<lambda>(p, rows). StageCall c p rows) calls) s) ! c = y
     \<and> cand_request y = cand_request x \<and> (\<forall>p \<in> set (request_planes (cand_request x)).
          map_of (cand_staged y) p = (case map_of (cand_staged x) p of None \<Rightarrow> first_fitting (cand_request x) calls p | Some rows \<Rightarrow> Some rows))"
  using assms
proof (induction calls arbitrary: s x)
  case Nil
  then show ?case by (auto simp: first_fitting_def split: option.split)
next
  case (Cons call calls)
  obtain p rows where call: "call = (p, rows)" by (cases call)
  define s1 where "s1 = snd (stage c p rows s)"
  have run: "run_calls owner_step (map (\<lambda>(p, rows). StageCall c p rows) (call # calls)) s
      = run_calls owner_step (map (\<lambda>(p, rows). StageCall c p rows) calls) s1" by (simp add: call s1_def)
  show ?case
  proof (cases "p \<in> set (request_planes (cand_request x)) \<and> p \<notin> fst ` set (cand_staged x) \<and> int (length rows) = proposed_rows (cand_request x)")
    case True
    have none: "map_of (cand_staged x) p = None" using True by (simp add: map_of_eq_None_iff)
    let ?x = "x\<lparr>cand_staged := cand_staged x @ [(p, rows)]\<rparr>"
    have s1: "s1 = put_candidate c ?x s" using True Cons.prems by (simp add: s1_def stage_def get_candidate_def del: get_candidate_Inr)
    have x1: "c < length (candidates s1)" "candidates s1 ! c = ?x" "\<not> cand_closed ?x" using Cons.prems by (simp_all add: s1)
    have "map_of (cand_staged ?x) q = (if q = p then Some rows else map_of (cand_staged x) q)" for q
      using none by (auto simp: map_add_def split: option.split)
    then show ?thesis
      using Cons.IH[OF x1] none True unfolding run by (auto simp: first_fitting_def call split: option.splits)
  next
    case False
    have s1: "s1 = s" using False Cons.prems by (auto simp: s1_def stage_def get_candidate_def simp del: get_candidate_Inr)
    have "map_of (cand_staged x) p \<noteq> None" if "p \<in> set (request_planes (cand_request x))" "int (length rows) = proposed_rows (cand_request x)"
      using False that by (auto simp: map_of_eq_None_iff)
    then show ?thesis
      using Cons.IH[OF Cons.prems] unfolding run s1 by (fastforce simp: first_fitting_def call split: option.splits)
  qed
qed

lemma begun_then_staged:
  assumes "begin_candidate rq s = (Inr c, u)"
  shows "cand_request (candidates (run_calls owner_step (map (\<lambda>(p, rows). StageCall c p rows) calls) u) ! c) = rq"
    and "p \<in> set (request_planes rq) \<Longrightarrow>
      map_of (cand_staged (candidates (run_calls owner_step (map (\<lambda>(p, rows). StageCall c p rows) calls) u) ! c)) p = first_fitting rq calls p"
proof -
  have u: "c < length (candidates u)" "candidates u ! c = \<lparr>cand_request = rq, cand_origin = public_snapshot s, cand_staged = [], cand_closed = False\<rparr>"
    using assms by (auto simp: begin_candidate_def split: if_splits)
  from staging_run[OF this, of calls]
  show "cand_request (candidates (run_calls owner_step (map (\<lambda>(p, rows). StageCall c p rows) calls) u) ! c) = rq"
    "p \<in> set (request_planes rq) \<Longrightarrow>
      map_of (cand_staged (candidates (run_calls owner_step (map (\<lambda>(p, rows). StageCall c p rows) calls) u) ! c)) p = first_fitting rq calls p" by auto
qed

text \<open>
  C9: Running one paged request against the host owner either raises or is refused with the
  public state untouched, or publishes exactly the accepted prefix on every requested plane at
  once and changes no other plane.
\<close>

theorem request_is_all_or_nothing:
  assumes s: "reachable owner_start owner_step s" and rq: "check_request rq = Inr ()"
    and run: "\<And>c s. snd (run c s) = run_calls owner_step (map (\<lambda>(p, rows). StageCall c p rows) (staging c s)) s"
    and cancel: "\<And>s. snd (cancelled s) = s"
  shows "case execute_paged_request owner_methods d rq run permit cancelled s of
      (Inl e, t) \<Rightarrow> public_snapshot t = public_snapshot s
    | (Inr rc, t) \<Rightarrow> if published rc
        then \<exists>c u. begin_candidate rq s = (Inr c, u) \<and> fst (run c u) = Inr (receipt_accepted rc)
          \<and> 0 \<le> receipt_accepted rc \<and> receipt_accepted rc \<le> proposed_rows rq
          \<and> (\<forall>p \<in> set (request_planes rq). first_fitting rq (staging c u) p \<noteq> None)
          \<and> grows (request_planes rq) (\<lambda>p. the (first_fitting rq (staging c u) p)) (nat (receipt_accepted rc))
              (public_snapshot s) (public_snapshot t)
        else receipt_accepted rc = 0 \<and> public_snapshot t = public_snapshot s"
proof -
  let ?seen = "\<lambda>v s. owner_inv s \<and> public_snapshot s = v"
  let ?made = "\<lambda>c n s'. \<exists>u. begin_candidate rq s = (Inr c, u) \<and> run c u = (Inr n, s')"
  let ?r = "execute_paged_request owner_methods d rq run permit cancelled s"
  have inv: "owner_inv s" by (rule owner_machine.inv_reachable[OF s])
  have staging: "?seen v (snd (run c s))" if "?seen v s" for v c s
    using staging_run_seen[OF that] by (simp only: run)
  have "settled ?made ?seen owner_methods rq (public_snapshot s) ?r"
    using request_owner.execute_settled[where run = run and cancelled = cancelled, OF staging cancel _ rq] inv by simp
  moreover have "\<exists>u. begin_candidate rq s = (Inr c, u) \<and> fst (run c u) = Inr n
      \<and> (\<forall>p \<in> set (request_planes rq). first_fitting rq (staging c u) p \<noteq> None)
      \<and> grows (request_planes rq) (\<lambda>p. the (first_fitting rq (staging c u) p)) (nat n) (public_snapshot s) (public_snapshot t)"
    if made: "?made c n u0" and u0: "?seen (public_snapshot s) u0" and prep: "prepare_candidate c n u0 = (Inr p, u1)"
      and pl: "prep_planes (boundaries u1 ! p) = request_planes rq"
      and u1: "?seen (public_snapshot s) u1" and pub: "publish p u1 = (Inr (), t)" for c n u0 p u1 t
  proof -
    obtain u where u: "begin_candidate rq s = (Inr c, u)" "run c u = (Inr n, u0)" using made by blast
    have u0': "u0 = run_calls owner_step (map (\<lambda>(p, rows). StageCall c p rows) (staging c u)) u" using run[of c u] u(2) by simp
    note st = begun_then_staged[OF u(1), where calls = "staging c u", folded u0']
    have closed: "fst ` set (cand_staged (candidates u0 ! c)) = set (request_planes (cand_request (candidates u0 ! c)))"
      using prep by (auto simp: prepare_candidate_def Let_def lift_res_Inr_iff split: if_splits)
    have fits: "first_fitting rq (staging c u) p = map_of (cand_staged (candidates u0 ! c)) p \<and> first_fitting rq (staging c u) p \<noteq> None"
      if "p \<in> set (request_planes rq)" for p
      using st that closed by (metis map_of_eq_None_iff)
    have "grows (request_planes rq) (\<lambda>p. the (map_of (cand_staged (candidates u0 ! c)) p)) (nat n) (public_snapshot s) (public_snapshot t)"
      using atomic_okD[OF prepare_contract_owner[OF conjunct1[OF u0]] prep]
        atomic_okD[OF publish_contract[OF conjunct1[OF u1]] pub] pl u1 by auto
    then have "grows (request_planes rq) (\<lambda>p. the (first_fitting rq (staging c u) p)) (nat n) (public_snapshot s) (public_snapshot t)"
      using fits grows_cong[of "request_planes rq" "\<lambda>p. the (map_of (cand_staged (candidates u0 ! c)) p)"
          "\<lambda>p. the (first_fitting rq (staging c u) p)"] by simp
    moreover have "\<forall>p \<in> set (request_planes rq). first_fitting rq (staging c u) p \<noteq> None" using fits by blast
    moreover have "fst (run c u) = Inr n" using u(2) by simp
    ultimately show ?thesis using u(1) by blast
  qed
  ultimately show ?thesis
    by (cases ?r; cases "fst ?r") (auto simp: settled_def split: if_splits)
qed

section \<open>A concrete request\<close>

definition demo_owner :: "int atomic_owner" where
  "demo_owner = \<lparr>supported_planes = [''kv'', ''mtp''], owner_enabled = True,
     public_snapshot = \<lparr>snap_id = 0, snap_revision = ''r1'', snap_generation = 0,
       snap_planes = [(''kv'', [7]), (''mtp'', [])]\<rparr>,
     fresh_id = 1, candidates = [], boundaries = []\<rparr>"

definition demo_request :: candidate_request where
  "demo_request = \<lparr>request_lane = 0, request_revision = ''r1'', proposed_rows = 2, request_planes = [''kv'']\<rparr>"

definition demo_stage :: "nat \<Rightarrow> int atomic_owner \<Rightarrow> (int, int atomic_owner) res" where
  "demo_stage c s = (Inr 1, run_calls owner_step [StageCall c ''kv'' [8, 9]] s)"

definition demo_pack :: pack_decision where
  "demo_pack = \<lparr>accepted = True, reason = ''decode_only'',
     decision_reserved = [\<lparr>reserved_lane = 0, reserved_phase = ''verify'', reserved_count = 2, reserved_pages = 0,
       deadline_ms = Finite 20\<rparr>],
     prefill_lane_id = None, prefill_rows = 0, estimated_ms = Some (Finite 5), decision_profile = Some ''p''\<rparr>"

text \<open>Two candidates from the same snapshot, both prepared.\<close>

definition demo_siblings :: "int atomic_owner" where
  "demo_siblings = run_calls owner_step
     [BeginCall demo_request, BeginCall demo_request, StageCall 0 ''kv'' [8, 9], StageCall 1 ''kv'' [5, 6],
      PrepareCall 0 1, PrepareCall 1 2] demo_owner"

lemma demo_owner_reachable: "reachable owner_start owner_step demo_owner"
proof (rule reachable_init)
  have "new_owner ''r1'' [(''kv'', [7]), (''mtp'', [])] [''kv'', ''mtp''] True = Inr demo_owner"
    by (simp add: new_owner_def demo_owner_def STATE_PLANES_def)
  then show "owner_start demo_owner" unfolding owner_start_def by blast
qed

lemma demo_siblings_reachable: "reachable owner_start owner_step demo_siblings"
  unfolding demo_siblings_def by (rule reachable_run_calls[OF demo_owner_reachable])

lemma demo_publish: "publish 0 demo_siblings = (Inr (), snd (publish 0 demo_siblings))"
  by code_simp

lemma demo_siblings_planes: "prep_planes (boundaries demo_siblings ! 0) = [''kv'']"
  by code_simp

lemma demo_siblings_staged:
  "\<exists>w. happened [BeginCall demo_request, BeginCall demo_request, StageCall 0 ''kv'' [8, 9], StageCall 1 ''kv'' [5, 6],
      PrepareCall 0 1, PrepareCall 1 2] demo_owner (StageCall 0 ''kv'' [8, 9]) w"
proof -
  have "fst (owner_step (StageCall 0 ''kv'' [8, 9]) (run_calls owner_step [BeginCall demo_request, BeginCall demo_request] demo_owner)) = Inr ()"
    by code_simp
  then show ?thesis
    unfolding happened_def
    by (intro exI[of _ "run_calls owner_step [BeginCall demo_request, BeginCall demo_request] demo_owner"]
        exI[of _ "[BeginCall demo_request, BeginCall demo_request]"] exI) (auto simp: prod_eq_iff)
qed

lemma demo_siblings_prepared:
  assumes "happened [BeginCall demo_request, BeginCall demo_request, StageCall 0 ''kv'' [8, 9], StageCall 1 ''kv'' [5, 6],
      PrepareCall 0 1, PrepareCall 1 2] demo_owner (PrepareCall c n) v" and "0 = length (boundaries v)"
  shows "c = 0 \<and> n = 1"
proof -
  have "length (boundaries (run_calls owner_step [BeginCall demo_request, BeginCall demo_request, StageCall 0 ''kv'' [8, 9],
      StageCall 1 ''kv'' [5, 6], PrepareCall 0 1] demo_owner)) = 1" by code_simp
  then show ?thesis using assms by (auto simp: happened_def Cons_eq_append_conv)
qed

theorem publish_is_compare_and_swap_witness:
  "grows [''kv''] (\<lambda>p. [8, 9]) 1 (public_snapshot demo_siblings) (public_snapshot (snd (publish 0 demo_siblings)))"
proof -
  let ?cs = "[BeginCall demo_request, BeginCall demo_request, StageCall 0 ''kv'' [8, 9], StageCall 1 ''kv'' [5, 6],
      PrepareCall 0 1, PrepareCall 1 2]"
  have start: "owner_start demo_owner"
  proof -
    have "new_owner ''r1'' [(''kv'', [7]), (''mtp'', [])] [''kv'', ''mtp''] True = Inr demo_owner"
      by (simp add: new_owner_def demo_owner_def STATE_PLANES_def)
    then show ?thesis unfolding owner_start_def by blast
  qed
  from publish_is_compare_and_swap[OF start demo_siblings_def demo_publish] show ?thesis
  proof (elim exE conjE, goal_cases)
    case (1 r c n rows u v)
    have kv: "request_planes r = [''kv'']" using 1(1) by (simp add: demo_siblings_planes)
    have prep: "c = 0 \<and> n = 1" using demo_siblings_prepared 1 by blast
    have "(\<exists>w. happened [BeginCall demo_request, BeginCall demo_request, StageCall 0 ''kv'' [8, 9], StageCall 1 ''kv'' [5, 6],
        PrepareCall 0 1, PrepareCall 1 2] demo_owner (StageCall c ''kv'' [8, 9]) w) \<longleftrightarrow> [8, 9] = rows ''kv''" using 1 kv by simp
    then have "rows ''kv'' = [8, 9]" using demo_siblings_staged prep by metis
    then show ?case using 1 kv prep grows_cong[of "[''kv'']" rows "\<lambda>p. [8, 9]"] by simp
  qed
qed

theorem published_origin_is_spent_witness:
  "\<exists>e. fst (publish 1 (run_calls owner_step [BeginCall demo_request] (snd (publish 0 demo_siblings))))
     = Inl (AtomicOwnerError e)"
proof -
  have "1 < length (boundaries demo_siblings)"
    "snap_id (prep_origin (boundaries demo_siblings ! 1)) = snap_id (public_snapshot demo_siblings)"
    by code_simp+
  moreover have "prep_origin (boundaries demo_siblings ! 1) = prep_origin (boundaries demo_siblings ! 0)"
    by (simp add: demo_siblings_def demo_owner_def demo_request_def no_value_def begin_candidate_def
        check_request_def STATE_PLANES_def stage_def get_candidate_def put_candidate_def
        prepare_candidate_def successor_planes_def Let_def slice_to_def del: get_candidate_Inr)
  ultimately obtain e where "publish 1 (run_calls owner_step [BeginCall demo_request] (snd (publish 0 demo_siblings)))
      = (Inl (AtomicOwnerError e), run_calls owner_step [BeginCall demo_request] (snd (publish 0 demo_siblings)))"
    using published_origin_is_spent[OF demo_siblings_reachable demo_publish,
        where sibling = 1 and cs = "[BeginCall demo_request]"] by blast
  then show ?thesis by simp
qed

theorem request_is_all_or_nothing_witness:
  "case execute_paged_request owner_methods demo_pack demo_request demo_stage True (\<lambda>s. (Inr False, s)) demo_owner of
      (Inl e, t) \<Rightarrow> public_snapshot t = public_snapshot demo_owner
    | (Inr rc, t) \<Rightarrow> if published rc
        then grows (request_planes demo_request) (\<lambda>p. the (first_fitting demo_request [(''kv'', [8, 9])] p)) (nat (receipt_accepted rc))
              (public_snapshot demo_owner) (public_snapshot t) \<and> receipt_accepted rc = 1
        else receipt_accepted rc = 0 \<and> public_snapshot t = public_snapshot demo_owner"
proof -
  let ?r = "execute_paged_request owner_methods demo_pack demo_request demo_stage True (\<lambda>s. (Inr False, s)) demo_owner"
  have "check_request demo_request = Inr ()" by (simp add: check_request_def demo_request_def STATE_PLANES_def)
  from request_is_all_or_nothing[OF demo_owner_reachable this, where run = demo_stage and staging = "\<lambda>c s. [(''kv'', [8, 9])]"
      and cancelled = "\<lambda>s. (Inr False, s)" and permit = True and d = demo_pack]
  show ?thesis by (cases ?r; cases "fst ?r") (auto simp: demo_stage_def split: if_splits)
qed

lemma demo_request_is_published:
  "map_prod (map_sum id published) (\<lambda>s. snap_planes (public_snapshot s))
     (execute_paged_request owner_methods demo_pack demo_request demo_stage True (\<lambda>s. (Inr False, s)) demo_owner)
   = (Inr True, [(''kv'', [7, 8]), (''mtp'', [])])"
  by code_simp

end
