(* ===== verification/BatchAdmission.thy ===== *)
theory BatchAdmission
  imports AttentionPlan "HOL-Library.List_Lexorder" "HOL-Library.Char_ord"
begin

text \<open>
  Admission of work: \<^verbatim>\<open>runtime/batch_admission.py\<close> (\<open>AdmissionState\<close>, \<open>LinearStateCost\<close>,
  \<open>StateBudget\<close>, \<open>decide_private_paged_use\<close>) and the estimate it prices a paged plan with,
  \<open>estimate_paged_memory\<close> of \<^verbatim>\<open>runtime/memory_policy.py\<close>.

  Byte counts are whole numbers, which Python adds and multiplies exactly; rounding of
  fractional budgets is not modelled, and the finiteness checks hold for every integer.  The
  fields \<open>uid\<close> and \<open>metadata\<close> are never read here and are left out.
\<close>

section \<open>States and costs\<close>

record admission_state =
  projected_units :: int
  completed_units :: int
  resident_bytes :: int

definition check_admission :: "admission_state \<Rightarrow> exc + unit" where
  "check_admission s = raise_if
     [(projected_units s < 0 \<or> completed_units s < 0, ValueError ''work units must be non-negative''),
      (completed_units s > projected_units s, ValueError ''completed_units cannot exceed projected_units''),
      (resident_bytes s < 0, ValueError ''resident_bytes must be finite and non-negative'')]"

record linear_cost =
  fixed_bytes :: int
  bytes_per_unit :: int
  max_units :: "int option"
  allocation_step_units :: "int option"

definition check_linear_cost :: "linear_cost \<Rightarrow> exc + unit" where
  "check_linear_cost c = raise_if
     [(\<not> (fixed_bytes c \<ge> 0 \<and> bytes_per_unit c \<ge> 0), ValueError ''state costs must be finite and non-negative''),
      (\<exists>m \<in> set_option (max_units c). m \<le> 0, ValueError ''max_units must be a positive non-bool integer''),
      (\<exists>m \<in> set_option (allocation_step_units c). m \<le> 0,
       ValueError ''allocation_step_units must be a positive non-bool integer'')]"

definition capped_units :: "linear_cost \<Rightarrow> admission_state \<Rightarrow> int" where
  "capped_units c s = (case max_units c of None \<Rightarrow> projected_units s | Some m \<Rightarrow> min (projected_units s) m)"

definition allocated_units :: "linear_cost \<Rightarrow> int \<Rightarrow> int" where
  "allocated_units c units =
     (case allocation_step_units c of
        None \<Rightarrow> units
      | Some step \<Rightarrow> if units = 0 then units else units + step - 1)"

definition state_cost :: "linear_cost \<Rightarrow> admission_state \<Rightarrow> int" where
  "state_cost c s = fixed_bytes c + bytes_per_unit c * allocated_units c (capped_units c s)"

definition cohort_bytes :: "linear_cost \<Rightarrow> admission_state list \<Rightarrow> int" where
  "cohort_bytes c states =
     (if states = [] then 0
      else if allocation_step_units c = None then (\<Sum>s\<leftarrow>states. state_cost c s)
      else let max_units = Max (set (map (capped_units c) states));
               allocated = allocated_units c max_units
           in int (length states) * (fixed_bytes c + bytes_per_unit c * allocated))"

text \<open>The generator, with its three accumulators.\<close>

fun prefix_loop :: "linear_cost \<Rightarrow> int \<Rightarrow> int \<Rightarrow> int \<Rightarrow> admission_state list \<Rightarrow> int list" where
  "prefix_loop c rows width bytes [] = []"
| "prefix_loop c rows width bytes (s # ss) =
     (let rows = rows + 1
      in if allocation_step_units c = None
         then let bytes = bytes + state_cost c s in bytes # prefix_loop c rows width bytes ss
         else let width = max width (capped_units c s);
                  bytes = rows * (fixed_bytes c + bytes_per_unit c * allocated_units c width)
              in bytes # prefix_loop c rows width bytes ss)"

definition cohort_prefix_bytes :: "linear_cost \<Rightarrow> admission_state list \<Rightarrow> admission_state list \<Rightarrow> int list" where
  "cohort_prefix_bytes c running candidates =
     (let maximum = (if running = [] then 0 else Max (set (map (capped_units c) running)));
          bytes = cohort_bytes c running
      in bytes # prefix_loop c (int (length running)) maximum bytes candidates)"

section \<open>The budget\<close>

record state_budget =
  budget_bytes :: int
  project :: "admission_state \<Rightarrow> exc + int"

definition check_budget :: "state_budget \<Rightarrow> exc + unit" where
  "check_budget b = raise_if [(budget_bytes b \<le> 0, ValueError ''budget_bytes must be finite and positive'')]"

definition projected_bytes :: "state_budget \<Rightarrow> admission_state \<Rightarrow> exc + int" where
  "projected_bytes b s = bind_sum (project b s) (\<lambda>p.
     if p < 0 then Inl (ValueError ''projected state bytes must be finite and non-negative'') else Inr p)"

definition remaining_bytes :: "state_budget \<Rightarrow> admission_state \<Rightarrow> exc + int" where
  "remaining_bytes b s = bind_sum (projected_bytes b s) (\<lambda>p. Inr (max (p - resident_bytes s) 0))"

fun sum_remaining :: "state_budget \<Rightarrow> int \<Rightarrow> admission_state list \<Rightarrow> exc + int" where
  "sum_remaining b acc [] = Inr acc"
| "sum_remaining b acc (s # ss) = bind_sum (remaining_bytes b s) (\<lambda>need. sum_remaining b (acc + need) ss)"

fun admit_loop :: "state_budget \<Rightarrow> bool \<Rightarrow> int \<Rightarrow> nat \<Rightarrow> admission_state list \<Rightarrow> exc + nat" where
  "admit_loop b oversized committed admitted [] = Inr admitted"
| "admit_loop b oversized committed admitted (s # ss) =
     bind_sum (remaining_bytes b s) (\<lambda>need.
       if committed + need > budget_bytes b
       then (if oversized \<and> admitted = 0 then Inr 1 else Inr admitted)
       else admit_loop b oversized (committed + need) (admitted + 1) ss)"

definition admitted_prefix :: "state_budget \<Rightarrow> admission_state list \<Rightarrow> int \<Rightarrow> admission_state list \<Rightarrow> bool \<Rightarrow> exc + nat" where
  "admitted_prefix b candidates live_bytes running allow_oversized_if_idle =
     (if live_bytes < 0 then Inl (ValueError ''live_bytes must be finite and non-negative'')
      else bind_sum (sum_remaining b 0 running) (\<lambda>r.
        admit_loop b (allow_oversized_if_idle \<and> running = []) (live_bytes + r) 0 candidates))"

section \<open>The price of a paged plan\<close>

record memory_estimate =
  arena_bytes :: int
  table_bytes :: int
  scratch_bytes :: int
  cow_staging_bytes :: int
  payload_staging_bytes :: int

definition total_bytes :: "memory_estimate \<Rightarrow> int" where
  "total_bytes e = arena_bytes e + table_bytes e + scratch_bytes e + cow_staging_bytes e + payload_staging_bytes e"

fun scratch_rows :: "attention_plan \<Rightarrow> sequence_span \<Rightarrow> int list \<Rightarrow> exc + int" where
  "scratch_rows pl s [] = Inr 0"
| "scratch_rows pl s (r # rs) =
     bind_sum (visible_bounds s r) (\<lambda>(lower, upper).
     bind_sum (scratch_rows pl s rs) (\<lambda>rest.
       Inr (4 * query_heads pl * ((upper - lower + KV_CHUNK - 1) div KV_CHUNK) * (head_dim pl + 2) + rest)))"

fun scratch_spans :: "attention_plan \<Rightarrow> sequence_span list \<Rightarrow> exc + int" where
  "scratch_spans pl [] = Inr 0"
| "scratch_spans pl (s # ss) =
     bind_sum (scratch_rows pl s [0..row_count s - 1]) (\<lambda>x.
     bind_sum (scratch_spans pl ss) (\<lambda>rest. Inr (x + rest)))"

definition estimate_paged_memory :: "attention_plan \<Rightarrow> bool \<Rightarrow> int \<Rightarrow> int \<Rightarrow> exc + memory_estimate" where
  "estimate_paged_memory pl arena_allocated cow_pages staging_tokens =
     bind_sum (uint_check ''cow_pages'' cow_pages U32_MAX) (\<lambda>_.
     bind_sum (uint_check ''staging_tokens'' staging_tokens U32_MAX) (\<lambda>_.
     let page_plane_bytes = PAGE_SIZE * kv_heads pl * head_dim pl * 2
     in bind_sum (scratch_spans pl (plan_spans pl)) (\<lambda>scratch.
       Inr \<lparr>arena_bytes = (if arena_allocated then 0 else 2 * pool_capacity pl * page_plane_bytes),
            table_bytes = 4 * (total_rows pl + 6 * int (length (plan_spans pl)) + 3 * int (length (page_table pl))),
            scratch_bytes = scratch,
            cow_staging_bytes = 2 * cow_pages * page_plane_bytes,
            payload_staging_bytes = 2 * staging_tokens * kv_heads pl * head_dim pl * 2\<rparr>)))"

record paged_admission =
  use_accepted :: bool
  use_reason :: "string option"
  estimated_bytes :: int
  decision_arena_bytes :: int
  temporary_bytes :: int

fun join :: "string \<Rightarrow> string list \<Rightarrow> string" where
  "join sep [] = ''''"
| "join sep [x] = x"
| "join sep (x # y # ys) = x @ sep @ join sep (y # ys)"

definition decide_private_paged_use :: "attention_plan \<Rightarrow> bool \<Rightarrow> int \<Rightarrow> bool \<Rightarrow> int \<Rightarrow> int \<Rightarrow> int \<Rightarrow> int
    \<Rightarrow> string list \<Rightarrow> exc + paged_admission" where
  "decide_private_paged_use pl permit_candidate available_bytes arena_allocated free_pages new_pages
       cow_pages staging_tokens features =
     bind_sum (uint_check ''available_bytes'' available_bytes (2 ^ 64 - 1)) (\<lambda>_.
     bind_sum (uint_check ''free_pages'' free_pages U32_MAX) (\<lambda>_.
     bind_sum (uint_check ''new_pages'' new_pages U32_MAX) (\<lambda>_.
     bind_sum (uint_check ''cow_pages'' cow_pages U32_MAX) (\<lambda>_.
     bind_sum (estimate_paged_memory pl arena_allocated cow_pages staging_tokens) (\<lambda>e.
     let reason =
           (if \<not> permit_candidate then Some ''paged_candidate_disabled''
            else if features \<noteq> []
            then Some (''unsupported_paged_features:'' @ join '','' (sorted_list_of_set (set features)))
            else if new_pages + cow_pages > free_pages then Some ''insufficient_retired_pages''
            else if total_bytes e > available_bytes then Some ''insufficient_memory_headroom''
            else None)
     in Inr \<lparr>use_accepted = (reason = None), use_reason = reason, estimated_bytes = total_bytes e,
             decision_arena_bytes = arena_bytes e, temporary_bytes = total_bytes e - arena_bytes e\<rparr>)))))"

section \<open>Incremental and direct cohort prices agree\<close>

lemma capped_nonneg:
  assumes "check_linear_cost c = Inr ()" and "check_admission s = Inr ()"
  shows "0 \<le> capped_units c s"
  using assms
  by (auto simp: check_linear_cost_def check_admission_def capped_units_def split: option.splits if_splits)

lemma cohort_bytes_snoc_plain:
  "allocation_step_units c = None \<Longrightarrow> cohort_bytes c (ss @ [s]) = cohort_bytes c ss + state_cost c s"
  by (simp add: cohort_bytes_def)

lemma prefix_loop_plain:
  assumes "allocation_step_units c = None"
  shows "prefix_loop c n m (cohort_bytes c pre) ss = map (\<lambda>k. cohort_bytes c (pre @ take (Suc k) ss)) [0..<length ss]"
proof (induction ss arbitrary: pre n)
  case (Cons s ss)
  have "prefix_loop c n m (cohort_bytes c pre) (s # ss)
      = cohort_bytes c (pre @ [s]) # prefix_loop c (n + 1) m (cohort_bytes c (pre @ [s])) ss"
    using assms by (simp add: cohort_bytes_snoc_plain[OF assms] Let_def)
  then show ?case by (simp add: Cons.IH map_upt_Suc del: upt_Suc)
qed simp

definition widest :: "linear_cost \<Rightarrow> admission_state list \<Rightarrow> int" where
  "widest c ss = (if ss = [] then 0 else Max (set (map (capped_units c) ss)))"

lemma widest_snoc: "(ss = [] \<Longrightarrow> 0 \<le> capped_units c s) \<Longrightarrow> widest c (ss @ [s]) = max (widest c ss) (capped_units c s)"
  by (cases "ss = []") (auto simp: widest_def max.commute)

lemma cohort_bytes_stepped:
  "allocation_step_units c \<noteq> None \<Longrightarrow> ss \<noteq> [] \<Longrightarrow>
     cohort_bytes c ss = int (length ss) * (fixed_bytes c + bytes_per_unit c * allocated_units c (widest c ss))"
  by (auto simp: cohort_bytes_def widest_def Let_def)

lemma prefix_loop_stepped:
  assumes "allocation_step_units c \<noteq> None" and "\<forall>s \<in> set ss. 0 \<le> capped_units c s"
  shows "prefix_loop c (int (length pre)) (widest c pre) t ss
    = map (\<lambda>k. cohort_bytes c (pre @ take (Suc k) ss)) [0..<length ss]"
  using assms(2)
proof (induction ss arbitrary: pre t)
  case (Cons s ss)
  have w: "widest c (pre @ [s]) = max (widest c pre) (capped_units c s)"
    using Cons.prems by (intro widest_snoc) simp
  have "prefix_loop c (int (length pre)) (widest c pre) t (s # ss)
      = cohort_bytes c (pre @ [s]) # prefix_loop c (int (length (pre @ [s]))) (widest c (pre @ [s]))
          (cohort_bytes c (pre @ [s])) ss"
    using assms(1) by (auto simp: cohort_bytes_stepped w Let_def add.commute)
  also have "prefix_loop c (int (length (pre @ [s]))) (widest c (pre @ [s])) (cohort_bytes c (pre @ [s])) ss
      = map (\<lambda>k. cohort_bytes c ((pre @ [s]) @ take (Suc k) ss)) [0..<length ss]"
    by (rule Cons.IH) (use Cons.prems in simp)
  finally show ?case by (simp add: map_upt_Suc del: upt_Suc)
qed simp

text \<open>
  C24: The incremental prices the generator yields are the prices of the active cohort and of
  each of its extensions by a prefix of the candidates, computed from scratch.
\<close>

theorem cohort_prefix_prices_each_cohort:
  assumes "check_linear_cost c = Inr ()" and "\<forall>s \<in> set candidates. check_admission s = Inr ()"
  shows "cohort_prefix_bytes c running candidates
    = map (\<lambda>k. cohort_bytes c (running @ take k candidates)) [0..<Suc (length candidates)]"
proof -
  have "cohort_prefix_bytes c running candidates
    = cohort_bytes c running # prefix_loop c (int (length running)) (widest c running) (cohort_bytes c running) candidates"
    by (simp add: cohort_prefix_bytes_def widest_def Let_def)
  also have "prefix_loop c (int (length running)) (widest c running) (cohort_bytes c running) candidates
    = map (\<lambda>k. cohort_bytes c (running @ take (Suc k) candidates)) [0..<length candidates]"
  proof (cases "allocation_step_units c = None")
    case True
    then show ?thesis by (rule prefix_loop_plain)
  next
    case False
    then show ?thesis using assms capped_nonneg by (intro prefix_loop_stepped) auto
  qed
  finally show ?thesis by (simp add: map_upt_Suc del: upt_Suc)
qed

section \<open>What is admitted fits, and nothing that fits is refused\<close>

definition need :: "state_budget \<Rightarrow> admission_state \<Rightarrow> int" where
  "need b s = (case remaining_bytes b s of Inl _ \<Rightarrow> 0 | Inr v \<Rightarrow> v)"

lemma remaining_need: "remaining_bytes b s = Inr v \<Longrightarrow> v = need b s \<and> 0 \<le> v"
  by (auto simp: need_def remaining_bytes_def)

lemma sum_remaining_need: "sum_remaining b acc ss = Inr v \<Longrightarrow> v = acc + (\<Sum>s\<leftarrow>ss. need b s)"
  by (induction ss arbitrary: acc) (fastforce dest: remaining_need)+

lemma admit_loop_result:
  assumes "admit_loop b oversized committed admitted ss = Inr n"
  shows "(oversized \<and> admitted = 0 \<and> n = 1 \<and> ss \<noteq> [] \<and> committed + need b (hd ss) > budget_bytes b)
    \<or> (\<exists>k \<le> length ss. n = admitted + k \<and> (0 < k \<longrightarrow> committed + (\<Sum>s\<leftarrow>take k ss. need b s) \<le> budget_bytes b)
         \<and> (k < length ss \<longrightarrow> committed + (\<Sum>s\<leftarrow>take (Suc k) ss. need b s) > budget_bytes b))"
  using assms
proof (induction ss arbitrary: committed admitted)
  case (Cons s ss)
  obtain v where v: "remaining_bytes b s = Inr v" using Cons.prems by auto
  note vn = remaining_need[OF v]
  show ?case
  proof (cases "committed + v > budget_bytes b")
    case True
    then show ?thesis using Cons.prems v vn by (auto split: if_splits)
  next
    case False
    then have "admit_loop b oversized (committed + v) (admitted + 1) ss = Inr n" using Cons.prems v by simp
    from Cons.IH[OF this] obtain k where "k \<le> length ss" "n = admitted + 1 + k"
      "0 < k \<longrightarrow> committed + v + (\<Sum>s\<leftarrow>take k ss. need b s) \<le> budget_bytes b"
      "k < length ss \<longrightarrow> committed + v + (\<Sum>s\<leftarrow>take (Suc k) ss. need b s) > budget_bytes b" by auto
    then show ?thesis
      using False vn by (intro disjI2 exI[of _ "Suc k"]) (cases k; auto)
  qed
qed simp

text \<open>
  The admitted prefix fits the budget together with what is committed, the next candidate
  does not, and the only exception is a single oversized candidate admitted to an idle engine
  when that is allowed.
\<close>

theorem admitted_prefix_is_maximal:
  assumes "admitted_prefix b candidates live running allow = Inr n"
  defines "committed \<equiv> live + (\<Sum>s\<leftarrow>running. need b s)"
  shows "n \<le> length candidates
    \<and> (committed + (\<Sum>s\<leftarrow>take n candidates. need b s) \<le> budget_bytes b \<or> n = 0
       \<or> (allow \<and> running = [] \<and> n = 1 \<and> live + need b (hd candidates) > budget_bytes b))
    \<and> (n < length candidates \<longrightarrow> committed + (\<Sum>s\<leftarrow>take (Suc n) candidates. need b s) > budget_bytes b
       \<or> allow \<and> running = [] \<and> n = 1)"
proof -
  obtain r where r: "sum_remaining b 0 running = Inr r"
    and loop: "admit_loop b (allow \<and> running = []) (live + r) 0 candidates = Inr n"
    using assms(1) by (auto simp: admitted_prefix_def split: if_splits)
  have "live + r = committed" using sum_remaining_need[OF r] by (simp add: committed_def)
  then show ?thesis
    using admit_loop_result[OF loop] by (cases candidates) (auto simp: committed_def)
qed

section \<open>An accepted paged use fits\<close>

lemma scratch_rows_splits:
  "\<forall>r \<in> set rs. \<exists>b. visible_bounds s r = Inr b \<Longrightarrow>
     scratch_rows pl s rs = Inr (\<Sum>r\<leftarrow>rs. 4 * query_heads pl * row_splits s r * (head_dim pl + 2))"
  by (induction rs) (auto simp: row_splits_def split: sum.splits prod.splits)

lemma visible_bounds_returns:
  "0 \<le> r \<Longrightarrow> r < row_count s \<Longrightarrow> row_count s \<le> U32_MAX \<Longrightarrow> \<exists>b. visible_bounds s r = Inr b"
  by (simp add: visible_bounds_def Let_def)

definition row_scratch :: "attention_plan \<Rightarrow> sequence_span \<Rightarrow> int" where
  "row_scratch pl s = (\<Sum>r\<leftarrow>[0..row_count s - 1]. 4 * query_heads pl * row_splits s r * (head_dim pl + 2))"

lemma span_ok_row_count: "span_ok pl s \<Longrightarrow> row_count s \<le> U32_MAX"
  by (auto simp: span_ok_def)

lemma scratch_rows_sum: "span_ok pl s \<Longrightarrow> scratch_rows pl s [0..row_count s - 1] = Inr (row_scratch pl s)"
  unfolding row_scratch_def
  by (rule scratch_rows_splits) (metis atLeastAtMost_iff set_upto span_ok_row_count visible_bounds_returns zle_diff1_eq)

lemma scratch_spans_sum:
  assumes "\<forall>s \<in> set ss. span_ok pl s"
  shows "scratch_spans pl ss = Inr (\<Sum>s\<leftarrow>ss. row_scratch pl s)"
  using assms
  by (induction ss) (auto simp: scratch_rows_sum)

lemma row_splits_nonneg: "span_ok pl s \<Longrightarrow> 0 \<le> r \<Longrightarrow> 0 \<le> row_splits s r"
  by (auto simp: row_splits_def visible_bounds_def span_ok_def KV_CHUNK_def Let_def pos_imp_zdiv_nonneg_iff
      split: sum.splits option.splits if_splits)

lemma row_scratch_nonneg:
  "span_ok pl s \<Longrightarrow> 0 \<le> query_heads pl \<Longrightarrow> 0 \<le> head_dim pl \<Longrightarrow> 0 \<le> row_scratch pl s"
  unfolding row_scratch_def by (rule sum_list_nonneg) (auto simp: row_splits_nonneg)

text \<open>
  An accepted private paged use was permitted, asks for no unsupported feature, has enough
  retired pages, and its whole price, scratch of the plan included, fits the available bytes.
\<close>

theorem accepted_paged_use_fits:
  assumes plan: "check_plan pl = Inr ()"
    and d: "decide_private_paged_use pl permit avail resident spare new_pages cow staging features = Inr d"
    and "use_accepted d"
  shows "permit \<and> features = [] \<and> new_pages + cow \<le> spare \<and> estimated_bytes d \<le> avail
    \<and> 0 \<le> temporary_bytes d \<and> temporary_bytes d \<le> estimated_bytes d
    \<and> (\<not> long_prefill pl \<longrightarrow> (\<Sum>s\<leftarrow>plan_spans pl. span_scratch pl s) \<le> avail)"
proof -
  obtain e where e: "estimate_paged_memory pl resident cow staging = Inr e"
    and c: "permit" "features = []" "new_pages + cow \<le> spare" "total_bytes e \<le> avail"
    and dd: "estimated_bytes d = total_bytes e" "temporary_bytes d = total_bytes e - arena_bytes e"
    using d assms(3) by (auto simp: decide_private_paged_use_def Let_def split: if_splits)
  have g: "0 < kv_heads pl" "0 < head_dim pl" "0 < pool_capacity pl" "0 \<le> total_rows pl" "0 < query_heads pl"
    using plan by (auto simp: check_plan_def check_geometry_def)
  obtain scratch where scratch: "scratch_spans pl (plan_spans pl) = Inr scratch" and "0 \<le> cow" "0 \<le> staging"
    and ee: "e = \<lparr>arena_bytes = (if resident then 0 else 2 * pool_capacity pl * (PAGE_SIZE * kv_heads pl * head_dim pl * 2)),
       table_bytes = 4 * (total_rows pl + 6 * int (length (plan_spans pl)) + 3 * int (length (page_table pl))),
       scratch_bytes = scratch, cow_staging_bytes = 2 * cow * (PAGE_SIZE * kv_heads pl * head_dim pl * 2),
       payload_staging_bytes = 2 * staging * kv_heads pl * head_dim pl * 2\<rparr>"
    using e by (auto simp: estimate_paged_memory_def Let_def)
  note ok = check_plan_ok(1)[OF plan]
  have s: "scratch = (\<Sum>s\<leftarrow>plan_spans pl. row_scratch pl s)" using scratch_spans_sum[OF ok] scratch by simp
  have "0 \<le> scratch" unfolding s by (rule sum_list_nonneg) (use ok g row_scratch_nonneg in auto)
  then have parts: "0 \<le> arena_bytes e" "0 \<le> table_bytes e" "0 \<le> cow_staging_bytes e" "0 \<le> payload_staging_bytes e"
      "0 \<le> scratch_bytes e" "scratch_bytes e = scratch"
    using g \<open>0 \<le> cow\<close> \<open>0 \<le> staging\<close> by (auto simp: ee PAGE_SIZE_def)
  have "scratch = (\<Sum>s\<leftarrow>plan_spans pl. span_scratch pl s)" if "\<not> long_prefill pl"
    unfolding s using that by (simp add: span_scratch_def[abs_def] row_scratch_def[abs_def])
  then show ?thesis
    using c dd parts by (auto simp: total_bytes_def)
qed

section \<open>Concrete admissions\<close>

definition demo_cost :: linear_cost where
  "demo_cost = \<lparr>fixed_bytes = 10, bytes_per_unit = 2, max_units = Some 100, allocation_step_units = Some 8\<rparr>"

definition demo_state :: "int \<Rightarrow> admission_state" where
  "demo_state n = \<lparr>projected_units = n, completed_units = 0, resident_bytes = 0\<rparr>"

theorem cohort_prefix_prices_each_cohort_witness:
  "cohort_prefix_bytes demo_cost [demo_state 5] [demo_state 3, demo_state 200]
     = map (\<lambda>k. cohort_bytes demo_cost ([demo_state 5] @ take k [demo_state 3, demo_state 200])) [0..<Suc (length [demo_state 3, demo_state 200])]
   \<and> cohort_bytes demo_cost [demo_state 5, demo_state 3] = 68"
proof
  show "cohort_bytes demo_cost [demo_state 5, demo_state 3] = 68" by code_simp
qed (rule cohort_prefix_prices_each_cohort; simp add: demo_cost_def demo_state_def check_linear_cost_def check_admission_def)

definition demo_budget :: state_budget where
  "demo_budget = \<lparr>budget_bytes = 100, project = (\<lambda>s. Inr (state_cost demo_cost s))\<rparr>"

theorem admitted_prefix_is_maximal_witness:
  "20 + need demo_budget (demo_state 5) + need demo_budget (demo_state 3) \<le> 100"
proof -
  have "admitted_prefix demo_budget [demo_state 5, demo_state 3, demo_state 9] 20 [] True = Inr 2" by code_simp
  from admitted_prefix_is_maximal[OF this] show ?thesis by (simp add: demo_budget_def numeral_2_eq_2)
qed

theorem accepted_paged_use_fits_witness:
  "(\<Sum>s\<leftarrow>plan_spans demo_plan. span_scratch demo_plan s) \<le> 10 ^ 9"
proof -
  have d: "decide_private_paged_use demo_plan True (10 ^ 9) False 8 2 1 64 []
     = Inr (projr (decide_private_paged_use demo_plan True (10 ^ 9) False 8 2 1 64 []))"
    and "use_accepted (projr (decide_private_paged_use demo_plan True (10 ^ 9) False 8 2 1 64 []))"
    and "\<not> long_prefill demo_plan"
    by code_simp+
  then show ?thesis using accepted_paged_use_fits[OF demo_plan_ok d] by blast
qed

end
