(* ===== verification/PrefillPlan.thy ===== *)
theory PrefillPlan
  imports Prelude
begin

text \<open>
  Prefill geometry: \<^verbatim>\<open>runtime/prefill_plan.py\<close> (every function but the two that fingerprint a
  configuration) and \<open>aligned_prompt_rows\<close> of \<^verbatim>\<open>runtime/mixed_step.py\<close>.

  The two \<open>while\<close> loops are \<open>partial_function (option)\<close>: \<open>None\<close> is a run that does not return, and
  that every accepted input returns is a theorem.
\<close>

section \<open>The prompt-length schedule\<close>

definition PROMPT_LENGTH_PREFILL_SCHEDULE :: "(int \<times> int) list" where
  "PROMPT_LENGTH_PREFILL_SCHEDULE = [(32768, 512), (65536, 2048), (131072, 8192)]"

fun scheduled_step :: "(int \<times> int) list \<Rightarrow> int \<Rightarrow> int option" where
  "scheduled_step [] prompt_tokens = None"
| "scheduled_step ((context_limit, step) # rest) prompt_tokens =
     (if prompt_tokens \<le> context_limit then Some step else scheduled_step rest prompt_tokens)"

definition prompt_length_prefill_step :: "int \<Rightarrow> int \<Rightarrow> exc + int" where
  "prompt_length_prefill_step prompt_tokens maximum =
     bind_sum (raise_if
       [(prompt_tokens < 1, ValueError ''prompt_tokens must be a positive integer''),
        (maximum < 1, ValueError ''maximum must be a positive integer'')]) (\<lambda>_.
     case scheduled_step PROMPT_LENGTH_PREFILL_SCHEDULE prompt_tokens of
       Some step \<Rightarrow> Inr (min step maximum)
     | None \<Rightarrow> Inr (min (snd (last PROMPT_LENGTH_PREFILL_SCHEDULE)) maximum))"

definition single_round_prefill_rows :: "int list \<Rightarrow> exc + int option" where
  "single_round_prefill_rows lengths =
     (if lengths = [] \<or> (\<exists>n \<in> set lengths. n < 1)
      then Inl (ValueError ''segment lengths must be positive integers'')
      else if lengths = [1] then Inr (Some 0)
      else if length lengths = 2 \<and> last lengths = 1 then Inr (Some (hd lengths))
      else Inr None)"

definition shared_prefill_budget_width :: "int \<Rightarrow> int \<Rightarrow> bool \<Rightarrow> int option \<Rightarrow> int" where
  "shared_prefill_budget_width base rows enabled token_budget =
     (let base = max 1 base
      in if \<not> enabled then base
         else let budget = (case token_budget of None \<Rightarrow> base | Some b \<Rightarrow> min base b)
              in max 1 (budget div max 1 rows))"

fun next_prefill_checkpoint :: "int list \<Rightarrow> int \<Rightarrow> int option" where
  "next_prefill_checkpoint [] covered = None"
| "next_prefill_checkpoint (position # ps) covered =
     (if position > covered then Some position else next_prefill_checkpoint ps covered)"

definition checkpoint_bounded_prefill_rows :: "int \<Rightarrow> int \<Rightarrow> int option \<Rightarrow> exc + int" where
  "checkpoint_bounded_prefill_rows rows depth next_checkpoint =
     (if rows < 0 \<or> depth < 0 then Inl (ValueError ''rows and depth must be nonnegative'')
      else if rows = 0 then Inr 0
      else (case next_checkpoint of
              None \<Rightarrow> Inr rows
            | Some c \<Rightarrow>
                let distance = c - depth
                in if distance < 1 then Inl (ValueError ''next checkpoint must follow the covered depth'')
                   else Inr (min rows distance)))"

definition prefill_rows :: "int list \<Rightarrow> int \<Rightarrow> int" where
  "prefill_rows shape minimum_sequence =
     (if length shape \<noteq> 3 \<or> shape ! 0 < 1 \<or> shape ! 1 < minimum_sequence \<or> shape ! 2 < 1 then 0
      else shape ! 0 * shape ! 1)"

section \<open>Chunks at depth\<close>

function bit_length :: "int \<Rightarrow> nat" where
  "bit_length n = (if n = 0 then 0 else Suc (bit_length (\<bar>n\<bar> div 2)))"
  by pat_completeness auto
termination by (relation "measure (\<lambda>n. nat \<bar>n\<bar>)") auto

declare bit_length.simps [simp del]

partial_function (option) halve_rows :: "int \<Rightarrow> int \<Rightarrow> int \<Rightarrow> int \<Rightarrow> int option" where
  "halve_rows least depth budget rows =
     (if rows > least \<and> rows * (depth + rows) > budget
      then halve_rows least depth budget (drop_bit 1 rows) else Some rows)"

definition depth_bounded_prefill_rows :: "int \<Rightarrow> int \<Rightarrow> int option \<Rightarrow> int \<Rightarrow> (exc + int) option" where
  "depth_bounded_prefill_rows step depth budget least =
     (case budget of
        None \<Rightarrow> Some (Inr step)
      | Some budget \<Rightarrow>
          if step < 1 \<or> depth < 0 then Some (Inl (ValueError ''step must be positive and depth nonnegative''))
          else if budget < 1 then Some (Inl (ValueError ''budget must be a positive integer or None''))
          else if step * (depth + step) \<le> budget then Some (Inr step)
          else let rows = push_bit (bit_length step - 1) 1;
                   rows = (if rows = step then drop_bit 1 rows else rows)
               in (case halve_rows least depth budget rows of
                     None \<Rightarrow> None
                   | Some rows \<Rightarrow> Some (Inr (max rows (min step least)))))"

definition prefill_fits_one_chunk :: "int \<Rightarrow> int \<Rightarrow> int \<Rightarrow> bool \<Rightarrow> int \<Rightarrow> int \<Rightarrow> int option \<Rightarrow> int \<Rightarrow> int option
    \<Rightarrow> (exc + bool) option" where
  "prefill_fits_one_chunk remaining_tokens total_tokens step autoscale maximum depth depth_budget
       depth_floor next_checkpoint =
     (case raise_if
        [(remaining_tokens < 0, ValueError ''remaining_tokens must be a nonnegative integer''),
         (total_tokens < 1, ValueError ''total_tokens must be a positive integer''),
         (step < 1, ValueError ''scheduled_step must be a positive integer''),
         (maximum < 1, ValueError ''maximum must be a positive integer'')] of
        Inl e \<Rightarrow> Some (Inl e)
      | Inr _ \<Rightarrow>
        (case (if autoscale
               then bind_sum (prompt_length_prefill_step total_tokens maximum)
                      (\<lambda>s. Inr (min (min step maximum) s))
               else Inr (min step maximum)) of
           Inl e \<Rightarrow> Some (Inl e)
         | Inr actual_step \<Rightarrow>
           (case depth_bounded_prefill_rows actual_step depth depth_budget depth_floor of
              None \<Rightarrow> None
            | Some (Inl e) \<Rightarrow> Some (Inl e)
            | Some (Inr actual_step) \<Rightarrow>
                Some (bind_sum (checkpoint_bounded_prefill_rows actual_step depth next_checkpoint)
                  (\<lambda>actual_step. Inr (remaining_tokens \<le> actual_step))))))"

section \<open>Recurrence segments\<close>

text \<open>The generator, as the list of the pairs it yields.\<close>

partial_function (option) segments_from :: "int \<Rightarrow> int \<Rightarrow> int \<Rightarrow> int \<Rightarrow> (int \<times> int) list option" where
  "segments_from len maximum alignment start =
     (if start < len
      then let size = min maximum (len - start);
               tail = len - start - size;
               size = (if 0 < tail \<and> tail < 17
                       then size - ((17 - tail + alignment - 1) div alignment) * alignment else size)
           in Option.bind (segments_from len maximum alignment (start + size))
                (\<lambda>rest. Some ((start, start + size) # rest))
      else Some [])"

definition recurrence_segments :: "int \<Rightarrow> int \<Rightarrow> int \<Rightarrow> (exc + (int \<times> int) list) option" where
  "recurrence_segments len maximum alignment =
     (case raise_if
        [(len < 0, ValueError ''length must be a nonnegative integer''),
         (alignment \<notin> {8, 16}, ValueError ''alignment must be 8 or 16''),
         (maximum < 48 \<or> maximum mod alignment \<noteq> 0, ValueError ''maximum must be aligned and at least 48'')] of
        Inl e \<Rightarrow> Some (Inl e)
      | Inr _ \<Rightarrow> map_option Inr (segments_from len maximum alignment 0))"

section \<open>Mixed forwards\<close>

definition MATMUL_ROW_TILE :: int where "MATMUL_ROW_TILE = 64"

definition aligned_prompt_rows :: "int \<Rightarrow> int \<Rightarrow> int \<Rightarrow> exc + int" where
  "aligned_prompt_rows budget_rows decode_rows tile =
     bind_sum (raise_if
       [(budget_rows < 1, ValueError ''budget_rows must be a positive integer''),
        (decode_rows < 0, ValueError ''decode_rows must be a nonnegative integer''),
        (tile < 1, ValueError ''tile must be a positive integer'')]) (\<lambda>_.
     let packed = (budget_rows div tile) * tile;
         packed = (if packed \<le> decode_rows then - (- max decode_rows 1 div tile) * tile else packed)
     in Inr (max 0 (packed - decode_rows)))"

section \<open>Segments: termination and shape\<close>

text \<open>What is asked of the segments that cover \<open>start\<close> to \<open>len\<close>.\<close>

definition tiled :: "int \<Rightarrow> int \<Rightarrow> int \<Rightarrow> int \<Rightarrow> (int \<times> int) list \<Rightarrow> bool" where
  "tiled len maximum alignment start segs \<longleftrightarrow>
     concat (map (\<lambda>(a, b). [a..b - 1]) segs) = [start..len - 1]
     \<and> (\<forall>(a, b) \<in> set segs. a < b \<and> b - a \<le> maximum \<and> (17 \<le> b - a \<or> len - start < 17))
     \<and> (\<forall>(a, b) \<in> set (butlast segs). alignment dvd b - a)"

lemma tiled_Nil: "len \<le> start \<Longrightarrow> tiled len m al start []"
  by (simp add: tiled_def)

lemma upto_split: "i \<le> j \<Longrightarrow> j \<le> k \<Longrightarrow> [i..j - 1] @ [j..k - 1] = [i..k - (1::int)]"
  using upto_split1[of i j "k - 1"] by (cases "j = k") simp_all

lemma tiled_Cons:
  assumes "tiled len m al (start + rows) rest" and "0 < rows" "rows \<le> m" "start + rows \<le> len"
    and "17 \<le> rows \<or> len - start < 17" and "start + rows < len \<Longrightarrow> 17 \<le> len - (start + rows) \<and> al dvd rows"
  shows "tiled len m al start ((start, start + rows) # rest)"
proof (cases "start + rows < len")
  case True
  then show ?thesis
    using assms upto_split[of start "start + rows" len]
    by (auto simp: tiled_def)
next
  case False
  then have "rest = []" using assms(1,4) by (cases rest) (auto simp: tiled_def)
  then show ?thesis using assms False by (auto simp: tiled_def)
qed

text \<open>The size of the segment taken at \<open>start\<close>, and the rest it leaves.\<close>

definition segment_rows :: "int \<Rightarrow> int \<Rightarrow> int \<Rightarrow> int \<Rightarrow> int" where
  "segment_rows len m al start =
     (let rows = min m (len - start); rest = len - start - rows
      in if 0 < rest \<and> rest < 17 then rows - ((17 - rest + al - 1) div al) * al else rows)"

lemma segments_from_unfold:
  "segments_from len m al start =
     (if start < len
      then Option.bind (segments_from len m al (start + segment_rows len m al start))
             (\<lambda>rest. Some ((start, start + segment_rows len m al start) # rest))
      else Some [])"
  by (subst segments_from.simps) (simp add: segment_rows_def Let_def)

lemma borrowed_rows:
  assumes "al = 8 \<or> al = 16" and "0 < rest" "rest < (17::int)"
  shows "17 - rest \<le> ((17 - rest + al - 1) div al) * al" "((17 - rest + al - 1) div al) * al \<le> 16"
  using assms by (elim disjE; simp; presburger)+

lemma segment_rows_bounds:
  assumes al: "al = 8 \<or> al = 16" and m: "48 \<le> m" "m mod al = 0" and s: "start < len"
  defines "rows \<equiv> segment_rows len m al start"
  shows "0 < rows" "rows \<le> m" "start + rows \<le> len" "17 \<le> rows \<or> len - start < 17"
    and "start + rows < len \<Longrightarrow> 17 \<le> len - (start + rows) \<and> al dvd rows"
proof -
  have "0 < rows \<and> rows \<le> m \<and> start + rows \<le> len \<and> (17 \<le> rows \<or> len - start < 17)
    \<and> (start + rows < len \<longrightarrow> 17 \<le> len - (start + rows) \<and> al dvd rows)"
  proof (cases "m < len - start \<and> len - start - m < 17")
    case True
    define sub where "sub = ((17 - (len - start - m) + al - 1) div al) * al"
    have r: "rows = m - sub" using True by (simp add: rows_def segment_rows_def sub_def Let_def)
    have "17 - (len - start - m) \<le> sub" "sub \<le> 16"
      using borrowed_rows[OF al, of "len - start - m"] True by (simp_all add: sub_def)
    moreover have "al dvd rows" using m(2) by (simp add: r sub_def dvd_eq_mod_eq_0 mod_diff_eq[symmetric])
    ultimately show ?thesis using True m(1) by (simp add: r)
  next
    case False
    then have "rows = min m (len - start)" by (auto simp: rows_def segment_rows_def Let_def)
    then show ?thesis using False m s by (auto simp: dvd_eq_mod_eq_0)
  qed
  then show "0 < rows" "rows \<le> m" "start + rows \<le> len" "17 \<le> rows \<or> len - start < 17"
    "start + rows < len \<Longrightarrow> 17 \<le> len - (start + rows) \<and> al dvd rows" by simp_all
qed

lemma segments_from_tiled:
  assumes al: "al = 8 \<or> al = 16" and m: "48 \<le> m" "m mod al = 0"
  shows "\<exists>segs. segments_from len m al start = Some segs \<and> tiled len m al start segs"
proof (induction "nat (len - start)" arbitrary: start rule: less_induct)
  case less
  show ?case
  proof (cases "start < len")
    case False
    then show ?thesis by (subst segments_from_unfold) (simp add: tiled_Nil)
  next
    case True
    note b = segment_rows_bounds[OF al m True]
    let ?rows = "segment_rows len m al start"
    obtain rest where rest: "segments_from len m al (start + ?rows) = Some rest" "tiled len m al (start + ?rows) rest"
      using less[of "start + ?rows"] b True by auto
    have "segments_from len m al start = Some ((start, start + ?rows) # rest)"
      by (subst segments_from_unfold) (simp add: True rest(1))
    then show ?thesis using tiled_Cons[OF rest(2) b(1-4)] b(5) by auto
  qed
qed

text \<open>
  C25: The segmentation of a recurrence returns for every admitted length, its segments
  partition the tokens in order, none exceeds the maximum, none is shorter than 17 rows unless
  the whole input is, and all but the last are aligned.
\<close>

theorem recurrence_segments_cover_each_token_once:
  assumes "0 \<le> len" and "alignment = 8 \<or> alignment = 16" and "48 \<le> maximum" and "maximum mod alignment = 0"
  shows "\<exists>segs. recurrence_segments len maximum alignment = Some (Inr segs)
     \<and> concat (map (\<lambda>(a, b). [a..b - 1]) segs) = [0..len - 1]
     \<and> (\<forall>(a, b) \<in> set segs. a < b \<and> b - a \<le> maximum \<and> (17 \<le> b - a \<or> len < 17))
     \<and> (\<forall>(a, b) \<in> set (butlast segs). alignment dvd b - a)"
proof -
  obtain segs where "segments_from len maximum alignment 0 = Some segs" "tiled len maximum alignment 0 segs"
    using segments_from_tiled[OF assms(2-4)] by blast
  moreover have "recurrence_segments len maximum alignment = map_option Inr (segments_from len maximum alignment 0)"
    using assms by (auto simp: recurrence_segments_def)
  ultimately show ?thesis by (auto simp: tiled_def)
qed

section \<open>Rows at depth\<close>

lemma mult_div_le: "0 < b \<Longrightarrow> b * (a div b) \<le> (a::int)"
  using mult_div_mod_eq[of b a] pos_mod_sign[of b a] by linarith

lemma bit_length_bounds:
  assumes "0 < n"
  shows "0 < bit_length n \<and> 2 ^ (bit_length n - 1) \<le> n \<and> n < 2 ^ bit_length n"
  using assms
proof (induction n rule: bit_length.induct)
  case (1 n)
  show ?case
  proof (cases "n = 1")
    case True
    then show ?thesis by (simp add: bit_length.simps)
  next
    case False
    then have "0 < bit_length (n div 2)" "2 ^ (bit_length (n div 2) - 1) \<le> n div 2" "n div 2 < 2 ^ bit_length (n div 2)"
      using 1 by auto
    moreover have "bit_length n = Suc (bit_length (n div 2))"
      using 1(2) by (subst bit_length.simps) simp
    moreover have "(2::int) ^ bit_length (n div 2) = 2 * 2 ^ (bit_length (n div 2) - 1)"
      using \<open>0 < bit_length (n div 2)\<close> by (cases "bit_length (n div 2)") simp_all
    moreover have "2 * (n div 2) \<le> n" "n < 2 * (n div 2) + 2" by simp_all
    ultimately show ?thesis by simp
  qed
qed

text \<open>\<open>too_deep\<close>: the loop halves a chunk of this many rows.\<close>

definition too_deep :: "int \<Rightarrow> int \<Rightarrow> int \<Rightarrow> int \<Rightarrow> bool" where
  "too_deep least depth budget rows \<longleftrightarrow> rows > least \<and> rows * (depth + rows) > budget"

lemma halve_rows_zero: "0 \<le> budget \<Longrightarrow> halve_rows least depth budget 0 = Some 0"
  by (subst halve_rows.simps) simp

lemma halve_rows_power:
  assumes "0 \<le> budget"
  shows "\<exists>r. halve_rows least depth budget (2 ^ k) = Some r \<and> 0 \<le> r \<and> r \<le> 2 ^ k
     \<and> \<not> too_deep least depth budget r \<and> (\<forall>j \<le> k. r < 2 ^ j \<longrightarrow> too_deep least depth budget (2 ^ j))"
proof (induction k)
  case 0
  then show ?case
    using assms by (subst halve_rows.simps) (auto simp: halve_rows_zero too_deep_def drop_bit_eq_div)
next
  case (Suc k)
  have shift: "drop_bit 1 (2 ^ Suc k :: int) = 2 ^ k" by (simp add: drop_bit_eq_div)
  show ?case
  proof (cases "too_deep least depth budget (2 ^ Suc k)")
    case True
    then have "halve_rows least depth budget (2 ^ Suc k) = halve_rows least depth budget (2 ^ k)"
      by (subst halve_rows.simps) (simp only: too_deep_def shift if_True simp_thms)
    then show ?thesis using Suc True by (fastforce simp: le_Suc_eq)
  next
    case False
    then have "halve_rows least depth budget (2 ^ Suc k) = Some (2 ^ Suc k)"
      by (subst halve_rows.simps) (simp only: too_deep_def if_False simp_thms)
    moreover have "\<not> (2::int) ^ Suc k < 2 ^ j" if "j \<le> Suc k" for j
      using that power_increasing[of j "Suc k" "2::int"] by simp
    ultimately show ?thesis using False by auto
  qed
qed

text \<open>
  The chunk for a deep lane is always found: it keeps the configured step while that fits,
  never falls under the floor, and otherwise is at least every power of two that fits the
  attention budget.
\<close>

theorem depth_bounded_rows_is_largest_power:
  assumes "1 \<le> step" and "0 \<le> depth" and "1 \<le> budget"
  shows "\<exists>r. depth_bounded_prefill_rows step depth (Some budget) least = Some (Inr r)
     \<and> min step least \<le> r \<and> r \<le> step
     \<and> (r \<le> least \<or> r * (depth + r) \<le> budget)
     \<and> (\<forall>j. 2 ^ j \<le> step \<longrightarrow> 2 ^ j * (depth + 2 ^ j) \<le> budget \<longrightarrow> 2 ^ j \<le> r)
     \<and> (depth + step \<le> budget div step \<longrightarrow> r = step)"
proof (cases "step * (depth + step) \<le> budget")
  case True
  then show ?thesis using assms by (auto simp: depth_bounded_prefill_rows_def)
next
  case False
  define k where "k = bit_length step - 1"
  have k: "2 ^ k \<le> step" "step < 2 ^ Suc k"
    using bit_length_bounds[of step] assms(1) by (auto simp: k_def)
  have big: "j \<le> k" if "(2::int) ^ j \<le> step" for j
    using that k(2) power_less_imp_less_exp[of "2::int" j "Suc k"] by (simp add: less_Suc_eq_le)
  define start where "start = (if 2 ^ k = step then drop_bit 1 (2 ^ k) else (2::int) ^ k)"
  have "\<exists>r. halve_rows least depth budget start = Some r \<and> r \<le> step \<and> \<not> too_deep least depth budget r
     \<and> (\<forall>j. 2 ^ j \<le> step \<longrightarrow> r < 2 ^ j \<longrightarrow> budget < 2 ^ j * (depth + 2 ^ j))"
  proof (cases "2 ^ k = step")
    case True
    show ?thesis
    proof (cases k)
      case 0
      then have "start = 0" "step = 1" using True by (simp_all add: start_def drop_bit_eq_div)
      moreover have "budget < 2 ^ j * (depth + 2 ^ j)" if "(2::int) ^ j \<le> step" for j
        using big[OF that] False 0 \<open>step = 1\<close> by simp
      ultimately show ?thesis
        using halve_rows_zero[of budget least depth] assms(3) by (auto simp: too_deep_def)
    next
      case (Suc i)
      then have st: "start = 2 ^ i" using True by (simp add: start_def drop_bit_eq_div)
      obtain r where r: "halve_rows least depth budget start = Some r" "r \<le> 2 ^ i" "\<not> too_deep least depth budget r"
        "\<forall>j \<le> i. r < 2 ^ j \<longrightarrow> too_deep least depth budget (2 ^ j)"
        using halve_rows_power[of budget least depth i] assms(3) unfolding st by auto
      have "budget < 2 ^ j * (depth + 2 ^ j)" if "2 ^ j \<le> step" "r < 2 ^ j" for j
        using big[OF that(1)] that r(4) False True Suc by (cases "j = k") (auto simp: too_deep_def)
      moreover have "(2::int) ^ i \<le> 2 ^ k" unfolding Suc by (rule power_increasing) simp_all
      moreover have "(2::int) ^ k = step" by (rule True)
      ultimately show ?thesis using r(1-3) order_trans by metis
    qed
  next
    case ne: False
    then have st: "start = 2 ^ k" by (simp add: start_def)
    obtain r where "halve_rows least depth budget start = Some r" "r \<le> 2 ^ k" "\<not> too_deep least depth budget r"
      "\<forall>j \<le> k. r < 2 ^ j \<longrightarrow> too_deep least depth budget (2 ^ j)"
      using halve_rows_power[of budget least depth k] assms(3) unfolding st by auto
    then show ?thesis using k(1) big by (fastforce simp: too_deep_def)
  qed
  then obtain r where r: "halve_rows least depth budget start = Some r" "r \<le> step" "\<not> too_deep least depth budget r"
    "\<And>j. 2 ^ j \<le> step \<Longrightarrow> r < 2 ^ j \<Longrightarrow> budget < 2 ^ j * (depth + 2 ^ j)" by blast
  have "push_bit (bit_length step - 1) 1 = (2::int) ^ k" by (simp add: push_bit_eq_mult k_def)
  then have "depth_bounded_prefill_rows step depth (Some budget) least = Some (Inr (max r (min step least)))"
    using assms False r(1) unfolding start_def by (simp add: depth_bounded_prefill_rows_def Let_def)
  moreover have "\<not> depth + step \<le> budget div step"
  proof
    assume "depth + step \<le> budget div step"
    then have "step * (depth + step) \<le> step * (budget div step)" using assms(1) by simp
    also have "\<dots> \<le> budget" using assms(1) by (simp add: mult_div_le)
    finally show False using False by simp
  qed
  moreover have "2 ^ j \<le> max r (min step least)" if "2 ^ j \<le> step" "2 ^ j * (depth + 2 ^ j) \<le> budget" for j
    using r(4)[OF that(1)] that(2) by linarith
  ultimately show ?thesis using r(2,3) by (auto simp: too_deep_def max_def)
qed

lemma depth_bounded_Inr:
  assumes "depth_bounded_prefill_rows step depth budget least = Some (Inr r)" and "1 \<le> step"
  shows "r \<le> step" and "budget = Some b \<Longrightarrow> 0 \<le> depth \<and> (r \<le> least \<or> r * (depth + r) \<le> b)"
proof -
  have c: "0 \<le> depth \<and> 1 \<le> b" if "budget = Some b" for b
    using assms that by (auto simp: depth_bounded_prefill_rows_def split: if_splits)
  have *: "r \<le> step \<and> (r \<le> least \<or> r * (depth + r) \<le> b)" if "budget = Some b" for b
    using depth_bounded_rows_is_largest_power[OF assms(2), of depth b least] c[OF that] assms(1) that by auto
  show "r \<le> step" using * assms(1) by (cases budget) (auto simp: depth_bounded_prefill_rows_def)
  show "0 \<le> depth \<and> (r \<le> least \<or> r * (depth + r) \<le> b)" if "budget = Some b" using * c that by blast
qed

text \<open>
  A prefill reported to fit one chunk fits the scheduled step, the maximum, the
  prompt-length schedule, the depth budget and the next checkpoint.
\<close>

theorem one_chunk_prefill_respects_every_cap:
  assumes "prefill_fits_one_chunk remaining whole step autoscale maximum depth budget least checkpoint
     = Some (Inr True)"
  shows "remaining \<le> step \<and> remaining \<le> maximum
     \<and> (autoscale \<longrightarrow> (\<exists>s. prompt_length_prefill_step whole maximum = Inr s \<and> remaining \<le> s))
     \<and> (\<forall>b. budget = Some b \<longrightarrow> remaining \<le> least \<or> remaining * (depth + remaining) \<le> b)
     \<and> (\<forall>c. checkpoint = Some c \<longrightarrow> remaining = 0 \<or> depth + remaining \<le> c)"
proof -
  have g: "0 \<le> remaining" "1 \<le> whole" "1 \<le> step" "1 \<le> maximum"
    using assms by (auto simp: prefill_fits_one_chunk_def split: if_splits)
  have "\<exists>s. prompt_length_prefill_step whole maximum = Inr s \<and> 1 \<le> s"
    using g by (auto simp: prompt_length_prefill_step_def PROMPT_LENGTH_PREFILL_SCHEDULE_def split: option.splits if_splits)
  then obtain s where s: "prompt_length_prefill_step whole maximum = Inr s" "1 \<le> s" by blast
  define act where "act = (if autoscale then min (min step maximum) s else min step maximum)"
  have a: "1 \<le> act" "act \<le> step" "act \<le> maximum" "autoscale \<Longrightarrow> act \<le> s"
    using g s by (auto simp: act_def)
  obtain r n where r: "depth_bounded_prefill_rows act depth budget least = Some (Inr r)"
    and n: "checkpoint_bounded_prefill_rows r depth checkpoint = Inr n" "remaining \<le> n"
    using assms g s unfolding prefill_fits_one_chunk_def act_def
    by (auto split: option.splits sum.splits if_splits)
  note d = depth_bounded_Inr[OF r a(1)]
  have le: "n \<le> r" "0 \<le> r" "\<And>c. checkpoint = Some c \<Longrightarrow> n = 0 \<or> depth + n \<le> c"
    using n(1) by (auto simp: checkpoint_bounded_prefill_rows_def Let_def split: if_splits option.splits)
  have "remaining * (depth + remaining) \<le> r * (depth + r)" if "0 \<le> depth"
    using g(1) n(2) le(1,2) that by (intro mult_mono) auto
  note grow = this
  have small: "remaining \<le> r" "remaining \<le> act" using le d(1) n(2) by linarith+
  show ?thesis
  proof (intro conjI impI allI)
    show "remaining \<le> step" "remaining \<le> maximum" using small a by linarith+
    show "\<exists>s. prompt_length_prefill_step whole maximum = Inr s \<and> remaining \<le> s" if autoscale
      using s(1) small a(4)[OF that] by (intro exI[of _ s]) simp
    show "remaining \<le> least \<or> remaining * (depth + remaining) \<le> b" if "budget = Some b" for b
      using d(2)[OF that] grow small(1) by linarith
    show "remaining = 0 \<or> depth + remaining \<le> c" if "checkpoint = Some c" for c
      using le(3)[OF that] n(2) g(1) by linarith
  qed
qed

section \<open>Mixed forwards fill whole tiles\<close>

text \<open>
  The prompt rows of a mixed forward complete the decode rows to whole tiles; within the
  budget they are the most that do.
\<close>

theorem mixed_rows_fill_whole_tiles:
  assumes "aligned_prompt_rows budget decode tile = Inr r"
  shows "0 \<le> r \<and> tile dvd r + decode
     \<and> (decode < (budget div tile) * tile \<longrightarrow> r + decode \<le> budget
          \<and> (\<forall>q. tile dvd q + decode \<longrightarrow> q + decode \<le> budget \<longrightarrow> q \<le> r))
     \<and> ((budget div tile) * tile \<le> decode \<longrightarrow> r + decode < max decode 1 + tile)"
proof -
  have g: "1 \<le> budget" "0 \<le> decode" "1 \<le> tile" using assms by (auto simp: aligned_prompt_rows_def split: if_splits)
  let ?up = "- (- max decode 1 div tile) * tile"
  have up: "max decode 1 \<le> ?up" "?up < max decode 1 + tile"
  proof -
    define a where "a = max decode 1"
    have "tile * (- a div tile) + - a mod tile = - a" by simp
    moreover have "0 \<le> - a mod tile" "- a mod tile < tile" using g(3) by simp_all
    ultimately have "a \<le> - (tile * (- a div tile))" "- (tile * (- a div tile)) < a + tile" by linarith+
    then show "max decode 1 \<le> ?up" "?up < max decode 1 + tile" by (simp_all add: a_def mult.commute)
  qed
  have r: "r = (if (budget div tile) * tile \<le> decode then ?up - decode else (budget div tile) * tile - decode)"
    using assms g up by (auto simp: aligned_prompt_rows_def Let_def)
  show ?thesis
  proof (cases "(budget div tile) * tile \<le> decode")
    case True
    then show ?thesis using r up g by auto
  next
    case False
    have "q + decode \<le> (budget div tile) * tile" if "tile dvd q + decode" "q + decode \<le> budget" for q
    proof -
      have "(q + decode) div tile \<le> budget div tile" using that(2) g(3) by (intro zdiv_mono1) simp_all
      then have "((q + decode) div tile) * tile \<le> (budget div tile) * tile" using g(3) by (intro mult_right_mono) simp_all
      then show ?thesis using that(1) by simp
    qed
    moreover have "(budget div tile) * tile \<le> budget"
      using mult_div_le[of tile budget] g(3) by (simp add: mult.commute)
    ultimately show ?thesis using False r g by (auto simp: le_diff_eq)
  qed
qed

section \<open>Concrete plans\<close>

theorem recurrence_segments_cover_each_token_once_witness:
  "\<exists>segs. recurrence_segments 261 256 8 = Some (Inr segs) \<and> concat (map (\<lambda>(a, b). [a..b - 1]) segs) = [0..261 - 1]"
  using recurrence_segments_cover_each_token_once[of 261 8 256] by auto

lemma demo_segments: "recurrence_segments 261 256 8 = Some (Inr [(0, 240), (240, 261)])"
  by (simp add: recurrence_segments_def segments_from.simps Let_def)

theorem depth_bounded_rows_is_largest_power_witness:
  "\<exists>r. depth_bounded_prefill_rows 512 100000 (Some 20000000) 128 = Some (Inr r) \<and> 128 \<le> r \<and> r \<le> 512"
  using depth_bounded_rows_is_largest_power[of 512 100000 20000000 128] by auto

theorem one_chunk_prefill_respects_every_cap_witness:
  "100 \<le> (512::int) \<and> 64 + 100 \<le> (200::int)"
proof -
  have "prefill_fits_one_chunk 100 1000 2048 True 8192 64 (Some 1000000) 128 (Some 200) = Some (Inr True)"
    by (simp add: prefill_fits_one_chunk_def prompt_length_prefill_step_def PROMPT_LENGTH_PREFILL_SCHEDULE_def
        depth_bounded_prefill_rows_def checkpoint_bounded_prefill_rows_def Let_def)
  from one_chunk_prefill_respects_every_cap[OF this] show ?thesis by auto
qed

theorem mixed_rows_fill_whole_tiles_witness: "(64::int) dvd 127 + 1 \<and> (127::int) + 1 \<le> 128"
proof -
  have "aligned_prompt_rows 128 1 64 = Inr 127" by (simp add: aligned_prompt_rows_def)
  from mixed_rows_fill_whole_tiles[OF this] show ?thesis by simp
qed

end
