(* ===== verification/BatchGeometry.thy ===== *)
theory BatchGeometry
  imports Prelude "HOL-Library.Product_Lexorder" "HOL-Library.Sublist" "HOL-Library.Multiset"
begin

text \<open>
  The planner of \<^verbatim>\<open>runtime/batch_geometry.py\<close>: lanes, capabilities, policies, one round's plan and
  the trimming of a rectangular cohort.

  The quotient of two integers is a float: it is the argument \<open>fdiv\<close> of every definition that
  divides, so nothing below depends on how it rounds.  Thresholds are \<open>py_float\<close>; a decimal literal
  stands for the float it denotes.
\<close>

section \<open>Lanes, capabilities and policies\<close>

record geometry_lane =
  lane_uid :: int
  lane_phase :: string
  lane_tokens :: int
  draft_tokens :: int

definition check_lane :: "geometry_lane \<Rightarrow> exc + unit" where
  "check_lane l = raise_if
     [(lane_phase l \<notin> {''prefill'', ''decode''}, ValueError ''lane phase must be prefill or decode''),
      (lane_tokens l < 1, ValueError ''lane tokens must be positive''),
      (draft_tokens l < 0, ValueError ''draft_tokens must be a nonnegative integer''),
      (lane_phase l = ''prefill'' \<and> draft_tokens l \<noteq> 0, ValueError ''prefill lanes cannot carry draft tokens'')]"

record geometry_caps =
  packed_prefill :: bool
  packed_verify :: bool
  mixed_forward :: bool
  max_lanes :: int
  token_budget :: int
  prefill_chunk :: int
  row_tile :: int

definition check_caps :: "geometry_caps \<Rightarrow> exc + unit" where
  "check_caps c = raise_if
     [(max_lanes c < 1, ValueError ''max_lanes must be a positive integer''),
      (token_budget c < 1, ValueError ''token_budget must be a positive integer''),
      (prefill_chunk c < 1, ValueError ''prefill_chunk must be a positive integer''),
      (row_tile c < 1, ValueError ''row_tile must be a positive integer'')]"

text \<open>A JSON value as \<open>from_value\<close> meets it.\<close>

datatype setting = NullSetting | BoolSetting bool | IntSetting int | FloatSetting py_float | OtherSetting

record geometry_policy =
  packed_padding_fraction :: py_float
  bucket_padding_fraction :: py_float
  max_bucket_ratio :: py_float

definition check_fraction :: "string \<Rightarrow> setting \<Rightarrow> exc + py_float" where
  "check_fraction name v =
     bind_sum (case v of IntSetting i \<Rightarrow> Inr (Finite (of_int i)) | FloatSetting x \<Rightarrow> Inr x
               | _ \<Rightarrow> Inl (TypeError (name @ '' must be numeric''))) (\<lambda>x.
       if \<not> ((x = Finite 0 \<or> fl_less (Finite 0) x) \<and> fl_less x (Finite 1))
       then Inl (ValueError (name @ '' must be in [0, 1)'')) else Inr x)"

text \<open>The comparison \<open>ratio < 1\<close>: a bool is 0 or 1, anything that is no number raises.\<close>

definition check_ratio :: "setting \<Rightarrow> exc + py_float" where
  "check_ratio v =
     bind_sum (case v of IntSetting i \<Rightarrow> Inr (Finite (of_int i)) | FloatSetting x \<Rightarrow> Inr x
               | BoolSetting b \<Rightarrow> Inr (Finite (if b then 1 else 0))
               | _ \<Rightarrow> Inl (TypeError ''not supported between instances'')) (\<lambda>x.
       if fl_less x (Finite 1) then Inl (ValueError ''max_bucket_ratio must be at least one'') else Inr x)"

definition new_policy :: "setting \<Rightarrow> setting \<Rightarrow> setting \<Rightarrow> exc + geometry_policy" where
  "new_policy packed bucket ratio =
     bind_sum (check_fraction ''packed_padding_fraction'' packed) (\<lambda>p.
     bind_sum (check_fraction ''bucket_padding_fraction'' bucket) (\<lambda>b.
     bind_sum (check_ratio ratio) (\<lambda>r.
       Inr \<lparr>packed_padding_fraction = p, bucket_padding_fraction = b, max_bucket_ratio = r\<rparr>)))"

definition default_policy :: geometry_policy where
  "default_policy = \<lparr>packed_padding_fraction = Finite (20 / 100), bucket_padding_fraction = Finite (12 / 100),
     max_bucket_ratio = Finite (150 / 100)\<rparr>"

record scheduler_policy =
  policy_enabled :: bool
  policy_token_budget :: "int option"
  selection :: geometry_policy

datatype config = NoConfig | BoolConfig bool | NumberConfig rat | ObjectConfig "(string \<times> setting) list" | OtherConfig

definition new_scheduler_policy :: scheduler_policy where
  "new_scheduler_policy = \<lparr>policy_enabled = False, policy_token_budget = None, selection = default_policy\<rparr>"

definition check_policy_budget :: "setting option \<Rightarrow> exc + int option" where
  "check_policy_budget v =
     (case v of
        None \<Rightarrow> Inr None
      | Some NullSetting \<Rightarrow> Inr None
      | Some (IntSetting i) \<Rightarrow> if i < 1 then Inl (ValueError ''batch_geometry token_budget must be positive'') else Inr (Some i)
      | Some _ \<Rightarrow> Inl (ValueError ''batch_geometry token_budget must be positive''))"

definition get_setting :: "(string \<times> setting) list \<Rightarrow> string \<Rightarrow> setting \<Rightarrow> setting" where
  "get_setting m k d = (case map_of m k of None \<Rightarrow> d | Some v \<Rightarrow> v)"

definition policy_from_value :: "config \<Rightarrow> exc + scheduler_policy" where
  "policy_from_value v =
     (case v of
        NoConfig \<Rightarrow> Inr new_scheduler_policy
      | BoolConfig b \<Rightarrow> Inr (if b then new_scheduler_policy\<lparr>policy_enabled := True\<rparr> else new_scheduler_policy)
      | NumberConfig x \<Rightarrow> if x = 0 then Inr new_scheduler_policy
          else Inl (TypeError ''batch_geometry must be boolean or an object'')
      | OtherConfig \<Rightarrow> Inl (TypeError ''batch_geometry must be boolean or an object'')
      | ObjectConfig m \<Rightarrow>
          if \<exists>k \<in> set (map fst m). k \<notin> {''token_budget'', ''bucket_padding_fraction'', ''max_bucket_ratio''}
          then Inl (ValueError ''unknown batch_geometry settings'')
          else bind_sum (check_policy_budget (map_of m ''token_budget'')) (\<lambda>budget.
               bind_sum (new_policy (FloatSetting (packed_padding_fraction default_policy))
                   (get_setting m ''bucket_padding_fraction'' (FloatSetting (bucket_padding_fraction default_policy)))
                   (get_setting m ''max_bucket_ratio'' (FloatSetting (max_bucket_ratio default_policy)))) (\<lambda>sel.
                 Inr \<lparr>policy_enabled = True, policy_token_budget = budget, selection = sel\<rparr>)))"

definition policy_as_dict :: "scheduler_policy \<Rightarrow> (string \<times> setting) list" where
  "policy_as_dict p =
     [(''bucket_padding_fraction'', FloatSetting (bucket_padding_fraction (selection p))),
      (''max_bucket_ratio'', FloatSetting (max_bucket_ratio (selection p)))]
     @ (case policy_token_budget p of None \<Rightarrow> [] | Some b \<Rightarrow> [(''token_budget'', IntSetting b)])"

section \<open>Choosing lanes\<close>

fun decode_loop :: "geometry_caps \<Rightarrow> geometry_lane list \<Rightarrow> geometry_lane list \<Rightarrow> int \<Rightarrow> geometry_lane list \<times> int" where
  "decode_loop caps [] chosen charged = (chosen, charged)"
| "decode_loop caps (lane # lanes) chosen charged =
     (if lane_phase lane \<noteq> ''decode'' \<or> int (length chosen) \<ge> max_lanes caps
      then decode_loop caps lanes chosen charged
      else let width = 1 + draft_tokens lane
           in if chosen \<noteq> [] \<and> charged + width > token_budget caps then (chosen, charged)
              else decode_loop caps lanes (chosen @ [lane]) (charged + width))"

definition take_decode :: "geometry_lane list \<Rightarrow> geometry_caps \<Rightarrow> geometry_lane list \<times> int" where
  "take_decode lanes caps = decode_loop caps lanes [] 0"

definition prefill_width :: "geometry_caps \<Rightarrow> geometry_lane \<Rightarrow> int" where
  "prefill_width caps lane = min (lane_tokens lane) (prefill_chunk caps)"

definition padded_rows :: "int list \<Rightarrow> int" where
  "padded_rows widths = Max (set widths) * int (length widths)"

fun prefill_loop :: "geometry_caps \<Rightarrow> int \<Rightarrow> int \<Rightarrow> bool \<Rightarrow> geometry_lane list \<Rightarrow> geometry_lane list \<Rightarrow> geometry_lane list" where
  "prefill_loop caps budget lane_limit allow_first_overflow [] chosen = chosen"
| "prefill_loop caps budget lane_limit allow_first_overflow (lane # lanes) chosen =
     (if lane_phase lane \<noteq> ''prefill'' \<or> int (length chosen) \<ge> lane_limit
      then prefill_loop caps budget lane_limit allow_first_overflow lanes chosen
      else let widths = map (prefill_width caps) chosen @ [prefill_width caps lane]
           in if padded_rows widths > budget \<and> (chosen \<noteq> [] \<or> \<not> allow_first_overflow)
              then prefill_loop caps budget lane_limit allow_first_overflow lanes chosen
              else prefill_loop caps budget lane_limit allow_first_overflow lanes (chosen @ [lane]))"

definition take_prefill :: "geometry_lane list \<Rightarrow> geometry_caps \<Rightarrow> int \<Rightarrow> int option \<Rightarrow> bool \<Rightarrow> geometry_lane list" where
  "take_prefill lanes caps budget max_lanes' allow_first_overflow =
     prefill_loop caps budget (case max_lanes' of None \<Rightarrow> max_lanes caps | Some n \<Rightarrow> n) allow_first_overflow lanes []"

fun bucket_group :: "(int \<Rightarrow> int \<Rightarrow> rat) \<Rightarrow> py_float \<Rightarrow> int \<Rightarrow> geometry_lane list \<Rightarrow> geometry_lane list" where
  "bucket_group fdiv ratio least [] = []"
| "bucket_group fdiv ratio least (lane # lanes) =
     (if fl_less ratio (Finite (fdiv (lane_tokens lane) least)) then []
      else lane # bucket_group fdiv ratio least lanes)"

fun bucket_loop :: "(int \<Rightarrow> int \<Rightarrow> rat) \<Rightarrow> py_float \<Rightarrow> geometry_lane list \<Rightarrow> geometry_lane list \<Rightarrow> geometry_lane list" where
  "bucket_loop fdiv ratio [] best = best"
| "bucket_loop fdiv ratio (first # rest) best =
     (let group = first # bucket_group fdiv ratio (lane_tokens first) rest
      in bucket_loop fdiv ratio rest (if length group > length best then group else best))"

definition bucket :: "(int \<Rightarrow> int \<Rightarrow> rat) \<Rightarrow> geometry_lane list \<Rightarrow> py_float \<Rightarrow> geometry_lane list" where
  "bucket fdiv lanes ratio =
     (if lanes = [] then []
      else bucket_loop fdiv ratio (sort_key (\<lambda>l. (lane_tokens l, lane_uid l)) lanes) [])"

section \<open>The plan of one round\<close>

record geometry_plan =
  geometry :: string
  lane_uids :: "int list"
  decode_uids :: "int list"
  prefill_uids :: "int list"
  plan_prefill_rows :: int
  decode_rows :: int
  verification_rows :: int
  real_rows :: int
  charged_rows :: int
  padding_rows :: int
  padding_fraction :: rat
  plan_token_budget :: int
  plan_reason :: string

text \<open>The branches that choose the geometry: its name, the prefill lanes kept and the reason.\<close>

definition prefill_geometry :: "(int \<Rightarrow> int \<Rightarrow> rat) \<Rightarrow> geometry_caps \<Rightarrow> geometry_policy \<Rightarrow> geometry_lane list
    \<Rightarrow> exc + string \<times> geometry_lane list \<times> string" where
  "prefill_geometry fdiv caps policy prefill =
     (if prefill = [] then Inl (ValueError ''max() arg is an empty sequence'')
      else
        let widths = map (prefill_width caps) prefill;
            real = sum_list widths;
            padded = padded_rows widths;
            fraction = Finite (if padded = 0 then 0 else fdiv (padded - real) padded)
        in if packed_prefill caps \<and> \<not> fl_less fraction (packed_padding_fraction policy)
              \<and> packed_padding_fraction policy \<noteq> NaN
           then Inr (''packed'', prefill, ''declared packed prefill removes material rectangular padding'')
           else if \<not> fl_less fraction (bucket_padding_fraction policy)
              \<and> bucket_padding_fraction policy \<noteq> NaN \<and> length prefill > 1
           then let bucketed = bucket fdiv prefill (max_bucket_ratio policy)
                in if bucketed \<noteq> [] \<and> length bucketed < length prefill
                   then Inr (''bucketed_rectangular'', bucketed,
                     ''length bucket reduces padding without a packed capability'')
                   else Inr (''rectangular'', prefill, ''current cohort is already a compact length bucket'')
           else Inr (''rectangular'', prefill, ''padding is below the packed or bucketing threshold''))"

definition choose_geometry :: "(int \<Rightarrow> int \<Rightarrow> rat) \<Rightarrow> geometry_caps \<Rightarrow> geometry_policy \<Rightarrow> geometry_lane list
    \<Rightarrow> geometry_lane list \<Rightarrow> exc + string \<times> geometry_lane list \<times> string" where
  "choose_geometry fdiv caps policy decode prefill =
     (if decode \<noteq> [] \<and> prefill \<noteq> [] \<and> mixed_forward caps
      then Inr (''mixed_decode_first'', prefill, ''decode rows run first and share one bounded forward with prefill'')
      else if decode \<noteq> []
      then Inr (if packed_verify caps
                then (''packed'', [], ''packed speculative verification is adapter-declared'')
                else (''rectangular'', [], ''decode and speculative verification use the ordinary reference''))
      else prefill_geometry fdiv caps policy prefill)"

definition account :: "(int \<Rightarrow> int \<Rightarrow> rat) \<Rightarrow> geometry_caps \<Rightarrow> geometry_lane list
    \<Rightarrow> string \<times> geometry_lane list \<times> string \<Rightarrow> geometry_plan" where
  "account fdiv caps decode choice =
     (let (geometry, prefill, reason) = choice;
          widths = map (prefill_width caps) prefill;
          prefill_real = sum_list widths;
          rectangular_prefill = (if widths = [] then 0 else padded_rows widths);
          verification = (\<Sum>l\<leftarrow>decode. draft_tokens l);
          real = prefill_real + int (length decode) + verification;
          charged = (if geometry \<in> {''packed'', ''mixed_decode_first''} then real
                     else rectangular_prefill + int (length decode) + verification);
          decision_padding = max 0 (rectangular_prefill - prefill_real);
          selected = decode @ prefill
      in \<lparr>geometry = geometry, lane_uids = map lane_uid selected, decode_uids = map lane_uid decode,
          prefill_uids = map lane_uid prefill, plan_prefill_rows = prefill_real,
          decode_rows = int (length decode), verification_rows = verification, real_rows = real,
          charged_rows = charged,
          padding_rows = (if geometry = ''packed'' then decision_padding else max 0 (charged - real)),
          padding_fraction = (if rectangular_prefill = 0 then 0 else fdiv decision_padding rectangular_prefill),
          plan_token_budget = token_budget caps, plan_reason = reason\<rparr>)"

definition plan_batch_geometry :: "(int \<Rightarrow> int \<Rightarrow> rat) \<Rightarrow> geometry_lane list \<Rightarrow> geometry_caps \<Rightarrow> geometry_policy option
    \<Rightarrow> exc + geometry_plan" where
  "plan_batch_geometry fdiv lanes caps policy =
     (let policy = (case policy of None \<Rightarrow> default_policy | Some p \<Rightarrow> p)
      in if lanes = [] then Inl (ValueError ''at least one lane is required'')
         else let (decode, decode_charge) = take_decode lanes caps;
                  remaining_lanes = max 0 (max_lanes caps - int (length decode));
                  remaining_budget = token_budget caps - decode_charge;
                  prefill = take_prefill lanes caps remaining_budget (Some remaining_lanes) (decode = [])
              in bind_sum (choose_geometry fdiv caps policy decode prefill)
                   (\<lambda>choice. Inr (account fdiv caps decode choice)))"

section \<open>Trimming a rectangular cohort\<close>

definition positive_only :: "int list \<Rightarrow> int list" where
  "positive_only xs = filter (\<lambda>v. v > 0) xs"

definition first_occurrences :: "'a list \<Rightarrow> 'a list" where
  "first_occurrences xs = rev (remdups (rev xs))"

definition accounting :: "int list \<Rightarrow> int list \<Rightarrow> int list \<Rightarrow> int \<times> int" where
  "accounting lengths running indices =
     (let rows = running @ filter (\<lambda>v. v \<noteq> 0) (map (\<lambda>i. lengths ! nat i) indices)
      in (sum_list rows, if rows = [] then 0 else padded_rows rows))"

definition pop_at :: "nat \<Rightarrow> 'a list \<Rightarrow> 'a list" where
  "pop_at i xs = take i xs @ drop (Suc i) xs"

text \<open>\<open>min\<close> with a key: the first of the smallest.\<close>

fun first_min :: "(nat \<Rightarrow> int \<times> int \<times> int) \<Rightarrow> nat \<Rightarrow> nat list \<Rightarrow> nat" where
  "first_min key best [] = best"
| "first_min key best (x # xs) = first_min key (if key x < key best then x else best) xs"

definition trim_position :: "(int list \<Rightarrow> int \<times> int) \<Rightarrow> int list \<Rightarrow> nat" where
  "trim_position acc selected =
     first_min (\<lambda>pos. (snd (acc (pop_at pos selected)), - fst (acc (pop_at pos selected)), - int pos))
       1 [2..<length selected]"

lemma first_min_mem: "first_min key best xs \<in> insert best (set xs)"
proof (induction key best xs rule: first_min.induct)
  case (2 key best x xs)
  then show ?case by (auto split: if_splits)
qed simp

lemma trim_position_bounds:
  "1 < length selected \<Longrightarrow> 1 \<le> trim_position acc selected \<and> trim_position acc selected < length selected"
  unfolding trim_position_def
  using first_min_mem[of "\<lambda>pos. (snd (acc (pop_at pos selected)), - fst (acc (pop_at pos selected)), - int pos)"
      1 "[2..<length selected]"] by force

function trim_loop :: "(int list \<Rightarrow> int \<times> int) \<Rightarrow> int \<Rightarrow> int list \<Rightarrow> int list" where
  "trim_loop acc budget selected =
     (if length selected > 1 \<and> snd (acc selected) > budget
      then trim_loop acc budget (pop_at (trim_position acc selected) selected) else selected)"
  by pat_completeness auto
termination
proof (relation "measure (\<lambda>(acc, budget, selected). length selected)")
  fix acc :: "int list \<Rightarrow> int \<times> int" and budget and selected :: "int list"
  assume "length selected > 1 \<and> snd (acc selected) > budget"
  then show "((acc, budget, pop_at (trim_position acc selected) selected), acc, budget, selected)
      \<in> measure (\<lambda>(acc, budget, selected). length selected)"
    using trim_position_bounds[of selected acc] by (auto simp: pop_at_def)
qed simp

declare trim_loop.simps [simp del]

record trim_summary =
  candidate_rows :: int
  selected_rows :: int
  deferred_rows :: int
  trimmed_real_rows :: int
  trimmed_charged_rows :: int
  trimmed_padding_rows :: int
  original_charged_rows :: int

definition trim_rectangular_cohort :: "int list \<Rightarrow> int list \<Rightarrow> int list \<Rightarrow> int \<Rightarrow> exc + int list \<times> trim_summary" where
  "trim_rectangular_cohort lengths selected_indices active_lengths budget =
     (let running = positive_only active_lengths;
          original = first_occurrences selected_indices
      in bind_sum (raise_if
           [(budget < 1, ValueError ''token_budget must be positive''),
            ((\<exists>v \<in> set lengths. v < 0) \<or> (\<exists>v \<in> set running. v < 0),
             ValueError ''cohort lengths must be nonnegative''),
            (\<exists>i \<in> set original. \<not> (0 \<le> i \<and> i < int (length lengths)),
             ValueError ''selected cohort index is outside candidate lengths'')]) (\<lambda>_.
         let acc = accounting lengths running;
             selected = trim_loop acc budget original;
             (real, padded) = acc selected
         in Inr (selected, \<lparr>candidate_rows = int (length original), selected_rows = int (length selected),
              deferred_rows = int (length original) - int (length selected), trimmed_real_rows = real,
              trimmed_charged_rows = padded, trimmed_padding_rows = max 0 (padded - real),
              original_charged_rows = snd (acc original)\<rparr>)))"

section \<open>Trimming is within budget and keeps the head\<close>

lemma sum_le_padded: "xs \<noteq> [] \<Longrightarrow> sum_list xs \<le> padded_rows xs"
proof -
  assume "xs \<noteq> []"
  have "sum_list ys \<le> m * int (length ys)" if "\<forall>y \<in> set ys. y \<le> m" for ys :: "int list" and m
    using that by (induction ys) (auto simp: algebra_simps)
  from this[of xs "Max (set xs)"] show ?thesis by (simp add: padded_rows_def)
qed

lemma last_remdups: "xs \<noteq> [] \<Longrightarrow> last (remdups xs) = last xs"
  by (induction xs) auto

lemma pop_at_keeps:
  assumes "1 \<le> i" "i < length xs"
  shows "subseq (pop_at i xs) xs" "pop_at i xs \<noteq> []" "hd (pop_at i xs) = hd xs"
proof -
  have "subseq (take i xs @ drop (Suc i) xs) (take i xs @ drop i xs)"
    using assms by (intro list_emb_append_mono) (auto simp: Cons_nth_drop_Suc[symmetric])
  then show "subseq (pop_at i xs) xs" by (simp add: pop_at_def)
  show "pop_at i xs \<noteq> []" "hd (pop_at i xs) = hd xs"
    using assms by (cases xs; cases i; simp add: pop_at_def)+
qed

lemma trim_loop_result:
  "subseq (trim_loop acc budget sel) sel
   \<and> (sel \<noteq> [] \<longrightarrow> trim_loop acc budget sel \<noteq> [] \<and> hd (trim_loop acc budget sel) = hd sel)
   \<and> (length (trim_loop acc budget sel) \<le> 1 \<or> snd (acc (trim_loop acc budget sel)) \<le> budget)
   \<and> (snd (acc sel) \<le> budget \<longrightarrow> trim_loop acc budget sel = sel)"
proof (induction acc budget sel rule: trim_loop.induct)
  case (1 acc budget sel)
  show ?case
  proof (cases "length sel > 1 \<and> snd (acc sel) > budget")
    case True
    have p: "1 \<le> trim_position acc sel" "trim_position acc sel < length sel"
      using trim_position_bounds True by blast+
    note k = pop_at_keeps[OF p]
    have "trim_loop acc budget sel = trim_loop acc budget (pop_at (trim_position acc sel) sel)"
      using True by (subst trim_loop.simps) simp
    then show ?thesis using 1[OF True] k True by (auto intro: subseq_order.order_trans)
  next
    case False
    then show ?thesis by (subst (1 2 3 4 5 6) trim_loop.simps) auto
  qed
qed

text \<open>
  Trimming keeps the order and the head of the cohort, stops as soon as the padded charge
  fits the budget or one row is left, and touches nothing that fits already.
\<close>

theorem trimmed_cohort_fits_and_keeps_head:
  assumes "trim_rectangular_cohort lengths selected active budget = Inr (sel, s)"
  shows "subseq sel (first_occurrences selected)
    \<and> (selected \<noteq> [] \<longrightarrow> sel \<noteq> [] \<and> hd sel = hd selected)
    \<and> (length sel \<le> 1 \<or> trimmed_charged_rows s \<le> budget)
    \<and> (original_charged_rows s \<le> budget \<longrightarrow> sel = first_occurrences selected)
    \<and> trimmed_charged_rows s = trimmed_real_rows s + trimmed_padding_rows s"
proof -
  define acc where "acc = accounting lengths (positive_only active)"
  have sel: "sel = trim_loop acc budget (first_occurrences selected)"
    and s: "trimmed_charged_rows s = snd (acc sel)" "trimmed_real_rows s = fst (acc sel)"
      "trimmed_padding_rows s = max 0 (snd (acc sel) - fst (acc sel))"
      "original_charged_rows s = snd (acc (first_occurrences selected))"
    using assms by (auto simp: trim_rectangular_cohort_def Let_def acc_def split: if_splits prod.splits)
  have "fst (acc xs) \<le> snd (acc xs)" for xs
    using sum_le_padded[of "positive_only active @ filter (\<lambda>v. v \<noteq> 0) (map (\<lambda>i. lengths ! nat i) xs)"]
    by (auto simp: acc_def accounting_def Let_def)
  moreover have "selected \<noteq> [] \<Longrightarrow> hd (first_occurrences selected) = hd selected \<and> first_occurrences selected \<noteq> []"
    using last_remdups[of "rev selected"] by (simp add: first_occurrences_def hd_rev last_rev)
  ultimately show ?thesis
    using trim_loop_result[of acc budget "first_occurrences selected"] by (auto simp: s simp flip: sel)
qed

section \<open>Policies survive a round trip\<close>

lemma check_fraction_again: "check_fraction n v = Inr x \<Longrightarrow> check_fraction n (FloatSetting x) = Inr x"
  by (auto simp: check_fraction_def split: if_splits)

lemma check_ratio_again: "check_ratio v = Inr x \<Longrightarrow> check_ratio (FloatSetting x) = Inr x"
  by (auto simp: check_ratio_def split: if_splits)

lemma new_policy_again:
  assumes "new_policy a b c = Inr q"
  shows "new_policy a (FloatSetting (bucket_padding_fraction q)) (FloatSetting (max_bucket_ratio q)) = Inr q"
  using assms unfolding new_policy_def by (auto intro: check_fraction_again check_ratio_again)

lemma new_policy_default:
  "new_policy (FloatSetting (packed_padding_fraction default_policy))
     (FloatSetting (bucket_padding_fraction default_policy)) (FloatSetting (max_bucket_ratio default_policy))
   = Inr default_policy"
  by (simp add: new_policy_def check_fraction_def check_ratio_def default_policy_def)

lemma check_policy_budget_positive: "check_policy_budget v = Inr (Some b) \<Longrightarrow> 1 \<le> b"
  by (auto simp: check_policy_budget_def split: option.splits setting.splits if_splits)

text \<open>What an enabled policy was built from.\<close>

lemma enabled_policy:
  assumes "policy_from_value v = Inr p" and "policy_enabled p"
  shows "new_policy (FloatSetting (packed_padding_fraction default_policy))
      (FloatSetting (bucket_padding_fraction (selection p))) (FloatSetting (max_bucket_ratio (selection p))) = Inr (selection p)"
    and "policy_token_budget p = Some b \<Longrightarrow> 1 \<le> b"
proof -
  have "selection p = default_policy \<and> policy_token_budget p = None
    \<or> (\<exists>x c d. check_policy_budget x = Inr (policy_token_budget p)
         \<and> new_policy (FloatSetting (packed_padding_fraction default_policy)) c d = Inr (selection p))"
  proof (cases v)
    case (ObjectConfig m)
    then obtain budget sel where "check_policy_budget (map_of m ''token_budget'') = Inr budget"
      "new_policy (FloatSetting (packed_padding_fraction default_policy))
        (get_setting m ''bucket_padding_fraction'' (FloatSetting (bucket_padding_fraction default_policy)))
        (get_setting m ''max_bucket_ratio'' (FloatSetting (max_bucket_ratio default_policy))) = Inr sel"
      "p = \<lparr>policy_enabled = True, policy_token_budget = budget, selection = sel\<rparr>"
      using assms(1) by (auto simp: policy_from_value_def split: if_splits)
    then show ?thesis by auto
  qed (use assms in \<open>auto simp: policy_from_value_def new_scheduler_policy_def split: if_splits\<close>)
  then show "new_policy (FloatSetting (packed_padding_fraction default_policy))
      (FloatSetting (bucket_padding_fraction (selection p))) (FloatSetting (max_bucket_ratio (selection p))) = Inr (selection p)"
    "policy_token_budget p = Some b \<Longrightarrow> 1 \<le> b"
    using new_policy_default new_policy_again check_policy_budget_positive by auto
qed

text \<open>
  C26: An enabled scheduler policy read from any configuration value is read back unchanged from
  the dict it prints.
\<close>

theorem policy_round_trip:
  assumes "policy_from_value v = Inr p" and "policy_enabled p"
  shows "policy_from_value (ObjectConfig (policy_as_dict p)) = Inr p"
proof (cases "policy_token_budget p")
  case None
  then show ?thesis
    using enabled_policy(1)[OF assms] assms(2)
    by (simp add: policy_from_value_def policy_as_dict_def get_setting_def check_policy_budget_def)
next
  case (Some b)
  then show ?thesis
    using enabled_policy[OF assms] assms(2)
    by (simp add: policy_from_value_def policy_as_dict_def get_setting_def check_policy_budget_def not_less)
qed

section \<open>One round stays within the token budget\<close>

definition decode_cost :: "geometry_lane list \<Rightarrow> int" where
  "decode_cost ls = (\<Sum>l\<leftarrow>ls. 1 + draft_tokens l)"

lemma decode_loop_result:
  assumes "decode_loop caps lanes chosen charged = (chosen', charged')"
    and "charged = decode_cost chosen" and "charged \<le> token_budget caps \<or> length chosen \<le> 1"
  shows "charged' = decode_cost chosen' \<and> (charged' \<le> token_budget caps \<or> length chosen' \<le> 1)
    \<and> int (length chosen') \<le> max (int (length chosen)) (max_lanes caps)
    \<and> (\<exists>n. chosen' = chosen @ take n (filter (\<lambda>l. lane_phase l = ''decode'') lanes))"
  using assms
proof (induction caps lanes chosen charged rule: decode_loop.induct)
  case (1 caps chosen charged)
  then show ?case by (auto intro: exI[of _ 0])
next
  case (2 caps lane lanes chosen charged)
  show ?case
  proof (cases "lane_phase lane \<noteq> ''decode'' \<or> int (length chosen) \<ge> max_lanes caps")
    case True
    then have IH: "charged' = decode_cost chosen' \<and> (charged' \<le> token_budget caps \<or> length chosen' \<le> 1)
      \<and> int (length chosen') \<le> max (int (length chosen)) (max_lanes caps)
      \<and> (\<exists>n. chosen' = chosen @ take n (filter (\<lambda>l. lane_phase l = ''decode'') lanes))"
      using 2 by (intro "2.IH"(1)) simp_all
    then obtain n where n: "chosen' = chosen @ take n (filter (\<lambda>l. lane_phase l = ''decode'') lanes)" by blast
    have "\<exists>n. chosen' = chosen @ take n (filter (\<lambda>l. lane_phase l = ''decode'') (lane # lanes))"
    proof (cases "lane_phase lane = ''decode''")
      case False
      then show ?thesis using n by auto
    next
      case dec: True
      then have "int (length chosen') \<le> int (length chosen)" using True IH by simp
      then have "chosen' = chosen @ take 0 (filter (\<lambda>l. lane_phase l = ''decode'') (lane # lanes))"
        using n by (cases "take n (filter (\<lambda>l. lane_phase l = ''decode'') lanes)") simp_all
      then show ?thesis by blast
    qed
    then show ?thesis using IH by blast
  next
    case False
    show ?thesis
    proof (cases "chosen \<noteq> [] \<and> charged + (1 + draft_tokens lane) > token_budget caps")
      case True
      then have "chosen' = chosen @ take 0 lanes" "charged' = charged" using False "2.prems"(1) by (simp_all add: Let_def)
      then show ?thesis using "2.prems" by (auto intro: exI[of _ 0])
    next
      case ok: False
      have "charged' = decode_cost chosen' \<and> (charged' \<le> token_budget caps \<or> length chosen' \<le> 1)
        \<and> int (length chosen') \<le> max (int (length (chosen @ [lane]))) (max_lanes caps)
        \<and> (\<exists>n. chosen' = (chosen @ [lane]) @ take n (filter (\<lambda>l. lane_phase l = ''decode'') lanes))"
        using False ok "2.prems"
        by (intro "2.IH"(2)[where x = "1 + draft_tokens lane"]) (auto simp: Let_def decode_cost_def)
      then show ?thesis
        using False by (auto intro: exI[of _ "Suc n" for n])
    qed
  qed
qed

lemma Max_mono_list: "set xs \<subseteq> set ys \<Longrightarrow> xs \<noteq> [] \<Longrightarrow> Max (set xs) \<le> Max (set (ys :: int list))"
  by (rule Max_mono) auto

lemma padded_mono:
  assumes "set xs \<subseteq> set ys" "xs \<noteq> []" "length xs \<le> length ys" "\<forall>y \<in> set ys. 0 \<le> y"
  shows "padded_rows xs \<le> padded_rows ys"
proof -
  have "0 \<le> Max (set xs)" using assms(1,2,4) by (meson List.finite_set Max_in set_empty subsetD)
  then show ?thesis
    using Max_mono_list[OF assms(1,2)] assms(3) unfolding padded_rows_def by (intro mult_mono) auto
qed

text \<open>The cohort \<open>chosen\<close> fits, or is the one lane that may overflow.\<close>

definition cohort_fits :: "geometry_caps \<Rightarrow> int \<Rightarrow> bool \<Rightarrow> geometry_lane list \<Rightarrow> bool" where
  "cohort_fits caps budget overflow ls \<longleftrightarrow>
     ls = [] \<or> padded_rows (map (prefill_width caps) ls) \<le> budget \<or> (overflow \<and> length ls = 1)"

lemma prefill_loop_result:
  assumes "cohort_fits caps budget overflow chosen"
  shows "cohort_fits caps budget overflow (prefill_loop caps budget limit overflow lanes chosen)
    \<and> int (length (prefill_loop caps budget limit overflow lanes chosen)) \<le> max (int (length chosen)) limit
    \<and> (\<exists>new. prefill_loop caps budget limit overflow lanes chosen = chosen @ new
         \<and> subseq new (filter (\<lambda>l. lane_phase l = ''prefill'') lanes))"
  using assms
proof (induction caps budget limit overflow lanes chosen rule: prefill_loop.induct)
  case (1 caps budget limit overflow chosen)
  then show ?case by simp
next
  case (2 caps budget limit overflow lane lanes chosen)
  let ?widths = "map (prefill_width caps) chosen @ [prefill_width caps lane]"
  let ?keep = "\<not> (lane_phase lane \<noteq> ''prefill'' \<or> int (length chosen) \<ge> limit)
    \<and> \<not> (padded_rows ?widths > budget \<and> (chosen \<noteq> [] \<or> \<not> overflow))"
  show ?case
  proof (cases ?keep)
    case True
    then have eq: "prefill_loop caps budget limit overflow (lane # lanes) chosen
        = prefill_loop caps budget limit overflow lanes (chosen @ [lane])" by (auto simp: Let_def)
    have fits: "cohort_fits caps budget overflow (chosen @ [lane])"
      using True by (auto simp: cohort_fits_def not_less)
    have "cohort_fits caps budget overflow (prefill_loop caps budget limit overflow lanes (chosen @ [lane]))
      \<and> int (length (prefill_loop caps budget limit overflow lanes (chosen @ [lane]))) \<le> max (int (length (chosen @ [lane]))) limit
      \<and> (\<exists>new. prefill_loop caps budget limit overflow lanes (chosen @ [lane]) = (chosen @ [lane]) @ new
         \<and> subseq new (filter (\<lambda>l. lane_phase l = ''prefill'') lanes))"
      by (rule "2.IH"(3)) (use True fits in \<open>auto simp: Let_def\<close>)
    then show ?thesis unfolding eq using True by (auto intro: exI[of _ "lane # new" for new])
  next
    case False
    then have eq: "prefill_loop caps budget limit overflow (lane # lanes) chosen
        = prefill_loop caps budget limit overflow lanes chosen" by (auto simp: Let_def)
    have "cohort_fits caps budget overflow (prefill_loop caps budget limit overflow lanes chosen)
      \<and> int (length (prefill_loop caps budget limit overflow lanes chosen)) \<le> max (int (length chosen)) limit
      \<and> (\<exists>new. prefill_loop caps budget limit overflow lanes chosen = chosen @ new
         \<and> subseq new (filter (\<lambda>l. lane_phase l = ''prefill'') lanes))"
    proof (cases "lane_phase lane \<noteq> ''prefill'' \<or> int (length chosen) \<ge> limit")
      case True
      then show ?thesis using "2.IH"(1) "2.prems" by blast
    next
      case skip: False
      then have "padded_rows ?widths > budget \<and> (chosen \<noteq> [] \<or> \<not> overflow)" using False by blast
      then show ?thesis using "2.IH"(2)[OF skip refl] "2.prems" by blast
    qed
    then show ?thesis unfolding eq by (auto intro: list_emb_Cons)
  qed
qed

lemma prefill_loop_first:
  assumes "lane_phase l = ''prefill''" "1 \<le> limit"
  shows "prefill_loop caps budget limit True (l # ls) [] \<noteq> []"
proof -
  have "cohort_fits caps budget True [l]" by (simp add: cohort_fits_def)
  from prefill_loop_result[OF this, of limit ls] show ?thesis using assms by (auto simp: Let_def)
qed

lemma subseq_set: "subseq xs ys \<Longrightarrow> set xs \<subseteq> set ys"
  by (metis notin_set_nthsI subseq_conv_nths subsetI)

lemma distinct_map_subseq: "subseq xs ys \<Longrightarrow> distinct (map f ys) \<Longrightarrow> distinct (map f xs)"
  by (metis distinct_nthsI nths_map subseq_conv_nths)

lemma bucket_group_subseq: "subseq (bucket_group fdiv ratio least ls) ls"
  by (induction ls) auto

lemma bucket_loop_subseq:
  assumes "subseq best all" and "subseq ls all"
  shows "subseq (bucket_loop fdiv ratio ls best) all"
  using assms
proof (induction fdiv ratio ls best rule: bucket_loop.induct)
  case (2 fdiv ratio first rest best)
  have "subseq (first # bucket_group fdiv ratio (lane_tokens first) rest) all"
    using bucket_group_subseq subseq_order.order_trans[OF _ "2.prems"(2)] by (meson subseq_Cons2_iff)
  moreover have "subseq rest all" using "2.prems"(2) by (rule subseq_Cons')
  ultimately show ?case using "2.IH"[OF refl] "2.prems"(1) by (simp add: Let_def)
qed simp

lemma bucket_lanes:
  "length (bucket fdiv ls ratio) \<le> length ls" "set (bucket fdiv ls ratio) \<subseteq> set ls"
  "distinct (map lane_uid ls) \<Longrightarrow> distinct (map lane_uid (bucket fdiv ls ratio))"
proof -
  define sorted_lanes where "sorted_lanes = sort_key (\<lambda>l. (lane_tokens l, lane_uid l)) ls"
  have sub: "subseq (bucket fdiv ls ratio) sorted_lanes"
    using bucket_loop_subseq[of "[]" sorted_lanes sorted_lanes fdiv ratio]
    by (simp add: bucket_def sorted_lanes_def)
  have m: "mset sorted_lanes = mset ls" by (simp add: sorted_lanes_def)
  show "length (bucket fdiv ls ratio) \<le> length ls"
    using list_emb_length[OF sub] mset_eq_length[OF m] by simp
  show "set (bucket fdiv ls ratio) \<subseteq> set ls"
    using subseq_set[OF sub] mset_eq_setD[OF m] by simp
  assume "distinct (map lane_uid ls)"
  then have "distinct (map lane_uid sorted_lanes)"
    using m by (metis mset_map mset_eq_imp_distinct_iff)
  then show "distinct (map lane_uid (bucket fdiv ls ratio))"
    by (rule distinct_map_subseq[OF sub])
qed

lemma choose_geometry_kept:
  assumes "choose_geometry fdiv caps policy decode prefill = Inr (g, kept, why)"
  shows "set kept \<subseteq> set prefill" "length kept \<le> length prefill" "decode = [] \<Longrightarrow> kept \<noteq> []"
    "distinct (map lane_uid prefill) \<Longrightarrow> distinct (map lane_uid kept)"
    "decode \<noteq> [] \<Longrightarrow> g = ''mixed_decode_first'' \<and> kept = prefill \<or> kept = []"
  using assms bucket_lanes[where fdiv = fdiv and ls = prefill and ratio = "max_bucket_ratio policy"]
  by (auto simp: choose_geometry_def prefill_geometry_def Let_def split: if_splits)

lemma choose_geometry_returns:
  "decode \<noteq> [] \<or> prefill \<noteq> [] \<Longrightarrow> \<exists>choice. choose_geometry fdiv caps policy decode prefill = Inr choice"
  by (cases "choose_geometry fdiv caps policy decode prefill")
    (auto simp: choose_geometry_def prefill_geometry_def Let_def split: if_splits)

definition lanes_ok :: "geometry_lane list \<Rightarrow> geometry_caps \<Rightarrow> bool" where
  "lanes_ok lanes caps \<longleftrightarrow> lanes \<noteq> [] \<and> (\<forall>l \<in> set lanes. check_lane l = Inr ()) \<and> check_caps caps = Inr ()"

lemma check_lane_phase: "check_lane l = Inr () \<Longrightarrow> lane_phase l = ''prefill'' \<or> lane_phase l = ''decode''"
  by (simp add: check_lane_def split: if_splits)

lemma check_lane_tokens: "check_lane l = Inr () \<Longrightarrow> 1 \<le> lane_tokens l \<and> 0 \<le> draft_tokens l"
  by (simp add: check_lane_def split: if_splits)

lemma check_caps_positive: "check_caps c = Inr () \<Longrightarrow> 1 \<le> max_lanes c \<and> 1 \<le> token_budget c \<and> 1 \<le> prefill_chunk c"
  by (simp add: check_caps_def split: if_splits)

text \<open>The pieces a plan is made of.\<close>

lemma planned_parts:
  assumes ok: "lanes_ok lanes caps"
  defines "decode \<equiv> fst (take_decode lanes caps)"
  obtains charge prefill n where "take_decode lanes caps = (decode, charge)" "charge = decode_cost decode"
    "charge \<le> token_budget caps \<or> length decode \<le> 1"
    "decode = take n (filter (\<lambda>l. lane_phase l = ''decode'') lanes)"
    "prefill = take_prefill lanes caps (token_budget caps - charge)
       (Some (max 0 (max_lanes caps - int (length decode)))) (decode = [])"
    "cohort_fits caps (token_budget caps - charge) (decode = []) prefill"
    "subseq prefill (filter (\<lambda>l. lane_phase l = ''prefill'') lanes)"
    "int (length decode) + int (length prefill) \<le> max_lanes caps"
    "decode \<noteq> [] \<or> prefill \<noteq> []" "filter (\<lambda>l. lane_phase l = ''decode'') lanes \<noteq> [] \<Longrightarrow> decode \<noteq> []"
proof -
  have caps: "1 \<le> max_lanes caps" using ok check_caps_positive by (auto simp: lanes_ok_def)
  obtain charge where d: "take_decode lanes caps = (decode, charge)" by (cases "take_decode lanes caps") (simp add: decode_def)
  have D: "charge = decode_cost decode \<and> (charge \<le> token_budget caps \<or> length decode \<le> 1)
    \<and> int (length decode) \<le> max (int (length ([] :: geometry_lane list))) (max_lanes caps)
    \<and> (\<exists>n. decode = [] @ take n (filter (\<lambda>l. lane_phase l = ''decode'') lanes))"
    by (rule decode_loop_result[where charged = 0]) (use d in \<open>simp_all add: take_decode_def decode_cost_def\<close>)
  define prefill where "prefill = take_prefill lanes caps (token_budget caps - charge)
       (Some (max 0 (max_lanes caps - int (length decode)))) (decode = [])"
  have "cohort_fits caps (token_budget caps - charge) (decode = []) []" by (simp add: cohort_fits_def)
  from prefill_loop_result[OF this, of "max 0 (max_lanes caps - int (length decode))" lanes]
  have P: "cohort_fits caps (token_budget caps - charge) (decode = []) prefill"
    "subseq prefill (filter (\<lambda>l. lane_phase l = ''prefill'') lanes)"
    "int (length prefill) \<le> max 0 (max_lanes caps - int (length decode))"
    by (auto simp: prefill_def take_prefill_def)
  have first: "decode_loop caps ls [] 0 = (ds, c) \<Longrightarrow> filter (\<lambda>l. lane_phase l = ''decode'') ls \<noteq> [] \<Longrightarrow> ds \<noteq> []" for ls ds c
  proof (induction ls)
    case (Cons l ls)
    show ?case
    proof (cases "lane_phase l = ''decode''")
      case True
      then have "decode_loop caps ls [l] (1 + draft_tokens l) = (ds, c)" using Cons.prems(1) caps by (simp add: Let_def)
      from decode_loop_result[OF this] show ?thesis by (auto simp: decode_cost_def)
    next
      case False
      then show ?thesis using Cons by simp
    qed
  qed simp
  have dec: "filter (\<lambda>l. lane_phase l = ''decode'') lanes \<noteq> [] \<Longrightarrow> decode \<noteq> []"
    using first d by (simp add: take_decode_def)
  have "decode \<noteq> [] \<or> prefill \<noteq> []"
  proof (cases lanes)
    case Nil
    then show ?thesis using ok by (simp add: lanes_ok_def)
  next
    case (Cons l ls)
    then have "lane_phase l = ''prefill'' \<or> lane_phase l = ''decode''" using ok check_lane_phase by (simp add: lanes_ok_def)
    then show ?thesis
      using dec prefill_loop_first[of l "max_lanes caps" caps "token_budget caps - charge" ls] caps Cons
      by (cases "decode = []") (auto simp: prefill_def take_prefill_def)
  qed
  note some = this
  obtain n where n: "decode = take n (filter (\<lambda>l. lane_phase l = ''decode'') lanes)" using D by auto
  have len: "int (length decode) + int (length prefill) \<le> max_lanes caps" using P(3) D caps by auto
  show ?thesis
    by (rule that[OF d _ _ n prefill_def P(1,2) len some dec]) (use D in blast)+
qed

lemma plan_eq:
  assumes "lanes_ok lanes caps"
    and "take_decode lanes caps = (decode, charge)"
    and "prefill = take_prefill lanes caps (token_budget caps - charge)
       (Some (max 0 (max_lanes caps - int (length decode)))) (decode = [])"
  shows "plan_batch_geometry fdiv lanes caps policy =
    bind_sum (choose_geometry fdiv caps (case policy of None \<Rightarrow> default_policy | Some p \<Rightarrow> p) decode prefill)
      (\<lambda>choice. Inr (account fdiv caps decode choice))"
  using assms by (simp add: plan_batch_geometry_def lanes_ok_def Let_def)

lemma account_simps:
  "lane_uids (account fdiv caps decode (g, kept, why)) = map lane_uid (decode @ kept)"
  "decode_uids (account fdiv caps decode (g, kept, why)) = map lane_uid decode"
  "prefill_uids (account fdiv caps decode (g, kept, why)) = map lane_uid kept"
  "real_rows (account fdiv caps decode (g, kept, why)) = sum_list (map (prefill_width caps) kept) + decode_cost decode"
  "charged_rows (account fdiv caps decode (g, kept, why)) =
     (if g \<in> {''packed'', ''mixed_decode_first''} then sum_list (map (prefill_width caps) kept) + decode_cost decode
      else (if kept = [] then 0 else padded_rows (map (prefill_width caps) kept)) + decode_cost decode)"
  by (simp_all add: account_def Let_def decode_cost_def sum_list_addf sum_list_triv)

text \<open>
  C16: A planned round charges at most the token budget unless it runs a single lane, charges at
  least its real rows, and takes between one and max_lanes lanes.
\<close>

theorem geometry_plan_respects_budget:
  assumes ok: "lanes_ok lanes caps" and p: "plan_batch_geometry fdiv lanes caps policy = Inr p"
  shows "(charged_rows p \<le> token_budget caps \<or> length (lane_uids p) = 1)
    \<and> real_rows p \<le> charged_rows p \<and> 1 \<le> length (lane_uids p) \<and> int (length (lane_uids p)) \<le> max_lanes caps"
proof -
  define decode where "decode = fst (take_decode lanes caps)"
  obtain charge prefill n where d: "take_decode lanes caps = (decode, charge)" "charge = decode_cost decode"
    "charge \<le> token_budget caps \<or> length decode \<le> 1"
    and pre: "prefill = take_prefill lanes caps (token_budget caps - charge)
       (Some (max 0 (max_lanes caps - int (length decode)))) (decode = [])"
    and fits: "cohort_fits caps (token_budget caps - charge) (decode = []) prefill"
    and sub: "subseq prefill (filter (\<lambda>l. lane_phase l = ''prefill'') lanes)"
    and len: "int (length decode) + int (length prefill) \<le> max_lanes caps" and some: "decode \<noteq> [] \<or> prefill \<noteq> []"
    unfolding decode_def using planned_parts[OF ok] by metis
  obtain g kept why where c: "choose_geometry fdiv caps (case policy of None \<Rightarrow> default_policy | Some p \<Rightarrow> p) decode prefill = Inr (g, kept, why)"
    and pp: "p = account fdiv caps decode (g, kept, why)"
    using p plan_eq[OF ok d(1) pre] by auto
  note kept = choose_geometry_kept[OF c]
  have "set prefill \<subseteq> set lanes"
    using subseq_set[OF sub] by auto
  then have pos: "\<forall>l \<in> set prefill. 0 \<le> prefill_width caps l"
    using ok check_lane_tokens check_caps_positive by (fastforce simp: lanes_ok_def prefill_width_def)
  have mono: "padded_rows (map (prefill_width caps) kept) \<le> padded_rows (map (prefill_width caps) prefill)" if "kept \<noteq> []"
    by (rule padded_mono) (use kept(1,2) that pos in auto)
  have real: "sum_list (map (prefill_width caps) kept) \<le> (if kept = [] then 0 else padded_rows (map (prefill_width caps) kept))"
    using sum_le_padded[of "map (prefill_width caps) kept"] by simp
  have one: "length (decode @ kept) \<ge> 1" using kept(3) by (cases decode; cases kept) auto
  have "charged_rows p \<le> token_budget caps \<or> length (lane_uids p) = 1"
  proof (cases "decode = []")
    case True
    then have k: "kept \<noteq> []" "charge = 0" using kept(3) d(2) by (simp_all add: decode_cost_def)
    have "charged_rows p \<le> padded_rows (map (prefill_width caps) kept)"
      using real k True by (auto simp: pp account_simps decode_cost_def)
    moreover have "padded_rows (map (prefill_width caps) prefill) \<le> token_budget caps \<or> length kept = 1"
      using fits k kept(2) some True by (cases kept) (auto simp: cohort_fits_def)
    ultimately show ?thesis using mono k True by (auto simp: pp account_simps)
  next
    case False
    show ?thesis
    proof (cases "kept = []")
      case True
      then show ?thesis using d(2,3) False by (cases decode) (auto simp: pp account_simps)
    next
      case k: False
      then have "g = ''mixed_decode_first''" "kept = prefill" using kept(5)[OF False] by auto
      moreover have "padded_rows (map (prefill_width caps) kept) \<le> token_budget caps - charge"
        using fits False k kept(5)[OF False] by (auto simp: cohort_fits_def)
      ultimately show ?thesis using real k d(2) by (simp add: pp account_simps)
    qed
  qed
  moreover have "length (decode @ kept) \<le> length decode + length prefill" using kept(2) by simp
  ultimately show ?thesis using real one len by (auto simp: pp account_simps)
qed

text \<open>
  Planning never fails on valid lanes; the decode lanes it runs are the first ones in
  order, at least one if any is ready, followed only by prefill lanes, each once.
\<close>

theorem geometry_plan_is_decode_first:
  assumes ok: "lanes_ok lanes caps"
  shows "\<exists>p n. plan_batch_geometry fdiv lanes caps policy = Inr p
    \<and> decode_uids p = map lane_uid (take n (filter (\<lambda>l. lane_phase l = ''decode'') lanes))
    \<and> ((\<exists>l \<in> set lanes. lane_phase l = ''decode'') \<longrightarrow> decode_uids p \<noteq> [])
    \<and> lane_uids p = decode_uids p @ prefill_uids p
    \<and> set (prefill_uids p) \<subseteq> lane_uid ` {l \<in> set lanes. lane_phase l = ''prefill''}
    \<and> (distinct (map lane_uid lanes) \<longrightarrow> distinct (prefill_uids p))"
proof -
  define decode where "decode = fst (take_decode lanes caps)"
  obtain charge prefill n where d: "take_decode lanes caps = (decode, charge)"
    "decode = take n (filter (\<lambda>l. lane_phase l = ''decode'') lanes)"
    and pre: "prefill = take_prefill lanes caps (token_budget caps - charge)
       (Some (max 0 (max_lanes caps - int (length decode)))) (decode = [])"
    and sub: "subseq prefill (filter (\<lambda>l. lane_phase l = ''prefill'') lanes)"
    and some: "decode \<noteq> [] \<or> prefill \<noteq> []" "filter (\<lambda>l. lane_phase l = ''decode'') lanes \<noteq> [] \<Longrightarrow> decode \<noteq> []"
    unfolding decode_def using planned_parts[OF ok] by metis
  obtain g kept why where c: "choose_geometry fdiv caps (case policy of None \<Rightarrow> default_policy | Some p \<Rightarrow> p) decode prefill = Inr (g, kept, why)"
    using choose_geometry_returns[OF some(1)] by (metis prod_cases3)
  then have p: "plan_batch_geometry fdiv lanes caps policy = Inr (account fdiv caps decode (g, kept, why))"
    using plan_eq[OF ok d(1) pre] by simp
  note kept = choose_geometry_kept[OF c]
  have "set prefill \<subseteq> {l \<in> set lanes. lane_phase l = ''prefill''}"
    using subseq_set[OF sub] by auto
  moreover have "distinct (map lane_uid kept)" if "distinct (map lane_uid lanes)"
    by (rule kept(4), rule distinct_map_subseq[OF sub], rule distinct_map_filter[OF that])
  moreover have "(\<exists>l \<in> set lanes. lane_phase l = ''decode'') \<Longrightarrow> decode \<noteq> []"
    using some(2) by (auto simp: filter_empty_conv)
  moreover have "set (map lane_uid kept) \<subseteq> lane_uid ` set prefill" using kept(1) by auto
  ultimately show ?thesis
    by (intro exI[of _ "account fdiv caps decode (g, kept, why)"] exI[of _ n])
      (simp add: p account_simps flip: d(2), blast)
qed

section \<open>A concrete round\<close>

definition demo_lanes :: "geometry_lane list" where
  "demo_lanes = [\<lparr>lane_uid = 1, lane_phase = ''prefill'', lane_tokens = 90, draft_tokens = 0\<rparr>,
     \<lparr>lane_uid = 2, lane_phase = ''decode'', lane_tokens = 1, draft_tokens = 3\<rparr>,
     \<lparr>lane_uid = 3, lane_phase = ''prefill'', lane_tokens = 40, draft_tokens = 0\<rparr>]"

definition demo_caps :: geometry_caps where
  "demo_caps = \<lparr>packed_prefill = True, packed_verify = False, mixed_forward = True, max_lanes = 4,
     token_budget = 200, prefill_chunk = 64, row_tile = 64\<rparr>"

definition exact_div :: "int \<Rightarrow> int \<Rightarrow> rat" where
  "exact_div a b = of_int a / of_int b"

lemma demo_lanes_ok: "lanes_ok demo_lanes demo_caps"
  by (simp add: lanes_ok_def demo_lanes_def demo_caps_def check_lane_def check_caps_def)

theorem geometry_plan_respects_budget_witness:
  "\<exists>p. plan_batch_geometry exact_div demo_lanes demo_caps None = Inr p
     \<and> (charged_rows p \<le> 200 \<or> length (lane_uids p) = 1)"
proof -
  have "plan_batch_geometry exact_div demo_lanes demo_caps None
      = Inr (projr (plan_batch_geometry exact_div demo_lanes demo_caps None))"
    by code_simp
  from geometry_plan_respects_budget[OF demo_lanes_ok this] this show ?thesis
    by (auto simp: demo_caps_def)
qed

theorem geometry_plan_is_decode_first_witness:
  "\<exists>p. plan_batch_geometry exact_div demo_lanes demo_caps None = Inr p
     \<and> lane_uids p = decode_uids p @ prefill_uids p \<and> decode_uids p \<noteq> []"
  using geometry_plan_is_decode_first[OF demo_lanes_ok, of exact_div None] by (auto simp: demo_lanes_def)

lemma demo_round:
  "map_sum id (\<lambda>p. (geometry p, decode_uids p, prefill_uids p, charged_rows p))
     (plan_batch_geometry exact_div demo_lanes demo_caps None)
   = Inr (''mixed_decode_first'', [2], [1, 3], 108)"
  by code_simp

theorem trimmed_cohort_fits_and_keeps_head_witness:
  "\<exists>sel s. trim_rectangular_cohort [10, 100, 12] [0, 1, 2] [8] 40 = Inr (sel, s) \<and> hd sel = 0"
proof -
  have t: "trim_rectangular_cohort [10, 100, 12] [0, 1, 2] [8] 40
      = Inr (projr (trim_rectangular_cohort [10, 100, 12] [0, 1, 2] [8] 40))"
    by code_simp
  then show ?thesis
    using trimmed_cohort_fits_and_keeps_head[where lengths = "[10, 100, 12]" and selected = "[0, 1, 2]" and active = "[8]"
        and budget = 40] by (metis list.sel(1) neq_Nil_conv prod.collapse)
qed

text \<open>A tie in the padded charge is broken by the real rows left, before the position.\<close>

lemma tie_keeps_more_real_rows:
  "map_sum id fst (trim_rectangular_cohort [10, 3, 5] [0, 1, 2] [] 20) = Inr [0, 2]"
  by code_simp

theorem policy_round_trip_witness:
  "policy_from_value (ObjectConfig (policy_as_dict (projr (policy_from_value (ObjectConfig [(''token_budget'', IntSetting 512)])))))
     = Inr (projr (policy_from_value (ObjectConfig [(''token_budget'', IntSetting 512)])))"
  by (rule policy_round_trip[where v = "ObjectConfig [(''token_budget'', IntSetting 512)]"]) code_simp+

end
