(* ===== verification/InteriorPlacement.thy ===== *)
theory InteriorPlacement
  imports Prelude "HOL-Library.List_Lexorder" "HOL-Library.Product_Lexorder"
begin

text \<open>
  Placement of interior checkpoints, \<^verbatim>\<open>runtime/interior_placement.py\<close>.

  The tokenizer is code outside the repository: the rendering of a chat template is an argument
  (it may raise), and so are the ids its attributes list as special.  The two \<open>while\<close> loops over a
  stride are \<open>partial_function (option)\<close>; a plan that is accepted returns.
\<close>

section \<open>Lattices\<close>

definition PLACEMENTS :: "string list" where
  "PLACEMENTS = [''pow2'', ''turns'', ''tail'', ''auto'']"

definition check_int :: "string \<Rightarrow> int \<Rightarrow> int \<Rightarrow> exc + int" where
  "check_int name v minimum =
     (if v < minimum then Inl (ValueError (''interior checkpoint '' @ name @ '' must be an integer'')) else Inr v)"

partial_function (option) pow2_loop :: "int \<Rightarrow> int \<Rightarrow> int list \<Rightarrow> int list option" where
  "pow2_loop prompt_tokens position collected =
     (if position < prompt_tokens - 1
      then pow2_loop prompt_tokens (position * 2) (collected @ [position]) else Some collected)"

definition pow2_positions :: "int \<Rightarrow> int \<Rightarrow> int \<Rightarrow> int list option" where
  "pow2_positions prompt_tokens count min_stride =
     map_option (\<lambda>collected. if count \<noteq> 0 then slice_from (- count) collected else [])
       (pow2_loop prompt_tokens min_stride [])"

partial_function (option) tail_loop :: "int \<Rightarrow> int \<Rightarrow> int list \<Rightarrow> int list option" where
  "tail_loop limit stride out =
     (if stride \<le> limit
      then let point = (limit div stride) * stride
           in tail_loop limit (stride * 4) (if point > 0 \<and> point \<notin> set out then out @ [point] else out)
      else Some out)"

definition tail_positions :: "int \<Rightarrow> int \<Rightarrow> int list option" where
  "tail_positions prompt_tokens min_stride = tail_loop (prompt_tokens - 2) min_stride []"

definition turn_boundary_positions :: "int list \<Rightarrow> int list option \<Rightarrow> int list" where
  "turn_boundary_positions tokens marker_ids =
     (let markers = (case marker_ids of None \<Rightarrow> [] | Some ms \<Rightarrow> ms);
          last = int (length tokens) - 1
      in if markers = [] then []
         else filter (\<lambda>i. 0 < i \<and> i < last \<and> tokens ! nat i \<in> set markers) (map int [0..<length tokens]))"

section \<open>Picking positions\<close>

text \<open>The dict \<open>picked\<close>, in insertion order.\<close>

type_synonym picks = "(int \<times> string) list"

definition usable :: "int \<Rightarrow> int \<Rightarrow> int \<Rightarrow> bool" where
  "usable low whole position \<longleftrightarrow> low < position \<and> position < whole - 1"

definition redundant :: "int \<Rightarrow> int \<Rightarrow> int \<Rightarrow> int option \<Rightarrow> picks \<Rightarrow> bool" where
  "redundant low position spacing fallback picked \<longleftrightarrow>
     (let others = map fst picked
      in (\<exists>q \<in> set others. 0 \<le> position - q \<and> position - q < spacing)
       \<or> ((\<exists>q \<in> set others. 0 < q - position \<and> q - position < spacing)
          \<and> (let below = filter (\<lambda>q. q < position) others @ (case fallback of None \<Rightarrow> [] | Some f \<Rightarrow> [f])
             in position - (if below = [] then low else Max (set below)) < 4 * spacing)))"

definition take_position :: "int \<Rightarrow> int \<Rightarrow> int \<Rightarrow> string \<Rightarrow> int \<Rightarrow> int option \<Rightarrow> int \<Rightarrow> picks \<Rightarrow> picks" where
  "take_position count low whole source spacing fallback position picked =
     (if int (length picked) \<ge> count \<or> position \<in> set (map fst picked) \<or> \<not> usable low whole position then picked
      else if spacing \<noteq> 0 \<and> redundant low position spacing fallback picked then picked
      else picked @ [(position, source)])"

definition take_all :: "int \<Rightarrow> int \<Rightarrow> int \<Rightarrow> string \<Rightarrow> int list \<Rightarrow> picks \<Rightarrow> picks" where
  "take_all count low whole source positions picked =
     fold (take_position count low whole source 0 None) positions picked"

fun take_tails :: "int \<Rightarrow> int \<Rightarrow> int \<Rightarrow> int \<Rightarrow> int list \<Rightarrow> picks \<Rightarrow> picks" where
  "take_tails count low whole min_stride [] picked = picked"
| "take_tails count low whole min_stride (position # tails) picked =
     (let shallower = filter (usable low whole) tails;
          fallback = (if shallower = [] then None else Some (Max (set shallower)))
      in take_tails count low whole min_stride tails
           (take_position count low whole ''tail'' min_stride fallback position picked))"

definition pick_auto :: "int \<Rightarrow> int \<Rightarrow> int \<Rightarrow> int \<Rightarrow> int list \<Rightarrow> int list \<Rightarrow> picks" where
  "pick_auto count low whole min_stride turns tails =
     (let tk = take_position count low whole ''turn'' 0 None;
          picked = (if turns \<noteq> [] then tk (hd turns) [] else []);
          picked = (if length turns \<ge> 2 then tk (turns ! (length turns - 2)) picked else picked);
          picked = take_tails count low whole min_stride tails picked
      in take_all count low whole ''turn'' (rev turns) picked)"

definition pick_positions :: "int list \<Rightarrow> int \<Rightarrow> int \<Rightarrow> string \<Rightarrow> int list option \<Rightarrow> int \<Rightarrow> picks option" where
  "pick_positions tokens count min_stride placement marker_ids low =
     (let whole = int (length tokens)
      in if placement = ''pow2''
         then map_option (\<lambda>ps. take_all count low whole ''lattice'' ps []) (pow2_positions whole count min_stride)
         else if placement = ''tail''
         then map_option (\<lambda>ps. take_all count low whole ''tail'' ps []) (tail_positions whole min_stride)
         else let turns = turn_boundary_positions tokens marker_ids
              in if placement = ''turns'' then Some (take_all count low whole ''turn'' (rev turns) [])
                 else map_option (pick_auto count low whole min_stride turns) (tail_positions whole min_stride))"

record source_counts =
  turn_count :: nat
  tail_count :: nat
  lattice_count :: nat

definition count_sources :: "picks \<Rightarrow> source_counts" where
  "count_sources picked =
     (let n = (\<lambda>s. length (filter (\<lambda>x. snd x = s) picked))
      in \<lparr>turn_count = n ''turn'', tail_count = n ''tail'', lattice_count = n ''lattice''\<rparr>)"

definition plan_interior_positions :: "int list \<Rightarrow> int \<Rightarrow> int \<Rightarrow> string \<Rightarrow> int list option \<Rightarrow> int \<Rightarrow> int
    \<Rightarrow> (exc + int list \<times> source_counts) option" where
  "plan_interior_positions tokens count min_stride placement marker_ids cached_tokens floor_tokens =
     (case bind_sum (check_int ''count'' count 0) (\<lambda>_.
           bind_sum (check_int ''min_stride'' min_stride 1) (\<lambda>_.
           raise_if [(placement \<notin> set PLACEMENTS, ValueError ''unknown interior checkpoint placement'')])) of
        Inl e \<Rightarrow> Some (Inl e)
      | Inr _ \<Rightarrow>
          let low = max cached_tokens floor_tokens
          in if count = 0 \<or> length tokens < 3 then Some (Inr ([], count_sources []))
             else map_option (\<lambda>picked. Inr (sort (map fst picked), count_sources picked))
                    (pick_positions tokens count min_stride placement marker_ids low))"

section \<open>The tokenizer's templates\<close>

type_synonym message = "string \<times> string"

record tokenizer =
  apply_chat_template :: "(message list \<Rightarrow> bool \<Rightarrow> (string \<times> bool) list \<Rightarrow> exc + int list) option"
  special_ids :: "int list"

definition detect_turn_marker_ids :: "tokenizer \<Rightarrow> int list" where
  "detect_turn_marker_ids tk =
     (case apply_chat_template tk of
        None \<Rightarrow> []
      | Some apply \<Rightarrow>
          let probe = [(''user'', ''x'')]
          in (case bind_sum (apply probe False []) (\<lambda>plain. bind_sum (apply probe True []) (\<lambda>prompt. Inr (plain, prompt))) of
                Inl _ \<Rightarrow> []
              | Inr (plain, prompt) \<Rightarrow>
                  if length prompt \<le> length plain \<or> take (length plain) prompt \<noteq> plain then []
                  else let marker = prompt ! length plain
                       in if marker \<notin> set plain then []
                          else if special_ids tk \<noteq> [] \<and> marker \<notin> set (special_ids tk) then []
                          else [marker]))"

definition GENERATION_PROMPT_PROBES :: "(string \<times> bool) list list" where
  "GENERATION_PROMPT_PROBES = [[], [(''enable_thinking'', False)], [(''enable_thinking'', True)]]"

fun shared_tokens :: "int list \<Rightarrow> int list \<Rightarrow> nat" where
  "shared_tokens (a # as) (b # bs) = (if a \<noteq> b then 0 else Suc (shared_tokens as bs))"
| "shared_tokens as bs = 0"

definition first_turn :: "message list" where "first_turn = [(''user'', ''x'')]"
definition next_turn :: "message list" where
  "next_turn = first_turn @ [(''assistant'', ''y''), (''user'', ''z'')]"

definition probe_suffix :: "(message list \<Rightarrow> bool \<Rightarrow> (string \<times> bool) list \<Rightarrow> exc + int list) \<Rightarrow> (string \<times> bool) list
    \<Rightarrow> int list option" where
  "probe_suffix apply flags =
     (case bind_sum (apply first_turn False flags) (\<lambda>plain.
           bind_sum (apply first_turn True flags) (\<lambda>prompt.
           bind_sum (apply next_turn True flags) (\<lambda>following. Inr (plain, prompt, following)))) of
        Inl _ \<Rightarrow> None
      | Inr (plain, prompt, following) \<Rightarrow>
          if length prompt \<le> length plain \<or> take (length plain) prompt \<noteq> plain then None
          else let shared = shared_tokens prompt following
               in if length plain \<le> shared \<and> shared < length prompt - 1
                  then Some (drop (length plain) prompt) else None)"

definition detect_generation_prompt_suffixes :: "tokenizer \<Rightarrow> int list list" where
  "detect_generation_prompt_suffixes tk =
     (case apply_chat_template tk of
        None \<Rightarrow> []
      | Some apply \<Rightarrow>
          sort_key (\<lambda>s. (- int (length s), s))
            (remdups (List.map_filter (probe_suffix apply) GENERATION_PROMPT_PROBES)))"

fun generation_prompt_boundary :: "int list \<Rightarrow> int list list \<Rightarrow> int option" where
  "generation_prompt_boundary tokens [] = None"
| "generation_prompt_boundary tokens (suffix # suffixes) =
     (let whole = length tokens; width = length suffix
      in if 1 < width \<and> width < whole \<and> drop (whole - width) tokens = suffix
         then Some (int (whole - width)) else generation_prompt_boundary tokens suffixes)"

section \<open>The cuts of a cold prefill\<close>

record cut_policy =
  cut_count :: int
  cut_min_stride :: int
  cut_placement :: string

definition planned_cuts :: "int list \<Rightarrow> cut_policy \<Rightarrow> int list option \<Rightarrow> int \<Rightarrow> (exc + int list) option" where
  "planned_cuts tokens policy marker_ids media_floor =
     (let plan = plan_interior_positions tokens (cut_count policy) (cut_min_stride policy)
                   (cut_placement policy) marker_ids 0
      in if cut_count policy > 0
         then (case plan 0 of
                 None \<Rightarrow> None
               | Some (Inl e) \<Rightarrow> Some (Inl e)
               | Some (Inr (positions, _)) \<Rightarrow>
                   if media_floor \<noteq> 0 \<and> (\<exists>p \<in> set positions. p < media_floor)
                   then map_option (map_sum id fst) (plan media_floor)
                   else Some (Inr positions))
         else Some (Inr []))"

definition cold_prefill_cuts :: "int list \<Rightarrow> cut_policy \<Rightarrow> int list option \<Rightarrow> int list list \<Rightarrow> int \<Rightarrow> int option
    \<Rightarrow> (exc + int list) option" where
  "cold_prefill_cuts tokens policy marker_ids suffixes media_floor media_position =
     map_option (map_sum id (\<lambda>positions.
       let boundary = (case generation_prompt_boundary tokens suffixes of
             None \<Rightarrow> [] | Some b \<Rightarrow> if b > media_floor then [b] else []);
           media = (case media_position of None \<Rightarrow> [] | Some m \<Rightarrow> [m])
       in sorted_list_of_set (set (positions @ boundary @ media))))
       (planned_cuts tokens policy marker_ids media_floor)"

section \<open>Termination of the lattices\<close>

lemma pow2_loop_returns: "1 \<le> position \<Longrightarrow> \<exists>vs. pow2_loop n position collected = Some vs"
proof (induction "nat (n - position)" arbitrary: position collected rule: less_induct)
  case less
  show ?case
  proof (cases "position < n - 1")
    case True
    then show ?thesis using less(1)[of "position * 2"] less(2) by (subst pow2_loop.simps) simp
  next
    case False
    then show ?thesis by (subst pow2_loop.simps) simp
  qed
qed

lemma tail_loop_returns: "1 \<le> stride \<Longrightarrow> \<exists>ps. tail_loop limit stride out = Some ps"
proof (induction "nat (limit + 1 - stride)" arbitrary: stride out rule: less_induct)
  case less
  show ?case
  proof (cases "stride \<le> limit")
    case True
    then show ?thesis using less(1)[of "stride * 4"] less(2) by (subst tail_loop.simps) (simp add: Let_def)
  next
    case False
    then show ?thesis by (subst tail_loop.simps) simp
  qed
qed

section \<open>What may be picked\<close>

definition picks_ok :: "int \<Rightarrow> int \<Rightarrow> int \<Rightarrow> picks \<Rightarrow> bool" where
  "picks_ok count low whole picked \<longleftrightarrow> distinct (map fst picked) \<and> int (length picked) \<le> max 0 count
     \<and> (\<forall>p \<in> fst ` set picked. usable low whole p) \<and> snd ` set picked \<subseteq> {''turn'', ''tail'', ''lattice''}"

lemma picks_Nil: "picks_ok count low whole []"
  by (simp add: picks_ok_def)

lemma take_position_ok:
  "picks_ok count low whole picked \<Longrightarrow> source \<in> {''turn'', ''tail'', ''lattice''} \<Longrightarrow>
     picks_ok count low whole (take_position count low whole source spacing fallback position picked)"
  by (auto simp: picks_ok_def take_position_def)

lemma take_all_ok:
  "picks_ok count low whole picked \<Longrightarrow> source \<in> {''turn'', ''tail'', ''lattice''} \<Longrightarrow>
     picks_ok count low whole (take_all count low whole source ps picked)"
  unfolding take_all_def by (induction ps arbitrary: picked) (auto intro!: take_position_ok)

lemma take_tails_ok:
  "picks_ok count low whole picked \<Longrightarrow> picks_ok count low whole (take_tails count low whole m ps picked)"
  by (induction ps arbitrary: picked) (auto simp: Let_def intro!: take_position_ok)

lemma pick_auto_ok: "picks_ok count low whole (pick_auto count low whole m turns tails)"
  unfolding pick_auto_def Let_def
  by (intro take_all_ok take_tails_ok) (auto intro!: take_position_ok picks_Nil)

lemma pick_positions_ok:
  assumes "1 \<le> min_stride"
  shows "\<exists>picked. pick_positions tokens count min_stride placement marker_ids low = Some picked
    \<and> picks_ok count low (int (length tokens)) picked"
proof -
  obtain ps qs where "pow2_positions (int (length tokens)) count min_stride = Some ps"
    "tail_positions (int (length tokens)) min_stride = Some qs"
    using pow2_loop_returns[OF assms] tail_loop_returns[OF assms]
    by (fastforce simp: pow2_positions_def tail_positions_def)
  then show ?thesis
    using take_all_ok[OF picks_Nil] pick_auto_ok by (auto simp: pick_positions_def Let_def)
qed

lemma count_sources_sum:
  "snd ` set picked \<subseteq> {''turn'', ''tail'', ''lattice''} \<Longrightarrow>
     turn_count (count_sources picked) + tail_count (count_sources picked) + lattice_count (count_sources picked) = length picked"
  by (induction picked) (auto simp: count_sources_def Let_def)

text \<open>
  C27: Planning interior checkpoints returns for every accepted argument; the positions are
  ascending, distinct, at most as many as asked for, strictly between what is already covered
  and the last prompt token, and the source counts add up to them.
\<close>

theorem interior_plan_is_well_formed:
  assumes "0 \<le> count" and "1 \<le> min_stride" and "placement \<in> set PLACEMENTS"
  shows "\<exists>positions sources.
      plan_interior_positions tokens count min_stride placement marker_ids cached floor_tokens = Some (Inr (positions, sources))
    \<and> sorted positions \<and> distinct positions \<and> int (length positions) \<le> count
    \<and> (\<forall>p \<in> set positions. max cached floor_tokens < p \<and> p < int (length tokens) - 1)
    \<and> turn_count sources + tail_count sources + lattice_count sources = length positions"
proof -
  let ?low = "max cached floor_tokens"
  obtain picked where p: "pick_positions tokens count min_stride placement marker_ids ?low = Some picked"
    "picks_ok count ?low (int (length tokens)) picked"
    using pick_positions_ok[OF assms(2)] by blast
  have "plan_interior_positions tokens count min_stride placement marker_ids cached floor_tokens
    = (if count = 0 \<or> length tokens < 3 then Some (Inr ([], count_sources []))
       else Some (Inr (sort (map fst picked), count_sources picked)))"
    using assms p(1) by (simp add: plan_interior_positions_def check_int_def Let_def)
  then show ?thesis
    using p(2) count_sources_sum[of picked] assms(1)
    by (auto simp: picks_ok_def usable_def count_sources_def)
qed

section \<open>Cuts stay out of a media span\<close>

lemma plan_Inr:
  assumes "plan_interior_positions tokens count min_stride placement marker_ids cached floor_tokens = Some (Inr (ps, s))"
    and "p \<in> set ps"
  shows "max cached floor_tokens < p \<and> p < int (length tokens) - 1"
proof -
  have ok: "0 \<le> count" "1 \<le> min_stride" "placement \<in> set PLACEMENTS"
    using assms(1) by (auto simp: plan_interior_positions_def check_int_def split: if_splits)
  show ?thesis
    using interior_plan_is_well_formed[OF ok, of tokens marker_ids cached floor_tokens] assms by auto
qed

lemma boundary_interior:
  "generation_prompt_boundary tokens ss = Some b \<Longrightarrow> 0 < b \<and> b < int (length tokens) - 1"
  by (induction tokens ss rule: generation_prompt_boundary.induct) (auto simp: Let_def split: if_splits)

lemma planned_cuts_Inr:
  assumes "planned_cuts tokens policy marker_ids media_floor = Some (Inr ps)" and "p \<in> set ps"
  shows "0 < p \<and> p < int (length tokens) - 1 \<and> media_floor \<le> p"
proof -
  let ?plan = "plan_interior_positions tokens (cut_count policy) (cut_min_stride policy) (cut_placement policy) marker_ids 0"
  have count: "cut_count policy > 0" using assms by (auto simp: planned_cuts_def Let_def split: if_splits)
  obtain qs s where q: "?plan 0 = Some (Inr (qs, s))"
    using assms(1) count by (auto simp: planned_cuts_def Let_def split: option.splits sum.splits)
  have cases: "ps = qs \<and> (media_floor = 0 \<or> (\<forall>p \<in> set qs. media_floor \<le> p)) \<or> (\<exists>s'. ?plan media_floor = Some (Inr (ps, s')))"
  proof (cases "media_floor \<noteq> 0 \<and> (\<exists>p \<in> set qs. p < media_floor)")
    case True
    then have "map_option (map_sum id fst) (?plan media_floor) = Some (Inr ps)"
      using assms(1) count q by (simp add: planned_cuts_def)
    then obtain r where "?plan media_floor = Some r" "map_sum id fst r = Inr ps" by auto
    then show ?thesis by (cases r) auto
  next
    case False
    then have "Some (Inr qs) = (Some (Inr ps) :: (exc + int list) option)"
      using assms(1) count
      by (simp only: planned_cuts_def Let_def if_True q option.case sum.case prod.case if_not_P[OF False] if_False)
    then show ?thesis using False by (auto simp: not_less)
  qed
  from cases show ?thesis
  proof
    assume "ps = qs \<and> (media_floor = 0 \<or> (\<forall>p \<in> set qs. media_floor \<le> p))"
    then show ?thesis using plan_Inr[OF q, of p] assms(2) by (auto intro: order.strict_implies_order)
  next
    assume "\<exists>s'. plan_interior_positions tokens (cut_count policy) (cut_min_stride policy) (cut_placement policy)
            marker_ids 0 media_floor = Some (Inr (ps, s'))"
    then show ?thesis using plan_Inr[OF _ assms(2)] by fastforce
  qed
qed

text \<open>
  The cuts of a cold prefill are ascending and distinct, contain the media boundary, and
  every other cut is an interior position at or above the media floor.
\<close>

theorem cold_cuts_stay_out_of_media:
  assumes "cold_prefill_cuts tokens policy marker_ids suffixes media_floor media_position = Some (Inr cuts)"
  shows "sorted cuts \<and> distinct cuts
    \<and> (\<forall>p \<in> set cuts. media_position = Some p \<or> (0 < p \<and> p < int (length tokens) - 1 \<and> media_floor \<le> p))
    \<and> (\<forall>m. media_position = Some m \<longrightarrow> m \<in> set cuts)"
proof -
  obtain ps where ps: "planned_cuts tokens policy marker_ids media_floor = Some (Inr ps)"
    and cuts: "cuts = sorted_list_of_set (set (ps
      @ (case generation_prompt_boundary tokens suffixes of None \<Rightarrow> [] | Some b \<Rightarrow> if b > media_floor then [b] else [])
      @ (case media_position of None \<Rightarrow> [] | Some m \<Rightarrow> [m])))"
  proof -
    obtain r where r: "planned_cuts tokens policy marker_ids media_floor = Some r"
      "map_sum id (\<lambda>positions.
       let boundary = (case generation_prompt_boundary tokens suffixes of
             None \<Rightarrow> [] | Some b \<Rightarrow> if b > media_floor then [b] else []);
           media = (case media_position of None \<Rightarrow> [] | Some m \<Rightarrow> [m])
       in sorted_list_of_set (set (positions @ boundary @ media))) r = Inr cuts"
      using assms by (auto simp: cold_prefill_cuts_def)
    then show ?thesis using that by (cases r) (simp_all add: Let_def)
  qed
  have set_cuts: "set cuts = set (ps
      @ (case generation_prompt_boundary tokens suffixes of None \<Rightarrow> [] | Some b \<Rightarrow> if b > media_floor then [b] else [])
      @ (case media_position of None \<Rightarrow> [] | Some m \<Rightarrow> [m]))"
    unfolding cuts by (rule set_sorted_list_of_set) (rule List.finite_set)
  have "sorted cuts" "distinct cuts"
    unfolding cuts by (simp_all only: sorted_sorted_list_of_set distinct_sorted_list_of_set)
  then show ?thesis
    using planned_cuts_Inr[OF ps] boundary_interior[of tokens suffixes] unfolding set_cuts
    by (auto split: option.splits if_splits)
qed

section \<open>A detected suffix names a boundary the next turn shares\<close>

lemma shared_tokens_take: "n \<le> shared_tokens xs ys \<Longrightarrow> take n xs = take n ys"
  by (induction xs ys arbitrary: n rule: shared_tokens.induct) (auto simp: take_Cons split: nat.splits if_splits)

text \<open>
  Each detected generation-prompt suffix ends a rendered first prompt of some probed mode,
  and the next turn of that mode shares every token before it, so the boundary before the suffix
  is reusable.
\<close>

theorem detected_suffix_boundary_is_shared:
  assumes "s \<in> set (detect_generation_prompt_suffixes tk)"
  shows "\<exists>render flags prompt following. apply_chat_template tk = Some render \<and> flags \<in> set GENERATION_PROMPT_PROBES
    \<and> render first_turn True flags = Inr prompt \<and> render next_turn True flags = Inr following
    \<and> drop (length prompt - length s) prompt = s \<and> 1 < length s
    \<and> take (length prompt - length s) prompt = take (length prompt - length s) following
    \<and> (length s < length prompt \<longrightarrow> generation_prompt_boundary prompt [s] = Some (int (length prompt - length s)))"
proof -
  obtain render flags where a: "apply_chat_template tk = Some render" "flags \<in> set GENERATION_PROMPT_PROBES"
    "probe_suffix render flags = Some s"
    using assms by (cases "apply_chat_template tk")
      (auto simp: detect_generation_prompt_suffixes_def List.map_filter_def)
  obtain plain prompt following :: "int list" where r: "render first_turn True flags = Inr prompt"
    "render next_turn True flags = Inr following" "length plain \<le> shared_tokens prompt following"
    "shared_tokens prompt following < length prompt - 1" "s = drop (length plain) prompt"
  proof -
    obtain plain prompt following :: "int list" where "render first_turn False flags = Inr plain"
      "render first_turn True flags = Inr prompt" "render next_turn True flags = Inr following"
      using a(3) by (cases "render first_turn False flags"; cases "render first_turn True flags"; cases "render next_turn True flags")
        (simp_all add: probe_suffix_def)
    then show ?thesis
      using a(3) by (intro that[of prompt following plain]) (simp_all add: probe_suffix_def Let_def split: if_splits)
  qed
  have l: "length s = length prompt - length plain" "length plain < length prompt - 1" using r(3-5) by simp_all
  then have "length prompt - length s = length plain" by simp
  then show ?thesis
    using a(1,2) r l shared_tokens_take[OF r(3)]
    by (intro exI[of _ render] exI[of _ flags] exI[of _ prompt] exI[of _ following]) (auto simp: Let_def)
qed

section \<open>Concrete plans\<close>

theorem interior_plan_is_well_formed_witness:
  "\<exists>positions sources. plan_interior_positions (replicate 40 7) 3 4 ''tail'' None 8 0 = Some (Inr (positions, sources))
     \<and> sorted positions \<and> (\<forall>p \<in> set positions. 8 < p \<and> p < 39)"
  using interior_plan_is_well_formed[of 3 4 "''tail''" "replicate 40 7" None 8 0] by (auto simp: PLACEMENTS_def)

definition demo_policy :: cut_policy where
  "demo_policy = \<lparr>cut_count = 2, cut_min_stride = 4, cut_placement = ''turns''\<rparr>"

definition demo_tokens :: "int list" where
  "demo_tokens = [1, 5, 6, 1, 7, 8, 1, 9, 9, 2, 3]"

theorem cold_cuts_stay_out_of_media_witness:
  "cold_prefill_cuts demo_tokens demo_policy (Some [1]) [[2, 3]] 4 (Some 6) = Some (Inr [6, 9])
     \<and> 9 < int (length demo_tokens) - 1 \<and> 4 \<le> (9 :: int)"
proof -
  have c: "cold_prefill_cuts demo_tokens demo_policy (Some [1]) [[2, 3]] 4 (Some 6) = Some (Inr [6, 9])"
    by code_simp
  from cold_cuts_stay_out_of_media[OF c] c show ?thesis by simp
qed

definition demo_template :: "message list \<Rightarrow> bool \<Rightarrow> (string \<times> bool) list \<Rightarrow> exc + int list" where
  "demo_template ms generate flags = Inr (if length ms = 1 then (if generate then [1, 5, 1, 2, 3] else [1, 5]) else [1, 5, 1, 9, 1, 6, 1, 2, 3])"

theorem detected_suffix_boundary_is_shared_witness:
  "\<exists>(render :: message list \<Rightarrow> bool \<Rightarrow> (string \<times> bool) list \<Rightarrow> exc + int list) flags prompt following. render first_turn True flags = Inr prompt \<and> render next_turn True flags = Inr following
     \<and> drop (length prompt - 3) prompt = [1, 2, 3 :: int] \<and> take (length prompt - 3) prompt = take (length prompt - 3) following"
proof -
  have "[1, 2, 3] \<in> set (detect_generation_prompt_suffixes \<lparr>apply_chat_template = Some demo_template, special_ids = []\<rparr>)"
    by (simp add: detect_generation_prompt_suffixes_def GENERATION_PROMPT_PROBES_def probe_suffix_def
        demo_template_def first_turn_def next_turn_def List.map_filter_def)
  moreover have l: "length [1, 2, 3 :: int] = 3" by simp
  ultimately obtain render :: "message list \<Rightarrow> bool \<Rightarrow> (string \<times> bool) list \<Rightarrow> exc + int list" and flags prompt following where "render first_turn True flags = Inr prompt"
    "render next_turn True flags = Inr following" "drop (length prompt - 3) prompt = [1, 2, 3 :: int]"
    "take (length prompt - 3) prompt = take (length prompt - 3) following"
    using detected_suffix_boundary_is_shared[of "[1, 2, 3]"] unfolding l by blast
  then show ?thesis by blast
qed

end
