(* ===== verification/PrefixCascade.thy ===== *)
theory PrefixCascade
  imports Prelude "HOL-Library.Product_Lexorder" "HOL-Library.Sublist"
begin

text \<open>
  \<open>ExactPrefixCascade\<close> of \<^verbatim>\<open>runtime/prefix_cascade.py\<close>: proposal paths are launched longest first
  from the frontier of tokens the target drew.  A stage is an object compared with \<open>is\<close>, so it
  carries the number of its launch, which no other stage has; the sets \<open>attempted\<close> and \<open>pruned\<close> are lists of path indices.
\<close>

section \<open>State\<close>

record prefix_stage =
  stage_id :: nat
  path_index :: nat
  stage_path :: "int list"
  suffix_tokens :: "int list"
  reused_prefix :: nat
  pruned_before_launch :: nat

record prefix_update =
  update_frontier :: "int list"
  update_pruned :: nat
  remaining_paths :: nat
  update_finished :: bool

record exact_cascade =
  paths :: "int list list"
  order :: "nat list"
  frontier :: "int list"
  attempted :: "nat list"
  pruned :: "nat list"
  open_stage :: "prefix_stage option"
  finished :: bool
  pruned_siblings :: nat

definition check_paths :: "int list list \<Rightarrow> int \<Rightarrow> int \<Rightarrow> exc + unit" where
  "check_paths ps maximum_paths maximum_depth = raise_if
     [(ps = [] \<or> \<not> (1 \<le> int (length ps) \<and> int (length ps) \<le> maximum_paths \<and> maximum_paths \<le> 15)
         \<or> \<not> (1 \<le> maximum_depth \<and> maximum_depth \<le> 15)
         \<or> (\<exists>p \<in> set ps. p = [] \<or> int (length p) > maximum_depth \<or> (\<exists>token \<in> set p. token < 0)),
       ValueError ''invalid exact-prefix cascade paths'')]"

definition longest_first :: "int list list \<Rightarrow> nat list" where
  "longest_first ps = sort_key (\<lambda>i. (- int (length (ps ! i)), i)) [0..<length ps]"

definition new_cascade :: "int list list \<Rightarrow> int \<Rightarrow> int \<Rightarrow> exc + exact_cascade" where
  "new_cascade ps maximum_paths maximum_depth =
     bind_sum (check_paths ps maximum_paths maximum_depth) (\<lambda>_.
       Inr \<lparr>paths = ps, order = longest_first ps, frontier = [], attempted = [], pruned = [],
            open_stage = None, finished = False, pruned_siblings = 0\<rparr>)"

section \<open>Operations\<close>

definition candidates_left :: "exact_cascade \<Rightarrow> nat list" where
  "candidates_left s = filter (\<lambda>i. i \<notin> set (attempted s) \<and> i \<notin> set (pruned s)) (order s)"

definition viable :: "exact_cascade \<Rightarrow> nat list" where
  "viable s = (let size = length (frontier s)
     in filter (\<lambda>i. length (paths s ! i) > size \<and> take size (paths s ! i) = frontier s) (candidates_left s))"

definition prune :: "exact_cascade \<Rightarrow> nat \<times> exact_cascade" where
  "prune s =
     (let size = length (frontier s);
          impossible = filter (\<lambda>i. length (paths s ! i) \<le> size \<or> take size (paths s ! i) \<noteq> frontier s)
            (candidates_left s)
      in (length impossible, s\<lparr>pruned := pruned s @ impossible,
            pruned_siblings := pruned_siblings s + length impossible\<rparr>))"

definition next_stage :: "exact_cascade \<Rightarrow> (prefix_stage option, exact_cascade) res" where
  "next_stage s =
     (if open_stage s \<noteq> None then (Inl (RuntimeError ''the current prefix-cascade stage is unresolved''), s)
      else if finished s then (Inr None, s)
      else let (impossible, s) = prune s
           in case viable s of
                [] \<Rightarrow> (Inr None, s\<lparr>finished := True\<rparr>)
              | i # _ \<Rightarrow>
                  let path = paths s ! i;
                      stage = \<lparr>stage_id = length (attempted s), path_index = i, stage_path = path,
                        suffix_tokens = drop (length (frontier s)) path,
                        reused_prefix = length (frontier s), pruned_before_launch = impossible\<rparr>
                  in (Inr (Some stage), s\<lparr>attempted := attempted s @ [i], open_stage := Some stage\<rparr>))"

definition valid_observation :: "prefix_stage \<Rightarrow> int list \<Rightarrow> int \<Rightarrow> bool" where
  "valid_observation stage emitted n \<longleftrightarrow>
     \<not> (emitted = [] \<or> (\<exists>token \<in> set emitted. token < 0)
        \<or> \<not> (0 \<le> n \<and> n \<le> int (length (suffix_tokens stage))) \<or> n > int (length emitted)
        \<or> take (nat n) emitted \<noteq> take (nat n) (suffix_tokens stage)
        \<or> (n < int (length (suffix_tokens stage)) \<and> int (length emitted) \<noteq> n + 1))"

definition observe :: "prefix_stage \<Rightarrow> int list \<Rightarrow> int \<Rightarrow> bool \<Rightarrow> exact_cascade \<Rightarrow> (prefix_update, exact_cascade) res" where
  "observe stage emitted n terminal s =
     (if open_stage s \<noteq> Some stage then (Inl (ValueError ''prefix-cascade observation does not own the open stage''), s)
      else if \<not> valid_observation stage emitted n
      then (Inl (ValueError ''invalid exact-prefix cascade target observation''), s)
      else let s = s\<lparr>frontier := frontier s @ emitted\<rparr>;
               (impossible, s) = prune s;
               full = (n = int (length (suffix_tokens stage)));
               s = s\<lparr>open_stage := None, finished := terminal \<or> full \<or> viable s = []\<rparr>
           in (Inr \<lparr>update_frontier = frontier s, update_pruned = impossible,
                    remaining_paths = length (viable s), update_finished = finished s\<rparr>, s))"

section \<open>Cache geometry\<close>

record cache_layer =
  layer_offset :: "int option"
  layer_rotating :: bool
  layer_max_size :: "int option"

datatype geometry_report = Incompatible string | Compatible int nat nat int

definition exact_prefix_geometry :: "cache_layer list \<Rightarrow> int \<Rightarrow> int \<Rightarrow> int \<Rightarrow> geometry_report" where
  "exact_prefix_geometry cache expected_layers expected_rotating_layers sliding_window =
     (if int (length cache) \<noteq> expected_layers then Incompatible ''layer_count''
      else if \<exists>l \<in> set cache. case layer_offset l of None \<Rightarrow> True | Some x \<Rightarrow> x < 0
      then Incompatible ''host_offsets''
      else if card (set (map layer_offset cache)) \<noteq> 1 then Incompatible ''layer_offset_mismatch''
      else let rotating = filter layer_rotating cache
           in if int (length rotating) \<noteq> expected_rotating_layers then Incompatible ''rotating_layer_count''
              else if \<exists>l \<in> set rotating. (case layer_max_size l of None \<Rightarrow> 0 | Some n \<Rightarrow> n) \<noteq> sliding_window
              then Incompatible ''sliding_window''
              else Compatible (the (layer_offset (hd cache))) (length cache) (length rotating) sliding_window)"

section \<open>Machine\<close>

datatype cascade_call = NextStage | Observe prefix_stage "int list" int bool

fun cascade_step :: "cascade_call \<Rightarrow> exact_cascade \<Rightarrow> (unit, exact_cascade) res" where
  "cascade_step NextStage s = bind_res (next_stage s) (\<lambda>_ s. (Inr (), s))"
| "cascade_step (Observe stage emitted n terminal) s = bind_res (observe stage emitted n terminal s) (\<lambda>_ s. (Inr (), s))"

definition cascade_start :: "exact_cascade \<Rightarrow> bool" where
  "cascade_start s \<longleftrightarrow> (\<exists>ps m d. new_cascade ps m d = Inr s)"

text \<open>
  A path goes on from the frontier when it extends it strictly.  The invariant: launches are of
  distinct paths, what was pruned cannot go on, and the open stage asks exactly for the tokens of
  its path beyond the frontier.
\<close>

definition goes_on :: "exact_cascade \<Rightarrow> nat \<Rightarrow> bool" where
  "goes_on s i \<longleftrightarrow> strict_prefix (frontier s) (paths s ! i)"

definition base_inv :: "exact_cascade \<Rightarrow> bool" where
  "base_inv s \<longleftrightarrow> order s = longest_first (paths s)
     \<and> distinct (attempted s) \<and> set (attempted s) \<subseteq> {..<length (paths s)}
     \<and> (\<forall>i \<in> set (pruned s). i < length (paths s) \<and> \<not> goes_on s i \<and> i \<notin> set (attempted s))"

definition stage_ok :: "exact_cascade \<Rightarrow> prefix_stage \<Rightarrow> bool" where
  "stage_ok s st \<longleftrightarrow> path_index st \<in> set (attempted s) \<and> stage_path st = paths s ! path_index st
     \<and> stage_path st = frontier s @ suffix_tokens st \<and> suffix_tokens st \<noteq> []
     \<and> reused_prefix st = length (frontier s)"

definition cascade_inv :: "exact_cascade \<Rightarrow> bool" where
  "cascade_inv s \<longleftrightarrow> base_inv s \<and> (\<forall>st. open_stage s = Some st \<longrightarrow> stage_ok s st)"

lemma goes_on_iff:
  "goes_on s i \<longleftrightarrow> length (paths s ! i) > length (frontier s) \<and> take (length (frontier s)) (paths s ! i) = frontier s"
  unfolding goes_on_def strict_prefix_def prefix_def
  by (metis append_eq_conv_conj append_take_drop_id le_antisym length_append length_take linorder_not_le
      min.cobounded2 nat_le_linear take_all_iff)

lemma set_longest_first [simp]: "set (longest_first ps) = {..<length ps}"
  by (auto simp: longest_first_def)

lemma distinct_longest_first [simp]: "distinct (longest_first ps)"
  by (simp add: longest_first_def)

lemma candidates_left_set:
  "base_inv s \<Longrightarrow> set (candidates_left s) = {i. i < length (paths s) \<and> i \<notin> set (attempted s) \<and> i \<notin> set (pruned s)}"
  by (auto simp: candidates_left_def base_inv_def)

lemma viable_eq: "viable s = filter (goes_on s) (candidates_left s)"
  by (auto simp: viable_def goes_on_iff Let_def intro: filter_cong)

lemma prune_eq: "prune s = (length (filter (\<lambda>i. \<not> goes_on s i) (candidates_left s)),
    s\<lparr>pruned := pruned s @ filter (\<lambda>i. \<not> goes_on s i) (candidates_left s),
      pruned_siblings := pruned_siblings s + length (filter (\<lambda>i. \<not> goes_on s i) (candidates_left s))\<rparr>)"
proof -
  have "filter (\<lambda>i. length (paths s ! i) \<le> length (frontier s) \<or> take (length (frontier s)) (paths s ! i) \<noteq> frontier s)
      (candidates_left s) = filter (\<lambda>i. \<not> goes_on s i) (candidates_left s)"
    by (rule filter_cong) (auto simp: goes_on_iff)
  then show ?thesis by (simp add: prune_def Let_def)
qed

text \<open>Pruning: what is left goes on, and the rest of the state stays.\<close>

lemma prune_props:
  assumes "base_inv s" and "prune s = (n, t)"
  shows "base_inv t" "paths t = paths s" "frontier t = frontier s" "attempted t = attempted s"
    "open_stage t = open_stage s" "finished t = finished s"
    "viable t = filter (goes_on s) (candidates_left s)" "candidates_left t = viable t"
    "set (viable t) = {i. i < length (paths s) \<and> i \<notin> set (attempted s) \<and> goes_on s i}"
proof -
  have t: "t = s\<lparr>pruned := pruned s @ filter (\<lambda>i. \<not> goes_on s i) (candidates_left s),
      pruned_siblings := pruned_siblings s + length (filter (\<lambda>i. \<not> goes_on s i) (candidates_left s))\<rparr>"
    using assms(2) by (auto simp: prune_eq)
  show "paths t = paths s" "frontier t = frontier s" "attempted t = attempted s"
    "open_stage t = open_stage s" "finished t = finished s" by (simp_all add: t)
  have g: "goes_on t = goes_on s" by (simp add: t goes_on_def fun_eq_iff)
  show "base_inv t"
    using assms(1) candidates_left_set[OF assms(1)] unfolding base_inv_def g by (auto simp: t)
  have left: "candidates_left t = filter (goes_on s) (candidates_left s)"
    by (auto simp: candidates_left_def t intro: filter_cong)
  then show "viable t = filter (goes_on s) (candidates_left s)" by (simp add: viable_eq g)
  with left show "candidates_left t = viable t" by simp
  show "set (viable t) = {i. i < length (paths s) \<and> i \<notin> set (attempted s) \<and> goes_on s i}"
    using assms(1) candidates_left_set[OF assms(1)] \<open>viable t = _\<close> by (auto simp: base_inv_def)
qed

lemma new_cascade_inv: "new_cascade ps m d = Inr s \<Longrightarrow> cascade_inv s"
  by (auto simp: new_cascade_def cascade_inv_def base_inv_def)

lemma sorted_longest_first: "sorted_wrt (\<lambda>i j. length (ps ! j) < length (ps ! i) \<or> (length (ps ! j) = length (ps ! i) \<and> i < j)) (longest_first ps)"
proof -
  have s: "sorted (map (\<lambda>i. (- int (length (ps ! i)), i)) (longest_first ps))"
    by (simp add: longest_first_def)
  show ?thesis
    unfolding sorted_wrt_iff_nth_less
  proof (intro allI impI)
    fix i j assume ij: "i < j" "j < length (longest_first ps)"
    let ?a = "longest_first ps ! i" and ?b = "longest_first ps ! j"
    have "(- int (length (ps ! ?a)), ?a) \<le> (- int (length (ps ! ?b)), ?b)"
      using sorted_nth_mono[OF s, of i j] ij by simp
    moreover have "?a \<noteq> ?b" using ij nth_eq_iff_index_eq[OF distinct_longest_first, of i ps j] by simp
    ultimately show "length (ps ! ?b) < length (ps ! ?a) \<or> length (ps ! ?b) = length (ps ! ?a) \<and> ?a < ?b"
      by (auto simp: less_eq_prod_def)
  qed
qed

lemma viable_hd_longest:
  assumes "order s = longest_first (paths s)" and "viable s = i # rest" and "j \<in> set rest"
  shows "length (paths s ! j) < length (paths s ! i) \<or> (length (paths s ! j) = length (paths s ! i) \<and> i < j)"
proof -
  have "sorted_wrt (\<lambda>i j. length (paths s ! j) < length (paths s ! i) \<or> (length (paths s ! j) = length (paths s ! i) \<and> i < j)) (viable s)"
    unfolding viable_eq candidates_left_def assms(1)
    by (intro sorted_wrt_filter sorted_longest_first)
  then show ?thesis using assms(2,3) by simp
qed

text \<open>What a call of \<open>next_stage\<close> does.\<close>

lemma next_stage_cases:
  assumes inv: "cascade_inv s"
  obtains (refused) e where "next_stage s = (Inl e, s)" "open_stage s \<noteq> None"
  | (done_) t where "next_stage s = (Inr None, t)" "cascade_inv t" "frontier t = frontier s" "attempted t = attempted s"
      "paths t = paths s" "open_stage t = None" "finished s \<or> (\<forall>i < length (paths s). i \<notin> set (attempted s) \<longrightarrow> \<not> goes_on s i)"
  | (launch) st t where "next_stage s = (Inr (Some st), t)" "cascade_inv t" "frontier t = frontier s"
      "attempted t = attempted s @ [path_index st]" "paths t = paths s" "open_stage t = Some st"
      "path_index st < length (paths s)" "path_index st \<notin> set (attempted s)" "goes_on s (path_index st)"
      "paths s ! path_index st = frontier s @ suffix_tokens st"
      "\<forall>j < length (paths s). j \<notin> set (attempted s) \<longrightarrow> goes_on s j \<longrightarrow> length (paths s ! j) \<le> length (paths s ! path_index st)"
proof (cases "open_stage s")
  case (Some st)
  then show ?thesis using refused by (simp add: next_stage_def)
next
  case None
  have base: "base_inv s" using inv by (simp add: cascade_inv_def)
  show ?thesis
  proof (cases "finished s")
    case True
    then show ?thesis using done_[of s] None inv by (simp add: next_stage_def)
  next
    case False
    obtain n t where p: "prune s = (n, t)" by (cases "prune s")
    note P = prune_props[OF base p]
    show ?thesis
    proof (cases "viable t")
      case Nil
      then show ?thesis
        using done_[of "t\<lparr>finished := True\<rparr>"] P p None False
        by (auto simp: next_stage_def cascade_inv_def base_inv_def goes_on_def)
    next
      case (Cons i rest)
      define st where "st = \<lparr>stage_id = length (attempted t), path_index = i, stage_path = paths t ! i,
                        suffix_tokens = drop (length (frontier t)) (paths t ! i),
                        reused_prefix = length (frontier t), pruned_before_launch = n\<rparr>"
      let ?t = "t\<lparr>attempted := attempted t @ [i], open_stage := Some st\<rparr>"
      have i: "i < length (paths s)" "i \<notin> set (attempted s)" "goes_on s i" using P(9) Cons by auto
      have np: "i \<notin> set (pruned t)"
      proof
        assume "i \<in> set (pruned t)"
        then have "\<not> goes_on t i" using P(1) by (simp add: base_inv_def)
        then show False using i(3) P(2,3) by (simp add: goes_on_def)
      qed
      have split: "paths s ! i = frontier s @ suffix_tokens st" "suffix_tokens st \<noteq> []"
        using i(3) P(2,3) append_take_drop_id[of "length (frontier s)" "paths s ! i"]
        by (simp_all add: st_def goes_on_iff)
      have st: "path_index st = i" "stage_path st = paths s ! i" "reused_prefix st = length (frontier s)"
        using P(2,3) by (simp_all add: st_def)
      have "base_inv ?t" using P(1) i(1,2) np P(2-4) by (auto simp: base_inv_def goes_on_def)
      moreover have "stage_ok ?t st" using st split P(2-4) by (simp add: stage_ok_def)
      ultimately have "cascade_inv ?t" by (simp add: cascade_inv_def)
      moreover have "length (paths s ! j) \<le> length (paths s ! i)"
        if "j < length (paths s)" "j \<notin> set (attempted s)" "goes_on s j" for j
      proof -
        have "order t = longest_first (paths t)" using P(1) by (simp add: base_inv_def)
        moreover have "j = i \<or> j \<in> set rest" using P(9) that Cons by auto
        ultimately show ?thesis using viable_hd_longest[OF _ Cons, of j] P(2) by fastforce
      qed
      moreover have "next_stage s = (Inr (Some st), ?t)"
        using None False p Cons by (simp add: next_stage_def st_def Let_def)
      ultimately show ?thesis
        using launch[of st ?t] P(2-4) i split st(1) by simp
    qed
  qed
qed

lemma goes_on_shorter: "goes_on (s\<lparr>frontier := frontier s @ emitted\<rparr>) i \<Longrightarrow> goes_on s i"
  using append_prefixD[of "frontier s" emitted "paths s ! i"] prefix_length_less[of "frontier s @ emitted" "paths s ! i"]
  by (auto simp: goes_on_def strict_prefix_def)

lemma observe_cases:
  assumes inv: "cascade_inv s"
  obtains (refused) e where "observe st emitted n terminal s = (Inl e, s)"
  | (ok) u t where "observe st emitted n terminal s = (Inr u, t)" "open_stage s = Some st"
      "valid_observation st emitted n" "cascade_inv t" "frontier t = frontier s @ emitted" "attempted t = attempted s"
      "paths t = paths s" "open_stage t = None"
      "finished t \<longleftrightarrow> terminal \<or> n = int (length (suffix_tokens st)) \<or> viable t = []"
      "set (viable t) = {i. i < length (paths s) \<and> i \<notin> set (attempted s) \<and> goes_on t i}"
proof (cases "open_stage s = Some st \<and> valid_observation st emitted n")
  case False
  then have "\<exists>e. observe st emitted n terminal s = (Inl e, s)" by (auto simp: observe_def)
  then show ?thesis using refused by blast
next
  case cur: True
  let ?s = "s\<lparr>frontier := frontier s @ emitted\<rparr>"
  obtain k t where p: "prune ?s = (k, t)" by (cases "prune ?s")
  have base: "base_inv ?s"
    using inv goes_on_shorter[of s emitted] by (auto simp: cascade_inv_def base_inv_def)
  note P = prune_props[OF base p]
  let ?t = "t\<lparr>open_stage := None, finished := terminal \<or> n = int (length (suffix_tokens st)) \<or> viable t = []\<rparr>"
  have "observe st emitted n terminal s = (Inr \<lparr>update_frontier = frontier ?t, update_pruned = k,
      remaining_paths = length (viable ?t), update_finished = finished ?t\<rparr>, ?t)"
    using cur p by (simp add: observe_def Let_def)
  moreover have "cascade_inv ?t" using P(1) by (auto simp: cascade_inv_def base_inv_def goes_on_def)
  moreover have "viable ?t = viable t" by (simp add: viable_def candidates_left_def)
  moreover have "goes_on ?t = goes_on ?s" using P(2,3) by (simp add: goes_on_def fun_eq_iff)
  ultimately show ?thesis using ok[of _ ?t] cur P by simp
qed

lemma cascade_step_inv:
  assumes "cascade_inv s"
  shows "cascade_inv (snd (cascade_step c s))"
proof (cases c)
  case NextStage
  from assms show ?thesis
    unfolding NextStage cascade_step.simps by (cases rule: next_stage_cases) (use assms in simp_all)
next
  case (Observe st emitted n terminal)
  from assms show ?thesis
    unfolding Observe cascade_step.simps
    by (cases rule: observe_cases[where st = st and emitted = emitted and n = n and terminal = terminal]) (use assms in simp_all)
qed

interpretation exact_cascade: stateful_component cascade_start cascade_step cascade_inv
  using new_cascade_inv cascade_step_inv by unfold_locales (auto simp: cascade_start_def)











section \<open>Properties\<close>


text \<open>
  In every reachable cascade the launched paths are distinct, and a pruned path can never
  again extend the frontier, whatever the target draws later.
\<close>

theorem cascade_prunes_only_dead_paths:
  assumes s: "reachable cascade_start cascade_step s"
  shows "distinct (attempted s) \<and> length (attempted s) \<le> length (paths s)
     \<and> (\<forall>i \<in> set (pruned s). i \<notin> set (attempted s)
          \<and> (\<forall>cs. \<not> strict_prefix (frontier (run_calls cascade_step cs s)) (paths s ! i)))"
proof -
  note inv = exact_cascade.inv_reachable[OF s]
  have base: "base_inv s" using inv by (simp add: cascade_inv_def)
  have "length (attempted s) = card (set (attempted s))" using base by (simp add: base_inv_def distinct_card)
  also have "\<dots> \<le> length (paths s)" using base card_mono[of "{..<length (paths s)}"] by (simp add: base_inv_def)
  finally have len: "length (attempted s) \<le> length (paths s)" .
  have "\<not> strict_prefix (frontier (run_calls cascade_step cs s)) (paths s ! i)" if i: "i \<in> set (pruned s)" for i cs
  proof -
    have "prefix (frontier s) (frontier (run_calls cascade_step cs s))"
    proof (rule exact_cascade.run_keeps[where Q = "\<lambda>t. prefix (frontier s) (frontier t)"])
      show "prefix (frontier s) (frontier (snd (cascade_step c u)))"
        if "cascade_inv u" "prefix (frontier s) (frontier u)" for c u
      proof (cases c)
        case NextStage
        from that(1) show ?thesis
          unfolding NextStage cascade_step.simps by (cases rule: next_stage_cases) (use that in simp_all)
      next
        case (Observe st emitted n terminal)
        from that(1) show ?thesis
          unfolding Observe cascade_step.simps
          by (cases rule: observe_cases[where st = st and emitted = emitted and n = n and terminal = terminal])
            (use that in \<open>simp_all add: prefix_prefix\<close>)
      qed
    qed (use inv in simp_all)
    moreover have "\<not> strict_prefix (frontier s) (paths s ! i)" using base i by (simp add: base_inv_def goes_on_def)
    ultimately show ?thesis using prefix_order.le_less_trans by blast
  qed
  then show ?thesis using base len by (simp add: base_inv_def)
qed

section \<open>A concrete round\<close>

definition demo_cascade :: exact_cascade where
  "demo_cascade = projr (new_cascade [[5, 6, 7], [5, 8], [5, 6, 9, 4]] 15 15)"

definition demo_stage_1 :: prefix_stage where
  "demo_stage_1 = \<lparr>stage_id = 0, path_index = 2, stage_path = [5, 6, 9, 4], suffix_tokens = [5, 6, 9, 4],
     reused_prefix = 0, pruned_before_launch = 0\<rparr>"

definition demo_after :: exact_cascade where
  "demo_after = run_calls cascade_step [NextStage, Observe demo_stage_1 [5, 6, 7] 2 False] demo_cascade"

lemma demo_after_reachable: "reachable cascade_start cascade_step demo_after"
proof -
  have "new_cascade [[5, 6, 7], [5, 8], [5, 6, 9, 4]] 15 15 = Inr demo_cascade"
    by (simp add: demo_cascade_def new_cascade_def check_paths_def)
  then show ?thesis
    unfolding demo_after_def by (intro reachable_run_calls reachable_init) (auto simp: cascade_start_def)
qed

lemma demo_after_state:
  "frontier demo_after = [5, 6, 7]" "attempted demo_after = [2]" "pruned demo_after = [0, 1]" "paths demo_after ! 1 = [5, 8]"
  by code_simp+

theorem cascade_prunes_only_dead_paths_witness:
  "\<not> strict_prefix (frontier (run_calls cascade_step [NextStage] demo_after)) [5, 8]"
proof -
  have "1 \<in> set (pruned demo_after)" by (simp add: demo_after_state)
  then show ?thesis using cascade_prunes_only_dead_paths[OF demo_after_reachable] demo_after_state(4) by metis
qed


end
