(* ===== verification/ProposalCascade.thy ===== *)
theory ProposalCascade
  imports PrefixCascade
begin

text \<open>
  \<open>LongestFirstPrefixCascade\<close> of \<^verbatim>\<open>runtime/proposal_cascade.py\<close>, the cascade that resumes a
  sibling at the correction token of the last rejection.  \<open>PrefixCascadeError\<close> is a subclass of
  \<open>ValueError\<close>.  An attempt is compared with \<open>is\<close>, so it carries its number.  The receipts only
  print the state and are left out.
\<close>

section \<open>Geometry of the cache\<close>

record reuse_geometry =
  state_revision :: string
  cache_layout :: string
  cache_position :: int
  layer_count :: int
  state_components :: "string list"
  component_widths :: "int list"
  exact_state :: bool
  branchable_state :: bool

definition check_reuse_geometry :: "reuse_geometry \<Rightarrow> exc + unit" where
  "check_reuse_geometry g = raise_if
     [(length (state_revision g) \<notin> {40, 64} \<or> (\<exists>c \<in> set (state_revision g). c \<notin> set ''0123456789abcdef''),
       ValueError ''state_revision must be a pinned lowercase hexadecimal revision''),
      (cache_layout g = '''', ValueError ''cache_layout is required''),
      (cache_position g < 0 \<or> layer_count g < 1, ValueError ''cache position/layer count is invalid''),
      (state_components g = [] \<or> length (state_components g) \<noteq> length (component_widths g)
         \<or> '''' \<in> set (state_components g) \<or> (\<exists>w \<in> set (component_widths g). w < 1),
       ValueError ''cache component geometry is incomplete''),
      (\<not> exact_state g \<or> \<not> branchable_state g,
       ValueError ''shared-prefix reuse requires exact branchable cache state'')]"

section \<open>State\<close>

record cascade_attempt =
  attempt_id :: nat
  candidate_index :: nat
  attempt_path :: "int list"
  proposal_start :: nat
  verification_suffix :: "int list"
  shared_prefix_tokens :: nat
  attempt_frontier :: "int list"

record cascade_observation =
  full_match :: bool
  matched_prefix :: int
  correction_drawn :: "int option"
  observed_frontier :: "int list"
  pruned_candidates :: "nat list"
  surviving_candidates :: "nat list"
  observed_terminal :: bool

record proposal_cascade =
  proposals :: "int list list"
  reuse :: "reuse_geometry option"
  remaining :: "nat list"
  tried :: "nat list"
  drawn :: "int list"
  open_attempt :: "cascade_attempt option"
  terminal_round :: bool
  attempt_count :: nat
  pruned_count :: nat
  reused_tokens :: nat

definition check_proposals :: "int list list \<Rightarrow> int \<Rightarrow> int \<Rightarrow> exc + unit" where
  "check_proposals ps maximum depth = raise_if
     [(ps = [] \<or> int (length ps) > maximum, ValueError ''proposal cascade requires 1..maximum paths''),
      (\<exists>p \<in> set ps. p = [] \<or> int (length p) > depth \<or> (\<exists>token \<in> set p. token < 0),
       ValueError ''proposal paths require 1..depth nonnegative integer tokens'')]"

definition new_proposal_cascade :: "int list list \<Rightarrow> reuse_geometry option \<Rightarrow> int \<Rightarrow> int \<Rightarrow> exc + proposal_cascade" where
  "new_proposal_cascade ps geometry max_paths max_depth =
     (if max_paths < 1 \<or> max_depth < 1 then Inl (ValueError ''cascade bounds must be positive integers'')
      else bind_sum (check_proposals ps max_paths max_depth) (\<lambda>_.
        Inr \<lparr>proposals = ps, reuse = geometry, remaining = longest_first ps, tried = [], drawn = [],
             open_attempt = None, terminal_round = False, attempt_count = 0, pruned_count = 0, reused_tokens = 0\<rparr>))"

section \<open>Operations\<close>

definition survivors :: "proposal_cascade \<Rightarrow> nat list" where
  "survivors s = (let width = length (drawn s)
     in filter (\<lambda>i. i \<notin> set (tried s) \<and> length (proposals s ! i) \<ge> width \<and> take width (proposals s ! i) = drawn s)
          (remaining s))"

definition next_attempt :: "proposal_cascade \<Rightarrow> (cascade_attempt option, proposal_cascade) res" where
  "next_attempt s =
     (if open_attempt s \<noteq> None then (Inl (ValueError ''the current cascade attempt is still open''), s)
      else if terminal_round s then (Inr None, s)
      else
        let viable = survivors s;
            invalid = filter (\<lambda>i. i \<notin> set (tried s) \<and> i \<notin> set viable) (remaining s);
            s = (if invalid \<noteq> []
                 then s\<lparr>pruned_count := pruned_count s + length invalid,
                        remaining := filter (\<lambda>i. i \<notin> set invalid) (remaining s)\<rparr>
                 else s)
        in case viable of
             [] \<Rightarrow> (Inr None, s\<lparr>terminal_round := True\<rparr>)
           | i # _ \<Rightarrow>
               let path = proposals s ! i;
                   start = (if reuse s \<noteq> None then length (drawn s) - 1 else 0);
                   attempt = \<lparr>attempt_id = attempt_count s, candidate_index = i, attempt_path = path,
                     proposal_start = start, verification_suffix = drop start path,
                     shared_prefix_tokens = start, attempt_frontier = drawn s\<rparr>
               in (Inr (Some attempt), s\<lparr>open_attempt := Some attempt, tried := tried s @ [i],
                     attempt_count := attempt_count s + 1, reused_tokens := reused_tokens s + start\<rparr>))"

definition observe_attempt :: "cascade_attempt \<Rightarrow> int \<Rightarrow> int option \<Rightarrow> proposal_cascade
    \<Rightarrow> (cascade_observation, proposal_cascade) res" where
  "observe_attempt a matched correction s =
     (if open_attempt s \<noteq> Some a
      then (Inl (ValueError ''cascade observation does not match the open attempt''), s)
      else if \<not> (int (length (drawn s)) \<le> matched \<and> matched \<le> int (length (attempt_path a)))
      then (Inl (ValueError ''matched prefix must preserve the authoritative target frontier''), s)
      else
        let s = s\<lparr>open_attempt := None\<rparr>
        in if matched = int (length (attempt_path a))
           then (if correction \<noteq> None then (Inl (ValueError ''a fully matched path has no correction token''), s)
                 else (Inr \<lparr>full_match = True, matched_prefix = matched, correction_drawn = None,
                         observed_frontier = attempt_path a, pruned_candidates = [], surviving_candidates = [],
                         observed_terminal = True\<rparr>,
                       s\<lparr>drawn := attempt_path a, terminal_round := True\<rparr>))
           else (case correction of
                   None \<Rightarrow> (Inl (ValueError ''a partial path requires its nonnegative target correction token''), s)
                 | Some token \<Rightarrow>
                     if token < 0
                     then (Inl (ValueError ''a partial path requires its nonnegative target correction token''), s)
                     else if token = attempt_path a ! nat matched
                     then (Inl (ValueError ''correction token must reject the attempted proposal''), s)
                     else
                       let s = s\<lparr>drawn := take (nat matched) (attempt_path a) @ [token]\<rparr>;
                           before = filter (\<lambda>i. i \<notin> set (tried s)) (remaining s);
                           left = survivors s;
                           dead = filter (\<lambda>i. i \<notin> set left) before;
                           s = s\<lparr>pruned_count := pruned_count s + length dead,
                                 remaining := filter (\<lambda>i. i \<in> set (tried s) \<or> i \<in> set left) (remaining s),
                                 terminal_round := terminal_round s \<or> left = []\<rparr>
                       in (Inr \<lparr>full_match = False, matched_prefix = matched, correction_drawn = Some token,
                             observed_frontier = drawn s, pruned_candidates = dead, surviving_candidates = left,
                             observed_terminal = terminal_round s\<rparr>, s)))"

section \<open>Machine\<close>

datatype proposal_call = NextAttempt | ObserveAttempt cascade_attempt int "int option"

fun proposal_step :: "proposal_call \<Rightarrow> proposal_cascade \<Rightarrow> (unit, proposal_cascade) res" where
  "proposal_step NextAttempt s = bind_res (next_attempt s) (\<lambda>_ s. (Inr (), s))"
| "proposal_step (ObserveAttempt a matched correction) s =
     bind_res (observe_attempt a matched correction s) (\<lambda>_ s. (Inr (), s))"

definition proposal_start_state :: "proposal_cascade \<Rightarrow> bool" where
  "proposal_start_state s \<longleftrightarrow> (\<exists>ps g m d. new_proposal_cascade ps g m d = Inr s)"

text \<open>A proposal is alive while the tokens drawn so far are a prefix of it.\<close>

definition alive :: "proposal_cascade \<Rightarrow> nat \<Rightarrow> bool" where
  "alive s i \<longleftrightarrow> prefix (drawn s) (proposals s ! i)"

definition longer_first :: "int list list \<Rightarrow> nat \<Rightarrow> nat \<Rightarrow> bool" where
  "longer_first ps i j \<longleftrightarrow> length (ps ! j) < length (ps ! i) \<or> (length (ps ! j) = length (ps ! i) \<and> i < j)"

definition attempt_ok :: "proposal_cascade \<Rightarrow> cascade_attempt \<Rightarrow> bool" where
  "attempt_ok s a \<longleftrightarrow> candidate_index a \<in> set (tried s) \<and> attempt_path a = proposals s ! candidate_index a
     \<and> prefix (drawn s) (attempt_path a)"

definition proposal_inv :: "proposal_cascade \<Rightarrow> bool" where
  "proposal_inv s \<longleftrightarrow> sorted_wrt (longer_first (proposals s)) (remaining s)
     \<and> set (remaining s) \<subseteq> {..<length (proposals s)}
     \<and> distinct (tried s) \<and> set (tried s) \<subseteq> {..<length (proposals s)}
     \<and> (\<forall>i < length (proposals s). i \<notin> set (tried s) \<longrightarrow> i \<notin> set (remaining s) \<longrightarrow> \<not> alive s i)
     \<and> (\<forall>a. open_attempt s = Some a \<longrightarrow> attempt_ok s a)"

lemma take_prefix_iff: "prefix xs ys \<longleftrightarrow> length xs \<le> length ys \<and> take (length xs) ys = xs"
  by (metis append_eq_conv_conj prefix_def prefix_length_le take_is_prefix)

lemma survivors_eq: "survivors s = filter (\<lambda>i. i \<notin> set (tried s) \<and> alive s i) (remaining s)"
  by (auto simp: survivors_def alive_def take_prefix_iff Let_def intro: filter_cong)

lemma new_proposal_inv: "new_proposal_cascade ps g m d = Inr s \<Longrightarrow> proposal_inv s"
  using sorted_longest_first[of ps]
  by (auto simp: new_proposal_cascade_def proposal_inv_def longer_first_def[abs_def] split: if_splits)

lemma survivors_set:
  "proposal_inv s \<Longrightarrow> set (survivors s) = {i. i < length (proposals s) \<and> i \<notin> set (tried s) \<and> alive s i}"
  by (auto simp: survivors_eq proposal_inv_def)

lemma survivors_hd:
  assumes "proposal_inv s" and "survivors s = i # rest" and "j \<in> set (survivors s)"
  shows "length (proposals s ! j) \<le> length (proposals s ! i)"
proof -
  have "sorted_wrt (longer_first (proposals s)) (survivors s)"
    using assms(1) by (simp add: survivors_eq proposal_inv_def sorted_wrt_filter)
  then show ?thesis using assms(2,3) by (auto simp: longer_first_def)
qed

text \<open>Dropping the dead keeps the invariant.\<close>

lemma sorted_wrt_subseq: "subseq xs ys \<Longrightarrow> sorted_wrt P ys \<Longrightarrow> sorted_wrt P xs"
  by (induction xs ys rule: list_emb.induct) (auto dest: list_emb_set)

lemma drop_dead_inv:
  assumes "proposal_inv s" and "filter (\<lambda>i. i \<notin> set (tried s) \<and> alive s i) (remaining s) = filter (\<lambda>i. i \<notin> set (tried s) \<and> alive s i) rest"
    and "subseq rest (remaining s)"
  shows "proposal_inv (s\<lparr>remaining := rest\<rparr>)"
proof -
  have sub: "set rest \<subseteq> set (remaining s)" using assms(3) by (metis notin_set_nthsI subseq_conv_nths subsetI)
  have "sorted_wrt (longer_first (proposals s)) rest"
    using assms(1) sorted_wrt_subseq[OF assms(3)] by (simp add: proposal_inv_def)
  moreover have "\<not> alive s i" if "i < length (proposals s)" "i \<notin> set (tried s)" "i \<notin> set rest" for i
  proof
    assume "alive s i"
    then have "i \<in> set (remaining s)" using assms(1) that by (auto simp: proposal_inv_def)
    then have "i \<in> set (filter (\<lambda>i. i \<notin> set (tried s) \<and> alive s i) (remaining s))"
      using \<open>alive s i\<close> that(2) by simp
    then have "i \<in> set (filter (\<lambda>i. i \<notin> set (tried s) \<and> alive s i) rest)" by (simp only: assms(2))
    then show False using that(3) by simp
  qed
  ultimately show ?thesis
    using assms(1) sub by (auto simp: proposal_inv_def alive_def attempt_ok_def)
qed

lemma next_attempt_cases:
  assumes inv: "proposal_inv s"
  obtains (refused) e where "next_attempt s = (Inl e, s)" "open_attempt s \<noteq> None"
  | (done_) t where "next_attempt s = (Inr None, t)" "proposal_inv t" "drawn t = drawn s" "proposals t = proposals s"
      "terminal_round s \<or> (\<forall>i < length (proposals s). i \<notin> set (tried s) \<longrightarrow> \<not> alive s i)"
  | (launch) a t where "next_attempt s = (Inr (Some a), t)" "proposal_inv t" "drawn t = drawn s" "proposals t = proposals s"
      "tried t = tried s @ [candidate_index a]" "open_attempt t = Some a" "candidate_index a < length (proposals s)"
      "candidate_index a \<notin> set (tried s)" "alive s (candidate_index a)" "attempt_path a = proposals s ! candidate_index a"
      "proposal_start a = (if reuse s \<noteq> None then length (drawn s) - 1 else 0)"
      "verification_suffix a = drop (proposal_start a) (attempt_path a)" "shared_prefix_tokens a = proposal_start a"
      "\<forall>j < length (proposals s). j \<notin> set (tried s) \<longrightarrow> alive s j \<longrightarrow>
         length (proposals s ! j) \<le> length (proposals s ! candidate_index a)"
proof (cases "open_attempt s")
  case (Some a)
  then show ?thesis using refused by (simp add: next_attempt_def)
next
  case None
  show ?thesis
  proof (cases "terminal_round s")
    case True
    then show ?thesis using done_[of s] None inv by (simp add: next_attempt_def)
  next
    case False
    define invalid where "invalid = filter (\<lambda>i. i \<notin> set (tried s) \<and> i \<notin> set (survivors s)) (remaining s)"
    define u where "u = (if invalid \<noteq> []
       then s\<lparr>pruned_count := pruned_count s + length invalid, remaining := filter (\<lambda>i. i \<notin> set invalid) (remaining s)\<rparr> else s)"
    have keep: "filter (\<lambda>i. i \<notin> set (tried s) \<and> alive s i) (remaining s)
        = filter (\<lambda>i. i \<notin> set (tried s) \<and> alive s i) (filter (\<lambda>i. i \<notin> set invalid) (remaining s))"
      by (auto simp: invalid_def survivors_eq intro: filter_cong)
    have "proposal_inv (s\<lparr>remaining := filter (\<lambda>i. i \<notin> set invalid) (remaining s)\<rparr>)"
      by (rule drop_dead_inv[OF inv keep]) simp
    then have u: "proposal_inv u" "drawn u = drawn s" "proposals u = proposals s" "tried u = tried s"
        "open_attempt u = None" "attempt_count u = attempt_count s" "reuse u = reuse s"
      using inv None by (auto simp: u_def proposal_inv_def alive_def attempt_ok_def)
    have run: "next_attempt s = (case survivors s of
             [] \<Rightarrow> (Inr None, u\<lparr>terminal_round := True\<rparr>)
           | i # _ \<Rightarrow>
               let path = proposals u ! i;
                   start = (if reuse u \<noteq> None then length (drawn u) - 1 else 0);
                   attempt = \<lparr>attempt_id = attempt_count u, candidate_index = i, attempt_path = path,
                     proposal_start = start, verification_suffix = drop start path,
                     shared_prefix_tokens = start, attempt_frontier = drawn u\<rparr>
               in (Inr (Some attempt), u\<lparr>open_attempt := Some attempt, tried := tried u @ [i],
                     attempt_count := attempt_count u + 1, reused_tokens := reused_tokens u + start\<rparr>))"
      using None False unfolding next_attempt_def Let_def u_def invalid_def by (simp only: simp_thms if_True if_False)
    show ?thesis
    proof (cases "survivors s")
      case Nil
      then show ?thesis
        using done_[of "u\<lparr>terminal_round := True\<rparr>"] run u survivors_set[OF inv]
        by (auto simp: proposal_inv_def alive_def attempt_ok_def)
    next
      case (Cons i rest)
      define start where "start = (if reuse s \<noteq> None then length (drawn s) - 1 else 0)"
      define a where "a = \<lparr>attempt_id = attempt_count s, candidate_index = i, attempt_path = proposals s ! i,
                     proposal_start = start, verification_suffix = drop start (proposals s ! i),
                     shared_prefix_tokens = start, attempt_frontier = drawn s\<rparr>"
      let ?t = "u\<lparr>open_attempt := Some a, tried := tried u @ [i],
                     attempt_count := attempt_count u + 1, reused_tokens := reused_tokens u + start\<rparr>"
      have i: "i < length (proposals s)" "i \<notin> set (tried s)" "alive s i" using survivors_set[OF inv] Cons by auto
      have t: "next_attempt s = (Inr (Some a), ?t)"
        using run Cons u by (simp add: a_def start_def Let_def)
      have "proposal_inv ?t"
        using u i by (auto simp: proposal_inv_def alive_def attempt_ok_def a_def)
      moreover have "length (proposals s ! j) \<le> length (proposals s ! i)"
        if "j < length (proposals s)" "j \<notin> set (tried s)" "alive s j" for j
        by (rule survivors_hd[OF inv Cons]) (use survivors_set[OF inv] that in simp)
      ultimately show ?thesis
        using launch[of a ?t] t u i by (simp add: a_def start_def)
    qed
  qed
qed

lemma observe_attempt_inv:
  assumes inv: "proposal_inv s"
  shows "proposal_inv (snd (observe_attempt a matched correction s))"
    and "prefix (drawn s) (drawn (snd (observe_attempt a matched correction s)))"
proof -
  have "proposal_inv (snd (observe_attempt a matched correction s))
    \<and> prefix (drawn s) (drawn (snd (observe_attempt a matched correction s)))"
  proof (cases "open_attempt s = Some a \<and> int (length (drawn s)) \<le> matched \<and> matched \<le> int (length (attempt_path a))")
    case False
    then show ?thesis using inv by (auto simp: observe_attempt_def)
  next
    case True
    let ?s = "s\<lparr>open_attempt := None\<rparr>"
    have s: "proposal_inv ?s" using inv by (auto simp: proposal_inv_def alive_def)
    have a: "attempt_ok s a" using inv True by (simp add: proposal_inv_def)
    then have pre: "prefix (drawn s) (attempt_path a)" unfolding attempt_ok_def by blast
    show ?thesis
    proof (cases "matched = int (length (attempt_path a))")
      case full: True
      have "proposal_inv (?s\<lparr>drawn := attempt_path a, terminal_round := True\<rparr>)"
        using s a prefix_order.trans[of "drawn s" "attempt_path a"]
        by (fastforce simp: proposal_inv_def alive_def attempt_ok_def)
      then show ?thesis
        using True full s pre by (cases correction) (simp_all add: observe_attempt_def)
    next
      case partial: False
      show ?thesis
      proof (cases "correction = None \<or> the correction < 0 \<or> the correction = attempt_path a ! nat matched")
        case True
        then show ?thesis
          using \<open>open_attempt s = Some a \<and> _\<close> partial s by (cases correction) (auto simp: observe_attempt_def Let_def)
      next
        case ok: False
        then obtain token where tk: "correction = Some token" "\<not> token < 0" "token \<noteq> attempt_path a ! nat matched" by auto
        define d where "d = take (nat matched) (attempt_path a) @ [token]"
        let ?u = "?s\<lparr>drawn := d\<rparr>"
        have grow: "prefix (drawn s) d"
          using a True by (auto simp: attempt_ok_def take_prefix_iff d_def min_def nat_le_iff le_nat_iff)
        have u: "proposal_inv ?u"
          using s prefix_order.trans[OF grow] by (fastforce simp: proposal_inv_def alive_def)
        have "proposal_inv (?u\<lparr>remaining := filter (\<lambda>i. i \<in> set (tried ?u) \<or> i \<in> set (survivors ?u)) (remaining ?u)\<rparr>)"
          by (rule drop_dead_inv[OF u]) (auto simp: survivors_eq intro: filter_cong)
        then have "proposal_inv (?u\<lparr>pruned_count := n, remaining := filter (\<lambda>i. i \<in> set (tried ?u) \<or> i \<in> set (survivors ?u)) (remaining ?u),
            terminal_round := b\<rparr>)" for n b
          by (simp add: proposal_inv_def alive_def attempt_ok_def)
        then show ?thesis
          using True partial tk grow by (simp add: observe_attempt_def Let_def d_def)
      qed
    qed
  qed
  then show "proposal_inv (snd (observe_attempt a matched correction s))"
    "prefix (drawn s) (drawn (snd (observe_attempt a matched correction s)))" by simp_all
qed

lemma proposal_step_inv: "proposal_inv s \<Longrightarrow> proposal_inv (snd (proposal_step c s))"
proof (cases c)
  case NextAttempt
  assume inv: "proposal_inv s"
  from inv show ?thesis
    unfolding NextAttempt proposal_step.simps by (cases rule: next_attempt_cases) (use inv in simp_all)
next
  case (ObserveAttempt a matched correction)
  assume "proposal_inv s"
  then show ?thesis
    using observe_attempt_inv(1)[of s a matched correction] unfolding ObserveAttempt proposal_step.simps
    by (cases "observe_attempt a matched correction s"; cases "fst (observe_attempt a matched correction s)") auto
qed

interpretation proposal_cascade: stateful_component proposal_start_state proposal_step proposal_inv
  using new_proposal_inv proposal_step_inv by unfold_locales (auto simp: proposal_start_state_def)

section \<open>Resuming at the correction\<close>

lemma take_butlast_prefix:
  assumes "prefix xs ys" "xs \<noteq> []"
  shows "take (length xs - 1) ys = butlast xs" "hd (drop (length xs - 1) ys) = last xs"
  using assms by (cases xs rule: rev_cases; auto simp: prefix_def)+

text \<open>
  C17: Each attempt of the longest-first cascade is a new proposal that the drawn tokens are a
  prefix of, no live one is longer, and with exact cache state it reuses the drawn tokens but
  the last and resumes with that correction token.
\<close>

theorem attempt_resumes_at_the_correction:
  assumes s: "reachable proposal_start_state proposal_step s" and n: "next_attempt s = (Inr r, t)"
  shows "case r of
      Some a \<Rightarrow> candidate_index a \<notin> set (tried s) \<and> attempt_path a = proposals s ! candidate_index a
        \<and> prefix (drawn s) (attempt_path a)
        \<and> attempt_path a = take (shared_prefix_tokens a) (attempt_path a) @ verification_suffix a
        \<and> (reuse s = None \<longrightarrow> verification_suffix a = attempt_path a)
        \<and> (reuse s \<noteq> None \<longrightarrow> drawn s \<noteq> [] \<longrightarrow> take (shared_prefix_tokens a) (attempt_path a) = butlast (drawn s)
             \<and> hd (verification_suffix a) = last (drawn s))
        \<and> (\<forall>j < length (proposals s). j \<notin> set (tried s) \<longrightarrow> prefix (drawn s) (proposals s ! j)
             \<longrightarrow> length (proposals s ! j) \<le> length (attempt_path a))
    | None \<Rightarrow> terminal_round s
        \<or> (\<forall>j < length (proposals s). j \<notin> set (tried s) \<longrightarrow> \<not> prefix (drawn s) (proposals s ! j))"
  using proposal_cascade.inv_reachable[OF s]
proof (cases rule: next_attempt_cases)
  case (refused e)
  then show ?thesis using n by simp
next
  case (done_ u)
  then show ?thesis using n by (auto simp: alive_def)
next
  case (launch a u)
  then have "prefix (drawn s) (attempt_path a)" by (simp add: alive_def)
  from take_butlast_prefix[OF this] this show ?thesis
    using launch n by (auto simp: alive_def)
qed

text \<open>
  An observation that is refused after its frontier was checked has closed the attempt all the
  same: the round cannot repeat it.
\<close>

lemma refused_observation_closes_attempt:
  assumes "open_attempt s = Some a" and "int (length (drawn s)) \<le> int (length (attempt_path a))"
  shows "observe_attempt a (int (length (attempt_path a))) (Some token) s
    = (Inl (ValueError ''a fully matched path has no correction token''), s\<lparr>open_attempt := None\<rparr>)"
  using assms by (simp add: observe_attempt_def)

section \<open>A concrete round\<close>

definition demo_geometry :: reuse_geometry where
  "demo_geometry = \<lparr>state_revision = replicate 40 (CHR ''a''), cache_layout = ''paged'', cache_position = 64,
     layer_count = 2, state_components = [''kv''], component_widths = [8], exact_state = True, branchable_state = True\<rparr>"

definition demo_proposals :: proposal_cascade where
  "demo_proposals = projr (new_proposal_cascade [[5, 6, 7], [5, 8, 1], [5, 6, 9, 4]] (Some demo_geometry) 15 15)"

definition demo_attempt :: cascade_attempt where
  "demo_attempt = \<lparr>attempt_id = 0, candidate_index = 2, attempt_path = [5, 6, 9, 4], proposal_start = 0,
     verification_suffix = [5, 6, 9, 4], shared_prefix_tokens = 0, attempt_frontier = []\<rparr>"

definition demo_corrected :: proposal_cascade where
  "demo_corrected = run_calls proposal_step [NextAttempt, ObserveAttempt demo_attempt 1 (Some 8)] demo_proposals"

theorem attempt_resumes_at_the_correction_witness:
  "\<exists>a t. next_attempt demo_corrected = (Inr (Some a), t) \<and> hd (verification_suffix a) = 8"
proof -
  have "new_proposal_cascade [[5, 6, 7], [5, 8, 1], [5, 6, 9, 4]] (Some demo_geometry) 15 15 = Inr demo_proposals"
    by (simp add: demo_proposals_def new_proposal_cascade_def check_proposals_def)
  then have r: "reachable proposal_start_state proposal_step demo_corrected"
    unfolding demo_corrected_def by (intro reachable_run_calls reachable_init) (auto simp: proposal_start_state_def)
  have d: "drawn demo_corrected = [5, 8]" "reuse demo_corrected \<noteq> None"
    "fst (next_attempt demo_corrected) = Inr (Some (the (projr (fst (next_attempt demo_corrected)))))"
    by code_simp+
  then obtain a t where n: "next_attempt demo_corrected = (Inr (Some a), t)" by (metis prod.collapse)
  then show ?thesis using attempt_resumes_at_the_correction[OF r n] d(1,2) by auto
qed

end
