(* ===== verification/CopyIndex.thy ===== *)
theory CopyIndex
  imports Prelude
begin

text \<open>
  The shared token history of \<open>runtime/copy_draft.py\<close>: \<open>_CopyIndexStore\<close>, an append-only
  list of tokens with an index from every n-gram of the configured sizes to the positions
  where it starts.

  Lane states that are copies of one another share one store, and each carries a watermark;
  an older state cuts the store back before it uses it.  \<open>exact_store\<close> is the store written
  down from its tokens alone, and the lemmas show that appending and truncating stay on it.
  The locale \<open>watermark_store\<close> is what the lane state relies on.
\<close>

section \<open>The store\<close>

record copy_store =
  store_tokens :: "int list"
  store_index :: "(nat \<times> (int list \<rightharpoonup> nat list)) list"
  store_ngram_min :: nat
  store_ngram_max :: nat

definition new_store :: "nat \<Rightarrow> nat \<Rightarrow> copy_store" where
  "new_store ngram_min ngram_max =
     \<lparr>store_tokens = [], store_index = map (\<lambda>gram. (gram, Map.empty)) [ngram_min..<Suc ngram_max],
      store_ngram_min = ngram_min, store_ngram_max = ngram_max\<rparr>"

definition note_ngram :: "int list \<Rightarrow> nat \<Rightarrow> (int list \<rightharpoonup> nat list) \<Rightarrow> (int list \<rightharpoonup> nat list)" where
  "note_ngram tokens gram table =
     (if gram \<le> length tokens
      then let start = length tokens - gram; key = drop start tokens
           in case table key of None \<Rightarrow> table(key \<mapsto> [start]) | Some bucket \<Rightarrow> table(key \<mapsto> bucket @ [start])
      else table)"

definition append_token :: "int \<Rightarrow> copy_store \<Rightarrow> copy_store" where
  "append_token token s =
     (let tokens = store_tokens s @ [token]
      in s\<lparr>store_tokens := tokens,
           store_index := map (\<lambda>(gram, table). (gram, note_ngram tokens gram table)) (store_index s)\<rparr>)"

definition drop_ngram :: "int list \<Rightarrow> nat \<Rightarrow> (int list \<rightharpoonup> nat list) \<Rightarrow> (int list \<rightharpoonup> nat list)" where
  "drop_ngram tokens gram table =
     (if length tokens < gram then table
      else let start = length tokens - gram; key = drop start tokens
           in case table key of
                None \<Rightarrow> table
              | Some bucket \<Rightarrow>
                  if bucket \<noteq> [] \<and> last bucket = start
                  then if butlast bucket = [] then table(key := None) else table(key \<mapsto> butlast bucket)
                  else table)"

definition pop_token :: "copy_store \<Rightarrow> copy_store" where
  "pop_token s =
     s\<lparr>store_tokens := butlast (store_tokens s),
       store_index := map (\<lambda>(gram, table). (gram, drop_ngram (store_tokens s) gram table)) (store_index s)\<rparr>"

function truncate_store :: "nat \<Rightarrow> copy_store \<Rightarrow> copy_store" where
  "truncate_store n s = (if n < length (store_tokens s) then truncate_store n (pop_token s) else s)"
  by auto
termination
  by (relation "measure (\<lambda>(n, s). length (store_tokens s))") (auto simp: pop_token_def)

declare truncate_store.simps [simp del]

section \<open>The index of a token list\<close>

definition starts :: "int list \<Rightarrow> int list \<Rightarrow> nat list" where
  "starts tokens key =
     filter (\<lambda>i. take (length key) (drop i tokens) = key) [0..<Suc (length tokens) - length key]"

definition exact_table :: "int list \<Rightarrow> nat \<Rightarrow> (int list \<rightharpoonup> nat list)" where
  "exact_table tokens gram key =
     (if length key = gram \<and> starts tokens key \<noteq> [] then Some (starts tokens key) else None)"

definition exact_store :: "nat \<Rightarrow> nat \<Rightarrow> int list \<Rightarrow> copy_store" where
  "exact_store ngram_min ngram_max tokens =
     \<lparr>store_tokens = tokens, store_index = map (\<lambda>gram. (gram, exact_table tokens gram)) [ngram_min..<Suc ngram_max],
      store_ngram_min = ngram_min, store_ngram_max = ngram_max\<rparr>"

lemma starts_snoc:
  assumes "key \<noteq> []"
  shows "starts (tokens @ [t]) key =
           starts tokens key
             @ (if length key \<le> Suc (length tokens) \<and> drop (Suc (length tokens) - length key) (tokens @ [t]) = key
                then [Suc (length tokens) - length key] else [])"
proof (cases "length key \<le> Suc (length tokens)")
  case True
  let ?n = "Suc (length tokens) - length key"
  have split: "[0..<Suc (Suc (length tokens)) - length key] = [0..<?n] @ [?n]"
    using True by (simp add: Suc_diff_le)
  have old: "filter (\<lambda>i. take (length key) (drop i (tokens @ [t])) = key) [0..<?n]
             = filter (\<lambda>i. take (length key) (drop i tokens) = key) [0..<?n]"
    using assms by (intro filter_cong refl) (auto simp: Suc_le_eq)
  have new: "take (length key) (drop ?n (tokens @ [t])) = drop ?n (tokens @ [t])"
    using True by (intro take_all) simp
  show ?thesis
    unfolding starts_def length_append_singleton split filter_append old using True new by simp
next
  case False
  then show ?thesis by (simp add: starts_def)
qed

lemma starts_bound: "i \<in> set (starts tokens key) \<Longrightarrow> i + length key \<le> length tokens"
  by (auto simp: starts_def)

lemma note_ngram_exact:
  assumes "0 < gram"
  shows "note_ngram (tokens @ [t]) gram (exact_table tokens gram) = exact_table (tokens @ [t]) gram"
proof (rule ext)
  fix key :: "int list"
  show "note_ngram (tokens @ [t]) gram (exact_table tokens gram) key = exact_table (tokens @ [t]) gram key"
  proof (cases "length key = gram")
    case True
    then have "key \<noteq> []" using assms by auto
    then show ?thesis using True
      by (auto simp: note_ngram_def exact_table_def starts_snoc Let_def split: option.splits)
  next
    case False
    then show ?thesis
      by (auto simp: note_ngram_def exact_table_def Let_def split: option.splits)
  qed
qed

lemma drop_ngram_exact:
  assumes "0 < gram"
  shows "drop_ngram (tokens @ [t]) gram (exact_table (tokens @ [t]) gram) = exact_table tokens gram"
proof (rule ext)
  fix key :: "int list"
  have nonempty: "key \<noteq> []" if "length key = gram" for key :: "int list" using assms that by auto
  show "drop_ngram (tokens @ [t]) gram (exact_table (tokens @ [t]) gram) key = exact_table tokens gram key"
    by (cases "length key = gram")
       (auto simp: drop_ngram_def exact_table_def starts_snoc nonempty Let_def split: option.splits)
qed

lemma append_exact:
  "0 < lo \<Longrightarrow> append_token t (exact_store lo hi tokens) = exact_store lo hi (tokens @ [t])"
  by (auto simp: append_token_def exact_store_def note_ngram_exact Let_def simp del: upt_Suc)

lemma pop_exact:
  "0 < lo \<Longrightarrow> pop_token (exact_store lo hi (tokens @ [t])) = exact_store lo hi tokens"
  by (auto simp: pop_token_def exact_store_def drop_ngram_exact simp del: upt_Suc)

lemma new_exact: "0 < lo \<Longrightarrow> new_store lo hi = exact_store lo hi []"
  by (auto simp: new_store_def exact_store_def exact_table_def starts_def)

lemma tokens_exact [simp]: "store_tokens (exact_store lo hi tokens) = tokens"
  by (simp add: exact_store_def)

lemma truncate_exact:
  "0 < lo \<Longrightarrow> truncate_store n (exact_store lo hi tokens) = exact_store lo hi (take n tokens)"
proof (induction tokens rule: rev_induct)
  case Nil
  then show ?case by (simp add: truncate_store.simps)
next
  case (snoc t tokens)
  then show ?case
    by (cases "n < length (tokens @ [t])") (simp_all add: truncate_store.simps [of n "exact_store lo hi (tokens @ [t])"] pop_exact)
qed

section \<open>Stores that a watermark can cut back\<close>

locale watermark_store =
  fixes push :: "'x \<Rightarrow> 's \<Rightarrow> 's"
    and cut :: "nat \<Rightarrow> 's \<Rightarrow> 's"
    and content :: "'s \<Rightarrow> 'x list"
    and good :: "'s \<Rightarrow> bool"
  assumes good_push: "good s \<Longrightarrow> good (push x s)"
    and good_cut: "good s \<Longrightarrow> good (cut n s)"
    and content_push: "good s \<Longrightarrow> content (push x s) = content s @ [x]"
    and content_cut: "good s \<Longrightarrow> content (cut n s) = take n (content s)"
    and cut_push: "good s \<Longrightarrow> n \<le> length (content s) \<Longrightarrow> cut n (push x s) = cut n s"
    and cut_idle: "good s \<Longrightarrow> cut (length (content s)) s = s"
begin

lemma good_pushes: "good s \<Longrightarrow> good (fold push xs s)"
  by (induction xs arbitrary: s) (auto intro: good_push)

lemma content_pushes: "good s \<Longrightarrow> content (fold push xs s) = content s @ xs"
  by (induction xs arbitrary: s) (auto simp: content_push good_push)

lemma cut_pushes: "good s \<Longrightarrow> n \<le> length (content s) \<Longrightarrow> cut n (fold push xs s) = cut n s"
  by (induction xs arbitrary: s) (auto simp: content_push good_push cut_push)

text \<open>Whatever was pushed since, cutting back to the watermark restores the very store.\<close>

lemma cut_restores: "good s \<Longrightarrow> cut (length (content s)) (fold push xs s) = s"
  by (simp add: cut_pushes cut_idle)

end

definition indexed :: "copy_store \<Rightarrow> bool" where
  "indexed s \<longleftrightarrow> 0 < store_ngram_min s
     \<and> s = exact_store (store_ngram_min s) (store_ngram_max s) (store_tokens s)"

lemma indexed_exact [simp]: "indexed (exact_store lo hi tokens) \<longleftrightarrow> 0 < lo"
  by (simp add: indexed_def exact_store_def)

lemma indexedE:
  assumes "indexed s"
  obtains lo hi tokens where "0 < lo" "s = exact_store lo hi tokens"
  using assms unfolding indexed_def by blast

interpretation history: watermark_store append_token truncate_store store_tokens indexed
proof
  fix s x n
  assume "indexed s"
  then obtain lo hi tokens where s: "0 < lo" "s = exact_store lo hi tokens" by (rule indexedE)
  show "indexed (append_token x s)" "indexed (truncate_store n s)"
    "store_tokens (append_token x s) = store_tokens s @ [x]"
    "store_tokens (truncate_store n s) = take n (store_tokens s)"
    "truncate_store (length (store_tokens s)) s = s"
    using s by (simp_all add: append_exact truncate_exact)
  show "truncate_store n (append_token x s) = truncate_store n s" if "n \<le> length (store_tokens s)"
    using s that by (simp add: append_exact truncate_exact)
qed

lemma append_ngrams [simp]:
  "store_ngram_min (append_token x s) = store_ngram_min s" "store_ngram_max (append_token x s) = store_ngram_max s"
  by (simp_all add: append_token_def Let_def)

lemma append_all_ngrams [simp]:
  "store_ngram_min (fold append_token xs s) = store_ngram_min s"
  "store_ngram_max (fold append_token xs s) = store_ngram_max s"
  by (induction xs arbitrary: s) simp_all

lemma truncate_ngrams [simp]:
  "store_ngram_min (truncate_store n s) = store_ngram_min s"
  "store_ngram_max (truncate_store n s) = store_ngram_max s"
  by (induction n s rule: truncate_store.induct) (simp_all add: truncate_store.simps pop_token_def)

lemma indexed_lookup:
  assumes "indexed s" "store_ngram_min s \<le> gram" "gram \<le> store_ngram_max s"
  shows "map_of (store_index s) gram = Some (exact_table (store_tokens s) gram)"
proof -
  have "map_of (map (\<lambda>gram. (gram, f gram)) xs) x = (if x \<in> set xs then Some (f x) else None)"
    for f :: "nat \<Rightarrow> (int list \<rightharpoonup> nat list)" and xs x by (induction xs) auto
  moreover have "store_index s = map (\<lambda>gram. (gram, exact_table (store_tokens s) gram))
      [store_ngram_min s..<Suc (store_ngram_max s)]"
    using assms(1) unfolding indexed_def by (metis copy_store.select_convs(2) exact_store_def)
  ultimately show ?thesis using assms(2,3) by (simp del: upt_Suc)
qed

end
