(* ===== verification/CopyPolicy.thy ===== *)
theory CopyPolicy
  imports Prelude "HOL-Library.Multiset"
begin

text \<open>
  \<open>CopyDraftPolicy\<close> of \<open>runtime/copy_draft.py\<close>: its construction from configuration values, the
  dict it prints, its clamping to an adapter's proposal depth, the measured row costs and the
  cohort cap.

  Configuration values are \<open>copy_value\<close>s; a field keeps the number it was given as a \<open>rat\<close>.
  The floating point operations round: every one goes through the argument \<open>rnd\<close>, the rounding
  to the nearest double, about which the lemmas assume what they need.  Overflow to infinity is
  not modelled.
\<close>

section \<open>Configuration values\<close>

datatype copy_value =
    NoneValue
  | BoolValue bool
  | IntValue int
  | FloatValue py_float
  | TextValue string
  | MapValue "(copy_value \<times> copy_value) list"
  | PairsValue "(copy_value \<times> copy_value) list"
  | OtherValue

definition MATCH_SCAN_CAP :: int where "MATCH_SCAN_CAP = 64"
definition MATCH_SCAN_SOURCES :: int where "MATCH_SCAN_SOURCES = 8"

definition check_minimum :: "string \<Rightarrow> int \<Rightarrow> copy_value \<Rightarrow> exc + int" where
  "check_minimum name minimum v =
     (case v of
        IntValue i \<Rightarrow> if i < minimum then Inl (ValueError (''copy-draft '' @ name @ '' must be an integer >= minimum'')) else Inr i
      | _ \<Rightarrow> Inl (ValueError (''copy-draft '' @ name @ '' must be an integer >= minimum'')))"

definition check_nonnegative :: "string \<Rightarrow> copy_value \<Rightarrow> exc + rat" where
  "check_nonnegative name v =
     (let bad = Inl (ValueError (''copy-draft '' @ name @ '' must be finite and nonnegative''))
      in case v of
           IntValue i \<Rightarrow> if i < 0 then bad else Inr (of_int i)
         | FloatValue (Finite q) \<Rightarrow> if q < 0 then bad else Inr q
         | _ \<Rightarrow> bad)"

section \<open>The measured row costs\<close>

text \<open>\<open>str.isdigit\<close> on the first 256 characters: the decimal digits, which \<open>int\<close> reads, and three superscripts, which it refuses.\<close>

definition digit_char :: "char \<Rightarrow> bool" where
  "digit_char c \<longleftrightarrow> 48 \<le> (of_char c :: int) \<and> (of_char c :: int) \<le> 57"

definition is_digit_text :: "string \<Rightarrow> bool" where
  "is_digit_text s \<longleftrightarrow> s \<noteq> [] \<and> list_all (\<lambda>c. digit_char c \<or> (of_char c :: int) \<in> {178, 179, 185}) s"

definition parse_digits :: "string \<Rightarrow> int" where
  "parse_digits s = foldl (\<lambda>n c. 10 * n + (of_char c - 48)) 0 s"

definition row_key :: "copy_value \<Rightarrow> exc + int" where
  "row_key k =
     (let bad = Inl (ValueError ''copy-draft verify_row_costs rows must be integers >= 1'')
      in case k of
           TextValue s \<Rightarrow>
             if \<not> is_digit_text s then bad
             else if \<not> list_all digit_char s then Inl (ValueError ''invalid literal for int()'')
             else if parse_digits s < 1 then bad else Inr (parse_digits s)
         | IntValue i \<Rightarrow> if i < 1 then bad else Inr i
         | _ \<Rightarrow> bad)"

definition row_price :: "(rat \<Rightarrow> rat) \<Rightarrow> copy_value \<Rightarrow> exc + rat" where
  "row_price rnd c =
     (let bad = Inl (ValueError ''copy-draft verify_row_costs costs must be finite and positive'')
      in case c of
           IntValue i \<Rightarrow> if i \<le> 0 then bad else Inr (rnd (of_int i))
         | FloatValue (Finite q) \<Rightarrow> if q \<le> 0 then bad else Inr q
         | _ \<Rightarrow> bad)"

fun row_items :: "(rat \<Rightarrow> rat) \<Rightarrow> (copy_value \<times> copy_value) list \<Rightarrow> (int \<times> rat) list \<Rightarrow> exc + (int \<times> rat) list" where
  "row_items rnd [] table = Inr table"
| "row_items rnd ((k, c) # items) table =
     bind_sum (row_key k) (\<lambda>rows. bind_sum (row_price rnd c) (\<lambda>cost.
       row_items rnd items ((rows, cost) # filter (\<lambda>(r, _). r \<noteq> rows) table)))"

definition row_cost_table :: "(rat \<Rightarrow> rat) \<Rightarrow> copy_value \<Rightarrow> exc + (int \<times> rat) list" where
  "row_cost_table rnd v =
     bind_sum (case v of MapValue items \<Rightarrow> Inr items | PairsValue items \<Rightarrow> Inr items
               | _ \<Rightarrow> Inl (ValueError ''copy-draft verify_row_costs must map verify rows to costs'')) (\<lambda>items.
     bind_sum (row_items rnd items []) (\<lambda>table.
       if 1 \<notin> set (map fst table)
       then Inl (ValueError ''copy-draft verify_row_costs must include the one-row cost'')
       else Inr (sort_key fst table)))"

fun segment_cost :: "(rat \<Rightarrow> rat) \<Rightarrow> int \<Rightarrow> (int \<times> rat) list \<Rightarrow> rat option" where
  "segment_cost rnd rows ((low, low_cost) # (high, high_cost) # points) =
     (if low \<le> rows \<and> rows \<le> high
      then Some (rnd (low_cost + rnd (rnd (rnd (high_cost - low_cost) * of_int (rows - low)) / of_int (high - low))))
      else segment_cost rnd rows ((high, high_cost) # points))"
| "segment_cost rnd rows _ = None"

definition row_cost :: "(rat \<Rightarrow> rat) \<Rightarrow> (int \<times> rat) list \<Rightarrow> int \<Rightarrow> rat" where
  "row_cost rnd table rows =
     (case segment_cost rnd rows table of
        Some cost \<Rightarrow> cost
      | None \<Rightarrow>
          if rows \<le> fst (hd table) then snd (hd table)
          else if length table = 1 then snd (last table)
          else let (low, low_cost) = last (butlast table); (high, high_cost) = last table;
                   slope = max 0 (rnd (rnd (high_cost - low_cost) / of_int (high - low)))
               in rnd (high_cost + rnd (slope * of_int (rows - high))))"

section \<open>The policy\<close>

record copy_policy =
  enabled :: bool
  ngram_min :: int
  ngram_max :: int
  max_span :: int
  batched_max_span :: "int option"
  probe_span :: int
  lookback :: int
  min_samples :: int
  gate_window :: int
  reprobe_interval :: int
  min_yield_ratio :: rat
  verify_row_cost :: rat
  draft_step_cost :: rat
  min_match :: int
  strong_match :: int
  strong_max_span :: int
  initial_span :: "int option"
  verify_row_costs :: "(int \<times> rat) list option"

definition copy_defaults :: "(string \<times> copy_value) list" where
  "copy_defaults =
     [(''enabled'', BoolValue False), (''ngram_min'', IntValue 3), (''ngram_max'', IntValue 6),
      (''max_span'', IntValue 8), (''batched_max_span'', IntValue 0), (''probe_span'', IntValue 2),
      (''lookback'', IntValue 8192), (''min_samples'', IntValue 3), (''gate_window'', IntValue 32),
      (''reprobe_interval'', IntValue 16), (''min_yield_ratio'', FloatValue (Finite 1)),
      (''verify_row_cost'', FloatValue (Finite (1 / 10))), (''draft_step_cost'', FloatValue (Finite (15 / 100))),
      (''min_match'', IntValue 0), (''strong_match'', IntValue 0), (''strong_max_span'', IntValue 0),
      (''initial_span'', NoneValue), (''verify_row_costs'', NoneValue)]"

definition copy_arg :: "(string \<times> copy_value) list \<Rightarrow> string \<Rightarrow> copy_value" where
  "copy_arg kw name = (case map_of (kw @ copy_defaults) name of Some v \<Rightarrow> v | None \<Rightarrow> NoneValue)"

definition check_optional :: "string \<Rightarrow> int \<Rightarrow> copy_value \<Rightarrow> exc + int option" where
  "check_optional name minimum v =
     (if v = NoneValue then Inr None else bind_sum (check_minimum name minimum v) (\<lambda>i. Inr (Some i)))"

definition span_ceiling :: "copy_policy \<Rightarrow> int" where
  "span_ceiling p = max (max_span p) (strong_max_span p)"

text \<open>The integer and float fields, in the order they are checked.\<close>

definition check_ngrams :: "(string \<times> copy_value) list \<Rightarrow> exc + int \<times> int" where
  "check_ngrams kw =
     bind_sum (check_minimum ''ngram_min'' 1 (copy_arg kw ''ngram_min'')) (\<lambda>nmin.
     bind_sum (check_minimum ''ngram_max'' 1 (copy_arg kw ''ngram_max'')) (\<lambda>nmax.
       if nmax < nmin then Inl (ValueError ''copy-draft ngram_max must be >= ngram_min'') else Inr (nmin, nmax)))"

definition check_spans :: "(string \<times> copy_value) list \<Rightarrow> exc + int \<times> int option \<times> int" where
  "check_spans kw =
     bind_sum (check_minimum ''max_span'' 1 (copy_arg kw ''max_span'')) (\<lambda>span.
     bind_sum (check_optional ''batched_max_span'' 0 (copy_arg kw ''batched_max_span'')) (\<lambda>batched.
     bind_sum (check_minimum ''probe_span'' 1 (copy_arg kw ''probe_span'')) (\<lambda>probe.
       if probe > span then Inl (ValueError ''copy-draft probe_span must be <= max_span'')
       else Inr (span, batched, probe))))"

definition check_windows :: "(string \<times> copy_value) list \<Rightarrow> exc + int \<times> int \<times> int \<times> int" where
  "check_windows kw =
     bind_sum (check_minimum ''lookback'' 1 (copy_arg kw ''lookback'')) (\<lambda>look.
     bind_sum (check_minimum ''min_samples'' 0 (copy_arg kw ''min_samples'')) (\<lambda>samples.
     bind_sum (check_minimum ''gate_window'' 1 (copy_arg kw ''gate_window'')) (\<lambda>window.
     bind_sum (check_minimum ''reprobe_interval'' 1 (copy_arg kw ''reprobe_interval'')) (\<lambda>reprobe.
       Inr (look, samples, window, reprobe)))))"

definition check_costs :: "(string \<times> copy_value) list \<Rightarrow> exc + rat \<times> rat \<times> rat" where
  "check_costs kw =
     bind_sum (check_nonnegative ''min_yield_ratio'' (copy_arg kw ''min_yield_ratio'')) (\<lambda>ratio.
     bind_sum (check_nonnegative ''verify_row_cost'' (copy_arg kw ''verify_row_cost'')) (\<lambda>row.
     bind_sum (check_nonnegative ''draft_step_cost'' (copy_arg kw ''draft_step_cost'')) (\<lambda>step.
       Inr (ratio, row, step))))"

definition check_matches :: "(string \<times> copy_value) list \<Rightarrow> exc + int \<times> int \<times> int" where
  "check_matches kw =
     bind_sum (check_minimum ''min_match'' 0 (copy_arg kw ''min_match'')) (\<lambda>least.
     bind_sum (check_minimum ''strong_match'' 0 (copy_arg kw ''strong_match'')) (\<lambda>strong.
     bind_sum (check_minimum ''strong_max_span'' 0 (copy_arg kw ''strong_max_span'')) (\<lambda>strong_span.
       if (strong = 0) \<noteq> (strong_span = 0)
       then Inl (ValueError ''copy-draft strong_match and strong_max_span must be set together'')
       else if strong \<noteq> 0 \<and> strong < least
       then Inl (ValueError ''copy-draft strong_match must be >= min_match'')
       else if max least strong > MATCH_SCAN_CAP
       then Inl (ValueError ''copy-draft match lengths must be <= 64'')
       else Inr (least, strong, strong_span))))"

definition checked_rows :: "int \<Rightarrow> (int \<times> rat) list \<Rightarrow> int list" where
  "checked_rows widest table =
     sorted_list_of_set ({1, widest + 1} \<union> {rows \<in> set (map fst table). 1 \<le> rows \<and> rows \<le> widest + 1})"

definition check_row_costs :: "(rat \<Rightarrow> rat) \<Rightarrow> int \<Rightarrow> copy_value \<Rightarrow> exc + (int \<times> rat) list option" where
  "check_row_costs rnd widest v =
     (if v = NoneValue then Inr None
      else bind_sum (row_cost_table rnd v) (\<lambda>table.
             if list_all (\<lambda>rows. 0 < row_cost rnd table rows) (checked_rows widest table) then Inr (Some table)
             else Inl (ValueError ''copy-draft verify_row_costs prices a verify width out of range'')))"

definition check_initial :: "int \<Rightarrow> copy_value \<Rightarrow> exc + int option" where
  "check_initial widest v =
     bind_sum (check_optional ''initial_span'' 1 v) (\<lambda>initial.
       case initial of
         Some i \<Rightarrow> if i > widest then Inl (ValueError ''copy-draft initial_span must be <= max(max_span, strong_max_span)'')
                    else Inr (Some i)
       | None \<Rightarrow> Inr None)"

definition new_copy_policy :: "(rat \<Rightarrow> rat) \<Rightarrow> (string \<times> copy_value) list \<Rightarrow> exc + copy_policy" where
  "new_copy_policy rnd kw =
     bind_sum (case copy_arg kw ''enabled'' of BoolValue b \<Rightarrow> Inr b
               | _ \<Rightarrow> Inl (ValueError ''copy-draft enabled must be boolean'')) (\<lambda>on.
     bind_sum (check_ngrams kw) (\<lambda>(nmin, nmax).
     bind_sum (check_spans kw) (\<lambda>(span, batched, probe).
     bind_sum (check_windows kw) (\<lambda>(look, samples, window, reprobe).
     bind_sum (check_costs kw) (\<lambda>(ratio, row, step).
     bind_sum (check_matches kw) (\<lambda>(least, strong, strong_span).
     bind_sum (check_initial (max span strong_span) (copy_arg kw ''initial_span'')) (\<lambda>initial.
     bind_sum (check_row_costs rnd (max span strong_span) (copy_arg kw ''verify_row_costs'')) (\<lambda>costs.
       Inr \<lparr>enabled = on, ngram_min = nmin, ngram_max = nmax, max_span = span, batched_max_span = batched,
            probe_span = probe, lookback = look, min_samples = samples, gate_window = window,
            reprobe_interval = reprobe, min_yield_ratio = ratio, verify_row_cost = row,
            draft_step_cost = step, min_match = least, strong_match = strong,
            strong_max_span = strong_span, initial_span = initial, verify_row_costs = costs\<rparr>))))))))"

datatype copy_config = NoCopyConfig | BoolCopyConfig bool | PolicyCopyConfig copy_policy
  | ObjectCopyConfig "(string \<times> copy_value) list" | OtherCopyConfig

definition copy_from_value :: "(rat \<Rightarrow> rat) \<Rightarrow> copy_config \<Rightarrow> exc + copy_policy" where
  "copy_from_value rnd v =
     (case v of
        NoCopyConfig \<Rightarrow> new_copy_policy rnd []
      | BoolCopyConfig b \<Rightarrow> new_copy_policy rnd (if b then [(''enabled'', BoolValue True)] else [])
      | PolicyCopyConfig p \<Rightarrow> Inr p
      | ObjectCopyConfig m \<Rightarrow>
          if \<not> set (map fst m) \<subseteq> set (map fst copy_defaults)
          then Inl (ValueError ''unknown self_mtp_copy_draft keys'') else new_copy_policy rnd m
      | OtherCopyConfig \<Rightarrow> Inl (ValueError ''self_mtp_copy_draft must be an object, boolean or null''))"

definition optional_value :: "int option \<Rightarrow> copy_value" where
  "optional_value v = (case v of None \<Rightarrow> NoneValue | Some i \<Rightarrow> IntValue i)"

text \<open>\<open>dataclasses.asdict\<close>, which is also what \<open>dataclasses.replace\<close> passes back to the constructor.\<close>

definition policy_values :: "copy_policy \<Rightarrow> (string \<times> copy_value) list" where
  "policy_values p =
     [(''enabled'', BoolValue (enabled p)), (''ngram_min'', IntValue (ngram_min p)), (''ngram_max'', IntValue (ngram_max p)),
      (''max_span'', IntValue (max_span p)), (''batched_max_span'', optional_value (batched_max_span p)),
      (''probe_span'', IntValue (probe_span p)), (''lookback'', IntValue (lookback p)),
      (''min_samples'', IntValue (min_samples p)), (''gate_window'', IntValue (gate_window p)),
      (''reprobe_interval'', IntValue (reprobe_interval p)),
      (''min_yield_ratio'', FloatValue (Finite (min_yield_ratio p))),
      (''verify_row_cost'', FloatValue (Finite (verify_row_cost p))),
      (''draft_step_cost'', FloatValue (Finite (draft_step_cost p))),
      (''min_match'', IntValue (min_match p)), (''strong_match'', IntValue (strong_match p)),
      (''strong_max_span'', IntValue (strong_max_span p)), (''initial_span'', optional_value (initial_span p)),
      (''verify_row_costs'', case verify_row_costs p of None \<Rightarrow> NoneValue
         | Some table \<Rightarrow> PairsValue (map (\<lambda>(rows, cost). (IntValue rows, FloatValue (Finite cost))) table))]"

definition replace_policy :: "(rat \<Rightarrow> rat) \<Rightarrow> copy_policy \<Rightarrow> (string \<times> copy_value) list \<Rightarrow> exc + copy_policy" where
  "replace_policy rnd p changes = new_copy_policy rnd (changes @ policy_values p)"

fun decimal :: "nat \<Rightarrow> string" where
  "decimal n = (if n < 10 then [char_of (48 + n)] else decimal (n div 10) @ [char_of (48 + n mod 10)])"

declare decimal.simps [simp del]

definition match_defaults :: "(string \<times> copy_value) list" where
  "match_defaults = [(''min_match'', IntValue 0), (''strong_match'', IntValue 0),
     (''strong_max_span'', IntValue 0), (''initial_span'', NoneValue)]"

definition policy_dict :: "copy_policy \<Rightarrow> (string \<times> copy_value) list" where
  "policy_dict p =
     filter (\<lambda>(name, v). map_of match_defaults name \<noteq> Some v \<and> name \<noteq> ''verify_row_costs'') (policy_values p)
     @ (case verify_row_costs p of None \<Rightarrow> []
        | Some table \<Rightarrow> [(''verify_row_costs'',
            MapValue (map (\<lambda>(rows, cost). (TextValue (decimal (nat rows)), FloatValue (Finite cost))) table))])"

definition clamp_policy :: "(rat \<Rightarrow> rat) \<Rightarrow> copy_policy \<Rightarrow> int \<Rightarrow> exc + copy_policy" where
  "clamp_policy rnd p maximum =
     (if maximum < 1 then Inl (ValueError ''copy-draft proposer-depth cap must be an integer >= 1'')
      else if span_ceiling p \<le> maximum \<and> (case batched_max_span p of None \<Rightarrow> True | Some b \<Rightarrow> b \<le> maximum)
      then Inr p
      else let span = min (max_span p) maximum;
               strong_span = (if strong_max_span p \<noteq> 0 then min (strong_max_span p) maximum else 0);
               widest = max span strong_span
           in replace_policy rnd p
                [(''max_span'', IntValue span), (''strong_max_span'', IntValue strong_span),
                 (''probe_span'', IntValue (min (probe_span p) span)),
                 (''initial_span'', optional_value (map_option (\<lambda>i. min i widest) (initial_span p))),
                 (''batched_max_span'', optional_value (map_option (\<lambda>b. min b maximum) (batched_max_span p)))])"

definition verify_cost :: "(rat \<Rightarrow> rat) \<Rightarrow> copy_policy \<Rightarrow> int \<Rightarrow> rat" where
  "verify_cost rnd p proposals =
     (let proposals = max proposals 0
      in case verify_row_costs p of
           None \<Rightarrow> rnd (1 + rnd (verify_row_cost p * of_int proposals))
         | Some table \<Rightarrow> rnd (row_cost rnd table (proposals + 1) / snd (hd table)))"

definition head_cost :: "(rat \<Rightarrow> rat) \<Rightarrow> copy_policy \<Rightarrow> int \<Rightarrow> rat" where
  "head_cost rnd p depth = rnd (verify_cost rnd p depth + rnd (draft_step_cost p * of_int (max depth 0)))"

definition copy_cost :: "(rat \<Rightarrow> rat) \<Rightarrow> copy_policy \<Rightarrow> int \<Rightarrow> rat" where
  "copy_cost rnd p width = verify_cost rnd p width"

definition cohort_copy_cap :: "copy_policy \<Rightarrow> int \<Rightarrow> int list \<Rightarrow> int" where
  "cohort_copy_cap p lanes head_depths =
     (if lanes \<le> 1 then span_ceiling p
      else case batched_max_span p of
             Some b \<Rightarrow> min b (max_span p)
           | None \<Rightarrow> min (max (if head_depths = [] then 0 else Max (set head_depths)) 1) (max_span p))"

section \<open>What a constructed policy satisfies\<close>

definition valid_table :: "(int \<times> rat) list \<Rightarrow> bool" where
  "valid_table table \<longleftrightarrow> sorted (map fst table) \<and> distinct (map fst table) \<and> 1 \<in> set (map fst table)
     \<and> (\<forall>(rows, cost) \<in> set table. 1 \<le> rows \<and> 0 < cost)"

definition prices_positive :: "(rat \<Rightarrow> rat) \<Rightarrow> int \<Rightarrow> (int \<times> rat) list \<Rightarrow> bool" where
  "prices_positive rnd widest table \<longleftrightarrow> (\<forall>rows \<in> set (checked_rows widest table). 0 < row_cost rnd table rows)"

definition valid_copy_policy :: "(rat \<Rightarrow> rat) \<Rightarrow> copy_policy \<Rightarrow> bool" where
  "valid_copy_policy rnd p \<longleftrightarrow>
     1 \<le> ngram_min p \<and> ngram_min p \<le> ngram_max p \<and> 1 \<le> probe_span p \<and> probe_span p \<le> max_span p
     \<and> (case batched_max_span p of None \<Rightarrow> True | Some b \<Rightarrow> 0 \<le> b)
     \<and> 1 \<le> lookback p \<and> 0 \<le> min_samples p \<and> 1 \<le> gate_window p \<and> 1 \<le> reprobe_interval p
     \<and> 0 \<le> min_yield_ratio p \<and> 0 \<le> verify_row_cost p \<and> 0 \<le> draft_step_cost p
     \<and> 0 \<le> min_match p \<and> 0 \<le> strong_match p \<and> 0 \<le> strong_max_span p
     \<and> (strong_match p = 0 \<longleftrightarrow> strong_max_span p = 0) \<and> (strong_match p \<noteq> 0 \<longrightarrow> min_match p \<le> strong_match p)
     \<and> max (min_match p) (strong_match p) \<le> MATCH_SCAN_CAP
     \<and> (case initial_span p of None \<Rightarrow> True | Some i \<Rightarrow> 1 \<le> i \<and> i \<le> span_ceiling p)
     \<and> (case verify_row_costs p of None \<Rightarrow> True
        | Some table \<Rightarrow> valid_table table \<and> prices_positive rnd (span_ceiling p) table)"

text \<open>What is used of the rounding to doubles: it is monotone and keeps small integers.\<close>

definition rounds :: "(rat \<Rightarrow> rat) \<Rightarrow> bool" where
  "rounds rnd \<longleftrightarrow> (\<forall>x y. x \<le> y \<longrightarrow> rnd x \<le> rnd y) \<and> (\<forall>i::int. \<bar>i\<bar> \<le> 2 ^ 53 \<longrightarrow> rnd (of_int i) = of_int i)"

lemma rounds_id: "rounds (\<lambda>x. x)"
  by (simp add: rounds_def)

lemma rounds_ge1: "rounds rnd \<Longrightarrow> 1 \<le> x \<Longrightarrow> 1 \<le> rnd x"
  unfolding rounds_def by (metis abs_one of_int_1 one_le_numeral one_le_power)

lemma rounds_nonneg: "rounds rnd \<Longrightarrow> 0 \<le> x \<Longrightarrow> 0 \<le> rnd x"
  unfolding rounds_def by (metis abs_zero of_int_0 zero_le_numeral zero_le_power)

lemma guard_Inr [simp]: "(if c then Inl e else Inr x) = (Inr y :: exc + 'b) \<longleftrightarrow> \<not> c \<and> x = y"
  by simp

lemma optional_value_simps [simp]:
  "optional_value a = optional_value b \<longleftrightarrow> a = b" "optional_value a = NoneValue \<longleftrightarrow> a = None"
  "optional_value a = IntValue i \<longleftrightarrow> a = Some i" "NoneValue = optional_value a \<longleftrightarrow> a = None"
  by (auto simp: optional_value_def split: option.splits)

lemma check_minimum_Inr [simp]: "check_minimum name least v = Inr i \<longleftrightarrow> v = IntValue i \<and> least \<le> i"
  by (auto simp: check_minimum_def split: copy_value.splits)

lemma check_optional_Inr [simp]:
  "check_optional name least v = Inr r \<longleftrightarrow>
     v = optional_value r \<and> (case r of None \<Rightarrow> True | Some i \<Rightarrow> least \<le> i)"
  by (cases r; cases "v = NoneValue") (auto simp: check_optional_def optional_value_def)

lemma check_nonnegative_Inr:
  "check_nonnegative name v = Inr q \<Longrightarrow> 0 \<le> q"
  by (auto simp: check_nonnegative_def Let_def split: copy_value.splits py_float.splits if_splits)

lemma check_nonnegative_float [simp]: "0 \<le> q \<Longrightarrow> check_nonnegative name (FloatValue (Finite q)) = Inr q"
  by (simp add: check_nonnegative_def Let_def)

lemma check_initial_Inr [simp]:
  "check_initial widest v = Inr r \<longleftrightarrow>
     v = optional_value r \<and> (case r of None \<Rightarrow> True | Some i \<Rightarrow> 1 \<le> i \<and> i \<le> widest)"
proof -
  have "check_initial widest v = Inr r \<longleftrightarrow> (\<exists>r'. check_optional ''initial_span'' 1 v = Inr r'
      \<and> (case r' of Some i \<Rightarrow> i \<le> widest \<and> r = Some i | None \<Rightarrow> r = None))"
    unfolding check_initial_def bind_sum_Inr
    by (rule arg_cong [of _ _ Ex]) (auto simp: fun_eq_iff simp del: check_optional_Inr split: option.splits)
  then show ?thesis by (auto split: option.splits)
qed

lemma row_key_Inr: "row_key k = Inr r \<Longrightarrow> 1 \<le> r"
  by (auto simp: row_key_def Let_def split: copy_value.splits if_splits)

lemma row_price_Inr:
  assumes "rounds rnd" "row_price rnd c = Inr q"
  shows "0 < q"
proof -
  have "0 < rnd (of_int i)" if "0 < i" for i
    using rounds_ge1 [OF assms(1), of "of_int i"] that by simp
  then show ?thesis
    using assms(2) by (auto simp: row_price_def Let_def split: copy_value.splits if_splits py_float.splits)
qed

lemma row_items_Inr:
  assumes "row_items rnd items table = Inr table'" "rounds rnd"
    "distinct (map fst table)" "\<forall>(rows, cost) \<in> set table. 1 \<le> rows \<and> 0 < cost"
  shows "distinct (map fst table') \<and> (\<forall>(rows, cost) \<in> set table'. 1 \<le> rows \<and> 0 < cost)"
  using assms
proof (induction rnd items table rule: row_items.induct)
  case (1 rnd table)
  then show ?case by simp
next
  case (2 rnd k c items table)
  from "2.prems"(1) obtain rows cost where kc: "row_key k = Inr rows" "row_price rnd c = Inr cost"
    and rest: "row_items rnd items ((rows, cost) # filter (\<lambda>(r, _). r \<noteq> rows) table) = Inr table'"
    by auto
  have "distinct (map fst (filter (\<lambda>(r, _). r \<noteq> rows) table))"
    using "2.prems"(3) by (rule distinct_map_filter)
  then have "distinct (map fst ((rows, cost) # filter (\<lambda>(r, _). r \<noteq> rows) table))"
    "\<forall>(rows, cost) \<in> set ((rows, cost) # filter (\<lambda>(r, _). r \<noteq> rows) table). 1 \<le> rows \<and> 0 < cost"
    using row_key_Inr [OF kc(1)] row_price_Inr [OF "2.prems"(2) kc(2)] "2.prems"(4) by auto
  then show ?case
    using "2.IH" kc rest "2.prems"(2) by blast
qed

lemma row_cost_table_Inr:
  assumes "row_cost_table rnd v = Inr table" "rounds rnd"
  shows "valid_table table"
proof -
  obtain items table' where items: "row_items rnd items [] = Inr table'" and one: "1 \<in> set (map fst table')"
    and table: "table = sort_key fst table'"
    using assms(1) by (auto simp: row_cost_table_def split: if_splits)
  have "distinct (map fst table') \<and> (\<forall>(rows, cost) \<in> set table'. 1 \<le> rows \<and> 0 < cost)"
    using row_items_Inr [OF items assms(2)] by simp
  moreover have "distinct (map fst table) = distinct (map fst table')"
    unfolding table by (simp add: distinct_map)
  ultimately show ?thesis using one unfolding valid_table_def table by simp
qed

lemma check_ngrams_Inr:
  "check_ngrams kw = Inr (nmin, nmax) \<longleftrightarrow>
     copy_arg kw ''ngram_min'' = IntValue nmin \<and> copy_arg kw ''ngram_max'' = IntValue nmax \<and> 1 \<le> nmin \<and> nmin \<le> nmax"
  by (auto simp: check_ngrams_def split: if_splits)

lemma check_spans_Inr:
  "check_spans kw = Inr (wide, batched, probe) \<longleftrightarrow>
     copy_arg kw ''max_span'' = IntValue wide \<and> copy_arg kw ''batched_max_span'' = optional_value batched
     \<and> copy_arg kw ''probe_span'' = IntValue probe
     \<and> (case batched of None \<Rightarrow> True | Some b \<Rightarrow> 0 \<le> b) \<and> 1 \<le> probe \<and> probe \<le> wide"
  by (auto simp: check_spans_def split: if_splits)

lemma check_windows_Inr:
  "check_windows kw = Inr (look, samples, window, reprobe) \<longleftrightarrow>
     copy_arg kw ''lookback'' = IntValue look \<and> copy_arg kw ''min_samples'' = IntValue samples
     \<and> copy_arg kw ''gate_window'' = IntValue window \<and> copy_arg kw ''reprobe_interval'' = IntValue reprobe
     \<and> 1 \<le> look \<and> 0 \<le> samples \<and> 1 \<le> window \<and> 1 \<le> reprobe"
  by (auto simp: check_windows_def)

lemma check_matches_Inr:
  "check_matches kw = Inr (least, strong, wide) \<longleftrightarrow>
     copy_arg kw ''min_match'' = IntValue least \<and> copy_arg kw ''strong_match'' = IntValue strong
     \<and> copy_arg kw ''strong_max_span'' = IntValue wide \<and> 0 \<le> least \<and> 0 \<le> strong \<and> 0 \<le> wide
     \<and> (strong = 0 \<longleftrightarrow> wide = 0) \<and> (strong \<noteq> 0 \<longrightarrow> least \<le> strong) \<and> max least strong \<le> MATCH_SCAN_CAP"
  by (auto simp: check_matches_def split: if_splits)

lemma check_costs_Inr:
  "check_costs kw = Inr (ratio, row, step) \<Longrightarrow> 0 \<le> ratio \<and> 0 \<le> row \<and> 0 \<le> step"
  by (auto simp: check_costs_def dest: check_nonnegative_Inr)

lemma check_row_costs_Inr:
  "check_row_costs rnd widest v = Inr costs \<longleftrightarrow>
     (case costs of
        None \<Rightarrow> v = NoneValue
      | Some table \<Rightarrow> v \<noteq> NoneValue \<and> row_cost_table rnd v = Inr table \<and> prices_positive rnd widest table)"
  by (cases costs) (auto simp: check_row_costs_def prices_positive_def list_all_iff split: if_splits)

lemmas check_groups = check_ngrams_Inr check_spans_Inr check_windows_Inr check_matches_Inr check_row_costs_Inr

lemma new_copy_policy_valid:
  assumes "new_copy_policy rnd kw = Inr p" "rounds rnd"
  shows "valid_copy_policy rnd p"
proof -
  obtain nmin nmax wide batched probe look samples window reprobe ratio row step least strong strong_span initial costs
    where ok: "check_ngrams kw = Inr (nmin, nmax)" "check_spans kw = Inr (wide, batched, probe)"
      "check_windows kw = Inr (look, samples, window, reprobe)" "check_costs kw = Inr (ratio, row, step)"
      "check_matches kw = Inr (least, strong, strong_span)"
      "check_initial (max wide strong_span) (copy_arg kw ''initial_span'') = Inr initial"
      "check_row_costs rnd (max wide strong_span) (copy_arg kw ''verify_row_costs'') = Inr costs"
    and p: "ngram_min p = nmin" "ngram_max p = nmax" "max_span p = wide" "batched_max_span p = batched"
      "probe_span p = probe" "lookback p = look" "min_samples p = samples" "gate_window p = window"
      "reprobe_interval p = reprobe" "min_yield_ratio p = ratio" "verify_row_cost p = row" "draft_step_cost p = step"
      "min_match p = least" "strong_match p = strong" "strong_max_span p = strong_span" "initial_span p = initial"
      "verify_row_costs p = costs"
    using assms(1) by (auto simp: new_copy_policy_def simp del: check_initial_Inr)
  have top: "span_ceiling p = max wide strong_span" by (simp add: span_ceiling_def p)
  have table: "valid_table table" if "costs = Some table" for table
    using ok(7) that row_cost_table_Inr [OF _ assms(2)] by (auto simp: check_row_costs_Inr)
  show ?thesis
    unfolding valid_copy_policy_def top unfolding p
    using ok table check_costs_Inr [OF ok(4)]
    by (auto simp: check_ngrams_Inr check_spans_Inr check_windows_Inr check_matches_Inr check_row_costs_Inr split: option.splits)
qed

section \<open>Printing and reading back\<close>

lemma row_items_known:
  assumes "\<And>r. 1 \<le> r \<Longrightarrow> row_key (K r) = Inr r"
    "distinct (map fst table)" "\<forall>(rows, cost) \<in> set table. 1 \<le> rows \<and> 0 < cost"
    "set (map fst table) \<inter> set (map fst acc) = {}"
  shows "row_items rnd (map (\<lambda>(rows, cost). (K rows, FloatValue (Finite cost))) table) acc = Inr (rev table @ acc)"
  using assms(2-)
proof (induction table arbitrary: acc)
  case Nil
  then show ?case by simp
next
  case (Cons row table)
  obtain rows cost where row: "row = (rows, cost)" by force
  have "filter (\<lambda>(r, _). r \<noteq> rows) acc = acc"
    using Cons.prems(3) by (intro filter_True) (force simp: row)
  moreover have "row_price rnd (FloatValue (Finite cost)) = Inr cost"
    using Cons.prems(2) by (auto simp: row row_price_def Let_def)
  ultimately show ?case
    using Cons.IH [of "(rows, cost) # acc"] Cons.prems assms(1) [of rows] by (auto simp: row)
qed

lemma sort_rev_table:
  assumes "sorted (map fst table)" "distinct (map fst table)"
  shows "sort_key fst (rev table) = table"
proof (rule properties_for_sort_key)
  show "mset table = mset (rev table)" by simp
next
  fix k
  assume k: "k \<in> set table"
  have "filter (\<lambda>x. fst k = fst x) xs = [k]" if "k \<in> set xs" "distinct (map fst xs)" for xs
    using that by (induction xs) (auto simp: filter_empty_conv image_iff)
  then show "filter (\<lambda>x. fst k = fst x) table = filter (\<lambda>x. fst k = fst x) (rev table)"
    using k assms(2) by (simp flip: rev_map)
next
  show "sorted (map fst table)" by (rule assms(1))
qed

lemma row_cost_table_known:
  assumes "\<And>r. 1 \<le> r \<Longrightarrow> row_key (K r) = Inr r" "valid_table table"
    "v = MapValue items \<or> v = PairsValue items"
    "items = map (\<lambda>(rows, cost). (K rows, FloatValue (Finite cost))) table"
  shows "row_cost_table rnd v = Inr table"
proof -
  have items: "row_items rnd items [] = Inr (rev table)"
    using row_items_known [OF assms(1), of table "[]"] assms(2,4) by (auto simp: valid_table_def)
  have "sort_key fst (rev table) = table"
    using assms(2) by (intro sort_rev_table) (auto simp: valid_table_def)
  moreover have "1 \<in> set (map fst (rev table))" using assms(2) by (simp add: valid_table_def)
  ultimately show ?thesis
    using assms(3) items by (auto simp: row_cost_table_def simp del: set_map)
qed

lemma new_copy_policy_known:
  assumes "valid_copy_policy rnd p"
    and args: "\<forall>(name, v) \<in> set (butlast (policy_values p)). copy_arg kw name = v"
    and costs: "check_row_costs rnd (span_ceiling p) (copy_arg kw ''verify_row_costs'') = Inr (verify_row_costs p)"
  shows "new_copy_policy rnd kw = Inr p"
proof -
  note valid = assms(1) [unfolded valid_copy_policy_def]
  note arg = args [unfolded policy_values_def, simplified]
  have "check_ngrams kw = Inr (ngram_min p, ngram_max p)"
    "check_spans kw = Inr (max_span p, batched_max_span p, probe_span p)"
    "check_windows kw = Inr (lookback p, min_samples p, gate_window p, reprobe_interval p)"
    "check_matches kw = Inr (min_match p, strong_match p, strong_max_span p)"
    "check_initial (span_ceiling p) (copy_arg kw ''initial_span'') = Inr (initial_span p)"
    using arg valid by (simp_all add: check_ngrams_Inr check_spans_Inr check_windows_Inr check_matches_Inr)
  moreover have "check_costs kw = Inr (min_yield_ratio p, verify_row_cost p, draft_step_cost p)"
    using arg valid by (simp add: check_costs_def)
  ultimately show ?thesis
    using arg costs by (simp add: new_copy_policy_def span_ceiling_def [symmetric])
qed

lemma check_pairs [simp]:
  assumes "valid_copy_policy rnd p"
  shows "check_row_costs rnd (span_ceiling p) (case verify_row_costs p of None \<Rightarrow> NoneValue
      | Some table \<Rightarrow> PairsValue (map (\<lambda>(rows, cost). (IntValue rows, FloatValue (Finite cost))) table))
    = Inr (verify_row_costs p)"
proof -
  have "row_cost_table rnd (PairsValue (map (\<lambda>(rows, cost). (IntValue rows, FloatValue (Finite cost))) table)) = Inr table"
    if "valid_table table" for table
    by (rule row_cost_table_known [where K = IntValue]) (use that in \<open>auto simp: row_key_def\<close>)
  then show ?thesis
    using assms unfolding check_row_costs_Inr valid_copy_policy_def by (auto split: option.splits)
qed

lemma replace_nothing: "valid_copy_policy rnd p \<Longrightarrow> replace_policy rnd p [] = Inr p"
  unfolding replace_policy_def
  by (rule new_copy_policy_known) (simp_all add: policy_values_def copy_arg_def)

lemma digit_of_char: "n < 10 \<Longrightarrow> of_char (char_of (48 + n :: nat)) = (48 + int n)"
proof -
  assume "n < 10"
  then have "of_char (char_of (48 + n) :: char) = 48 + n" by (simp add: of_char_of)
  then show ?thesis by (metis of_nat_add of_nat_numeral of_nat_of_char)
qed

lemma digit_char_of: "n < 10 \<Longrightarrow> digit_char (char_of (48 + n :: nat))"
  by (simp add: digit_char_def digit_of_char)

lemma decimal_digits: "decimal n \<noteq> [] \<and> list_all digit_char (decimal n)"
proof (induction n rule: decimal.induct)
  case (1 n)
  then show ?case
    using digit_char_of [of n] digit_char_of [of "n mod 10"] by (simp add: decimal.simps [of n])
qed

lemma parse_decimal: "parse_digits (decimal n) = int n"
proof (induction n rule: decimal.induct)
  case (1 n)
  show ?case
  proof (cases "n < 10")
    case True
    then show ?thesis by (simp add: decimal.simps [of n] parse_digits_def digit_of_char)
  next
    case False
    have "parse_digits (decimal n) = 10 * parse_digits (decimal (n div 10)) + int (n mod 10)"
      using False digit_of_char [of "n mod 10"] by (simp add: decimal.simps [of n] parse_digits_def)
    then show ?thesis using "1.IH" [OF False] by (simp add: zdiv_int zmod_int)
  qed
qed

lemma row_key_decimal: "1 \<le> r \<Longrightarrow> row_key (TextValue (decimal (nat r))) = Inr r"
  using decimal_digits [of "nat r"]
  by (simp add: row_key_def Let_def is_digit_text_def parse_decimal) (auto simp: list_all_iff)

lemma check_texts:
  assumes "valid_copy_policy rnd p" "verify_row_costs p = Some table"
  shows "check_row_costs rnd (span_ceiling p)
      (MapValue (map (\<lambda>(rows, cost). (TextValue (decimal (nat rows)), FloatValue (Finite cost))) table)) = Inr (Some table)"
proof -
  have "valid_table table" "prices_positive rnd (span_ceiling p) table"
    using assms by (auto simp: valid_copy_policy_def)
  moreover have "row_cost_table rnd (MapValue (map (\<lambda>(rows, cost). (TextValue (decimal (nat rows)), FloatValue (Finite cost))) table)) = Inr table"
    if "valid_table table"
    by (rule row_cost_table_known [where K = "\<lambda>r. TextValue (decimal (nat r))"]) (use that row_key_decimal in auto)
  ultimately show ?thesis by (simp add: check_row_costs_Inr)
qed

lemma map_of_filter_distinct:
  "distinct (map fst xs) \<Longrightarrow>
     map_of (filter (\<lambda>(k, v). Q k v) xs) k = (case map_of xs k of None \<Rightarrow> None | Some v \<Rightarrow> if Q k v then Some v else None)"
proof (induction xs)
  case Nil
  then show ?case by simp
next
  case (Cons x xs)
  have "k \<notin> fst ` set xs \<Longrightarrow> map_of (filter (\<lambda>(k, v). Q k v) xs) k = None"
    by (auto simp: map_of_eq_None_iff image_iff)
  then show ?case using Cons by (cases x) auto
qed

lemma policy_values_keys: "map fst (policy_values p) = map fst copy_defaults" "distinct (map fst (policy_values p))"
  by (simp_all add: policy_values_def copy_defaults_def)

lemma match_defaults_default: "map_of match_defaults name = Some v \<Longrightarrow> map_of copy_defaults name = Some v"
  by (simp add: match_defaults_def copy_defaults_def split: if_splits)

lemma policy_dict_arg:
  assumes "(name, v) \<in> set (policy_values p)" "name \<noteq> ''verify_row_costs''"
  shows "copy_arg (policy_dict p) name = v"
proof -
  have "map_of (policy_values p) name = Some v"
    using assms(1) policy_values_keys(2) by simp
  then have kept: "map_of (filter (\<lambda>(name, v). map_of match_defaults name \<noteq> Some v \<and> name \<noteq> ''verify_row_costs'')
      (policy_values p)) name = (if map_of match_defaults name = Some v then None else Some v)"
    using assms(2) by (simp add: map_of_filter_distinct policy_values_keys(2))
  show ?thesis
    using kept assms(2) match_defaults_default [of name v]
    by (auto simp: copy_arg_def policy_dict_def map_add_def split: option.splits)
qed

lemma policy_dict_costs:
  "copy_arg (policy_dict p) ''verify_row_costs'' = (case verify_row_costs p of None \<Rightarrow> NoneValue
     | Some table \<Rightarrow> MapValue (map (\<lambda>(rows, cost). (TextValue (decimal (nat rows)), FloatValue (Finite cost))) table))"
proof -
  have "map_of (filter (\<lambda>(name, v). map_of match_defaults name \<noteq> Some v \<and> name \<noteq> ''verify_row_costs'')
      (policy_values p)) ''verify_row_costs'' = None"
    by (simp add: map_of_filter_distinct policy_values_keys(2) split: option.splits)
  then show ?thesis
    by (auto simp: copy_arg_def policy_dict_def map_add_def copy_defaults_def split: option.splits)
qed

lemma policy_dict_keys: "set (map fst (policy_dict p)) \<subseteq> set (map fst copy_defaults)"
proof
  fix name
  assume "name \<in> set (map fst (policy_dict p))"
  then have "name \<in> set (map fst (policy_values p)) \<or> name = ''verify_row_costs''"
    unfolding policy_dict_def by (cases "verify_row_costs p") auto
  then show "name \<in> set (map fst copy_defaults)"
  proof
    assume "name \<in> set (map fst (policy_values p))"
    then show ?thesis by (simp only: policy_values_keys(1))
  next
    assume "name = ''verify_row_costs''"
    then show ?thesis by (simp add: copy_defaults_def)
  qed
qed

lemma policy_dict_reads_back:
  assumes "valid_copy_policy rnd p"
  shows "copy_from_value rnd (ObjectCopyConfig (policy_dict p)) = Inr p"
proof -
  have "new_copy_policy rnd (policy_dict p) = Inr p"
  proof (rule new_copy_policy_known [OF assms])
    show "\<forall>(name, v) \<in> set (butlast (policy_values p)). copy_arg (policy_dict p) name = v"
    proof (clarify)
      fix name v
      assume "(name, v) \<in> set (butlast (policy_values p))"
      then have "(name, v) \<in> set (policy_values p)" "name \<noteq> ''verify_row_costs''"
        by (auto simp: policy_values_def)
      then show "copy_arg (policy_dict p) name = v" by (rule policy_dict_arg)
    qed
    show "check_row_costs rnd (span_ceiling p) (copy_arg (policy_dict p) ''verify_row_costs'') = Inr (verify_row_costs p)"
      using check_texts [OF assms]
      by (cases "verify_row_costs p") (simp_all add: policy_dict_costs, simp add: check_row_costs_def)
  qed
  then show ?thesis using policy_dict_keys by (simp add: copy_from_value_def)
qed

section \<open>Clamping to an adapter's depth\<close>

definition clamped_fields :: "copy_policy \<Rightarrow> int \<Rightarrow> copy_policy" where
  "clamped_fields p maximum =
     (let wide = min (max_span p) maximum;
          strong_wide = (if strong_max_span p \<noteq> 0 then min (strong_max_span p) maximum else 0)
      in p\<lparr>max_span := wide, strong_max_span := strong_wide, probe_span := min (probe_span p) wide,
           initial_span := map_option (\<lambda>i. min i (max wide strong_wide)) (initial_span p),
           batched_max_span := map_option (\<lambda>b. min b maximum) (batched_max_span p)\<rparr>)"

lemma clamped_fields_valid:
  assumes "valid_copy_policy rnd p" "1 \<le> m" "verify_row_costs p = None"
  shows "valid_copy_policy rnd (clamped_fields p m)"
  using assms unfolding valid_copy_policy_def clamped_fields_def Let_def span_ceiling_def
  by (auto split: option.splits)

lemma new_copy_policy_args:
  assumes "new_copy_policy rnd kw = Inr p"
  shows "copy_arg kw ''max_span'' = IntValue (max_span p)" "copy_arg kw ''strong_max_span'' = IntValue (strong_max_span p)"
    "copy_arg kw ''batched_max_span'' = optional_value (batched_max_span p)"
proof -
  obtain wide batched probe least strong strong_span
    where "check_spans kw = Inr (wide, batched, probe)" "check_matches kw = Inr (least, strong, strong_span)"
      "max_span p = wide" "batched_max_span p = batched" "strong_max_span p = strong_span"
    using assms by (auto simp: new_copy_policy_def simp del: check_initial_Inr)
  then show "copy_arg kw ''max_span'' = IntValue (max_span p)" "copy_arg kw ''strong_max_span'' = IntValue (strong_max_span p)"
    "copy_arg kw ''batched_max_span'' = optional_value (batched_max_span p)"
    by (auto simp: check_spans_Inr check_matches_Inr)
qed

lemma clamp_policy_fields:
  assumes "clamp_policy rnd p m = Inr q"
  shows "max_span q \<le> m" "strong_max_span q \<le> m" "\<forall>b. batched_max_span q = Some b \<longrightarrow> b \<le> m"
proof -
  have "max_span q \<le> m \<and> strong_max_span q \<le> m \<and> (\<forall>b. batched_max_span q = Some b \<longrightarrow> b \<le> m)"
  proof (cases "span_ceiling p \<le> m \<and> (case batched_max_span p of None \<Rightarrow> True | Some b \<Rightarrow> b \<le> m)")
    case True
    then show ?thesis using assms by (auto simp: clamp_policy_def span_ceiling_def split: if_splits)
  next
    case False
    let ?wide = "min (max_span p) m"
    let ?strong = "if strong_max_span p \<noteq> 0 then min (strong_max_span p) m else 0"
    have m: "1 \<le> m" using assms by (simp add: clamp_policy_def split: if_splits)
    have "new_copy_policy rnd ([(''max_span'', IntValue ?wide), (''strong_max_span'', IntValue ?strong),
        (''probe_span'', IntValue (min (probe_span p) ?wide)),
        (''initial_span'', optional_value (map_option (\<lambda>i. min i (max ?wide ?strong)) (initial_span p))),
        (''batched_max_span'', optional_value (map_option (\<lambda>b. min b m) (batched_max_span p)))] @ policy_values p) = Inr q"
      using assms m unfolding clamp_policy_def if_not_P [OF False] replace_policy_def Let_def by simp
    from new_copy_policy_args [OF this]
    have "max_span q = ?wide" "strong_max_span q = ?strong"
      "batched_max_span q = map_option (\<lambda>b. min b m) (batched_max_span p)"
      by (simp_all add: copy_arg_def)
    then show ?thesis using m by auto
  qed
  then show "max_span q \<le> m" "strong_max_span q \<le> m" "\<forall>b. batched_max_span q = Some b \<longrightarrow> b \<le> m" by auto
qed

lemma clamp_policy_total:
  assumes "valid_copy_policy rnd p" "1 \<le> m" "verify_row_costs p = None"
  shows "clamp_policy rnd p m = Inr (clamped_fields p m) \<or> clamp_policy rnd p m = Inr p"
proof -
  have costs: "verify_row_costs (clamped_fields p m) = None" using assms(3) by (simp add: clamped_fields_def Let_def)
  have "new_copy_policy rnd ([(''max_span'', IntValue (max_span (clamped_fields p m))),
       (''strong_max_span'', IntValue (strong_max_span (clamped_fields p m))),
       (''probe_span'', IntValue (probe_span (clamped_fields p m))),
       (''initial_span'', optional_value (initial_span (clamped_fields p m))),
       (''batched_max_span'', optional_value (batched_max_span (clamped_fields p m)))] @ policy_values p)
      = Inr (clamped_fields p m)"
  proof (rule new_copy_policy_known [OF clamped_fields_valid [OF assms]])
  qed (simp_all add: policy_values_def copy_arg_def costs assms(3) check_row_costs_Inr, simp_all add: clamped_fields_def Let_def)
  then show ?thesis
    using assms(2) by (simp add: clamp_policy_def replace_policy_def clamped_fields_def Let_def)
qed

lemma cohort_copy_cap_bound:
  assumes "span_ceiling p \<le> m" "\<forall>b. batched_max_span p = Some b \<longrightarrow> b \<le> m"
  shows "cohort_copy_cap p lanes depths \<le> m"
  using assms by (auto simp: cohort_copy_cap_def span_ceiling_def split: option.splits)

section \<open>Properties\<close>

text \<open>
  A policy clamped to the proposal depth of an adapter is again a valid policy, copies no
  more than that depth in any cohort, and is the same policy when it already fitted.
\<close>

theorem clamped_copies_fit_the_adapter:
  assumes "rounds rnd" and "valid_copy_policy rnd p" and "clamp_policy rnd p m = Inr q"
  shows "valid_copy_policy rnd q \<and> cohort_copy_cap q lanes depths \<le> m
     \<and> (span_ceiling p \<le> m \<and> (batched_max_span p = None \<or> the (batched_max_span p) \<le> m) \<longrightarrow> q = p)"
proof (intro conjI impI)
  show "valid_copy_policy rnd q"
    using assms(2,3) new_copy_policy_valid [OF _ assms(1)]
    by (auto simp: clamp_policy_def replace_policy_def Let_def split: if_splits)
  show "cohort_copy_cap q lanes depths \<le> m"
    using clamp_policy_fields [OF assms(3)] by (intro cohort_copy_cap_bound) (auto simp: span_ceiling_def)
  show "q = p" if "span_ceiling p \<le> m \<and> (batched_max_span p = None \<or> the (batched_max_span p) \<le> m)"
    using that assms(3) by (auto simp: clamp_policy_def split: if_splits option.splits)
qed

definition wide_sample :: copy_policy where
  "wide_sample = \<lparr>enabled = True, ngram_min = 3, ngram_max = 6, max_span = 8, batched_max_span = None,
     probe_span = 4, lookback = 8192, min_samples = 3, gate_window = 32, reprobe_interval = 16, min_yield_ratio = 1,
     verify_row_cost = 1 / 10, draft_step_cost = 15 / 100, min_match = 4, strong_match = 12, strong_max_span = 24,
     initial_span = Some 9, verify_row_costs = None\<rparr>"

theorem clamped_copies_fit_the_adapter_witness:
  "\<exists>q. clamp_policy (\<lambda>x. x) wide_sample 3 = Inr q \<and> cohort_copy_cap q 4 [2, 7] \<le> 3 \<and> cohort_copy_cap q 1 [] \<le> 3"
proof -
  have ok: "valid_copy_policy (\<lambda>x. x) wide_sample"
    by (simp add: wide_sample_def valid_copy_policy_def span_ceiling_def MATCH_SCAN_CAP_def)
  then obtain q where q: "clamp_policy (\<lambda>x. x) wide_sample 3 = Inr q"
    using clamp_policy_total [OF ok, of 3] by (auto simp: wide_sample_def)
  then show ?thesis
    using clamped_copies_fit_the_adapter [OF rounds_id ok q] by blast
qed

end
