(* ===== verification/CopyDraft.thy ===== *)
theory CopyDraft
  imports CopyIndex CopyPolicy
begin

text \<open>
  \<open>CopyDraftState\<close> of \<open>runtime/copy_draft.py\<close>: the copy lookup, the span sizer and the
  copy-versus-head gate of one lane, and the exact check of a copied proposal.

  A lane is its shared store together with its own fields; the copies \<open>__deepcopy__\<close> makes share
  the store and have the fields by value, so a copy of a lane is the same \<open>copy_state\<close> beside
  whatever the store has become.  Positions in the history are \<open>nat\<close>.
\<close>

section \<open>The lane\<close>

record copy_state =
  lane_policy :: copy_policy
  watermark :: nat
  next_width :: int
  copy_window :: "(int \<times> rat) list"
  head_window :: "(int \<times> rat) list"
  declines_since_probe :: int
  copy_rounds :: int
  copy_proposed :: int
  copy_accepted :: int
  head_rounds :: int
  head_proposed :: int
  head_accepted :: int
  gate_declines :: int
  probe_rounds :: int
  lookup_misses :: int
  cohort_refusals :: int
  strong_matches :: int

type_synonym copy_lane = "copy_store \<times> copy_state"

definition sync_store :: "copy_lane \<Rightarrow> (unit, copy_lane) res" where
  "sync_store l =
     (let (s, st) = l
      in if length (store_tokens s) \<noteq> watermark st
         then if length (store_tokens s) < watermark st
              then (Inl (RuntimeError ''copy-draft store lost committed tokens''), l)
              else (Inr (), (truncate_store (watermark st) s, st))
         else (Inr (), l))"

definition observe_tokens :: "int list \<Rightarrow> copy_lane \<Rightarrow> (unit, copy_lane) res" where
  "observe_tokens tokens l =
     bind_res (sync_store l) (\<lambda>_ (s, st).
       let s' = fold append_token tokens s
       in (Inr (), (s', st\<lparr>watermark := length (store_tokens s')\<rparr>)))"

definition fresh_state :: "copy_policy \<Rightarrow> copy_state" where
  "fresh_state p =
     \<lparr>lane_policy = p, watermark = 0,
      next_width = (case initial_span p of Some i \<Rightarrow> i | None \<Rightarrow> probe_span p),
      copy_window = [], head_window = [], declines_since_probe = 0,
      copy_rounds = 0, copy_proposed = 0, copy_accepted = 0, head_rounds = 0, head_proposed = 0,
      head_accepted = 0, gate_declines = 0, probe_rounds = 0, lookup_misses = 0,
      cohort_refusals = 0, strong_matches = 0\<rparr>"

definition new_copy_lane :: "copy_policy \<Rightarrow> int list \<Rightarrow> exc + copy_lane" where
  "new_copy_lane p prompt =
     (if \<not> enabled p then Inl (ValueError ''CopyDraftState requires an enabled CopyDraftPolicy'')
      else case observe_tokens prompt (new_store (nat (ngram_min p)) (nat (ngram_max p)), fresh_state p) of
             (Inl e, _) \<Rightarrow> Inl e | (Inr _, l) \<Rightarrow> Inr l)"

section \<open>Looking a source up\<close>

function agreement_from :: "int list \<Rightarrow> nat \<Rightarrow> nat \<Rightarrow> nat \<Rightarrow> nat" where
  "agreement_from tokens live end n =
     (if int n < MATCH_SCAN_CAP \<and> n + 1 \<le> end \<and> tokens ! (end - 1 - n) = tokens ! (live - 1 - n)
      then agreement_from tokens live end (n + 1) else n)"
  by auto
termination
  by (relation "measure (\<lambda>(tokens, live, end, n). end - n)") auto

declare agreement_from.simps [simp del]

definition agreement :: "int list \<Rightarrow> nat \<Rightarrow> nat \<Rightarrow> nat" where
  "agreement tokens live end = agreement_from tokens live end 0"

fun scan_bucket :: "copy_policy \<Rightarrow> int list \<Rightarrow> nat \<Rightarrow> nat \<Rightarrow> int \<Rightarrow> nat list \<Rightarrow> (nat \<times> nat) option" where
  "scan_bucket p tokens live gram examined [] = None"
| "scan_bucket p tokens live gram examined (start # bucket) =
     (let begin = start + gram
      in if live \<le> begin then scan_bucket p tokens live gram examined bucket
         else if int live - int start > lookback p then None
         else if min_match p \<le> 0 then Some (begin, gram)
         else let agreed = agreement tokens live begin
              in if min_match p \<le> int agreed then Some (begin, agreed)
                 else if MATCH_SCAN_SOURCES \<le> examined + 1 then None
                 else scan_bucket p tokens live gram (examined + 1) bucket)"

fun scan_sizes :: "copy_policy \<Rightarrow> copy_store \<Rightarrow> nat \<Rightarrow> nat list \<Rightarrow> exc + (nat \<times> nat) option" where
  "scan_sizes p s live [] = Inr None"
| "scan_sizes p s live (gram # grams) =
     (case map_of (store_index s) gram of
        None \<Rightarrow> Inl (KeyError ''size'')
      | Some table \<Rightarrow>
          (case table (drop (live - gram) (store_tokens s)) of
             None \<Rightarrow> scan_sizes p s live grams
           | Some bucket \<Rightarrow>
               (case scan_bucket p (store_tokens s) live gram 0 (rev bucket) of
                  Some found \<Rightarrow> Inr (Some found)
                | None \<Rightarrow> scan_sizes p s live grams)))"

definition find_source :: "copy_lane \<Rightarrow> ((nat \<times> nat) option, copy_lane) res" where
  "find_source l =
     bind_res (sync_store l) (\<lambda>_ (s, st).
       let p = lane_policy st; live = watermark st
       in (scan_sizes p s live (rev [nat (ngram_min p)..<Suc (min (nat (ngram_max p)) live)]), (s, st)))"

definition span_cap :: "copy_policy \<Rightarrow> nat \<Rightarrow> int" where
  "span_cap p agreed =
     (if strong_match p \<noteq> 0 \<and> strong_match p \<le> int agreed then strong_max_span p else max_span p)"

text \<open>\<open>tokens[begin : min(begin + width, length)]\<close>\<close>

definition source_span :: "int list \<Rightarrow> nat \<Rightarrow> nat \<Rightarrow> int \<Rightarrow> int list" where
  "source_span tokens live begin width = drop begin (take (min (begin + nat width) live) tokens)"

definition lookup_copy :: "int \<Rightarrow> copy_lane \<Rightarrow> (int list, copy_lane) res" where
  "lookup_copy widest l =
     (if widest \<le> 0 then (Inr [], l)
      else bind_res (find_source l) (\<lambda>found (s, st).
        case found of
          None \<Rightarrow> (Inr [], (s, st))
        | Some (begin, agreed) \<Rightarrow>
            (Inr (source_span (store_tokens s) (watermark st) begin (min widest (span_cap (lane_policy st) agreed))), (s, st))))"

definition has_candidate :: "copy_lane \<Rightarrow> (bool, copy_lane) res" where
  "has_candidate l = bind_res (lookup_copy 1 l) (\<lambda>tokens l'. (Inr (tokens \<noteq> []), l'))"

section \<open>The gate\<close>

definition window_rate :: "(rat \<Rightarrow> rat) \<Rightarrow> (int \<times> rat) list \<Rightarrow> rat option" where
  "window_rate rnd window =
     (if window = [] then None
      else let tokens = sum_list (map fst window); cost = foldl (\<lambda>acc (_, c). rnd (acc + c)) 0 window
           in if 0 < cost then Some (rnd (of_int tokens / cost)) else None)"

datatype decision = Copy | Probe | Declined | Miss | CohortRefused

definition refuse_cohort :: "copy_lane \<Rightarrow> (int list \<times> decision) \<times> copy_lane" where
  "refuse_cohort l = (([], CohortRefused), (fst l, (snd l)\<lparr>cohort_refusals := cohort_refusals (snd l) + 1\<rparr>))"

definition gate_open :: "(rat \<Rightarrow> rat) \<Rightarrow> copy_state \<Rightarrow> bool" where
  "gate_open rnd st =
     (let baseline = (case window_rate rnd (head_window st) of Some r \<Rightarrow> r | None \<Rightarrow> 1)
      in case window_rate rnd (copy_window st) of
           Some r \<Rightarrow> rnd (min_yield_ratio (lane_policy st) * baseline) \<le> r | None \<Rightarrow> False)"

definition gate_span :: "(rat \<Rightarrow> rat) \<Rightarrow> int list \<Rightarrow> copy_state \<Rightarrow> (int list \<times> decision) \<times> copy_state" where
  "gate_span rnd piece st =
     (if int (length (copy_window st)) < min_samples (lane_policy st) then ((piece, Copy), st)
      else if gate_open rnd st then ((piece, Copy), st)
      else let st1 = st\<lparr>declines_since_probe := declines_since_probe st + 1\<rparr>
           in if reprobe_interval (lane_policy st) \<le> declines_since_probe st1
              then ((take (nat (min (probe_span (lane_policy st)) (int (length piece)))) piece, Probe),
                    st1\<lparr>declines_since_probe := 0, probe_rounds := probe_rounds st1 + 1\<rparr>)
              else (([], Declined), st1\<lparr>gate_declines := gate_declines st1 + 1\<rparr>))"

definition note_miss :: "copy_state \<Rightarrow> copy_state" where
  "note_miss st = st\<lparr>lookup_misses := lookup_misses st + 1\<rparr>"

definition plan_copy :: "(rat \<Rightarrow> rat) \<Rightarrow> int \<Rightarrow> copy_lane \<Rightarrow> (int list \<times> decision, copy_lane) res" where
  "plan_copy rnd cap l =
     (if cap \<le> 0 then (Inr ([], Miss), l)
      else bind_res (find_source l) (\<lambda>found (s, st).
        case found of
          None \<Rightarrow> (Inr ([], Miss), (s, note_miss st))
        | Some (begin, agreed) \<Rightarrow>
            let p = lane_policy st; widest = span_cap p agreed;
                st = (if widest \<noteq> max_span p then st\<lparr>strong_matches := strong_matches st + 1\<rparr> else st);
                piece = source_span (store_tokens s) (watermark st) begin (min (min (next_width st) cap) widest)
            in if piece = [] then (Inr ([], Miss), (s, note_miss st))
               else let (choice, st') = gate_span rnd piece st in (Inr choice, (s, st'))))"

section \<open>Accounting a round\<close>

text \<open>\<open>deque.append\<close> on a deque with \<open>maxlen\<close>.\<close>

definition push_window :: "int \<Rightarrow> 'a list \<Rightarrow> 'a \<Rightarrow> 'a list" where
  "push_window longest xs x = drop (length xs + 1 - nat longest) (xs @ [x])"

definition sized_width :: "copy_policy \<Rightarrow> int \<Rightarrow> int \<Rightarrow> int \<Rightarrow> int" where
  "sized_width p width copied accepted =
     (if copied \<le> accepted then min (max width copied * 2) (span_ceiling p)
      else max (probe_span p) (min \<lceil>(3 / 2 :: rat) * of_int accepted\<rceil> copied))"

definition record_round :: "(rat \<Rightarrow> rat) \<Rightarrow> int \<Rightarrow> int \<Rightarrow> int \<Rightarrow> int \<Rightarrow> int list \<Rightarrow> copy_lane \<Rightarrow> (unit, copy_lane) res" where
  "record_round rnd copied head_depth accepted emitted committed l =
     (let (s, st) = l; p = lane_policy st
      in if copied < 0 \<or> accepted < 0 \<or> emitted < 0
         then (Inl (ValueError ''copy-draft outcome counts must be nonnegative''), l)
         else if copied \<noteq> 0
         then if copied < accepted then (Inl (ValueError ''copy-draft accepted more than it proposed''), l)
              else observe_tokens committed (s, st\<lparr>copy_rounds := copy_rounds st + 1,
                     copy_proposed := copy_proposed st + copied, copy_accepted := copy_accepted st + accepted,
                     copy_window := push_window (gate_window p) (copy_window st) (emitted, copy_cost rnd p copied),
                     next_width := sized_width p (next_width st) copied accepted\<rparr>)
         else observe_tokens committed (s, st\<lparr>head_rounds := head_rounds st + 1,
                head_proposed := head_proposed st + head_depth,
                head_accepted := head_accepted st + min accepted head_depth,
                head_window := push_window (gate_window p) (head_window st) (emitted, head_cost rnd p head_depth)\<rparr>))"

section \<open>Verifying a copied proposal\<close>

fun matched_rows :: "int list \<Rightarrow> int list \<Rightarrow> nat \<Rightarrow> nat" where
  "matched_rows (d # ds) (t # ts) n = (if t = d then matched_rows ds ts (n + 1) else n)"
| "matched_rows _ _ n = n"

definition verify_point_mass :: "int list \<Rightarrow> int list \<Rightarrow> exc + nat \<times> int" where
  "verify_point_mass proposal sampled =
     (if length sampled < length proposal + 1
      then Inl (ValueError ''point-mass verification needs one bonus draw'')
      else let n = matched_rows proposal sampled 0 in Inr (n, sampled ! n))"

section \<open>The history of a lane\<close>

definition lane_ok :: "copy_lane \<Rightarrow> bool" where
  "lane_ok l \<longleftrightarrow> (let (s, st) = l; p = lane_policy st
     in indexed s \<and> watermark st \<le> length (store_tokens s)
        \<and> 1 \<le> ngram_min p \<and> store_ngram_min s = nat (ngram_min p) \<and> store_ngram_max s = nat (ngram_max p))"

definition lane_history :: "copy_lane \<Rightarrow> int list" where
  "lane_history l = take (watermark (snd l)) (store_tokens (fst l))"

lemma sync_store_ok:
  assumes "lane_ok (s, st)"
  shows "sync_store (s, st) = (Inr (), (truncate_store (watermark st) s, st))"
  using assms history.cut_idle [of s] by (auto simp: sync_store_def lane_ok_def Let_def)

lemma synced_ok:
  assumes "lane_ok (s, st)"
  shows "lane_ok (truncate_store (watermark st) s, st)"
    "store_tokens (truncate_store (watermark st) s) = lane_history (s, st)"
    "watermark st = length (lane_history (s, st))"
  using assms by (auto simp: lane_ok_def Let_def lane_history_def history.good_cut history.content_cut)

lemma observe_tokens_ok:
  assumes "lane_ok (s, st)"
  shows "observe_tokens tokens (s, st) =
           (Inr (), (fold append_token tokens (truncate_store (watermark st) s),
                     st\<lparr>watermark := watermark st + length tokens\<rparr>))"
proof -
  have "indexed (truncate_store (watermark st) s)"
    using synced_ok(1) [OF assms] by (simp add: lane_ok_def Let_def)
  then show ?thesis
    using synced_ok [OF assms]
    by (simp add: observe_tokens_def sync_store_ok [OF assms] Let_def history.content_pushes)
qed

lemma observed_ok:
  fixes tokens
  assumes "lane_ok (s, st)" "lane_policy st' = lane_policy st"
  defines "l \<equiv> (fold append_token tokens (truncate_store (watermark st) s),
      st'\<lparr>watermark := watermark st + length tokens\<rparr>)"
  shows "lane_ok l" "lane_history l = lane_history (s, st) @ tokens"
    "store_tokens (fst l) = lane_history l"
proof -
  define h where "h = lane_history (s, st)"
  have s: "indexed (truncate_store (watermark st) s)" "store_tokens (truncate_store (watermark st) s) = h"
    "watermark st = length h"
    using synced_ok [OF assms(1)] by (auto simp: lane_ok_def Let_def h_def)
  have tokens: "store_tokens (fst l) = h @ tokens" "watermark (snd l) = length h + length tokens"
    using s by (simp_all add: l_def history.content_pushes)
  then show "lane_history l = lane_history (s, st) @ tokens" "store_tokens (fst l) = lane_history l"
    by (simp_all add: lane_history_def [of l] flip: h_def)
  show "lane_ok l"
    using assms(1,2) s tokens by (auto simp: lane_ok_def Let_def l_def history.good_pushes)
qed

section \<open>What a lookup finds\<close>

definition same_tail :: "int list \<Rightarrow> nat \<Rightarrow> nat \<Rightarrow> bool" where
  "same_tail h stop n \<longleftrightarrow> n \<le> stop \<and> drop (stop - n) (take stop h) = drop (length h - n) h"

text \<open>The earlier places, within \<open>reach\<close> tokens, where the last \<open>gram\<close> tokens stand.\<close>

definition sites :: "int list \<Rightarrow> int \<Rightarrow> nat \<Rightarrow> nat set" where
  "sites h reach gram =
     set (filter (\<lambda>start. start + gram < length h \<and> take gram (drop start h) = drop (length h - gram) h
            \<and> int (length h) - int start \<le> reach) [0..<length h])"

lemma sites_eq:
  "sites h reach gram =
     {start. start + gram < length h \<and> take gram (drop start h) = drop (length h - gram) h
             \<and> int (length h) - int start \<le> reach}"
  by (auto simp: sites_def)

lemma same_tail_site: "start + gram < length h \<Longrightarrow> take gram (drop start h) = drop (length h - gram) h \<Longrightarrow>
    same_tail h (start + gram) gram"
  by (simp add: same_tail_def drop_take)

lemma agreement_from_agrees:
  "n \<le> agreement_from h live stop n \<and> agreement_from h live stop n \<le> max n stop
   \<and> (\<forall>k. n \<le> k \<and> k < agreement_from h live stop n \<longrightarrow> h ! (stop - 1 - k) = h ! (live - 1 - k))"
proof (induction h live stop n rule: agreement_from.induct)
  case (1 h live stop n)
  show ?case
  proof (cases "int n < MATCH_SCAN_CAP \<and> n + 1 \<le> stop \<and> h ! (stop - 1 - n) = h ! (live - 1 - n)")
    case True
    have "agreement_from h live stop n = agreement_from h live stop (n + 1)"
      using True by (simp add: agreement_from.simps [of h live stop n])
    then show ?thesis using "1.IH" [OF True] True by (auto simp: less_eq_Suc_le le_less [of n])
  next
    case False
    have "agreement_from h live stop n = n"
      by (subst agreement_from.simps) (rule if_not_P [OF False])
    then show ?thesis by simp
  qed
qed

lemma agreement_same_tail:
  assumes "stop < length h"
  shows "same_tail h stop (agreement h (length h) stop)"
proof -
  let ?m = "agreement h (length h) stop"
  have m: "?m \<le> stop" "\<And>k. k < ?m \<Longrightarrow> h ! (stop - 1 - k) = h ! (length h - 1 - k)"
    using agreement_from_agrees [of 0 h "length h" stop] by (auto simp: agreement_def)
  have "drop (stop - ?m) (take stop h) = drop (length h - ?m) h"
  proof (rule nth_equalityI)
    show "length (drop (stop - ?m) (take stop h)) = length (drop (length h - ?m) h)"
      using assms m(1) by simp
  next
    fix i
    assume "i < length (drop (stop - ?m) (take stop h))"
    then have i: "i < ?m" using assms m(1) by simp
    then show "drop (stop - ?m) (take stop h) ! i = drop (length h - ?m) h ! i"
      using m(2) [of "?m - 1 - i"] m(1) assms by simp
  qed
  then show ?thesis using m(1) by (simp add: same_tail_def)
qed

lemma scan_bucket_sound:
  assumes "scan_bucket p h (length h) gram examined bucket = Some (begin, agreed)"
    and "\<forall>start \<in> set bucket. take gram (drop start h) = drop (length h - gram) h"
  shows "\<exists>start. start \<in> set bucket \<and> start \<in> sites h (lookback p) gram \<and> begin = start + gram
           \<and> same_tail h begin agreed \<and> (if min_match p \<le> 0 then agreed = gram else min_match p \<le> int agreed)"
  using assms
proof (induction p h "length h" gram examined bucket rule: scan_bucket.induct)
  case (1 p h gram examined)
  then show ?case by simp
next
  case (2 p h gram examined start bucket)
  show ?case
  proof (cases "length h \<le> start + gram")
    case True
    then show ?thesis using "2.hyps"(1) [OF refl True] "2.prems" by auto
  next
    case False
    then have near: "int (length h) - int start \<le> lookback p"
      using "2.prems"(1) by (auto simp: Let_def split: if_splits)
    have site: "start \<in> sites h (lookback p) gram"
      using False near "2.prems"(2) by (simp add: sites_eq)
    show ?thesis
    proof (cases "min_match p \<le> 0")
      case True
      then show ?thesis
        using "2.prems" False near site same_tail_site [of start gram h] by (auto simp: Let_def)
    next
      case more: False
      show ?thesis
      proof (cases "min_match p \<le> int (agreement h (length h) (start + gram))")
        case True
        then show ?thesis
          using "2.prems" False near site more agreement_same_tail [of "start + gram" h] by (auto simp: Let_def)
      next
        case short: False
        then have "scan_bucket p h (length h) gram (examined + 1) bucket = Some (begin, agreed)"
            "\<not> MATCH_SCAN_SOURCES \<le> examined + 1"
          using "2.prems"(1) False near more by (auto simp: Let_def split: if_splits)
        then show ?thesis
          using "2.hyps"(2) [OF refl False _ more refl short] near "2.prems"(2) by auto
      qed
    qed
  qed
qed

lemma scan_bucket_latest:
  assumes "min_match p \<le> 0" "sorted_wrt (>) bucket"
    and "\<forall>start \<in> set bucket. take gram (drop start h) = drop (length h - gram) h"
  shows "scan_bucket p h (length h) gram examined bucket =
           (if set bucket \<inter> sites h (lookback p) gram = {} then None
            else Some (Max (set bucket \<inter> sites h (lookback p) gram) + gram, gram))"
  using assms(2,3)
proof (induction bucket)
  case Nil
  then show ?case by simp
next
  case (Cons start bucket)
  show ?case
  proof (cases "length h \<le> start + gram")
    case True
    then have "start \<notin> sites h (lookback p) gram" by (simp add: sites_eq)
    then show ?thesis using True Cons by simp
  next
    case inside: False
    show ?thesis
    proof (cases "int (length h) - int start \<le> lookback p")
      case True
      then have site: "start \<in> sites h (lookback p) gram" using inside Cons.prems(2) by (simp add: sites_eq)
      have "Max (set (start # bucket) \<inter> sites h (lookback p) gram) = start"
        using site Cons.prems(1) by (intro Max_eqI) auto
      then show ?thesis using True inside site assms(1) by (auto simp: Let_def)
    next
      case False
      then have "set (start # bucket) \<inter> sites h (lookback p) gram = {}"
        using Cons.prems(1) by (auto simp: sites_eq)
      then show ?thesis using False inside by (simp add: Let_def)
    qed
  qed
qed

lemma starts_sites:
  assumes "0 < gram" "gram \<le> length h"
  shows "\<forall>start \<in> set (starts h (drop (length h - gram) h)). take gram (drop start h) = drop (length h - gram) h"
    "sites h reach gram \<subseteq> set (starts h (drop (length h - gram) h))"
    "starts h (drop (length h - gram) h) \<noteq> []"
proof -
  show "\<forall>start \<in> set (starts h (drop (length h - gram) h)). take gram (drop start h) = drop (length h - gram) h"
    using assms by (auto simp: starts_def)
  show "sites h reach gram \<subseteq> set (starts h (drop (length h - gram) h))"
    using assms by (auto simp: starts_def sites_eq)
  have "length h - gram \<in> set (starts h (drop (length h - gram) h))"
    using assms by (auto simp: starts_def)
  then show "starts h (drop (length h - gram) h) \<noteq> []" by auto
qed

lemma rev_starts_sorted: "sorted_wrt (>) (rev (starts h key))"
  unfolding sorted_wrt_rev by (simp add: starts_def sorted_wrt_filter)

text \<open>The search over the gram sizes \<open>grams\<close>: the first size with a site gives the answer.\<close>

definition source_of :: "copy_policy \<Rightarrow> int list \<Rightarrow> nat list \<Rightarrow> nat \<Rightarrow> nat \<Rightarrow> bool" where
  "source_of p h grams place agreed \<longleftrightarrow>
     (\<exists>gram \<in> set grams. \<exists>start \<in> sites h (lookback p) gram. place = start + gram
        \<and> same_tail h place agreed \<and> (if min_match p \<le> 0 then agreed = gram else min_match p \<le> int agreed))"

lemma scan_sizes_sound:
  assumes "indexed s" "store_tokens s = h"
    and "\<forall>gram \<in> set grams. store_ngram_min s \<le> gram \<and> gram \<le> store_ngram_max s \<and> gram \<le> length h"
  shows "\<exists>found. scan_sizes p s (length h) grams = Inr found
     \<and> (\<forall>place agreed. found = Some (place, agreed) \<longrightarrow> source_of p h grams place agreed)"
  using assms(3)
proof (induction grams)
  case Nil
  then show ?case by simp
next
  case (Cons gram grams)
  have gram: "0 < gram" "gram \<le> length h" using Cons.prems assms(1) by (auto simp: indexed_def)
  let ?key = "drop (length h - gram) h"
  have table: "map_of (store_index s) gram = Some (exact_table h gram)"
    using indexed_lookup [OF assms(1)] Cons.prems assms(2) by auto
  have bucket: "exact_table h gram ?key = Some (starts h ?key)"
    using starts_sites(3) [OF gram] gram by (simp add: exact_table_def)
  show ?case
  proof (cases "scan_bucket p h (length h) gram 0 (rev (starts h ?key))")
    case None
    then have "scan_sizes p s (length h) (gram # grams) = scan_sizes p s (length h) grams"
      using table bucket assms(2) by simp
    moreover obtain found where "scan_sizes p s (length h) grams = Inr found"
      "\<forall>place agreed. found = Some (place, agreed) \<longrightarrow> source_of p h grams place agreed"
      using Cons by auto
    ultimately show ?thesis by (auto simp: source_of_def)
  next
    case (Some found)
    obtain place agreed where found: "found = (place, agreed)" by force
    have "\<exists>start. start \<in> set (rev (starts h ?key)) \<and> start \<in> sites h (lookback p) gram \<and> place = start + gram
        \<and> same_tail h place agreed \<and> (if min_match p \<le> 0 then agreed = gram else min_match p \<le> int agreed)"
      by (rule scan_bucket_sound [OF Some [unfolded found]]) (use starts_sites(1) [OF gram] in auto)
    then have "source_of p h (gram # grams) place agreed" by (auto simp: source_of_def)
    moreover have "scan_sizes p s (length h) (gram # grams) = Inr (Some (place, agreed))"
      using Some table bucket assms(2) found by simp
    ultimately show ?thesis by simp
  qed
qed

lemma scan_sizes_latest:
  assumes "indexed s" "store_tokens s = h" "min_match p \<le> 0"
    and "\<forall>gram \<in> set grams. store_ngram_min s \<le> gram \<and> gram \<le> store_ngram_max s \<and> gram \<le> length h"
  shows "scan_sizes p s (length h) grams =
     Inr (map_option (\<lambda>gram. (Max (sites h (lookback p) gram) + gram, gram))
       (find (\<lambda>gram. sites h (lookback p) gram \<noteq> {}) grams))"
  using assms(4)
proof (induction grams)
  case Nil
  then show ?case by simp
next
  case (Cons gram grams)
  have gram: "0 < gram" "gram \<le> length h" using Cons.prems assms(1) by (auto simp: indexed_def)
  let ?key = "drop (length h - gram) h"
  have table: "map_of (store_index s) gram = Some (exact_table h gram)"
    using indexed_lookup [OF assms(1)] Cons.prems assms(2) by auto
  have bucket: "exact_table h gram ?key = Some (starts h ?key)"
    using starts_sites(3) [OF gram] gram by (simp add: exact_table_def)
  have "set (rev (starts h ?key)) \<inter> sites h (lookback p) gram = sites h (lookback p) gram"
    using starts_sites(2) [OF gram] by auto
  then have "scan_bucket p h (length h) gram 0 (rev (starts h ?key)) =
      (if sites h (lookback p) gram = {} then None else Some (Max (sites h (lookback p) gram) + gram, gram))"
    using scan_bucket_latest [OF assms(3) rev_starts_sorted [of h ?key], where h = h and gram = gram and examined = 0] starts_sites(1) [OF gram] by simp
  then show ?case using Cons table bucket assms(2) by auto
qed

definition gram_sizes :: "copy_policy \<Rightarrow> int list \<Rightarrow> nat list" where
  "gram_sizes p h = rev [nat (ngram_min p)..<Suc (min (nat (ngram_max p)) (length h))]"

lemma find_source_eq:
  assumes "lane_ok (s, st)" "lane_history (s, st) = h"
  shows "find_source (s, st) =
     (scan_sizes (lane_policy st) (truncate_store (watermark st) s) (length h) (gram_sizes (lane_policy st) h),
      (truncate_store (watermark st) s, st))"
  using synced_ok [OF assms(1)] assms(2)
  by (simp add: find_source_def sync_store_ok [OF assms(1)] Let_def gram_sizes_def)

lemma gram_sizes_bounds:
  assumes "lane_ok (s, st)" "lane_history (s, st) = h"
  shows "\<forall>gram \<in> set (gram_sizes (lane_policy st) h).
     store_ngram_min (truncate_store (watermark st) s) \<le> gram
     \<and> gram \<le> store_ngram_max (truncate_store (watermark st) s) \<and> gram \<le> length h"
  using assms(1) by (auto simp: gram_sizes_def lane_ok_def Let_def simp del: upt_Suc)

text \<open>A copy source is a place before the end where the history reads as at its end.\<close>

definition is_source :: "copy_policy \<Rightarrow> int list \<Rightarrow> nat \<Rightarrow> nat \<Rightarrow> bool" where
  "is_source p h place agreed \<longleftrightarrow> place < length h \<and> same_tail h place agreed
     \<and> (\<exists>gram. nat (ngram_min p) \<le> gram \<and> gram \<le> nat (ngram_max p) \<and> same_tail h place gram
          \<and> int (length h) - int (place - gram) \<le> lookback p
          \<and> (if min_match p \<le> 0 then agreed = gram else min_match p \<le> int agreed))"

lemma source_of_is_source:
  assumes "source_of p h (gram_sizes p h) place agreed"
  shows "is_source p h place agreed"
proof -
  obtain gram start where src: "gram \<in> set (gram_sizes p h)" "start \<in> sites h (lookback p) gram"
      "place = start + gram" "same_tail h place agreed"
      "if min_match p \<le> 0 then agreed = gram else min_match p \<le> int agreed"
    using assms by (auto simp: source_of_def)
  have "nat (ngram_min p) \<le> gram" "gram \<le> nat (ngram_max p)"
    using src(1) by (auto simp: gram_sizes_def simp del: upt_Suc)
  moreover have "place < length h" "same_tail h place gram" "int (length h) - int (place - gram) \<le> lookback p"
    using src(2,3) same_tail_site [of start gram h] by (auto simp: sites_eq)
  ultimately show ?thesis using src(4,5) unfolding is_source_def by blast
qed

lemma find_source_ok:
  assumes "lane_ok (s, st)" "lane_history (s, st) = h"
  obtains found where
    "find_source (s, st) = (Inr found, (truncate_store (watermark st) s, st))"
    "\<And>place agreed. found = Some (place, agreed) \<Longrightarrow> is_source (lane_policy st) h place agreed"
proof -
  let ?p = "lane_policy st" and ?s = "truncate_store (watermark st) s"
  have s: "indexed ?s" "store_tokens ?s = h"
    using synced_ok [OF assms(1)] assms(2) by (auto simp: lane_ok_def Let_def)
  obtain found where "scan_sizes ?p ?s (length h) (gram_sizes ?p h) = Inr found"
    "\<forall>place agreed. found = Some (place, agreed) \<longrightarrow> source_of ?p h (gram_sizes ?p h) place agreed"
    using scan_sizes_sound [OF s gram_sizes_bounds [OF assms], of ?p] by blast
  then show ?thesis
    using that source_of_is_source by (simp add: find_source_eq [OF assms])
qed

lemma source_span_eq: "source_span h (length h) place width = take (nat width) (drop place h)"
  by (simp add: source_span_def drop_take min_def)

section \<open>Planning and recording keep the history\<close>

text \<open>
  \<open>same_lane\<close>: the call changed neither the policy nor the history, only the bookkeeping, and cut
  the store at most back to the lane's own watermark.
\<close>

definition same_lane :: "copy_lane \<Rightarrow> copy_lane \<Rightarrow> bool" where
  "same_lane l l' \<longleftrightarrow> lane_policy (snd l') = lane_policy (snd l) \<and> watermark (snd l') = watermark (snd l)
     \<and> (fst l' = fst l \<or> fst l' = truncate_store (watermark (snd l)) (fst l))"

lemma same_lane_ok:
  assumes "lane_ok l" "same_lane l l'"
  shows "lane_ok l'" "lane_history l' = lane_history l"
proof -
  obtain s st s' st' where l: "l = (s, st)" "l' = (s', st')" by (cases l, cases l')
  have st: "lane_policy st' = lane_policy st" "watermark st' = watermark st"
    and s': "s' = s \<or> s' = truncate_store (watermark st) s"
    using assms(2) unfolding l same_lane_def by simp_all
  have ok: "lane_ok (s, st)" using assms(1) l by simp
  define h where "h = lane_history (s, st)"
  have "lane_history (truncate_store (watermark st) s, st) = h"
    using synced_ok(2,3) [OF ok] unfolding lane_history_def [of "(truncate_store _ s, st)"] fst_conv snd_conv h_def
    by (metis order_refl take_all)
  then have synced: "lane_ok (truncate_store (watermark st) s, st)"
      "lane_history (truncate_store (watermark st) s, st) = lane_history (s, st)"
    using synced_ok(1) [OF ok] by (auto simp: h_def)
  have "lane_ok (s', st) \<and> lane_history (s', st) = lane_history (s, st)"
    using s' synced assms(1) l by blast
  then show "lane_ok l'" "lane_history l' = lane_history l"
    using st by (simp_all add: l lane_ok_def Let_def lane_history_def)
qed

text \<open>A span is copied from the history, starting at a source, and fits the three caps.\<close>

definition copied_span :: "copy_policy \<Rightarrow> int list \<Rightarrow> int \<Rightarrow> int list \<Rightarrow> bool" where
  "copied_span p h widest piece \<longleftrightarrow>
     (\<exists>place agreed. is_source p h place agreed \<and> piece = take (length piece) (drop place h)
        \<and> int (length piece) \<le> min widest (span_cap p agreed))"

lemma span_cap_pos: "valid_copy_policy rnd p \<Longrightarrow> 1 \<le> span_cap p agreed \<and> span_cap p agreed \<le> span_ceiling p"
  by (auto simp: span_cap_def valid_copy_policy_def span_ceiling_def)

lemma copied_span_take:
  assumes "is_source p h place agreed" "0 \<le> width" "width \<le> min widest (span_cap p agreed)"
  shows "copied_span p h widest (take n (take (nat width) (drop place h)))"
proof -
  let ?piece = "take n (take (nat width) (drop place h))"
  have "?piece = take (length ?piece) (drop place h)" by (auto simp: min_def)
  moreover have "int (length ?piece) \<le> width" using assms(2) by auto
  ultimately show ?thesis
    unfolding copied_span_def using assms by (intro exI [of _ place] exI [of _ agreed]) auto
qed

lemma gate_span_keeps:
  assumes "gate_span rnd piece st = (r, st')"
  shows "lane_policy st' = lane_policy st" "watermark st' = watermark st" "next_width st' = next_width st"
    "copy_window st' = copy_window st" "head_window st' = head_window st"
    "copy_proposed st' = copy_proposed st" "copy_accepted st' = copy_accepted st"
proof -
  have st': "st' = snd (gate_span rnd piece st)" using assms by simp
  show "lane_policy st' = lane_policy st" "watermark st' = watermark st" "next_width st' = next_width st"
    "copy_window st' = copy_window st" "head_window st' = head_window st"
    "copy_proposed st' = copy_proposed st" "copy_accepted st' = copy_accepted st"
    unfolding st' gate_span_def Let_def by simp_all
qed

lemma plan_copy_ok:
  assumes ok: "lane_ok (s, st)" and h: "lane_history (s, st) = h" and valid: "valid_copy_policy rnd' (lane_policy st)"
    and width: "1 \<le> next_width st"
  obtains tokens choice s' st' where
    "plan_copy rnd cap (s, st) = (Inr (tokens, choice), (s', st'))"
    "same_lane (s, st) (s', st')"
    "next_width st' = next_width st" "copy_window st' = copy_window st" "head_window st' = head_window st"
    "copy_proposed st' = copy_proposed st" "copy_accepted st' = copy_accepted st"
    "tokens = [] \<longleftrightarrow> choice \<in> {Miss, Declined}"
    "tokens \<noteq> [] \<Longrightarrow> copied_span (lane_policy st) h (min cap (next_width st)) tokens"
proof (cases "cap \<le> 0")
  case True
  then show ?thesis by (intro that [of "[]" Miss s st]) (simp_all add: plan_copy_def same_lane_def)
next
  case cap: False
  let ?p = "lane_policy st" and ?s = "truncate_store (watermark st) s"
  obtain found where found: "find_source (s, st) = (Inr found, (?s, st))"
    and sound: "\<And>place agreed. found = Some (place, agreed) \<Longrightarrow> is_source ?p h place agreed"
    using find_source_ok [OF ok h] by blast
  show ?thesis
  proof (cases found)
    case None
    then show ?thesis
      using cap found by (intro that [of "[]" Miss ?s "note_miss st"]) (simp_all add: plan_copy_def same_lane_def note_miss_def)
  next
    case (Some pair)
    obtain place agreed where pair: "pair = (place, agreed)" by force
    have src: "is_source ?p h place agreed" using sound Some pair by simp
    then have place: "place < length h" by (simp add: is_source_def)
    define st1 where "st1 = (if span_cap ?p agreed \<noteq> max_span ?p then st\<lparr>strong_matches := strong_matches st + 1\<rparr> else st)"
    have st1: "lane_policy st1 = ?p" "watermark st1 = watermark st" "next_width st1 = next_width st"
      "copy_window st1 = copy_window st" "head_window st1 = head_window st"
      "copy_proposed st1 = copy_proposed st" "copy_accepted st1 = copy_accepted st"
      by (simp_all add: st1_def)
    define width where "width = min (min (next_width st) cap) (span_cap ?p agreed)"
    have width1: "1 \<le> width" "width \<le> min (min cap (next_width st)) (span_cap ?p agreed)"
      using width cap span_cap_pos [OF valid, of agreed] by (auto simp: width_def)
    define piece where "piece = source_span (store_tokens ?s) (watermark st1) place width"
    have piece: "piece = take (nat width) (drop place h)"
      using synced_ok [OF ok] h by (simp add: piece_def st1 source_span_eq)
    then have "piece \<noteq> []" using place width1(1) by simp
    obtain tokens choice st' where gate: "gate_span rnd piece st1 = ((tokens, choice), st')" by (metis surj_pair)
    have keeps: "lane_policy st' = ?p" "watermark st' = watermark st" "next_width st' = next_width st"
      "copy_window st' = copy_window st" "head_window st' = head_window st"
      "copy_proposed st' = copy_proposed st" "copy_accepted st' = copy_accepted st"
      using gate_span_keeps [OF gate] st1 by auto
    have probe: "1 \<le> probe_span ?p" using valid by (simp add: valid_copy_policy_def)
    have tokens: "(tokens = [] \<longleftrightarrow> choice \<in> {Miss, Declined}) \<and> (tokens \<noteq> [] \<longrightarrow> (\<exists>n. tokens = take n piece))"
    proof -
      have "0 < nat (min (probe_span ?p) (int (length piece)))" using probe \<open>piece \<noteq> []\<close> by simp
      then show ?thesis
        using gate \<open>piece \<noteq> []\<close> probe st1(1)
        by (auto simp: gate_span_def Let_def min_le_iff_disj split: if_splits intro: exI [of _ "length piece"])
    qed
    show ?thesis
    proof (rule that)
      show "plan_copy rnd cap (s, st) = (Inr (tokens, choice), (?s, st'))"
        using cap found Some pair gate \<open>piece \<noteq> []\<close>
        by (simp add: plan_copy_def Let_def flip: st1_def width_def st1(3)) (simp add: st1 piece_def width_def Let_def)
      show "same_lane (s, st) (?s, st')" using keeps by (simp add: same_lane_def)
      show "tokens \<noteq> [] \<Longrightarrow> copied_span ?p h (min cap (next_width st)) tokens"
        using tokens copied_span_take [OF src _ width1(2)] width1(1) piece by auto
    qed (use keeps tokens in auto)
  qed
qed

lemma sized_width_bounds:
  assumes "valid_copy_policy rnd p" "1 \<le> width" "1 \<le> copied" "0 \<le> accepted"
  shows "1 \<le> sized_width p width copied accepted"
    "copied \<le> span_ceiling p \<Longrightarrow> sized_width p width copied accepted \<le> span_ceiling p"
proof -
  have p: "1 \<le> probe_span p" "probe_span p \<le> span_ceiling p" "1 \<le> span_ceiling p"
    using assms(1) by (auto simp: valid_copy_policy_def span_ceiling_def)
  show "1 \<le> sized_width p width copied accepted" using p assms(2,3) by (simp add: sized_width_def min_def max_def)
  show "sized_width p width copied accepted \<le> span_ceiling p" if "copied \<le> span_ceiling p"
    using p that by (simp add: sized_width_def min_def max_def)
qed

lemma push_window_length: "1 \<le> longest \<Longrightarrow> int (length (push_window longest xs x)) \<le> longest"
  by (simp add: push_window_def)

lemma matched_rows_spec:
  assumes "length sampled > length proposal"
  shows "\<exists>k. matched_rows proposal sampled n = n + k \<and> k \<le> length proposal \<and> take k proposal = take k sampled
           \<and> (k < length proposal \<longrightarrow> sampled ! k \<noteq> proposal ! k)"
  using assms
proof (induction proposal sampled n rule: matched_rows.induct)
  case (1 d ds t ts n)
  show ?case
  proof (cases "t = d")
    case True
    then obtain k where "matched_rows ds ts (n + 1) = n + 1 + k" "k \<le> length ds" "take k ds = take k ts"
      "k < length ds \<longrightarrow> ts ! k \<noteq> ds ! k" using "1.IH" "1.prems" by auto
    then show ?thesis using True by (intro exI [of _ "Suc k"]) auto
  next
    case False
    then show ?thesis by (intro exI [of _ 0]) auto
  qed
qed auto

section \<open>A lane and its recovery boundaries\<close>

text \<open>
  Copies of a lane share its store.  The world is the store, the live lane and the recovery
  boundaries saved from it, the most recent first; a boundary can be restored again and
  again, and restoring it discards the later ones.
\<close>

datatype lane_call =
    ObserveTokens "int list"
  | PlanRound int
  | RecordRound int int int int "int list"
  | RefuseRound
  | LookupTokens int

definition lane_step :: "(rat \<Rightarrow> rat) \<Rightarrow> lane_call \<Rightarrow> copy_lane \<Rightarrow> (unit, copy_lane) res" where
  "lane_step rnd c l =
     (case c of
        ObserveTokens tokens \<Rightarrow> observe_tokens tokens l
      | PlanRound cap \<Rightarrow> bind_res (plan_copy rnd cap l) (\<lambda>_ l'. (Inr (), l'))
      | RecordRound copied head_depth accepted emitted committed \<Rightarrow>
          record_round rnd copied head_depth accepted emitted committed l
      | RefuseRound \<Rightarrow> (Inr (), snd (refuse_cohort l))
      | LookupTokens widest \<Rightarrow> bind_res (lookup_copy widest l) (\<lambda>_ l'. (Inr (), l')))"

record copy_world =
  shared_store :: copy_store
  live_lane :: copy_state
  boundaries :: "copy_state list"

datatype share_call = Live lane_call | SaveBoundary | RestoreBoundary nat

definition share_step :: "(rat \<Rightarrow> rat) \<Rightarrow> share_call \<Rightarrow> copy_world \<Rightarrow> (unit, copy_world) res" where
  "share_step rnd c w =
     (case c of
        Live call \<Rightarrow>
          (let (r, (s, st)) = lane_step rnd call (shared_store w, live_lane w)
           in (r, w\<lparr>shared_store := s, live_lane := st\<rparr>))
      | SaveBoundary \<Rightarrow> (Inr (), w\<lparr>boundaries := live_lane w # boundaries w\<rparr>)
      | RestoreBoundary n \<Rightarrow>
          if n < length (boundaries w)
          then (Inr (), w\<lparr>live_lane := boundaries w ! n, boundaries := drop n (boundaries w)\<rparr>)
          else (Inl (IndexError ''boundary''), w))"

definition lane_inv :: "(rat \<Rightarrow> rat) \<Rightarrow> copy_lane \<Rightarrow> bool" where
  "lane_inv rnd l \<longleftrightarrow> lane_ok l \<and> valid_copy_policy rnd (lane_policy (snd l)) \<and> 1 \<le> next_width (snd l)
     \<and> int (length (copy_window (snd l))) \<le> gate_window (lane_policy (snd l))
     \<and> int (length (head_window (snd l))) \<le> gate_window (lane_policy (snd l))
     \<and> 0 \<le> copy_accepted (snd l) \<and> copy_accepted (snd l) \<le> copy_proposed (snd l)"

text \<open>What a call appends to the history.\<close>

fun added_tokens :: "lane_call \<Rightarrow> int list" where
  "added_tokens (ObserveTokens tokens) = tokens"
| "added_tokens (RecordRound copied head_depth accepted emitted committed) =
     (if copied < 0 \<or> accepted < 0 \<or> emitted < 0 \<or> copied \<noteq> 0 \<and> copied < accepted then [] else committed)"
| "added_tokens _ = []"

text \<open>
  \<open>grown l l' tokens\<close>: the call appended \<open>tokens\<close> to the history of the lane and left the store
  below its old watermark as it was.
\<close>

definition grown :: "copy_lane \<Rightarrow> copy_lane \<Rightarrow> int list \<Rightarrow> bool" where
  "grown l l' tokens \<longleftrightarrow> lane_ok l' \<and> lane_history l' = lane_history l @ tokens
     \<and> lane_policy (snd l') = lane_policy (snd l)
     \<and> store_ngram_min (fst l') = store_ngram_min (fst l) \<and> store_ngram_max (fst l') = store_ngram_max (fst l)
     \<and> take (watermark (snd l)) (store_tokens (fst l')) = lane_history l
     \<and> watermark (snd l) \<le> watermark (snd l')"

lemma grown_same_lane:
  assumes "lane_ok l" "same_lane l l'"
  shows "grown l l' []"
proof -
  have "lane_policy (snd l') = lane_policy (snd l)" "watermark (snd l') = watermark (snd l)"
    "fst l' = fst l \<or> fst l' = truncate_store (watermark (snd l)) (fst l)"
    using assms(2) by (simp_all add: same_lane_def)
  moreover have "store_ngram_min (fst l') = store_ngram_min (fst l) \<and> store_ngram_max (fst l') = store_ngram_max (fst l)"
    using calculation(3) by auto
  moreover have "take (watermark (snd l)) (store_tokens (fst l')) = lane_history l'"
    using calculation(2) by (simp add: lane_history_def)
  ultimately show ?thesis
    using same_lane_ok [OF assms] by (simp add: grown_def)
qed

lemma grown_observe:
  assumes "lane_ok (s, st)" "lane_policy st' = lane_policy st" "watermark st' = watermark st"
  shows "\<exists>l. observe_tokens tokens (s, st') = (Inr (), l) \<and> grown (s, st) l tokens
     \<and> snd l = st'\<lparr>watermark := watermark st + length tokens\<rparr>"
proof -
  let ?l = "(fold append_token tokens (truncate_store (watermark st) s), st'\<lparr>watermark := watermark st + length tokens\<rparr>)"
  have "lane_ok (s, st')" using assms by (simp add: lane_ok_def Let_def)
  then have eq: "observe_tokens tokens (s, st') = (Inr (), ?l)"
    using observe_tokens_ok [of s st'] assms(3) by simp
  have h: "lane_ok ?l" "lane_history ?l = lane_history (s, st) @ tokens" "store_tokens (fst ?l) = lane_history ?l"
    using observed_ok [OF assms(1,2), of tokens] by auto
  have w: "watermark st = length (lane_history (s, st))" using synced_ok(3) [OF assms(1)] .
  have "take (watermark st) (store_tokens (fst ?l)) = lane_history (s, st)"
    unfolding h(3) h(2) by (subst w) simp
  then have "grown (s, st) ?l tokens"
    using h assms(2) by (simp add: grown_def)
  then show ?thesis using eq by auto
qed

lemma lookup_copy_same:
  assumes "lane_ok (s, st)"
  obtains tokens s' where "lookup_copy widest (s, st) = (Inr tokens, (s', st))" "same_lane (s, st) (s', st)"
proof (cases "widest \<le> 0")
  case True
  then show ?thesis by (intro that [of "[]" s]) (simp_all add: lookup_copy_def same_lane_def)
next
  case False
  obtain found where "find_source (s, st) = (Inr found, (truncate_store (watermark st) s, st))"
    using find_source_ok [OF assms refl] by blast
  then show ?thesis
    using False that by (cases found) (auto simp: lookup_copy_def same_lane_def)
qed

text \<open>Every call of a lane keeps the invariant and only appends to its history.\<close>

lemma lane_step_grows:
  assumes inv: "lane_inv rnd (s, st)"
  shows "\<exists>r l'. lane_step rnd' c (s, st) = (r, l') \<and> lane_inv rnd l' \<and> grown (s, st) l' (added_tokens c)"
proof -
  have ok: "lane_ok (s, st)" and valid: "valid_copy_policy rnd (lane_policy st)" and width: "1 \<le> next_width st"
    using inv by (auto simp: lane_inv_def)
  show ?thesis
  proof (cases c)
    case (ObserveTokens tokens)
    then show ?thesis
      using grown_observe [OF ok refl refl, of tokens] inv by (auto simp: lane_step_def lane_inv_def grown_def)
  next
    case (PlanRound cap)
    obtain tokens choice s' st' where plan: "plan_copy rnd' cap (s, st) = (Inr (tokens, choice), (s', st'))"
        "same_lane (s, st) (s', st')" "next_width st' = next_width st" "copy_window st' = copy_window st"
        "head_window st' = head_window st" "copy_proposed st' = copy_proposed st" "copy_accepted st' = copy_accepted st"
      using plan_copy_ok [OF ok refl valid width] by metis
    then show ?thesis
      using PlanRound inv grown_same_lane [OF ok plan(2)] same_lane_ok [OF ok plan(2)]
      by (simp add: lane_step_def lane_inv_def same_lane_def)
  next
    case (RecordRound copied head_depth accepted emitted committed)
    show ?thesis
    proof (cases "added_tokens c = [] \<and> (copied < 0 \<or> accepted < 0 \<or> emitted < 0 \<or> copied \<noteq> 0 \<and> copied < accepted)")
      case True
      then have "lane_step rnd' c (s, st) = (fst (lane_step rnd' c (s, st)), (s, st))"
        by (auto simp: RecordRound lane_step_def record_round_def Let_def)
      then show ?thesis
        using True inv grown_same_lane [OF ok, of "(s, st)"] by (metis same_lane_def)
    next
      case False
      then have good: "0 \<le> copied" "0 \<le> accepted" "0 \<le> emitted" "copied \<noteq> 0 \<longrightarrow> accepted \<le> copied" "added_tokens c = committed"
        by (auto simp: RecordRound split: if_splits)
      let ?p = "lane_policy st"
      have window: "1 \<le> gate_window ?p" using valid by (simp add: valid_copy_policy_def)
      define st' where "st' = (if copied \<noteq> 0
        then st\<lparr>copy_rounds := copy_rounds st + 1, copy_proposed := copy_proposed st + copied,
               copy_accepted := copy_accepted st + accepted,
               copy_window := push_window (gate_window ?p) (copy_window st) (emitted, copy_cost rnd' ?p copied),
               next_width := sized_width ?p (next_width st) copied accepted\<rparr>
        else st\<lparr>head_rounds := head_rounds st + 1, head_proposed := head_proposed st + head_depth,
               head_accepted := head_accepted st + min accepted head_depth,
               head_window := push_window (gate_window ?p) (head_window st) (emitted, head_cost rnd' ?p head_depth)\<rparr>)"
      have step: "lane_step rnd' c (s, st) = observe_tokens committed (s, st')"
        using good by (auto simp: RecordRound lane_step_def record_round_def st'_def Let_def)
      have keeps: "lane_policy st' = ?p" "watermark st' = watermark st" by (simp_all add: st'_def)
      have "1 \<le> next_width st' \<and> int (length (copy_window st')) \<le> gate_window ?p
          \<and> int (length (head_window st')) \<le> gate_window ?p \<and> 0 \<le> copy_accepted st' \<and> copy_accepted st' \<le> copy_proposed st'"
        using inv good sized_width_bounds(1) [OF valid width, of copied accepted] push_window_length [OF window]
        by (auto simp: st'_def lane_inv_def)
      then show ?thesis
        using grown_observe [OF ok keeps, of committed] step good(5) valid
        by (auto simp: lane_inv_def grown_def)
    qed
  next
    case RefuseRound
    have "same_lane (s, st) (snd (refuse_cohort (s, st)))" by (simp add: refuse_cohort_def same_lane_def)
    then show ?thesis
      using RefuseRound inv grown_same_lane [OF ok] same_lane_ok [OF ok]
      by (auto simp: lane_step_def lane_inv_def refuse_cohort_def)
  next
    case (LookupTokens widest)
    obtain tokens s' where look: "lookup_copy widest (s, st) = (Inr tokens, (s', st))" "same_lane (s, st) (s', st)"
      by (rule lookup_copy_same [OF ok])
    then show ?thesis
      using LookupTokens inv grown_same_lane [OF ok look(2)] same_lane_ok [OF ok look(2)]
      by (simp add: lane_step_def lane_inv_def)
  qed
qed

section \<open>Shared stores refine private histories\<close>

text \<open>The abstract machine: every copy of the lane owns its history.\<close>

fun private_step :: "share_call \<Rightarrow> int list \<times> int list list \<Rightarrow> int list \<times> int list list" where
  "private_step (Live c) (h, hs) = (h @ added_tokens c, hs)"
| "private_step SaveBoundary (h, hs) = (h, h # hs)"
| "private_step (RestoreBoundary n) (h, hs) = (if n < length hs then (hs ! n, drop n hs) else (h, hs))"

definition private_histories :: "copy_world \<Rightarrow> int list \<times> int list list" where
  "private_histories w =
     (lane_history (shared_store w, live_lane w), map (\<lambda>st. lane_history (shared_store w, st)) (boundaries w))"

definition share_inv :: "(rat \<Rightarrow> rat) \<Rightarrow> copy_world \<Rightarrow> bool" where
  "share_inv rnd w \<longleftrightarrow> lane_inv rnd (shared_store w, live_lane w)
     \<and> (\<forall>st \<in> set (boundaries w). lane_inv rnd (shared_store w, st) \<and> watermark st \<le> watermark (live_lane w))
     \<and> sorted_wrt (\<lambda>a b. watermark b \<le> watermark a) (boundaries w)"

lemma grown_keeps_older:
  assumes "grown (s, st) (s', st') tokens" "lane_inv rnd (s, old)" "watermark old \<le> watermark st"
  shows "lane_inv rnd (s', old)" "lane_history (s', old) = lane_history (s, old)"
proof -
  have "lane_ok (s', st')" and ngrams: "store_ngram_min s' = store_ngram_min s" "store_ngram_max s' = store_ngram_max s"
    and grew: "watermark st \<le> watermark st'"
    and prefix: "take (watermark st) (store_tokens s') = take (watermark st) (store_tokens s)"
    using assms(1) unfolding grown_def fst_conv snd_conv lane_history_def [of "(s, st)"] by auto
  then have s': "indexed s'" "watermark st' \<le> length (store_tokens s')" by (simp_all add: lane_ok_def Let_def)
  show "lane_inv rnd (s', old)"
    using s' ngrams grew assms(2,3) by (simp add: lane_inv_def lane_ok_def Let_def)
  have "take (watermark old) (take (watermark st) (store_tokens s')) = take (watermark old) (take (watermark st) (store_tokens s))"
    using prefix by simp
  then show "lane_history (s', old) = lane_history (s, old)"
    using assms(3) by (simp add: lane_history_def min_absorb1)
qed

lemma live_step_refines:
  assumes "share_inv rnd w"
  shows "share_inv rnd (snd (share_step rnd' (Live c) w))"
    "private_histories (snd (share_step rnd' (Live c) w)) = private_step (Live c) (private_histories w)"
proof -
  obtain r s' st' where step: "lane_step rnd' c (shared_store w, live_lane w) = (r, (s', st'))"
      and inv: "lane_inv rnd (s', st')" and grows: "grown (shared_store w, live_lane w) (s', st') (added_tokens c)"
    using lane_step_grows [of rnd "shared_store w" "live_lane w" rnd' c] assms by (auto simp: share_inv_def)
  have w': "snd (share_step rnd' (Live c) w) = w\<lparr>shared_store := s', live_lane := st'\<rparr>"
    by (simp add: share_step_def step)
  have "watermark (live_lane w) \<le> watermark st'" using grows by (simp add: grown_def)
  then show "share_inv rnd (snd (share_step rnd' (Live c) w))"
    using assms inv grown_keeps_older(1) [OF grows] unfolding share_inv_def w' by (auto intro: order_trans)
  have "lane_history (s', st') = lane_history (shared_store w, live_lane w) @ added_tokens c"
    using grows by (simp add: grown_def)
  then show "private_histories (snd (share_step rnd' (Live c) w)) = private_step (Live c) (private_histories w)"
    using assms grown_keeps_older(2) [OF grows, of rnd] unfolding private_histories_def w' share_inv_def by simp
qed

lemma share_step_refines:
  assumes "share_inv rnd w"
  shows "share_inv rnd (snd (share_step rnd' c w))
     \<and> private_histories (snd (share_step rnd' c w)) = private_step c (private_histories w)"
proof (cases c)
  case (Live call)
  then show ?thesis using live_step_refines [OF assms] by simp
next
  case SaveBoundary
  then show ?thesis using assms by (auto simp: share_step_def share_inv_def private_histories_def)
next
  case (RestoreBoundary n)
  show ?thesis
  proof (cases "n < length (boundaries w)")
    case True
    have sorted: "sorted_wrt (\<lambda>a b. watermark b \<le> watermark a) (drop n (boundaries w))"
      using assms by (simp add: share_inv_def sorted_wrt_drop)
    moreover have "drop n (boundaries w) = boundaries w ! n # drop (Suc n) (boundaries w)"
      using True by (simp add: Cons_nth_drop_Suc)
    ultimately have "\<forall>st \<in> set (drop n (boundaries w)). watermark st \<le> watermark (boundaries w ! n)" by auto
    moreover have "\<forall>st \<in> set (drop n (boundaries w)). lane_inv rnd (shared_store w, st)"
      using assms by (auto simp: share_inv_def dest: in_set_dropD)
    moreover have "lane_inv rnd (shared_store w, boundaries w ! n)"
      using assms True by (simp add: share_inv_def)
    ultimately show ?thesis
      using RestoreBoundary True sorted
      by (simp add: share_step_def share_inv_def private_histories_def drop_map)
  next
    case False
    then show ?thesis using RestoreBoundary assms by (simp add: share_step_def private_histories_def)
  qed
qed

definition fresh_share :: "(rat \<Rightarrow> rat) \<Rightarrow> copy_world \<Rightarrow> bool" where
  "fresh_share rnd w \<longleftrightarrow> boundaries w = []
     \<and> (\<exists>p prompt. valid_copy_policy rnd p \<and> new_copy_lane p prompt = Inr (shared_store w, live_lane w))"

lemma new_copy_lane_ok:
  assumes "new_copy_lane p prompt = Inr (s, st)" "valid_copy_policy rnd p"
  shows "lane_inv rnd (s, st)" "lane_history (s, st) = prompt" "lane_policy st = p"
proof -
  have p: "1 \<le> ngram_min p" "1 \<le> probe_span p" "1 \<le> gate_window p" "\<forall>i. initial_span p = Some i \<longrightarrow> 1 \<le> i"
    using assms(2) by (auto simp: valid_copy_policy_def)
  define st0 where "st0 = fresh_state p"
  have new: "new_copy_lane p prompt = (case observe_tokens prompt (new_store (nat (ngram_min p)) (nat (ngram_max p)), st0)
        of (Inl e, _) \<Rightarrow> Inl e | (Inr _, l) \<Rightarrow> Inr l)"
    using assms(1) unfolding new_copy_lane_def st0_def by (metis sum.distinct(1))
  have st0: "watermark st0 = 0" "lane_policy st0 = p" "copy_window st0 = []" "head_window st0 = []"
      "copy_accepted st0 = 0" "copy_proposed st0 = 0" "1 \<le> next_width st0"
    using p by (auto simp: st0_def fresh_state_def split: option.splits)
  let ?s = "new_store (nat (ngram_min p)) (nat (ngram_max p))"
  have ok: "lane_ok (?s, st0)"
    using p by (simp add: lane_ok_def Let_def st0 new_exact) (simp add: exact_store_def)
  have "lane_history (?s, st0) = []" by (simp add: lane_history_def st0)
  then obtain l where l: "observe_tokens prompt (?s, st0) = (Inr (), l)" "lane_ok l" "lane_history l = prompt"
      "snd l = st0\<lparr>watermark := watermark st0 + length prompt\<rparr>"
    using grown_observe [OF ok refl refl, of prompt] by (auto simp: grown_def)
  have "lane_inv rnd l" "lane_policy (snd l) = p"
    using l(2) p st0 assms(2) unfolding lane_inv_def l(4) by simp_all
  moreover have "l = (s, st)" using new assms(1) l(1) by simp
  ultimately show "lane_inv rnd (s, st)" "lane_history (s, st) = prompt" "lane_policy st = p"
    using l(3) by simp_all
qed

interpretation copies: stateful_component "fresh_share rnd" "share_step rnd'" "share_inv rnd" for rnd rnd'
proof
  show "share_inv rnd w" if "fresh_share rnd w" for w
    using that new_copy_lane_ok(1) by (auto simp: fresh_share_def share_inv_def)
  show "share_inv rnd (snd (share_step rnd' c w))" if "share_inv rnd w" for c w
    using share_step_refines [OF that] by simp
qed

lemma run_refines:
  "share_inv rnd w \<Longrightarrow> private_histories (run_calls (share_step rnd') cs w) = fold private_step cs (private_histories w)"
  using share_step_refines by (induction cs arbitrary: w) auto

definition one_policy :: "copy_policy \<Rightarrow> copy_world \<Rightarrow> bool" where
  "one_policy p w \<longleftrightarrow> lane_policy (live_lane w) = p \<and> (\<forall>st \<in> set (boundaries w). lane_policy st = p)"

lemma share_step_policy:
  assumes "share_inv rnd w" "one_policy p w"
  shows "one_policy p (snd (share_step rnd' c w))"
proof (cases c)
  case (Live call)
  obtain r s' st' where "lane_step rnd' call (shared_store w, live_lane w) = (r, (s', st'))"
      "grown (shared_store w, live_lane w) (s', st') (added_tokens call)"
    using lane_step_grows [of rnd "shared_store w" "live_lane w" rnd' call] assms(1) by (auto simp: share_inv_def)
  then show ?thesis
    using Live assms(2) by (simp add: share_step_def one_policy_def grown_def)
next
  case SaveBoundary
  then show ?thesis using assms(2) by (simp add: share_step_def one_policy_def)
next
  case (RestoreBoundary n)
  then show ?thesis
    using assms(2) by (auto simp: share_step_def one_policy_def dest: in_set_dropD)
qed

lemma synced_store_exact:
  assumes "lane_ok (s, st)"
  shows "snd (sync_store (s, st)) = (exact_store (nat (ngram_min (lane_policy st))) (nat (ngram_max (lane_policy st)))
      (lane_history (s, st)), st)"
proof -
  let ?s = "truncate_store (watermark st) s"
  have "indexed ?s" "store_tokens ?s = lane_history (s, st)" "store_ngram_min ?s = nat (ngram_min (lane_policy st))"
    "store_ngram_max ?s = nat (ngram_max (lane_policy st))"
    using synced_ok [OF assms] assms by (auto simp: lane_ok_def Let_def)
  then have "?s = exact_store (nat (ngram_min (lane_policy st))) (nat (ngram_max (lane_policy st))) (lane_history (s, st))"
    by (metis indexed_def)
  then show ?thesis by (simp add: sync_store_ok [OF assms])
qed

section \<open>Properties\<close>

definition copy_sample :: copy_policy where
  "copy_sample = (case new_copy_policy (\<lambda>x. x) [(''enabled'', BoolValue True)] of Inr p \<Rightarrow> p | Inl e \<Rightarrow> undefined)"

lemma copy_sample_eq:
  "copy_sample = \<lparr>enabled = True, ngram_min = 3, ngram_max = 6, max_span = 8, batched_max_span = Some 0,
     probe_span = 2, lookback = 8192, min_samples = 3, gate_window = 32, reprobe_interval = 16, min_yield_ratio = 1,
     verify_row_cost = 1 / 10, draft_step_cost = 15 / 100, min_match = 0, strong_match = 0, strong_max_span = 0,
     initial_span = None, verify_row_costs = None\<rparr>"
  by code_simp

lemma copy_sample_ok: "valid_copy_policy (\<lambda>x. x) copy_sample" "enabled copy_sample"
  by (simp_all add: copy_sample_eq valid_copy_policy_def span_ceiling_def MATCH_SCAN_CAP_def)

lemma new_copy_lane_Inr:
  assumes "valid_copy_policy rnd p" "enabled p"
  obtains s st where "new_copy_lane p prompt = Inr (s, st)"
proof -
  have "lane_ok (new_store (nat (ngram_min p)) (nat (ngram_max p)), fresh_state p)"
    using assms(1) by (simp add: lane_ok_def Let_def valid_copy_policy_def new_exact fresh_state_def) (simp add: exact_store_def)
  then show ?thesis
    using that grown_observe [OF _ refl refl, of _ "fresh_state p" prompt] assms(2) by (fastforce simp: new_copy_lane_def)
qed

text \<open>
  C14: However a copy-draft lane observes, plans, records, saves recovery boundaries and
  restores them, every copy of the lane sees exactly the history it would have if it owned its
  store, and after synchronising the shared index is the exact index of that history.
\<close>

theorem shared_store_refines_private_histories:
  assumes "valid_copy_policy rnd p" and "enabled p"
  shows "\<exists>s st. new_copy_lane p prompt = Inr (s, st) \<and>
    (let w = run_calls (share_step rnd') cs \<lparr>shared_store = s, live_lane = st, boundaries = []\<rparr>;
         (h, hs) = fold private_step cs (prompt, [])
     in private_histories w = (h, hs)
        \<and> fst (snd (sync_store (shared_store w, live_lane w))) = exact_store (nat (ngram_min p)) (nat (ngram_max p)) h)"
proof -
  obtain s st where new: "new_copy_lane p prompt = Inr (s, st)" by (rule new_copy_lane_Inr [OF assms])
  define w0 where "w0 = \<lparr>shared_store = s, live_lane = st, boundaries = []\<rparr>"
  define w where "w = run_calls (share_step rnd') cs w0"
  have inv0: "share_inv rnd w0" and start: "private_histories w0 = (prompt, [])"
    using new_copy_lane_ok [OF new assms(1)] by (simp_all add: w0_def share_inv_def private_histories_def)
  have runs: "private_histories w = fold private_step cs (prompt, [])"
    unfolding w_def run_refines [OF inv0] start ..
  have "share_inv rnd w" unfolding w_def by (rule copies.inv_run [OF inv0])
  then have ok: "lane_ok (shared_store w, live_lane w)" by (simp add: share_inv_def lane_inv_def)
  have policy0: "one_policy p w0"
    using new_copy_lane_ok(3) [OF new assms(1)] by (simp add: one_policy_def w0_def)
  have "one_policy p w"
    unfolding w_def by (rule copies.run_keeps [where Q = "one_policy p", OF inv0 policy0]) (rule share_step_policy)
  then have policy: "lane_policy (live_lane w) = p" by (simp add: one_policy_def)
  obtain h hs where run: "fold private_step cs (prompt, []) = (h, hs)" by fastforce
  then have "lane_history (shared_store w, live_lane w) = h" using runs by (simp add: private_histories_def)
  then have "fst (snd (sync_store (shared_store w, live_lane w))) = exact_store (nat (ngram_min p)) (nat (ngram_max p)) h"
    using synced_store_exact [OF ok] policy by simp
  then have "new_copy_lane p prompt = Inr (s, st) \<and>
    (let w = run_calls (share_step rnd') cs \<lparr>shared_store = s, live_lane = st, boundaries = []\<rparr>;
         (h, hs) = fold private_step cs (prompt, [])
     in private_histories w = (h, hs)
        \<and> fst (snd (sync_store (shared_store w, live_lane w))) = exact_store (nat (ngram_min p)) (nat (ngram_max p)) h)"
    using new runs run unfolding w_def w0_def by simp
  then show ?thesis by blast
qed

theorem shared_store_refines_private_histories_witness:
  "\<exists>s st. new_copy_lane copy_sample [1, 2] = Inr (s, st) \<and>
    (let w = run_calls (share_step (\<lambda>x. x)) [SaveBoundary, Live (ObserveTokens [3, 4]), RestoreBoundary 0, Live (ObserveTokens [9])]
               \<lparr>shared_store = s, live_lane = st, boundaries = []\<rparr>
     in private_histories w = ([1, 2, 9], [[1, 2]]))"
  using shared_store_refines_private_histories [OF copy_sample_ok, of "[1, 2]" "\<lambda>x. x"
      "[SaveBoundary, Live (ObserveTokens [3, 4]), RestoreBoundary 0, Live (ObserveTokens [9])]"]
  by (simp add: Let_def) blast

text \<open>
  C15: Planning a round never fails in a reachable lane and leaves its history alone; a proposal
  it makes is copied verbatim from the history behind an earlier occurrence of the live suffix,
  within the cohort cap, the sizer width and the span cap of the match.
\<close>

theorem copied_proposal_is_verbatim:
  assumes "reachable (fresh_share rnd) (share_step rnd') w"
    and "lane_history (shared_store w, live_lane w) = h" and "lane_policy (live_lane w) = p"
  shows "\<exists>tokens choice l. plan_copy rnd' cap (shared_store w, live_lane w) = (Inr (tokens, choice), l)
     \<and> lane_history l = h \<and> (tokens = [] \<longleftrightarrow> choice \<in> {Miss, Declined})
     \<and> (tokens \<noteq> [] \<longrightarrow> copied_span p h (min cap (next_width (live_lane w))) tokens)"
proof -
  have inv: "lane_inv rnd (shared_store w, live_lane w)"
    using copies.inv_reachable [OF assms(1)] by (simp add: share_inv_def)
  then have ok: "lane_ok (shared_store w, live_lane w)" "valid_copy_policy rnd (lane_policy (live_lane w))"
      "1 \<le> next_width (live_lane w)"
    by (simp_all add: lane_inv_def)
  obtain tokens choice s' st' where "plan_copy rnd' cap (shared_store w, live_lane w) = (Inr (tokens, choice), (s', st'))"
      "same_lane (shared_store w, live_lane w) (s', st')" "tokens = [] \<longleftrightarrow> choice \<in> {Miss, Declined}"
      "tokens \<noteq> [] \<Longrightarrow> copied_span p h (min cap (next_width (live_lane w))) tokens"
    using plan_copy_ok [OF ok(1) assms(2) ok(2,3)] assms(3) by metis
  then show ?thesis using same_lane_ok(2) [OF ok(1)] assms(2) by blast
qed

lemma sample_world:
  obtains s st where "new_copy_lane copy_sample prompt = Inr (s, st)"
    "reachable (fresh_share (\<lambda>x. x)) (share_step (\<lambda>x. x)) \<lparr>shared_store = s, live_lane = st, boundaries = []\<rparr>"
    "lane_history (s, st) = prompt" "lane_policy st = copy_sample" "lane_ok (s, st)"
proof -
  obtain s st where new: "new_copy_lane copy_sample prompt = Inr (s, st)"
    by (rule new_copy_lane_Inr [OF copy_sample_ok])
  let ?w = "\<lparr>shared_store = s, live_lane = st, boundaries = []\<rparr>"
  note lane = new_copy_lane_ok [OF new copy_sample_ok(1)]
  have "fresh_share (\<lambda>x. x) ?w"
    unfolding fresh_share_def using copy_sample_ok(1) new by auto
  then have "reachable (fresh_share (\<lambda>x. x)) (share_step (\<lambda>x. x)) ?w" by (rule reachable_init)
  then show ?thesis using that new lane by (simp add: lane_inv_def)
qed

theorem copied_proposal_is_verbatim_witness:
  "\<exists>(w :: copy_world) tokens choice l. plan_copy (\<lambda>x. x) 8 (shared_store w, live_lane w) = (Inr (tokens, choice), l)
     \<and> lane_history l = [1, 2, 3, 7, 1, 2, 3]"
proof -
  obtain s st where w: "reachable (fresh_share (\<lambda>x. x)) (share_step (\<lambda>x. x)) \<lparr>shared_store = s, live_lane = st, boundaries = []\<rparr>"
    "lane_history (s, st) = [1, 2, 3, 7, 1, 2, 3]" "lane_policy st = copy_sample"
    by (rule sample_world)
  then show ?thesis
    using copied_proposal_is_verbatim [OF w(1), of "[1, 2, 3, 7, 1, 2, 3]" copy_sample 8] by fastforce
qed

text \<open>
  Without a match-strength demand the source is the most recent earlier occurrence, within
  the lookback, of the longest indexed suffix that has one, and no source is reported only when
  no suffix has one.
\<close>

theorem copy_source_is_longest_and_latest:
  assumes "reachable (fresh_share rnd) (share_step rnd') w"
    and "lane_history (shared_store w, live_lane w) = h" and "lane_policy (live_lane w) = p" and "min_match p = 0"
  shows "\<exists>l. find_source (shared_store w, live_lane w) =
     (Inr (map_option (\<lambda>gram. (Max (sites h (lookback p) gram) + gram, gram))
             (find (\<lambda>gram. sites h (lookback p) gram \<noteq> {}) (gram_sizes p h))), l)"
proof -
  have ok: "lane_ok (shared_store w, live_lane w)"
    using copies.inv_reachable [OF assms(1)] by (simp add: share_inv_def lane_inv_def)
  have "indexed (truncate_store (watermark (live_lane w)) (shared_store w))"
    "store_tokens (truncate_store (watermark (live_lane w)) (shared_store w)) = h"
    using synced_ok [OF ok] assms(2) by (auto simp: lane_ok_def Let_def)
  from scan_sizes_latest [OF this _ gram_sizes_bounds [OF ok assms(2)], of p] show ?thesis
    using assms(3,4) by (simp add: find_source_eq [OF ok assms(2)])
qed

theorem copy_source_is_longest_and_latest_witness:
  "\<exists>(w :: copy_world) l. find_source (shared_store w, live_lane w) = (Inr (Some (8, 3)), l)
     \<and> lane_history (shared_store w, live_lane w) = [1, 2, 3, 7, 4, 1, 2, 3, 5, 1, 2, 3]"
proof -
  let ?h = "[1, 2, 3, 7, 4, 1, 2, 3, 5, 1, 2, 3] :: int list"
  obtain s st where w: "reachable (fresh_share (\<lambda>x. x)) (share_step (\<lambda>x. x)) \<lparr>shared_store = s, live_lane = st, boundaries = []\<rparr>"
    "lane_history (s, st) = ?h" "lane_policy st = copy_sample"
    by (rule sample_world)
  have "find (\<lambda>gram. sites ?h (lookback copy_sample) gram \<noteq> {}) (gram_sizes copy_sample ?h) = Some 3"
    "Max (sites ?h (lookback copy_sample) 3) = 5"
    unfolding copy_sample_eq by code_simp+
  then show ?thesis
    using copy_source_is_longest_and_latest [OF w(1), of ?h copy_sample] w(2,3)
    by (intro exI [of _ "\<lparr>shared_store = s, live_lane = st, boundaries = []\<rparr>"]) (simp add: copy_sample_eq)
qed

text \<open>
  Verifying a copied proposal emits exactly the draws of the target: the accepted tokens
  and the token after them are the first draws, and acceptance stops at the first draw that
  differs.
\<close>

theorem point_mass_emits_the_draws:
  assumes "verify_point_mass proposal sampled = Inr (n, token)"
  shows "take n proposal @ [token] = take (n + 1) sampled \<and> n \<le> length proposal
     \<and> (n < length proposal \<longrightarrow> token \<noteq> proposal ! n)"
proof -
  have long: "length proposal < length sampled" and n: "n = matched_rows proposal sampled 0" and token: "token = sampled ! n"
    using assms by (auto simp: verify_point_mass_def Let_def split: if_splits)
  obtain k where k: "matched_rows proposal sampled 0 = k" "k \<le> length proposal" "take k proposal = take k sampled"
      "k < length proposal \<longrightarrow> sampled ! k \<noteq> proposal ! k"
    using matched_rows_spec [OF long, of 0] by auto
  then show ?thesis using n token long by (simp add: take_Suc_conv_app_nth)
qed

theorem point_mass_emits_the_draws_witness:
  "verify_point_mass [5, 6, 7] [5, 6, 9, 4] = Inr (2, 9) \<and> take 2 [5, 6, 7] @ [9] = take 3 [5, 6, 9, 4 :: int]"
proof -
  have eval: "verify_point_mass [5, 6, 7] [5, 6, 9, 4] = Inr (2, 9)" by code_simp
  then show ?thesis using point_mass_emits_the_draws [OF eval] by simp
qed

text \<open>
  Two lanes that go on side by side from one copy are outside the contract: the watermark of the
  one cannot tell that the other has cut the store and filled it with its own tokens.
\<close>

lemma diverged_copy_reads_foreign_tokens:
  "\<exists>s st s1 st1 s2 st2 s3. new_copy_lane copy_sample [1, 2] = Inr (s, st)
     \<and> observe_tokens [3] (s, st) = (Inr (), (s1, st1))
     \<and> observe_tokens [8, 9] (s1, st) = (Inr (), (s2, st2))
     \<and> sync_store (s2, st1) = (Inr (), (s3, st1)) \<and> lane_history (s1, st1) = [1, 2, 3]
     \<and> lane_history (s3, st1) = [1, 2, 8]"
proof -
  obtain s st where new: "new_copy_lane copy_sample [1, 2] = Inr (s, st)" "lane_history (s, st) = [1, 2]" "lane_ok (s, st)"
    by (rule sample_world)
  obtain s1 st1 where one: "observe_tokens [3] (s, st) = (Inr (), (s1, st1))" "grown (s, st) (s1, st1) [3]"
    using grown_observe [OF new(3) refl refl, of "[3]"] by auto
  have ok1: "lane_ok (s1, st)"
    using one(2) new(3) by (simp add: grown_def lane_ok_def Let_def)
  have h1: "lane_history (s1, st1) = [1, 2, 3]" "lane_history (s1, st) = [1, 2]"
    using one(2) new(2) by (simp_all add: grown_def lane_history_def [of "(s1, st)"])
  obtain s2 st2 where two: "observe_tokens [8, 9] (s1, st) = (Inr (), (s2, st2))" "grown (s1, st) (s2, st2) [8, 9]"
    using grown_observe [OF ok1 refl refl, of "[8, 9]"] by auto
  have w1: "watermark st1 = 3" using synced_ok(3) [of s1 st1] one(2) h1(1) by (simp add: grown_def)
  have w2: "watermark st2 = 4" "lane_ok (s2, st2)" "lane_history (s2, st2) = [1, 2, 8, 9]"
    using synced_ok(3) [of s2 st2] two(2) h1(2) by (auto simp: grown_def)
  have tokens: "take 4 (store_tokens s2) = [1, 2, 8, 9]" using w2 by (simp add: lane_history_def)
  have ok2: "lane_ok (s2, st1)"
    using w1 w2 one(2) two(2) by (auto simp: grown_def lane_ok_def Let_def)
  have "take 3 (take 4 (store_tokens s2)) = [1, 2, 8]" unfolding tokens by simp
  then have "lane_history (s2, st1) = [1, 2, 8]" by (simp add: lane_history_def w1)
  moreover have "lane_history (truncate_store (watermark st1) s2, st1) = lane_history (s2, st1)"
    using same_lane_ok(2) [OF ok2, of "(truncate_store (watermark st1) s2, st1)"] by (simp add: same_lane_def)
  ultimately show ?thesis
    using new(1) one(1) two(1) h1(1) sync_store_ok [OF ok2] by auto
qed

end
