(* ===== verification/DraftLoop.thy ===== *)
theory DraftLoop
  imports CopyPolicy
begin

text \<open>
  The confidence-gated draft loop of \<open>runtime/draft_loop.py\<close>: the policy with its checks, the stage
  ends and decision points of a lane, and the draft depth every cohort width may reach.

  Configuration values are \<open>loop_value\<close>s.  A \<open>num_draft\<close> is an integer or absent.
\<close>

section \<open>The policy\<close>

datatype loop_value =
    LoopNone
  | LoopBool bool
  | LoopInt int
  | LoopFloat py_float
  | LoopText string
  | LoopList "loop_value list"
  | LoopMap "(loop_value \<times> loop_value) list"
  | LoopOther

record draft_loop =
  threshold :: rat
  stage :: "int option"
  boundaries :: "int list option"
  max_width :: "int option"
  by_width :: "(int \<times> int list) list option"
  cohort :: string

definition COHORT_RULES :: "string list" where "COHORT_RULES = [''lane'', ''any'']"

fun plain_int :: "loop_value \<Rightarrow> int option" where
  "plain_int (LoopInt i) = Some i"
| "plain_int _ = None"

definition plain_ints :: "loop_value list \<Rightarrow> int list option" where
  "plain_ints vs = those (map plain_int vs)"

definition increasing :: "int list \<Rightarrow> bool" where
  "increasing vs \<longleftrightarrow> list_all (\<lambda>(a, b). a < b) (zip vs (tl vs))"

definition valid_boundaries :: "loop_value list \<Rightarrow> int list option" where
  "valid_boundaries vs =
     (if length vs < 2 then None
      else case plain_ints vs of
             None \<Rightarrow> None
           | Some ds \<Rightarrow> if 1 \<le> hd ds \<and> increasing ds then Some ds else None)"

definition check_uniform_stage :: "loop_value \<Rightarrow> exc + int option" where
  "check_uniform_stage v =
     (if v = LoopNone then Inr None
      else case plain_int v of
             Some i \<Rightarrow> if i < 1 then Inl (ValueError ''draft_loop stage must be a positive integer'') else Inr (Some i)
           | None \<Rightarrow> Inl (ValueError ''draft_loop stage must be a positive integer''))"

definition check_boundaries :: "loop_value list option \<Rightarrow> exc + int list option" where
  "check_boundaries v =
     (case v of
        None \<Rightarrow> Inr None
      | Some vs \<Rightarrow> (case valid_boundaries vs of
            None \<Rightarrow> Inl (ValueError ''draft_loop boundaries must be two or more increasing positive depths'')
          | Some ds \<Rightarrow> Inr (Some ds)))"

definition check_by_width :: "(int \<times> loop_value list) list option \<Rightarrow> loop_value \<Rightarrow> exc + (int \<times> int list) list option" where
  "check_by_width v width_cap =
     (case v of
        None \<Rightarrow> Inr None
      | Some items \<Rightarrow>
          let widths = map fst items; ends = those (map (valid_boundaries \<circ> snd) items)
          in if items = [] \<or> list_ex (\<lambda>w. w < 1) widths \<or> \<not> distinct widths \<or> ends = None
             then Inl (ValueError ''draft_loop by_width maps distinct positive widths to boundaries'')
             else if width_cap \<noteq> LoopNone
             then Inl (ValueError ''draft_loop by_width already names its widths; drop max_width'')
             else Inr (Some (zip widths (the ends))))"

definition check_max_width :: "loop_value \<Rightarrow> exc + int option" where
  "check_max_width v =
     (if v = LoopNone then Inr None
      else case plain_int v of
             Some i \<Rightarrow> if i < 1 then Inl (ValueError ''draft_loop max_width must be a positive integer'') else Inr (Some i)
           | None \<Rightarrow> Inl (ValueError ''draft_loop max_width must be a positive integer''))"

definition check_cohort :: "loop_value \<Rightarrow> exc + string" where
  "check_cohort v =
     (case v of
        LoopText rule \<Rightarrow> if rule \<in> set COHORT_RULES then Inr rule else Inl (ValueError ''draft_loop cohort must be one of lane, any'')
      | _ \<Rightarrow> Inl (ValueError ''draft_loop cohort must be one of lane, any''))"

definition check_threshold :: "loop_value \<Rightarrow> exc + rat" where
  "check_threshold v =
     (let bad = Inl (ValueError ''draft_loop threshold must be a finite log-probability <= 0'')
      in case v of
           LoopInt i \<Rightarrow> if 0 < i then bad else Inr (of_int i)
         | LoopFloat (Finite q) \<Rightarrow> if 0 < q then bad else Inr q
         | _ \<Rightarrow> bad)"

definition new_draft_loop :: "loop_value \<Rightarrow> loop_value \<Rightarrow> loop_value list option \<Rightarrow> loop_value
    \<Rightarrow> (int \<times> loop_value list) list option \<Rightarrow> loop_value \<Rightarrow> exc + draft_loop" where
  "new_draft_loop limit_value stage_value ends width_cap widths rule =
     (if length (filter id [stage_value \<noteq> LoopNone, ends \<noteq> None, widths \<noteq> None]) \<noteq> 1
      then Inl (ValueError ''draft_loop needs exactly one of stage, boundaries or by_width'')
      else bind_sum (check_uniform_stage stage_value) (\<lambda>st.
           bind_sum (check_boundaries ends) (\<lambda>bs.
           bind_sum (check_by_width widths width_cap) (\<lambda>ws.
           bind_sum (check_max_width width_cap) (\<lambda>cap.
           bind_sum (check_cohort rule) (\<lambda>r.
           bind_sum (check_threshold limit_value) (\<lambda>t.
             Inr \<lparr>threshold = t, stage = st, boundaries = bs, max_width = cap, by_width = ws, cohort = r\<rparr>)))))))"

section \<open>Reading a configuration\<close>

text \<open>\<open>int\<close> on a string: surrounding white space, a sign, and digits with single underscores between them.\<close>

definition white :: "char \<Rightarrow> bool" where
  "white c \<longleftrightarrow> (of_char c :: int) \<in> {9, 10, 11, 12, 13, 28, 29, 30, 31, 32, 133, 160}"

definition stripped :: "string \<Rightarrow> string" where
  "stripped s = rev (dropWhile white (rev (dropWhile white s)))"

fun digit_groups :: "string \<Rightarrow> string option" where
  "digit_groups [] = None"
| "digit_groups [c] = (if digit_char c then Some [c] else None)"
| "digit_groups (c # d # s) =
     (if \<not> digit_char c then None
      else map_option (\<lambda>ds. c # ds) (if d = CHR ''_'' then digit_groups s else digit_groups (d # s)))"

definition parse_int :: "string \<Rightarrow> int option" where
  "parse_int s =
     (case stripped s of
        [] \<Rightarrow> None
      | c # ds \<Rightarrow>
          if c = CHR ''-'' then map_option (\<lambda>ds. - parse_digits ds) (digit_groups ds)
          else if c = CHR ''+'' then map_option parse_digits (digit_groups ds)
          else map_option parse_digits (digit_groups (c # ds)))"

definition truncate_rat :: "rat \<Rightarrow> int" where
  "truncate_rat q = (if 0 \<le> q then \<lfloor>q\<rfloor> else \<lceil>q\<rceil>)"

definition width_key :: "loop_value \<Rightarrow> exc + int" where
  "width_key k =
     (let bad = Inl (ValueError ''draft_loop by_width keys must be widths'')
      in case k of
           LoopInt i \<Rightarrow> Inr i
         | LoopBool b \<Rightarrow> Inr (if b then 1 else 0)
         | LoopFloat (Finite q) \<Rightarrow> Inr (truncate_rat q)
         | LoopFloat NaN \<Rightarrow> bad
         | LoopFloat _ \<Rightarrow> Inl (OverflowError ''cannot convert float infinity to integer'')
         | LoopText s \<Rightarrow> (case parse_int s of Some i \<Rightarrow> Inr i | None \<Rightarrow> bad)
         | _ \<Rightarrow> bad)"

fun width_items :: "(loop_value \<times> loop_value) list \<Rightarrow> exc + (int \<times> loop_value list) list" where
  "width_items [] = Inr []"
| "width_items ((k, v) # items) =
     bind_sum (width_key k) (\<lambda>w.
     bind_sum (case v of LoopList ends \<Rightarrow> Inr ends
               | _ \<Rightarrow> Inl (ValueError ''draft_loop by_width values must be lists of depths'')) (\<lambda>ends.
     bind_sum (width_items items) (\<lambda>rest. Inr ((w, ends) # rest))))"

definition loop_get :: "(string \<times> loop_value) list \<Rightarrow> string \<Rightarrow> loop_value \<Rightarrow> loop_value" where
  "loop_get m k d = (case map_of m k of Some v \<Rightarrow> v | None \<Rightarrow> d)"

definition check_loop_keys :: "(string \<times> loop_value) list \<Rightarrow> bool" where
  "check_loop_keys m \<longleftrightarrow> set (map fst m) - {''max_width'', ''cohort''}
     \<in> {{''stage'', ''threshold''}, {''boundaries'', ''threshold''}, {''by_width'', ''threshold''}}"

datatype loop_config = NoLoop | LoopPolicy draft_loop | LoopObject "(string \<times> loop_value) list" | LoopUnknown

definition loop_from_value :: "loop_config \<Rightarrow> exc + draft_loop option" where
  "loop_from_value v =
     (let bad = Inl (ValueError ''draft_loop must be {stage, threshold}, {boundaries, threshold} or {by_width, threshold}'')
      in case v of
           NoLoop \<Rightarrow> Inr None
         | LoopPolicy p \<Rightarrow> Inr (Some p)
         | LoopUnknown \<Rightarrow> bad
         | LoopObject m \<Rightarrow>
             if \<not> check_loop_keys m then bad
             else bind_sum (case loop_get m ''threshold'' LoopNone of LoopInt i \<Rightarrow> Inr (LoopFloat (Finite (of_int i)))
                            | LoopFloat x \<Rightarrow> Inr (LoopFloat x)
                            | _ \<Rightarrow> Inl (ValueError ''draft_loop threshold must be a finite log-probability <= 0'')) (\<lambda>t.
                  bind_sum (case loop_get m ''boundaries'' LoopNone of LoopNone \<Rightarrow> Inr None | LoopList vs \<Rightarrow> Inr (Some vs)
                            | _ \<Rightarrow> Inl (ValueError ''draft_loop boundaries must be a list of depths'')) (\<lambda>ends.
                  bind_sum (case loop_get m ''by_width'' LoopNone of LoopNone \<Rightarrow> Inr None
                            | LoopMap items \<Rightarrow> bind_sum (width_items items) (\<lambda>ws. Inr (Some (sort_key fst ws)))
                            | _ \<Rightarrow> Inl (ValueError ''draft_loop by_width must map widths to boundaries'')) (\<lambda>widths.
                  bind_sum (new_draft_loop t (loop_get m ''stage'' LoopNone) ends (loop_get m ''max_width'' LoopNone)
                              widths (loop_get m ''cohort'' (LoopText ''lane''))) (\<lambda>p. Inr (Some p))))))"

section \<open>Topologies, limits and decision points\<close>

definition for_width :: "draft_loop \<Rightarrow> int \<Rightarrow> exc + draft_loop option" where
  "for_width p width =
     (case by_width p of
        Some widths \<Rightarrow>
          (case map_of (rev widths) width of
             None \<Rightarrow> Inr None
           | Some ends \<Rightarrow> bind_sum (new_draft_loop (LoopFloat (Finite (threshold p))) LoopNone (Some (map LoopInt ends)) LoopNone
                              None (LoopText (cohort p))) (\<lambda>q. Inr (Some q)))
      | None \<Rightarrow>
          (case max_width p of
             Some widest \<Rightarrow> if widest < width then Inr None else Inr (Some p)
           | None \<Rightarrow> Inr (Some p)))"

definition loop_limit :: "draft_loop \<Rightarrow> int \<Rightarrow> int" where
  "loop_limit p num_draft =
     (case by_width p of
        Some widths \<Rightarrow> Max (set (num_draft # map (last \<circ> snd) (filter (\<lambda>(_, b). hd b \<le> num_draft) widths)))
      | None \<Rightarrow>
          (case boundaries p of
             Some bs \<Rightarrow> if hd bs \<le> num_draft then max num_draft (last bs) else num_draft
           | None \<Rightarrow> num_draft))"

function py_range :: "int \<Rightarrow> int \<Rightarrow> int \<Rightarrow> int list" where
  "py_range start stop step = (if 0 < step \<and> start < stop then start # py_range (start + step) stop step else [])"
  by auto
termination
  by (relation "measure (\<lambda>(start, stop, step). nat (stop - start))") auto

declare py_range.simps [simp del]

definition check_single :: "draft_loop \<Rightarrow> exc + unit" where
  "check_single p =
     (if by_width p \<noteq> None then Inl (ValueError ''resolve a by_width draft loop with for_width() first'') else Inr ())"

definition stage_ends :: "draft_loop \<Rightarrow> int \<Rightarrow> exc + int list" where
  "stage_ends p limit =
     bind_sum (check_single p) (\<lambda>_.
       Inr ((case boundaries p of
               Some bs \<Rightarrow> filter (\<lambda>b. b < limit) bs
             | None \<Rightarrow> (case stage p of Some n \<Rightarrow> py_range n limit n | None \<Rightarrow> [])) @ [limit]))"

definition loop_applies :: "draft_loop \<Rightarrow> int \<Rightarrow> exc + bool" where
  "loop_applies p num_draft =
     bind_sum (check_single p) (\<lambda>_.
       if (case boundaries p of Some bs \<Rightarrow> num_draft < hd bs | None \<Rightarrow> False) then Inr False
       else bind_sum (stage_ends p (loop_limit p num_draft)) (\<lambda>ends. Inr (1 < length ends)))"

fun index_of :: "int \<Rightarrow> int list \<Rightarrow> nat" where
  "index_of x [] = 0"
| "index_of x (y # ys) = (if x = y then 0 else Suc (index_of x ys))"

definition loop_decision :: "draft_loop \<Rightarrow> int \<Rightarrow> int \<Rightarrow> exc + int option" where
  "loop_decision p depth num_draft =
     bind_sum (stage_ends p num_draft) (\<lambda>ends.
       if depth \<notin> set (butlast ends) then Inr None
       else let i = index_of depth ends in Inr (Some (if i \<noteq> 0 then ends ! (i - 1) else 0)))"

record speculative_config =
  num_draft :: "int option"
  draft_loop_config :: loop_config

definition cohort_draft_depth :: "speculative_config \<Rightarrow> int \<Rightarrow> exc + int" where
  "cohort_draft_depth config lanes =
     (let base = (case num_draft config of Some n \<Rightarrow> n | None \<Rightarrow> 0)
      in bind_sum (loop_from_value (draft_loop_config config)) (\<lambda>found.
           case found of
             None \<Rightarrow> Inr base
           | Some p \<Rightarrow> bind_sum (for_width p lanes) (\<lambda>single.
               case single of None \<Rightarrow> Inr base | Some q \<Rightarrow> Inr (loop_limit q base))))"

definition draft_depth_ceiling :: "speculative_config \<Rightarrow> exc + int" where
  "draft_depth_ceiling config =
     (let base = (case num_draft config of Some n \<Rightarrow> n | None \<Rightarrow> 0)
      in bind_sum (loop_from_value (draft_loop_config config)) (\<lambda>found.
           case found of None \<Rightarrow> Inr base | Some p \<Rightarrow> Inr (loop_limit p base)))"

fun depths_from :: "speculative_config \<Rightarrow> copy_policy option \<Rightarrow> int list \<Rightarrow> exc + (int \<times> int) list" where
  "depths_from config policy [] = Inr []"
| "depths_from config policy (lanes # widths) =
     bind_sum (cohort_draft_depth config lanes) (\<lambda>depth.
       let wide = (case policy of
                     Some p \<Rightarrow> if enabled p then max depth (cohort_copy_cap p lanes (replicate (nat lanes) depth)) else depth
                   | None \<Rightarrow> depth)
       in bind_sum (depths_from config policy widths) (\<lambda>rest. Inr ((lanes, wide) # rest)))"

definition cohort_proposal_depths :: "speculative_config \<Rightarrow> int \<Rightarrow> copy_policy option \<Rightarrow> exc + (int \<times> int) list" where
  "cohort_proposal_depths config max_lanes policy = depths_from config policy [1..max_lanes]"

section \<open>What a constructed policy satisfies\<close>

definition deep_ends :: "int list \<Rightarrow> bool" where
  "deep_ends ds \<longleftrightarrow> 2 \<le> length ds \<and> 1 \<le> hd ds \<and> sorted_wrt (<) ds"

definition valid_draft_loop :: "draft_loop \<Rightarrow> bool" where
  "valid_draft_loop p \<longleftrightarrow>
     (case (stage p, boundaries p, by_width p) of
        (Some n, None, None) \<Rightarrow> 1 \<le> n
      | (None, Some ds, None) \<Rightarrow> deep_ends ds
      | (None, None, Some widths) \<Rightarrow> widths \<noteq> [] \<and> distinct (map fst widths)
          \<and> (\<forall>(w, ds) \<in> set widths. 1 \<le> w \<and> deep_ends ds) \<and> max_width p = None
      | _ \<Rightarrow> False)
     \<and> (case max_width p of None \<Rightarrow> True | Some w \<Rightarrow> 1 \<le> w) \<and> cohort p \<in> set COHORT_RULES \<and> threshold p \<le> 0"

lemma increasing_sorted: "increasing ds \<longleftrightarrow> sorted_wrt (<) ds"
proof (induction ds)
  case Nil
  then show ?case by (simp add: increasing_def)
next
  case (Cons d ds)
  then show ?case by (cases ds) (auto simp: increasing_def intro: less_trans)
qed

lemma plain_int_Some: "plain_int v = Some i \<longleftrightarrow> v = LoopInt i"
  by (cases v) auto

lemma plain_ints_Some: "plain_ints vs = Some ds \<longleftrightarrow> vs = map LoopInt ds"
proof (induction vs arbitrary: ds)
  case Nil
  then show ?case by (auto simp: plain_ints_def)
next
  case (Cons v vs)
  then show ?case by (cases ds) (auto simp: plain_ints_def plain_int_Some split: option.splits)
qed

lemma plain_ints_map [simp]: "plain_ints (map LoopInt ds) = Some ds"
  by (simp add: plain_ints_Some)

lemma valid_boundaries_Some: "valid_boundaries vs = Some ds \<longleftrightarrow> vs = map LoopInt ds \<and> deep_ends ds"
proof
  assume "valid_boundaries vs = Some ds"
  then show "vs = map LoopInt ds \<and> deep_ends ds"
    by (auto simp: valid_boundaries_def deep_ends_def increasing_sorted plain_ints_Some split: if_splits option.splits)
next
  assume "vs = map LoopInt ds \<and> deep_ends ds"
  then show "valid_boundaries vs = Some ds"
    by (auto simp: valid_boundaries_def deep_ends_def increasing_sorted)
qed

lemma check_uniform_stage_Inr:
  "check_uniform_stage v = Inr r \<longleftrightarrow> (case r of None \<Rightarrow> v = LoopNone | Some i \<Rightarrow> v = LoopInt i \<and> 1 \<le> i)"
  by (cases v; cases r) (auto simp: check_uniform_stage_def)

lemma check_max_width_Inr:
  "check_max_width v = Inr r \<longleftrightarrow> (case r of None \<Rightarrow> v = LoopNone | Some i \<Rightarrow> v = LoopInt i \<and> 1 \<le> i)"
  by (cases v; cases r) (auto simp: check_max_width_def)

lemma check_boundaries_Inr:
  "check_boundaries v = Inr r \<longleftrightarrow> (case r of None \<Rightarrow> v = None | Some ds \<Rightarrow> v = Some (map LoopInt ds) \<and> deep_ends ds)"
proof (cases v)
  case None
  then show ?thesis by (auto simp: check_boundaries_def split: option.splits)
next
  case (Some vs)
  have "check_boundaries v = Inr r \<longleftrightarrow> (\<exists>ds. r = Some ds \<and> valid_boundaries vs = Some ds)"
    unfolding check_boundaries_def Some by (auto split: option.splits)
  then show ?thesis unfolding valid_boundaries_Some Some by (auto split: option.splits)
qed

lemma those_map_Some: "those (map f xs) = Some ys \<Longrightarrow> length ys = length xs \<and> (\<forall>i < length xs. f (xs ! i) = Some (ys ! i))"
proof (induction xs arbitrary: ys)
  case Nil
  then show ?case by simp
next
  case (Cons x xs)
  then obtain y zs where "f x = Some y" "those (map f xs) = Some zs" "ys = y # zs" by (auto split: option.splits)
  then show ?case using Cons.IH [of zs] by (auto simp: less_Suc_eq_0_disj)
qed

lemma check_by_width_Inr:
  assumes "check_by_width v cap = Inr r"
  shows "case r of None \<Rightarrow> v = None
     | Some widths \<Rightarrow> v \<noteq> None \<and> cap = LoopNone \<and> widths \<noteq> [] \<and> distinct (map fst widths) \<and> (\<forall>(w, ds) \<in> set widths. 1 \<le> w \<and> deep_ends ds)"
proof (cases v)
  case None
  then show ?thesis using assms by (simp add: check_by_width_def)
next
  case (Some items)
  then obtain ends where ok: "items \<noteq> []" "\<not> list_ex (\<lambda>w. w < 1) (map fst items)" "distinct (map fst items)"
      "those (map (valid_boundaries \<circ> snd) items) = Some ends" "cap = LoopNone" "r = Some (zip (map fst items) ends)"
    using assms by (auto simp: check_by_width_def Let_def split: if_splits)
  have ends: "length ends = length items" "\<And>i. i < length items \<Longrightarrow> valid_boundaries (snd (items ! i)) = Some (ends ! i)"
    using those_map_Some [OF ok(4)] by auto
  have "1 \<le> w \<and> deep_ends ds" if pair: "(w, ds) \<in> set (zip (map fst items) ends)" for w ds
  proof -
    obtain i where "i < length (zip (map fst items) ends)" "zip (map fst items) ends ! i = (w, ds)"
      using pair unfolding in_set_conv_nth by blast
    then have i: "i < length items" "w = fst (items ! i)" "ds = ends ! i" using ends(1) by simp_all
    have "1 \<le> w" using ok(2) i(1,2) by (auto simp: list_ex_iff not_less)
    then show ?thesis using ends(2) [OF i(1)] i(3) by (simp add: valid_boundaries_Some)
  qed
  then show ?thesis using ok ends(1) Some by auto
qed

lemma check_cohort_Inr: "check_cohort v = Inr r \<longleftrightarrow> v = LoopText r \<and> r \<in> set COHORT_RULES"
  by (cases v) (auto simp: check_cohort_def)

lemma check_threshold_Inr: "check_threshold v = Inr t \<Longrightarrow> t \<le> 0"
  by (auto simp: check_threshold_def Let_def split: loop_value.splits py_float.splits if_splits)

lemma new_draft_loop_valid:
  assumes "new_draft_loop t st bs cap ws rule = Inr p"
  shows "valid_draft_loop p"
proof -
  have one: "length (filter id [st \<noteq> LoopNone, bs \<noteq> None, ws \<noteq> None]) = 1"
    using assms by (auto simp: new_draft_loop_def split: if_splits)
  have ok: "check_uniform_stage st = Inr (stage p)" "check_boundaries bs = Inr (boundaries p)" "check_by_width ws cap = Inr (by_width p)"
      "check_max_width cap = Inr (max_width p)" "check_cohort rule = Inr (cohort p)" "check_threshold t = Inr (threshold p)"
    using assms by (auto simp: new_draft_loop_def split: if_splits)
  note facts = ok(1) [unfolded check_uniform_stage_Inr] ok(2) [unfolded check_boundaries_Inr] check_by_width_Inr [OF ok(3)]
    ok(4) [unfolded check_max_width_Inr] ok(5) [unfolded check_cohort_Inr] check_threshold_Inr [OF ok(6)]
  show ?thesis
    using one facts unfolding valid_draft_loop_def
    by (cases "stage p"; cases "boundaries p"; cases "by_width p") (auto split: if_splits option.splits)
qed

lemma loop_from_value_valid:
  assumes "loop_from_value v = Inr (Some p)" "\<And>q. v = LoopPolicy q \<Longrightarrow> valid_draft_loop q"
  shows "valid_draft_loop p"
  using assms
  by (cases v) (auto simp: loop_from_value_def Let_def split: if_splits dest: new_draft_loop_valid)

lemma single_loop:
  assumes "deep_ends ds" "t \<le> 0" "r \<in> set COHORT_RULES"
  shows "new_draft_loop (LoopFloat (Finite t)) LoopNone (Some (map LoopInt ds)) LoopNone None (LoopText r) =
     Inr \<lparr>threshold = t, stage = None, boundaries = Some ds, max_width = None, by_width = None, cohort = r\<rparr>"
proof -
  have "check_boundaries (Some (map LoopInt ds)) = Inr (Some ds)"
    using assms(1) by (simp add: check_boundaries_Inr)
  then show ?thesis
    using assms(2,3) by (simp add: new_draft_loop_def check_uniform_stage_def check_by_width_def check_max_width_def
        check_cohort_def check_threshold_def)
qed

lemma valid_by_width:
  assumes "valid_draft_loop p" "by_width p = Some widths"
  shows "distinct (map fst widths)" "\<And>w ds. (w, ds) \<in> set widths \<Longrightarrow> deep_ends ds"
    "threshold p \<le> 0" "cohort p \<in> set COHORT_RULES"
  using assms by (auto simp: valid_draft_loop_def split: option.splits)

section \<open>Stages\<close>

lemma py_range_spec:
  assumes "0 < step"
  shows "sorted_wrt (<) (py_range start stop step) \<and> set (py_range start stop step) \<subseteq> {start..<stop}
     \<and> (\<forall>x \<in> set (py_range start stop step). step dvd x - start)"
  using assms
proof (induction start stop step rule: py_range.induct)
  case (1 start stop step)
  show ?case
  proof (cases "start < stop")
    case True
    then show ?thesis
      using "1.IH" "1.prems" by (subst (1 2 3) py_range.simps) (fastforce simp: algebra_simps dest: dvd_add [of step _ step])
  next
    case False
    then show ?thesis by (subst (1 2 3) py_range.simps) simp
  qed
qed

lemma last_ge: "sorted_wrt (<) ds \<Longrightarrow> d \<in> set ds \<Longrightarrow> d \<le> (last ds :: int)"
  by (induction ds) (auto simp: less_imp_le)

lemma loop_limit_ge: "num \<le> loop_limit p num"
  by (auto simp: loop_limit_def split: option.splits)

lemma for_width_limit:
  assumes "valid_draft_loop p" "for_width p w = Inr (Some q)"
  shows "loop_limit q num \<le> loop_limit p num"
proof (cases "by_width p")
  case None
  then have "q = p" using assms(2) by (auto simp: for_width_def split: option.splits if_splits)
  then show ?thesis by simp
next
  case (Some widths)
  obtain ds where ds: "map_of (rev widths) w = Some ds"
    using assms(2) Some by (auto simp: for_width_def split: option.splits)
  then have member: "(w, ds) \<in> set widths" by (auto dest: map_of_SomeD)
  have "q = \<lparr>threshold = threshold p, stage = None, boundaries = Some ds, max_width = None, by_width = None, cohort = cohort p\<rparr>"
    using assms(2) Some ds single_loop valid_by_width [OF assms(1) Some] member by (simp add: for_width_def)
  then have q: "by_width q = None" "boundaries q = Some ds" by simp_all
  have reach: "last ds \<le> Max (set (num # map (last \<circ> snd) (filter (\<lambda>(_, b). hd b \<le> num) widths)))" if "hd ds \<le> num"
    using that member by (intro Max_ge) (auto simp: image_iff intro!: bexI [of _ "(w, ds)"])
  have "num \<le> Max (set (num # map (last \<circ> snd) (filter (\<lambda>(_, b). hd b \<le> num) widths)))"
    by (intro Max_ge) auto
  then show ?thesis using q Some reach by (auto simp: loop_limit_def)
qed

lemma for_width_total:
  assumes "valid_draft_loop p"
  shows "\<exists>r. for_width p w = Inr r \<and> (\<forall>q. r = Some q \<longrightarrow> valid_draft_loop q \<and> by_width q = None
     \<and> threshold q = threshold p \<and> cohort q = cohort p)"
proof (cases "by_width p")
  case None
  then show ?thesis using assms by (auto simp: for_width_def split: option.splits)
next
  case (Some widths)
  show ?thesis
  proof (cases "map_of (rev widths) w")
    case None
    then show ?thesis using Some by (simp add: for_width_def)
  next
    fix ds
    assume ds: "map_of (rev widths) w = Some ds"
    then have "deep_ends ds" using valid_by_width(2) [OF assms Some] by (auto dest: map_of_SomeD)
    then have new: "new_draft_loop (LoopFloat (Finite (threshold p))) LoopNone (Some (map LoopInt ds)) LoopNone None (LoopText (cohort p)) =
       Inr \<lparr>threshold = threshold p, stage = None, boundaries = Some ds, max_width = None, by_width = None, cohort = cohort p\<rparr>"
      using valid_by_width(3,4) [OF assms Some] by (rule single_loop)
    then show ?thesis
      using Some ds new_draft_loop_valid [OF new] by (simp add: for_width_def)
  qed
qed

lemma index_of_nth: "distinct xs \<Longrightarrow> i < length xs \<Longrightarrow> index_of (xs ! i) xs = i"
  by (induction xs arbitrary: i) (auto simp: nth_Cons split: nat.splits)

text \<open>The ends of a lane: increasing decision points below the limit, then the limit.\<close>

lemma stage_ends_shape:
  assumes "valid_draft_loop p" "by_width p = None"
  obtains bs where "stage_ends p limit = Inr (bs @ [limit])" "sorted_wrt (<) bs" "\<forall>b \<in> set bs. 1 \<le> b \<and> b < limit"
proof (cases "boundaries p")
  case None
  then obtain n where n: "stage p = Some n" "1 \<le> n"
    using assms by (auto simp: valid_draft_loop_def split: option.splits)
  have ends: "stage_ends p limit = Inr (py_range n limit n @ [limit])"
    using n None assms(2) by (simp add: stage_ends_def check_single_def)
  have range: "sorted_wrt (<) (py_range n limit n)" "set (py_range n limit n) \<subseteq> {n..<limit}"
    using py_range_spec [of n n limit] n(2) by auto
  have "\<forall>b \<in> set (py_range n limit n). 1 \<le> b \<and> b < limit"
    using range(2) n(2) by (auto dest!: subsetD)
  then show ?thesis by (rule that [OF ends range(1)])
next
  case (Some ds)
  then have ds: "deep_ends ds" using assms by (auto simp: valid_draft_loop_def split: option.splits)
  then have "\<forall>b \<in> set ds. 1 \<le> b" by (cases ds) (auto simp: deep_ends_def)
  then have "\<forall>b \<in> set (filter (\<lambda>b. b < limit) ds). 1 \<le> b \<and> b < limit" by simp
  moreover have "stage_ends p limit = Inr (filter (\<lambda>b. b < limit) ds @ [limit])"
    using Some assms(2) by (simp add: stage_ends_def check_single_def)
  moreover have "sorted_wrt (<) (filter (\<lambda>b. b < limit) ds)"
    using ds by (simp add: deep_ends_def sorted_wrt_filter)
  ultimately show ?thesis by (intro that)
qed

lemma loop_decision_nth:
  assumes "stage_ends p limit = Inr (bs @ [limit])" "sorted_wrt (<) bs" "\<forall>b \<in> set bs. 1 \<le> b \<and> b < limit"
  shows "depth \<notin> set bs \<Longrightarrow> loop_decision p depth limit = Inr None"
    "i < length bs \<Longrightarrow> loop_decision p (bs ! i) limit = Inr (Some (if i \<noteq> 0 then bs ! (i - 1) else 0))"
proof -
  show "loop_decision p depth limit = Inr None" if "depth \<notin> set bs"
    using that assms(1) by (simp add: loop_decision_def)
  have "distinct (bs @ [limit])" using assms(2,3) by (auto simp: strict_sorted_iff)
  then show "loop_decision p (bs ! i) limit = Inr (Some (if i \<noteq> 0 then bs ! (i - 1) else 0))" if "i < length bs"
    using that assms(1) index_of_nth [of "bs @ [limit]" i] by (auto simp: loop_decision_def Let_def nth_append)
qed

lemma for_width_choice:
  assumes valid: "valid_draft_loop p" and r: "for_width p width = Inr r"
  shows "r = None \<longleftrightarrow> (case by_width p of Some widths \<Rightarrow> width \<notin> fst ` set widths
        | None \<Rightarrow> \<exists>widest. max_width p = Some widest \<and> widest < width)"
    and "r = Some q \<Longrightarrow> case by_width p of
        Some widths \<Rightarrow> stage q = None \<and> max_width q = None \<and> (\<exists>ds. boundaries q = Some ds \<and> (width, ds) \<in> set widths)
      | None \<Rightarrow> q = p"
proof -
  have "(r = None \<longleftrightarrow> (case by_width p of Some widths \<Rightarrow> width \<notin> fst ` set widths
        | None \<Rightarrow> \<exists>widest. max_width p = Some widest \<and> widest < width))
     \<and> (\<forall>q. r = Some q \<longrightarrow> (case by_width p of
        Some widths \<Rightarrow> stage q = None \<and> max_width q = None \<and> (\<exists>ds. boundaries q = Some ds \<and> (width, ds) \<in> set widths)
      | None \<Rightarrow> q = p))"
  proof (cases "by_width p")
    case None
    then show ?thesis using r by (auto simp: for_width_def split: option.splits if_splits)
  next
    case (Some widths)
    have missing: "map_of (rev widths) width = None \<longleftrightarrow> width \<notin> fst ` set widths" by (simp add: map_of_eq_None_iff)
    show ?thesis
    proof (cases "map_of (rev widths) width")
      case None
      then show ?thesis using r Some missing by (simp add: for_width_def)
    next
      fix ds
      assume ds: "map_of (rev widths) width = Some ds"
      then have member: "(width, ds) \<in> set widths" by (auto dest: map_of_SomeD)
      have "r = Some \<lparr>threshold = threshold p, stage = None, boundaries = Some ds, max_width = None, by_width = None, cohort = cohort p\<rparr>"
        using r Some ds single_loop valid_by_width [OF valid Some] member by (simp add: for_width_def)
      then show ?thesis using Some ds missing member by auto
    qed
  qed
  then show "r = None \<longleftrightarrow> (case by_width p of Some widths \<Rightarrow> width \<notin> fst ` set widths
        | None \<Rightarrow> \<exists>widest. max_width p = Some widest \<and> widest < width)"
    "r = Some q \<Longrightarrow> case by_width p of
        Some widths \<Rightarrow> stage q = None \<and> max_width q = None \<and> (\<exists>ds. boundaries q = Some ds \<and> (width, ds) \<in> set widths)
      | None \<Rightarrow> q = p" by blast+
qed

lemma loop_total:
  assumes "valid_draft_loop q" "by_width q = None"
  shows "\<exists>d. loop_decision q depth limit = Inr d"
proof -
  obtain bs where "stage_ends q limit = Inr (bs @ [limit])" using stage_ends_shape [OF assms] by blast
  then show ?thesis by (simp add: loop_decision_def Let_def)
qed

text \<open>A gate applies exactly when the lane has a decision to make.\<close>

lemma loop_applies_iff:
  assumes "valid_draft_loop q" "by_width q = None"
  shows "\<exists>ends b. stage_ends q limit = Inr ends \<and> last ends = limit \<and> loop_applies q n = Inr b
     \<and> (b \<longleftrightarrow> (\<exists>depth start. loop_decision q depth (loop_limit q n) = Inr (Some start)))"
proof -
  obtain bs where bs: "stage_ends q (loop_limit q n) = Inr (bs @ [loop_limit q n])" "sorted_wrt (<) bs" "\<forall>b \<in> set bs. 1 \<le> b \<and> b < loop_limit q n"
    using stage_ends_shape [OF assms] by blast
  obtain cs where cs: "stage_ends q limit = Inr (cs @ [limit])" using stage_ends_shape [OF assms] by blast
  have none: "bs = []" if ds: "boundaries q = Some ds" "n < hd ds" for ds
  proof -
    have "deep_ends ds" using assms ds(1) by (auto simp: valid_draft_loop_def split: option.splits)
    then have "\<forall>d \<in> set ds. hd ds \<le> d" by (cases ds) (auto simp: deep_ends_def less_imp_le)
    moreover have "stage_ends q (loop_limit q n) = Inr (filter (\<lambda>b. b < n) ds @ [n])"
      using ds assms(2) by (simp add: stage_ends_def check_single_def loop_limit_def)
    ultimately show ?thesis using bs(1) ds(2) by (auto simp: filter_empty_conv)
  qed
  have "loop_applies q n = Inr (bs \<noteq> [])"
    using bs(1) none assms(2) by (cases bs) (auto simp: loop_applies_def check_single_def split: option.splits)
  moreover have "bs \<noteq> [] \<longleftrightarrow> (\<exists>depth start. loop_decision q depth (loop_limit q n) = Inr (Some start))"
  proof
    assume "bs \<noteq> []"
    then show "\<exists>depth start. loop_decision q depth (loop_limit q n) = Inr (Some start)"
      using loop_decision_nth(2) [OF bs, of 0] by auto
  next
    assume "\<exists>depth start. loop_decision q depth (loop_limit q n) = Inr (Some start)"
    then show "bs \<noteq> []" using loop_decision_nth(1) [OF bs] by fastforce
  qed
  ultimately show ?thesis using cs by auto
qed

lemma cohort_depth_bounds:
  assumes "draft_depth_ceiling config = Inr deepest"
    and "\<And>p. draft_loop_config config = LoopPolicy p \<Longrightarrow> valid_draft_loop p"
  shows "\<exists>d. cohort_draft_depth config lanes = Inr d
     \<and> (case num_draft config of Some n \<Rightarrow> n | None \<Rightarrow> 0) \<le> d \<and> d \<le> deepest"
proof -
  obtain found where found: "loop_from_value (draft_loop_config config) = Inr found"
    using assms(1) by (auto simp: draft_depth_ceiling_def Let_def)
  show ?thesis
  proof (cases found)
    case None
    then show ?thesis using found assms(1) by (simp add: draft_depth_ceiling_def cohort_draft_depth_def Let_def)
  next
    case (Some p)
    have valid: "valid_draft_loop p"
      by (rule loop_from_value_valid [OF found [unfolded Some]]) (rule assms(2))
    obtain r where r: "for_width p lanes = Inr r" using for_width_total [OF valid] by blast
    show ?thesis
      using found Some r assms(1) loop_limit_ge [of "case num_draft config of Some n \<Rightarrow> n | None \<Rightarrow> 0"]
        for_width_limit [OF valid, of lanes]
      by (cases r) (auto simp: draft_depth_ceiling_def cohort_draft_depth_def Let_def)
  qed
qed

lemma cohort_copy_cap_ceiling: "cohort_copy_cap p lanes depths \<le> span_ceiling p"
  by (auto simp: cohort_copy_cap_def span_ceiling_def split: option.splits)

definition widest_copy :: "copy_policy option \<Rightarrow> int" where
  "widest_copy policy = (case policy of Some p \<Rightarrow> if enabled p then span_ceiling p else 0 | None \<Rightarrow> 0)"

lemma depths_from_bounds:
  assumes "draft_depth_ceiling config = Inr deepest"
    and "\<And>p. draft_loop_config config = LoopPolicy p \<Longrightarrow> valid_draft_loop p"
  shows "\<exists>ds. depths_from config policy widths = Inr ds \<and> map fst ds = widths
     \<and> (\<forall>(w, d) \<in> set ds. (case num_draft config of Some n \<Rightarrow> n | None \<Rightarrow> 0) \<le> d \<and> d \<le> max deepest (widest_copy policy))"
proof (induction widths)
  case Nil
  then show ?case by simp
next
  case (Cons w widths)
  obtain ds where ds: "depths_from config policy widths = Inr ds" "map fst ds = widths"
    "\<forall>(w, d) \<in> set ds. (case num_draft config of Some n \<Rightarrow> n | None \<Rightarrow> 0) \<le> d \<and> d \<le> max deepest (widest_copy policy)"
    using Cons.IH by auto
  obtain d where "cohort_draft_depth config w = Inr d" "(case num_draft config of Some n \<Rightarrow> n | None \<Rightarrow> 0) \<le> d" "d \<le> deepest"
    using cohort_depth_bounds [OF assms] by blast
  then show ?case
    using ds cohort_copy_cap_ceiling [of "the policy" w "replicate (nat w) d"]
    by (auto simp: Let_def widest_copy_def split: option.splits)
qed

section \<open>Properties\<close>

text \<open>
  C29: A constructed draft-loop policy resolves at every cohort width without raising, to fixed
  depth or to a valid policy with a single topology and the same threshold and cohort rule, on
  which every single-topology method is defined.
\<close>

theorem draft_loop_resolves_to_one_topology:
  assumes "new_draft_loop t st bs cap ws rule = Inr p"
  shows "\<exists>r. for_width p width = Inr r
     \<and> (r = None \<longleftrightarrow> (case by_width p of
          Some widths \<Rightarrow> width \<notin> fst ` set widths
        | None \<Rightarrow> \<exists>widest. max_width p = Some widest \<and> widest < width))
     \<and> (\<forall>q. r = Some q \<longrightarrow> valid_draft_loop q \<and> by_width q = None \<and> threshold q = threshold p \<and> cohort q = cohort p
          \<and> (case by_width p of
               Some widths \<Rightarrow> stage q = None \<and> max_width q = None \<and> (\<exists>ds. boundaries q = Some ds \<and> (width, ds) \<in> set widths)
             | None \<Rightarrow> q = p)
          \<and> n \<le> loop_limit q n
          \<and> (\<exists>ends b. stage_ends q limit = Inr ends \<and> last ends = limit \<and> loop_applies q n = Inr b
               \<and> (b \<longleftrightarrow> (\<exists>depth start. loop_decision q depth (loop_limit q n) = Inr (Some start))))
          \<and> (\<exists>d. loop_decision q depth limit = Inr d))"
proof -
  have valid: "valid_draft_loop p" by (rule new_draft_loop_valid [OF assms])
  obtain r where r: "for_width p width = Inr r" and q: "\<And>q. r = Some q \<Longrightarrow> valid_draft_loop q \<and> by_width q = None
     \<and> threshold q = threshold p \<and> cohort q = cohort p"
    using for_width_total [OF valid, of width] by blast
  show ?thesis
  proof (intro exI [of _ r] conjI allI impI)
    show "for_width p width = Inr r" by (rule r)
    show "(r = None) = (case by_width p of Some widths \<Rightarrow> width \<notin> fst ` set widths
        | None \<Rightarrow> \<exists>widest. max_width p = Some widest \<and> widest < width)"
      by (rule for_width_choice(1) [OF valid r])
    fix s assume s: "r = Some s"
    note ok = q [OF s]
    show "valid_draft_loop s" "by_width s = None" "threshold s = threshold p" "cohort s = cohort p" using ok by simp_all
    show "case by_width p of
        Some widths \<Rightarrow> stage s = None \<and> max_width s = None \<and> (\<exists>ds. boundaries s = Some ds \<and> (width, ds) \<in> set widths)
      | None \<Rightarrow> s = p" by (rule for_width_choice(2) [OF valid r s])
    show "n \<le> loop_limit s n" by (rule loop_limit_ge)
    show "\<exists>ends b. stage_ends s limit = Inr ends \<and> last ends = limit \<and> loop_applies s n = Inr b
        \<and> (b = (\<exists>depth start. loop_decision s depth (loop_limit s n) = Inr (Some start)))"
      using ok by (intro loop_applies_iff) simp_all
    show "\<exists>d. loop_decision s depth limit = Inr d" using ok by (intro loop_total) simp_all
  qed
qed

theorem draft_loop_resolves_to_one_topology_witness:
  "\<exists>p q. new_draft_loop (LoopFloat (Finite (- 1))) LoopNone None LoopNone
      (Some [(1, [LoopInt 3, LoopInt 9]), (2, [LoopInt 3, LoopInt 7])]) (LoopText ''any'') = Inr p
     \<and> for_width p 2 = Inr (Some q) \<and> boundaries q = Some [3, 7]"
proof -
  obtain p where p: "new_draft_loop (LoopFloat (Finite (- 1))) LoopNone None LoopNone
      (Some [(1, [LoopInt 3, LoopInt 9]), (2, [LoopInt 3, LoopInt 7])]) (LoopText ''any'') = Inr p"
    and w: "by_width p = Some [(1, [3, 9]), (2, [3, 7])]"
    by (simp add: new_draft_loop_def check_uniform_stage_def check_boundaries_def check_by_width_def valid_boundaries_def
        plain_ints_def increasing_def check_max_width_def check_cohort_def check_threshold_def COHORT_RULES_def)
  have "\<exists>q. for_width p 2 = Inr (Some q)"
    using p w by (auto simp: for_width_def new_draft_loop_def check_uniform_stage_def check_boundaries_def check_by_width_def valid_boundaries_def
        plain_ints_def increasing_def check_max_width_def check_cohort_def check_threshold_def COHORT_RULES_def)
  then obtain q where q: "for_width p 2 = Inr (Some q)" ..
  have "boundaries q = Some [3, 7]"
    using draft_loop_resolves_to_one_topology [OF p, of 2 3 9 3] unfolding w q by auto
  then show ?thesis using p q by blast
qed

text \<open>
  At a decision point the scored stage starts at zero or at the previous decision point and
  no decision point lies strictly inside it, so the stages cut the drafted tokens without gap or
  overlap.
\<close>

theorem draft_stages_tile_the_draft:
  assumes "valid_draft_loop p" and "by_width p = None" and "loop_decision p depth limit = Inr (Some start)"
  shows "0 \<le> start \<and> start < depth \<and> depth < limit
     \<and> (start = 0 \<or> (\<exists>before. loop_decision p start limit = Inr (Some before)))
     \<and> (\<forall>d. start < d \<and> d < depth \<longrightarrow> loop_decision p d limit = Inr None)"
proof -
  obtain bs where bs: "stage_ends p limit = Inr (bs @ [limit])" "sorted_wrt (<) bs" "\<forall>b \<in> set bs. 1 \<le> b \<and> b < limit"
    by (rule stage_ends_shape [OF assms(1,2)])
  have "depth \<in> set bs"
    using assms(3) loop_decision_nth(1) [OF bs] by fastforce
  then obtain i where i: "i < length bs" "depth = bs ! i" by (auto simp: in_set_conv_nth)
  have start: "start = (if i \<noteq> 0 then bs ! (i - 1) else 0)"
    using assms(3) loop_decision_nth(2) [OF bs i(1)] i(2) by simp
  have less: "bs ! j < bs ! k" if "j < k" "k < length bs" for j k
    using bs(2) that by (simp add: sorted_wrt_iff_nth_less)
  have range: "1 \<le> bs ! k" "bs ! k < limit" if "k < length bs" for k using bs(3) that by auto
  have gap: "loop_decision p d limit = Inr None" if "start < d" "d < depth" for d
  proof (rule loop_decision_nth(1) [OF bs])
    show "d \<notin> set bs"
    proof
      assume "d \<in> set bs"
      then obtain j where j: "j < length bs" "d = bs ! j" by (auto simp: in_set_conv_nth)
      then have "j < i" using that(2) i less [of i j] by (metis less_asym linorder_neqE_nat)
      then have before: "j \<le> i - 1 \<and> i \<noteq> 0" by simp
      have "i - 1 < length bs" using i(1) by simp
      then have "bs ! j \<le> bs ! (i - 1)" using less [of j "i - 1"] before by (cases "j = i - 1") auto
      then show False using that(1) start j(2) before by simp
    qed
  qed
  show ?thesis
  proof (cases i)
    case 0
    then show ?thesis using start i range [of 0] gap by simp
  next
    case (Suc k)
    have "loop_decision p (bs ! k) limit = Inr (Some (if k \<noteq> 0 then bs ! (k - 1) else 0))"
      using loop_decision_nth(2) [OF bs, of k] Suc i(1) by simp
    then show ?thesis
      using Suc start i range [of k] range [of i] less [of k i] gap by auto
  qed
qed

theorem draft_stages_tile_the_draft_witness:
  "loop_decision \<lparr>threshold = - 1, stage = None, boundaries = Some [3, 7], max_width = None, by_width = None, cohort = ''lane''\<rparr> 7 9
     = Inr (Some 3)
   \<and> loop_decision \<lparr>threshold = - 1, stage = None, boundaries = Some [3, 7], max_width = None, by_width = None, cohort = ''lane''\<rparr> 5 9
     = Inr None"
proof -
  let ?p = "\<lparr>threshold = - 1, stage = None, boundaries = Some [3, 7], max_width = None, by_width = None, cohort = ''lane''\<rparr>"
  have p: "valid_draft_loop ?p" "by_width ?p = None"
    by (simp_all add: valid_draft_loop_def deep_ends_def COHORT_RULES_def)
  have d: "loop_decision ?p 7 9 = Inr (Some 3)" by code_simp
  show ?thesis using d draft_stages_tile_the_draft [OF p d] by simp
qed

text \<open>
  The proposal depth is computed for every cohort width whenever the ceiling is, is never
  below the configured depth and never above the larger of the ceiling and the widest copy.
\<close>

theorem proposal_depths_respect_the_ceiling:
  assumes "draft_depth_ceiling config = Inr deepest"
    and "\<And>p. draft_loop_config config = LoopPolicy p \<Longrightarrow> valid_draft_loop p"
  shows "\<exists>ds. cohort_proposal_depths config max_lanes policy = Inr ds \<and> map fst ds = [1..max_lanes]
     \<and> (\<forall>(w, d) \<in> set ds. (case num_draft config of Some n \<Rightarrow> n | None \<Rightarrow> 0) \<le> d
          \<and> d \<le> max deepest (widest_copy policy))"
  using depths_from_bounds [OF assms, of policy "[1..max_lanes]"] by (simp add: cohort_proposal_depths_def)

definition loop_sample :: speculative_config where
  "loop_sample = \<lparr>num_draft = Some 3, draft_loop_config = LoopObject [(''by_width'', LoopMap
     [(LoopText ''1'', LoopList [LoopInt 3, LoopInt 9]), (LoopText ''2'', LoopList [LoopInt 3, LoopInt 7])]),
     (''threshold'', LoopFloat (Finite (- 1)))]\<rparr>"

theorem proposal_depths_respect_the_ceiling_witness:
  "draft_depth_ceiling loop_sample = Inr 9 \<and> cohort_proposal_depths loop_sample 3 None = Inr [(1, 9), (2, 7), (3, 3)]
     \<and> map fst [(1, 9), (2, 7), (3, 3 :: int)] = [1..3]"
proof -
  have deepest: "draft_depth_ceiling loop_sample = Inr 9" by code_simp
  have depths: "cohort_proposal_depths loop_sample 3 None = Inr [(1, 9), (2, 7), (3, 3)]" by code_simp
  have "\<And>p. draft_loop_config loop_sample = LoopPolicy p \<Longrightarrow> valid_draft_loop p" by (simp add: loop_sample_def)
  from proposal_depths_respect_the_ceiling [OF deepest this, of 3 None] deepest depths show ?thesis by simp
qed

end
