(* ===== verification/PagedWrite.thy ===== *)
theory PagedWrite
  imports PagedWorld
begin

text \<open>
  The host submission boundary \<open>PagedKVWriteOwner\<close> of \<^verbatim>\<open>runtime/paged_kv_write.py\<close>: it pins the
  pages of every native write or copy through the completion ledger, and lets go of them only
  when the backend reports the terminal event of that submission.

  The owner works on the \<open>world\<close> of pool, page tables and ledger.  The injected backend is a
  parameter: whether an enqueue returned a dependency or raised is the argument \<open>enqueued\<close>, the
  events it delivers are the argument of \<open>poll_writes\<close>.  A dependency is an opaque object, named by
  a number; the identity of a lease is the argument \<open>oid\<close> of \<open>prepare\<close>.
\<close>

section \<open>State\<close>

datatype write_ticket =
    WriteTicket (ticket_lease: completion_lease) page_handle "nat option" bool bool
  | CopyTicket (ticket_lease: completion_lease) page_handle page_handle "nat option"

fun ticket_handles :: "write_ticket \<Rightarrow> page_handle list" where
  "ticket_handles (WriteTicket x h d grouped packed) = [h]"
| "ticket_handles (CopyTicket x source destination d) = [source, destination]"

record writer =
  page_bytes :: int
  poisoned :: bool
  tickets :: "(int \<times> write_ticket) list"
  outcomes :: "(int \<times> bool) list"
  torn_down :: bool

type_synonym write_state = "writer \<times> world"

definition pending_epochs :: "writer \<Rightarrow> int list" where
  "pending_epochs wr = map fst (tickets wr)"

definition new_writer :: "int \<Rightarrow> int \<Rightarrow> pool \<Rightarrow> exc + writer \<times> ledger" where
  "new_writer bytes plane_bytes p =
     bind_sum (positive_check ''page bytes'' bytes U64_MAX) (\<lambda>_.
     if plane_bytes \<noteq> int (capacity p) * bytes
     then Inl (ValueError ''native plane size does not match pool geometry'')
     else bind_sum (new_ledger p) (\<lambda>l.
       Inr (\<lparr>page_bytes = bytes, poisoned = False, tickets = [], outcomes = [], torn_down = False\<rparr>, l)))"

text \<open>A call on the ledger of the world.\<close>

definition with_ledger :: "(ledger_state \<Rightarrow> ('a, ledger_state) res) \<Rightarrow> write_state \<Rightarrow> ('a, write_state) res" where
  "with_ledger f s =
     (let (wr, w) = s; (r, (l, p)) = f (completion w, arena w)
      in (r, (wr, w\<lparr>arena := p, completion := l\<rparr>)))"

section \<open>Submissions\<close>

text \<open>
  The tail that all submissions share: prepare and submit a lease, register the ticket without a
  dependency, call the backend, and register the ticket again with the dependency it returned.  An
  exception of the backend is ambiguous; the ticket stays and the owner is poisoned.
\<close>

definition submit_pinned :: "nat \<Rightarrow> page_handle list \<Rightarrow> (completion_lease \<Rightarrow> nat option \<Rightarrow> write_ticket) \<Rightarrow> nat option
    \<Rightarrow> write_state \<Rightarrow> (write_ticket, write_state) res" where
  "submit_pinned oid hs ticket enqueued s =
     bind_res (with_ledger (prepare oid hs) s) (\<lambda>x s.
     bind_res (with_ledger (submit x) s) (\<lambda>_ (wr, w).
       let epoch = lease_epoch x;
           wr = wr\<lparr>tickets := AList.update epoch (ticket x None) (tickets wr)\<rparr>
       in case enqueued of
            None \<Rightarrow> (Inl (WriteSubmissionError epoch), (wr\<lparr>poisoned := True\<rparr>, w))
          | Some d \<Rightarrow> (Inr (ticket x (Some d)),
              (wr\<lparr>tickets := AList.update epoch (ticket x (Some d)) (tickets wr)\<rparr>, w))))"

definition check_writable :: "writer \<Rightarrow> exc + unit" where
  "check_writable wr = (if poisoned wr then Inl (RuntimeError ''paged KV arena is poisoned'') else Inr ())"

definition submit_write :: "nat \<Rightarrow> page_handle \<Rightarrow> int \<Rightarrow> int \<Rightarrow> nat option \<Rightarrow> write_state \<Rightarrow> (write_ticket, write_state) res" where
  "submit_write oid h offset byte_count enqueued s =
     lift_res (check_writable (fst s)) s (\<lambda>_.
     lift_res (uint_check ''within-page offset'' offset U64_MAX) s (\<lambda>_.
     lift_res (positive_check ''write byte count'' byte_count U64_MAX) s (\<lambda>_.
     if offset \<ge> page_bytes (fst s) \<or> byte_count > page_bytes (fst s) - offset
     then (Inl (ValueError ''write crosses a physical page''), s)
     else submit_pinned oid [h] (\<lambda>x d. WriteTicket x h d False False) enqueued s)))"

definition submit_grouped_q1_write :: "nat \<Rightarrow> page_handle list \<Rightarrow> int list \<Rightarrow> int \<Rightarrow> int \<Rightarrow> bool \<Rightarrow> nat option
    \<Rightarrow> write_state \<Rightarrow> (write_ticket, write_state) res" where
  "submit_grouped_q1_write oid hs row_slots heads head_size supported enqueued s =
     lift_res (check_writable (fst s)) s (\<lambda>_.
     if length hs \<noteq> 2 \<or> hs ! 0 = hs ! 1 \<or> length row_slots \<noteq> 2 \<or> list_ex (\<lambda>slot. \<not> (0 \<le> slot \<and> slot < 64)) row_slots
        \<or> page_bytes (fst s) \<noteq> heads * 64 * head_size * 2 \<or> \<not> supported
     then (Inl (ValueError ''grouped Q1 write geometry or backend differs''), s)
     else submit_pinned oid hs (\<lambda>x d. WriteTicket x (hd hs) d True False) enqueued s)"

definition submit_packed_multirow_write :: "nat \<Rightarrow> page_handle list \<Rightarrow> int list \<Rightarrow> int list \<Rightarrow> int list \<Rightarrow> int list
    \<Rightarrow> int list \<Rightarrow> int \<Rightarrow> int \<Rightarrow> bool \<Rightarrow> nat option \<Rightarrow> write_state \<Rightarrow> (write_ticket, write_state) res" where
  "submit_packed_multirow_write oid hs counts starts first_blocks table_begins page_ids heads head_size supported enqueued s =
     lift_res (check_writable (fst s)) s (\<lambda>_.
     if hs = [] \<or> \<not> distinct hs \<or> length counts \<noteq> 2 \<or> list_ex (\<lambda>n. n \<le> 0 \<or> n > 8192) counts
        \<or> length starts \<noteq> 2 \<or> length first_blocks \<noteq> 2 \<or> length table_begins \<noteq> 2 \<or> page_ids = []
        \<or> page_bytes (fst s) \<noteq> heads * 64 * head_size * 2 \<or> \<not> supported
     then (Inl (ValueError ''packed multirow writer geometry or native capability differs''), s)
     else submit_pinned oid hs (\<lambda>x d. WriteTicket x (hd hs) d False True) enqueued s)"

definition submit_packed_multirow_write_n20 :: "nat \<Rightarrow> page_handle list \<Rightarrow> int list \<Rightarrow> int list \<Rightarrow> int list \<Rightarrow> int list
    \<Rightarrow> int list \<Rightarrow> int \<Rightarrow> int \<Rightarrow> bool \<Rightarrow> nat option \<Rightarrow> write_state \<Rightarrow> (write_ticket, write_state) res" where
  "submit_packed_multirow_write_n20 oid hs counts starts first_blocks table_begins page_ids heads head_size supported enqueued s =
     (if poisoned (fst s) \<or> hs = [] \<or> \<not> distinct hs \<or> length counts < 1 \<or> 20 < length counts
         \<or> list_ex (\<lambda>n. \<not> (1 \<le> n \<and> n \<le> 8192)) counts
         \<or> list_ex (\<lambda>v. length v \<noteq> length counts) [starts, first_blocks, table_begins]
         \<or> page_ids = [] \<or> 2560 < length page_ids
         \<or> page_bytes (fst s) \<noteq> heads * 64 * head_size * 2 \<or> \<not> supported
      then (Inl (ValueError ''N20 writer geometry or native capability differs''), s)
      else submit_pinned oid hs (\<lambda>x d. WriteTicket x (hd hs) d False True) enqueued s)"

definition submit_copy :: "nat \<Rightarrow> page_handle \<Rightarrow> page_handle \<Rightarrow> int \<Rightarrow> nat option \<Rightarrow> write_state \<Rightarrow> (write_ticket, write_state) res" where
  "submit_copy oid source destination byte_count enqueued s =
     lift_res (check_writable (fst s)) s (\<lambda>_.
     lift_res (positive_check ''copy byte count'' byte_count U64_MAX) s (\<lambda>_.
     if byte_count > page_bytes (fst s) then (Inl (ValueError ''copy crosses a physical page''), s)
     else if source = destination then (Inl (ValueError ''copy requires distinct page generations''), s)
     else submit_pinned oid [source, destination] (\<lambda>x d. CopyTicket x source destination d) enqueued s))"

section \<open>Cancellation, completions, teardown\<close>

definition cancel_write :: "write_ticket \<Rightarrow> write_state \<Rightarrow> (unit, write_state) res" where
  "cancel_write t s =
     (if map_of (tickets (fst s)) (lease_epoch (ticket_lease t)) \<noteq> Some t
      then (Inl (ValueError ''unknown write ticket''), s)
      else with_ledger (cancel (ticket_lease t)) s)"

text \<open>The batch is checked as a whole: every event names a submission, and no two disagree.\<close>

fun check_events :: "writer \<Rightarrow> (int \<times> bool) list \<Rightarrow> (int \<times> bool) list \<Rightarrow> exc + unit" where
  "check_events wr seen [] = Inr ()"
| "check_events wr seen ((epoch, succeeded) # events) =
     (if map_of (tickets wr) epoch = None \<and> map_of (outcomes wr) epoch = None
      then Inl (RuntimeError ''invalid or unknown native completion event'')
      else if map_of seen epoch = Some (\<not> succeeded) \<or> map_of (outcomes wr) epoch = Some (\<not> succeeded)
      then Inl (RuntimeError ''conflicting native terminal status'')
      else check_events wr (AList.update epoch succeeded seen) events)"

fun consume_events :: "(int \<times> bool) list \<Rightarrow> write_state \<Rightarrow> ((write_ticket \<times> bool) list, write_state) res" where
  "consume_events [] s = (Inr [], s)"
| "consume_events ((epoch, succeeded) # events) (wr, w) =
     (if map_of (outcomes wr) epoch \<noteq> None then consume_events events (wr, w)
      else case map_of (tickets wr) epoch of
             None \<Rightarrow> (Inl (KeyError ''epoch''), (wr, w))
           | Some t \<Rightarrow>
               bind_res (with_ledger (complete (ticket_lease t) succeeded) (wr\<lparr>tickets := AList.delete epoch (tickets wr)\<rparr>, w))
                 (\<lambda>_ (wr, w).
                   bind_res (consume_events events
                       (wr\<lparr>outcomes := AList.update epoch succeeded (outcomes wr), poisoned := poisoned wr \<or> \<not> succeeded\<rparr>, w))
                     (\<lambda>acks s. (Inr ((t, succeeded) # acks), s))))"

definition check_timeout :: "py_float option \<Rightarrow> exc + unit" where
  "check_timeout t =
     (case t of
        None \<Rightarrow> Inr ()
      | Some (Finite q) \<Rightarrow> if 0 \<le> q \<and> q \<le> 120 then Inr ()
          else Inl (ValueError ''write completion wait must be finite and in [0, 120] seconds'')
      | Some _ \<Rightarrow> Inl (ValueError ''write completion wait must be finite and in [0, 120] seconds''))"

definition poll_writes :: "py_float option \<Rightarrow> (int \<times> bool) list \<Rightarrow> write_state \<Rightarrow> ((write_ticket \<times> bool) list, write_state) res" where
  "poll_writes timeout events s =
     lift_res (check_timeout timeout) s (\<lambda>_.
     (case check_events (fst s) [] events of
        Inl e \<Rightarrow> (Inl e, ((fst s)\<lparr>poisoned := True\<rparr>, snd s))
      | Inr _ \<Rightarrow> consume_events events s))"

definition teardown_failed_arena :: "exc option \<Rightarrow> write_state \<Rightarrow> (unit, write_state) res" where
  "teardown_failed_arena backend_error s =
     (let (wr, w) = s
      in if torn_down wr then (Inr (), s)
         else if \<not> poisoned wr then (Inl (RuntimeError ''only a poisoned native arena can use failed teardown''), s)
         else if tickets wr \<noteq> [] \<or> pending_uses (completion w) \<noteq> 0
         then (Inl (RuntimeError ''native arena still has unproven in-flight epochs''), s)
         else case backend_error of
                Some e \<Rightarrow> (Inl e, s)
              | None \<Rightarrow> (Inr (), (wr\<lparr>torn_down := True\<rparr>, w)))"

section \<open>The owner among the other clients\<close>

text \<open>
  Every other client of the pool, the tables and the ledger makes \<open>world\<close> calls of its own.  A
  lease of a write is never handed to one of them, so such a call does not complete a ticket.
\<close>

definition foreign :: "writer \<Rightarrow> world_call \<Rightarrow> bool" where
  "foreign wr c \<longleftrightarrow> (case c of CompleteUse x b \<Rightarrow> x \<notin> ticket_lease ` snd ` set (tickets wr) | _ \<Rightarrow> True)"

datatype write_call =
    SubmitWrite nat page_handle int int "nat option"
  | SubmitGrouped nat "page_handle list" "int list" int int bool "nat option"
  | SubmitMultirow nat "page_handle list" "int list" "int list" "int list" "int list" "int list" int int bool "nat option"
  | SubmitMultirowN20 nat "page_handle list" "int list" "int list" "int list" "int list" "int list" int int bool "nat option"
  | SubmitCopy nat page_handle page_handle int "nat option"
  | CancelWrite write_ticket
  | PollWrites "py_float option" "(int \<times> bool) list"
  | TeardownArena "exc option"
  | OtherClient world_call

definition drop_value :: "('a, 's) res \<Rightarrow> (unit, 's) res" where
  "drop_value r = (map_sum id (\<lambda>_. ()) (fst r), snd r)"

fun write_step :: "write_call \<Rightarrow> write_state \<Rightarrow> (unit, write_state) res" where
  "write_step (SubmitWrite oid h offset n q) s = drop_value (submit_write oid h offset n q s)"
| "write_step (SubmitGrouped oid hs row_slots heads head_size ok q) s = drop_value (submit_grouped_q1_write oid hs row_slots heads head_size ok q s)"
| "write_step (SubmitMultirow oid hs counts starts blocks begins ids heads head_size ok q) s =
     drop_value (submit_packed_multirow_write oid hs counts starts blocks begins ids heads head_size ok q s)"
| "write_step (SubmitMultirowN20 oid hs counts starts blocks begins ids heads head_size ok q) s =
     drop_value (submit_packed_multirow_write_n20 oid hs counts starts blocks begins ids heads head_size ok q s)"
| "write_step (SubmitCopy oid source destination n q) s = drop_value (submit_copy oid source destination n q s)"
| "write_step (CancelWrite t) s = cancel_write t s"
| "write_step (PollWrites timeout events) s = drop_value (poll_writes timeout events s)"
| "write_step (TeardownArena e) s = teardown_failed_arena e s"
| "write_step (OtherClient c) (wr, w) =
     (if foreign wr c then (case world_step c w of (r, w') \<Rightarrow> (map_sum id (\<lambda>_. ()) r, (wr, w')))
      else (Inl (ValueError ''lease of a write ticket''), (wr, w)))"

definition write_start :: "write_state \<Rightarrow> bool" where
  "write_start s \<longleftrightarrow> (\<exists>cap p bytes plane_bytes wr l. new_pool cap = Inr p \<and> new_writer bytes plane_bytes p = Inr (wr, l)
     \<and> s = (wr, \<lparr>arena = p, tables = [], completion = l\<rparr>))"

section \<open>The invariant of the owner\<close>

definition ticket_pinned :: "ledger \<Rightarrow> write_ticket \<Rightarrow> bool" where
  "ticket_pinned l t \<longleftrightarrow> (\<exists>hs. in_flight (ticket_lease t) hs l \<and> set (ticket_handles t) \<subseteq> set hs)"

definition write_inv :: "write_state \<Rightarrow> bool" where
  "write_inv s \<longleftrightarrow> (let (wr, w) = s in
     world_inv w \<and> distinct (map fst (tickets wr))
     \<and> (\<forall>e t. map_of (tickets wr) e = Some t \<longrightarrow> lease_epoch (ticket_lease t) = e \<and> ticket_pinned (completion w) t)
     \<and> (\<forall>e. map_of (outcomes wr) e \<noteq> None \<longrightarrow> map_of (tickets wr) e = None \<and> e < next_epoch (completion w))
     \<and> (\<forall>e. map_of (outcomes wr) e = Some False \<longrightarrow> poisoned wr)
     \<and> (torn_down wr \<longrightarrow> poisoned wr \<and> tickets wr = []))"

lemma write_invD:
  assumes "write_inv (wr, w)"
  shows "world_inv w" "distinct (map fst (tickets wr))"
    "\<And>e t. map_of (tickets wr) e = Some t \<Longrightarrow> lease_epoch (ticket_lease t) = e"
    "\<And>e t. map_of (tickets wr) e = Some t \<Longrightarrow> ticket_pinned (completion w) t"
    "\<And>e b. map_of (outcomes wr) e = Some b \<Longrightarrow> map_of (tickets wr) e = None"
    "\<And>e b. map_of (outcomes wr) e = Some b \<Longrightarrow> e < next_epoch (completion w)"
    "\<And>e. map_of (outcomes wr) e = Some False \<Longrightarrow> poisoned wr"
    "torn_down wr \<Longrightarrow> poisoned wr \<and> tickets wr = []"
  using assms unfolding write_inv_def by auto

lemma in_flight_epoch:
  assumes "world_inv w" "in_flight x hs (completion w)"
  shows "lease_epoch x < next_epoch (completion w)"
proof -
  have "ledger_inv (completion w)" using assms(1) by (simp add: world_inv_def ledger_ok_def)
  moreover obtain u where "map_of (uses (completion w)) (lease_epoch x) = Some u"
    using assms(2) by (auto simp: in_flight_def lookup_use_Inr)
  ultimately show ?thesis by (blast dest: ledger_invD(5))
qed

lemma ticket_epoch:
  assumes "write_inv (wr, w)" "map_of (tickets wr) e = Some t"
  shows "e < next_epoch (completion w)"
  using write_invD(1,3,4) [OF assms(1)] assms(2) in_flight_epoch unfolding ticket_pinned_def by blast

text \<open>No call of any client takes an epoch back.\<close>

lemma world_step_next_epoch:
  assumes "world_inv w"
  shows "next_epoch (completion w) \<le> next_epoch (completion (snd (world_step c w)))"
proof -
  have ok: "ledger_ok (table_leases (tables w)) (completion w, arena w)"
    using assms by (simp add: world_inv_def)
  have table: "completion (snd (on_table i g h w)) = completion w" for i g and h :: "seq_state \<Rightarrow> ('b, seq_state) res"
    by (simp add: on_table_def split: prod.split)
  have ledger: "completion (snd (on_ledger g h w)) = fst (snd (h (completion w, arena w)))"
    for g and h :: "ledger_state \<Rightarrow> ('b, ledger_state) res"
    by (simp add: on_ledger_def split: prod.split)
  have fork: "completion (snd (fork_table i w)) = completion w" for i
    by (simp add: fork_table_def split: prod.split sum.split)
  show ?thesis
  proof (cases c)
    case (PrepareUse oid hs)
    show ?thesis
      using prepare_contract [OF ok, of oid hs] unfolding PrepareUse world_step.simps ledger
      by (cases rule: atomic_cases) auto
  next
    case (SubmitUse x)
    show ?thesis
      using submit_contract [OF ok, of x] unfolding SubmitUse world_step.simps ledger
      by (cases rule: atomic_cases) auto
  next
    case (AbortUse x)
    show ?thesis
      using abort_before_submit_contract [OF ok, of x] unfolding AbortUse world_step.simps ledger
      by (cases rule: atomic_cases) (auto simp: finished_def)
  next
    case (CancelUse x)
    show ?thesis
      using cancel_contract [OF ok, of x] unfolding CancelUse world_step.simps ledger
      by (cases rule: atomic_cases) auto
  next
    case (CompleteUse x b)
    show ?thesis
      using complete_contract [OF ok, of x b] unfolding CompleteUse world_step.simps ledger
      by (cases rule: atomic_cases) (auto simp: finished_def)
  qed (simp_all add: table fork)
qed

text \<open>A call of another client keeps the owner's invariant.\<close>

lemma write_inv_world_step:
  assumes inv: "write_inv (wr, w)" and other: "foreign wr c"
  shows "write_inv (wr, snd (world_step c w))"
proof -
  let ?w = "snd (world_step c w)"
  note D = write_invD [OF inv]
  have "ticket_pinned (completion ?w) t" if t: "map_of (tickets wr) e = Some t" for e t
  proof -
    obtain hs where hs: "in_flight (ticket_lease t) hs (completion w)" "set (ticket_handles t) \<subseteq> set hs"
      using D(4) [OF t] by (auto simp: ticket_pinned_def)
    have "c \<noteq> CompleteUse (ticket_lease t) b" for b
      using other map_of_SomeD [OF t] by (force simp: foreign_def)
    then show ?thesis using in_flight_step [OF D(1) hs(1)] hs(2) by (auto simp: ticket_pinned_def)
  qed
  moreover have "world_inv ?w" by (rule paged_world.inv_step [OF D(1)])
  moreover have "e < next_epoch (completion ?w)" if "map_of (outcomes wr) e = Some b" for e b
    using D(6) [OF that] world_step_next_epoch [OF D(1), of c] by simp
  ultimately show ?thesis using D unfolding write_inv_def by auto
qed

lemma with_ledger_world:
  "with_ledger f (wr, w) = (fst (f (completion w, arena w)), (wr, snd (on_ledger g f w)))"
  by (simp add: with_ledger_def on_ledger_def split: prod.split)

lemma submit_pinned_cases:
  assumes inv: "write_inv (wr, w)"
  obtains (refused) e where "submit_pinned oid hs ticket q (wr, w) = (Inl e, (wr, w))"
  | (pinned) x w' where "x = CompletionLease (next_epoch (completion w)) oid" "in_flight x hs (completion w')"
      "write_inv (wr, w')" "next_epoch (completion w') = next_epoch (completion w) + 1" "tables w' = tables w"
      "\<And>y gs. in_flight y gs (completion w) \<Longrightarrow> in_flight y gs (completion w')" "pool_run (arena w) (arena w')"
      "submit_pinned oid hs ticket q (wr, w) =
         (case q of
            None \<Rightarrow> (Inl (WriteSubmissionError (lease_epoch x)),
              (wr\<lparr>tickets := AList.update (lease_epoch x) (ticket x None) (tickets wr), poisoned := True\<rparr>, w'))
          | Some d \<Rightarrow> (Inr (ticket x (Some d)), (wr\<lparr>tickets := AList.update (lease_epoch x) (ticket x (Some d))
              (AList.update (lease_epoch x) (ticket x None) (tickets wr))\<rparr>, w')))"
proof -
  have ok: "ledger_ok (table_leases (tables w)) (completion w, arena w)"
    using write_invD(1) [OF inv] by (simp add: world_inv_def)
  show ?thesis
    using prepare_contract [OF ok, of oid hs]
  proof (cases rule: atomic_cases)
    case (fail e)
    then show ?thesis
      by (intro refused [of e]) (simp add: submit_pinned_def with_ledger_def)
  next
    case (ok x lp)
    obtain l p where lp: "lp = (l, p)" by (cases lp)
    define w1 where "w1 = w\<lparr>arena := p, completion := l\<rparr>"
    have w1: "w1 = snd (world_step (PrepareUse oid hs) w)"
      using ok(1) by (simp add: w1_def on_ledger_def lp)
    have inv1: "write_inv (wr, w1)"
      unfolding w1 by (rule write_inv_world_step [OF inv]) (simp add: foreign_def)
    have use: "lookup_use x l = Inr \<lparr>use_lease = x, use_handles = hs, use_state = Prepared, use_cancelled = False\<rparr>"
      using ok(2) by (simp add: lookup_use_Inr lp)
    define w2 where "w2 = w1\<lparr>completion := set_use \<lparr>use_lease = x, use_handles = hs, use_state = Submitted, use_cancelled = False\<rparr> l\<rparr>"
    have sub: "submit x (l, p) = (Inr (), (completion w2, p))"
      using use by (simp add: submit_def w2_def)
    have w2: "w2 = snd (world_step (SubmitUse x) w1)"
      using sub by (simp add: on_ledger_def w2_def w1_def)
    have inv2: "write_inv (wr, w2)"
      unfolding w2 by (rule write_inv_world_step [OF inv1]) (simp add: foreign_def)
    have flight: "in_flight x hs (completion w2)"
      by (simp add: in_flight_def lookup_use_Inr w2_def)
    show ?thesis
    proof (rule pinned [OF _ flight inv2])
      show "x = CompletionLease (next_epoch (completion w)) oid" using ok(2) by blast
      show "next_epoch (completion w2) = next_epoch (completion w) + 1"
        using ok(2) by (simp add: w2_def lp)
      show "tables w2 = tables w" by (simp add: w2_def w1_def)
      show "in_flight y gs (completion w2)" if "in_flight y gs (completion w)" for y gs
        unfolding w2 using in_flight_step [OF write_invD(1) [OF inv1], of y gs "SubmitUse x"]
          in_flight_step [OF write_invD(1) [OF inv] that, of "PrepareUse oid hs"] by (simp add: w1)
      show "pool_run (arena w) (arena w2)"
      proof (rule pool_run_trans)
        show "pool_run (arena w) (arena w1)" unfolding w1 by (rule world_step_pool_run)
        show "pool_run (arena w1) (arena w2)" unfolding w2 by (rule world_step_pool_run)
      qed
      show "submit_pinned oid hs ticket q (wr, w) =
         (case q of
            None \<Rightarrow> (Inl (WriteSubmissionError (lease_epoch x)),
              (wr\<lparr>tickets := AList.update (lease_epoch x) (ticket x None) (tickets wr), poisoned := True\<rparr>, w2))
          | Some d \<Rightarrow> (Inr (ticket x (Some d)), (wr\<lparr>tickets := AList.update (lease_epoch x) (ticket x (Some d))
              (AList.update (lease_epoch x) (ticket x None) (tickets wr))\<rparr>, w2)))"
        using ok(1) sub by (simp add: submit_pinned_def with_ledger_def lp w1_def w2_def Let_def split: option.split)
    qed
  qed
qed

lemma write_inv_add_ticket:
  assumes inv: "write_inv (wr, w)" and t: "lease_epoch (ticket_lease t) = e" "ticket_pinned (completion w) t"
    and "map_of (outcomes wr) e = None" and "\<not> torn_down wr"
  shows "write_inv (wr\<lparr>tickets := AList.update e t (tickets wr)\<rparr>, w)"
  using assms write_invD [OF inv] unfolding write_inv_def
  by (auto simp: update_conv' distinct_update split: if_splits)

lemma submit_pinned_inv:
  assumes inv: "write_inv (wr, w)" and live: "\<not> poisoned wr"
    and t: "\<And>x d. ticket_lease (ticket x d) = x" "\<And>x d. set (ticket_handles (ticket x d)) \<subseteq> set hs"
  shows "write_inv (snd (submit_pinned oid hs ticket q (wr, w)))"
  using inv
proof (cases rule: submit_pinned_cases [of wr w oid hs ticket q])
  case (refused e)
  then show ?thesis using inv by simp
next
  case (pinned x w')
  let ?e = "lease_epoch x"
  have fresh: "map_of (outcomes wr) ?e = None"
    using write_invD(6) [OF inv, of ?e] pinned(1) by (cases "map_of (outcomes wr) ?e") auto
  have open_: "\<not> torn_down wr" using write_invD(8) [OF inv] live by blast
  have pin: "ticket_pinned (completion w') (ticket x d)" for d
    unfolding ticket_pinned_def t(1) using pinned(2) t(2) by blast
  have one: "write_inv (wr\<lparr>tickets := AList.update ?e (ticket x d) (tickets wr)\<rparr>, w')" for d
    by (rule write_inv_add_ticket [OF pinned(3) _ pin fresh open_]) (simp add: t)
  have two: "write_inv (wr\<lparr>tickets := AList.update ?e (ticket x d) (AList.update ?e (ticket x None) (tickets wr))\<rparr>, w')" for d
    using write_inv_add_ticket [OF one [of None], of "ticket x d" ?e] pin fresh open_ by (simp add: t)
  have "write_inv (wr\<lparr>tickets := AList.update ?e (ticket x None) (tickets wr), poisoned := True\<rparr>, w')"
    using one [of None] by (simp add: write_inv_def)
  then show ?thesis
    using two by (simp add: pinned(8) split: option.split)
qed

section \<open>Completions\<close>

text \<open>A batch the check accepts: known epochs, and no two statuses that disagree.\<close>

definition events_ok :: "writer \<Rightarrow> (int \<times> bool) list \<Rightarrow> bool" where
  "events_ok wr events \<longleftrightarrow>
     (\<forall>(e, b) \<in> set events. (map_of (tickets wr) e \<noteq> None \<or> map_of (outcomes wr) e \<noteq> None)
        \<and> map_of (outcomes wr) e \<noteq> Some (\<not> b) \<and> (e, \<not> b) \<notin> set events)"

lemma check_events_ok:
  assumes "check_events wr seen events = Inr ()"
  shows "\<forall>(e, b) \<in> set events. (map_of (tickets wr) e \<noteq> None \<or> map_of (outcomes wr) e \<noteq> None)
        \<and> map_of (outcomes wr) e \<noteq> Some (\<not> b) \<and> (e, \<not> b) \<notin> set events \<and> map_of seen e \<noteq> Some (\<not> b)"
  using assms
proof (induction wr seen events rule: check_events.induct)
  case (1 wr seen)
  then show ?case by simp
next
  case (2 wr seen epoch succeeded events)
  have ok: "map_of (tickets wr) epoch \<noteq> None \<or> map_of (outcomes wr) epoch \<noteq> None"
      "map_of seen epoch \<noteq> Some (\<not> succeeded)" "map_of (outcomes wr) epoch \<noteq> Some (\<not> succeeded)"
      "check_events wr (AList.update epoch succeeded seen) events = Inr ()"
    using "2.prems" by (auto split: if_splits)
  have rest: "(map_of (tickets wr) e \<noteq> None \<or> map_of (outcomes wr) e \<noteq> None)
        \<and> map_of (outcomes wr) e \<noteq> Some (\<not> b) \<and> (e, \<not> b) \<notin> set events
        \<and> (if e = epoch then b = succeeded else map_of seen e \<noteq> Some (\<not> b))" if "(e, b) \<in> set events" for e b
    using "2.IH" [OF _ _ ok(4)] ok(1-3) that by (fastforce simp: update_conv' split: if_splits)
  have "(epoch, \<not> succeeded) \<notin> set events"
    using rest [of epoch "\<not> succeeded"] by auto
  then show ?case
    using ok rest by (fastforce split: if_splits)
qed

lemma in_flight_unique: "in_flight x hs l \<Longrightarrow> in_flight x gs l \<Longrightarrow> gs = hs"
  by (auto simp: in_flight_def)

lemma complete_ticket:
  assumes inv: "write_inv (wr, w)" and t: "map_of (tickets wr) e = Some t"
  obtains w' where "with_ledger (complete (ticket_lease t) b) (wr\<lparr>tickets := AList.delete e (tickets wr)\<rparr>, w)
        = (Inr (), (wr\<lparr>tickets := AList.delete e (tickets wr)\<rparr>, w'))"
    and "write_inv (wr\<lparr>tickets := AList.delete e (tickets wr), outcomes := AList.update e b (outcomes wr),
           poisoned := poisoned wr \<or> \<not> b\<rparr>, w')"
    and "ticket_lease t \<in> completed_leases (completion w')" and "tables w' = tables w"
    and "w' = snd (world_step (CompleteUse (ticket_lease t) b) w)"
    and "\<And>hs h. \<not> b \<Longrightarrow> in_flight (ticket_lease t) hs (completion w) \<Longrightarrow> h \<in> set hs \<Longrightarrow> barred (page_id h) (generation h) (arena w')"
    and "\<And>x hs. x \<noteq> ticket_lease t \<Longrightarrow> in_flight x hs (completion w) \<Longrightarrow> in_flight x hs (completion w')"
proof -
  note D = write_invD [OF inv]
  let ?wr = "wr\<lparr>tickets := AList.delete e (tickets wr)\<rparr>"
  obtain hs where hs: "in_flight (ticket_lease t) hs (completion w)" "set (ticket_handles t) \<subseteq> set hs"
    using D(4) [OF t] by (auto simp: ticket_pinned_def)
  obtain w' where w': "world_step (CompleteUse (ticket_lease t) b) w = (Inr Done, w')" "world_inv w'"
      "ticket_lease t \<in> completed_leases (completion w')" "tables w' = tables w"
      "\<And>h. \<not> b \<Longrightarrow> h \<in> set hs \<Longrightarrow> barred (page_id h) (generation h) (arena w')"
    by (rule complete_in_flight [OF D(1) hs(1), of b]) (rule that; blast)
  have map: "map_of (AList.delete e (tickets wr)) = (map_of (tickets wr))(e := None)"
    by (rule delete_conv')
  have smaller: "write_inv (?wr, w)"
    using D unfolding write_inv_def by (auto simp: map distinct_delete)
  have "foreign ?wr (CompleteUse (ticket_lease t) b)"
  proof -
    have "t' = t" if "(e', t') \<in> set (tickets wr)" "ticket_lease t' = ticket_lease t" for e' t'
    proof -
      have e': "map_of (tickets wr) e' = Some t'" using that(1) D(2) by simp
      have "e' = e" using D(3) [OF e'] D(3) [OF t] that(2) by simp
      then show ?thesis using e' t by simp
    qed
    moreover have "e' = e" if "(e', t) \<in> set (tickets wr)" for e'
      using D(3) [of e' t] D(3) [OF t] that D(2) by simp
    ultimately have "(e', t') \<in> set (tickets wr) \<Longrightarrow> e' \<noteq> e \<Longrightarrow> ticket_lease t' \<noteq> ticket_lease t" for e' t'
      by blast
    then show ?thesis by (fastforce simp: foreign_def AList.delete_eq)
  qed
  then have inv': "write_inv (?wr, w')"
    using write_inv_world_step [OF smaller] w'(1) by (metis snd_conv)
  have later: "e < next_epoch (completion w')"
    using ticket_epoch [OF inv t] world_step_next_epoch [OF D(1), of "CompleteUse (ticket_lease t) b"] w'(1) by simp
  have "\<not> torn_down wr" using D(8) t by auto
  then have "write_inv (wr\<lparr>tickets := AList.delete e (tickets wr), outcomes := AList.update e b (outcomes wr),
           poisoned := poisoned wr \<or> \<not> b\<rparr>, w')"
    using inv' later unfolding write_inv_def by (auto simp: update_conv' map split: if_splits)
  then have inv2: "write_inv (wr\<lparr>tickets := AList.delete e (tickets wr), outcomes := AList.update e b (outcomes wr),
           poisoned := poisoned wr \<or> \<not> b\<rparr>, w')" .
  have call: "with_ledger (complete (ticket_lease t) b) (?wr, w) = (Inr (), (?wr, w'))"
    using w'(1) by (cases "fst (complete (ticket_lease t) b (completion w, arena w))")
      (auto simp: with_ledger_def on_ledger_def split: prod.splits)
  show ?thesis
  proof (rule that [OF call inv2 w'(3,4)])
    show "w' = snd (world_step (CompleteUse (ticket_lease t) b) w)" using w'(1) by simp
    show "barred (page_id h) (generation h) (arena w')" if "\<not> b" "in_flight (ticket_lease t) gs (completion w)" "h \<in> set gs" for gs h
      using w'(5) that in_flight_unique [OF hs(1) that(2)] by blast
    show "in_flight x gs (completion w')" if "x \<noteq> ticket_lease t" "in_flight x gs (completion w)" for x gs
      using in_flight_step [OF D(1) that(2), of "CompleteUse (ticket_lease t) b"] that(1) w'(1) by simp
  qed
qed

text \<open>What a run of completions keeps of the ledger and the pool.\<close>

definition ledger_settled :: "world \<Rightarrow> world \<Rightarrow> bool" where
  "ledger_settled w w' \<longleftrightarrow> tables w' = tables w \<and> completed_leases (completion w) \<subseteq> completed_leases (completion w')
     \<and> pool_run (arena w) (arena w') \<and> next_epoch (completion w) \<le> next_epoch (completion w')"

lemma ledger_settled_refl: "ledger_settled w w"
  by (simp add: ledger_settled_def pool_run_refl)

lemma ledger_settled_trans: "ledger_settled w1 w2 \<Longrightarrow> ledger_settled w2 w3 \<Longrightarrow> ledger_settled w1 w3"
  by (auto simp: ledger_settled_def intro: pool_run_trans)

lemma ledger_settled_complete:
  assumes "world_inv w"
  shows "ledger_settled w (snd (world_step (CompleteUse x b) w))"
proof -
  have ok: "ledger_ok (table_leases (tables w)) (completion w, arena w)"
    using assms by (simp add: world_inv_def)
  have "completed_leases (completion w) \<subseteq> completed_leases (completion (snd (world_step (CompleteUse x b) w)))"
    using complete_contract [OF ok, of x b]
    by (cases rule: atomic_cases) (auto simp: on_ledger_def finished_def)
  moreover have "tables (snd (world_step (CompleteUse x b) w)) = tables w"
    by (simp add: on_ledger_def split: prod.split)
  ultimately show ?thesis
    using world_step_pool_run [of w "CompleteUse x b"] world_step_next_epoch [OF assms, of "CompleteUse x b"]
    by (simp add: ledger_settled_def)
qed

lemma ledger_settled_barred:
  assumes "ledger_settled w w'" "world_inv w" "barred i g (arena w)"
  shows "barred i g (arena w')"
  using assms barred_run lease_exact_inv [OF world_leases] by (blast dest: ledger_settled_def [THEN iffD1])

text \<open>\<open>closed_ticket\<close>: the lease is finished, and all pages of a failed submission are barred.\<close>

definition closed_ticket :: "world \<Rightarrow> world \<Rightarrow> write_ticket \<times> bool \<Rightarrow> bool" where
  "closed_ticket w w' c \<longleftrightarrow> (let (t, b) = c in ticket_lease t \<in> completed_leases (completion w')
     \<and> (\<not> b \<longrightarrow> (\<forall>hs. in_flight (ticket_lease t) hs (completion w) \<longrightarrow> (\<forall>h \<in> set hs. barred (page_id h) (generation h) (arena w')))))"

lemma closed_ticket_settled: "closed_ticket w0 w c \<Longrightarrow> ledger_settled w w' \<Longrightarrow> world_inv w \<Longrightarrow> closed_ticket w0 w' c"
  using ledger_settled_barred by (fastforce simp: closed_ticket_def ledger_settled_def Let_def split: prod.splits)

text \<open>An accepted batch is consumed to its end.\<close>

definition consumed :: "writer \<Rightarrow> world \<Rightarrow> (int \<times> bool) list \<Rightarrow> (write_ticket \<times> bool) list \<Rightarrow> writer \<Rightarrow> world \<Rightarrow> bool" where
  "consumed wr w events acks wr' w' \<longleftrightarrow> write_inv (wr', w') \<and> ledger_settled w w' \<and> page_bytes wr' = page_bytes wr
     \<and> (\<forall>e. map_of (tickets wr') e = (if e \<in> fst ` set events then None else map_of (tickets wr) e))
     \<and> (\<forall>e. (e \<in> fst ` set events \<longrightarrow> map_of (outcomes wr') e \<noteq> None)
           \<and> (map_of (outcomes wr) e \<noteq> None \<longrightarrow> map_of (outcomes wr') e = map_of (outcomes wr) e))
     \<and> (poisoned wr' \<longleftrightarrow> poisoned wr \<or> (\<exists>t. (t, False) \<in> set acks))
     \<and> (\<forall>c \<in> set acks. closed_ticket w w' c)
     \<and> (\<forall>e t hs. map_of (tickets wr') e = Some t \<longrightarrow> in_flight (ticket_lease t) hs (completion w) \<longrightarrow> in_flight (ticket_lease t) hs (completion w'))
     \<and> (\<forall>t b. (t, b) \<in> set acks \<longleftrightarrow> (\<exists>e. (e, b) \<in> set events \<and> map_of (tickets wr) e = Some t))"

lemma consume_events_ok:
  assumes "write_inv (wr, w)" and "events_ok wr events"
  shows "\<exists>acks wr' w'. consume_events events (wr, w) = (Inr acks, (wr', w')) \<and> consumed wr w events acks wr' w'"
  using assms
proof (induction events arbitrary: wr w)
  case Nil
  then show ?case by (simp add: consumed_def ledger_settled_refl)
next
  case (Cons event events)
  obtain e b where event: "event = (e, b)" by (cases event)
  note D = write_invD [OF Cons.prems(1)]
  show ?case
  proof (cases "map_of (outcomes wr) e")
    case (Some b')
    have ok: "events_ok wr events" using Cons.prems(2) by (auto simp: events_ok_def)
    have none: "map_of (tickets wr) e = None" using D(5) [OF Some] .
    have "consume_events (event # events) (wr, w) = consume_events events (wr, w)"
      using Some by (simp add: event)
    moreover have "consumed wr w (event # events) acks wr' w'" if "consumed wr w events acks wr' w'" for acks wr' w'
    proof -
      have "map_of (outcomes wr') e \<noteq> None" using that Some by (simp add: consumed_def)
      then show ?thesis using that none by (auto simp: consumed_def event)
    qed
    ultimately show ?thesis using Cons.IH [OF Cons.prems(1) ok] by auto
  next
    case None
    then obtain t where t: "map_of (tickets wr) e = Some t"
      using Cons.prems(2) by (auto simp: events_ok_def event)
    let ?wr = "wr\<lparr>tickets := AList.delete e (tickets wr), outcomes := AList.update e b (outcomes wr),
           poisoned := poisoned wr \<or> \<not> b\<rparr>"
    obtain w1 where w1: "with_ledger (complete (ticket_lease t) b) (wr\<lparr>tickets := AList.delete e (tickets wr)\<rparr>, w)
        = (Inr (), (wr\<lparr>tickets := AList.delete e (tickets wr)\<rparr>, w1))" "write_inv (?wr, w1)"
        "ticket_lease t \<in> completed_leases (completion w1)" "w1 = snd (world_step (CompleteUse (ticket_lease t) b) w)"
        "\<And>hs h. \<not> b \<Longrightarrow> in_flight (ticket_lease t) hs (completion w) \<Longrightarrow> h \<in> set hs \<Longrightarrow> barred (page_id h) (generation h) (arena w1)"
        "\<And>x hs. x \<noteq> ticket_lease t \<Longrightarrow> in_flight x hs (completion w) \<Longrightarrow> in_flight x hs (completion w1)"
    proof (rule complete_ticket [OF Cons.prems(1) t, of b], goal_cases)
      case (1 w1)
      show ?case by (rule 1(1) [OF 1(2,3,4,6,7,8)])
    qed
    have ok: "events_ok ?wr events"
      using Cons.prems(2) by (auto simp: events_ok_def event update_conv' delete_conv' split: if_splits)
    obtain acks wr' w' where rest: "consume_events events (?wr, w1) = (Inr acks, (wr', w'))"
        "consumed ?wr w1 events acks wr' w'"
      using Cons.IH [OF w1(2) ok] by blast
    have run: "consume_events (event # events) (wr, w) = (Inr ((t, b) # acks), (wr', w'))"
      using None t w1(1) rest(1) by (simp add: event)
    have w1_inv: "world_inv w1" using write_invD(1) [OF w1(2)] .
    have other: "ticket_lease t' \<noteq> ticket_lease t" if "map_of (tickets wr) e' = Some t'" "e' \<noteq> e" for t' e'
      using D(3) [OF that(1)] D(3) [OF t] that(2) by auto
    have closed: "closed_ticket w w' (t, b)"
      by (rule closed_ticket_settled [OF _ _ w1_inv])
         (use w1(3,5) rest(2) in \<open>auto simp: closed_ticket_def consumed_def\<close>)
    have ledger_settled: "ledger_settled w w'"
      using ledger_settled_trans [OF ledger_settled_complete [OF D(1)]] w1(4) rest(2) by (auto simp: consumed_def)
    have map: "map_of (tickets ?wr) e' = (if e' = e then None else map_of (tickets wr) e')" for e'
      by (simp add: delete_conv')
    have outcome: "(e' \<in> fst ` set (event # events) \<longrightarrow> map_of (outcomes wr') e' \<noteq> None)
        \<and> (map_of (outcomes wr) e' \<noteq> None \<longrightarrow> map_of (outcomes wr') e' = map_of (outcomes wr) e')" for e'
    proof -
      have tail: "(x \<in> fst ` set events \<longrightarrow> map_of (outcomes wr') x \<noteq> None)
          \<and> (map_of (outcomes ?wr) x \<noteq> None \<longrightarrow> map_of (outcomes wr') x = map_of (outcomes ?wr) x)" for x
        using rest(2) unfolding consumed_def by blast
      have "map_of (outcomes ?wr) x = (if x = e then Some b else map_of (outcomes wr) x)" for x
        by (simp add: update_conv')
      then show ?thesis using tail [of e'] None by (cases "e' = e") (simp_all add: event)
    qed
    have members: "(t', b') \<in> set ((t, b) # acks) \<longleftrightarrow>
        (\<exists>e'. (e', b') \<in> set (event # events) \<and> map_of (tickets wr) e' = Some t')" for t' b'
    proof -
      have "(t', b') \<in> set acks \<longleftrightarrow> (\<exists>e'. (e', b') \<in> set events \<and> e' \<noteq> e \<and> map_of (tickets wr) e' = Some t')"
        using rest(2) unfolding consumed_def map by (auto split: if_splits)
      moreover have "b' = b" if "(e, b') \<in> set events"
        using that Cons.prems(2) by (cases b; cases b') (auto simp: events_ok_def event)
      ultimately show ?thesis using t by (auto simp: event)
    qed
    have later: "closed_ticket w w' c" if c: "c \<in> set acks" for c
    proof -
      obtain t' b' where c': "c = (t', b')" by (cases c)
      then obtain e' where e': "(e', b') \<in> set events" "map_of (tickets ?wr) e' = Some t'"
        using rest(2) c unfolding consumed_def by blast
      then have "ticket_lease t' \<noteq> ticket_lease t" using other [of e' t'] unfolding map by (auto split: if_splits)
      moreover have "closed_ticket w1 w' c" using rest(2) c unfolding consumed_def by blast
      ultimately show ?thesis using w1(6) [of "ticket_lease t'"] by (auto simp: closed_ticket_def c')
    qed
    have flying: "in_flight (ticket_lease t') hs (completion w')"
      if "map_of (tickets wr') e' = Some t'" "in_flight (ticket_lease t') hs (completion w)" for e' t' hs
    proof -
      have "map_of (tickets ?wr) e' = Some t'" using that(1) rest(2) unfolding consumed_def by (metis option.distinct(1))
      then have "ticket_lease t' \<noteq> ticket_lease t" using other [of e' t'] unfolding map by (auto split: if_splits)
      then show ?thesis using w1(6) that rest(2) unfolding consumed_def by blast
    qed
    have "consumed wr w (event # events) ((t, b) # acks) wr' w'"
      using rest(2) ledger_settled closed later flying members map outcome unfolding consumed_def by (auto simp: event)
    then show ?thesis using run by blast
  qed
qed

lemma poll_writes_cases:
  assumes inv: "write_inv (wr, w)"
  obtains (timeout) e where "poll_writes t events (wr, w) = (Inl e, (wr, w))"
  | (rejected) e where "poll_writes t events (wr, w) = (Inl e, (wr\<lparr>poisoned := True\<rparr>, w))" "\<not> events_ok wr events"
  | (consumed) acks wr' w' where "poll_writes t events (wr, w) = (Inr acks, (wr', w'))" "events_ok wr events"
      "consumed wr w events acks wr' w'"
proof (cases "check_timeout t")
  case (Inl e)
  then show ?thesis by (intro timeout [of e]) (simp add: poll_writes_def)
next
  case (Inr u)
  show ?thesis
  proof (cases "check_events wr [] events")
    case (Inl e)
    have "\<not> events_ok wr events"
    proof
      assume ok: "events_ok wr events"
      have "check_events wr seen events' = Inr ()"
        if "set events' \<subseteq> set events" "\<forall>x c. map_of seen x = Some c \<longrightarrow> (x, c) \<in> set events" for seen events'
        using that
      proof (induction events' arbitrary: seen)
        case Nil
        then show ?case by simp
      next
        case (Cons event events')
        obtain x c where event: "event = (x, c)" by (cases event)
        have "map_of seen x \<noteq> Some (\<not> c)"
          using Cons.prems ok by (auto simp: event events_ok_def)
        moreover have "check_events wr (AList.update x c seen) events' = Inr ()"
          by (rule Cons.IH) (use Cons.prems in \<open>auto simp: event update_conv' split: if_splits\<close>)
        ultimately show ?case using Cons.prems(1) ok by (auto simp: event events_ok_def)
      qed
      from this [of events "[]"] show False using Inl by simp
    qed
    then show ?thesis using Inl Inr by (intro rejected [of e]) (simp_all add: poll_writes_def)
  next
    case ok: (Inr u')
    then have "events_ok wr events" using check_events_ok [of wr "[]" events] by (auto simp: events_ok_def)
    then show ?thesis
      using consume_events_ok [OF inv] ok Inr consumed by (auto simp: poll_writes_def)
  qed
qed

lemma atomic_snd: "atomic_res s r Q \<Longrightarrow> P s \<Longrightarrow> (\<And>x t. Q x t \<Longrightarrow> P t) \<Longrightarrow> P (snd r)"
  by (cases r; cases "fst r") (auto simp: atomic_res_def)

lemma write_step_inv:
  assumes "write_inv s"
  shows "write_inv (snd (write_step c s))"
proof -
  obtain wr w where s: "s = (wr, w)" by (cases s)
  have inv: "write_inv (wr, w)" using assms s by simp
  have drop: "snd (drop_value r) = snd r" for r :: "('a, write_state) res" by (simp add: drop_value_def)
  have sub: "write_inv (snd (submit_pinned oid hs ticket q (wr, w)))"
    if "\<not> poisoned wr" "\<And>x d. ticket_lease (ticket x d) = x" "\<And>x d. set (ticket_handles (ticket x d)) \<subseteq> set hs"
    for oid hs ticket q by (rule submit_pinned_inv [OF inv that])
  show ?thesis
  proof (cases c)
    case (SubmitWrite oid h offset n q)
    then show ?thesis
      using inv sub by (simp add: s drop submit_write_def check_writable_def split: lift_res_split)
  next
    case (SubmitGrouped oid hs row_slots heads head_size ok q)
    then show ?thesis
      using inv sub [of "\<lambda>x d. WriteTicket x (hd hs) d True False" hs oid q] hd_in_set [of hs]
      by (cases hs) (simp_all add: s drop submit_grouped_q1_write_def check_writable_def split: lift_res_split)
  next
    case (SubmitMultirow oid hs counts starts blocks begins ids heads head_size ok q)
    then show ?thesis
      using inv sub by (auto simp: s drop submit_packed_multirow_write_def check_writable_def split: lift_res_split)
  next
    case (SubmitMultirowN20 oid hs counts starts blocks begins ids heads head_size ok q)
    then show ?thesis
      using inv sub by (auto simp: s drop submit_packed_multirow_write_n20_def)
  next
    case (SubmitCopy oid source destination n q)
    then show ?thesis
      using inv sub by (simp add: s drop submit_copy_def check_writable_def split: lift_res_split)
  next
    case (CancelWrite t)
    have "write_inv (snd (with_ledger (cancel (ticket_lease t)) (wr, w)))"
      using write_inv_world_step [OF inv, of "CancelUse (ticket_lease t)"]
      by (simp add: foreign_def with_ledger_world [where g = "\<lambda>_. Done"])
    then show ?thesis using CancelWrite inv by (simp add: s cancel_write_def)
  next
    case (PollWrites t events)
    show ?thesis
      using inv
    proof (cases rule: poll_writes_cases [of wr w t events])
      case (timeout e)
      then show ?thesis using inv PollWrites by (simp add: s drop)
    next
      case (rejected e)
      then show ?thesis using inv PollWrites by (simp add: s drop write_inv_def)
    next
      case (consumed acks wr' w')
      then show ?thesis using PollWrites by (simp add: s drop consumed_def)
    qed
  next
    case (TeardownArena e)
    then show ?thesis
      using inv by (auto simp: s teardown_failed_arena_def Let_def write_inv_def split: option.splits)
  next
    case (OtherClient c')
    then show ?thesis
      using inv write_inv_world_step [OF inv] by (simp add: s split: prod.split) (metis snd_conv)
  qed
qed

lemma write_start_inv:
  assumes "write_start s"
  shows "write_inv s"
proof -
  obtain cap p bytes plane_bytes wr l where start: "new_pool cap = Inr p" "new_writer bytes plane_bytes p = Inr (wr, l)"
      "s = (wr, \<lparr>arena = p, tables = [], completion = l\<rparr>)"
    using assms by (auto simp: write_start_def)
  have l: "new_ledger p = Inr l" and wr: "tickets wr = []" "outcomes wr = []" "\<not> torn_down wr"
    using start(2) by (auto simp: new_writer_def split: if_splits)
  have "world_start \<lparr>arena = p, tables = [], completion = l\<rparr>"
    using start(1) l by (auto simp: world_start_def)
  then show ?thesis
    using wr paged_world.inv_init by (simp add: start(3) write_inv_def)
qed

interpretation write_owner: stateful_component write_start write_step write_inv
  using write_start_inv write_step_inv by unfold_locales blast+

section \<open>What the owner guarantees\<close>

lemma ticket_pages_held:
  assumes "write_inv (wr, w)" and "map_of (tickets wr) e = Some t" and "h \<in> set (ticket_handles t)"
  shows "h \<in># held w"
proof -
  obtain hs u where u: "map_of (uses (completion w)) (lease_epoch (ticket_lease t)) = Some u"
      "pins u = mset hs" "h \<in> set hs"
    using write_invD(4) [OF assms(1,2)] assms(3) by (auto simp: ticket_pinned_def in_flight_def lookup_use_Inr pins_def)
  then have "mset hs \<subseteq># pinned (completion w)" using pins_pinned by metis
  then show ?thesis using u(3) by (auto simp: held_def dest: mset_subset_eqD)
qed

text \<open>
  Among all clients of the pool, the page tables and the ledger, every page a write or copy
  ticket names stays active, off the free list and off the pending list for as long as the owner
  holds the ticket, cancelled and ambiguous submissions included.
\<close>

theorem unfinished_writes_stay_pinned:
  assumes "reachable write_start write_step (wr, w)"
    and "(e, t) \<in> set (tickets wr)" and "h \<in> set (ticket_handles t)"
  shows "active h (arena w) \<and> page_id h \<notin> set (free (arena w)) \<and> page_id h \<notin> set (pending_pages (arena w))"
proof -
  have inv: "write_inv (wr, w)" by (rule write_owner.inv_reachable [OF assms(1)])
  have held: "h \<in># held w"
    by (rule ticket_pages_held [OF inv _ assms(3)]) (use assms(2) write_invD(2) [OF inv] in simp)
  have ex: "lease_exact (held w) (arena w)" using world_leases write_invD(1) [OF inv] by blast
  show ?thesis using held leased_not_idle [OF ex] lease_exact_active_iff [OF ex] by simp
qed

section \<open>The pages of a submission\<close>

text \<open>The pages a submission hands to the backend; \<open>submitted_pages\<close> finds them by the lease it got.\<close>

fun call_pages :: "write_call \<Rightarrow> page_handle list option" where
  "call_pages (SubmitWrite oid h offset n q) = Some [h]"
| "call_pages (SubmitGrouped oid hs row_slots heads head_size ok q) = Some hs"
| "call_pages (SubmitMultirow oid hs counts starts blocks begins ids heads head_size ok q) = Some hs"
| "call_pages (SubmitMultirowN20 oid hs counts starts blocks begins ids heads head_size ok q) = Some hs"
| "call_pages (SubmitCopy oid source destination n q) = Some [source, destination]"
| "call_pages _ = None"

definition submitted_pages :: "write_call list \<Rightarrow> write_state \<Rightarrow> completion_lease \<Rightarrow> page_handle list \<Rightarrow> bool" where
  "submitted_pages cs s0 x hs \<longleftrightarrow> (\<exists>before k after. cs = before @ k # after \<and> call_pages k = Some hs
     \<and> lease_epoch x = next_epoch (completion (snd (run_calls write_step before s0)))
     \<and> lease_epoch x < next_epoch (completion (snd (run_calls write_step (before @ [k]) s0))))"

lemma submitted_pages_more: "submitted_pages cs s0 x hs \<Longrightarrow> submitted_pages (cs @ [k]) s0 x hs"
  unfolding submitted_pages_def by (metis append.assoc append_Cons)

text \<open>A step opens at most the ticket of its own submission and keeps the others in flight.\<close>

definition flights_kept :: "write_call \<Rightarrow> write_state \<Rightarrow> write_state \<Rightarrow> bool" where
  "flights_kept c s s' \<longleftrightarrow> pool_run (arena (snd s)) (arena (snd s')) \<and> (\<forall>e t. map_of (tickets (fst s')) e = Some t \<longrightarrow>
     map_of (tickets (fst s)) e = Some t \<and> (\<forall>hs. in_flight (ticket_lease t) hs (completion (snd s)) \<longrightarrow> in_flight (ticket_lease t) hs (completion (snd s')))
     \<or> (\<exists>hs. call_pages c = Some hs \<and> in_flight (ticket_lease t) hs (completion (snd s'))
          \<and> lease_epoch (ticket_lease t) = next_epoch (completion (snd s)) \<and> lease_epoch (ticket_lease t) < next_epoch (completion (snd s'))))"

lemma flights_kept_same: "flights_kept c s s"
  by (simp add: flights_kept_def pool_run_refl)

lemma submit_pinned_flights:
  assumes inv: "write_inv (wr, w)" and c: "call_pages c = Some hs" and t: "\<And>x d. ticket_lease (ticket x d) = x"
  shows "flights_kept c (wr, w) (snd (submit_pinned oid hs ticket q (wr, w)))"
  using inv
proof (cases rule: submit_pinned_cases [of wr w oid hs ticket q])
  case (refused e)
  then show ?thesis using flights_kept_same by simp
next
  case (pinned x w')
  have "lease_epoch x = next_epoch (completion w)" using pinned(1) by simp
  then show ?thesis
    using pinned c t by (auto simp: flights_kept_def update_conv' split: option.split if_splits)
qed

lemma with_ledger_flights:
  assumes inv: "write_inv (wr, w)" and k: "\<And>x b. k \<noteq> CompleteUse x b" and run: "world_step k w = on_ledger g f w"
  shows "flights_kept c (wr, w) (snd (with_ledger f (wr, w)))"
  using in_flight_step [OF write_invD(1) [OF inv], of _ _ k] k world_step_pool_run [of w k]
  by (simp add: with_ledger_world [where g = g] run flights_kept_def)

lemma write_step_flights:
  assumes "write_inv s"
  shows "flights_kept c s (snd (write_step c s))"
proof -
  obtain wr w where s: "s = (wr, w)" by (cases s)
  have inv: "write_inv (wr, w)" using assms s by simp
  have drop: "snd (drop_value r) = snd r" for r :: "('a, write_state) res" by (simp add: drop_value_def)
  note sub = submit_pinned_flights [OF inv]
  show ?thesis
  proof (cases c)
    case (SubmitWrite oid h offset n q)
    then show ?thesis
      using flights_kept_same sub [of c "[h]"] by (simp add: s drop submit_write_def check_writable_def split: lift_res_split)
  next
    case (SubmitGrouped oid hs row_slots heads head_size ok q)
    then show ?thesis
      using flights_kept_same sub [of "SubmitGrouped oid hs row_slots heads head_size ok q" hs]
      by (cases ok) (simp_all add: s drop submit_grouped_q1_write_def check_writable_def split: lift_res_split)
  next
    case (SubmitMultirow oid hs counts starts blocks begins ids heads head_size ok q)
    then show ?thesis
      using flights_kept_same sub [of "SubmitMultirow oid hs counts starts blocks begins ids heads head_size ok q" hs]
      by (cases ok) (simp_all add: s drop submit_packed_multirow_write_def check_writable_def split: lift_res_split)
  next
    case (SubmitMultirowN20 oid hs counts starts blocks begins ids heads head_size ok q)
    then show ?thesis
      using flights_kept_same sub [of "SubmitMultirowN20 oid hs counts starts blocks begins ids heads head_size ok q" hs]
      by (cases ok) (simp_all add: s drop submit_packed_multirow_write_n20_def)
  next
    case (SubmitCopy oid source destination n q)
    then show ?thesis
      using flights_kept_same sub [of c "[source, destination]"] by (simp add: s drop submit_copy_def check_writable_def split: lift_res_split)
  next
    case (CancelWrite t)
    then show ?thesis
      using flights_kept_same with_ledger_flights [OF inv, of "CancelUse (ticket_lease t)" "\<lambda>_. Done" "cancel (ticket_lease t)"]
      by (simp add: s cancel_write_def)
  next
    case (PollWrites t events)
    show ?thesis
      using inv
    proof (cases rule: poll_writes_cases [of wr w t events])
      case (timeout e)
      then show ?thesis using flights_kept_same PollWrites by (simp add: s drop)
    next
      case (rejected e)
      then show ?thesis using PollWrites by (simp add: s drop flights_kept_def pool_run_refl)
    next
      case (consumed acks wr' w')
      note C = consumed(3) [unfolded consumed_def ledger_settled_def]
      have "map_of (tickets wr) e = Some t" if "map_of (tickets wr') e = Some t" for e t
        using C that by (metis option.distinct(1))
      then show ?thesis using PollWrites consumed(1) C by (simp add: s drop flights_kept_def)
    qed
  next
    case (TeardownArena e)
    then show ?thesis
      by (auto simp: s teardown_failed_arena_def Let_def flights_kept_def pool_run_refl split: option.splits)
  next
    case (OtherClient k)
    show ?thesis
    proof (cases "foreign wr k")
      case True
      have "in_flight (ticket_lease t) hs (completion (snd (world_step k w)))"
        if "map_of (tickets wr) e = Some t" "in_flight (ticket_lease t) hs (completion w)" for e t hs
        using in_flight_step [OF write_invD(1) [OF inv] that(2), of k] True map_of_SomeD [OF that(1)] by (force simp: foreign_def)
      then show ?thesis
        using OtherClient True world_step_pool_run [of w k] by (auto simp: s flights_kept_def split: prod.split)
    next
      case False
      then show ?thesis using OtherClient flights_kept_same by (simp add: s)
    qed
  qed
qed

lemma ticket_pages_traced:
  assumes "write_start s0" and "map_of (tickets (fst (run_calls write_step cs s0))) e = Some t"
  shows "\<exists>hs. submitted_pages cs s0 (ticket_lease t) hs \<and> in_flight (ticket_lease t) hs (completion (snd (run_calls write_step cs s0)))"
  using assms(2)
proof (induction cs arbitrary: e t rule: rev_induct)
  case Nil
  have "tickets (fst s0) = []" using assms(1) by (auto simp: write_start_def new_writer_def split: if_splits)
  then show ?case using Nil by simp
next
  case (snoc k cs)
  let ?s = "run_calls write_step cs s0"
  have inv: "write_inv ?s" by (rule write_owner.inv_run) (rule write_start_inv [OF assms(1)])
  have run: "run_calls write_step (cs @ [k]) s0 = snd (write_step k ?s)" by (simp add: run_calls_append)
  have t: "map_of (tickets (fst (snd (write_step k ?s)))) e = Some t" using snoc.prems run by simp
  from write_step_flights [OF inv, of k, unfolded flights_kept_def] t
  have "map_of (tickets (fst ?s)) e = Some t \<and> (\<forall>hs. in_flight (ticket_lease t) hs (completion (snd ?s)) \<longrightarrow>
        in_flight (ticket_lease t) hs (completion (snd (snd (write_step k ?s)))))
     \<or> (\<exists>hs. call_pages k = Some hs \<and> in_flight (ticket_lease t) hs (completion (snd (snd (write_step k ?s))))
          \<and> lease_epoch (ticket_lease t) = next_epoch (completion (snd ?s))
          \<and> lease_epoch (ticket_lease t) < next_epoch (completion (snd (snd (write_step k ?s)))))" by blast
  then show ?case
  proof
    assume "map_of (tickets (fst ?s)) e = Some t \<and> (\<forall>hs. in_flight (ticket_lease t) hs (completion (snd ?s)) \<longrightarrow>
        in_flight (ticket_lease t) hs (completion (snd (snd (write_step k ?s)))))"
    then show ?thesis using snoc.IH [of e t] submitted_pages_more unfolding run by blast
  next
    assume "\<exists>hs. call_pages k = Some hs \<and> in_flight (ticket_lease t) hs (completion (snd (snd (write_step k ?s))))
          \<and> lease_epoch (ticket_lease t) = next_epoch (completion (snd ?s))
          \<and> lease_epoch (ticket_lease t) < next_epoch (completion (snd (snd (write_step k ?s))))"
    then show ?thesis unfolding submitted_pages_def run by (metis run)
  qed
qed

lemma write_run_pool_run: "write_inv s \<Longrightarrow> pool_run (arena (snd s)) (arena (snd (run_calls write_step cs s)))"
proof (induction cs arbitrary: s)
  case (Cons c cs)
  then show ?case using write_step_flights [OF Cons.prems, of c] write_step_inv [OF Cons.prems, of c] pool_run_trans
    by (fastforce simp: flights_kept_def)
qed (simp add: pool_run_refl)

text \<open>A barred page stays off the free list and out of the plans for good.\<close>

lemma barred_stays_out:
  assumes inv: "write_inv s" and b: "barred (page_id h) (generation h) (arena (snd s))"
  shows "page_id h \<notin> set (free (arena (snd (run_calls write_step ds s))))
     \<and> live_generations (arena (snd (run_calls write_step ds s))) (page_id h) = None"
proof -
  let ?s = "run_calls write_step ds s"
  have "pool_inv (arena (snd s))" using lease_exact_inv [OF world_leases [OF write_invD(1)]] inv by (metis prod.collapse)
  then have "barred (page_id h) (generation h) (arena (snd ?s))" using barred_run [OF write_run_pool_run [OF inv] _ b] by blast
  moreover have "pool_inv (arena (snd ?s))"
    using lease_exact_inv [OF world_leases [OF write_invD(1)]] write_owner.inv_run [OF inv] by (metis prod.collapse)
  ultimately show ?thesis using pool_inv_free by (fastforce simp: barred_def live_generations_def)
qed

text \<open>
  C7: A batch of native events
\<close>

theorem native_event_batch_is_atomic:
  assumes "write_start s0" and "run_calls write_step cs s0 = (wr, w)" and "poll_writes wait events (wr, w) = (r, (wr', w'))"
  shows "case r of
      Inl e \<Rightarrow> w' = w \<and> (wr' = wr \<or> wr' = wr\<lparr>poisoned := True\<rparr> \<and> \<not> events_ok wr events)
    | Inr acks \<Rightarrow> events_ok wr events \<and> tables w' = tables w
        \<and> (\<forall>t b. (t, b) \<in> set acks \<longleftrightarrow> (\<exists>e. (e, b) \<in> set events \<and> map_of (tickets wr) e = Some t))
        \<and> (\<forall>e. map_of (tickets wr') e = (if e \<in> fst ` set events then None else map_of (tickets wr) e))
        \<and> (poisoned wr' \<longleftrightarrow> poisoned wr \<or> (\<exists>t. (t, False) \<in> set acks))
        \<and> (\<forall>(t, b) \<in> set acks. ticket_lease t \<in> completed_leases (completion w')
             \<and> (\<exists>hs. submitted_pages cs s0 (ticket_lease t) hs
                  \<and> (b \<or> (\<forall>h \<in> set hs. \<forall>ds. page_id h \<notin> set (free (arena (snd (run_calls write_step ds (wr', w')))))
                           \<and> live_generations (arena (snd (run_calls write_step ds (wr', w')))) (page_id h) = None))))"
proof -
  have inv: "write_inv (wr, w)" using write_owner.inv_run [OF write_start_inv [OF assms(1)], of cs] assms(2) by simp
  then show ?thesis
  proof (cases rule: poll_writes_cases [of wr w wait events])
    case (timeout e)
    then show ?thesis using assms(3) by simp
  next
    case (rejected e)
    then show ?thesis using assms(3) by simp
  next
    case (consumed acks wr2 w2)
    have eqs: "r = Inr acks" "wr' = wr2" "w' = w2" using assms(3) consumed(1) by simp_all
    note C = consumed(3) [unfolded consumed_def ledger_settled_def]
    have pages: "ticket_lease t \<in> completed_leases (completion w2) \<and> (\<exists>hs. submitted_pages cs s0 (ticket_lease t) hs
        \<and> (b \<or> (\<forall>h \<in> set hs. \<forall>ds. page_id h \<notin> set (free (arena (snd (run_calls write_step ds (wr2, w2)))))
               \<and> live_generations (arena (snd (run_calls write_step ds (wr2, w2)))) (page_id h) = None)))"
      if t: "(t, b) \<in> set acks" for t b
    proof -
      obtain e where "map_of (tickets wr) e = Some t" using C t by blast
      then obtain hs where hs: "submitted_pages cs s0 (ticket_lease t) hs" "in_flight (ticket_lease t) hs (completion w)"
        using ticket_pages_traced [OF assms(1), of cs e t] assms(2) by auto
      have closed: "closed_ticket w w2 (t, b)" using C t by blast
      then have "b \<or> (\<forall>h \<in> set hs. barred (page_id h) (generation h) (arena w2))"
        using hs(2) by (auto simp: closed_ticket_def)
      then have "b \<or> (\<forall>h \<in> set hs. \<forall>ds. page_id h \<notin> set (free (arena (snd (run_calls write_step ds (wr2, w2)))))
               \<and> live_generations (arena (snd (run_calls write_step ds (wr2, w2)))) (page_id h) = None)"
        using barred_stays_out [of "(wr2, w2)"] C by simp blast
      then show ?thesis using hs(1) closed by (auto simp: closed_ticket_def)
    qed
    then have "\<forall>(t, b) \<in> set acks. ticket_lease t \<in> completed_leases (completion w2) \<and> (\<exists>hs. submitted_pages cs s0 (ticket_lease t) hs
        \<and> (b \<or> (\<forall>h \<in> set hs. \<forall>ds. page_id h \<notin> set (free (arena (snd (run_calls write_step ds (wr2, w2)))))
               \<and> live_generations (arena (snd (run_calls write_step ds (wr2, w2)))) (page_id h) = None)))" by blast
    then show ?thesis
      using consumed(2) C unfolding eqs sum.case by (intro conjI) simp_all
  qed
qed

text \<open>A poisoned owner only drains.\<close>

definition drains :: "writer \<Rightarrow> writer \<Rightarrow> bool" where
  "drains wr wr' \<longleftrightarrow> (poisoned wr \<longrightarrow> poisoned wr' \<and> set (tickets wr') \<subseteq> set (tickets wr))"

definition is_submission :: "write_call \<Rightarrow> bool" where
  "is_submission c \<longleftrightarrow> (case c of CancelWrite _ \<Rightarrow> False | PollWrites _ _ \<Rightarrow> False | TeardownArena _ \<Rightarrow> False
     | OtherClient _ \<Rightarrow> False | _ \<Rightarrow> True)"

lemma poisoned_submission:
  assumes "poisoned (fst s)" and "is_submission c"
  shows "\<exists>e. write_step c s = (Inl e, s)"
  using assms by (cases c) (simp_all add: is_submission_def drop_value_def check_writable_def submit_write_def
    submit_grouped_q1_write_def submit_packed_multirow_write_def submit_packed_multirow_write_n20_def submit_copy_def)

lemma with_ledger_writer: "fst (snd (with_ledger f (wr, w))) = wr"
  by (simp add: with_ledger_def split: prod.split)

lemma consume_events_drains: "drains wr (fst (snd (consume_events events (wr, w))))"
proof (induction events "(wr, w)" arbitrary: wr w rule: consume_events.induct)
  case (1 wr w)
  then show ?case by (simp add: drains_def)
next
  case (2 e b events wr w)
  show ?case
  proof (cases "map_of (outcomes wr) e \<noteq> None \<or> map_of (tickets wr) e = None")
    case True
    then show ?thesis using "2.hyps"(1) by (auto simp: drains_def)
  next
    case False
    then obtain t where t: "map_of (outcomes wr) e = None" "map_of (tickets wr) e = Some t" by auto
    let ?wr = "wr\<lparr>tickets := AList.delete e (tickets wr)\<rparr>"
    obtain r w' where call: "with_ledger (complete (ticket_lease t) b) (?wr, w) = (r, (?wr, w'))"
      using with_ledger_writer [of "complete (ticket_lease t) b" ?wr w] by (metis prod.collapse)
    have shrink: "set (AList.delete e (tickets wr)) \<subseteq> set (tickets wr)" by (auto simp: AList.delete_eq)
    show ?thesis
    proof (cases r)
      case (Inl x)
      then show ?thesis using t call shrink by (simp add: drains_def)
    next
      case (Inr u)
      have "drains (wr1\<lparr>outcomes := AList.update e b (outcomes wr1), poisoned := poisoned wr1 \<or> \<not> b\<rparr>)
          (fst (snd (consume_events events (wr1\<lparr>outcomes := AList.update e b (outcomes wr1), poisoned := poisoned wr1 \<or> \<not> b\<rparr>, w'))))"
        for wr1
        using "2.hyps"(2) t by simp
      from this [of ?wr] have "drains (?wr\<lparr>outcomes := AList.update e b (outcomes wr), poisoned := poisoned wr \<or> \<not> b\<rparr>)
          (fst (snd (consume_events events (?wr\<lparr>outcomes := AList.update e b (outcomes wr), poisoned := poisoned wr \<or> \<not> b\<rparr>, w'))))"
        by simp
      then show ?thesis
        using t call Inr shrink by (auto simp: drains_def bind_res_def split: prod.splits sum.splits)
    qed
  qed
qed

lemma write_step_drains: "drains (fst s) (fst (snd (write_step c s)))"
proof (cases "is_submission c")
  case True
  then show ?thesis using poisoned_submission [OF _ True, of s] by (fastforce simp: drains_def)
next
  case False
  obtain wr w where s: "s = (wr, w)" by (cases s)
  show ?thesis
  proof (cases c)
    case (PollWrites t events)
    then show ?thesis
      using consume_events_drains [of wr events w]
      by (auto simp: s drop_value_def poll_writes_def drains_def split: lift_res_split sum.split)
  qed (use False in \<open>auto simp: is_submission_def s drains_def cancel_write_def with_ledger_writer
         teardown_failed_arena_def Let_def split: prod.split option.split\<close>)
qed

lemma drains_run: "drains (fst s) (fst (run_calls write_step cs s))"
proof (induction cs arbitrary: s)
  case Nil
  then show ?case by (simp add: drains_def)
next
  case (Cons c cs)
  then show ?case using write_step_drains [of s c] by (fastforce simp: drains_def)
qed

text \<open>
  Poison is permanent: a poisoned owner refuses every submission without any change and its
  tickets only shrink; teardown is refused while a ticket is open, and after teardown no ticket
  ever exists.
\<close>

theorem poisoned_owner_only_drains:
  assumes "reachable write_start write_step s" and "poisoned (fst s)"
    and "s' = run_calls write_step cs s"
  shows "poisoned (fst s') \<and> set (tickets (fst s')) \<subseteq> set (tickets (fst s))
     \<and> (\<forall>c. is_submission c \<longrightarrow> (\<exists>e. write_step c s' = (Inl e, s')))
     \<and> (tickets (fst s) \<noteq> [] \<longrightarrow> fst (write_step (TeardownArena None) s) \<noteq> Inr ())
     \<and> (torn_down (fst s) \<longrightarrow> tickets (fst s') = [])"
proof -
  obtain wr w where s: "s = (wr, w)" by (cases s)
  have inv: "write_inv (wr, w)" using write_owner.inv_reachable [OF assms(1)] s by simp
  have run: "poisoned (fst s')" "set (tickets (fst s')) \<subseteq> set (tickets (fst s))"
    using drains_run [of s cs] assms(2,3) by (auto simp: drains_def)
  moreover have "fst (write_step (TeardownArena None) s) \<noteq> Inr ()" if "tickets (fst s) \<noteq> []"
    using that assms(2) write_invD(8) [OF inv] by (auto simp: s teardown_failed_arena_def Let_def)
  moreover have "tickets (fst s') = []" if "torn_down (fst s)"
    using that run(2) write_invD(8) [OF inv] by (simp add: s)
  ultimately show ?thesis using poisoned_submission by blast
qed

section \<open>A concrete run\<close>

text \<open>
  A table of 70 tokens on two pages of 128 bytes; a write of its first page in flight, and a copy
  between the two whose enqueue raised.
\<close>

definition demo_write_start :: write_state where
  "demo_write_start =
     (\<lparr>page_bytes = 128, poisoned = False, tickets = [], outcomes = [], torn_down = False\<rparr>, demo_world)"

definition demo_write_calls :: "write_call list" where
  "demo_write_calls = [OtherClient OpenTable, OtherClient (AppendTokens 0 70 0), SubmitWrite 7 (PageHandle 0 1) 0 64 (Some 5),
      SubmitCopy 8 (PageHandle 0 1) (PageHandle 1 1) 128 None]"

definition demo_writes :: write_state where
  "demo_writes = run_calls write_step demo_write_calls demo_write_start"

abbreviation "demo_copy \<equiv> CopyTicket (CompletionLease 2 8) (PageHandle 0 1) (PageHandle 1 1) None"

lemma demo_write_started: "write_start demo_write_start"
proof -
  have "new_pool 3 = Inr (arena demo_world)" "new_writer 128 384 (arena demo_world) = Inr (fst demo_write_start, completion demo_world)"
    "tables demo_world = []"
    by code_simp+
  moreover have "demo_world = \<lparr>arena = arena demo_world, tables = tables demo_world, completion = completion demo_world\<rparr>" by simp
  ultimately show ?thesis
    unfolding write_start_def by (metis demo_write_start_def fst_conv)
qed

lemma demo_writes_reachable: "reachable write_start write_step demo_writes"
  unfolding demo_writes_def by (intro reachable_run_calls reachable_init demo_write_started)

lemma demo_writes_pair: "demo_writes = (fst demo_writes, snd demo_writes)"
  by simp

lemma demo_writes_tickets:
  "tickets (fst demo_writes) = [(1, WriteTicket (CompletionLease 1 7) (PageHandle 0 1) (Some 5) False False), (2, demo_copy)]"
  "poisoned (fst demo_writes)"
  by code_simp+

theorem unfinished_writes_stay_pinned_witness:
  "active (PageHandle 1 1) (arena (snd demo_writes)) \<and> 1 \<notin> set (free (arena (snd demo_writes)))"
  using unfinished_writes_stay_pinned [of "fst demo_writes" "snd demo_writes" 2 demo_copy "PageHandle 1 1"]
    demo_writes_reachable demo_writes_tickets by simp

lemma demo_copy_pages:
  assumes "submitted_pages demo_write_calls demo_write_start (CompletionLease 2 8) hs"
  shows "hs = [PageHandle 0 1, PageHandle 1 1]"
proof -
  have "next_epoch (completion (snd (run_calls write_step (take 2 demo_write_calls) demo_write_start))) = 1"
    by code_simp
  then show ?thesis
    using assms by (auto simp: submitted_pages_def demo_write_calls_def Cons_eq_append_conv)
qed

theorem native_event_batch_is_atomic_witness:
  "(case poll_writes (Some (Finite 1)) [(2, False), (1, True)] demo_writes of
      (Inr acks, s') \<Rightarrow> (demo_copy, False) \<in> set acks \<and> tickets (fst s') = [] \<and> poisoned (fst s')
        \<and> (\<forall>ds. live_generations (arena (snd (run_calls write_step ds s'))) 0 = None
               \<and> live_generations (arena (snd (run_calls write_step ds s'))) 1 = None)
    | _ \<Rightarrow> False)"
proof -
  obtain r wr' w' where run: "poll_writes (Some (Finite 1)) [(2, False), (1, True)] demo_writes = (r, (wr', w'))"
    by (metis prod.collapse)
  have "isl (fst (poll_writes (Some (Finite 1)) [(2, False), (1, True)] demo_writes)) = False"
    and none: "tickets (fst (snd (poll_writes (Some (Finite 1)) [(2, False), (1, True)] demo_writes))) = []"
    by code_simp+
  then obtain acks where r: "r = Inr acks" using run by (cases r) auto
  have t: "map_of (tickets (fst demo_writes)) 2 = Some demo_copy" by (simp add: demo_writes_tickets)
  have start: "run_calls write_step demo_write_calls demo_write_start = (fst demo_writes, snd demo_writes)"
    by (simp add: demo_writes_def)
  have atomic: "\<forall>t b. (t, b) \<in> set acks \<longleftrightarrow> (\<exists>e. (e, b) \<in> set [(2, False), (1, True)] \<and> map_of (tickets (fst demo_writes)) e = Some t)"
    "poisoned wr' \<longleftrightarrow> poisoned (fst demo_writes) \<or> (\<exists>t. (t, False) \<in> set acks)"
    "\<forall>(t, b) \<in> set acks. ticket_lease t \<in> completed_leases (completion w')
       \<and> (\<exists>hs. submitted_pages demo_write_calls demo_write_start (ticket_lease t) hs
            \<and> (b \<or> (\<forall>h \<in> set hs. \<forall>ds. page_id h \<notin> set (free (arena (snd (run_calls write_step ds (wr', w')))))
                     \<and> live_generations (arena (snd (run_calls write_step ds (wr', w')))) (page_id h) = None)))"
    using native_event_batch_is_atomic [OF demo_write_started start, of "Some (Finite 1)" "[(2, False), (1, True)]" r wr' w']
      run unfolding r prod.collapse sum.case by blast+
  have ack: "(demo_copy, False) \<in> set acks" using atomic(1) t by (metis list.set_intros(1))
  then obtain hs where hs: "submitted_pages demo_write_calls demo_write_start (CompletionLease 2 8) hs"
    "\<forall>h \<in> set hs. \<forall>ds. live_generations (arena (snd (run_calls write_step ds (wr', w')))) (page_id h) = None"
    using atomic(3) by fastforce
  have "\<forall>ds. live_generations (arena (snd (run_calls write_step ds (wr', w')))) 0 = None
      \<and> live_generations (arena (snd (run_calls write_step ds (wr', w')))) 1 = None"
    using hs(2) unfolding demo_copy_pages [OF hs(1)] by simp
  then show ?thesis using atomic(2) ack none by (simp add: run r) blast
qed

theorem poisoned_owner_only_drains_witness:
  "fst (write_step (TeardownArena None) demo_writes) \<noteq> Inr ()
     \<and> poisoned (fst (run_calls write_step [PollWrites None [(1, True)]] demo_writes))"
  using poisoned_owner_only_drains [OF demo_writes_reachable demo_writes_tickets(2) refl, of "[PollWrites None [(1, True)]]"]
    demo_writes_tickets(1) by simp

end
