(* ===== verification/PagedCache.thy ===== *)
theory PagedCache
  imports PagedWrite AttentionPlan "HOL-Library.Word"
begin

text \<open>
  The private paged KV leaf of \<^verbatim>\<open>runtime/paged_kv_cache.py\<close>: \<open>PagedKVPrivateCache\<close>, the frozen
  prefix \<open>FrozenPagedKV\<close> and the reader pin \<open>AttentionUse\<close>, on top of the write owner.

  A cache owns one page table of the world, named by its index.  A branch or a freeze forks a table,
  so the code's assignment \<open>child.sequence = ...\<close> leaves the fresh empty table of the constructor
  behind.  The bytes are lists of 8-bit words.  The identity of the leases and whether an enqueue
  returned are given by \<open>env\<close>, one entry for each write of an append; \<open>native\<close> says whether the
  backend is the native one.

  The staging headroom a branch reserves is a tuple of page handles in the code.  Here each reserved
  page is a table of its own with that one page, and \<open>staging_reservation\<close> names these tables, so
  that the account of leases over all tables stays exact; no other operation reads them.
\<close>

section \<open>State\<close>

type_synonym bytes = "8 word list"

record exact_export =
  export_keys :: bytes
  export_vals :: bytes
  export_tokens :: int
  export_heads :: int
  export_dim :: int
  export_dtype :: string

record private_cache =
  cache_table :: nat
  cache_heads :: int
  cache_dim :: int
  cache_dtype :: string
  token_bytes :: int
  key_store :: bytes
  val_store :: bytes
  awaiting :: "write_ticket list"
  in_staging :: "(bytes \<times> bytes) option"
  cache_failed :: bool
  cache_closed :: bool
  staging_reservation :: "nat list"

record frozen_kv =
  frozen_table :: nat
  frozen_export :: exact_export
  frozen_closed :: bool

datatype reader_state = UsePrepared | UseSubmitted | UseClosed

record attention_use =
  used_plan :: attention_plan
  used_lease :: completion_lease
  reader :: reader_state
  completed_successfully :: bool

type_synonym cache_state = "private_cache \<times> write_state"

section \<open>Calls on the shared state\<close>

definition at_table :: "nat \<Rightarrow> (seq_state \<Rightarrow> ('a, seq_state) res) \<Rightarrow> write_state \<Rightarrow> ('a, write_state) res" where
  "at_table i f s =
     (let (wr, w) = s; (r, (sq, p)) = f (tables w ! i, arena w)
      in (r, (wr, w\<lparr>arena := p, tables := (tables w)[i := sq]\<rparr>)))"

definition at_arena :: "(pool \<Rightarrow> ('a, pool) res) \<Rightarrow> write_state \<Rightarrow> ('a, write_state) res" where
  "at_arena f s = (let (wr, w) = s; (r, p) = f (arena w) in (r, (wr, w\<lparr>arena := p\<rparr>)))"

text \<open>A fork becomes a new table.\<close>

definition fork_new :: "nat \<Rightarrow> write_state \<Rightarrow> (nat, write_state) res" where
  "fork_new i s =
     bind_res (at_table i fork s) (\<lambda>child (wr, w).
       (Inr (length (tables w)), (wr, w\<lparr>tables := tables w @ [child]\<rparr>)))"

text \<open>Reserved pages, and what hands them back to the pool.\<close>

definition reserved_table :: "page_handle \<Rightarrow> sequence" where
  "reserved_table h = new_sequence\<lparr>kv_end := PAGE_SIZE, pages := [h]\<rparr>"

definition reserved_pages :: "nat list \<Rightarrow> sequence list \<Rightarrow> page_handle list" where
  "reserved_pages ks ts = concat (map (\<lambda>k. pages (ts ! k)) ks)"

definition reserve_headroom :: "int \<Rightarrow> write_state \<Rightarrow> (nat list, write_state) res" where
  "reserve_headroom n s =
     bind_res (at_arena (reserve n) s) (\<lambda>hs (wr, w).
       (Inr [length (tables w)..<length (tables w) + length hs],
        (wr, w\<lparr>tables := tables w @ map reserved_table hs\<rparr>)))"

fun empty_tables :: "nat list \<Rightarrow> sequence list \<Rightarrow> sequence list" where
  "empty_tables [] ts = ts"
| "empty_tables (k # ks) ts = empty_tables ks (ts[k := (ts ! k)\<lparr>pages := [], closed := True\<rparr>])"

definition release_headroom :: "nat list \<Rightarrow> int \<Rightarrow> write_state \<Rightarrow> (unit, write_state) res" where
  "release_headroom ks after s =
     bind_res (at_arena (release (reserved_pages ks (tables (snd s))) after) s) (\<lambda>_ (wr, w).
       (Inr (), (wr, w\<lparr>tables := empty_tables ks (tables w)\<rparr>)))"

definition on_state :: "private_cache \<Rightarrow> ('a, write_state) res \<Rightarrow> ('a, cache_state) res" where
  "on_state c r = (fst r, (c, snd r))"

definition table_of :: "private_cache \<Rightarrow> write_state \<Rightarrow> sequence" where
  "table_of c s = tables (snd s) ! cache_table c"

definition ledger_now :: "write_state \<Rightarrow> int" where
  "ledger_now s = ledger_epoch (completion (snd s))"

section \<open>The private cache\<close>

definition new_cache :: "int \<Rightarrow> int \<Rightarrow> string \<Rightarrow> write_state \<Rightarrow> (private_cache, write_state) res" where
  "new_cache heads head_size dtype s =
     lift_res (positive_check ''kv_heads'' heads U32_MAX) s (\<lambda>_.
     if dtype \<notin> {''float16'', ''bfloat16''} \<or> head_size \<notin> {128, 256}
     then (Inl (ValueError ''unsupported private paged KV profile''), s)
     else let width = heads * head_size * 2
          in if page_bytes (fst s) \<noteq> PAGE_SIZE * width
             then (Inl (ValueError ''writer page geometry does not match KV profile''), s)
             else (Inr \<lparr>cache_table = length (tables (snd s)), cache_heads = heads, cache_dim = head_size, cache_dtype = dtype,
                        token_bytes = width, key_store = [], val_store = [], awaiting = [], in_staging = None,
                        cache_failed = False, cache_closed = False, staging_reservation = []\<rparr>,
                   (fst s, (snd s)\<lparr>tables := tables (snd s) @ [new_sequence]\<rparr>)))"

definition cache_offset :: "private_cache \<Rightarrow> int" where
  "cache_offset c = int (length (key_store c)) div token_bytes c"

definition cache_ready :: "private_cache \<Rightarrow> writer \<Rightarrow> exc + unit" where
  "cache_ready c wr =
     (if cache_closed c \<or> cache_failed c \<or> poisoned wr then Inl (RuntimeError ''private paged KV is closed or failed'')
      else if awaiting c \<noteq> [] then Inl (RuntimeError ''private paged KV append is pending'') else Inr ())"

text \<open>The loop of \<open>append\<close>; an exception carries the tickets submitted so far.\<close>

function append_spans :: "(nat \<Rightarrow> nat \<times> nat option) \<Rightarrow> private_cache \<Rightarrow> int \<Rightarrow> int \<Rightarrow> int \<Rightarrow> write_ticket list
    \<Rightarrow> write_state \<Rightarrow> ((exc \<times> write_ticket list) + write_ticket list) \<times> write_state" where
  "append_spans env c old_end tokens_in cursor ts s =
     (if \<not> cursor < tokens_in then (Inr ts, s)
      else let token = old_end + cursor;
               amount = min (tokens_in - cursor) (PAGE_SIZE - token mod PAGE_SIZE)
           in case py_index (token div PAGE_SIZE - first_block (table_of c s)) (pages (table_of c s)) of
                Inl e \<Rightarrow> (Inl (e, ts), s)
              | Inr h \<Rightarrow>
                  (case submit_write (fst (env (length ts))) h (token mod PAGE_SIZE * token_bytes c)
                          (amount * token_bytes c) (snd (env (length ts))) s of
                     (Inl e, s') \<Rightarrow> (Inl (e, ts), s')
                   | (Inr t, s') \<Rightarrow> append_spans env c old_end tokens_in (cursor + amount) (ts @ [t]) s'))"
  by pat_completeness auto
termination
proof (relation "measure (\<lambda>(env, c, old_end, tokens_in, cursor, ts, s). nat (tokens_in - cursor))", goal_cases)
  case (2 env c old_end tokens_in cursor ts s token amount)
  have "token mod PAGE_SIZE < PAGE_SIZE" by (simp add: PAGE_SIZE_def)
  then have "0 < amount" using 2 by simp
  then show ?case using 2 by simp
qed simp

declare append_spans.simps [simp del]

definition append_kv :: "(nat \<Rightarrow> nat \<times> nat option) \<Rightarrow> bool \<Rightarrow> bytes \<Rightarrow> bytes \<Rightarrow> cache_state \<Rightarrow> (write_ticket list, cache_state) res" where
  "append_kv env native new_keys new_vals cs = (case cs of (c, s) \<Rightarrow>
     lift_res (cache_ready c (fst s)) cs (\<lambda>_.
     if native
     then (Inl (ValueError ''token-major private cache staging cannot write the native head-major arena''), cs)
     else if new_keys = [] \<or> length new_keys \<noteq> length new_vals \<or> int (length new_keys) mod token_bytes c \<noteq> 0
     then (Inl (ValueError ''K/V payloads must contain equal whole tokens''), cs)
     else
       let tokens_in = int (length new_keys) div token_bytes c; sq = table_of c s; old_end = kv_end sq; p = arena (snd s)
       in if old_end + tokens_in > U32_MAX then (Inl (ValueError ''KV end exceeds uint32''), cs)
       else lift_res (tail_shared 1 sq p) cs (\<lambda>shared.
         if shared then (Inl (ValueError ''shared partial tail requires staged native COW''), cs)
         else if (old_end + tokens_in - 1) div PAGE_SIZE + 1 - int (length (pages sq)) > int (free_count p)
         then (Inl (MemoryError ''paged KV arena has insufficient retired pages''), cs)
         else bind_res (on_state c (at_table (cache_table c) (append_tokens tokens_in (ledger_now s)) s)) (\<lambda>_ (c, s).
           case append_spans env c old_end tokens_in 0 [] s of
             (Inl (e, ts), s) \<Rightarrow> (Inl e, (c\<lparr>cache_failed := True, awaiting := ts\<rparr>, s))
           | (Inr ts, s) \<Rightarrow> (Inr ts, (c\<lparr>awaiting := ts, in_staging := Some (new_keys, new_vals)\<rparr>, s))))))"

definition poll_cache :: "(int \<times> bool) list \<Rightarrow> cache_state \<Rightarrow> (bool, cache_state) res" where
  "poll_cache events cs = (case cs of (c, s) \<Rightarrow>
     bind_res (on_state c (poll_writes None events s)) (\<lambda>acks (c, s).
       let c = c\<lparr>cache_failed := cache_failed c \<or> (\<exists>a \<in> set acks. \<not> snd a) \<or> poisoned (fst s)\<rparr>
       in if awaiting c = [] then (Inr False, (c, s))
          else if \<exists>t \<in> set (awaiting c). lease_epoch (ticket_lease t) \<in> set (pending_epochs (fst s))
          then (Inr False, (c, s))
          else let c = c\<lparr>awaiting := []\<rparr>
               in if cache_failed c then (Inr False, (c\<lparr>in_staging := None\<rparr>, s))
                  else case in_staging c of
                         None \<Rightarrow> (Inl AssertionError, (c, s))
                       | Some (new_keys, new_vals) \<Rightarrow>
                           (Inr True, (c\<lparr>key_store := key_store c @ new_keys, val_store := val_store c @ new_vals,
                                        in_staging := None\<rparr>, s))))"

definition export_exact :: "cache_state \<Rightarrow> exc + exact_export" where
  "export_exact cs = (case cs of (c, s) \<Rightarrow>
     bind_sum (cache_ready c (fst s)) (\<lambda>_.
       Inr \<lparr>export_keys = key_store c, export_vals = val_store c, export_tokens = cache_offset c,
            export_heads = cache_heads c, export_dim = cache_dim c, export_dtype = cache_dtype c\<rparr>))"

definition suffix_plan :: "int \<Rightarrow> int \<Rightarrow> string \<Rightarrow> int option \<Rightarrow> private_cache \<Rightarrow> write_state \<Rightarrow> attention_plan" where
  "suffix_plan rows heads kind window c s =
     (let hs = pages (table_of c s); p = arena (snd s); offset = cache_offset c
      in \<lparr>plan_spans = [\<lparr>row_begin = 0, row_count = rows, query_start = offset - rows, span_kv_end = offset,
                         span_retained_start = 0, span_first_block = 0, table_begin = 0, table_count = int (length hs),
                         owner_generation = 1, mask_kind = kind, span_window = window\<rparr>],
          page_table = hs, total_rows = rows, query_heads = heads, kv_heads = cache_heads c, head_dim = cache_dim c,
          plan_dtype = cache_dtype c, pool_capacity = int (capacity p), plan_generations = live_generations p,
          max_work_items = 65536, max_scratch_bytes = 2 ^ 30, plan_profile = ''dense_vector_v1'', page_size = PAGE_SIZE\<rparr>)"

definition attention :: "nat \<Rightarrow> int \<Rightarrow> int \<Rightarrow> string \<Rightarrow> int option \<Rightarrow> cache_state \<Rightarrow> (attention_use, cache_state) res" where
  "attention oid rows heads kind window cs = (case cs of (c, s) \<Rightarrow>
     lift_res (cache_ready c (fst s)) cs (\<lambda>_.
     lift_res (positive_check ''row_count'' rows U32_MAX) cs (\<lambda>_.
     if rows > cache_offset c then (Inl (ValueError ''query rows exceed accepted KV''), cs)
     else bind_res (on_state c (with_ledger (prepare oid (pages (table_of c s))) s)) (\<lambda>x (c, s).
       let pl = suffix_plan rows heads kind window c s
       in case check_plan pl of
            Inl e \<Rightarrow> bind_res (on_state c (with_ledger (abort_before_submit x) s)) (\<lambda>_ cs. (Inl e, cs))
          | Inr _ \<Rightarrow> (Inr \<lparr>used_plan = pl, used_lease = x, reader = UsePrepared, completed_successfully = False\<rparr>, (c, s))))))"

definition close_cache :: "cache_state \<Rightarrow> (unit, cache_state) res" where
  "close_cache cs = (case cs of (c, s) \<Rightarrow>
     if cache_closed c then (Inr (), cs)
     else let epochs = pending_epochs (fst s); after = (if epochs = [] then ledger_now s else Max (set epochs))
       in bind_res (on_state c (at_table (cache_table c) (abort after) s)) (\<lambda>_ (c, s).
          bind_res (if staging_reservation c \<noteq> []
                    then bind_res (on_state c (release_headroom (staging_reservation c) after s))
                           (\<lambda>_ (c, s). (Inr (), (c\<lparr>staging_reservation := []\<rparr>, s)))
                    else (Inr (), (c, s))) (\<lambda>_ (c, s).
          bind_res (on_state c (at_arena (retire (ledger_now s)) s)) (\<lambda>_ (c, s).
            (Inr (), (c\<lparr>cache_closed := True\<rparr>, s))))))"

section \<open>Frozen prefixes and readers\<close>

definition freeze_exact :: "cache_state \<Rightarrow> (frozen_kv, cache_state) res" where
  "freeze_exact cs = (case cs of (c, s) \<Rightarrow>
     lift_res (cache_ready c (fst s)) cs (\<lambda>_.
     bind_res (on_state c (fork_new (cache_table c) s)) (\<lambda>i cs.
     lift_res (export_exact cs) cs (\<lambda>x.
       (Inr \<lparr>frozen_table = i, frozen_export = x, frozen_closed = False\<rparr>, cs)))))"

text \<open>On an exception the reserved headroom goes back to the pool; an exception of that is the one raised.\<close>

definition branch_child :: "frozen_kv \<Rightarrow> nat list \<Rightarrow> write_state \<Rightarrow> (private_cache, write_state) res" where
  "branch_child f reserved s =
     (let x = frozen_export f
      in bind_res (new_cache (export_heads x) (export_dim x) (export_dtype x) s) (\<lambda>c s.
         bind_res (fork_new (frozen_table f) s) (\<lambda>i s.
           (Inr (c\<lparr>cache_table := i, key_store := export_keys x, val_store := export_vals x,
                   staging_reservation := reserved\<rparr>), s))))"

definition branch :: "int \<Rightarrow> frozen_kv \<Rightarrow> write_state \<Rightarrow> (private_cache, write_state) res" where
  "branch headroom f s =
     (if frozen_closed f then (Inl (RuntimeError ''frozen paged prefix is closed''), s)
      else if headroom < 0 then (Inl (ValueError ''staging headroom must be a nonnegative page count''), s)
      else if int (free_count (arena (snd s))) < headroom then (Inl (MemoryError ''paged branch lacks staging headroom''), s)
      else bind_res (if headroom \<noteq> 0 then reserve_headroom headroom s else (Inr [], s)) (\<lambda>reserved s.
        case branch_child f reserved s of
          (Inr c, s) \<Rightarrow> (Inr c, s)
        | (Inl e, s) \<Rightarrow>
            if reserved = [] then (Inl e, s)
            else bind_res (release_headroom reserved (ledger_now s) s) (\<lambda>_ s.
                 bind_res (at_arena (retire (ledger_now s)) s) (\<lambda>_ s. (Inl e, s)))))"

definition close_frozen :: "frozen_kv \<times> write_state \<Rightarrow> (unit, frozen_kv \<times> write_state) res" where
  "close_frozen fs = (case fs of (f, s) \<Rightarrow>
     if frozen_closed f then (Inr (), fs)
     else case bind_res (at_table (frozen_table f) (abort (ledger_now s)) s) (\<lambda>_ s. at_arena (retire (ledger_now s)) s) of
            (Inl e, s) \<Rightarrow> (Inl e, (f, s))
          | (Inr _, s) \<Rightarrow> (Inr (), (f\<lparr>frozen_closed := True\<rparr>, s)))"

definition mark_submitted :: "attention_use \<times> write_state \<Rightarrow> (unit, attention_use \<times> write_state) res" where
  "mark_submitted us = (case us of (u, s) \<Rightarrow>
     if reader u \<noteq> UsePrepared then (Inl (ValueError ''attention use is not prepared''), us)
     else case with_ledger (submit (used_lease u)) s of
            (Inl e, s) \<Rightarrow> (Inl e, (u, s)) | (Inr _, s) \<Rightarrow> (Inr (), (u\<lparr>reader := UseSubmitted\<rparr>, s)))"

definition abort_use :: "attention_use \<times> write_state \<Rightarrow> (unit, attention_use \<times> write_state) res" where
  "abort_use us = (case us of (u, s) \<Rightarrow>
     if reader u \<noteq> UsePrepared then (Inl (ValueError ''submitted attention needs terminal proof''), us)
     else case with_ledger (abort_before_submit (used_lease u)) s of
            (Inl e, s) \<Rightarrow> (Inl e, (u, s)) | (Inr _, s) \<Rightarrow> (Inr (), (u\<lparr>reader := UseClosed\<rparr>, s)))"

definition complete_after_proof :: "bool \<Rightarrow> attention_use \<times> write_state \<Rightarrow> (unit, attention_use \<times> write_state) res" where
  "complete_after_proof succeeded us = (case us of (u, s) \<Rightarrow>
     if reader u \<noteq> UseSubmitted then (Inl (ValueError ''attention use is not submitted''), us)
     else case with_ledger (complete (used_lease u) True) s of
            (Inl e, s) \<Rightarrow> (Inl e, (u, s))
          | (Inr _, s) \<Rightarrow> (Inr (), (u\<lparr>completed_successfully := succeeded, reader := UseClosed\<rparr>, s)))"

section \<open>The caches, prefixes and readers of one owner\<close>

record cache_world =
  backing :: write_state
  caches :: "private_cache list"
  snapshots :: "frozen_kv list"
  readers :: "attention_use list"

text \<open>
  The calls.  Other clients of the owner, the pool and the ledger make any call that leaves the
  tables of the caches, of their reservations and of the prefixes alone.
\<close>

datatype cache_call =
    NewCache int int string
  | AppendKV nat "nat \<Rightarrow> nat \<times> nat option" bool bytes bytes
  | PollCache nat "(int \<times> bool) list"
  | Attend nat nat int int string "int option"
  | FreezeCache nat
  | CloseCache nat
  | BranchFrozen nat int
  | CloseFrozen nat
  | MarkSubmitted nat
  | AbortReader nat
  | CompleteReader nat bool
  | OtherWrite write_call

definition footprint :: "private_cache \<Rightarrow> nat list" where
  "footprint c = cache_table c # staging_reservation c"

definition owned :: "cache_world \<Rightarrow> nat list" where
  "owned s = concat (map footprint (caches s)) @ map frozen_table (snapshots s)"

definition touched :: "write_call \<Rightarrow> nat set" where
  "touched c = (case c of
     OtherClient (AppendTokens i n after) \<Rightarrow> {i} | OtherClient (StageAppend i oid n reuse) \<Rightarrow> {i}
   | OtherClient (CommitAppend i st after) \<Rightarrow> {i} | OtherClient (DiscardAppend i st after) \<Rightarrow> {i}
   | OtherClient (TrimTable i start after) \<Rightarrow> {i} | OtherClient (TruncateTable i e after) \<Rightarrow> {i}
   | OtherClient (AbortTable i after) \<Rightarrow> {i} | _ \<Rightarrow> {})"

definition at_cache :: "nat \<Rightarrow> (cache_state \<Rightarrow> ('a, cache_state) res) \<Rightarrow> cache_world \<Rightarrow> (unit, cache_world) res" where
  "at_cache i f s =
     (if i < length (caches s)
      then (case f (caches s ! i, backing s) of (r, (c, b)) \<Rightarrow>
              (map_sum id (\<lambda>_. ()) r, s\<lparr>caches := (caches s)[i := c], backing := b\<rparr>))
      else (Inl (IndexError ''no such cache''), s))"

definition at_snapshot :: "nat \<Rightarrow> (frozen_kv \<times> write_state \<Rightarrow> (unit, frozen_kv \<times> write_state) res) \<Rightarrow> cache_world \<Rightarrow> (unit, cache_world) res" where
  "at_snapshot j f s =
     (if j < length (snapshots s)
      then (case f (snapshots s ! j, backing s) of (r, (x, b)) \<Rightarrow> (r, s\<lparr>snapshots := (snapshots s)[j := x], backing := b\<rparr>))
      else (Inl (IndexError ''no such prefix''), s))"

definition at_reader :: "nat \<Rightarrow> (attention_use \<times> write_state \<Rightarrow> (unit, attention_use \<times> write_state) res) \<Rightarrow> cache_world \<Rightarrow> (unit, cache_world) res" where
  "at_reader k f s =
     (if k < length (readers s)
      then (case f (readers s ! k, backing s) of (r, (u, b)) \<Rightarrow> (r, s\<lparr>readers := (readers s)[k := u], backing := b\<rparr>))
      else (Inl (IndexError ''no such reader''), s))"

fun cache_step :: "cache_call \<Rightarrow> cache_world \<Rightarrow> (unit, cache_world) res" where
  "cache_step (NewCache heads head_size dtype) s =
     (case new_cache heads head_size dtype (backing s) of
        (Inl e, b) \<Rightarrow> (Inl e, s\<lparr>backing := b\<rparr>) | (Inr c, b) \<Rightarrow> (Inr (), s\<lparr>backing := b, caches := caches s @ [c]\<rparr>))"
| "cache_step (AppendKV i env native new_keys new_vals) s = at_cache i (append_kv env native new_keys new_vals) s"
| "cache_step (PollCache i events) s = at_cache i (poll_cache events) s"
| "cache_step (Attend i oid rows heads kind window) s =
     (if i < length (caches s)
      then (case attention oid rows heads kind window (caches s ! i, backing s) of
              (Inl e, (c, b)) \<Rightarrow> (Inl e, s\<lparr>caches := (caches s)[i := c], backing := b\<rparr>)
            | (Inr u, (c, b)) \<Rightarrow> (Inr (), s\<lparr>caches := (caches s)[i := c], backing := b, readers := readers s @ [u]\<rparr>))
      else (Inl (IndexError ''no such cache''), s))"
| "cache_step (FreezeCache i) s =
     (if i < length (caches s)
      then (case freeze_exact (caches s ! i, backing s) of
              (Inl e, (c, b)) \<Rightarrow> (Inl e, s\<lparr>caches := (caches s)[i := c], backing := b\<rparr>)
            | (Inr f, (c, b)) \<Rightarrow> (Inr (), s\<lparr>caches := (caches s)[i := c], backing := b, snapshots := snapshots s @ [f]\<rparr>))
      else (Inl (IndexError ''no such cache''), s))"
| "cache_step (CloseCache i) s = at_cache i close_cache s"
| "cache_step (BranchFrozen j headroom) s =
     (if j < length (snapshots s)
      then (case branch headroom (snapshots s ! j) (backing s) of
              (Inl e, b) \<Rightarrow> (Inl e, s\<lparr>backing := b\<rparr>) | (Inr c, b) \<Rightarrow> (Inr (), s\<lparr>backing := b, caches := caches s @ [c]\<rparr>))
      else (Inl (IndexError ''no such prefix''), s))"
| "cache_step (CloseFrozen j) s = at_snapshot j close_frozen s"
| "cache_step (MarkSubmitted k) s = at_reader k mark_submitted s"
| "cache_step (AbortReader k) s = at_reader k abort_use s"
| "cache_step (CompleteReader k succeeded) s = at_reader k (complete_after_proof succeeded) s"
| "cache_step (OtherWrite c) s =
     (if touched c \<inter> set (owned s) = {}
      then (case write_step c (backing s) of (r, b) \<Rightarrow> (r, s\<lparr>backing := b\<rparr>))
      else (Inl (ValueError ''table of a cache''), s))"

definition cache_start :: "cache_world \<Rightarrow> bool" where
  "cache_start s \<longleftrightarrow> write_start (backing s) \<and> caches s = [] \<and> snapshots s = [] \<and> readers s = []"

section \<open>What every call keeps\<close>

definition known_ticket :: "writer \<Rightarrow> write_ticket \<Rightarrow> bool" where
  "known_ticket wr t \<longleftrightarrow> map_of (tickets wr) (lease_epoch (ticket_lease t)) \<noteq> None
     \<or> map_of (outcomes wr) (lease_epoch (ticket_lease t)) \<noteq> None"

text \<open>\<open>advance T s s'\<close>: from \<open>s\<close> the shared state went on to \<open>s'\<close> and only tables in \<open>T\<close> changed.\<close>

definition advance :: "nat set \<Rightarrow> write_state \<Rightarrow> write_state \<Rightarrow> bool" where
  "advance T s s' \<longleftrightarrow> (let (wr, w) = s; (wr', w') = s' in
     write_inv (wr', w') \<and> page_bytes wr' = page_bytes wr \<and> (poisoned wr \<longrightarrow> poisoned wr')
   \<and> (\<forall>e. map_of (outcomes wr) e \<noteq> None \<longrightarrow> map_of (outcomes wr') e = map_of (outcomes wr) e)
   \<and> (\<forall>t. known_ticket wr t \<longrightarrow> known_ticket wr' t)
   \<and> next_epoch (completion w) \<le> next_epoch (completion w')
   \<and> (\<forall>e < next_epoch (completion w). map_of (tickets wr) e = None \<longrightarrow> map_of (tickets wr') e = None)
   \<and> length (tables w) \<le> length (tables w')
   \<and> (\<forall>i < length (tables w). i \<notin> T \<longrightarrow> tables w' ! i = tables w ! i))"

lemma advance_refl: "write_inv s \<Longrightarrow> advance T s s"
  by (cases s) (simp add: advance_def)

lemma advance_trans: "advance T s1 s2 \<Longrightarrow> advance T s2 s3 \<Longrightarrow> advance T s1 s3"
  by (cases s1; cases s2; cases s3) (simp add: advance_def)

lemma advance_mono: "advance T s s' \<Longrightarrow> T \<subseteq> U \<Longrightarrow> advance U s s'"
  by (cases s; cases s') (auto simp: advance_def)

lemma advance_inv: "advance T s s' \<Longrightarrow> write_inv s'"
  by (cases s; cases s') (simp add: advance_def)

lemma on_table_tables:
  "length (tables (snd (on_table i g f w))) = length (tables w)"
  "j \<noteq> i \<Longrightarrow> tables (snd (on_table i g f w)) ! j = tables w ! j"
  by (simp_all add: on_table_def split: prod.split)

lemma on_ledger_tables: "tables (snd (on_ledger g f w)) = tables w"
  by (simp add: on_ledger_def split: prod.split)

lemma world_step_tables:
  assumes "world_inv w"
  shows "length (tables w) \<le> length (tables (snd (world_step c w)))"
    and "j < length (tables w) \<Longrightarrow> j \<notin> touched (OtherClient c) \<Longrightarrow> tables (snd (world_step c w)) ! j = tables w ! j"
proof -
  have fork: "\<exists>extra. tables (snd (fork_table i w)) = tables w @ extra" for i
    using fork_table_atomic [OF assms, of i] by (cases rule: atomic_cases) auto
  show "length (tables w) \<le> length (tables (snd (world_step c w)))"
  proof (cases c)
    case (ForkTable i)
    then show ?thesis using fork [of i] by (auto intro: trans_le_add1)
  qed (simp_all add: on_table_tables on_ledger_tables)
  show "tables (snd (world_step c w)) ! j = tables w ! j" if "j < length (tables w)" "j \<notin> touched (OtherClient c)"
  proof (cases c)
    case (ForkTable i)
    then show ?thesis using fork [of i] that(1) by (auto simp: nth_append)
  qed (use that in \<open>simp_all add: touched_def on_table_tables on_ledger_tables nth_append\<close>)
qed

lemma submit_pinned_advance:
  assumes inv: "write_inv (wr, w)" and live: "\<not> poisoned wr"
    and t: "\<And>x d. ticket_lease (ticket x d) = x" "\<And>x d. set (ticket_handles (ticket x d)) \<subseteq> set hs"
  shows "advance {} (wr, w) (snd (submit_pinned oid hs ticket q (wr, w)))"
  using inv
proof (cases rule: submit_pinned_cases [of wr w oid hs ticket q])
  case (refused e)
  then show ?thesis using advance_refl [OF inv] by simp
next
  case (pinned x w')
  have x: "lease_epoch x = next_epoch (completion w)" using pinned(1) by simp
  have inv': "write_inv (snd (submit_pinned oid hs ticket q (wr, w)))"
    by (rule submit_pinned_inv [OF inv live t])
  show ?thesis
    using inv' pinned(4,5) unfolding pinned(8) x
    by (cases q) (auto simp: advance_def known_ticket_def update_conv')
qed

lemma advance_world_step:
  assumes inv: "write_inv (wr, w)" and "foreign wr c"
  shows "advance (touched (OtherClient c)) (wr, w) (wr, snd (world_step c w))"
  using write_inv_world_step [OF assms] world_step_tables [OF write_invD(1) [OF inv]]
    world_step_next_epoch [OF write_invD(1) [OF inv], of c]
  by (simp add: advance_def)

lemma poll_writes_advance:
  assumes "write_inv (wr, w)"
  shows "advance {} (wr, w) (snd (poll_writes t events (wr, w)))"
  using assms
proof (cases rule: poll_writes_cases [of wr w t events])
  case (timeout e)
  then show ?thesis using assms by (simp add: advance_refl)
next
  case (rejected e)
  then show ?thesis using assms by (auto simp: advance_def known_ticket_def write_inv_def)
next
  case (consumed acks wr' w')
  note C = consumed(3) [unfolded consumed_def ledger_settled_def]
  have "known_ticket wr' t" if "known_ticket wr t" for t
  proof (cases "lease_epoch (ticket_lease t) \<in> fst ` set events")
    case True
    then show ?thesis using C by (simp add: known_ticket_def)
  next
    case False
    then have "map_of (tickets wr') (lease_epoch (ticket_lease t)) = map_of (tickets wr) (lease_epoch (ticket_lease t))"
      using C by simp
    moreover have "map_of (outcomes wr) e \<noteq> None \<Longrightarrow> map_of (outcomes wr') e \<noteq> None" for e using C by simp
    ultimately show ?thesis using that unfolding known_ticket_def by metis
  qed
  then show ?thesis using C unfolding consumed(1) advance_def by simp
qed

lemma advance_write_step:
  assumes "write_inv s"
  shows "advance (touched c) s (snd (write_step c s))"
proof -
  obtain wr w where s: "s = (wr, w)" by (cases s)
  have inv: "write_inv (wr, w)" using assms s by simp
  have drop: "snd (drop_value r) = snd r" for r :: "('a, write_state) res" by (simp add: drop_value_def)
  have sub: "advance {} (wr, w) (snd (submit_pinned oid hs ticket q (wr, w)))"
    if "\<not> poisoned wr" "\<And>x d. ticket_lease (ticket x d) = x" "\<And>x d. set (ticket_handles (ticket x d)) \<subseteq> set hs"
    for oid hs ticket q by (rule submit_pinned_advance [OF inv that])
  note refl = advance_refl [OF inv, of "{}"]
  show ?thesis
  proof (cases c)
    case (SubmitWrite oid h offset n q)
    then show ?thesis
      using refl sub by (simp add: touched_def s drop submit_write_def check_writable_def split: lift_res_split)
  next
    case (SubmitGrouped oid hs row_slots heads head_size ok q)
    then show ?thesis
      using refl sub [of "\<lambda>x d. WriteTicket x (hd hs) d True False" hs oid q] hd_in_set [of hs]
      by (cases hs) (simp_all add: touched_def s drop submit_grouped_q1_write_def check_writable_def split: lift_res_split)
  next
    case (SubmitMultirow oid hs counts starts blocks begins ids heads head_size ok q)
    then show ?thesis
      using refl sub by (auto simp: touched_def s drop submit_packed_multirow_write_def check_writable_def split: lift_res_split)
  next
    case (SubmitMultirowN20 oid hs counts starts blocks begins ids heads head_size ok q)
    then show ?thesis
      using refl sub by (auto simp: touched_def s drop submit_packed_multirow_write_n20_def)
  next
    case (SubmitCopy oid source destination n q)
    then show ?thesis
      using refl sub by (simp add: touched_def s drop submit_copy_def check_writable_def split: lift_res_split)
  next
    case (CancelWrite t)
    have "advance {} (wr, w) (snd (with_ledger (cancel (ticket_lease t)) (wr, w)))"
      using advance_world_step [OF inv, of "CancelUse (ticket_lease t)"]
      by (simp add: foreign_def touched_def with_ledger_world [where g = "\<lambda>_. Done"])
    then show ?thesis using CancelWrite refl by (simp add: touched_def s cancel_write_def)
  next
    case (PollWrites t events)
    then show ?thesis using poll_writes_advance [OF inv] by (simp add: s drop touched_def)
  next
    case (TeardownArena e)
    then show ?thesis
      using inv refl write_step_inv [OF inv, of "TeardownArena e"]
      by (auto simp: s touched_def teardown_failed_arena_def Let_def advance_def known_ticket_def split: option.splits)
  next
    case (OtherClient c')
    then show ?thesis
      using refl advance_world_step [OF inv, of c']
      by (auto simp: s touched_def intro: advance_refl [OF inv] split: prod.split)
  qed
qed

text \<open>The calls the caches make on the shared state.\<close>

lemma submit_write_advance:
  assumes "write_inv s"
  shows "advance {} s (snd (submit_write oid h offset n q s))"
  using advance_write_step [OF assms, of "SubmitWrite oid h offset n q"] by (simp add: drop_value_def touched_def)

lemma at_table_advance:
  assumes inv: "write_inv s" and i: "i < length (tables (snd s))"
  shows "advance {i} s (snd (at_table i (append_tokens n after) s))"
    and "advance {i} s (snd (at_table i (abort after) s))"
proof -
  obtain wr w where s: "s = (wr, w)" by (cases s)
  have step: "snd (at_table i f (wr, w)) = (wr, snd (on_table i g f w))"
    for f :: "seq_state \<Rightarrow> ('b, seq_state) res" and g :: "'b \<Rightarrow> reply"
    using i by (simp add: s at_table_def on_table_def split: prod.split)
  show "advance {i} s (snd (at_table i (append_tokens n after) s))"
    using advance_world_step [of wr w "AppendTokens i n after"] inv s by (simp add: step [of _ Copies] foreign_def touched_def)
  show "advance {i} s (snd (at_table i (abort after) s))"
    using advance_world_step [of wr w "AbortTable i after"] inv s by (simp add: step [of _ "\<lambda>_. Done"] foreign_def touched_def)
qed

lemma with_ledger_advance:
  assumes inv: "write_inv s"
  shows "advance {} s (snd (with_ledger (prepare oid hs) s))"
    and "advance {} s (snd (with_ledger (submit x) s))"
    and "advance {} s (snd (with_ledger (abort_before_submit x) s))"
    and "x \<notin> ticket_lease ` snd ` set (tickets (fst s)) \<Longrightarrow> advance {} s (snd (with_ledger (complete x b) s))"
proof -
  obtain wr w where s: "s = (wr, w)" by (cases s)
  note step = advance_world_step [of wr w, OF inv [unfolded s]]
  show "advance {} s (snd (with_ledger (prepare oid hs) s))"
    using step [of "PrepareUse oid hs"] by (simp add: s foreign_def touched_def with_ledger_world [where g = Leased])
  show "advance {} s (snd (with_ledger (submit x) s))"
    using step [of "SubmitUse x"] by (simp add: s foreign_def touched_def with_ledger_world [where g = "\<lambda>_. Done"])
  show "advance {} s (snd (with_ledger (abort_before_submit x) s))"
    using step [of "AbortUse x"] by (simp add: s foreign_def touched_def with_ledger_world [where g = "\<lambda>_. Done"])
  show "advance {} s (snd (with_ledger (complete x b) s))" if "x \<notin> ticket_lease ` snd ` set (tickets (fst s))"
    using step [of "CompleteUse x b"] that by (simp add: s foreign_def touched_def with_ledger_world [where g = "\<lambda>_. Done"])
qed

text \<open>Retiring up to the epoch of the ledger only moves pages back to the free list.\<close>

lemma write_inv_pool:
  assumes "write_inv (wr, w)" and "world_inv (w\<lparr>arena := p\<rparr>)"
  shows "write_inv (wr, w\<lparr>arena := p\<rparr>)"
  using assms by (simp add: write_inv_def)

lemma retire_advance:
  assumes inv: "write_inv s"
  shows "advance {} s (snd (at_arena (retire (ledger_now s)) s))"
proof -
  obtain wr w where s: "s = (wr, w)" by (cases s)
  have w: "world_inv w" using inv s write_invD(1) by blast
  have e: "completed_epoch (arena w) = ledger_epoch (completion w)" using w by (simp add: world_inv_def ledger_ok_def)
  let ?p = "snd (retire (ledger_epoch (completion w)) (arena w))"
  have p: "lease_exact (held w) ?p" by (rule leases.collect_exact [OF world_leases [OF w]])
  have "completed_epoch ?p = completed_epoch (arena w)"
    using lease_exact_inv [OF world_leases [OF w]] e
    by (cases rule: retire_cases [where c = "ledger_epoch (completion w)"]) (auto simp: retired_to_def)
  then have "world_inv (w\<lparr>arena := ?p\<rparr>)" using w p by (simp add: world_inv_def ledger_ok_def held_def)
  then have "write_inv (wr, w\<lparr>arena := ?p\<rparr>)" using write_inv_pool inv s by blast
  then show ?thesis by (simp add: s at_arena_def ledger_now_def advance_def case_prod_beta)
qed


section \<open>The invariant\<close>

definition live_table :: "sequence \<Rightarrow> bool" where
  "live_table sq \<longleftrightarrow> \<not> closed sq \<and> sequence.staged sq = None \<and> retained_start sq = 0"

definition staged_bytes :: "private_cache \<Rightarrow> nat" where
  "staged_bytes c = (case in_staging c of None \<Rightarrow> 0 | Some (k, v) \<Rightarrow> length k)"

text \<open>\<open>cache_sound\<close>: the part about the object alone; \<open>cache_ok\<close>: with its table and tickets.\<close>

definition cache_sound :: "private_cache \<Rightarrow> bool" where
  "cache_sound c \<longleftrightarrow> 0 < token_bytes c \<and> length (val_store c) = length (key_store c)
     \<and> token_bytes c dvd int (length (key_store c))
     \<and> (\<not> cache_failed c \<longrightarrow> (awaiting c = [] \<longleftrightarrow> in_staging c = None))
     \<and> (\<forall>k v. in_staging c = Some (k, v) \<longrightarrow> length v = length k \<and> token_bytes c dvd int (length k))"

text \<open>The tables of a reservation: their pages are distinct, and no append is staged on them.\<close>

definition headroom_ok :: "nat list \<Rightarrow> sequence list \<Rightarrow> bool" where
  "headroom_ok ks ts \<longleftrightarrow> distinct ks \<and> distinct (reserved_pages ks ts)
     \<and> (\<forall>k \<in> set ks. k < length ts \<and> sequence.staged (ts ! k) = None)"

definition cache_ok :: "write_state \<Rightarrow> private_cache \<Rightarrow> bool" where
  "cache_ok s c \<longleftrightarrow> cache_sound c \<and> cache_table c < length (tables (snd s))
     \<and> cache_table c \<notin> set (staging_reservation c) \<and> headroom_ok (staging_reservation c) (tables (snd s))
     \<and> page_bytes (fst s) = PAGE_SIZE * token_bytes c
     \<and> (\<not> cache_closed c \<longrightarrow> live_table (table_of c s))
     \<and> (\<not> cache_closed c \<and> \<not> cache_failed c \<longrightarrow>
          kv_end (table_of c s) * token_bytes c = int (length (key_store c) + staged_bytes c))
     \<and> (\<forall>t \<in> set (awaiting c). known_ticket (fst s) t)"

definition frozen_ok :: "write_state \<Rightarrow> frozen_kv \<Rightarrow> bool" where
  "frozen_ok s f \<longleftrightarrow> frozen_table f < length (tables (snd s))
     \<and> (let x = frozen_export f; width = export_heads x * export_dim x * 2 in
          0 < export_heads x \<and> export_heads x \<le> U32_MAX \<and> export_dtype x \<in> {''float16'', ''bfloat16''} \<and> export_dim x \<in> {128, 256}
        \<and> page_bytes (fst s) = PAGE_SIZE * width \<and> length (export_vals x) = length (export_keys x)
        \<and> int (length (export_keys x)) = export_tokens x * width
        \<and> (\<not> frozen_closed f \<longrightarrow> live_table (tables (snd s) ! frozen_table f)
              \<and> kv_end (tables (snd s) ! frozen_table f) = export_tokens x))"

definition reader_ok :: "write_state \<Rightarrow> attention_use \<Rightarrow> bool" where
  "reader_ok s u \<longleftrightarrow> lease_epoch (used_lease u) < next_epoch (completion (snd s))
     \<and> map_of (tickets (fst s)) (lease_epoch (used_lease u)) = None"

definition profile_ok :: "private_cache \<Rightarrow> bool" where
  "profile_ok c \<longleftrightarrow> 0 < cache_heads c \<and> cache_heads c \<le> U32_MAX \<and> cache_dtype c \<in> {''float16'', ''bfloat16''}
     \<and> cache_dim c \<in> {128, 256} \<and> token_bytes c = cache_heads c * cache_dim c * 2"

definition cache_inv :: "cache_world \<Rightarrow> bool" where
  "cache_inv s \<longleftrightarrow> write_inv (backing s) \<and> distinct (owned s)
     \<and> (\<forall>c \<in> set (caches s). cache_ok (backing s) c \<and> profile_ok c)
     \<and> (\<forall>f \<in> set (snapshots s). frozen_ok (backing s) f)
     \<and> (\<forall>u \<in> set (readers s). reader_ok (backing s) u)"

text \<open>What no call on another table can disturb.\<close>

lemma headroom_ok_cong:
  assumes "headroom_ok ks ts" and "\<forall>k \<in> set ks. k < length ts' \<and> ts' ! k = ts ! k"
  shows "headroom_ok ks ts'" and "reserved_pages ks ts' = reserved_pages ks ts"
proof -
  show eq: "reserved_pages ks ts' = reserved_pages ks ts"
    using assms(2) unfolding reserved_pages_def by (intro arg_cong [where f = concat] map_cong) simp_all
  show "headroom_ok ks ts'" using assms by (simp add: headroom_ok_def eq)
qed

lemma advance_tables:
  assumes "advance T s s'" and "k < length (tables (snd s))" and "k \<notin> T"
  shows "k < length (tables (snd s'))" and "tables (snd s') ! k = tables (snd s) ! k"
  using assms by (cases s; cases s'; simp add: advance_def)+

lemma headroom_ok_advance:
  assumes "headroom_ok ks (tables (snd s))" and "advance T s s'" and "set ks \<inter> T = {}"
  shows "headroom_ok ks (tables (snd s'))"
  by (rule headroom_ok_cong(1) [OF assms(1)])
     (use assms(1,3) advance_tables [OF assms(2)] in \<open>auto simp: headroom_ok_def\<close>)

lemma cache_ok_advance:
  assumes "cache_ok s c" and "advance T s s'" and "set (footprint c) \<inter> T = {}"
  shows "cache_ok s' c" and "table_of c s' = table_of c s"
proof -
  show eq: "table_of c s' = table_of c s"
    using assms by (cases s; cases s') (simp add: cache_ok_def advance_def table_of_def footprint_def)
  have "headroom_ok (staging_reservation c) (tables (snd s'))"
    by (rule headroom_ok_advance [OF _ assms(2)]) (use assms(1,3) in \<open>auto simp: cache_ok_def footprint_def\<close>)
  then show "cache_ok s' c"
    using assms eq by (cases s; cases s') (auto simp: cache_ok_def advance_def)
qed

lemma frozen_ok_advance:
  assumes "frozen_ok s f" and "advance T s s'" and "frozen_table f \<notin> T"
  shows "frozen_ok s' f" and "tables (snd s') ! frozen_table f = tables (snd s) ! frozen_table f"
proof -
  show eq: "tables (snd s') ! frozen_table f = tables (snd s) ! frozen_table f"
    using assms by (cases s; cases s') (simp add: frozen_ok_def advance_def)
  show "frozen_ok s' f"
    using assms eq by (cases s; cases s') (auto simp: frozen_ok_def advance_def Let_def)
qed

lemma reader_ok_advance:
  assumes "reader_ok s u" and "advance T s s'"
  shows "reader_ok s' u"
  using assms by (cases s; cases s') (auto simp: reader_ok_def advance_def)


section \<open>The operations of a cache keep the invariant\<close>

lemma submit_write_ticket:
  assumes inv: "write_inv s" and "submit_write oid h offset n q s = (Inr t, s')"
  shows "known_ticket (fst s') t" and "ticket_handles t = [h]"
proof -
  obtain wr w where s: "s = (wr, w)" by (cases s)
  have run: "submit_pinned oid [h] (\<lambda>x d. WriteTicket x h d False False) q (wr, w) = (Inr t, s')"
    using assms(2) by (simp add: s submit_write_def lift_res_Inr_iff split: if_splits)
  have inv': "write_inv (wr, w)" using inv s by simp
  then have "known_ticket (fst s') t \<and> ticket_handles t = [h]"
  proof (cases rule: submit_pinned_cases [of wr w oid "[h]" "\<lambda>x d. WriteTicket x h d False False" q])
    case (refused e)
    then show ?thesis using run by simp
  next
    case (pinned x w')
    then show ?thesis using run by (cases q) (auto simp: known_ticket_def update_conv')
  qed
  then show "known_ticket (fst s') t" "ticket_handles t = [h]" by simp_all
qed

lemma known_advance: "advance T s s' \<Longrightarrow> known_ticket (fst s) t \<Longrightarrow> known_ticket (fst s') t"
  by (cases s; cases s') (simp add: advance_def)

definition tickets_of :: "(exc \<times> write_ticket list) + write_ticket list \<Rightarrow> write_ticket list" where
  "tickets_of r = (case r of Inl (e, ts) \<Rightarrow> ts | Inr ts \<Rightarrow> ts)"

lemma append_spans_ok:
  assumes "write_inv s" and "\<forall>t \<in> set ts. known_ticket (fst s) t"
  shows "advance {} s (snd (append_spans env c old_end tokens_in cursor ts s))
    \<and> (\<forall>t \<in> set (tickets_of (fst (append_spans env c old_end tokens_in cursor ts s))).
         known_ticket (fst (snd (append_spans env c old_end tokens_in cursor ts s))) t)
    \<and> (\<forall>ts'. fst (append_spans env c old_end tokens_in cursor ts s) = Inr ts' \<longrightarrow> ts \<noteq> [] \<or> cursor < tokens_in \<longrightarrow> ts' \<noteq> [])"
  using assms
proof (induction env c old_end tokens_in cursor ts s rule: append_spans.induct)
  case (1 env c old_end tokens_in cursor ts s)
  let ?token = "old_end + cursor"
  let ?amount = "min (tokens_in - cursor) (PAGE_SIZE - ?token mod PAGE_SIZE)"
  note prems = "1.prems"
  show ?case
  proof (cases "cursor < tokens_in")
    case False
    then show ?thesis
      using prems advance_refl [OF prems(1)] by (subst (1 2 3 4) append_spans.simps) (simp add: tickets_of_def)
  next
    case more: True
    show ?thesis
    proof (cases "py_index (?token div PAGE_SIZE - first_block (table_of c s)) (pages (table_of c s))")
      case (Inl e)
      then show ?thesis
        using prems advance_refl [OF prems(1)] more
        by (subst (1 2 3 4) append_spans.simps) (simp add: tickets_of_def Let_def)
    next
      case (Inr h)
      obtain r s' where r: "submit_write (fst (env (length ts))) h (?token mod PAGE_SIZE * token_bytes c)
          (?amount * token_bytes c) (snd (env (length ts))) s = (r, s')" by (cases "submit_write (fst (env (length ts))) h (?token mod PAGE_SIZE * token_bytes c)
          (?amount * token_bytes c) (snd (env (length ts))) s")
      have adv: "advance {} s s'" using submit_write_advance [OF prems(1)] r by (metis snd_conv)
      show ?thesis
      proof (cases r)
        case (Inl e)
        then have "append_spans env c old_end tokens_in cursor ts s = (Inl (e, ts), s')"
          using more Inr r by (subst append_spans.simps) (simp add: Let_def)
        then show ?thesis using adv prems(2) known_advance [OF adv] by (simp add: tickets_of_def)
      next
        case t: (Inr t)
        let ?rest = "append_spans env c old_end tokens_in (cursor + ?amount) (ts @ [t]) s'"
        have step: "append_spans env c old_end tokens_in cursor ts s = ?rest"
          using more Inr r t by (subst append_spans.simps) (simp add: Let_def)
        have "\<forall>x \<in> set (ts @ [t]). known_ticket (fst s') x"
          using prems(2) known_advance [OF adv] submit_write_ticket(1) [OF prems(1)] r t by auto
        from "1.IH" [OF _ refl refl Inr r [symmetric, unfolded t] refl advance_inv [OF adv] this] more
        show ?thesis unfolding step using advance_trans [OF adv] by blast
      qed
    qed
  qed
qed


definition same_object :: "private_cache \<Rightarrow> private_cache \<Rightarrow> bool" where
  "same_object c c' \<longleftrightarrow> cache_table c' = cache_table c \<and> cache_heads c' = cache_heads c \<and> cache_dim c' = cache_dim c
     \<and> cache_dtype c' = cache_dtype c \<and> token_bytes c' = token_bytes c
     \<and> (staging_reservation c' = staging_reservation c \<or> staging_reservation c' = [])"

definition published :: "private_cache \<Rightarrow> private_cache \<Rightarrow> writer \<Rightarrow> bool" where
  "published c c' wr \<longleftrightarrow> (\<exists>k v. in_staging c = Some (k, v) \<and> awaiting c \<noteq> []
     \<and> key_store c' = key_store c @ k \<and> val_store c' = val_store c @ v
     \<and> (\<forall>t \<in> set (awaiting c). map_of (outcomes wr) (lease_epoch (ticket_lease t)) = Some True))"

text \<open>The contract of every operation on a cache.\<close>

definition cache_call_ok :: "private_cache \<Rightarrow> write_state \<Rightarrow> ('a, cache_state) res \<Rightarrow> bool" where
  "cache_call_ok c s r \<longleftrightarrow> (let (c', s') = snd r in
     advance (set (footprint c)) s s' \<and> cache_ok s' c' \<and> same_object c c' \<and> (cache_closed c \<longrightarrow> cache_closed c')
   \<and> ((key_store c', val_store c') = (key_store c, val_store c) \<or> published c c' (fst s')))"

lemma same_object_refl: "same_object c c"
  by (simp add: same_object_def)

lemma cache_call_refl: "write_inv s \<Longrightarrow> cache_ok s c \<Longrightarrow> cache_call_ok c s (r, (c, s))"
  by (simp add: cache_call_ok_def advance_refl same_object_refl)

lemma cache_call_keep:
  assumes "cache_ok s c" and "advance {} s s'"
  shows "cache_call_ok c s (r, (c, s'))"
  using cache_ok_advance(1) [OF assms] advance_mono [OF assms(2)] by (simp add: cache_call_ok_def same_object_refl)

text \<open>Appending to the table of an open cache.\<close>

lemma table_append:
  assumes inv: "write_inv s" and i: "i < length (tables (snd s))" and live: "live_table (tables (snd s) ! i)"
    and alone: "tail_shared 1 (tables (snd s) ! i) (arena (snd s)) = Inr False"
  obtains (refused) e where "at_table i (append_tokens n after) s = (Inl e, s)"
  | (appended) x s' where "at_table i (append_tokens n after) s = (Inr x, s')" "advance {i} s s'" "0 < n"
      "live_table (tables (snd s') ! i)" "kv_end (tables (snd s') ! i) = kv_end (tables (snd s) ! i) + n"
proof -
  obtain wr w where s: "s = (wr, w)" by (cases s)
  have w: "world_inv w" using inv s write_invD(1) by blast
  have iw: "i < length (tables w)" using i s by simp
  note adv = at_table_advance(1) [OF inv i, of n after]
  show ?thesis
    using append_tokens_contract [OF world_table(1) [OF w iw], of n after]
  proof (cases rule: atomic_cases)
    case (fail e)
    then show ?thesis by (intro refused [of e]) (simp add: s at_table_def)
  next
    case (ok x sp)
    then have "at_table i (append_tokens n after) s
        = (Inr x, (wr, w\<lparr>arena := snd sp, tables := (tables w)[i := fst sp]\<rparr>))"
      by (simp add: s at_table_def case_prod_beta)
    then show ?thesis
      using adv ok(2) live iw by (intro appended) (auto simp: s live_table_def)
  qed
qed

lemma append_kv_cases:
  obtains (guarded) e where "append_kv env native new_keys new_vals (c, s) = (Inl e, (c, s))"
    | (open_) "cache_ready c (fst s) = Inr ()" "length new_vals = length new_keys" "token_bytes c dvd int (length new_keys)"
      "tail_shared 1 (table_of c s) (arena (snd s)) = Inr False"
      "append_kv env native new_keys new_vals (c, s) =
         bind_res (on_state c (at_table (cache_table c) (append_tokens (int (length new_keys) div token_bytes c) (ledger_now s)) s)) (\<lambda>_ (c', s').
           case append_spans env c' (kv_end (table_of c s)) (int (length new_keys) div token_bytes c) 0 [] s' of
             (Inl (e, ts), s) \<Rightarrow> (Inl e, (c'\<lparr>cache_failed := True, awaiting := ts\<rparr>, s))
           | (Inr ts, s) \<Rightarrow> (Inr ts, (c'\<lparr>awaiting := ts, in_staging := Some (new_keys, new_vals)\<rparr>, s)))"
proof (cases "\<exists>e. append_kv env native new_keys new_vals (c, s) = (Inl e, (c, s))")
  case True
  then show ?thesis using guarded by blast
next
  let ?n = "int (length new_keys) div token_bytes c"
  case False
  have ready: "cache_ready c (fst s) = Inr ()"
    using False by (cases "cache_ready c (fst s)") (simp_all add: append_kv_def)
  note unfold = append_kv_def ready Let_def
  have host: "\<not> native"
    using False by (rule contrapos_nn) (simp add: unfold split del: lift_res_split bind_res_split)
  have payload: "\<not> (new_keys = [] \<or> length new_keys \<noteq> length new_vals \<or> int (length new_keys) mod token_bytes c \<noteq> 0)"
    using False by (rule contrapos_nn) (simp only: unfold host lift_res_simps prod.case if_False if_True; blast)
  note unfold = append_kv_def ready host payload lift_res_simps prod.case if_False if_True Let_def sum.case
  have fits: "\<not> kv_end (table_of c s) + ?n > U32_MAX"
    using False by (rule contrapos_nn) (simp only: unfold; blast)
  obtain shared where shared: "tail_shared 1 (table_of c s) (arena (snd s)) = Inr shared"
    using False by (cases "tail_shared 1 (table_of c s) (arena (snd s))") (simp_all only: unfold fits, blast+)
  have alone: "\<not> shared"
    using False by (rule contrapos_nn) (simp only: unfold fits shared; blast)
  have room: "\<not> (kv_end (table_of c s) + ?n - 1) div PAGE_SIZE + 1 - int (length (pages (table_of c s))) > int (free_count (arena (snd s)))"
    using False by (rule contrapos_nn) (simp only: unfold fits shared alone; blast)
  show ?thesis
  proof (rule open_ [OF ready])
    show "length new_vals = length new_keys" "token_bytes c dvd int (length new_keys)"
      using payload by (auto simp: dvd_eq_mod_eq_0)
    show "tail_shared 1 (table_of c s) (arena (snd s)) = Inr False" using shared alone by simp
  qed (simp only: unfold fits shared alone room)
qed

lemma append_kv_ok:
  assumes inv: "write_inv s" and ok: "cache_ok s c"
  shows "cache_call_ok c s (append_kv env native new_keys new_vals (c, s))"
proof -
  let ?n = "int (length new_keys) div token_bytes c"
  let ?call = "append_kv env native new_keys new_vals (c, s)"
  have refl: "cache_call_ok c s (r, (c, s))" for r :: "exc + write_ticket list" by (rule cache_call_refl [OF inv ok])
  show ?thesis
  proof (cases rule: append_kv_cases [of env native new_keys new_vals c s])
    case (guarded e)
    then show ?thesis using refl by simp
  next
    case open_
    have ready: "\<not> cache_closed c" "\<not> cache_failed c" "awaiting c = []"
      using open_(1) by (auto simp: cache_ready_def split: if_splits)
    have i: "cache_table c < length (tables (snd s))" and live: "live_table (table_of c s)" and sound: "cache_sound c"
      using ok ready by (simp_all add: cache_ok_def)
    have empty: "in_staging c = None" using sound ready by (simp add: cache_sound_def)
    show ?thesis
      using inv i live [unfolded table_of_def] open_(4) [unfolded table_of_def]
    proof (cases rule: table_append [where n = ?n and after = "ledger_now s"])
      case (refused e)
      then show ?thesis using refl by (simp add: open_(5) on_state_def)
    next
      case (appended x s1)
      note adv1 = appended(2)
      obtain r s2 where run: "append_spans env c (kv_end (table_of c s)) ?n 0 [] s1 = (r, s2)"
        by (cases "append_spans env c (kv_end (table_of c s)) ?n 0 [] s1")
      have spans: "advance {} s1 s2" "\<forall>t \<in> set (tickets_of r). known_ticket (fst s2) t" "\<And>ts. r = Inr ts \<Longrightarrow> ts \<noteq> []"
        using append_spans_ok [OF advance_inv [OF adv1], of "[]" env c "kv_end (table_of c s)" ?n 0] run appended(3) by simp_all
      have adv: "advance {cache_table c} s s2"
        by (rule advance_trans [OF adv1 advance_mono [OF spans(1)]]) simp
      have adv': "advance (set (footprint c)) s s2" by (rule advance_mono [OF adv]) (simp add: footprint_def)
      have room: "cache_table c \<notin> set (staging_reservation c)" "headroom_ok (staging_reservation c) (tables (snd s2))"
        using ok headroom_ok_advance [OF _ adv, of "staging_reservation c"] by (simp_all add: cache_ok_def)
      have i1: "cache_table c < length (tables (snd s1))" and pb: "page_bytes (fst s2) = page_bytes (fst s)"
        using adv1 adv i by (cases s; cases s1; cases s2; simp add: advance_def)+
      have tab: "tables (snd s2) ! cache_table c = tables (snd s1) ! cache_table c" "cache_table c < length (tables (snd s2))"
        using spans(1) i1 by (cases s1; cases s2; simp add: advance_def)+
      have width: "?n * token_bytes c = int (length new_keys)" using open_(3) by simp
      have old: "kv_end (table_of c s) * token_bytes c = int (length (key_store c))"
        using ok ready empty by (simp add: cache_ok_def staged_bytes_def)
      have width': "page_bytes (fst s2) = PAGE_SIZE * token_bytes c" using ok pb by (simp add: cache_ok_def)
      have now: "table_of c s2 = tables (snd s1) ! cache_table c" using tab(1) by (simp add: table_of_def)
      have "cache_sound (c\<lparr>cache_failed := True, awaiting := ts\<rparr>)" for ts using sound by (simp add: cache_sound_def)
      then have "cache_ok s2 (c\<lparr>cache_failed := True, awaiting := ts\<rparr>)" if "r = Inl (e, ts)" for e ts
        using spans(2) appended(4) now tab(2) width' room that unfolding cache_ok_def table_of_def
        by (simp add: tickets_of_def)
      moreover have "cache_ok s2 (c\<lparr>awaiting := ts, in_staging := Some (new_keys, new_vals)\<rparr>)" if "r = Inr ts" for ts
      proof -
        have "cache_sound (c\<lparr>awaiting := ts, in_staging := Some (new_keys, new_vals)\<rparr>)"
          using sound spans(3) [OF that] open_(2,3) by (simp add: cache_sound_def)
        moreover have "kv_end (tables (snd s1) ! cache_table c) * token_bytes c
            = int (length (key_store c) + length new_keys)"
          using appended(5) old width by (simp add: table_of_def algebra_simps)
        ultimately show ?thesis
          using spans(2) appended(4) now tab(2) width' room that unfolding cache_ok_def table_of_def
          by (simp add: tickets_of_def staged_bytes_def)
      qed
      ultimately show ?thesis
        using adv' unfolding open_(5) appended(1) on_state_def
        by (cases r) (auto simp: run cache_call_ok_def same_object_def)
    qed
  qed
qed


text \<open>Once the tickets of an append left the owner of an unpoisoned arena, all of them succeeded.\<close>

lemma settled_tickets_succeeded:
  assumes inv: "write_inv (wr, w)" and known: "known_ticket wr t" and live: "\<not> poisoned wr"
    and gone: "lease_epoch (ticket_lease t) \<notin> set (pending_epochs wr)"
  shows "map_of (outcomes wr) (lease_epoch (ticket_lease t)) = Some True"
proof -
  have "map_of (tickets wr) (lease_epoch (ticket_lease t)) = None"
    using gone by (simp add: pending_epochs_def map_of_eq_None_iff)
  then obtain b where b: "map_of (outcomes wr) (lease_epoch (ticket_lease t)) = Some b"
    using known by (auto simp: known_ticket_def)
  then show ?thesis using write_invD(7) [OF inv] live by (cases b) auto
qed

lemma poll_cache_ok:
  assumes inv: "write_inv s" and ok: "cache_ok s c"
  shows "cache_call_ok c s (poll_cache events (c, s))"
proof -
  obtain wr w where s: "s = (wr, w)" by (cases s)
  obtain r s' where run: "poll_writes None events s = (r, s')" by (cases "poll_writes None events s")
  have adv: "advance {} s s'"
    using poll_writes_advance [of wr w None events] inv run s by simp
  have inv': "write_inv s'" by (rule advance_inv [OF adv])
  have ok': "cache_ok s' c" by (rule cache_ok_advance(1) [OF ok adv]) simp
  have sound: "cache_sound c" using ok by (simp add: cache_ok_def)
  have adv': "advance (set (footprint c)) s s'" by (rule advance_mono [OF adv]) simp
  show ?thesis
  proof (cases r)
    case (Inl e)
    then have "poll_cache events (c, s) = (Inl e, (c, s'))" by (simp add: poll_cache_def on_state_def run)
    then show ?thesis using cache_call_keep [OF ok adv] by simp
  next
    case (Inr acks)
    define c1 where "c1 = c\<lparr>cache_failed := cache_failed c \<or> (\<exists>a \<in> set acks. \<not> snd a) \<or> poisoned (fst s')\<rparr>"
    have c1: "cache_ok s' c1"
      using ok' by (simp add: c1_def cache_ok_def cache_sound_def table_of_def staged_bytes_def)
    have same: "same_object c c1" "cache_closed c1 = cache_closed c" "awaiting c1 = awaiting c" "in_staging c1 = in_staging c"
        "key_store c1 = key_store c" "val_store c1 = val_store c" "\<not> cache_failed c1 \<Longrightarrow> \<not> cache_failed c \<and> \<not> poisoned (fst s')"
      by (simp_all add: c1_def same_object_def)
    have plain: "cache_call_ok c s (x, (c1, s'))" for x :: "exc + bool"
      using c1 adv' same by (simp add: cache_call_ok_def)
    have poll: "poll_cache events (c, s) =
        (if awaiting c = [] \<or> (\<exists>t \<in> set (awaiting c). lease_epoch (ticket_lease t) \<in> set (pending_epochs (fst s')))
         then (Inr False, (c1, s'))
         else if cache_failed c1 then (Inr False, (c1\<lparr>awaiting := [], in_staging := None\<rparr>, s'))
         else case in_staging c of None \<Rightarrow> (Inl AssertionError, (c1\<lparr>awaiting := []\<rparr>, s'))
              | Some (k, v) \<Rightarrow> (Inr True, (c1\<lparr>awaiting := [], key_store := key_store c @ k, val_store := val_store c @ v,
                    in_staging := None\<rparr>, s')))"
      by (simp add: poll_cache_def on_state_def run Inr Let_def c1_def split: option.split)
    show ?thesis
    proof (cases "awaiting c = [] \<or> (\<exists>t \<in> set (awaiting c). lease_epoch (ticket_lease t) \<in> set (pending_epochs (fst s')))")
      case True
      then show ?thesis using plain by (simp add: poll)
    next
      case gone: False
      show ?thesis
      proof (cases "cache_failed c1")
        case True
        have "cache_ok s' (c1\<lparr>awaiting := [], in_staging := None\<rparr>)"
          using c1 True by (simp add: cache_ok_def cache_sound_def table_of_def)
        then show ?thesis
          using gone True adv' same by (simp add: poll cache_call_ok_def same_object_def)
      next
        case fine: False
        then obtain k v where kv: "in_staging c = Some (k, v)"
          using sound same(7) gone by (auto simp: cache_sound_def)
        let ?c = "c1\<lparr>awaiting := [], key_store := key_store c @ k, val_store := val_store c @ v, in_staging := None\<rparr>"
        have lens: "length v = length k" "token_bytes c dvd int (length k)" using sound kv by (auto simp: cache_sound_def)
        have "cache_sound ?c"
          using sound lens fine by (simp add: cache_sound_def c1_def)
        moreover have "kv_end (table_of c1 s') * token_bytes c1 = int (length (key_store c) + length k)" if "\<not> cache_closed c"
          using c1 fine that kv same by (simp add: cache_ok_def staged_bytes_def)
        ultimately have "cache_ok s' ?c"
          using c1 same(2) by (simp add: cache_ok_def table_of_def staged_bytes_def)
        moreover have "published c ?c (fst s')"
        proof -
          have "map_of (outcomes (fst s')) (lease_epoch (ticket_lease t)) = Some True" if "t \<in> set (awaiting c)" for t
            using settled_tickets_succeeded [of "fst s'" "snd s'" t] inv' ok' that gone same(7) [OF fine]
            by (auto simp: cache_ok_def)
          then show ?thesis using gone kv by (auto simp: published_def)
        qed
        ultimately show ?thesis
          using gone fine adv' kv same by (simp add: poll cache_call_ok_def same_object_def)
      qed
    qed
  qed
qed

lemma retire_returns:
  assumes "write_inv s"
  obtains s' where "at_arena (retire (ledger_now s)) s = (Inr (), s')" "advance {} s s'" "tables (snd s') = tables (snd s)"
proof -
  obtain wr w where s: "s = (wr, w)" by (cases s)
  have w: "world_inv w" using assms s write_invD(1) by blast
  have e: "completed_epoch (arena w) = ledger_epoch (completion w)" using w by (simp add: world_inv_def ledger_ok_def)
  have pool: "pool_inv (arena w)" using lease_exact_inv [OF world_leases [OF w]] .
  then obtain q where q: "retire (ledger_epoch (completion w)) (arena w) = (Inr (), q)"
    using pool_inv_epoch [OF pool] e by (cases rule: retire_cases [where c = "ledger_epoch (completion w)"]) auto
  then have run: "at_arena (retire (ledger_now s)) s = (Inr (), (wr, w\<lparr>arena := q\<rparr>))"
    by (simp add: s at_arena_def ledger_now_def)
  then show ?thesis using that retire_advance [OF assms] by (simp add: s)
qed

lemma table_abort:
  assumes inv: "write_inv s" and i: "i < length (tables (snd s))"
  obtains (refused) e where "at_table i (abort after) s = (Inl e, s)"
  | (aborted) s' where "at_table i (abort after) s = (Inr (), s')" "advance {i} s s'" "closed (tables (snd s') ! i)"
      "0 \<le> after" "after \<le> U64_MAX"
proof -
  obtain wr w where s: "s = (wr, w)" by (cases s)
  have w: "world_inv w" and iw: "i < length (tables w)" using inv i s write_invD(1) by auto
  show ?thesis
    using abort_contract [OF world_table(1) [OF w iw], of after]
  proof (cases rule: atomic_cases)
    case (fail e)
    then show ?thesis by (intro refused [of e]) (simp add: s at_table_def)
  next
    case (ok x sp)
    then have run: "at_table i (abort after) s = (Inr (), (wr, w\<lparr>arena := snd sp, tables := (tables w)[i := fst sp]\<rparr>))"
      by (simp add: s at_table_def case_prod_beta)
    have "fst (release (pages (tables w ! i)) after (arena w)) = Inr ()"
      using ok(1) by (cases "fst (release (pages (tables w ! i)) after (arena w))")
        (auto simp: abort_def lift_res_Inr_iff bind_res_def on_pool_def split: prod.splits)
    then obtain q where "release (pages (tables w ! i)) after (arena w) = (Inr (), q)" by (metis prod.collapse)
    then have "0 \<le> after \<and> after \<le> U64_MAX" using leases.drop_ok [OF world_leases [OF w]] by blast
    then show ?thesis
      by (intro aborted [OF run]) (use at_table_advance(2) [OF inv i, of after] run ok(2) iw in simp_all)
  qed
qed

text \<open>A reservation is a row of new tables; releasing it empties them and cannot raise.\<close>

lemma reserve_headroom_cases:
  assumes inv: "write_inv s"
  obtains (refused) e where "reserve_headroom n s = (Inl e, s)"
  | (reserved) ks s' where "reserve_headroom n s = (Inr ks, s')" "advance {} s s'" "headroom_ok ks (tables (snd s'))"
      "\<forall>k \<in> set ks. length (tables (snd s)) \<le> k" "int (length ks) = n"
proof -
  obtain wr w where s: "s = (wr, w)" by (cases s)
  have w: "world_inv w" using inv s write_invD(1) by blast
  note ex = world_leases [OF w]
  obtain r p where run: "reserve n (arena w) = (r, p)" by (cases "reserve n (arena w)")
  show ?thesis
  proof (cases r)
    case (Inl e)
    then have "p = arena w" using leases.take_fail [OF ex] run by blast
    then show ?thesis using run Inl by (intro refused [of e]) (simp add: s reserve_headroom_def at_arena_def)
  next
    case (Inr hs)
    have hs: "lease_exact (held w + mset hs) p" "int (length hs) = n" "distinct hs"
      using leases.take_ok [OF ex run [unfolded Inr]] by simp_all
    let ?ts = "tables w @ map reserved_table hs"
    let ?w = "w\<lparr>arena := p, tables := ?ts\<rparr>"
    let ?ks = "[length (tables w)..<length (tables w) + length hs]"
    have one: "seq_inv (reserved_table h)" "seq_leases (reserved_table h) = {#h#}" for h
      by (simp_all add: seq_inv_def seq_leases_def reserved_table_def new_sequence_def table_blocks_def blocks_for_def PAGE_SIZE_def U32_MAX_def)
    have leases: "table_leases ?ts = table_leases (tables w) + mset hs"
    proof (induction hs rule: rev_induct)
      case (snoc h hs)
      then show ?case using table_leases_simps(2) [of "tables w @ map reserved_table hs" "reserved_table h"] one(2) by simp
    qed simp
    have epoch: "completed_epoch p = completed_epoch (arena w)"
      using reserve_cases [OF lease_exact_inv [OF ex], of n] run Inr by (auto simp: reserved_from_def)
    have "world_inv ?w"
      using w hs(1) leases one(1) epoch by (auto simp: world_inv_def ledger_ok_def held_def ac_simps)
    then have "write_inv (wr, ?w)" using inv s by (simp add: write_inv_def)
    moreover have call: "reserve_headroom n s = (Inr ?ks, (wr, ?w))"
      using run Inr by (simp add: s reserve_headroom_def at_arena_def)
    moreover have "reserved_pages ?ks ?ts = hs"
    proof -
      have "map (\<lambda>k. pages (?ts ! k)) ?ks = map (\<lambda>h. [h]) hs"
        by (rule nth_equalityI) (simp_all add: nth_append reserved_table_def)
      then show ?thesis unfolding reserved_pages_def by simp
    qed
    ultimately show ?thesis
      using hs by (intro reserved [OF call]) (auto simp: s advance_def headroom_ok_def nth_append reserved_table_def new_sequence_def)
  qed
qed

lemma empty_tables_props:
  assumes "headroom_ok ks ts" and "\<forall>t \<in> set ts. seq_inv t"
  shows "length (empty_tables ks ts) = length ts \<and> (\<forall>k. k \<notin> set ks \<longrightarrow> empty_tables ks ts ! k = ts ! k)
    \<and> (\<forall>t \<in> set (empty_tables ks ts). seq_inv t)
    \<and> table_leases (empty_tables ks ts) + mset (reserved_pages ks ts) = table_leases ts"
  using assms
proof (induction ks arbitrary: ts)
  case (Cons j ks)
  let ?t = "(ts ! j)\<lparr>pages := [], closed := True\<rparr>"
  let ?ts = "ts[j := ?t]"
  have j: "j < length ts" "sequence.staged (ts ! j) = None" "j \<notin> set ks" using Cons.prems by (auto simp: headroom_ok_def)
  have rest: "headroom_ok ks ts" using Cons.prems by (auto simp: headroom_ok_def reserved_pages_def)
  have same: "\<forall>k \<in> set ks. k < length ?ts \<and> ?ts ! k = ts ! k"
    using rest j(1,3) by (auto simp: headroom_ok_def nth_list_update split: if_splits)
  note ok = headroom_ok_cong [OF rest same]
  have "seq_inv (ts ! j)" using Cons.prems j(1) by simp
  then have "seq_inv ?t" using j(2) by (auto simp: seq_inv_def table_blocks_def)
  then have inv: "\<forall>t \<in> set ?ts. seq_inv t" using Cons.prems by (auto dest: set_update_subset_insert [THEN subsetD])
  note IH = Cons.IH [OF ok(1) inv]
  have one: "table_leases ?ts + mset (pages (ts ! j)) = table_leases ts"
    using table_leases_update [OF j(1), of ?t] j(2) by (simp add: seq_leases_def)
  have "table_leases (empty_tables ks ?ts) + mset (reserved_pages ks ts) = table_leases ?ts"
    using IH ok(2) by simp
  then have "table_leases (empty_tables ks ?ts) + (mset (pages (ts ! j)) + mset (reserved_pages ks ts)) = table_leases ts"
    using one by (metis add.assoc add.commute)
  then show ?case using IH by (simp add: reserved_pages_def)
qed (simp add: reserved_pages_def)

lemma release_headroom_returns:
  assumes inv: "write_inv s" and ks: "headroom_ok ks (tables (snd s))" and after: "0 \<le> after" "after \<le> U64_MAX"
  obtains s' where "release_headroom ks after s = (Inr (), s')" "advance (set ks) s s'" "ledger_now s' = ledger_now s"
proof -
  obtain wr w where s: "s = (wr, w)" by (cases s)
  have w: "world_inv w" using inv s write_invD(1) by blast
  let ?hs = "reserved_pages ks (tables w)"
  have seqs: "\<forall>t \<in> set (tables w). seq_inv t" using w by (simp add: world_inv_def)
  note E = empty_tables_props [OF ks [unfolded s snd_conv] seqs]
  have sum: "table_leases (tables w) = table_leases (empty_tables ks (tables w)) + mset ?hs" using E by simp
  have held: "held w = (table_leases (empty_tables ks (tables w)) + pinned (completion w)) + mset ?hs"
    unfolding held_def sum by (simp add: ac_simps)
  have d: "distinct ?hs" using ks s by (simp add: headroom_ok_def)
  obtain q where q: "release ?hs after (arena w) = (Inr (), q)"
      "lease_exact (table_leases (empty_tables ks (tables w)) + pinned (completion w)) q"
    by (rule leases.drop_held [OF world_leases [OF w, unfolded held] d after])
  let ?w = "w\<lparr>arena := q, tables := empty_tables ks (tables w)\<rparr>"
  have run: "release_headroom ks after s = (Inr (), (wr, ?w))"
    using q(1) by (simp add: s release_headroom_def at_arena_def)
  have "completed_epoch q = completed_epoch (arena w)"
    using q(1) by (auto simp: release_def lift_res_Inr_iff)
  then have "world_inv ?w" using w q(2) E by (simp add: world_inv_def ledger_ok_def)
  then have "write_inv (wr, ?w)" using inv s by (simp add: write_inv_def)
  then have "advance (set ks) s (wr, ?w)" using E by (simp add: s advance_def)
  then show ?thesis using that [OF run] by (simp add: s ledger_now_def)
qed

lemma close_cache_ok:
  assumes inv: "write_inv s" and ok: "cache_ok s c"
  shows "cache_call_ok c s (close_cache (c, s))"
proof (cases "cache_closed c")
  case True
  then show ?thesis using cache_call_refl [OF inv ok] by (simp add: close_cache_def)
next
  case False
  let ?epochs = "pending_epochs (fst s)"
  let ?ks = "staging_reservation c"
  define after where "after = (if ?epochs = [] then ledger_now s else Max (set ?epochs))"
  have i: "cache_table c < length (tables (snd s))" and own: "cache_table c \<notin> set ?ks" "headroom_ok ?ks (tables (snd s))"
    using ok by (simp_all add: cache_ok_def)
  show ?thesis
    using inv i
  proof (cases rule: table_abort [where after = after])
    case (refused e)
    then have "close_cache (c, s) = (Inl e, (c, s))"
      using False by (simp add: close_cache_def Let_def after_def [symmetric] on_state_def)
    then show ?thesis using cache_call_refl [OF inv ok] by simp
  next
    case (aborted s1)
    let ?c = "c\<lparr>staging_reservation := []\<rparr>"
    have ok1: "headroom_ok ?ks (tables (snd s1))" by (rule headroom_ok_advance [OF own(2) aborted(2)]) (use own(1) in simp)
    obtain s2 where s2: "(if ?ks \<noteq> [] then bind_res (on_state c (release_headroom ?ks after s1))
                           (\<lambda>_ (c, s). (Inr (), (c\<lparr>staging_reservation := []\<rparr>, s))) else (Inr (), (c, s1))) = (Inr (), (?c, s2))"
        "advance (set ?ks) s1 s2"
    proof (cases "?ks = []")
      case True
      then have "?c = c" by simp
      then show ?thesis using that [of s1] True advance_refl [OF advance_inv [OF aborted(2)]] by simp
    next
      case False
      show ?thesis
        by (rule release_headroom_returns [OF advance_inv [OF aborted(2)] ok1 aborted(4,5)], rule that)
           (use False in \<open>simp_all add: on_state_def\<close>)
    qed
    obtain s3 where s3: "at_arena (retire (ledger_now s2)) s2 = (Inr (), s3)" "advance {} s2 s3"
      by (rule retire_returns [OF advance_inv [OF s2(2)]])
    have first: "on_state c (at_table (cache_table c) (abort after) s) = (Inr (), (c, s1))"
      and third: "on_state ?c (at_arena (retire (ledger_now s2)) s2) = (Inr (), (?c, s3))"
      using aborted(1) s3(1) by (simp_all add: on_state_def)
    have run: "close_cache (c, s) = (Inr (), (?c\<lparr>cache_closed := True\<rparr>, s3))"
      by (simp only: close_cache_def prod.case False if_False Let_def after_def [symmetric] first bind_res_simps s2(1) third)
    have adv: "advance (set (footprint c)) s s3"
      by (rule advance_trans [OF advance_mono [OF aborted(2)] advance_trans [OF advance_mono [OF s2(2)] advance_mono [OF s3(2)]]])
        (auto simp: footprint_def)
    have "cache_ok s3 (?c\<lparr>cache_closed := True\<rparr>)"
      using ok adv known_advance [OF adv]
      by (cases s; cases s3) (auto simp: cache_ok_def cache_sound_def advance_def headroom_ok_def reserved_pages_def)
    then show ?thesis using adv by (simp add: run cache_call_ok_def same_object_def)
  qed
qed

lemma attention_ok:
  assumes inv: "write_inv s" and ok: "cache_ok s c"
  shows "cache_call_ok c s (attention oid rows heads kind window (c, s))"
proof -
  obtain r s1 where prep: "with_ledger (prepare oid (pages (table_of c s))) s = (r, s1)"
    by (cases "with_ledger (prepare oid (pages (table_of c s))) s")
  have adv1: "advance {} s s1" using with_ledger_advance(1) [OF inv] prep by (metis snd_conv)
  have undone: "advance {} s (snd (with_ledger (abort_before_submit x) s1))" for x
    using advance_trans [OF adv1 with_ledger_advance(3) [OF advance_inv [OF adv1]]] .
  have keep: "cache_call_ok c s (x, (c, s'))" if "s' = s \<or> s' = s1 \<or> (\<exists>x. s' = snd (with_ledger (abort_before_submit x) s1))"
    for x :: "exc + attention_use" and s'
    using that cache_call_refl [OF inv ok] cache_call_keep [OF ok adv1] cache_call_keep [OF ok undone] by auto
  show ?thesis
  proof (cases "cache_ready c (fst s) = Inr () \<and> positive_check ''row_count'' rows U32_MAX = Inr () \<and> \<not> rows > cache_offset c")
    case False
    then obtain e where "attention oid rows heads kind window (c, s) = (Inl e, (c, s))"
      by (cases "cache_ready c (fst s)"; cases "positive_check ''row_count'' rows U32_MAX") (auto simp: attention_def)
    then show ?thesis using keep [of s "Inl e"] by simp
  next
    case True
    then have run: "attention oid rows heads kind window (c, s) =
        (case r of Inl e \<Rightarrow> (Inl e, (c, s1))
         | Inr x \<Rightarrow> (case check_plan (suffix_plan rows heads kind window c s1) of
             Inl e \<Rightarrow> bind_res (on_state c (with_ledger (abort_before_submit x) s1)) (\<lambda>_ cs. (Inl e, cs))
           | Inr _ \<Rightarrow> (Inr \<lparr>used_plan = suffix_plan rows heads kind window c s1, used_lease = x, reader = UsePrepared,
               completed_successfully = False\<rparr>, (c, s1))))"
      by (cases r) (simp_all add: attention_def prep on_state_def Let_def del: positive_check_Inr)
    have undo: "\<exists>y. bind_res (on_state c (with_ledger (abort_before_submit x) s1)) (\<lambda>_ cs. (Inl e, cs))
        = (y, (c, snd (with_ledger (abort_before_submit x) s1)))" for x e
      by (cases "fst (with_ledger (abort_before_submit x) s1)") (auto simp: on_state_def bind_res_def)
    show ?thesis
    proof (cases r)
      case (Inr x)
      show ?thesis
      proof (cases "check_plan (suffix_plan rows heads kind window c s1)")
        case (Inl e)
        obtain y where "attention oid rows heads kind window (c, s) = (y, (c, snd (with_ledger (abort_before_submit x) s1)))"
          using undo [of x e] by (auto simp: run Inr Inl)
        then show ?thesis using keep by (metis prod.collapse)
      next
        case (Inr u)
        then show ?thesis using keep by (simp add: run \<open>r = Inr x\<close>)
      qed
    qed (use keep run in simp)
  qed
qed

section \<open>New caches, frozen prefixes, readers\<close>

lemma new_cache_ok:
  assumes inv: "write_inv s" and "new_cache heads head_size dtype s = (Inr c, s')"
  shows "advance {} s s'" and "cache_ok s' c" and "profile_ok c" and "cache_table c = length (tables (snd s))"
    and "length (tables (snd s')) = Suc (length (tables (snd s)))" and "cache_heads c = heads"
    and "cache_dim c = head_size" and "cache_dtype c = dtype" and "key_store c = []" and "footprint c = [cache_table c]"
proof -
  obtain wr w where s: "s = (wr, w)" by (cases s)
  have c: "0 < heads" "heads \<le> U32_MAX" "dtype \<in> {''float16'', ''bfloat16''}" "head_size \<in> {128, 256}"
    and pb: "page_bytes wr = PAGE_SIZE * (heads * head_size * 2)"
    and cs: "c = \<lparr>cache_table = length (tables w), cache_heads = heads, cache_dim = head_size, cache_dtype = dtype,
          token_bytes = heads * head_size * 2, key_store = [], val_store = [], awaiting = [], in_staging = None,
          cache_failed = False, cache_closed = False, staging_reservation = []\<rparr>"
    and s': "s' = (wr, w\<lparr>tables := tables w @ [new_sequence]\<rparr>)"
    using assms(2) by (auto simp: new_cache_def s Let_def lift_res_Inr_iff split: if_splits)
  show "advance {} s s'"
    using advance_world_step [of wr w OpenTable] inv by (simp add: s s' foreign_def touched_def)
  show "profile_ok c" using c by (auto simp: cs profile_ok_def)
  show "cache_ok s' c"
    using c pb by (auto simp: cs s' cache_ok_def cache_sound_def table_of_def live_table_def new_sequence_def staged_bytes_def
      headroom_ok_def reserved_pages_def)
qed (use assms(2) in \<open>auto simp: new_cache_def footprint_def Let_def lift_res_Inr_iff split: if_splits\<close>)

lemma fork_new_cases:
  assumes inv: "write_inv s" and i: "i < length (tables (snd s))"
  obtains (refused) e where "fork_new i s = (Inl e, s)"
  | (forked) s' where "fork_new i s = (Inr (length (tables (snd s))), s')" "advance {} s s'"
      "length (tables (snd s')) = Suc (length (tables (snd s)))"
      "tables (snd s') ! length (tables (snd s)) = new_sequence\<lparr>retained_start := retained_start (tables (snd s) ! i),
         kv_end := kv_end (tables (snd s) ! i), first_block := first_block (tables (snd s) ! i), pages := pages (tables (snd s) ! i)\<rparr>"
      "tables (snd s') ! i = tables (snd s) ! i" "fst s' = fst s"
proof -
  obtain wr w where s: "s = (wr, w)" by (cases s)
  have w: "world_inv w" and iw: "i < length (tables w)" using inv i s write_invD(1) by auto
  have run: "fork_new i (wr, w) = (case fork_table i w of
      (Inl e, w') \<Rightarrow> (Inl e, (wr, w')) | (Inr y, w') \<Rightarrow> (Inr (length (tables w)), (wr, w')))"
    using iw by (cases "fork (tables w ! i, arena w)"; cases "fst (fork (tables w ! i, arena w))")
      (auto simp: fork_new_def at_table_def fork_table_def)
  show ?thesis
    using fork_table_atomic [OF w, of i]
  proof (cases rule: atomic_cases)
    case (fail e)
    then show ?thesis by (intro refused [of e]) (simp add: s run)
  next
    case (ok y w')
    have "advance {} (wr, w) (wr, w')"
      using advance_world_step [of wr w "ForkTable i"] inv ok(1) by (simp add: s foreign_def touched_def)
    then show ?thesis
      using ok iw by (intro forked [of "(wr, w')"]) (auto simp: s run nth_append)
  qed
qed

text \<open>The table of a cache with nothing in flight ends where its bytes end.\<close>

lemma ready_table:
  assumes ok: "cache_ok s c" and open_: "\<not> cache_closed c" "\<not> cache_failed c" "awaiting c = []"
  shows "kv_end (table_of c s) * token_bytes c = int (length (key_store c))" and "kv_end (table_of c s) = cache_offset c"
proof -
  have sound: "cache_sound c" using ok by (simp add: cache_ok_def)
  have "in_staging c = None" using sound open_ by (simp add: cache_sound_def)
  then show kv: "kv_end (table_of c s) * token_bytes c = int (length (key_store c))"
    using ok open_ by (simp add: cache_ok_def staged_bytes_def)
  show "kv_end (table_of c s) = cache_offset c"
    using kv sound nonzero_mult_div_cancel_right [of "token_bytes c" "kv_end (table_of c s)"]
    by (simp add: cache_offset_def cache_sound_def)
qed

lemma freeze_exact_ok:
  assumes inv: "write_inv s" and ok: "cache_ok s c" "profile_ok c"
  obtains (refused) e where "freeze_exact (c, s) = (Inl e, (c, s))"
  | (frozen) f s' where "freeze_exact (c, s) = (Inr f, (c, s'))" "advance {} s s'" "cache_ok s' c" "frozen_ok s' f"
      "frozen_table f = length (tables (snd s))"
proof (cases "cache_ready c (fst s)")
  case (Inl e)
  then show ?thesis by (intro refused [of e]) (simp add: freeze_exact_def)
next
  case (Inr u)
  then have ready: "cache_ready c (fst s) = Inr ()" by simp
  then have open_: "\<not> cache_closed c" "\<not> cache_failed c" "awaiting c = []" "\<not> poisoned (fst s)"
    by (auto simp: cache_ready_def split: if_splits)
  have i: "cache_table c < length (tables (snd s))" using ok by (simp add: cache_ok_def)
  show ?thesis
    using inv i
  proof (cases rule: fork_new_cases)
    case (refused e)
    then show ?thesis by (intro that(1) [of e]) (simp add: freeze_exact_def ready on_state_def)
  next
    case (forked s')
    note kv = ready_table [OF ok(1) open_(1-3)]
    note offset = kv(2) [symmetric]
    have sound: "cache_sound c" and live: "live_table (table_of c s)" using ok(1) open_ by (simp_all add: cache_ok_def)
    let ?x = "\<lparr>export_keys = key_store c, export_vals = val_store c, export_tokens = cache_offset c,
            export_heads = cache_heads c, export_dim = cache_dim c, export_dtype = cache_dtype c\<rparr>"
    let ?f = "\<lparr>frozen_table = length (tables (snd s)), frozen_export = ?x, frozen_closed = False\<rparr>"
    have run: "freeze_exact (c, s) = (Inr ?f, (c, s'))"
      using forked(1,6) ready by (simp add: freeze_exact_def export_exact_def on_state_def)
    have width: "page_bytes (fst s') = PAGE_SIZE * token_bytes c" "length (val_store c) = length (key_store c)"
      using ok(1) forked(6) sound by (simp_all add: cache_ok_def cache_sound_def)
    have table: "live_table (tables (snd s') ! length (tables (snd s)))"
        "kv_end (tables (snd s') ! length (tables (snd s))) = cache_offset c"
      using live by (simp_all add: forked(4) offset live_table_def table_of_def new_sequence_def)
    have bytes: "int (length (key_store c)) = cache_offset c * (cache_heads c * cache_dim c * 2)"
      using kv(1) offset ok(2) by (simp add: profile_ok_def)
    have "frozen_ok s' ?f"
      using ok(2) width table forked(3) unfolding frozen_ok_def Let_def profile_ok_def by (simp add: bytes)
    then show ?thesis
      using frozen run forked(2) cache_ok_advance(1) [OF ok(1) forked(2)] by simp
  qed
qed

text \<open>A branch starts from the bytes and pages of the prefix and holds the headroom it asked for.\<close>

lemma branch_child_ok:
  assumes inv: "write_inv s" and ok: "frozen_ok s f" and open_: "\<not> frozen_closed f" and ks: "headroom_ok ks (tables (snd s))"
  shows "advance {} s (snd (branch_child f ks s))"
    and "branch_child f ks s = (Inr c, s') \<Longrightarrow> cache_ok s' c \<and> profile_ok c \<and> length (tables (snd s)) \<le> cache_table c
      \<and> key_store c = export_keys (frozen_export f) \<and> val_store c = export_vals (frozen_export f)
      \<and> pages (table_of c s') = pages (tables (snd s) ! frozen_table f) \<and> staging_reservation c = ks"
proof -
  let ?x = "frozen_export f"
  have "advance {} s (snd (branch_child f ks s)) \<and> (\<forall>c s'. branch_child f ks s = (Inr c, s') \<longrightarrow>
      cache_ok s' c \<and> profile_ok c \<and> length (tables (snd s)) \<le> cache_table c
      \<and> key_store c = export_keys ?x \<and> val_store c = export_vals ?x
      \<and> pages (table_of c s') = pages (tables (snd s) ! frozen_table f) \<and> staging_reservation c = ks)"
  proof -
    obtain r s1 where new: "new_cache (export_heads ?x) (export_dim ?x) (export_dtype ?x) s = (r, s1)"
      by (cases "new_cache (export_heads ?x) (export_dim ?x) (export_dtype ?x) s")
    show ?thesis
    proof (cases r)
      case (Inl e)
      then have "s1 = s" using new by (auto simp: new_cache_def Let_def split: if_splits lift_res_split_asm)
      then show ?thesis using advance_refl [OF inv] new Inl by (simp add: branch_child_def Let_def)
    next
      case (Inr c1)
      note N = new_cache_ok [OF inv new [unfolded Inr]]
      have inv1: "write_inv s1" by (rule advance_inv [OF N(1)])
      have ok1: "frozen_ok s1 f" and same: "tables (snd s1) ! frozen_table f = tables (snd s) ! frozen_table f"
        using frozen_ok_advance [OF ok N(1)] by simp_all
      have i: "frozen_table f < length (tables (snd s1))" using ok1 by (simp add: frozen_ok_def)
      show ?thesis
        using inv1 i
      proof (cases rule: fork_new_cases)
        case (refused e)
        then show ?thesis using N(1) by (simp add: branch_child_def new Inr Let_def)
      next
        case (forked s2)
        let ?c = "c1\<lparr>cache_table := length (tables (snd s1)), key_store := export_keys ?x, val_store := export_vals ?x,
            staging_reservation := ks\<rparr>"
        have child: "branch_child f ks s = (Inr ?c, s2)"
          using forked(1) by (simp add: branch_child_def new Inr Let_def)
        have adv: "advance {} s s2" by (rule advance_trans [OF N(1) forked(2)])
        have c1: "cache_sound c1" "page_bytes (fst s1) = PAGE_SIZE * token_bytes c1" "awaiting c1 = []" "in_staging c1 = None"
          using N(2,9) new Inr by (auto simp: cache_ok_def new_cache_def Let_def lift_res_Inr_iff split: if_splits)
        have width: "token_bytes c1 = export_heads ?x * export_dim ?x * 2" using N(3,6,7) by (simp add: profile_ok_def)
        have "cache_sound ?c" using c1 ok width by (simp add: cache_sound_def frozen_ok_def Let_def)
        moreover have "kv_end (tables (snd s2) ! length (tables (snd s1))) * token_bytes c1 = int (length (export_keys ?x))"
          "live_table (tables (snd s2) ! length (tables (snd s1)))"
          using ok1 open_ width by (simp_all add: frozen_ok_def Let_def forked(4) live_table_def new_sequence_def)
        moreover have "headroom_ok ks (tables (snd s2))" by (rule headroom_ok_advance [OF ks adv]) simp
        moreover have "length (tables (snd s1)) \<notin> set ks" using ks N(5) by (auto simp: headroom_ok_def)
        ultimately have "cache_ok s2 ?c"
          using c1 forked(3,6) by (simp add: cache_ok_def table_of_def staged_bytes_def)
        moreover have "profile_ok ?c" using N(3) by (simp add: profile_ok_def)
        ultimately show ?thesis
          using adv forked(3,4) N(5) child same by (cases s2) (simp add: table_of_def)
      qed
    qed
  qed
  then show "advance {} s (snd (branch_child f ks s))"
    and "branch_child f ks s = (Inr c, s') \<Longrightarrow> cache_ok s' c \<and> profile_ok c \<and> length (tables (snd s)) \<le> cache_table c
      \<and> key_store c = export_keys (frozen_export f) \<and> val_store c = export_vals (frozen_export f)
      \<and> pages (table_of c s') = pages (tables (snd s) ! frozen_table f) \<and> staging_reservation c = ks"
    by blast+
qed

lemma advance_fresh:
  assumes "advance {} s s1" and "advance T s1 s2" and "\<forall>k \<in> T. length (tables (snd s)) \<le> k"
  shows "advance {} s s2"
proof -
  have inv: "write_inv s2" using advance_inv [OF assms(2)] .
  have tabs: "tables (snd s2) ! k = tables (snd s) ! k" if "k < length (tables (snd s))" for k
  proof -
    have "k \<notin> T" using assms(3) that by auto
    then show ?thesis using advance_tables [OF assms(1) that] advance_tables(2) [OF assms(2), of k] by simp
  qed
  have "advance UNIV s s2"
    by (rule advance_trans [OF advance_mono [OF assms(1)] advance_mono [OF assms(2)]]) simp_all
  then show ?thesis using tabs by (cases s; cases s2) (simp add: advance_def)
qed

lemma branch_unfold:
  assumes "\<not> frozen_closed f" and "0 \<le> n" and "n \<le> int (free_count (arena (snd s)))"
  shows "branch n f s = bind_res (if n \<noteq> 0 then reserve_headroom n s else (Inr [], s)) (\<lambda>reserved s.
        case branch_child f reserved s of
          (Inr c, s) \<Rightarrow> (Inr c, s)
        | (Inl e, s) \<Rightarrow>
            if reserved = [] then (Inl e, s)
            else bind_res (release_headroom reserved (ledger_now s) s) (\<lambda>_ s.
                 bind_res (at_arena (retire (ledger_now s)) s) (\<lambda>_ s. (Inl e, s))))"
  using assms by (simp add: branch_def)

lemma ledger_now_range:
  assumes "write_inv s"
  shows "0 \<le> ledger_now s" and "ledger_now s \<le> U64_MAX"
proof -
  obtain wr w where s: "s = (wr, w)" by (cases s)
  have w: "world_inv w" using assms s write_invD(1) by blast
  have "completed_epoch (arena w) = ledger_epoch (completion w)" using w by (simp add: world_inv_def ledger_ok_def)
  then show "0 \<le> ledger_now s" "ledger_now s \<le> U64_MAX"
    using pool_inv_epoch [OF lease_exact_inv [OF world_leases [OF w]]] by (simp_all add: s ledger_now_def)
qed

lemma branch_ok:
  assumes inv: "write_inv s" and ok: "frozen_ok s f"
  shows "advance {} s (snd (branch n f s))"
    and "branch n f s = (Inr c, s') \<Longrightarrow> cache_ok s' c \<and> profile_ok c \<and> (\<forall>k \<in> set (footprint c). length (tables (snd s)) \<le> k)
      \<and> key_store c = export_keys (frozen_export f) \<and> val_store c = export_vals (frozen_export f)
      \<and> pages (table_of c s') = pages (tables (snd s) ! frozen_table f) \<and> int (length (staging_reservation c)) = n"
proof -
  let ?x = "frozen_export f"
  let ?good = "\<lambda>c s'. cache_ok s' c \<and> profile_ok c \<and> (\<forall>k \<in> set (footprint c). length (tables (snd s)) \<le> k)
      \<and> key_store c = export_keys ?x \<and> val_store c = export_vals ?x
      \<and> pages (table_of c s') = pages (tables (snd s) ! frozen_table f) \<and> int (length (staging_reservation c)) = n"
  have "advance {} s (snd (branch n f s)) \<and> (\<forall>c s'. branch n f s = (Inr c, s') \<longrightarrow> ?good c s')"
  proof (cases "frozen_closed f \<or> n < 0 \<or> int (free_count (arena (snd s))) < n")
    case True
    then show ?thesis using advance_refl [OF inv] by (auto simp: branch_def)
  next
    case False
    let ?first = "if n \<noteq> 0 then reserve_headroom n s else (Inr [], s)"
    have open_: "\<not> frozen_closed f" and run: "branch n f s = bind_res ?first (\<lambda>reserved s.
        case branch_child f reserved s of
          (Inr c, s) \<Rightarrow> (Inr c, s)
        | (Inl e, s) \<Rightarrow>
            if reserved = [] then (Inl e, s)
            else bind_res (release_headroom reserved (ledger_now s) s) (\<lambda>_ s.
                 bind_res (at_arena (retire (ledger_now s)) s) (\<lambda>_ s. (Inl e, s))))"
      using False branch_unfold by auto
    consider (refused) e where "?first = (Inl e, s)"
      | (reserved) ks s1 where "?first = (Inr ks, s1)" "advance {} s s1" "headroom_ok ks (tables (snd s1))"
          "\<forall>k \<in> set ks. length (tables (snd s)) \<le> k" "int (length ks) = n"
    proof (cases "n = 0")
      case True
      then show ?thesis using reserved [of "[]" s] advance_refl [OF inv] by (simp add: headroom_ok_def reserved_pages_def)
    next
      case nz: False
      show ?thesis
        by (rule reserve_headroom_cases [OF inv, of n]) (use nz refused reserved in \<open>simp_all\<close>)
    qed
    then show ?thesis
    proof cases
      case (refused e)
      then show ?thesis using advance_refl [OF inv] by (simp add: run)
    next
      case (reserved ks s1)
      have inv1: "write_inv s1" by (rule advance_inv [OF reserved(2)])
      have ok1: "frozen_ok s1 f" and same: "tables (snd s1) ! frozen_table f = tables (snd s) ! frozen_table f"
        using frozen_ok_advance [OF ok reserved(2)] by simp_all
      have more: "length (tables (snd s)) \<le> length (tables (snd s1))" using reserved(2) by (cases s; cases s1) (simp add: advance_def)
      note B = branch_child_ok [OF inv1 ok1 open_ reserved(3)]
      obtain r s2 where child: "branch_child f ks s1 = (r, s2)" by (cases "branch_child f ks s1")
      have adv: "advance {} s s2" using advance_trans [OF reserved(2) B(1)] by (simp add: child)
      show ?thesis
      proof (cases r)
        case (Inr c)
        then have "branch n f s = (Inr c, s2)" by (simp add: run reserved(1) child)
        then show ?thesis
          using B(2) [OF child [unfolded Inr]] adv same more reserved(4,5) by (auto simp: footprint_def)
      next
        case (Inl e)
        show ?thesis
        proof (cases "ks = []")
          case True
          have "branch n f s = (Inl e, s2)" using child Inl reserved(1) unfolding True by (simp add: run)
          then show ?thesis using adv by simp
        next
          case False
          have ok2: "headroom_ok ks (tables (snd s2))"
            using headroom_ok_advance [OF reserved(3) B(1)] by (simp add: child)
          obtain s3 where s3: "release_headroom ks (ledger_now s2) s2 = (Inr (), s3)" "advance (set ks) s2 s3"
            using release_headroom_returns [OF advance_inv [OF adv] ok2 ledger_now_range [OF advance_inv [OF adv]]] by blast
          obtain s4 where s4: "at_arena (retire (ledger_now s3)) s3 = (Inr (), s4)" "advance {} s3 s4"
            by (rule retire_returns [OF advance_inv [OF s3(2)]])
          have "branch n f s = (Inl e, s4)" using Inl False s3(1) s4(1) by (simp add: run reserved(1) child)
          moreover have "advance {} s s4" by (rule advance_trans [OF advance_fresh [OF adv s3(2) reserved(4)] s4(2)])
          ultimately show ?thesis by simp
        qed
      qed
    qed
  qed
  then show "advance {} s (snd (branch n f s))" and "branch n f s = (Inr c, s') \<Longrightarrow> ?good c s'" by blast+
qed

lemma close_frozen_ok:
  assumes inv: "write_inv s" and ok: "frozen_ok s f"
  obtains (kept) x where "close_frozen (f, s) = (x, (f, s))"
  | (closed_now) s' where "close_frozen (f, s) = (Inr (), (f\<lparr>frozen_closed := True\<rparr>, s'))" "advance {frozen_table f} s s'"
      "frozen_ok s' (f\<lparr>frozen_closed := True\<rparr>)"
proof (cases "frozen_closed f")
  case True
  then show ?thesis using kept by (simp add: close_frozen_def)
next
  case False
  have i: "frozen_table f < length (tables (snd s))" using ok by (simp add: frozen_ok_def)
  show ?thesis
    using inv i
  proof (cases rule: table_abort [where after = "ledger_now s"])
    case (refused e)
    then show ?thesis using kept False by (simp add: close_frozen_def)
  next
    case (aborted s1)
    have now: "ledger_now s1 = ledger_now s"
      using aborted(1) by (cases s; cases s1) (auto simp: at_table_def ledger_now_def split: prod.splits)
    obtain s2 where s2: "at_arena (retire (ledger_now s1)) s1 = (Inr (), s2)" "advance {} s1 s2"
      by (rule retire_returns [OF advance_inv [OF aborted(2)]])
    have adv: "advance {frozen_table f} s s2"
      by (rule advance_trans [OF aborted(2) advance_mono [OF s2(2)]]) simp
    have "close_frozen (f, s) = (Inr (), (f\<lparr>frozen_closed := True\<rparr>, s2))"
      using False aborted(1) s2(1) now by (simp add: close_frozen_def)
    moreover have "frozen_ok s2 (f\<lparr>frozen_closed := True\<rparr>)"
      using ok adv by (cases s; cases s2) (auto simp: frozen_ok_def advance_def Let_def)
    ultimately show ?thesis using closed_now adv by blast
  qed
qed

section \<open>The invariant over all caches\<close>

lemma distinct_concat_nth:
  assumes "distinct (concat xs)" and "i < length xs" and "j < length xs" and "i \<noteq> j"
  shows "set (xs ! i) \<inter> set (xs ! j) = {}"
  using assms
proof (induction xs arbitrary: i j)
  case (Cons x xs)
  have "set x \<inter> set (xs ! k) = {}" if "k < length xs" for k using Cons.prems(1) nth_mem [OF that] by auto
  then show ?case using Cons by (cases i; cases j) auto
qed simp

lemma distinct_concat_update:
  assumes "distinct (concat xs)" and "i < length xs" and "distinct ys" and "set ys \<subseteq> set (xs ! i)"
  shows "distinct (concat (xs[i := ys])) \<and> set (concat (xs[i := ys])) \<subseteq> set (concat xs)"
  using assms
proof (induction xs arbitrary: i)
  case (Cons x xs)
  show ?case
  proof (cases i)
    case (Suc j)
    have "distinct (concat (xs[j := ys])) \<and> set (concat (xs[j := ys])) \<subseteq> set (concat xs)"
      using Cons.IH [of j] Cons.prems Suc by simp
    then show ?thesis using Cons.prems(1) Suc by auto
  qed (use Cons.prems in auto)
qed simp

lemma cache_invD:
  assumes "cache_inv s"
  shows "write_inv (backing s)" and "distinct (owned s)"
    and "c \<in> set (caches s) \<Longrightarrow> cache_ok (backing s) c" and "c \<in> set (caches s) \<Longrightarrow> profile_ok c"
    and "f \<in> set (snapshots s) \<Longrightarrow> frozen_ok (backing s) f"
    and "u \<in> set (readers s) \<Longrightarrow> reader_ok (backing s) u"
    and "i \<in> set (owned s) \<Longrightarrow> i < length (tables (snd (backing s)))"
    and "j < length (caches s) \<Longrightarrow> f \<in> set (snapshots s) \<Longrightarrow> frozen_table f \<notin> set (footprint (caches s ! j))"
    and "j < length (caches s) \<Longrightarrow> k < length (caches s) \<Longrightarrow> j \<noteq> k \<Longrightarrow> set (footprint (caches s ! j)) \<inter> set (footprint (caches s ! k)) = {}"
proof -
  show "write_inv (backing s)" and d: "distinct (owned s)"
    and "c \<in> set (caches s) \<Longrightarrow> cache_ok (backing s) c" and "c \<in> set (caches s) \<Longrightarrow> profile_ok c"
    and "f \<in> set (snapshots s) \<Longrightarrow> frozen_ok (backing s) f"
    and "u \<in> set (readers s) \<Longrightarrow> reader_ok (backing s) u"
    using assms by (simp_all add: cache_inv_def)
  show "i \<in> set (owned s) \<Longrightarrow> i < length (tables (snd (backing s)))"
    using assms by (auto simp: cache_inv_def owned_def cache_ok_def frozen_ok_def footprint_def headroom_ok_def)
  show "frozen_table f \<notin> set (footprint (caches s ! j))" if "j < length (caches s)" "f \<in> set (snapshots s)"
    using d that(2) nth_mem [OF that(1)] by (fastforce simp: owned_def)
  show "set (footprint (caches s ! j)) \<inter> set (footprint (caches s ! k)) = {}"
    if "j < length (caches s)" "k < length (caches s)" "j \<noteq> k"
    using distinct_concat_nth [of "map footprint (caches s)" j k] d that by (simp add: owned_def)
qed

text \<open>Progress of the shared state that leaves every owned table alone.\<close>

lemma cache_inv_advance:
  assumes inv: "cache_inv s" and adv: "advance T (backing s) b" and T: "T \<inter> set (owned s) = {}"
  shows "cache_inv (s\<lparr>backing := b\<rparr>)"
proof -
  note D = cache_invD [OF inv]
  have "cache_ok b c" if "c \<in> set (caches s)" for c
    by (rule cache_ok_advance(1) [OF D(3) [OF that] adv]) (use T that in \<open>auto simp: owned_def\<close>)
  moreover have "frozen_ok b f" if "f \<in> set (snapshots s)" for f
    using frozen_ok_advance(1) [OF D(5) [OF that] adv] T that by (auto simp: owned_def)
  ultimately show ?thesis
    using D advance_inv [OF adv] reader_ok_advance [OF _ adv] by (simp add: cache_inv_def owned_def)
qed

lemma cache_inv_at_cache:
  assumes inv: "cache_inv s" and i: "i < length (caches s)" and call: "cache_call_ok (caches s ! i) (backing s) (r, (c, b))"
  shows "cache_inv (s\<lparr>caches := (caches s)[i := c], backing := b\<rparr>)"
proof -
  note D = cache_invD [OF inv]
  let ?T = "set (footprint (caches s ! i))"
  have adv: "advance ?T (backing s) b" and ok: "cache_ok b c" and same: "same_object (caches s ! i) c"
    using call by (simp_all add: cache_call_ok_def)
  have prof: "profile_ok c" using D(4) [OF nth_mem [OF i]] same by (simp add: profile_ok_def same_object_def)
  have foot: "distinct (footprint c)" "set (footprint c) \<subseteq> ?T"
    using ok same by (auto simp: cache_ok_def headroom_ok_def footprint_def same_object_def)
  have own: "distinct (concat (map footprint ((caches s)[i := c])) @ map frozen_table (snapshots s))"
    using distinct_concat_update [of "map footprint (caches s)" i "footprint c"] D(2) foot i
    by (auto simp: owned_def map_update)
  have caches: "cache_ok b d \<and> profile_ok d" if d: "d \<in> set ((caches s)[i := c])" for d
  proof -
    obtain j where j: "j < length (caches s)" "d = (caches s)[i := c] ! j" using d by (auto simp: in_set_conv_nth)
    show ?thesis
    proof (cases "j = i")
      case True
      then show ?thesis using j ok prof by simp
    next
      case False
      then show ?thesis
        using cache_ok_advance(1) [OF D(3) [OF nth_mem [OF j(1)]] adv D(9) [OF j(1) i False]] D(4) [OF nth_mem [OF j(1)]] j by simp
    qed
  qed
  have "frozen_ok b f" if "f \<in> set (snapshots s)" for f
    by (rule frozen_ok_advance(1) [OF D(5) [OF that] adv D(8) [OF i that]])
  then show ?thesis
    using D(6) advance_inv [OF adv] caches reader_ok_advance [OF _ adv] own by (simp add: cache_inv_def owned_def)
qed

lemma cache_inv_new_cache:
  assumes inv: "cache_inv s" and adv: "advance {} (backing s) b" and ok: "cache_ok b c" "profile_ok c"
    and new: "\<forall>k \<in> set (footprint c). length (tables (snd (backing s))) \<le> k"
  shows "cache_inv (s\<lparr>backing := b, caches := caches s @ [c]\<rparr>)"
proof -
  have "cache_inv (s\<lparr>backing := b\<rparr>)" by (rule cache_inv_advance [OF inv adv]) simp
  moreover have "set (footprint c) \<inter> set (owned s) = {}" using cache_invD(7) [OF inv] new by fastforce
  moreover have "distinct (footprint c)" using ok(1) by (simp add: footprint_def cache_ok_def headroom_ok_def)
  ultimately show ?thesis using ok by (auto simp: cache_inv_def owned_def)
qed

lemma cache_inv_new_snapshot:
  assumes inv: "cache_inv s" and adv: "advance {} (backing s) b" and ok: "frozen_ok b f"
    and new: "length (tables (snd (backing s))) \<le> frozen_table f"
  shows "cache_inv (s\<lparr>backing := b, snapshots := snapshots s @ [f]\<rparr>)"
proof -
  have "cache_inv (s\<lparr>backing := b\<rparr>)" by (rule cache_inv_advance [OF inv adv]) simp
  moreover have "frozen_table f \<notin> set (owned s)" using cache_invD(7) [OF inv] new by fastforce
  ultimately show ?thesis using ok by (auto simp: cache_inv_def owned_def)
qed

lemma prepared_reader:
  assumes inv: "write_inv s" and "with_ledger (prepare oid hs) s = (Inr x, s')"
  shows "lease_epoch x < next_epoch (completion (snd s'))" and "map_of (tickets (fst s')) (lease_epoch x) = None"
proof -
  obtain wr w where s: "s = (wr, w)" by (cases s)
  have ok: "ledger_ok (table_leases (tables w)) (completion w, arena w)"
    using write_invD(1) inv s by (simp add: world_inv_def)
  have "lease_epoch x = next_epoch (completion w) \<and> next_epoch (completion (snd s')) = next_epoch (completion w) + 1 \<and> fst s' = wr"
    using prepare_contract [OF ok, of oid hs] assms(2) s
    by (cases rule: atomic_cases) (auto simp: with_ledger_def split: prod.splits)
  moreover have "map_of (tickets wr) (next_epoch (completion w)) = None"
  proof (cases "map_of (tickets wr) (next_epoch (completion w))")
    case (Some t)
    then show ?thesis using ticket_epoch [of wr w] inv s by fastforce
  qed
  ultimately show "lease_epoch x < next_epoch (completion (snd s'))" "map_of (tickets (fst s')) (lease_epoch x) = None"
    by simp_all
qed

lemma reader_foreign:
  assumes "write_inv s" and "reader_ok s u"
  shows "used_lease u \<notin> ticket_lease ` snd ` set (tickets (fst s))"
proof
  assume "used_lease u \<in> ticket_lease ` snd ` set (tickets (fst s))"
  then obtain e t where t: "(e, t) \<in> set (tickets (fst s))" "used_lease u = ticket_lease t" by auto
  obtain wr w where s: "s = (wr, w)" by (cases s)
  have "map_of (tickets wr) e = Some t" using t(1) write_invD(2) assms(1) s by fastforce
  then show False using write_invD(3) assms t(2) s by (fastforce simp: reader_ok_def)
qed

lemma reader_call_ok:
  assumes inv: "write_inv s" and ok: "reader_ok s u" and call: "call \<in> {mark_submitted, abort_use, complete_after_proof succeeded}"
  shows "advance {} s (snd (snd (call (u, s)))) \<and> used_lease (fst (snd (call (u, s)))) = used_lease u"
proof -
  note adv = with_ledger_advance(2,3) [OF inv, of "used_lease u"] with_ledger_advance(4) [OF inv reader_foreign [OF inv ok], of True]
  show ?thesis
    using call adv advance_refl [OF inv, of "{}"]
    by (auto simp: mark_submitted_def abort_use_def complete_after_proof_def split: prod.split sum.split)
qed

lemma cache_inv_at_reader:
  assumes inv: "cache_inv s" and call: "call \<in> {mark_submitted, abort_use, complete_after_proof succeeded}"
  shows "cache_inv (snd (at_reader k call s))"
proof (cases "k < length (readers s)")
  case True
  obtain r u b where run: "call (readers s ! k, backing s) = (r, (u, b))" by (cases "call (readers s ! k, backing s)") auto
  have old: "reader_ok (backing s) (readers s ! k)" using cache_invD(6) [OF inv] True by simp
  have adv: "advance {} (backing s) b" and u: "used_lease u = used_lease (readers s ! k)"
    using reader_call_ok [OF cache_invD(1) [OF inv] old call] by (simp_all add: run)
  have "cache_inv (s\<lparr>backing := b\<rparr>)" by (rule cache_inv_advance [OF inv adv]) simp
  moreover have "reader_ok b u" using reader_ok_advance [OF old adv] u by (simp add: reader_ok_def)
  ultimately show ?thesis
    using True by (auto simp: at_reader_def run cache_inv_def owned_def dest: set_update_subset_insert [THEN subsetD])
qed (use inv in \<open>simp add: at_reader_def\<close>)


lemma at_cache_inv:
  assumes inv: "cache_inv s" and call: "\<And>c b. write_inv b \<Longrightarrow> cache_ok b c \<Longrightarrow> cache_call_ok c b (f (c, b))"
  shows "cache_inv (snd (at_cache i f s))"
proof (cases "i < length (caches s)")
  case True
  obtain r c b where run: "f (caches s ! i, backing s) = (r, (c, b))" by (cases "f (caches s ! i, backing s)") auto
  have "cache_call_ok (caches s ! i) (backing s) (r, (c, b))"
    using call cache_invD(1,3) [OF inv] True unfolding run [symmetric] by simp
  then show ?thesis using cache_inv_at_cache [OF inv True] True by (simp add: at_cache_def run)
qed (use inv in \<open>simp add: at_cache_def\<close>)

text \<open>A reader of a successful \<open>attention\<close> holds a lease that is no write ticket.\<close>

lemma attention_reader:
  assumes inv: "write_inv s" and run: "attention oid rows heads kind window (c, s) = (Inr u, (c', s'))"
  shows "reader_ok s' u"
    and "c' = c" and "used_plan u = suffix_plan rows heads kind window c s'"
    and "check_plan (used_plan u) = Inr ()" and "with_ledger (prepare oid (pages (table_of c s))) s = (Inr (used_lease u), s')"
proof -
  obtain x where x: "with_ledger (prepare oid (pages (table_of c s))) s = (Inr x, s')" and u: "c' = c"
      "u = \<lparr>used_plan = suffix_plan rows heads kind window c s', used_lease = x, reader = UsePrepared, completed_successfully = False\<rparr>"
      "check_plan (suffix_plan rows heads kind window c s') = Inr ()"
  proof -
    obtain r s1 where prep: "with_ledger (prepare oid (pages (table_of c s))) s = (r, s1)"
      by (cases "with_ledger (prepare oid (pages (table_of c s))) s")
    have body: "bind_res (r, (c, s1)) (\<lambda>x (c, s).
       let pl = suffix_plan rows heads kind window c s
       in case check_plan pl of
            Inl e \<Rightarrow> bind_res (on_state c (with_ledger (abort_before_submit x) s)) (\<lambda>_ cs. (Inl e, cs))
          | Inr _ \<Rightarrow> (Inr \<lparr>used_plan = pl, used_lease = x, reader = UsePrepared, completed_successfully = False\<rparr>, (c, s)))
        = (Inr u, (c', s'))"
      using run by (auto simp: attention_def lift_res_Inr_iff on_state_def prep split: if_splits)
    then obtain x where r: "r = Inr x" by (cases r) auto
    have "\<exists>u'. check_plan (suffix_plan rows heads kind window c s1) = Inr u'"
      using body unfolding r by (cases "check_plan (suffix_plan rows heads kind window c s1)") (auto simp: Let_def bind_res_Inr_iff)
    then have "check_plan (suffix_plan rows heads kind window c s1) = Inr ()" by simp
    with body show ?thesis using prep unfolding r by (intro that [of x]) (auto simp: Let_def)
  qed
  show "reader_ok s' u" "c' = c" "used_plan u = suffix_plan rows heads kind window c s'" "check_plan (used_plan u) = Inr ()"
    "with_ledger (prepare oid (pages (table_of c s))) s = (Inr (used_lease u), s')"
    using prepared_reader [OF inv x] x u by (simp_all add: reader_ok_def)
qed

lemma cache_step_inv:
  assumes inv: "cache_inv s"
  shows "cache_inv (snd (cache_step call s))"
proof -
  note D = cache_invD [OF inv]
  have none: "cache_inv (s\<lparr>backing := b\<rparr>)" if "advance {} (backing s) b" for b
    by (rule cache_inv_advance [OF inv that]) simp
  show ?thesis
  proof (cases call)
    case (NewCache heads head_size dtype)
    obtain r b where run: "new_cache heads head_size dtype (backing s) = (r, b)" by (cases "new_cache heads head_size dtype (backing s)")
    show ?thesis
    proof (cases r)
      case (Inl e)
      then have "b = backing s" using run by (auto simp: new_cache_def Let_def split: if_splits lift_res_split_asm)
      then show ?thesis using inv by (simp add: NewCache run Inl)
    next
      case (Inr c)
      show ?thesis using cache_inv_new_cache [OF inv] new_cache_ok [OF D(1) run [unfolded Inr]] by (simp add: NewCache run Inr)
    qed
  next
    case (AppendKV i env native new_keys new_vals)
    then show ?thesis using at_cache_inv [OF inv append_kv_ok] by simp
  next
    case (PollCache i events)
    then show ?thesis using at_cache_inv [OF inv poll_cache_ok] by simp
  next
    case (CloseCache i)
    then show ?thesis using at_cache_inv [OF inv close_cache_ok] by simp
  next
    case (Attend i oid rows heads kind window)
    show ?thesis
    proof (cases "i < length (caches s)")
      case True
      obtain r c b where run: "attention oid rows heads kind window (caches s ! i, backing s) = (r, (c, b))"
        by (cases "attention oid rows heads kind window (caches s ! i, backing s)") auto
      have "cache_call_ok (caches s ! i) (backing s) (r, (c, b))"
        unfolding run [symmetric] by (rule attention_ok [OF D(1,3)]) (simp add: True)
      then have base: "cache_inv (s\<lparr>caches := (caches s)[i := c], backing := b\<rparr>)"
        by (simp add: cache_inv_at_cache [OF inv True] cache_call_ok_def)
      show ?thesis
      proof (cases r)
        case (Inr u)
        have "reader_ok b u" by (rule attention_reader(1) [OF D(1) run [unfolded Inr]])
        then show ?thesis using base by (auto simp: Attend True run Inr cache_inv_def owned_def)
      qed (use base in \<open>simp add: Attend True run\<close>)
    qed (use inv in \<open>simp add: Attend\<close>)
  next
    case (FreezeCache i)
    show ?thesis
    proof (cases "i < length (caches s)")
      case True
      have c: "cache_ok (backing s) (caches s ! i)" "profile_ok (caches s ! i)" using D(3,4) True by simp_all
      have same: "s\<lparr>caches := (caches s)[i := caches s ! i], backing := b\<rparr> = s\<lparr>backing := b\<rparr>" for b by simp
      show ?thesis
        using D(1) c
      proof (cases rule: freeze_exact_ok)
        case (refused e)
        then show ?thesis using inv True by (simp add: FreezeCache)
      next
        case (frozen f b)
        then show ?thesis
          using cache_inv_new_snapshot [OF inv frozen(2,4)] True by (simp add: FreezeCache)
      qed
    qed (use inv in \<open>simp add: FreezeCache\<close>)
  next
    case (BranchFrozen j n)
    show ?thesis
    proof (cases "j < length (snapshots s)")
      case True
      have f: "frozen_ok (backing s) (snapshots s ! j)" using D(5) True by simp
      obtain r b where run: "branch n (snapshots s ! j) (backing s) = (r, b)" by (cases "branch n (snapshots s ! j) (backing s)")
      have adv: "advance {} (backing s) b" using branch_ok(1) [OF D(1) f, of n] run by simp
      show ?thesis
      proof (cases r)
        case (Inr c)
        show ?thesis
          using branch_ok(2) [OF D(1) f run [unfolded Inr]] cache_inv_new_cache [OF inv adv, of c] by (simp add: BranchFrozen True run Inr)
      qed (use none [OF adv] in \<open>simp add: BranchFrozen True run\<close>)
    qed (use inv in \<open>simp add: BranchFrozen\<close>)
  next
    case (CloseFrozen j)
    show ?thesis
    proof (cases "j < length (snapshots s)")
      case True
      let ?f = "snapshots s ! j"
      have f: "frozen_ok (backing s) ?f" using D(5) True by simp
      show ?thesis
        using D(1) f
      proof (cases rule: close_frozen_ok)
        case (kept x)
        then show ?thesis using inv True by (simp add: CloseFrozen at_snapshot_def)
      next
        case (closed_now b)
        let ?g = "?f\<lparr>frozen_closed := True\<rparr>"
        have own: "frozen_table ?f \<notin> set (footprint c)" if "c \<in> set (caches s)" for c
          using D(8) nth_mem [OF True] that by (metis in_set_conv_nth)
        have tabs: "map frozen_table ((snapshots s)[j := ?g]) = map frozen_table (snapshots s)"
          using True by (simp add: map_update list_update_same_conv)
        have snaps: "frozen_ok b g" if g: "g \<in> set ((snapshots s)[j := ?g])" for g
        proof -
          obtain k where k: "k < length (snapshots s)" "g = (snapshots s)[j := ?g] ! k" using g by (auto simp: in_set_conv_nth)
          show ?thesis
          proof (cases "k = j")
            case True
            then show ?thesis using k closed_now(3) by simp
          next
            case False
            have "distinct (map frozen_table (snapshots s))" using D(2) by (simp add: owned_def)
            then have "frozen_table (snapshots s ! k) \<noteq> frozen_table ?f"
              using False k(1) \<open>j < length (snapshots s)\<close> by (simp add: distinct_conv_nth)
            then show ?thesis
              using frozen_ok_advance(1) [OF D(5) [OF nth_mem [OF k(1)]] closed_now(2)] False k by simp
          qed
        qed
        have "cache_ok b c" if "c \<in> set (caches s)" for c
          by (rule cache_ok_advance(1) [OF D(3) [OF that] closed_now(2)]) (use own [OF that] in simp)
        then have "cache_inv (s\<lparr>snapshots := (snapshots s)[j := ?g], backing := b\<rparr>)"
          using D(2,4,6) advance_inv [OF closed_now(2)] snaps reader_ok_advance [OF _ closed_now(2)] tabs
          by (simp add: cache_inv_def owned_def)
        then show ?thesis using closed_now(1) True by (simp add: CloseFrozen at_snapshot_def)
      qed
    qed (use inv in \<open>simp add: CloseFrozen at_snapshot_def\<close>)
  next
    case (MarkSubmitted k)
    then show ?thesis using cache_inv_at_reader [OF inv] by simp
  next
    case (AbortReader k)
    then show ?thesis using cache_inv_at_reader [OF inv] by simp
  next
    case (CompleteReader k succeeded)
    then show ?thesis using cache_inv_at_reader [OF inv, of "complete_after_proof succeeded" succeeded k] by simp
  next
    case (OtherWrite c)
    then show ?thesis
      using inv cache_inv_advance [OF inv advance_write_step [OF D(1)]] by (simp add: case_prod_beta)
  qed
qed


lemma cache_start_inv: "cache_start s \<Longrightarrow> cache_inv s"
  by (simp add: cache_start_def cache_inv_def owned_def write_start_inv)

interpretation paged_caches: stateful_component cache_start cache_step cache_inv
  using cache_start_inv cache_step_inv by unfold_locales blast+

section \<open>Publication\<close>

lemma at_cache_others: "j \<noteq> i \<Longrightarrow> caches (snd (at_cache i f s)) ! j = caches s ! j"
  by (simp add: at_cache_def split: prod.split)

lemma at_cache_call:
  assumes inv: "cache_inv s" and i: "i < length (caches s)"
    and call: "\<And>c b. write_inv b \<Longrightarrow> cache_ok b c \<Longrightarrow> cache_call_ok c b (f (c, b))"
  shows "\<exists>r. cache_call_ok (caches s ! i) (backing s) (r, (caches (snd (at_cache i f s)) ! i, backing (snd (at_cache i f s))))"
proof -
  obtain r c b where run: "f (caches s ! i, backing s) = (r, (c, b))" by (cases "f (caches s ! i, backing s)") auto
  have "cache_call_ok (caches s ! i) (backing s) (r, (c, b))"
    using call cache_invD(1,3) [OF inv] i unfolding run [symmetric] by simp
  then show ?thesis using i by (auto simp: at_cache_def run cache_call_ok_def)
qed

text \<open>What a step does to the object of one cache.\<close>

definition cache_progress :: "private_cache \<Rightarrow> private_cache \<Rightarrow> writer \<Rightarrow> bool" where
  "cache_progress c c' wr \<longleftrightarrow> same_object c c' \<and> (cache_closed c \<longrightarrow> cache_closed c')
     \<and> ((key_store c', val_store c') = (key_store c, val_store c) \<or> published c c' wr)"

lemma cache_progress_refl: "cache_progress c c wr"
  by (simp add: cache_progress_def same_object_refl)

lemma cache_call_progress: "cache_call_ok c s (r, (c', b)) \<Longrightarrow> cache_progress c c' (fst b)"
  by (simp add: cache_call_ok_def cache_progress_def)

lemma cache_step_progress:
  assumes inv: "cache_inv s" and i: "i < length (caches s)"
  shows "cache_progress (caches s ! i) (caches (snd (cache_step call s)) ! i) (fst (backing (snd (cache_step call s))))"
proof -
  note D = cache_invD [OF inv]
  have at: "cache_progress (caches s ! i) (caches (snd (at_cache j f s)) ! i) (fst (backing (snd (at_cache j f s))))"
    if "\<And>c b. write_inv b \<Longrightarrow> cache_ok b c \<Longrightarrow> cache_call_ok c b (f (c, b))" for j and f :: "cache_state \<Rightarrow> ('a, cache_state) res"
  proof (cases "j = i")
    case True
    then show ?thesis using at_cache_call [OF inv i that] cache_call_progress by blast
  qed (simp add: at_cache_others cache_progress_refl)
  show ?thesis
  proof (cases call)
    case (AppendKV j env native new_keys new_vals)
    show ?thesis using at [OF append_kv_ok] by (simp add: AppendKV)
  next
    case (PollCache j events)
    show ?thesis using at [OF poll_cache_ok] by (simp add: PollCache)
  next
    case (CloseCache j)
    show ?thesis using at [OF close_cache_ok] by (simp add: CloseCache)
  next
    case (Attend j oid rows heads kind window)
    obtain r c b where run: "attention oid rows heads kind window (caches s ! j, backing s) = (r, (c, b))"
      by (cases "attention oid rows heads kind window (caches s ! j, backing s)") auto
    have "cache_progress (caches s ! j) c (fst b)" if "j < length (caches s)"
    proof -
      have "cache_call_ok (caches s ! j) (backing s) (attention oid rows heads kind window (caches s ! j, backing s))"
        by (rule attention_ok [OF D(1,3)]) (simp add: that)
      then show ?thesis unfolding run by (rule cache_call_progress)
    qed
    then show ?thesis
      using i run by (cases "j = i"; cases r) (simp_all add: Attend cache_progress_refl)
  next
    case (FreezeCache j)
    show ?thesis
    proof (cases "j < length (caches s)")
      case True
      have c: "cache_ok (backing s) (caches s ! j)" "profile_ok (caches s ! j)" using D(3,4) True by simp_all
      show ?thesis
        using D(1) c by (cases rule: freeze_exact_ok) (use True in \<open>simp_all add: FreezeCache cache_progress_refl\<close>)
    qed (simp add: FreezeCache cache_progress_refl)
  qed (use i in \<open>simp_all add: cache_progress_refl at_snapshot_def at_reader_def nth_append split: prod.split sum.split\<close>)
qed

text \<open>
  The writes of an append: each stays inside one page and inside the appended tokens, and every
  appended token is written to the page the table gives for it.
\<close>

type_synonym page_write = "nat \<times> page_handle \<times> int \<times> int \<times> nat option"

definition page_write :: "page_write \<Rightarrow> write_call" where
  "page_write x = (case x of (oid, h, offset, n, q) \<Rightarrow> SubmitWrite oid h offset n q)"

definition writes_tile :: "sequence \<Rightarrow> int \<Rightarrow> int \<Rightarrow> int \<Rightarrow> page_write list \<Rightarrow> bool" where
  "writes_tile sq width first stop xs \<longleftrightarrow>
     (\<forall>(oid, h, offset, n, q) \<in> set xs. \<exists>t m. first \<le> t \<and> 0 < m \<and> t + m \<le> stop \<and> t mod PAGE_SIZE + m \<le> PAGE_SIZE
          \<and> h = page_of sq t \<and> offset = t mod PAGE_SIZE * width \<and> n = m * width)
   \<and> (\<forall>t. first \<le> t \<longrightarrow> t < stop \<longrightarrow> (\<exists>(oid, h, offset, n, q) \<in> set xs. h = page_of sq t
          \<and> offset \<le> t mod PAGE_SIZE * width \<and> (t mod PAGE_SIZE + 1) * width \<le> offset + n))"

lemma block_unique:
  fixes u b d r :: int
  assumes "u = b * d + r" and "0 \<le> r" and "r < d"
  shows "u div d = b" and "u mod d = r"
proof -
  have "d \<noteq> 0" using assms by simp
  then show "u div d = b" using assms by (simp add: div_pos_pos_trivial)
  show "u mod d = r" using assms by (simp add: mod_pos_pos_trivial)
qed

lemma writes_tile_Cons:
  assumes "writes_tile sq width mid stop xs" and "0 < m" and "mid = t + m" and "t + m \<le> stop"
    and fits: "t mod PAGE_SIZE + m \<le> PAGE_SIZE" and "0 \<le> width"
  shows "writes_tile sq width t stop ((oid, page_of sq t, t mod PAGE_SIZE * width, m * width, q) # xs)"
proof -
  have P: "(0::int) < PAGE_SIZE" by (simp add: PAGE_SIZE_def)
  have here: "page_of sq u = page_of sq t \<and> t mod PAGE_SIZE \<le> u mod PAGE_SIZE \<and> u mod PAGE_SIZE + 1 \<le> t mod PAGE_SIZE + m"
    if "t \<le> u" "u < t + m" for u
  proof -
    have u: "u = t div PAGE_SIZE * PAGE_SIZE + (t mod PAGE_SIZE + (u - t))" using div_mult_mod_eq [of t PAGE_SIZE] by linarith
    have r: "0 \<le> t mod PAGE_SIZE + (u - t)" "t mod PAGE_SIZE + (u - t) < PAGE_SIZE" using that fits P by simp_all
    have "u div PAGE_SIZE = t div PAGE_SIZE"
      by (simp add: block_unique [OF u r])
    moreover have "u mod PAGE_SIZE = t mod PAGE_SIZE + (u - t)"
      by (simp add: block_unique [OF u r])
    ultimately have "u div PAGE_SIZE = t div PAGE_SIZE" "u mod PAGE_SIZE = t mod PAGE_SIZE + (u - t)" by blast+
    then show ?thesis using that by (simp add: page_of_def)
  qed
  have cover: "\<exists>(oid, h, offset, n, q) \<in> set ((oid, page_of sq t, t mod PAGE_SIZE * width, m * width, q) # xs). h = page_of sq u
      \<and> offset \<le> u mod PAGE_SIZE * width \<and> (u mod PAGE_SIZE + 1) * width \<le> offset + n" if u: "t \<le> u" "u < stop" for u
  proof (cases "u < t + m")
    case True
    note H = here [OF u(1) True]
    have "t mod PAGE_SIZE * width \<le> u mod PAGE_SIZE * width" "(u mod PAGE_SIZE + 1) * width \<le> (t mod PAGE_SIZE + m) * width"
      using H assms(6) by (simp_all add: mult_right_mono)
    then show ?thesis using H by (simp add: distrib_right)
  next
    case False
    then have "mid \<le> u" using assms(3) by simp
    then show ?thesis using assms(1) u(2) unfolding writes_tile_def by (simp only: set_simps bex_simps; blast)
  qed
  have wider: "\<forall>(oid, h, offset, n, q) \<in> set xs. \<exists>u m. t \<le> u \<and> 0 < m \<and> u + m \<le> stop \<and> u mod PAGE_SIZE + m \<le> PAGE_SIZE
          \<and> h = page_of sq u \<and> offset = u mod PAGE_SIZE * width \<and> n = m * width"
  proof (clarify, goal_cases)
    case (1 oid h offset n q)
    then obtain u k where "mid \<le> u" "0 < k" "u + k \<le> stop" "u mod PAGE_SIZE + k \<le> PAGE_SIZE" "h = page_of sq u"
        "offset = u mod PAGE_SIZE * width" "n = k * width"
      using assms(1) unfolding writes_tile_def by fastforce
    moreover have "t \<le> mid" using assms(2,3) by simp
    ultimately show ?case by (intro exI [of _ u] exI [of _ k]) simp
  qed
  have first: "\<exists>u k. t \<le> u \<and> 0 < k \<and> u + k \<le> stop \<and> u mod PAGE_SIZE + k \<le> PAGE_SIZE
          \<and> page_of sq t = page_of sq u \<and> t mod PAGE_SIZE * width = u mod PAGE_SIZE * width \<and> m * width = k * width"
    using assms(2,4,5) by (intro exI [of _ t] exI [of _ m]) simp
  show ?thesis unfolding writes_tile_def
  proof (intro conjI allI impI)
    show "\<forall>(oid, h, offset, n, q) \<in> set ((oid, page_of sq t, t mod PAGE_SIZE * width, m * width, q) # xs).
        \<exists>u k. t \<le> u \<and> 0 < k \<and> u + k \<le> stop \<and> u mod PAGE_SIZE + k \<le> PAGE_SIZE
          \<and> h = page_of sq u \<and> offset = u mod PAGE_SIZE * width \<and> n = k * width"
      using wider first by (simp only: set_simps ball_simps prod.case simp_thms)
  qed (rule cover)
qed

definition epoch_now :: "write_state \<Rightarrow> int" where
  "epoch_now s = next_epoch (completion (snd s))"

lemma submit_write_epoch:
  assumes inv: "write_inv s" and run: "submit_write oid h offset n q s = (Inr t, s')"
  shows "lease_epoch (ticket_lease t) = epoch_now s" and "epoch_now s' = epoch_now s + 1"
    and "snd (write_step (SubmitWrite oid h offset n q) s) = s'" and "tables (snd s') = tables (snd s)"
proof -
  obtain wr w where s: "s = (wr, w)" by (cases s)
  have sub: "submit_pinned oid [h] (\<lambda>x d. WriteTicket x h d False False) q (wr, w) = (Inr t, s')"
    using run by (simp add: s submit_write_def lift_res_Inr_iff split: if_splits)
  have inv': "write_inv (wr, w)" using inv s by simp
  then have "lease_epoch (ticket_lease t) = epoch_now s \<and> epoch_now s' = epoch_now s + 1 \<and> tables (snd s') = tables (snd s)"
  proof (cases rule: submit_pinned_cases [of wr w oid "[h]" "\<lambda>x d. WriteTicket x h d False False" q])
    case (refused e)
    then show ?thesis using sub by simp
  next
    case (pinned x w')
    then show ?thesis using sub by (cases q) (auto simp: epoch_now_def s)
  qed
  then show "lease_epoch (ticket_lease t) = epoch_now s" "epoch_now s' = epoch_now s + 1" "tables (snd s') = tables (snd s)"
    by simp_all
  show "snd (write_step (SubmitWrite oid h offset n q) s) = s'" using run by (simp add: drop_value_def)
qed

lemma append_spans_writes:
  assumes "write_inv s" and "append_spans env c old_end tokens_in cursor ts s = (Inr ts', s')"
    and "first_block (table_of c s) = 0" and "0 \<le> old_end" and "0 \<le> cursor" and "0 \<le> token_bytes c"
  shows "\<exists>xs new. ts' = ts @ new \<and> s' = run_calls write_step (map page_write xs) s \<and> tables (snd s') = tables (snd s)
     \<and> epoch_now s' = epoch_now s + int (length xs)
     \<and> (\<lambda>t. lease_epoch (ticket_lease t)) ` set new = {epoch_now s..<epoch_now s'}
     \<and> writes_tile (table_of c s) (token_bytes c) (old_end + cursor) (old_end + tokens_in) xs"
  using assms
proof (induction env c old_end tokens_in cursor ts s arbitrary: ts' rule: append_spans.induct)
  case (1 env c old_end tokens_in cursor ts s)
  let ?token = "old_end + cursor"
  let ?amount = "min (tokens_in - cursor) (PAGE_SIZE - ?token mod PAGE_SIZE)"
  note prems = "1.prems"
  show ?case
  proof (cases "cursor < tokens_in")
    case False
    then have "ts' = ts \<and> s' = s" using prems(2) by (subst (asm) append_spans.simps) simp
    then show ?thesis
      using False by (intro exI [of _ "[]"]) (simp add: writes_tile_def)
  next
    case more: True
    obtain h where h: "py_index (?token div PAGE_SIZE - first_block (table_of c s)) (pages (table_of c s)) = Inr h"
      using prems(2) more by (subst (asm) append_spans.simps) (auto simp: Let_def split: sum.splits)
    obtain t s1 where run: "submit_write (fst (env (length ts))) h (?token mod PAGE_SIZE * token_bytes c)
          (?amount * token_bytes c) (snd (env (length ts))) s = (Inr t, s1)"
      using prems(2) more h by (subst (asm) append_spans.simps) (auto simp: Let_def split: sum.splits prod.splits)
    have rest: "append_spans env c old_end tokens_in (cursor + ?amount) (ts @ [t]) s1 = (Inr ts', s')"
      using prems(2) more h run by (subst (asm) append_spans.simps) (simp add: Let_def)
    note E = submit_write_epoch [OF prems(1) run]
    have inv1: "write_inv s1" using advance_inv [OF submit_write_advance [OF prems(1)]] run by (metis snd_conv)
    have tab: "table_of c s1 = table_of c s" using E(4) by (simp add: table_of_def)
    have pos: "0 < ?amount" "?token mod PAGE_SIZE + ?amount \<le> PAGE_SIZE" using more by (auto simp: PAGE_SIZE_def)
    have page: "h = page_of (table_of c s) ?token"
    proof -
      have "0 \<le> ?token div PAGE_SIZE" using prems(4,5) by (simp add: PAGE_SIZE_def)
      then show ?thesis using h prems(3) by (auto simp: py_index_def page_of_def split: if_splits)
    qed
    obtain xs new where IH: "ts' = (ts @ [t]) @ new" "s' = run_calls write_step (map page_write xs) s1" "tables (snd s') = tables (snd s1)"
      "epoch_now s' = epoch_now s1 + int (length xs)" "(\<lambda>t. lease_epoch (ticket_lease t)) ` set new = {epoch_now s1..<epoch_now s'}"
      "writes_tile (table_of c s) (token_bytes c) (old_end + (cursor + ?amount)) (old_end + tokens_in) xs"
      using "1.IH" [OF _ refl refl h run [symmetric] refl inv1 rest _ prems(4) _ prems(6)] more prems(3,5) pos(1) unfolding tab by auto
    let ?x = "(fst (env (length ts)), page_of (table_of c s) ?token, ?token mod PAGE_SIZE * token_bytes c, ?amount * token_bytes c, snd (env (length ts)))"
    have "writes_tile (table_of c s) (token_bytes c) ?token (old_end + tokens_in) (?x # xs)"
      by (rule writes_tile_Cons [OF IH(6) pos(1) _ _ pos(2) prems(6)]) simp_all
    moreover have "run_calls write_step (map page_write (?x # xs)) s = s'"
      using E(3) IH(2) page by (simp add: page_write_def)
    moreover have "{epoch_now s..<epoch_now s'} = insert (epoch_now s) {epoch_now s1..<epoch_now s'}"
      using E(2) IH(4) by auto
    ultimately show ?thesis
      using IH E by (intro exI [of _ "?x # xs"] exI [of _ "t # new"]) simp
  qed
qed

text \<open>
  What a successful append has handed to the backend: after it extended its table, nothing but
  writes, each of which got a lease, which together write the appended tokens.
\<close>

definition written_out :: "private_cache \<Rightarrow> bytes \<Rightarrow> write_state \<Rightarrow> write_state \<Rightarrow> bool" where
  "written_out c k b b' \<longleftrightarrow> (\<exists>b1 xs. fst b1 = fst b \<and> completion (snd b1) = completion (snd b)
     \<and> b' = run_calls write_step (map page_write xs) b1 \<and> epoch_now b' = epoch_now b + int (length xs)
     \<and> writes_tile (table_of c b') (token_bytes c) (cache_offset c) (cache_offset c + int (length k) div token_bytes c) xs)"

lemma written_out_cong:
  "same_object c c' \<Longrightarrow> key_store c' = key_store c \<Longrightarrow> written_out c' k b b' = written_out c k b b'"
  by (simp add: written_out_def same_object_def table_of_def cache_offset_def)

definition awaits :: "private_cache \<Rightarrow> write_state \<Rightarrow> write_state \<Rightarrow> bool" where
  "awaits c b b' \<longleftrightarrow> (\<lambda>t. lease_epoch (ticket_lease t)) ` set (awaiting c) = {epoch_now b..<epoch_now b'}"

lemma append_kv_writes:
  assumes inv: "write_inv s" and ok: "cache_ok s c" and run: "append_kv env native k v (c, s) = (r, (c', s'))"
    and staged: "in_staging c' = Some (x, y)"
  shows "(in_staging c = Some (x, y) \<and> c' = c)
    \<or> ((x, y) = (k, v) \<and> key_store c' = key_store c \<and> written_out c k s s' \<and> awaits c' s s')"
proof (cases rule: append_kv_cases [of env native k v c s])
  case (guarded e)
  then show ?thesis using run staged by simp
next
  case open_
  let ?n = "int (length k) div token_bytes c"
  have ready: "\<not> cache_closed c" "\<not> cache_failed c" "awaiting c = []"
    using open_(1) by (auto simp: cache_ready_def split: if_splits)
  have i: "cache_table c < length (tables (snd s))" and live: "live_table (table_of c s)" and sound: "cache_sound c"
    using ok ready by (simp_all add: cache_ok_def)
  have empty: "in_staging c = None" using sound ready by (simp add: cache_sound_def)
  note offset = ready_table(2) [OF ok ready]
  show ?thesis
    using inv i live [unfolded table_of_def] open_(4) [unfolded table_of_def]
  proof (cases rule: table_append [where n = ?n and after = "ledger_now s"])
    case (refused e)
    then show ?thesis using run staged empty by (auto simp: open_(5) on_state_def)
  next
    case (appended z s1)
    obtain q s2 where spans: "append_spans env c (kv_end (table_of c s)) ?n 0 [] s1 = (q, s2)"
      by (cases "append_spans env c (kv_end (table_of c s)) ?n 0 [] s1")
    have call: "append_kv env native k v (c, s) = (case q of
          Inl (e, ts) \<Rightarrow> (Inl e, (c\<lparr>cache_failed := True, awaiting := ts\<rparr>, s2))
        | Inr ts \<Rightarrow> (Inr ts, (c\<lparr>awaiting := ts, in_staging := Some (k, v)\<rparr>, s2)))"
      unfolding open_(5) using appended(1) spans by (cases q) (auto simp: on_state_def)
    then obtain ts where q: "q = Inr ts" using run staged empty by (cases q) auto
    have res: "c' = c\<lparr>awaiting := ts, in_staging := Some (k, v)\<rparr>" "s' = s2" using call run q by simp_all
    have writer: "fst s1 = fst s" "completion (snd s1) = completion (snd s)"
      using appended(1) by (cases s; auto simp: at_table_def split: prod.splits)+
    have inv1: "write_inv s1" by (rule advance_inv [OF appended(2)])
    have i1: "cache_table c < length (tables (snd s1))" using appended(2) i by (cases s; cases s1) (simp add: advance_def)
    have first: "first_block (table_of c s1) = 0"
    proof -
      have "world_inv (snd s1)" using write_invD(1) inv1 by (metis prod.collapse)
      then have "seq_inv (table_of c s1)" using i1 by (simp add: world_inv_def table_of_def)
      then show ?thesis using appended(4) by (simp add: seq_inv_def live_table_def table_of_def)
    qed
    have w: "0 < token_bytes c" using sound by (simp add: cache_sound_def)
    then have "0 \<le> kv_end (table_of c s)" unfolding offset by (simp add: cache_offset_def pos_imp_zdiv_nonneg_iff)
    from append_spans_writes [OF inv1 spans [unfolded q] first this order_refl] w
    obtain xs where xs: "s2 = run_calls write_step (map page_write xs) s1" "tables (snd s2) = tables (snd s1)"
        "epoch_now s2 = epoch_now s1 + int (length xs)" "(\<lambda>t. lease_epoch (ticket_lease t)) ` set ts = {epoch_now s1..<epoch_now s2}"
        "writes_tile (table_of c s1) (token_bytes c) (kv_end (table_of c s)) (kv_end (table_of c s) + ?n) xs"
      by auto
    have e: "epoch_now s1 = epoch_now s" using writer(2) by (simp add: epoch_now_def)
    have "written_out c k s s2"
      unfolding written_out_def offset [symmetric]
      using writer xs e by (intro exI [of _ s1] exI [of _ xs]) (simp add: table_of_def)
    then show ?thesis using xs(4) e staged by (simp add: res awaits_def)
  qed
qed

text \<open>Staged bytes come from an append of this very cache, and nothing changes what it awaits.\<close>

lemma cache_step_staging:
  assumes inv: "cache_inv s" and i: "i < length (caches s)"
    and staged: "in_staging (caches (snd (cache_step call s)) ! i) = Some (k, v)"
  shows "(in_staging (caches s ! i) = Some (k, v) \<and> awaiting (caches (snd (cache_step call s)) ! i) = awaiting (caches s ! i)
        \<and> key_store (caches (snd (cache_step call s)) ! i) = key_store (caches s ! i))
    \<or> (\<exists>env native. call = AppendKV i env native k v \<and> key_store (caches (snd (cache_step call s)) ! i) = key_store (caches s ! i)
        \<and> written_out (caches s ! i) k (backing s) (backing (snd (cache_step call s)))
        \<and> awaits (caches (snd (cache_step call s)) ! i) (backing s) (backing (snd (cache_step call s))))"
proof -
  note D = cache_invD [OF inv]
  let ?s' = "snd (cache_step call s)"
  have same: ?thesis if "caches ?s' ! i = caches s ! i" using that staged by simp
  show ?thesis
  proof (cases call)
    case (AppendKV j env native x y)
    show ?thesis
    proof (cases "j = i")
      case True
      obtain r c' b where run: "append_kv env native x y (caches s ! i, backing s) = (r, (c', b))"
        by (cases "append_kv env native x y (caches s ! i, backing s)") auto
      have new: "caches ?s' ! i = c'" "backing ?s' = b" using i True by (simp_all add: AppendKV at_cache_def run)
      have ok: "cache_ok (backing s) (caches s ! i)" using D(3) i by simp
      have "in_staging c' = Some (k, v)" using staged new by simp
      from append_kv_writes [OF D(1) ok run this] show ?thesis
        unfolding new using AppendKV True by auto
    qed (intro same, simp add: AppendKV at_cache_others)
  next
    case (PollCache j events)
    show ?thesis
    proof (cases "j = i")
      case True
      obtain r c' b where run: "poll_cache events (caches s ! i, backing s) = (r, (c', b))"
        by (cases "poll_cache events (caches s ! i, backing s)") auto
      have new: "caches ?s' ! i = c'" using i True by (simp add: PollCache at_cache_def run)
      have "in_staging c' = None \<or> in_staging c' = in_staging (caches s ! i) \<and> awaiting c' = awaiting (caches s ! i) \<and> key_store c' = key_store (caches s ! i)"
        using run by (auto simp: poll_cache_def on_state_def Let_def bind_res_def split: if_splits option.splits sum.splits prod.splits)
      then show ?thesis using staged new by auto
    qed (intro same, simp add: PollCache at_cache_others)
  next
    case (CloseCache j)
    show ?thesis
    proof (cases "j = i")
      case True
      obtain r c' b where run: "close_cache (caches s ! i, backing s) = (r, (c', b))"
        by (cases "close_cache (caches s ! i, backing s)") auto
      have new: "caches ?s' ! i = c'" using i True by (simp add: CloseCache at_cache_def run)
      have "in_staging c' = in_staging (caches s ! i) \<and> awaiting c' = awaiting (caches s ! i) \<and> key_store c' = key_store (caches s ! i)"
        using run by (auto simp: close_cache_def on_state_def Let_def bind_res_def split: if_splits sum.splits prod.splits)
      then show ?thesis using staged new by auto
    qed (intro same, simp add: CloseCache at_cache_others)
  next
    case (Attend j oid rows heads kind window)
    show ?thesis
    proof (cases "j < length (caches s)")
      case True
      obtain r c b where run: "attention oid rows heads kind window (caches s ! j, backing s) = (r, (c, b))"
        by (cases "attention oid rows heads kind window (caches s ! j, backing s)") auto
      have "c = caches s ! j"
        using run by (auto simp: attention_def on_state_def Let_def bind_res_def split: if_splits sum.splits lift_res_split_asm)
      then show ?thesis by (intro same) (cases r; simp add: Attend True run)
    qed (intro same, simp add: Attend)
  next
    case (FreezeCache j)
    show ?thesis
    proof (cases "j < length (caches s)")
      case True
      have c: "cache_ok (backing s) (caches s ! j)" "profile_ok (caches s ! j)" using D(3,4) True by simp_all
      show ?thesis
        using D(1) c by (cases rule: freeze_exact_ok) (intro same; use True in \<open>simp add: FreezeCache\<close>)+
    qed (intro same, simp add: FreezeCache)
  qed (intro same; use i in \<open>simp add: at_snapshot_def at_reader_def nth_append split: prod.split sum.split\<close>)+
qed

lemma new_cache_staging:
  assumes "i < length (caches (snd (cache_step call s)))" and "\<not> i < length (caches s)"
  shows "in_staging (caches (snd (cache_step call s)) ! i) = None"
proof -
  have new: "in_staging c = None" if "new_cache heads head_size dtype b = (Inr c, b')" for heads head_size dtype b c b'
    using that by (auto simp: new_cache_def Let_def lift_res_Inr_iff split: if_splits)
  have child: "in_staging c = None" if "branch_child f ks b = (Inr c, b')" for f ks b c b'
    using that by (auto simp: branch_child_def Let_def bind_res_Inr_iff dest!: new)
  have branched: "in_staging c = None" if "branch n f b = (Inr c, b')" for n f b c b'
    using that by (auto simp: branch_def bind_res_def Let_def split: if_splits sum.splits prod.splits dest!: child)
  show ?thesis
    using assms
    by (cases call) (auto simp: at_cache_def at_snapshot_def at_reader_def nth_append less_Suc_eq split: if_splits prod.splits sum.splits
        dest!: new branched)
qed

definition append_traced :: "cache_call list \<Rightarrow> cache_world \<Rightarrow> nat \<Rightarrow> bytes \<Rightarrow> bytes \<Rightarrow> private_cache \<Rightarrow> bool" where
  "append_traced cs s0 i k v c \<longleftrightarrow> (\<exists>before env native after. cs = before @ AppendKV i env native k v # after
     \<and> written_out c k (backing (run_calls cache_step before s0)) (backing (run_calls cache_step (before @ [AppendKV i env native k v]) s0))
     \<and> awaits c (backing (run_calls cache_step before s0)) (backing (run_calls cache_step (before @ [AppendKV i env native k v]) s0)))"

lemma append_traced_more: "append_traced cs s0 i k v c \<Longrightarrow> append_traced (cs @ [call]) s0 i k v c"
  unfolding append_traced_def by (metis append.assoc append_Cons)

lemma append_traced_cong:
  "same_object c c' \<Longrightarrow> key_store c' = key_store c \<Longrightarrow> awaiting c' = awaiting c \<Longrightarrow> append_traced cs s0 i k v c' = append_traced cs s0 i k v c"
  by (simp add: append_traced_def written_out_cong awaits_def)

lemma staging_traced:
  assumes start: "cache_start s0" and "i < length (caches (run_calls cache_step cs s0))"
    and "in_staging (caches (run_calls cache_step cs s0) ! i) = Some (k, v)"
  shows "append_traced cs s0 i k v (caches (run_calls cache_step cs s0) ! i)"
  using assms(2,3)
proof (induction cs rule: rev_induct)
  case Nil
  then show ?case using start by (simp add: cache_start_def)
next
  case (snoc call cs)
  let ?s = "run_calls cache_step cs s0"
  let ?s' = "snd (cache_step call ?s)"
  have run: "run_calls cache_step (cs @ [call]) s0 = ?s'" by (simp add: run_calls_append)
  have inv: "cache_inv ?s" by (rule paged_caches.inv_run [OF cache_start_inv [OF start]])
  have i: "i < length (caches ?s)"
    using new_cache_staging [of i call ?s] snoc.prems run by fastforce
  have same: "same_object (caches ?s ! i) (caches ?s' ! i)"
    using cache_step_progress [OF inv i, of call] by (simp add: cache_progress_def)
  from cache_step_staging [OF inv i, of call k v] snoc.prems(2) run
  consider (kept) "in_staging (caches ?s ! i) = Some (k, v)" "awaiting (caches ?s' ! i) = awaiting (caches ?s ! i)"
      "key_store (caches ?s' ! i) = key_store (caches ?s ! i)"
    | (appended) env native where "call = AppendKV i env native k v" "key_store (caches ?s' ! i) = key_store (caches ?s ! i)"
      "written_out (caches ?s ! i) k (backing ?s) (backing ?s')" "awaits (caches ?s' ! i) (backing ?s) (backing ?s')"
    by auto
  then show ?case
  proof cases
    case kept
    have "append_traced cs s0 i k v (caches ?s ! i)" by (rule snoc.IH [OF i kept(1)])
    then show ?thesis
      unfolding run append_traced_cong [OF same kept(3,2)] by (rule append_traced_more)
  next
    case appended
    have "written_out (caches ?s' ! i) k (backing ?s) (backing ?s')"
      using appended(3) written_out_cong [OF same appended(2)] by blast
    then show ?thesis
      unfolding run append_traced_def using appended(1,4) run by (intro exI [of _ cs] exI [of _ env] exI [of _ native] exI [of _ "[]"]) simp
  qed
qed

text \<open>
  C3: accepted bytes
\<close>

theorem accepted_bytes_are_proven:
  assumes "cache_start s0" and "s = run_calls cache_step cs s0" and "i < length (caches s)"
    and "s' = snd (cache_step call s)" and "c = caches s ! i" and "c' = caches s' ! i"
  shows "(key_store c' = key_store c \<and> val_store c' = val_store c)
     \<or> (\<exists>before env native k v after. cs = before @ AppendKV i env native k v # after
          \<and> key_store c' = key_store c @ k \<and> val_store c' = val_store c @ v
          \<and> (let b0 = backing (run_calls cache_step before s0);
                 b1 = backing (run_calls cache_step (before @ [AppendKV i env native k v]) s0)
             in written_out c k b0 b1
              \<and> (\<forall>e. epoch_now b0 \<le> e \<longrightarrow> e < epoch_now b1 \<longrightarrow> map_of (outcomes (fst (backing s'))) e = Some True)))"
proof -
  have inv: "cache_inv s" unfolding assms(2) by (rule paged_caches.inv_run [OF cache_start_inv [OF assms(1)]])
  have "(key_store c', val_store c') = (key_store c, val_store c) \<or> published c c' (fst (backing s'))"
    using cache_step_progress [OF inv assms(3), of call] assms(4-6) by (simp add: cache_progress_def)
  then show ?thesis
  proof
    assume "published c c' (fst (backing s'))"
    then obtain k v where kv: "in_staging c = Some (k, v)" "key_store c' = key_store c @ k" "val_store c' = val_store c @ v"
        "\<forall>t \<in> set (awaiting c). map_of (outcomes (fst (backing s'))) (lease_epoch (ticket_lease t)) = Some True"
      by (auto simp: published_def)
    have traced: "append_traced cs s0 i k v c"
      using staging_traced [OF assms(1), of i cs k v] assms(2,3,5) kv(1) by simp
    have "map_of (outcomes (fst (backing s'))) e = Some True" if "awaits c b0 b1" "epoch_now b0 \<le> e" "e < epoch_now b1" for b0 b1 e
    proof -
      have "e \<in> (\<lambda>t. lease_epoch (ticket_lease t)) ` set (awaiting c)" using that by (simp add: awaits_def)
      then show ?thesis using kv(4) by auto
    qed
    then show ?thesis using traced kv(2,3) unfolding append_traced_def Let_def by blast
  qed simp
qed

text \<open>
  C8: Whenever a cache is ready, its page table ends exactly at the accepted offset, starts at
  zero, its key and value bytes are whole tokens, and the page the block arithmetic finds for
  each accepted token is live in the pool.
\<close>

theorem accepted_tokens_have_pages:
  assumes "reachable cache_start cache_step s" and "c \<in> set (caches s)"
    and "cache_ready c (fst (backing s)) = Inr ()" and "sq = table_of c (backing s)"
  shows "kv_end sq = cache_offset c \<and> retained_start sq = 0 \<and> \<not> closed sq
     \<and> int (length (key_store c)) = cache_offset c * token_bytes c \<and> length (val_store c) = length (key_store c)
     \<and> (\<forall>t. 0 \<le> t \<longrightarrow> t < cache_offset c \<longrightarrow> active (page_of sq t) (arena (snd (backing s))))"
proof -
  have inv: "cache_inv s" by (rule paged_caches.inv_reachable [OF assms(1)])
  have ok: "cache_ok (backing s) c" by (rule cache_invD(3) [OF inv assms(2)])
  have open_: "\<not> cache_closed c" "\<not> cache_failed c" "awaiting c = []"
    using assms(3) by (auto simp: cache_ready_def split: if_splits)
  note T = ready_table [OF ok open_]
  have live: "live_table sq" using ok open_ assms(4) by (simp add: cache_ok_def)
  have bytes: "int (length (key_store c)) = cache_offset c * token_bytes c" "length (val_store c) = length (key_store c)"
    using T ok by (simp_all add: cache_ok_def cache_sound_def)
  obtain wr w where b: "backing s = (wr, w)" by (cases "backing s")
  have w: "world_inv w" using write_invD(1) [of wr w] cache_invD(1) [OF inv] b by simp
  have "sq \<in> set (tables w)" using ok b assms(4) by (simp add: cache_ok_def table_of_def)
  then have "active (page_of sq t) (arena w)" if "0 \<le> t" "t < cache_offset c" for t
    using retained_page(3) [OF w, of sq t] live that T(2) assms(4) by (simp add: live_table_def)
  then show ?thesis using live T(2) bytes assms(4) b by (simp add: live_table_def)
qed

text \<open>A step touches the table of an open prefix only to close it.\<close>

lemma cache_step_advance:
  assumes inv: "cache_inv s"
  shows "\<exists>T. advance T (backing s) (backing (snd (cache_step call s)))
     \<and> (\<forall>j < length (snapshots s). call \<noteq> CloseFrozen j \<longrightarrow> frozen_table (snapshots s ! j) \<notin> T)"
proof -
  note D = cache_invD [OF inv]
  let ?s' = "snd (cache_step call s)"
  have quiet: ?thesis if "advance {} (backing s) (backing ?s')" using that by blast
  have refl: "advance {} (backing s) (backing s)" by (rule advance_refl [OF D(1)])
  have own: "frozen_table (snapshots s ! j) \<notin> set (footprint (caches s ! i))" if "i < length (caches s)" "j < length (snapshots s)" for i j
    by (rule D(8) [OF that(1) nth_mem [OF that(2)]])
  have at: "\<exists>T. advance T (backing s) (backing (snd (at_cache i f s))) \<and> (\<forall>j < length (snapshots s). frozen_table (snapshots s ! j) \<notin> T)"
    if "\<And>c b. write_inv b \<Longrightarrow> cache_ok b c \<Longrightarrow> cache_call_ok c b (f (c, b))" for i and f :: "cache_state \<Rightarrow> ('a, cache_state) res"
  proof (cases "i < length (caches s)")
    case True
    have "advance (set (footprint (caches s ! i))) (backing s) (backing (snd (at_cache i f s)))"
      using at_cache_call [OF inv True that] by (auto simp: cache_call_ok_def)
    then show ?thesis using own [OF True] by blast
  next
    case False
    then show ?thesis using refl by (auto simp: at_cache_def)
  qed
  have rd: "advance {} (backing s) (backing (snd (at_reader k f s)))" if "f \<in> {mark_submitted, abort_use, complete_after_proof b}" for k f b
  proof (cases "k < length (readers s)")
    case True
    have "advance {} (backing s) (snd (snd (f (readers s ! k, backing s))))"
      using reader_call_ok [OF D(1,6) that] True by simp
    then show ?thesis using True by (simp add: at_reader_def case_prod_beta)
  qed (simp add: at_reader_def refl)
  show ?thesis
  proof (cases call)
    case (NewCache heads head_size dtype)
    obtain r b where run: "new_cache heads head_size dtype (backing s) = (r, b)" by (cases "new_cache heads head_size dtype (backing s)")
    have "advance {} (backing s) b"
    proof (cases r)
      case (Inl e)
      then have "b = backing s" using run by (auto simp: new_cache_def Let_def split: if_splits lift_res_split_asm)
      then show ?thesis using refl by simp
    next
      case (Inr c)
      show ?thesis by (rule new_cache_ok(1) [OF D(1) run [unfolded Inr]])
    qed
    then show ?thesis by (intro quiet) (cases r; simp add: NewCache run)
  next
    case (AppendKV i env native new_keys new_vals)
    show ?thesis using at [OF append_kv_ok] by (simp add: AppendKV)
  next
    case (PollCache i events)
    show ?thesis using at [OF poll_cache_ok] by (simp add: PollCache)
  next
    case (CloseCache i)
    show ?thesis using at [OF close_cache_ok] by (simp add: CloseCache)
  next
    case (Attend i oid rows heads kind window)
    show ?thesis
    proof (cases "i < length (caches s)")
      case True
      obtain r c b where run: "attention oid rows heads kind window (caches s ! i, backing s) = (r, (c, b))"
        by (cases "attention oid rows heads kind window (caches s ! i, backing s)") auto
      have "cache_call_ok (caches s ! i) (backing s) (attention oid rows heads kind window (caches s ! i, backing s))"
        by (rule attention_ok [OF D(1,3)]) (simp add: True)
      then have "advance (set (footprint (caches s ! i))) (backing s) b" by (simp add: run cache_call_ok_def)
      moreover have "backing ?s' = b" using True by (cases r) (simp_all add: Attend run)
      ultimately show ?thesis using own [OF True] by blast
    qed (intro quiet, simp add: Attend refl)
  next
    case (FreezeCache i)
    show ?thesis
    proof (cases "i < length (caches s)")
      case True
      have c: "cache_ok (backing s) (caches s ! i)" "profile_ok (caches s ! i)" using D(3,4) True by simp_all
      show ?thesis
        using D(1) c by (cases rule: freeze_exact_ok) (intro quiet; simp add: FreezeCache True refl)+
    qed (intro quiet, simp add: FreezeCache refl)
  next
    case (BranchFrozen j n)
    show ?thesis
    proof (cases "j < length (snapshots s)")
      case True
      obtain r b where run: "branch n (snapshots s ! j) (backing s) = (r, b)" by (cases "branch n (snapshots s ! j) (backing s)")
      have "advance {} (backing s) b"
        using branch_ok(1) [OF D(1), of "snapshots s ! j" n] D(5) True by (simp add: run)
      then show ?thesis
        by (intro quiet) (cases r; simp add: BranchFrozen True run)
    qed (intro quiet, simp add: BranchFrozen refl)
  next
    case (CloseFrozen k)
    show ?thesis
    proof (cases "k < length (snapshots s)")
      case True
      have f: "frozen_ok (backing s) (snapshots s ! k)" using D(5) True by simp
      show ?thesis
        using D(1) f
      proof (cases rule: close_frozen_ok)
        case (kept x)
        then show ?thesis by (intro quiet) (simp add: CloseFrozen at_snapshot_def True refl)
      next
        case (closed_now b)
        have "distinct (map frozen_table (snapshots s))" using D(2) by (simp add: owned_def)
        then have "frozen_table (snapshots s ! j) \<noteq> frozen_table (snapshots s ! k)" if "j < length (snapshots s)" "j \<noteq> k" for j
          using that True by (simp add: distinct_conv_nth)
        then show ?thesis
          using closed_now(1,2) True by (intro exI [of _ "{frozen_table (snapshots s ! k)}"]) (auto simp: CloseFrozen at_snapshot_def)
      qed
    qed (intro quiet, simp add: CloseFrozen at_snapshot_def refl)
  next
    case (OtherWrite c)
    show ?thesis
    proof (cases "touched c \<inter> set (owned s) = {}")
      case True
      have "advance (touched c) (backing s) (backing ?s')"
        using advance_write_step [OF D(1), of c] True by (simp add: OtherWrite case_prod_beta)
      moreover have "frozen_table (snapshots s ! j) \<notin> touched c" if "j < length (snapshots s)" for j
        using True nth_mem [OF that] by (auto simp: owned_def)
      ultimately show ?thesis by blast
    qed (intro quiet, simp add: OtherWrite refl)
  next
    case (CompleteReader k b)
    show ?thesis using rd [of "complete_after_proof b" b k] by (intro quiet) (simp add: CompleteReader)
  qed (intro quiet, simp add: rd)+
qed

lemma cache_step_snapshots:
  assumes "j < length (snapshots s)" and "call \<noteq> CloseFrozen j"
  shows "j < length (snapshots (snd (cache_step call s)))" and "snapshots (snd (cache_step call s)) ! j = snapshots s ! j"
  using assms
  by (cases call; simp add: at_cache_def at_snapshot_def at_reader_def nth_append split: prod.split sum.split)+

text \<open>
  C4: Until it is closed, a frozen prefix keeps its exported bytes
\<close>

theorem frozen_prefix_survives:
  assumes "reachable cache_start cache_step s" and "j < length (snapshots s)" and "\<not> frozen_closed (snapshots s ! j)"
    and "CloseFrozen j \<notin> set cs" and "s' = run_calls cache_step cs s" and "f = snapshots s ! j"
  shows "snapshots s' ! j = f
     \<and> tables (snd (backing s')) ! frozen_table f = tables (snd (backing s)) ! frozen_table f
     \<and> (\<forall>h \<in> set (pages (tables (snd (backing s)) ! frozen_table f)). active h (arena (snd (backing s'))))
     \<and> (\<forall>n c b. branch n f (backing s') = (Inr c, b) \<longrightarrow> key_store c = export_keys (frozen_export f) \<and> val_store c = export_vals (frozen_export f)
          \<and> pages (table_of c b) = pages (tables (snd (backing s)) ! frozen_table f) \<and> int (length (staging_reservation c)) = n)"
proof -
  have inv: "cache_inv s" by (rule paged_caches.inv_reachable [OF assms(1)])
  have inv': "cache_inv s'" unfolding assms(5) by (rule paged_caches.inv_run [OF inv])
  let ?sq = "tables (snd (backing s)) ! frozen_table f"
  let ?kept = "\<lambda>s'. j < length (snapshots s') \<and> snapshots s' ! j = f \<and> tables (snd (backing s')) ! frozen_table f = ?sq"
  have "?kept (run_calls cache_step cs s)"
  proof (rule paged_caches.run_keeps [OF inv])
    show "?kept s" using assms(2,6) by simp
    fix t call assume step: "call \<in> set cs" "cache_inv t" "?kept t"
    have other: "call \<noteq> CloseFrozen j" using step(1) assms(4) by auto
    obtain T where T: "advance T (backing t) (backing (snd (cache_step call t)))" "frozen_table (snapshots t ! j) \<notin> T"
      using cache_step_advance [OF step(2), of call] other step(3) by blast
    have "frozen_ok (backing t) (snapshots t ! j)" using cache_invD(5) [OF step(2)] step(3) nth_mem by metis
    from frozen_ok_advance(2) [OF this T] show "?kept (snd (cache_step call t))"
      using cache_step_snapshots [OF _ other, of t] step(3) by simp
  qed
  then have kept: "j < length (snapshots s')" "snapshots s' ! j = f" "tables (snd (backing s')) ! frozen_table f = ?sq"
    by (simp_all add: assms(5))
  have ok: "frozen_ok (backing s') f" using cache_invD(5) [OF inv'] nth_mem [OF kept(1)] kept(2) by simp
  obtain wr w where b: "backing s' = (wr, w)" by (cases "backing s'")
  have w: "world_inv w" using write_invD(1) [of wr w] cache_invD(1) [OF inv'] b by simp
  have "?sq \<in> set (tables w)" using ok kept(3) b by (auto simp: frozen_ok_def dest: nth_mem)
  then have "active h (arena w)" if "h \<in> set (pages ?sq)" for h
    using table_page_held [of ?sq "tables w" h] that lease_exact_active_iff [OF world_leases [OF w], of h] by (simp add: held_def)
  moreover note branch_ok(2) [OF cache_invD(1) [OF inv'] ok]
  ultimately show ?thesis using kept b by auto
qed

text \<open>Finishing a use takes exactly its own pins out of the ledger.\<close>

definition pins_at :: "ledger \<Rightarrow> int \<Rightarrow> page_handle multiset" where
  "pins_at l e = (case map_of (uses l) e of None \<Rightarrow> {#} | Some u \<Rightarrow> pins u)"

lemma pinned_sum:
  assumes "ledger_inv l" and "finite A" and "dom (map_of (uses l)) \<subseteq> A"
  shows "pinned l = (\<Sum>e \<in> A. pins_at l e)"
proof -
  have d: "distinct (map fst (uses l))" using assms(1) by (simp add: ledger_inv_def)
  have "pins (snd x) = pins_at l (fst x)" if "x \<in> set (uses l)" for x
    using map_of_is_SomeI [OF d, of "fst x" "snd x"] that by (simp add: pins_at_def)
  then have "pinned l = sum_list (map (pins_at l) (map fst (uses l)))"
    by (simp add: pinned_def cong: map_cong)
  also have "\<dots> = (\<Sum>e \<in> set (map fst (uses l)). pins_at l e)"
    using d by (simp only: sum_list_distinct_conv_sum_set)
  also have "\<dots> = (\<Sum>e \<in> A. pins_at l e)"
  proof (rule sum.mono_neutral_left [OF assms(2)])
    show "set (map fst (uses l)) \<subseteq> A" using assms(3) by (simp add: dom_map_of_conv_image_fst)
    have "map_of (uses l) e = None" if "e \<notin> set (map fst (uses l))" for e
      using that by (simp add: map_of_eq_None_iff)
    then show "\<forall>e \<in> A - set (map fst (uses l)). pins_at l e = {#}" by (simp add: pins_at_def)
  qed
  finally show ?thesis .
qed

lemma pinned_finished:
  assumes inv: "ledger_inv l" "ledger_inv l'" and fin: "finished u l l'"
    and u: "map_of (uses l) (lease_epoch (use_lease u)) = Some u" "use_state u \<noteq> Completed"
  shows "pinned l = pinned l' + mset (use_handles u)"
proof -
  let ?A = "dom (map_of (uses l))" and ?e = "lease_epoch (use_lease u)"
  have fin': "finite ?A" by (simp add: finite_dom_map_of)
  have "map_of (uses l) d \<noteq> None" if "map_of (uses l') d \<noteq> None" for d
  proof (cases "d = ?e")
    case False
    have "map_of (uses l') d = (if d \<le> ledger_epoch l' then None else map_of (uses l) d)"
      using fin False by (simp add: finished_def)
    then show ?thesis using that by (simp split: if_splits)
  qed (use u(1) in simp)
  then have sub: "dom (map_of (uses l')) \<subseteq> ?A" by blast
  have e: "?e \<in> ?A" using u(1) by auto
  have "pins_at l' d = pins_at l d" if "d \<in> ?A - {?e}" for d
    using fin that by (auto simp: finished_def pins_at_def pins_def split: option.split)
  moreover have "pins_at l' ?e = {#}" "pins_at l ?e = mset (use_handles u)"
    using fin u by (auto simp: finished_def pins_at_def pins_def)
  ultimately show ?thesis
    using sum.remove [OF fin' e, of "pins_at l"] sum.remove [OF fin' e, of "pins_at l'"]
    by (simp add: pinned_sum [OF inv(1) fin'] pinned_sum [OF inv(2) fin' sub] add.commute)
qed

text \<open>Preparing a lease and aborting it before submission leaves the account of leases as it was.\<close>

lemma prepare_refused:
  assumes inv: "write_inv s" and "with_ledger (prepare oid hs) s = (Inl e, s')"
  shows "s' = s"
proof -
  obtain wr w where s: "s = (wr, w)" by (cases s)
  have "ledger_ok (table_leases (tables w)) (completion w, arena w)" using write_invD(1) inv s by (simp add: world_inv_def)
  from prepare_contract [OF this, of oid hs] show ?thesis
    using assms(2) s by (cases rule: atomic_cases) (auto simp: with_ledger_def split: prod.splits)
qed

lemma prepare_abort_keeps:
  assumes inv: "write_inv s" and "with_ledger (prepare oid hs) s = (Inr x, s1)"
  obtains s2 where "with_ledger (abort_before_submit x) s1 = (Inr (), s2)" "fst s2 = fst s"
    "tables (snd s2) = tables (snd s)" "held (snd s2) = held (snd s)"
proof -
  obtain wr w where s: "s = (wr, w)" by (cases s)
  let ?M = "table_leases (tables w)"
  have ok: "ledger_ok ?M (completion w, arena w)" using write_invD(1) inv s by (simp add: world_inv_def)
  obtain l1 p1 where run1: "prepare oid hs (completion w, arena w) = (Inr x, (l1, p1))"
    and s1: "s1 = (wr, w\<lparr>arena := p1, completion := l1\<rparr>)"
    using assms(2) s by (auto simp: with_ledger_def split: prod.splits)
  let ?u = "\<lparr>use_lease = x, use_handles = hs, use_state = Prepared, use_cancelled = False\<rparr>"
  have prep: "ledger_ok ?M (l1, p1)" "x = CompletionLease (next_epoch (completion w)) oid"
      "map_of (uses l1) = (map_of (uses (completion w)))(next_epoch (completion w) \<mapsto> ?u)"
    using atomic_okD [OF prepare_contract [OF ok] run1] by simp_all
  have use: "lookup_use x l1 = Inr ?u" using prep(2,3) by (simp add: lookup_use_Inr)
  obtain l2 p2 where fin: "finish ?u (l1, p1) = (Inr (), (l2, p2))" "ledger_ok ?M (l2, p2)" "finished ?u l1 l2"
    by (rule finish_atomic [OF prep(1) use]) simp
  let ?s2 = "(wr, w\<lparr>arena := p2, completion := l2\<rparr>)"
  have run2: "with_ledger (abort_before_submit x) s1 = (Inr (), ?s2)"
    using use fin(1) by (simp add: s1 with_ledger_def abort_before_submit_def)
  have new: "map_of (uses (completion w)) (next_epoch (completion w)) = None"
    using ledger_invD(5) [OF ledger_okD(1) [OF ok], of "next_epoch (completion w)"]
    by (cases "map_of (uses (completion w)) (next_epoch (completion w))") auto
  have "pinned l1 = pinned (completion w) + mset hs"
  proof -
    let ?A = "dom (map_of (uses l1))" and ?e = "next_epoch (completion w)"
    have A: "finite ?A" "?e \<in> ?A" "dom (map_of (uses (completion w))) \<subseteq> ?A"
      using prep(3) by (auto simp: finite_dom_map_of)
    have "pins_at l1 d = pins_at (completion w) d" if "d \<in> ?A - {?e}" for d
      using that by (auto simp: pins_at_def prep(3))
    moreover have "pins_at (completion w) ?e = {#}" "pins_at l1 ?e = mset hs"
      using new prep(3) by (simp_all add: pins_at_def pins_def)
    ultimately show ?thesis
      using sum.remove [OF A(1,2), of "pins_at l1"] sum.remove [OF A(1,2), of "pins_at (completion w)"]
      by (simp add: pinned_sum [OF ledger_okD(1) [OF prep(1)] A(1)] pinned_sum [OF ledger_okD(1) [OF ok] A(1,3)] add.commute)
  qed
  moreover have "pinned l1 = pinned l2 + mset hs"
    using pinned_finished [OF ledger_okD(1) [OF prep(1)] ledger_okD(1) [OF fin(2)] fin(3)] use by (simp add: lookup_use_Inr)
  ultimately have "pinned l2 = pinned (completion w)" by simp
  then show ?thesis using that [OF run2] by (simp add: s held_def)
qed

text \<open>
  C30: An attention call that raises, at whichever check, leaves the cache, the owner, the page
  tables and the account of all leases as they were: a pin taken before the plan was refused is
  given back.
\<close>

theorem rejected_attention_keeps_pins:
  assumes "reachable cache_start cache_step s" and "i < length (caches s)"
    and "attention oid rows heads kind window (caches s ! i, backing s) = (Inl e, (c', b))"
  shows "c' = caches s ! i \<and> fst b = fst (backing s) \<and> tables (snd b) = tables (snd (backing s))
     \<and> held (snd b) = held (snd (backing s))"
proof -
  let ?c = "caches s ! i" and ?s = "backing s"
  have inv: "write_inv ?s" by (rule cache_invD(1) [OF paged_caches.inv_reachable [OF assms(1)]])
  obtain r s1 where prep: "with_ledger (prepare oid (pages (table_of ?c ?s))) ?s = (r, s1)"
    by (cases "with_ledger (prepare oid (pages (table_of ?c ?s))) ?s")
  consider (early) "(c', b) = (?c, ?s)" | (failed) e' where "r = Inl e'" "(c', b) = (?c, s1)"
    | (aborted) x where "r = Inr x" "c' = ?c" "b = snd (with_ledger (abort_before_submit x) s1)"
    using assms(3) by (auto simp: attention_def on_state_def prep Let_def bind_res_def split: if_splits sum.splits lift_res_split_asm)
  then show ?thesis
  proof cases
    case (failed e')
    have "s1 = ?s" by (rule prepare_refused [OF inv prep [unfolded failed(1)]])
    then show ?thesis using failed(2) by simp
  next
    case (aborted x)
    then show ?thesis using prepare_abort_keeps [OF inv prep [unfolded aborted(1)]] by (metis snd_conv)
  qed simp
qed


section \<open>A concrete run\<close>

text \<open>One head of 128 half-precision values: 256 bytes for a token, 16384 for a page.\<close>

definition demo_cache_start :: cache_world where
  "demo_cache_start = \<lparr>backing = (\<lparr>page_bytes = 16384, poisoned = False, tickets = [], outcomes = [], torn_down = False\<rparr>, demo_world),
     caches = [], snapshots = [], readers = []\<rparr>"

abbreviation "demo_token \<equiv> replicate 256 0"

definition demo_cache_calls :: "cache_call list" where
  "demo_cache_calls = [NewCache 1 128 ''float16'', AppendKV 0 (\<lambda>i. (i, Some 0)) False demo_token demo_token]"

definition demo_pending :: cache_world where
  "demo_pending = run_calls cache_step demo_cache_calls demo_cache_start"

definition demo_frozen :: cache_world where
  "demo_frozen = run_calls cache_step [PollCache 0 [(1, True)], FreezeCache 0] demo_pending"

lemma demo_cache_started: "cache_start demo_cache_start"
proof -
  have "new_pool 3 = Inr (arena demo_world)" "tables demo_world = []"
    "new_writer 16384 49152 (arena demo_world) = Inr (fst (backing demo_cache_start), completion demo_world)"
    by code_simp+
  moreover have "demo_world = \<lparr>arena = arena demo_world, tables = tables demo_world, completion = completion demo_world\<rparr>" by simp
  moreover have "backing demo_cache_start = (fst (backing demo_cache_start), demo_world)" by (simp add: demo_cache_start_def)
  ultimately have "write_start (backing demo_cache_start)" unfolding write_start_def by metis
  then show ?thesis by (simp add: cache_start_def demo_cache_start_def)
qed

lemma demo_pending_reachable: "reachable cache_start cache_step demo_pending"
  unfolding demo_pending_def by (intro reachable_run_calls reachable_init demo_cache_started)

lemma demo_frozen_reachable: "reachable cache_start cache_step demo_frozen"
  unfolding demo_frozen_def by (intro reachable_run_calls demo_pending_reachable)

lemma demo_pending_state: "length (caches demo_pending) = 1" "key_store (caches demo_pending ! 0) = []"
  by code_simp+

theorem accepted_bytes_are_proven_witness:
  "let s' = snd (cache_step (PollCache 0 [(1, True)]) demo_pending)
   in key_store (caches s' ! 0) = demo_token \<and> epoch_now (backing demo_pending) = 2
      \<and> written_out (caches demo_pending ! 0) demo_token (backing (run_calls cache_step [NewCache 1 128 ''float16''] demo_cache_start))
          (backing demo_pending)
      \<and> map_of (outcomes (fst (backing s'))) 1 = Some True"
proof -
  let ?s' = "snd (cache_step (PollCache 0 [(1, True)]) demo_pending)"
  let ?b0 = "backing (run_calls cache_step [NewCache 1 128 ''float16''] demo_cache_start)"
  have new: "key_store (caches ?s' ! 0) = demo_token" by code_simp
  have epochs: "epoch_now ?b0 = 1" "epoch_now (backing demo_pending) = 2" by code_simp+
  have grown: "key_store (caches ?s' ! 0) \<noteq> key_store (caches demo_pending ! 0)"
    unfolding new demo_pending_state by simp
  have len: "0 < length (caches demo_pending)" by (simp add: demo_pending_state)
  obtain before env native k v after where run: "demo_cache_calls = before @ AppendKV 0 env native k v # after"
      "written_out (caches demo_pending ! 0) k (backing (run_calls cache_step before demo_cache_start))
         (backing (run_calls cache_step (before @ [AppendKV 0 env native k v]) demo_cache_start))"
      "\<forall>e. epoch_now (backing (run_calls cache_step before demo_cache_start)) \<le> e \<longrightarrow>
         e < epoch_now (backing (run_calls cache_step (before @ [AppendKV 0 env native k v]) demo_cache_start)) \<longrightarrow>
         map_of (outcomes (fst (backing ?s'))) e = Some True"
    using accepted_bytes_are_proven [OF demo_cache_started demo_pending_def len refl refl refl, of "PollCache 0 [(1, True)]"] grown
    unfolding Let_def by blast
  have parts: "before = [NewCache 1 128 ''float16'']" "k = demo_token" "before @ [AppendKV 0 env native k v] = demo_cache_calls"
    using run(1) by (auto simp: demo_cache_calls_def Cons_eq_append_conv)
  have "epoch_now ?b0 \<le> 1" "1 < epoch_now (backing demo_pending)" unfolding epochs by simp_all
  then have "map_of (outcomes (fst (backing ?s'))) 1 = Some True"
    using run(3) [unfolded parts(3), folded demo_pending_def, unfolded parts(1)] by blast
  moreover have "written_out (caches demo_pending ! 0) demo_token ?b0 (backing demo_pending)"
    using run(2) [unfolded parts(3), folded demo_pending_def] unfolding parts(1,2) .
  ultimately show ?thesis using new epochs by (simp add: Let_def)
qed

theorem accepted_tokens_have_pages_witness:
  "kv_end (table_of (caches demo_frozen ! 0) (backing demo_frozen)) = 1
     \<and> active (page_of (table_of (caches demo_frozen ! 0) (backing demo_frozen)) 0) (arena (snd (backing demo_frozen)))"
proof -
  have "0 < length (caches demo_frozen)" "cache_ready (caches demo_frozen ! 0) (fst (backing demo_frozen)) = Inr ()"
    "cache_offset (caches demo_frozen ! 0) = 1"
    by code_simp+
  then show ?thesis
    using accepted_tokens_have_pages [OF demo_frozen_reachable nth_mem _ refl, of 0] by simp
qed

theorem frozen_prefix_survives_witness:
  "export_keys (frozen_export (snapshots (run_calls cache_step [CloseCache 0, BranchFrozen 0 1] demo_frozen) ! 0)) = demo_token
     \<and> active (PageHandle 0 1) (arena (snd (backing (run_calls cache_step [CloseCache 0, BranchFrozen 0 1] demo_frozen))))"
proof -
  have facts: "0 < length (snapshots demo_frozen)" "\<not> frozen_closed (snapshots demo_frozen ! 0)"
    "export_keys (frozen_export (snapshots demo_frozen ! 0)) = demo_token"
    "PageHandle 0 1 \<in> set (pages (tables (snd (backing demo_frozen)) ! frozen_table (snapshots demo_frozen ! 0)))"
    by code_simp+
  have "CloseFrozen 0 \<notin> set [CloseCache 0, BranchFrozen 0 1]" by simp
  from frozen_prefix_survives [OF demo_frozen_reachable facts(1,2) this refl refl] facts(3,4)
  show ?thesis by simp
qed

theorem rejected_attention_keeps_pins_witness:
  "\<exists>b. attention 5 1 1 ''ring'' None (caches demo_frozen ! 0, backing demo_frozen)
       = (Inl (ValueError ''unsupported mask kind''), (caches demo_frozen ! 0, b))
     \<and> held (snd b) = held (snd (backing demo_frozen)) \<and> next_epoch (completion (snd b)) = 3"
proof -
  let ?r = "attention 5 1 1 ''ring'' None (caches demo_frozen ! 0, backing demo_frozen)"
  have facts: "case_sum Some (\<lambda>_. None) (fst ?r) = Some (ValueError ''unsupported mask kind'')"
    "next_epoch (completion (snd (snd (snd ?r)))) = 3" "0 < length (caches demo_frozen)" by code_simp+
  then have "fst ?r = Inl (ValueError ''unsupported mask kind'')" by (cases "fst ?r") simp_all
  then have "?r = (Inl (ValueError ''unsupported mask kind''), (fst (snd ?r), snd (snd ?r)))" by (simp add: prod_eq_iff)
  from rejected_attention_keeps_pins [OF demo_frozen_reachable facts(3) this] this facts(2)
  show ?thesis by (metis)
qed

end
