(* ===== verification/Routing.thy ===== *)
theory Routing
  imports Prelude "HOL-Library.AList" "HOL-Library.Multiset" "HOL-Library.List_Lexorder" "HOL-Library.Char_ord" "HOL-Library.Product_Lexorder"
begin

text \<open>
  The stable descriptors of \<^verbatim>\<open>contracts.py\<close> and the capability router \<open>RoutePlanner\<close> of
  \<^verbatim>\<open>routing.py\<close>.  The metadata of a descriptor is opaque to the router and of the type
  parameter \<open>'m\<close>.  Text is a list of characters, ordered like Python orders strings.
\<close>

section \<open>Descriptors\<close>

datatype capability = TEXT | EMBEDDINGS | RERANK | VISION | VIDEO | AUDIO | OUTPUT_AUDIO | CONTINUOUS_BATCH
  | PREFIX_REUSE | APC_V2 | MTP | EXTERNAL_DRAFT | PROMPT_LOOKUP | STREAMING | TOOLS | REASONING | LAYERED_CACHE
  | SEGMENTED_MTP | GRAMMAR | COMPACTION | ACTIVE_RECOMPUTE

fun capability_value :: "capability \<Rightarrow> string" where
  "capability_value TEXT = ''text''"
| "capability_value EMBEDDINGS = ''embeddings''"
| "capability_value RERANK = ''rerank''"
| "capability_value VISION = ''vision''"
| "capability_value VIDEO = ''video''"
| "capability_value AUDIO = ''audio''"
| "capability_value OUTPUT_AUDIO = ''output_audio''"
| "capability_value CONTINUOUS_BATCH = ''continuous_batch''"
| "capability_value PREFIX_REUSE = ''prefix_reuse''"
| "capability_value APC_V2 = ''apc_v2''"
| "capability_value MTP = ''mtp''"
| "capability_value EXTERNAL_DRAFT = ''external_draft''"
| "capability_value PROMPT_LOOKUP = ''prompt_lookup''"
| "capability_value STREAMING = ''streaming''"
| "capability_value TOOLS = ''tools''"
| "capability_value REASONING = ''reasoning''"
| "capability_value LAYERED_CACHE = ''layered_cache''"
| "capability_value SEGMENTED_MTP = ''segmented_mtp''"
| "capability_value GRAMMAR = ''grammar''"
| "capability_value COMPACTION = ''compaction''"
| "capability_value ACTIVE_RECOMPUTE = ''active_recompute''"

datatype state_plane = ATTENTION_KV | RECURRENT | SPARSE_INDEX | DRAFT | RNG | GRAMMAR_PLANE | TRANSCRIPT

datatype fidelity = EXACT | NUMERICALLY_BOUNDED | APPROXIMATE

fun fidelity_value :: "fidelity \<Rightarrow> string" where
  "fidelity_value EXACT = ''exact''"
| "fidelity_value NUMERICALLY_BOUNDED = ''numerically_bounded''"
| "fidelity_value APPROXIMATE = ''approximate''"

fun FIDELITY_RANK :: "fidelity \<Rightarrow> int" where
  "FIDELITY_RANK APPROXIMATE = 0"
| "FIDELITY_RANK NUMERICALLY_BOUNDED = 1"
| "FIDELITY_RANK EXACT = 2"

record 'm model_descriptor =
  model_type :: string
  family :: string
  variant :: string
  state_planes :: "state_plane set"
  model_capabilities :: "capability set"
  cache_layout :: "string option"
  metadata :: 'm

definition new_model :: "string \<Rightarrow> string \<Rightarrow> string \<Rightarrow> state_plane set \<Rightarrow> capability set \<Rightarrow> string option \<Rightarrow> 'm
    \<Rightarrow> exc + 'm model_descriptor" where
  "new_model mt fam var planes caps layout meta =
     bind_sum (raise_if
       [(mt = [] \<or> fam = [] \<or> var = [], ValueError ''model_type, family, and variant are required''),
        (APC_V2 \<in> caps \<and> (layout = None \<or> layout = Some []), ValueError ''APCv2 requires an explicit cache layout'')]) (\<lambda>_.
     Inr \<lparr>model_type = mt, family = fam, variant = var, state_planes = planes, model_capabilities = caps,
          cache_layout = layout, metadata = meta\<rparr>)"

definition model_key :: "'m model_descriptor \<Rightarrow> string" where
  "model_key d = model_type d @ '':'' @ variant d"

record qualified_profile =
  profile_name :: string
  profile_capabilities :: "capability set"
  profile_fidelity :: fidelity
  evidence :: "string list"
  implementation :: string

definition new_profile :: "string \<Rightarrow> capability set \<Rightarrow> fidelity \<Rightarrow> string list \<Rightarrow> string \<Rightarrow> exc + qualified_profile" where
  "new_profile name caps fid proof_refs impl =
     bind_sum (raise_if
       [(name = [] \<or> impl = [], ValueError ''profile name and implementation are required''),
        (proof_refs = [], ValueError ''a selectable profile requires qualification evidence'')]) (\<lambda>_.
     Inr \<lparr>profile_name = name, profile_capabilities = caps, profile_fidelity = fid, evidence = proof_refs, implementation = impl\<rparr>)"

record route_request =
  wanted_type :: string
  wanted_variant :: string
  required :: "capability set"
  minimum_fidelity :: fidelity

definition request_key :: "route_request \<Rightarrow> string" where
  "request_key r = wanted_type r @ '':'' @ wanted_variant r"

section \<open>The planner\<close>

record 'm planner =
  models :: "(string \<times> 'm model_descriptor) list"
  profiles :: "(string \<times> qualified_profile list) list"

record 'm route_decision =
  routed_model :: "'m model_descriptor"
  routed_profile :: qualified_profile
  route_receipt :: string

fun join_with :: "string \<Rightarrow> string list \<Rightarrow> string" where
  "join_with sep [] = []"
| "join_with sep [x] = x"
| "join_with sep (x # y # ys) = x @ sep @ join_with sep (y # ys)"

definition capability_names :: "capability set \<Rightarrow> string list" where
  "capability_names cs = sorted_list_of_set (capability_value ` cs)"

definition new_planner :: "'m planner" where
  "new_planner = \<lparr>models = [], profiles = []\<rparr>"

definition profiles_of :: "string \<Rightarrow> 'm planner \<Rightarrow> qualified_profile list" where
  "profiles_of k p = (case map_of (profiles p) k of None \<Rightarrow> [] | Some fs \<Rightarrow> fs)"

definition register_model :: "'m model_descriptor \<Rightarrow> 'm planner \<Rightarrow> (unit, 'm planner) res" where
  "register_model d p =
     (if map_of (models p) (model_key d) \<noteq> None
      then (Inl (ValueError (''model descriptor already registered: '' @ model_key d)), p)
      else (Inr (), p\<lparr>models := AList.update (model_key d) d (models p)\<rparr>))"

text \<open>\<open>setdefault\<close> adds the empty list of a key before the name is checked.\<close>

definition with_entry :: "string \<Rightarrow> 'm planner \<Rightarrow> 'm planner" where
  "with_entry k p = (if map_of (profiles p) k = None then p\<lparr>profiles := AList.update k [] (profiles p)\<rparr> else p)"

definition register_profile :: "string \<Rightarrow> qualified_profile \<Rightarrow> 'm planner \<Rightarrow> (unit, 'm planner) res" where
  "register_profile k f p =
     (case map_of (models p) k of
        None \<Rightarrow> (Inl (KeyError (''unknown model descriptor: '' @ k)), p)
      | Some d \<Rightarrow>
          if profile_capabilities f - model_capabilities d \<noteq> {}
          then (Inl (ValueError (''profile claims undeclared capabilities: ''
                  @ join_with '', '' (capability_names (profile_capabilities f - model_capabilities d)))), p)
          else let p = with_entry k p
               in if profile_name f \<in> profile_name ` set (profiles_of k p)
                  then (Inl (ValueError (''profile name already registered: '' @ profile_name f)), p)
                  else (Inr (), p\<lparr>profiles := AList.update k (profiles_of k p @ [f]) (profiles p)\<rparr>))"

definition qualifies :: "route_request \<Rightarrow> qualified_profile \<Rightarrow> bool" where
  "qualifies r f \<longleftrightarrow> required r \<subseteq> profile_capabilities f \<and> FIDELITY_RANK (profile_fidelity f) \<ge> FIDELITY_RANK (minimum_fidelity r)"

definition route_rank :: "route_request \<Rightarrow> qualified_profile \<Rightarrow> nat \<times> int \<times> string" where
  "route_rank r f = (card (profile_capabilities f - required r), - FIDELITY_RANK (profile_fidelity f), profile_name f)"

definition decide :: "route_request \<Rightarrow> 'm planner \<Rightarrow> exc + 'm route_decision" where
  "decide r p =
     (case map_of (models p) (request_key r) of
        None \<Rightarrow> Inl (RouteUnavailable (''unknown model descriptor: '' @ request_key r))
      | Some d \<Rightarrow>
          if required r - model_capabilities d \<noteq> {}
          then Inl (RouteUnavailable (''model does not declare: '' @ join_with '', '' (capability_names (required r - model_capabilities d))))
          else case sort_key (route_rank r) (filter (qualifies r) (profiles_of (request_key r) p)) of
                 [] \<Rightarrow> Inl (RouteUnavailable ''no qualified profile satisfies the request'')
               | f # _ \<Rightarrow>
                   let names = join_with '','' (capability_names (required r));
                       requested = (if names = [] then ''ordinary'' else names)
                   in Inr \<lparr>routed_model = d, routed_profile = f,
                           route_receipt = ''model='' @ model_key d @ '';profile='' @ profile_name f @ '';requested='' @ requested
                             @ '';fidelity='' @ fidelity_value (profile_fidelity f)\<rparr>)"

section \<open>Reachable planners\<close>

datatype 'm planner_call = RegisterModel "'m model_descriptor" | RegisterProfile string qualified_profile

fun planner_step :: "'m planner_call \<Rightarrow> 'm planner \<Rightarrow> (unit, 'm planner) res" where
  "planner_step (RegisterModel d) p = register_model d p"
| "planner_step (RegisterProfile k f) p = register_profile k f p"

text \<open>Every listed profile belongs to a registered model that declares its capabilities, under a name of its own.\<close>

definition planner_inv :: "'m planner \<Rightarrow> bool" where
  "planner_inv p \<longleftrightarrow> (\<forall>k d. map_of (models p) k = Some d \<longrightarrow> model_key d = k)
     \<and> (\<forall>k. distinct (map profile_name (profiles_of k p)))
     \<and> (\<forall>k. \<forall>f \<in> set (profiles_of k p). \<exists>d. map_of (models p) k = Some d \<and> profile_capabilities f \<subseteq> model_capabilities d)"

lemma profiles_of_update:
  "profiles_of k (p\<lparr>profiles := AList.update k' fs (profiles p)\<rparr>) = (if k = k' then fs else profiles_of k p)"
  by (simp add: profiles_of_def update_conv')

lemma profiles_of_models: "profiles_of k (p\<lparr>models := ms\<rparr>) = profiles_of k p"
  by (simp add: profiles_of_def)

lemma with_entry_simps [simp]: "profiles_of k (with_entry k' p) = profiles_of k p" "models (with_entry k' p) = models p"
  by (simp_all add: with_entry_def profiles_of_def update_conv')

lemma register_profile_cases:
  obtains (refused) e q where "register_profile k f p = (Inl e, q)" "models q = models p" "\<And>k. profiles_of k q = profiles_of k p"
  | (added) d q where "register_profile k f p = (Inr (), q)" "map_of (models p) k = Some d"
      "profile_capabilities f \<subseteq> model_capabilities d" "profile_name f \<notin> profile_name ` set (profiles_of k p)"
      "models q = models p" "\<And>k'. profiles_of k' q = (if k' = k then profiles_of k p @ [f] else profiles_of k' p)"
proof (cases "map_of (models p) k")
  case None
  then show ?thesis by (intro refused [where q = p]) (auto simp: register_profile_def)
next
  case (Some d)
  show ?thesis
  proof (cases "profile_capabilities f - model_capabilities d = {}")
    case False
    then show ?thesis using Some by (intro refused [where q = p]) (auto simp: register_profile_def)
  next
    case caps: True
    show ?thesis
    proof (cases "profile_name f \<in> profile_name ` set (profiles_of k p)")
      case True
      then show ?thesis
        using Some caps by (intro refused [where q = "with_entry k p"]) (auto simp: register_profile_def Let_def)
    next
      case False
      then show ?thesis
        using Some caps
        by (intro added [where q = "(with_entry k p)\<lparr>profiles := AList.update k (profiles_of k p @ [f]) (profiles (with_entry k p))\<rparr>"])
          (auto simp: register_profile_def Let_def profiles_of_update)
    qed
  qed
qed

lemma planner_step_inv:
  assumes "planner_inv p"
  shows "planner_inv (snd (planner_step c p))"
proof (cases c)
  case (RegisterModel d)
  then show ?thesis
    using assms unfolding planner_inv_def by (auto simp: register_model_def profiles_of_models update_conv') fastforce
next
  case (RegisterProfile k f)
  show ?thesis
  proof (cases rule: register_profile_cases [of k f p])
    case (refused e q)
    then show ?thesis using assms by (simp add: RegisterProfile planner_inv_def)
  next
    case (added d q)
    have "\<exists>d. map_of (models q) k' = Some d \<and> profile_capabilities g \<subseteq> model_capabilities d" if "g \<in> set (profiles_of k' q)" for k' g
    proof (cases "g \<in> set (profiles_of k' p)")
      case True
      then show ?thesis using assms by (simp add: planner_inv_def added(5))
    next
      case False
      then have "k' = k" "g = f" using that by (auto simp: added(6) split: if_splits)
      then show ?thesis using added(2,3,5) by simp
    qed
    then show ?thesis using assms added by (simp add: RegisterProfile planner_inv_def)
  qed
qed

lemma new_planner_inv: "planner_inv new_planner"
  by (simp add: planner_inv_def new_planner_def profiles_of_def)

interpretation route_planner: stateful_component "\<lambda>p. p = new_planner" planner_step planner_inv
  using new_planner_inv planner_step_inv by unfold_locales blast+

section \<open>What a decision is\<close>

lemma sort_key_hd:
  assumes "sort_key g xs = f # fs"
  shows "f \<in> set xs" and "\<And>x. x \<in> set xs \<Longrightarrow> g f \<le> g x"
proof -
  have "set (f # fs) = set xs" using assms by (metis set_sort)
  moreover have "sorted (map g (f # fs))" using assms by (metis sorted_sort_key)
  ultimately show "f \<in> set xs" "\<And>x. x \<in> set xs \<Longrightarrow> g f \<le> g x" by auto
qed

lemma decide_Inr:
  assumes "decide r p = Inr x"
  obtains d where "map_of (models p) (request_key r) = Some d" and "required r \<subseteq> model_capabilities d"
    and "routed_model x = d" and "routed_profile x \<in> set (profiles_of (request_key r) p)" and "qualifies r (routed_profile x)"
    and "\<And>f. f \<in> set (profiles_of (request_key r) p) \<Longrightarrow> qualifies r f \<Longrightarrow> route_rank r (routed_profile x) \<le> route_rank r f"
proof -
  obtain d where d: "map_of (models p) (request_key r) = Some d" "required r \<subseteq> model_capabilities d"
    using assms by (auto simp: decide_def split: option.splits if_splits)
  obtain f fs where f: "sort_key (route_rank r) (filter (qualifies r) (profiles_of (request_key r) p)) = f # fs"
      "routed_model x = d" "routed_profile x = f"
    using assms d by (auto simp: decide_def Let_def split: list.splits if_splits)
  show ?thesis
    using that [OF d f(2)] sort_key_hd [OF f(1)] by (auto simp: f(3))
qed

lemma rank_less_surplus:
  "route_rank r f \<le> route_rank r g \<Longrightarrow> card (profile_capabilities f - required r) \<le> card (profile_capabilities g - required r)
     \<and> (card (profile_capabilities f - required r) = card (profile_capabilities g - required r)
          \<longrightarrow> FIDELITY_RANK (profile_fidelity g) \<le> FIDELITY_RANK (profile_fidelity f))"
  by (auto simp: route_rank_def less_eq_prod_def)

lemma key_parts:
  assumes "a @ '':'' @ b = c @ '':'' @ d" and "CHR '':'' \<notin> set a" and "CHR '':'' \<notin> set c"
  shows "a = c \<and> b = d"
  using assms
proof (induction a arbitrary: c)
  case Nil
  then show ?case by (cases c) auto
next
  case (Cons x a)
  then show ?case by (cases c) auto
qed

text \<open>
  C31: A route that a planner returns names the requested model, a profile registered for it
  that the model declares in full, covers every required capability and the minimum fidelity,
  and carries the fewest capabilities nobody asked for.
\<close>

theorem routes_are_declared_and_qualified:
  assumes "reachable (\<lambda>p. p = new_planner) planner_step p" and "decide r p = Inr x"
  shows "map_of (models p) (request_key r) = Some (routed_model x) \<and> model_key (routed_model x) = request_key r
     \<and> (\<exists>fs. map_of (profiles p) (request_key r) = Some fs \<and> routed_profile x \<in> set fs)
     \<and> required r \<subseteq> profile_capabilities (routed_profile x)
     \<and> profile_capabilities (routed_profile x) \<subseteq> model_capabilities (routed_model x)
     \<and> FIDELITY_RANK (minimum_fidelity r) \<le> FIDELITY_RANK (profile_fidelity (routed_profile x))
     \<and> (\<forall>f \<in> set (profiles_of (request_key r) p). qualifies r f \<longrightarrow>
          card (profile_capabilities (routed_profile x) - required r) \<le> card (profile_capabilities f - required r))
     \<and> (CHR '':'' \<notin> set (wanted_type r) \<and> CHR '':'' \<notin> set (model_type (routed_model x)) \<longrightarrow>
          model_type (routed_model x) = wanted_type r \<and> variant (routed_model x) = wanted_variant r)"
proof -
  have inv: "planner_inv p" by (rule route_planner.inv_reachable [OF assms(1)])
  obtain d where d: "map_of (models p) (request_key r) = Some d" "routed_model x = d"
      "routed_profile x \<in> set (profiles_of (request_key r) p)" "qualifies r (routed_profile x)"
      "\<And>f. f \<in> set (profiles_of (request_key r) p) \<Longrightarrow> qualifies r f \<Longrightarrow> route_rank r (routed_profile x) \<le> route_rank r f"
    by (rule decide_Inr [OF assms(2)]) blast
  have key: "model_key d = request_key r" using inv d(1) by (simp add: planner_inv_def)
  have "profile_capabilities (routed_profile x) \<subseteq> model_capabilities d"
    using inv d(1,3) by (fastforce simp: planner_inv_def)
  moreover have "\<exists>fs. map_of (profiles p) (request_key r) = Some fs \<and> routed_profile x \<in> set fs"
    using d(3) by (cases "map_of (profiles p) (request_key r)") (simp_all add: profiles_of_def)
  moreover have "model_type d = wanted_type r \<and> variant d = wanted_variant r"
    if "CHR '':'' \<notin> set (wanted_type r)" "CHR '':'' \<notin> set (model_type d)"
    using key_parts [of "model_type d" "variant d" "wanted_type r" "wanted_variant r"] key that
    by (simp add: model_key_def request_key_def)
  ultimately show ?thesis
    using key d(1,2,4) rank_less_surplus [OF d(5)] by (auto simp: qualifies_def)
qed

text \<open>
  C32: Two planners that list the same profiles for a model, in whatever order they were
  registered, decide every request for it identically, refusals and receipts included.
\<close>

theorem route_ignores_registration_order:
  assumes "reachable (\<lambda>p. p = new_planner) planner_step p" and "reachable (\<lambda>p. p = new_planner) planner_step q"
    and "map_of (models p) (request_key r) = map_of (models q) (request_key r)"
    and "set (profiles_of (request_key r) p) = set (profiles_of (request_key r) q)"
  shows "decide r p = decide r q"
proof -
  let ?k = "request_key r"
  let ?ps = "filter (qualifies r) (profiles_of ?k p)" and ?qs = "filter (qualifies r) (profiles_of ?k q)"
  have names: "distinct (map profile_name (profiles_of ?k p))" "distinct (map profile_name (profiles_of ?k q))"
    using route_planner.inv_reachable assms(1,2) by (blast dest: planner_inv_def [THEN iffD1])+
  have "mset ?ps = mset ?qs"
    using names assms(4) by (simp add: distinct_map set_eq_iff_mset_eq_distinct)
  moreover have "inj_on (route_rank r) (set ?ps)"
    using names(1) by (auto simp: distinct_map inj_on_def route_rank_def)
  ultimately have same: "sort_key (route_rank r) ?ps = sort_key (route_rank r) ?qs"
    by (intro sort_key_inj_key_eq) (simp_all add: mset_sort)
  show ?thesis unfolding decide_def assms(3) same by (rule refl)
qed


section \<open>A concrete planner\<close>

definition demo_model :: "unit model_descriptor" where
  "demo_model = \<lparr>model_type = ''llama'', family = ''llama'', variant = ''8b'', state_planes = {ATTENTION_KV},
     model_capabilities = {TEXT, STREAMING, MTP}, cache_layout = None, metadata = ()\<rparr>"

definition demo_profile :: "string \<Rightarrow> capability set \<Rightarrow> qualified_profile" where
  "demo_profile name caps = \<lparr>profile_name = name, profile_capabilities = caps, profile_fidelity = EXACT,
     evidence = [''run-1''], implementation = ''dense''\<rparr>"

definition demo_planner :: "qualified_profile list \<Rightarrow> unit planner" where
  "demo_planner fs = run_calls planner_step (RegisterModel demo_model # map (RegisterProfile ''llama:8b'') fs) new_planner"

abbreviation "demo_narrow \<equiv> demo_profile ''narrow'' {TEXT, STREAMING}"
abbreviation "demo_wide \<equiv> demo_profile ''wide'' {TEXT, STREAMING, MTP}"

definition demo_route_request :: route_request where
  "demo_route_request = \<lparr>wanted_type = ''llama'', wanted_variant = ''8b'', required = {TEXT}, minimum_fidelity = EXACT\<rparr>"

lemma demo_planner_reachable: "reachable (\<lambda>p. p = new_planner) planner_step (demo_planner fs)"
  unfolding demo_planner_def by (intro reachable_run_calls reachable_init) simp

definition routed_name :: "exc + unit route_decision \<Rightarrow> string option" where
  "routed_name x = (case x of Inl _ \<Rightarrow> None | Inr d \<Rightarrow> Some (profile_name (routed_profile d)))"

theorem routes_are_declared_and_qualified_witness:
  "\<exists>x. decide demo_route_request (demo_planner [demo_wide, demo_narrow]) = Inr x
     \<and> required demo_route_request \<subseteq> profile_capabilities (routed_profile x) \<and> profile_name (routed_profile x) = ''narrow''"
proof -
  have "routed_name (decide demo_route_request (demo_planner [demo_wide, demo_narrow])) = Some ''narrow''" by code_simp
  then obtain x where x: "decide demo_route_request (demo_planner [demo_wide, demo_narrow]) = Inr x" "profile_name (routed_profile x) = ''narrow''"
    by (auto simp: routed_name_def split: sum.splits)
  then show ?thesis using routes_are_declared_and_qualified [OF demo_planner_reachable x(1)] by blast
qed

theorem route_ignores_registration_order_witness:
  "decide demo_route_request (demo_planner [demo_wide, demo_narrow]) = decide demo_route_request (demo_planner [demo_narrow, demo_wide])"
proof -
  have "set (profiles_of (request_key demo_route_request) (demo_planner [demo_wide, demo_narrow]))
      = set (profiles_of (request_key demo_route_request) (demo_planner [demo_narrow, demo_wide]))"
    "map_of (models (demo_planner [demo_wide, demo_narrow])) (request_key demo_route_request) = Some demo_model"
    "map_of (models (demo_planner [demo_narrow, demo_wide])) (request_key demo_route_request) = Some demo_model"
    by code_simp+
  then show ?thesis by (intro route_ignores_registration_order demo_planner_reachable) simp_all
qed


end
