(* ===== verification/StateOwner.thy ===== *)
theory StateOwner
  imports Routing
begin

text \<open>
  Revision-bound request state (\<^verbatim>\<open>state.py\<close>) and identity-safe cache ownership with
  invalidation leases (\<^verbatim>\<open>cache.py\<close>).

  A transaction is bound to the manifest it was opened on; the owner hands \<open>commit\<close> the manifest
  that is published now and installs what \<open>commit\<close> returns.  The planes of a manifest map to opaque
  values \<open>'v\<close>.  A cache entry is compared by identity in the code: its identity is a number, as is
  that of a lease, and the finalizer of a lease runs its release at most once.
\<close>

section \<open>Request state\<close>

datatype state_operation = APPEND | FORK | ROLLBACK | RESTORE | SPILL | COMPACT

record state_identity =
  request_id :: string
  revision :: int

definition new_identity :: "string \<Rightarrow> int \<Rightarrow> exc + state_identity" where
  "new_identity rid n =
     (if rid = [] \<or> n < 0 then Inl (ValueError ''request_id must be set and revision must be non-negative'')
      else Inr \<lparr>request_id = rid, revision = n\<rparr>)"

record 'v state_manifest =
  identity :: state_identity
  planes :: "state_plane \<rightharpoonup> 'v"
  manifest_fidelity :: fidelity

record 'v transaction =
  begun_on :: "'v state_manifest"
  operation :: state_operation
  with_profile :: "qualified_profile option"
  prepared :: "'v state_manifest option"
  tx_closed :: bool

definition new_transaction :: "'v state_manifest \<Rightarrow> state_operation \<Rightarrow> qualified_profile option \<Rightarrow> 'v transaction" where
  "new_transaction m op prof = \<lparr>begun_on = m, operation = op, with_profile = prof, prepared = None, tx_closed = False\<rparr>"

definition check_fidelity :: "'v transaction \<Rightarrow> fidelity \<Rightarrow> exc + unit" where
  "check_fidelity t fid =
     (if fid = EXACT then Inr ()
      else case with_profile t of
             None \<Rightarrow> Inl (InvalidStatePublication ''non-exact state requires a qualified compaction profile'')
           | Some prof \<Rightarrow>
               if operation t \<noteq> COMPACT \<or> COMPACTION \<notin> profile_capabilities prof
               then Inl (InvalidStatePublication ''non-exact state requires a qualified compaction profile'')
               else if FIDELITY_RANK fid > FIDELITY_RANK (profile_fidelity prof)
               then Inl (InvalidStatePublication ''state fidelity exceeds the qualified compaction profile'')
               else Inr ())"

definition prepare_tx :: "(state_plane \<rightharpoonup> 'v) \<Rightarrow> fidelity \<Rightarrow> 'v transaction \<Rightarrow> ('v state_manifest, 'v transaction) res" where
  "prepare_tx ps fid t =
     (if tx_closed t then (Inl (RuntimeError ''transaction is closed''), t)
      else lift_res (check_fidelity t fid) t (\<lambda>_.
           lift_res (new_identity (request_id (identity (begun_on t))) (revision (identity (begun_on t)) + 1)) t (\<lambda>i.
             let m = \<lparr>identity = i, planes = ps, manifest_fidelity = fid\<rparr> in (Inr m, t\<lparr>prepared := Some m\<rparr>))))"

definition commit_tx :: "'v state_manifest \<Rightarrow> 'v transaction \<Rightarrow> ('v state_manifest, 'v transaction) res" where
  "commit_tx published t =
     (case prepared t of
        None \<Rightarrow> (Inl (RuntimeError ''transaction is not prepared''), t)
      | Some m \<Rightarrow>
          if tx_closed t then (Inl (RuntimeError ''transaction is not prepared''), t)
          else if identity published \<noteq> identity (begun_on t)
          then (Inl (StateConflict ''published state changed after transaction began''), t)
          else (Inr m, t\<lparr>tx_closed := True\<rparr>))"

definition abort_tx :: "'v transaction \<Rightarrow> 'v transaction" where
  "abort_tx t = t\<lparr>prepared := None, tx_closed := True\<rparr>"

text \<open>One request: the published manifest and the transactions opened on it.\<close>

record 'v request_state =
  published_now :: "'v state_manifest"
  open_txs :: "'v transaction list"

datatype 'v state_call =
    BeginTx state_operation "qualified_profile option"
  | PrepareTx nat "state_plane \<rightharpoonup> 'v" fidelity
  | CommitTx nat
  | AbortTx nat

fun state_step :: "'v state_call \<Rightarrow> 'v request_state \<Rightarrow> (unit, 'v request_state) res" where
  "state_step (BeginTx op prof) s = (Inr (), s\<lparr>open_txs := open_txs s @ [new_transaction (published_now s) op prof]\<rparr>)"
| "state_step (PrepareTx i ps fid) s =
     (if i < length (open_txs s)
      then (case prepare_tx ps fid (open_txs s ! i) of (r, t) \<Rightarrow> (map_sum id (\<lambda>_. ()) r, s\<lparr>open_txs := (open_txs s)[i := t]\<rparr>))
      else (Inl (IndexError ''no such transaction''), s))"
| "state_step (CommitTx i) s =
     (if i < length (open_txs s)
      then (case commit_tx (published_now s) (open_txs s ! i) of
              (Inl e, t) \<Rightarrow> (Inl e, s\<lparr>open_txs := (open_txs s)[i := t]\<rparr>)
            | (Inr m, t) \<Rightarrow> (Inr (), s\<lparr>published_now := m, open_txs := (open_txs s)[i := t]\<rparr>))
      else (Inl (IndexError ''no such transaction''), s))"
| "state_step (AbortTx i) s =
     (if i < length (open_txs s) then (Inr (), s\<lparr>open_txs := (open_txs s)[i := abort_tx (open_txs s ! i)]\<rparr>)
      else (Inl (IndexError ''no such transaction''), s))"

section \<open>Cache ownership\<close>

record cache_fingerprint =
  schema_version :: string
  plane :: state_plane
  model_revision :: string
  adapter_revision :: "string option"
  configuration_hash :: string
  tokenizer_hash :: string
  template_hash :: string
  layout :: string
  token_hash :: string
  segment_start :: int
  segment_end :: int
  key_fidelity :: fidelity

definition check_fingerprint :: "cache_fingerprint \<Rightarrow> exc + unit" where
  "check_fingerprint k =
     (let missing = map fst (filter (\<lambda>x. snd x = [])
            [(''schema_version'', schema_version k), (''model_revision'', model_revision k),
             (''configuration_hash'', configuration_hash k), (''tokenizer_hash'', tokenizer_hash k),
             (''template_hash'', template_hash k), (''layout'', layout k), (''token_hash'', token_hash k)])
      in raise_if
        [(missing \<noteq> [], ValueError (''empty cache identity fields: '' @ join_with '', '' missing)),
         (segment_start k < 0 \<or> segment_end k \<le> segment_start k, ValueError ''cache segment must be a non-empty half-open range'')])"

record 'v cache_entry =
  entry_oid :: nat
  entry_value :: 'v
  entry_pins :: int
  invalidated :: bool

record ('k, 'v) cache_lease =
  lease_key :: 'k
  lease_entry :: nat
  lease_value :: 'v
  released :: bool

record ('k, 'v) cache_owner =
  entries :: "('k \<times> 'v cache_entry) list"
  next_oid :: nat

definition new_cache_owner :: "('k, 'v) cache_owner" where
  "new_cache_owner = \<lparr>entries = [], next_oid = 0\<rparr>"

definition put_entry :: "'k \<Rightarrow> 'v \<Rightarrow> ('k, 'v) cache_owner \<Rightarrow> (unit, ('k, 'v) cache_owner) res" where
  "put_entry k v c =
     (if (case map_of (entries c) k of None \<Rightarrow> False | Some e \<Rightarrow> entry_pins e \<noteq> 0)
      then (Inl (RuntimeError ''cannot replace a leased cache entry''), c)
      else (Inr (), \<lparr>entries = AList.update k \<lparr>entry_oid = next_oid c, entry_value = v, entry_pins = 0, invalidated = False\<rparr> (entries c),
                     next_oid = next_oid c + 1\<rparr>))"

definition acquire_entry :: "'k \<Rightarrow> ('k, 'v) cache_owner \<Rightarrow> (('k, 'v) cache_lease, ('k, 'v) cache_owner) res" where
  "acquire_entry k c =
     (case map_of (entries c) k of
        None \<Rightarrow> (Inl CacheMiss, c)
      | Some e \<Rightarrow> if invalidated e then (Inl CacheMiss, c)
          else (Inr \<lparr>lease_key = k, lease_entry = entry_oid e, lease_value = entry_value e, released = False\<rparr>,
                c\<lparr>entries := AList.update k (e\<lparr>entry_pins := entry_pins e + 1\<rparr>) (entries c)\<rparr>))"

definition release_entry :: "'k \<Rightarrow> nat \<Rightarrow> ('k, 'v) cache_owner \<Rightarrow> ('k, 'v) cache_owner" where
  "release_entry k oid c =
     (case map_of (entries c) k of
        None \<Rightarrow> c
      | Some e \<Rightarrow>
          if entry_oid e \<noteq> oid then c
          else let e = e\<lparr>entry_pins := entry_pins e - 1\<rparr>
               in if entry_pins e = 0 \<and> invalidated e then c\<lparr>entries := AList.delete k (entries c)\<rparr>
                  else c\<lparr>entries := AList.update k e (entries c)\<rparr>)"

definition close_lease :: "('k, 'v) cache_lease \<times> ('k, 'v) cache_owner \<Rightarrow> ('k, 'v) cache_lease \<times> ('k, 'v) cache_owner" where
  "close_lease lc = (case lc of (l, c) \<Rightarrow>
     if released l then (l, c) else (l\<lparr>released := True\<rparr>, release_entry (lease_key l) (lease_entry l) c))"

definition invalidate_entry :: "'k \<Rightarrow> ('k, 'v) cache_owner \<Rightarrow> (bool, ('k, 'v) cache_owner) res" where
  "invalidate_entry k c =
     (case map_of (entries c) k of
        None \<Rightarrow> (Inr False, c)
      | Some e \<Rightarrow>
          if entry_pins e = 0 then (Inr True, c\<lparr>entries := AList.delete k (entries c)\<rparr>)
          else (Inr True, c\<lparr>entries := AList.update k (e\<lparr>invalidated := True\<rparr>) (entries c)\<rparr>))"

definition live_entries :: "('k, 'v) cache_owner \<Rightarrow> nat" where
  "live_entries c = length (filter (\<lambda>x. \<not> invalidated (snd x)) (entries c))"

text \<open>The owner with the leases it handed out.\<close>

record ('k, 'v) lease_world =
  cache_of :: "('k, 'v) cache_owner"
  leases_out :: "('k, 'v) cache_lease list"

datatype ('k, 'v) lease_call = PutEntry 'k 'v | AcquireEntry 'k | CloseLease nat | InvalidateEntry 'k

fun lease_step :: "('k, 'v) lease_call \<Rightarrow> ('k, 'v) lease_world \<Rightarrow> (unit, ('k, 'v) lease_world) res" where
  "lease_step (PutEntry k v) w = (case put_entry k v (cache_of w) of (r, c) \<Rightarrow> (r, w\<lparr>cache_of := c\<rparr>))"
| "lease_step (AcquireEntry k) w =
     (case acquire_entry k (cache_of w) of
        (Inl e, c) \<Rightarrow> (Inl e, w\<lparr>cache_of := c\<rparr>)
      | (Inr l, c) \<Rightarrow> (Inr (), w\<lparr>cache_of := c, leases_out := leases_out w @ [l]\<rparr>))"
| "lease_step (CloseLease i) w =
     (if i < length (leases_out w)
      then (case close_lease (leases_out w ! i, cache_of w) of
              (l, c) \<Rightarrow> (Inr (), w\<lparr>cache_of := c, leases_out := (leases_out w)[i := l]\<rparr>))
      else (Inl (IndexError ''no such lease''), w))"
| "lease_step (InvalidateEntry k) w = (case invalidate_entry k (cache_of w) of (r, c) \<Rightarrow> (map_sum id (\<lambda>_. ()) r, w\<lparr>cache_of := c\<rparr>))"

section \<open>Transactions of one request\<close>

definition opened_on :: "'v state_manifest \<Rightarrow> 'v request_state" where
  "opened_on m = \<lparr>published_now = m, open_txs = []\<rparr>"

text \<open>What \<open>prepare\<close> installs: the next revision of the same request, at a fidelity the operation may publish.\<close>

definition prepared_ok :: "'v transaction \<Rightarrow> 'v state_manifest \<Rightarrow> bool" where
  "prepared_ok t m \<longleftrightarrow> request_id (identity m) = request_id (identity (begun_on t))
     \<and> revision (identity m) = revision (identity (begun_on t)) + 1
     \<and> (manifest_fidelity m \<noteq> EXACT \<longrightarrow> (\<exists>f. operation t = COMPACT \<and> with_profile t = Some f \<and> COMPACTION \<in> profile_capabilities f
          \<and> FIDELITY_RANK (manifest_fidelity m) \<le> FIDELITY_RANK (profile_fidelity f)))"

text \<open>A transaction was begun on the published manifest or on one of an earlier revision.\<close>

definition tx_ok :: "'v state_manifest \<Rightarrow> 'v transaction \<Rightarrow> bool" where
  "tx_ok m t \<longleftrightarrow> (begun_on t = m \<or> revision (identity (begun_on t)) < revision (identity m))
     \<and> (\<forall>q. prepared t = Some q \<longrightarrow> prepared_ok t q)"

definition state_inv :: "'v request_state \<Rightarrow> bool" where
  "state_inv s \<longleftrightarrow> (\<forall>t \<in> set (open_txs s). tx_ok (published_now s) t)"

lemma check_fidelity_Inr:
  "check_fidelity t fid = Inr u \<Longrightarrow> fid \<noteq> EXACT \<Longrightarrow> \<exists>f. operation t = COMPACT \<and> with_profile t = Some f
     \<and> COMPACTION \<in> profile_capabilities f \<and> FIDELITY_RANK fid \<le> FIDELITY_RANK (profile_fidelity f)"
  by (auto simp: check_fidelity_def split: option.splits if_splits)

lemma prepare_tx_cases:
  obtains (refused) e where "prepare_tx ps fid t = (Inl e, t)"
  | (done_) m where "prepare_tx ps fid t = (Inr m, t\<lparr>prepared := Some m\<rparr>)" "prepared_ok t m" "planes m = ps" "manifest_fidelity m = fid"
proof (cases "prepare_tx ps fid t")
  case (Pair r t')
  show ?thesis
  proof (cases r)
    case (Inl e)
    then have "t' = t" using Pair by (auto simp: prepare_tx_def Let_def split: if_splits res_splits)
    then show ?thesis using refused Pair Inl by simp
  next
    case (Inr m)
    then have *: "check_fidelity t fid = Inr ()" "t' = t\<lparr>prepared := Some m\<rparr>" "planes m = ps" "manifest_fidelity m = fid"
      "request_id (identity m) = request_id (identity (begun_on t))" "revision (identity m) = revision (identity (begun_on t)) + 1"
      using Pair by (auto simp: prepare_tx_def Let_def new_identity_def split: if_splits res_splits)
    then have "prepared_ok t m" using check_fidelity_Inr [OF *(1)] unfolding prepared_ok_def by simp
    then show ?thesis using done_ Pair Inr * by simp
  qed
qed

lemma commit_tx_cases:
  obtains (refused) e where "commit_tx p t = (Inl e, t)"
  | (done_) m where "commit_tx p t = (Inr m, t\<lparr>tx_closed := True\<rparr>)" "prepared t = Some m" "identity p = identity (begun_on t)" "\<not> tx_closed t"
  by (cases "prepared t"; cases "tx_closed t"; cases "identity p = identity (begun_on t)") (auto simp: commit_tx_def)

lemma tx_ok_weaken:
  "tx_ok m t \<Longrightarrow> revision (identity m) < revision (identity m') \<Longrightarrow> tx_ok m' t"
  by (auto simp: tx_ok_def)

lemma tx_ok_fields [simp]:
  "tx_ok m (t\<lparr>tx_closed := b\<rparr>) = tx_ok m t"
  "tx_ok m (t\<lparr>prepared := Some q\<rparr>) \<longleftrightarrow> (begun_on t = m \<or> revision (identity (begun_on t)) < revision (identity m)) \<and> prepared_ok t q"
  by (auto simp: tx_ok_def prepared_ok_def)

lemma tx_ok_updateI: "(\<forall>t \<in> set ts. tx_ok m t) \<Longrightarrow> tx_ok m t' \<Longrightarrow> \<forall>t \<in> set (ts[i := t']). tx_ok m t"
  using set_update_subset_insert by fastforce

lemma state_step_inv:
  assumes "state_inv s"
  shows "state_inv (snd (state_step c s))"
proof (cases c)
  case (BeginTx op prof)
  then show ?thesis using assms by (auto simp: state_inv_def tx_ok_def new_transaction_def)
next
  case (PrepareTx i ps fid)
  show ?thesis
  proof (cases "i < length (open_txs s)")
    case True
    then have "tx_ok (published_now s) (open_txs s ! i)" using assms by (simp add: state_inv_def)
    then have base: "begun_on (open_txs s ! i) = published_now s
        \<or> revision (identity (begun_on (open_txs s ! i))) < revision (identity (published_now s))"
      by (simp add: tx_ok_def)
    show ?thesis
    proof (cases rule: prepare_tx_cases [of ps fid "open_txs s ! i"])
      case (refused e)
      then show ?thesis using assms True PrepareTx by simp
    next
      case (done_ m)
      then have step: "snd (state_step c s) = s\<lparr>open_txs := (open_txs s)[i := (open_txs s ! i)\<lparr>prepared := Some m\<rparr>]\<rparr>"
        using True PrepareTx by simp
      have "tx_ok (published_now s) ((open_txs s ! i)\<lparr>prepared := Some m\<rparr>)" unfolding tx_ok_fields using base done_(2) by blast
      then have "\<forall>t \<in> set ((open_txs s)[i := (open_txs s ! i)\<lparr>prepared := Some m\<rparr>]). tx_ok (published_now s) t"
        using assms unfolding state_inv_def by (intro tx_ok_updateI)
      then show ?thesis unfolding step state_inv_def by simp
    qed
  qed (use assms PrepareTx in simp)
next
  case (CommitTx i)
  show ?thesis
  proof (cases "i < length (open_txs s)")
    case True
    then have ok: "tx_ok (published_now s) (open_txs s ! i)" using assms by (simp add: state_inv_def)
    show ?thesis
    proof (cases rule: commit_tx_cases [of "published_now s" "open_txs s ! i"])
      case (refused e)
      then show ?thesis using assms True CommitTx by simp
    next
      case (done_ m)
      then have "prepared_ok (open_txs s ! i) m" using ok by (simp add: tx_ok_def)
      then have "revision (identity (published_now s)) < revision (identity m)"
        using done_(3) by (simp add: prepared_ok_def)
      then have all: "\<forall>t \<in> set (open_txs s). tx_ok m t"
        using assms tx_ok_weaken unfolding state_inv_def by blast
      then have "tx_ok m ((open_txs s ! i)\<lparr>tx_closed := True\<rparr>)" using True by simp
      then have "\<forall>t \<in> set ((open_txs s)[i := (open_txs s ! i)\<lparr>tx_closed := True\<rparr>]). tx_ok m t"
        by (rule tx_ok_updateI [OF all])
      then show ?thesis using done_(1) True CommitTx by (simp add: state_inv_def)
    qed
  qed (use assms CommitTx in simp)
next
  case (AbortTx i)
  show ?thesis
  proof (cases "i < length (open_txs s)")
    case True
    then have "tx_ok (published_now s) (open_txs s ! i)" using assms by (simp add: state_inv_def)
    then have "tx_ok (published_now s) (abort_tx (open_txs s ! i))" by (simp add: abort_tx_def tx_ok_def)
    then have "\<forall>t \<in> set ((open_txs s)[i := abort_tx (open_txs s ! i)]). tx_ok (published_now s) t"
      using assms unfolding state_inv_def by (intro tx_ok_updateI)
    then show ?thesis using True AbortTx by (simp add: state_inv_def)
  qed (use assms AbortTx in simp)
qed

interpretation request_states: stateful_component "\<lambda>s. \<exists>m. s = opened_on m" state_step state_inv
proof unfold_locales
  show "state_inv s" if "\<exists>m. s = opened_on m" for s :: "'v request_state"
    using that by (auto simp: opened_on_def state_inv_def)
qed (rule state_step_inv)

text \<open>A transaction of an older revision never commits.\<close>

lemma stale_commit_fails:
  "revision (identity (begun_on t)) < revision (identity m) \<Longrightarrow> \<exists>e. commit_tx m t = (Inl e, t)"
  by (cases rule: commit_tx_cases [of m t]) auto

text \<open>
  C33: The published state of a request changes only by a commit of a transaction begun on
  exactly that state, to its prepared successor with the next revision; a state that is not
  exact comes from a qualified compaction, and no other open transaction can commit any more.
\<close>

theorem commits_lose_no_update:
  assumes "reachable (\<lambda>s. \<exists>m. s = opened_on m) state_step s"
    and "published_now (snd (state_step c s)) \<noteq> published_now s"
  shows "\<exists>i t m. c = CommitTx i \<and> i < length (open_txs s) \<and> t = open_txs s ! i \<and> prepared t = Some m
     \<and> published_now (snd (state_step c s)) = m
     \<and> begun_on t = published_now s
     \<and> request_id (identity m) = request_id (identity (published_now s))
     \<and> revision (identity m) = revision (identity (published_now s)) + 1
     \<and> (manifest_fidelity m \<noteq> EXACT \<longrightarrow> (\<exists>f. operation t = COMPACT \<and> with_profile t = Some f \<and> COMPACTION \<in> profile_capabilities f
          \<and> FIDELITY_RANK (manifest_fidelity m) \<le> FIDELITY_RANK (profile_fidelity f)))
     \<and> (\<forall>u \<in> set (open_txs (snd (state_step c s))). \<exists>e. commit_tx m u = (Inl e, u))"
proof -
  have inv: "\<forall>t \<in> set (open_txs s). tx_ok (published_now s) t"
    using request_states.inv_reachable [OF assms(1)] by (simp add: state_inv_def)
  obtain i where c: "c = CommitTx i" "i < length (open_txs s)"
    using assms(2) by (cases c) (auto split: if_splits prod.splits)
  let ?t = "open_txs s ! i"
  have ok: "tx_ok (published_now s) ?t" using inv c(2) by simp
  show ?thesis
  proof (cases rule: commit_tx_cases [of "published_now s" ?t])
    case (refused e)
    then show ?thesis using assms(2) c by simp
  next
    case (done_ m)
    then have base: "begun_on ?t = published_now s" and m: "prepared_ok ?t m" using ok by (auto simp: tx_ok_def)
    have step: "snd (state_step c s) = s\<lparr>published_now := m, open_txs := (open_txs s)[i := ?t\<lparr>tx_closed := True\<rparr>]\<rparr>"
      using c done_(1) by simp
    have old: "revision (identity (begun_on u)) < revision (identity m)" if "u \<in> set (open_txs s)" for u
    proof -
      have "revision (identity (begun_on u)) \<le> revision (identity (published_now s))" using inv that by (auto simp: tx_ok_def)
      then show ?thesis using m base by (simp add: prepared_ok_def)
    qed
    have "\<exists>e. commit_tx m u = (Inl e, u)" if u: "u \<in> set ((open_txs s)[i := ?t\<lparr>tx_closed := True\<rparr>])" for u
    proof -
      have "u \<in> set (open_txs s) \<or> u = ?t\<lparr>tx_closed := True\<rparr>" using set_update_subset_insert u by fast
      then have "revision (identity (begun_on u)) < revision (identity m)" using old c(2) by auto
      then show ?thesis by (rule stale_commit_fails)
    qed
    then show ?thesis
      using c done_(2) base m unfolding step prepared_ok_def by (intro exI [of _ i] exI [of _ ?t] exI [of _ m]) simp
  qed
qed

text \<open>An approximate state can only be appended to by publishing it as exact: \<open>prepare\<close> looks at the
  fidelity asked for and never at that of the state it extends.\<close>

lemma append_relabels_approximate_state:
  assumes "operation t \<noteq> COMPACT" and "prepare_tx ps fid t = (Inr m, t')"
  shows "manifest_fidelity m = EXACT"
  using assms by (cases rule: prepare_tx_cases [of ps fid t]) (auto simp: prepared_ok_def)

text \<open>Two transactions begun on revision 0; the second one to commit is refused.\<close>

definition demo_manifest :: "int state_manifest" where
  "demo_manifest = \<lparr>identity = \<lparr>request_id = ''r'', revision = 0\<rparr>, planes = (\<lambda>_. None), manifest_fidelity = EXACT\<rparr>"

definition demo_race :: "int request_state" where
  "demo_race = run_calls state_step [BeginTx APPEND None, BeginTx FORK None, PrepareTx 0 [ATTENTION_KV \<mapsto> 7] EXACT, PrepareTx 1 (\<lambda>_. None) EXACT]
     (opened_on demo_manifest)"

theorem commits_lose_no_update_witness:
  "published_now (snd (state_step (CommitTx 0) demo_race)) \<noteq> published_now demo_race
     \<and> revision (identity (published_now (snd (state_step (CommitTx 0) demo_race)))) = 1
     \<and> list_all (\<lambda>u. \<not> succeeds (commit_tx (published_now (snd (state_step (CommitTx 0) demo_race))) u))
          (open_txs (snd (state_step (CommitTx 0) demo_race)))"
proof -
  let ?s = "snd (state_step (CommitTx 0) demo_race)"
  have "reachable (\<lambda>s. \<exists>m. s = opened_on m) state_step demo_race"
    unfolding demo_race_def by (intro reachable_run_calls reachable_init) blast
  moreover have revs: "revision (identity (published_now ?s)) = 1" "revision (identity (published_now demo_race)) = 0" by code_simp+
  then have differ: "published_now ?s \<noteq> published_now demo_race" by auto
  ultimately obtain m where "published_now ?s = m" "\<forall>u \<in> set (open_txs ?s). \<exists>e. commit_tx m u = (Inl e, u)"
    using commits_lose_no_update [of demo_race "CommitTx 0"] by blast
  then have "\<forall>u \<in> set (open_txs ?s). \<not> succeeds (commit_tx (published_now ?s) u)" by (metis succeeds_simps(2))
  then show ?thesis using revs(1) differ unfolding list_all_iff by blast
qed

section \<open>Leases of the cache\<close>

definition fresh_cache :: "('k, 'v) lease_world" where
  "fresh_cache = \<lparr>cache_of = new_cache_owner, leases_out = []\<rparr>"

text \<open>The open leases on one entry.\<close>

definition holds_entry :: "'k \<Rightarrow> nat \<Rightarrow> ('k, 'v) cache_lease \<Rightarrow> bool" where
  "holds_entry k oid l \<longleftrightarrow> \<not> released l \<and> lease_key l = k \<and> lease_entry l = oid"

definition open_on :: "'k \<Rightarrow> nat \<Rightarrow> ('k, 'v) cache_lease list \<Rightarrow> nat" where
  "open_on k oid ls = length (filter (holds_entry k oid) ls)"

definition entry_ok :: "('k, 'v) cache_owner \<Rightarrow> ('k, 'v) cache_lease list \<Rightarrow> 'k \<Rightarrow> 'v cache_entry \<Rightarrow> bool" where
  "entry_ok c ls k e \<longleftrightarrow> entry_oid e < next_oid c \<and> entry_pins e = int (open_on k (entry_oid e) ls) \<and> (invalidated e \<longrightarrow> 0 < entry_pins e)"

definition lease_ok :: "('k, 'v) cache_owner \<Rightarrow> ('k, 'v) cache_lease \<Rightarrow> bool" where
  "lease_ok c l \<longleftrightarrow> lease_entry l < next_oid c \<and> (released l
     \<or> (\<exists>e. map_of (entries c) (lease_key l) = Some e \<and> entry_oid e = lease_entry l \<and> entry_value e = lease_value l))"

definition lease_inv :: "('k, 'v) lease_world \<Rightarrow> bool" where
  "lease_inv w \<longleftrightarrow> distinct (map fst (entries (cache_of w)))
     \<and> (\<forall>k e. map_of (entries (cache_of w)) k = Some e \<longrightarrow> entry_ok (cache_of w) (leases_out w) k e)
     \<and> (\<forall>l \<in> set (leases_out w). lease_ok (cache_of w) l)"

lemma lease_invD:
  assumes "lease_inv w"
  shows "map_of (entries (cache_of w)) k = Some e \<Longrightarrow> entry_ok (cache_of w) (leases_out w) k e"
    and "l \<in> set (leases_out w) \<Longrightarrow> lease_ok (cache_of w) l"
    and "distinct (map fst (entries (cache_of w)))"
  using assms by (auto simp: lease_inv_def)

lemma lease_invI:
  assumes "distinct (map fst (entries (cache_of w)))"
    and "\<And>k e. map_of (entries (cache_of w)) k = Some e \<Longrightarrow> entry_ok (cache_of w) (leases_out w) k e"
    and "\<And>l. l \<in> set (leases_out w) \<Longrightarrow> lease_ok (cache_of w) l"
  shows "lease_inv w"
  using assms by (auto simp: lease_inv_def)

lemma open_on_append [simp]: "open_on k oid (ls @ [l]) = open_on k oid ls + (if holds_entry k oid l then 1 else 0)"
  by (simp add: open_on_def)

lemma open_on_update:
  "i < length ls \<Longrightarrow> open_on k oid (ls[i := l]) + (if holds_entry k oid (ls ! i) then 1 else 0)
     = open_on k oid ls + (if holds_entry k oid l then 1 else 0)"
  unfolding open_on_def by (rule filter_update_count)

lemma open_on_pos: "l \<in> set ls \<Longrightarrow> holds_entry k oid l \<Longrightarrow> 0 < open_on k oid ls"
  unfolding open_on_def by (auto simp: filter_empty_conv)

lemma open_on_none: "(\<And>l. l \<in> set ls \<Longrightarrow> \<not> holds_entry k oid l) \<Longrightarrow> open_on k oid ls = 0"
  unfolding open_on_def by simp

text \<open>An open lease pins the entry it was taken on.\<close>

lemma open_lease_entry:
  assumes "lease_inv w" and "l \<in> set (leases_out w)" and "\<not> released l"
  obtains e where "map_of (entries (cache_of w)) (lease_key l) = Some e" and "entry_oid e = lease_entry l"
    and "entry_value e = lease_value l" and "0 < entry_pins e"
proof -
  obtain e where e: "map_of (entries (cache_of w)) (lease_key l) = Some e" "entry_oid e = lease_entry l" "entry_value e = lease_value l"
    using lease_invD(2) [OF assms(1,2)] assms(3) by (auto simp: lease_ok_def)
  then have "entry_ok (cache_of w) (leases_out w) (lease_key l) e" using lease_invD(1) [OF assms(1)] by blast
  then have "0 < entry_pins e"
    using open_on_pos [OF assms(2)] e(2) assms(3) by (simp add: entry_ok_def holds_entry_def)
  then show ?thesis using that e by blast
qed

text \<open>A call keeps the leases when the entries they pin keep their identity, value and place.\<close>

definition keeps_entries :: "('k, 'v) cache_owner \<Rightarrow> ('k, 'v) cache_owner \<Rightarrow> ('k \<Rightarrow> nat \<Rightarrow> bool) \<Rightarrow> bool" where
  "keeps_entries c c' needed \<longleftrightarrow> next_oid c \<le> next_oid c' \<and> (\<forall>k e. map_of (entries c) k = Some e \<and> needed k (entry_oid e)
     \<longrightarrow> (\<exists>e'. map_of (entries c') k = Some e' \<and> entry_oid e' = entry_oid e \<and> entry_value e' = entry_value e))"

lemma lease_ok_keeps:
  "lease_ok c l \<Longrightarrow> keeps_entries c c' needed \<Longrightarrow> (\<not> released l \<Longrightarrow> needed (lease_key l) (lease_entry l)) \<Longrightarrow> lease_ok c' l"
  unfolding lease_ok_def keeps_entries_def by (metis (no_types, lifting) order_less_le_trans)

lemma put_lease_inv:
  assumes "lease_inv w"
  shows "lease_inv (snd (lease_step (PutEntry k v) w))"
proof (cases "put_entry k v (cache_of w)")
  case (Pair r c)
  show ?thesis
  proof (cases r)
    case (Inl e)
    then have "c = cache_of w" using Pair by (auto simp: put_entry_def split: if_splits)
    then show ?thesis using assms Pair by simp
  next
    case (Inr u)
    let ?new = "\<lparr>entry_oid = next_oid (cache_of w), entry_value = v, entry_pins = 0, invalidated = False\<rparr>"
    have free_: "case map_of (entries (cache_of w)) k of None \<Rightarrow> True | Some e \<Rightarrow> entry_pins e = 0"
      and c: "c = \<lparr>entries = AList.update k ?new (entries (cache_of w)), next_oid = next_oid (cache_of w) + 1\<rparr>"
      using Pair Inr by (auto simp: put_entry_def split: if_splits option.splits)
    have "open_on k (next_oid (cache_of w)) (leases_out w) = 0"
      using lease_invD(2) [OF assms] by (intro open_on_none) (fastforce simp: lease_ok_def holds_entry_def)
    moreover have "keeps_entries (cache_of w) c (\<lambda>k' oid. k' \<noteq> k)" by (auto simp: keeps_entries_def c update_conv')
    then have "lease_ok c l" if "l \<in> set (leases_out w)" for l
    proof (rule lease_ok_keeps [OF lease_invD(2) [OF assms that]])
      assume "\<not> released l"
      then show "lease_key l \<noteq> k" using open_lease_entry [OF assms that] free_ by (force split: option.splits)
    qed
    moreover have "entry_ok c (leases_out w) k' e" if "map_of (entries c) k' = Some e" for k' e
    proof (cases "k' = k")
      case False
      then have "map_of (entries (cache_of w)) k' = Some e" using that by (simp add: c update_conv')
      then show ?thesis using lease_invD(1) [OF assms, of k' e] by (auto simp: entry_ok_def c)
    qed (use that calculation(1) in \<open>auto simp: entry_ok_def c update_conv'\<close>)
    moreover have "distinct (map fst (entries c))" using lease_invD(3) [OF assms] by (simp add: c distinct_update)
    ultimately show ?thesis using Pair by (intro lease_invI) simp_all
  qed
qed

lemma acquire_lease_inv:
  assumes "lease_inv w"
  shows "lease_inv (snd (lease_step (AcquireEntry k) w))"
proof (cases "\<exists>e. map_of (entries (cache_of w)) k = Some e \<and> \<not> invalidated e")
  case False
  then show ?thesis using assms by (auto simp: acquire_entry_def split: option.splits)
next
  case True
  then obtain e where e: "map_of (entries (cache_of w)) k = Some e" "\<not> invalidated e" by blast
  let ?c = "(cache_of w)\<lparr>entries := AList.update k (e\<lparr>entry_pins := entry_pins e + 1\<rparr>) (entries (cache_of w))\<rparr>"
  have "keeps_entries (cache_of w) ?c (\<lambda>_ _. True)" using e by (auto simp: keeps_entries_def update_conv')
  then have old: "lease_ok ?c l" if "l \<in> set (leases_out w)" for l
    using lease_ok_keeps lease_invD(2) [OF assms that] by blast
  let ?l = "\<lparr>lease_key = k, lease_entry = entry_oid e, lease_value = entry_value e, released = False\<rparr>"
  have ok: "entry_ok (cache_of w) (leases_out w) k e" by (rule lease_invD(1) [OF assms e(1)])
  have step: "snd (lease_step (AcquireEntry k) w) = w\<lparr>cache_of := ?c, leases_out := leases_out w @ [?l]\<rparr>"
    using e by (simp add: acquire_entry_def)
  show ?thesis
    unfolding step
  proof (rule lease_invI)
    show "distinct (map fst (entries (cache_of (w\<lparr>cache_of := ?c, leases_out := leases_out w @ [?l]\<rparr>))))"
      using lease_invD(3) [OF assms] by (simp add: distinct_update)
    show "lease_ok (cache_of (w\<lparr>cache_of := ?c, leases_out := leases_out w @ [?l]\<rparr>)) l"
      if "l \<in> set (leases_out (w\<lparr>cache_of := ?c, leases_out := leases_out w @ [?l]\<rparr>))" for l
    proof -
      have "lease_ok ?c ?l" using ok by (simp add: lease_ok_def entry_ok_def update_conv')
      then show ?thesis using that old by auto
    qed
    show "entry_ok (cache_of (w\<lparr>cache_of := ?c, leases_out := leases_out w @ [?l]\<rparr>)) (leases_out (w\<lparr>cache_of := ?c, leases_out := leases_out w @ [?l]\<rparr>)) k' e'"
      if "map_of (entries (cache_of (w\<lparr>cache_of := ?c, leases_out := leases_out w @ [?l]\<rparr>))) k' = Some e'" for k' e'
    proof (cases "k' = k")
      case True
      then show ?thesis using that ok e(2) by (auto simp: entry_ok_def holds_entry_def update_conv')
    next
      case False
      then have "map_of (entries (cache_of w)) k' = Some e'" using that by (simp add: update_conv')
      from lease_invD(1) [OF assms this] False show ?thesis by (auto simp: entry_ok_def holds_entry_def)
    qed
  qed
qed

lemma invalidate_lease_inv:
  assumes "lease_inv w"
  shows "lease_inv (snd (lease_step (InvalidateEntry k) w))"
proof (cases "map_of (entries (cache_of w)) k")
  case None
  then show ?thesis using assms by (simp add: invalidate_entry_def)
next
  case (Some e)
  let ?c = "snd (invalidate_entry k (cache_of w))"
  have ok: "entry_ok (cache_of w) (leases_out w) k e" using lease_invD(1) [OF assms] Some by blast
  have "keeps_entries (cache_of w) ?c (\<lambda>k' _. k' \<noteq> k \<or> entry_pins e \<noteq> 0)"
    using Some by (auto simp: keeps_entries_def invalidate_entry_def update_conv' delete_conv')
  then have "lease_ok ?c l" if "l \<in> set (leases_out w)" for l
  proof (rule lease_ok_keeps [OF lease_invD(2) [OF assms that]])
    assume "\<not> released l"
    then show "lease_key l \<noteq> k \<or> entry_pins e \<noteq> 0" using open_lease_entry [OF assms that] Some by force
  qed
  moreover have "entry_ok ?c (leases_out w) k' e'" if "map_of (entries ?c) k' = Some e'" for k' e'
  proof (cases "k' = k")
    case True
    then show ?thesis using that ok Some by (auto simp: invalidate_entry_def entry_ok_def update_conv' delete_conv' split: if_splits)
  next
    case False
    then have "map_of (entries (cache_of w)) k' = Some e'"
      using that Some by (simp add: invalidate_entry_def update_conv' delete_conv' split: if_splits)
    from lease_invD(1) [OF assms this] show ?thesis using Some by (auto simp: entry_ok_def invalidate_entry_def)
  qed
  moreover have "distinct (map fst (entries ?c))"
    using lease_invD(3) [OF assms] Some by (simp add: invalidate_entry_def distinct_update distinct_delete)
  moreover have "snd (lease_step (InvalidateEntry k) w) = w\<lparr>cache_of := ?c\<rparr>" by (simp split: prod.splits)
  ultimately show ?thesis by (intro lease_invI) simp_all
qed

lemma release_keeps:
  assumes "lease_inv w" and "l \<in> set (leases_out w)" and "\<not> released l"
  obtains e where "map_of (entries (cache_of w)) (lease_key l) = Some e" and "entry_oid e = lease_entry l"
    and "entry_ok (cache_of w) (leases_out w) (lease_key l) e" and "0 < entry_pins e"
    and "release_entry (lease_key l) (lease_entry l) (cache_of w) =
      (if entry_pins e = 1 \<and> invalidated e then (cache_of w)\<lparr>entries := AList.delete (lease_key l) (entries (cache_of w))\<rparr>
       else (cache_of w)\<lparr>entries := AList.update (lease_key l) (e\<lparr>entry_pins := entry_pins e - 1\<rparr>) (entries (cache_of w))\<rparr>)"
proof -
  obtain e where e: "map_of (entries (cache_of w)) (lease_key l) = Some e" "entry_oid e = lease_entry l" "0 < entry_pins e"
    using open_lease_entry [OF assms] by blast
  then show ?thesis
    using that [OF e(1,2) lease_invD(1) [OF assms(1) e(1)] e(3)] by (simp add: release_entry_def)
qed

lemma close_lease_inv:
  assumes inv: "lease_inv w"
  shows "lease_inv (snd (lease_step (CloseLease i) w))"
proof (cases "i < length (leases_out w) \<and> \<not> released (leases_out w ! i)")
  case False
  then show ?thesis using inv by (auto simp: close_lease_def)
next
  case True
  define l where "l = leases_out w ! i"
  have l: "l \<in> set (leases_out w)" "\<not> released l" "i < length (leases_out w)" using True by (auto simp: l_def)
  obtain e where e: "map_of (entries (cache_of w)) (lease_key l) = Some e" "entry_oid e = lease_entry l"
      "entry_ok (cache_of w) (leases_out w) (lease_key l) e" "0 < entry_pins e"
    and rel: "release_entry (lease_key l) (lease_entry l) (cache_of w) =
      (if entry_pins e = 1 \<and> invalidated e then (cache_of w)\<lparr>entries := AList.delete (lease_key l) (entries (cache_of w))\<rparr>
       else (cache_of w)\<lparr>entries := AList.update (lease_key l) (e\<lparr>entry_pins := entry_pins e - 1\<rparr>) (entries (cache_of w))\<rparr>)"
    by (rule release_keeps [OF inv l(1,2)])
  let ?c = "release_entry (lease_key l) (lease_entry l) (cache_of w)" and ?ls = "(leases_out w)[i := l\<lparr>released := True\<rparr>]"
  have step: "cache_of (snd (lease_step (CloseLease i) w)) = ?c" "leases_out (snd (lease_step (CloseLease i) w)) = ?ls"
    using l by (simp_all add: close_lease_def l_def)
  have drop_: "open_on k oid ?ls + (if holds_entry k oid l then 1 else 0) = open_on k oid (leases_out w)" for k oid
    using open_on_update [OF l(3), of k oid "l\<lparr>released := True\<rparr>"] by (simp add: holds_entry_def flip: l_def)
  have pos: "0 < open_on (lease_key l) (entry_oid e) ?ls" if "entry_pins e \<noteq> 1"
  proof -
    have "open_on (lease_key l) (entry_oid e) ?ls + 1 = open_on (lease_key l) (entry_oid e) (leases_out w)"
      using drop_ [of "lease_key l" "entry_oid e"] l(2) e(2) by (simp add: holds_entry_def)
    then show ?thesis using e(3,4) that by (simp add: entry_ok_def)
  qed
  show ?thesis
  proof (rule lease_invI; unfold step)
    show "distinct (map fst (entries ?c))"
      using lease_invD(3) [OF inv] by (simp add: rel distinct_update distinct_delete)
    show "entry_ok ?c ?ls k' e'" if "map_of (entries ?c) k' = Some e'" for k' e'
    proof (cases "k' = lease_key l")
      case True
      then have "e' = e\<lparr>entry_pins := entry_pins e - 1\<rparr>" "\<not> (entry_pins e = 1 \<and> invalidated e)"
        using that by (auto simp: rel update_conv' delete_conv' split: if_splits)
      then show ?thesis
        using e(2-4) l(2) True drop_ [of "lease_key l" "entry_oid e"] by (auto simp: entry_ok_def rel holds_entry_def)
    next
      case False
      then have "map_of (entries (cache_of w)) k' = Some e'" using that by (simp add: rel update_conv' delete_conv' split: if_splits)
      from lease_invD(1) [OF inv this] show ?thesis
        using False drop_ [of k' "entry_oid e'"] by (auto simp: entry_ok_def rel holds_entry_def)
    qed
    show "lease_ok ?c x" if "x \<in> set ?ls" for x
    proof -
      have keeps: "keeps_entries (cache_of w) ?c (\<lambda>k oid. k \<noteq> lease_key l \<or> entry_pins e \<noteq> 1)"
        using e(1) by (auto simp: keeps_entries_def rel update_conv' delete_conv')
      have "x = l\<lparr>released := True\<rparr> \<or> x \<in> set (leases_out w)" using that set_update_subset_insert by fastforce
      then show ?thesis
      proof
        assume "x = l\<lparr>released := True\<rparr>"
        then show ?thesis using lease_invD(2) [OF inv l(1)] by (simp add: lease_ok_def rel)
      next
        assume x: "x \<in> set (leases_out w)"
        show ?thesis
        proof (rule lease_ok_keeps [OF lease_invD(2) [OF inv x] keeps])
          assume open_: "\<not> released x"
          show "lease_key x \<noteq> lease_key l \<or> entry_pins e \<noteq> 1"
          proof (rule ccontr)
            assume "\<not> (lease_key x \<noteq> lease_key l \<or> entry_pins e \<noteq> 1)"
            then have same: "lease_key x = lease_key l" "entry_pins e = 1" by auto
            obtain d where "map_of (entries (cache_of w)) (lease_key x) = Some d" "entry_oid d = lease_entry x"
              using open_lease_entry [OF inv x open_] by blast
            then have "holds_entry (lease_key l) (entry_oid e) x" using same(1) e(1) open_ by (simp add: holds_entry_def)
            then have "0 < open_on (lease_key l) (entry_oid e) ?ls" using open_on_pos that by fast
            then show False
              using drop_ [of "lease_key l" "entry_oid e"] e(2,3) l(2) same(2) by (simp add: entry_ok_def holds_entry_def)
          qed
        qed
      qed
    qed
  qed
qed

lemma lease_step_inv: "lease_inv w \<Longrightarrow> lease_inv (snd (lease_step c w))"
  by (cases c) (simp_all only: put_lease_inv acquire_lease_inv invalidate_lease_inv close_lease_inv)

interpretation cache_leases: stateful_component "\<lambda>w. w = fresh_cache" lease_step lease_inv
proof unfold_locales
  show "lease_inv w" if "w = fresh_cache" for w :: "('k, 'v) lease_world"
    using that by (simp add: lease_inv_def fresh_cache_def new_cache_owner_def)
qed (rule lease_step_inv)

section \<open>What the leases guarantee\<close>

text \<open>No call but its own close disturbs the entry of an open lease.\<close>

lemma lease_survives_step:
  assumes "lease_inv w" and "i < length (leases_out w)" and "c \<noteq> CloseLease i"
  shows "i < length (leases_out (snd (lease_step c w))) \<and> leases_out (snd (lease_step c w)) ! i = leases_out w ! i"
proof (cases c)
  case (AcquireEntry k)
  then show ?thesis using assms(2) by (cases "acquire_entry k (cache_of w)"; cases "fst (acquire_entry k (cache_of w))") (auto simp: nth_append)
next
  case (CloseLease j)
  then have "j \<noteq> i" using assms(3) by blast
  then show ?thesis using CloseLease assms(2) by (cases "close_lease (leases_out w ! j, cache_of w)") auto
qed (use assms(2) in \<open>simp_all split: prod.splits\<close>)

lemma pinned_put_fails:
  "map_of (entries c) k = Some e \<Longrightarrow> 0 < entry_pins e
     \<Longrightarrow> put_entry k v c = (Inl (RuntimeError ''cannot replace a leased cache entry''), c)"
  by (simp add: put_entry_def)

lemma leases_survive_run:
  assumes "lease_inv w" and "i < length (leases_out w)" and "CloseLease i \<notin> set cs"
  shows "i < length (leases_out (run_calls lease_step cs w)) \<and> leases_out (run_calls lease_step cs w) ! i = leases_out w ! i"
proof (rule cache_leases.run_keeps [where Q = "\<lambda>v. i < length (leases_out v) \<and> leases_out v ! i = leases_out w ! i", OF assms(1)])
  show "i < length (leases_out (snd (lease_step c v))) \<and> leases_out (snd (lease_step c v)) ! i = leases_out w ! i"
    if "c \<in> set cs" "lease_inv v" "i < length (leases_out v) \<and> leases_out v ! i = leases_out w ! i" for v c
  proof -
    have "c \<noteq> CloseLease i" using that(1) assms(3) by blast
    then show ?thesis using lease_survives_step [OF that(2)] that(3) by simp
  qed
qed (use assms(2) in simp)

text \<open>
  C34: Whatever is put, acquired, invalidated or closed, the entry of an open lease stays under
  its key with its value until that lease is closed, its pins count exactly the open leases on
  it, and nothing can be put in its place.
\<close>

theorem leased_value_stays_until_closed:
  assumes "reachable (\<lambda>w. w = fresh_cache) lease_step w" and "i < length (leases_out w)" and "\<not> released (leases_out w ! i)"
    and "CloseLease i \<notin> set cs"
  shows "\<exists>e. map_of (entries (cache_of (run_calls lease_step cs w))) (lease_key (leases_out w ! i)) = Some e
     \<and> entry_oid e = lease_entry (leases_out w ! i) \<and> entry_value e = lease_value (leases_out w ! i)
     \<and> entry_pins e = int (open_on (lease_key (leases_out w ! i)) (entry_oid e) (leases_out (run_calls lease_step cs w)))
     \<and> 0 < entry_pins e
     \<and> (\<forall>v. put_entry (lease_key (leases_out w ! i)) v (cache_of (run_calls lease_step cs w))
          = (Inl (RuntimeError ''cannot replace a leased cache entry''), cache_of (run_calls lease_step cs w)))"
proof -
  let ?w = "run_calls lease_step cs w" and ?l = "leases_out w ! i"
  have inv: "lease_inv w" by (rule cache_leases.inv_reachable [OF assms(1)])
  then have inv': "lease_inv ?w" by (rule cache_leases.inv_run)
  have "i < length (leases_out ?w) \<and> leases_out ?w ! i = ?l" by (rule leases_survive_run [OF inv assms(2,4)])
  then have l: "?l \<in> set (leases_out ?w)" using nth_mem by (metis (no_types))
  obtain e where "map_of (entries (cache_of ?w)) (lease_key ?l) = Some e" "entry_oid e = lease_entry ?l"
      "entry_value e = lease_value ?l" "0 < entry_pins e"
    by (rule open_lease_entry [OF inv' l assms(3)])
  moreover from this(1) have "entry_pins e = int (open_on (lease_key ?l) (entry_oid e) (leases_out ?w))"
    using lease_invD(1) [OF inv'] by (simp add: entry_ok_def)
  ultimately show ?thesis by (intro exI [of _ e] conjI allI pinned_put_fails [of _ _ e])
qed

text \<open>An invalidated key stays unavailable until something is put under it.\<close>

definition unavailable :: "'k \<Rightarrow> ('k, 'v) lease_world \<Rightarrow> bool" where
  "unavailable k w \<longleftrightarrow> (case map_of (entries (cache_of w)) k of None \<Rightarrow> True | Some e \<Rightarrow> invalidated e)"

lemma unavailable_acquire: "unavailable k w \<Longrightarrow> acquire_entry k (cache_of w) = (Inl CacheMiss, cache_of w)"
  by (auto simp: unavailable_def acquire_entry_def split: option.splits)

lemma invalidate_unavailable: "unavailable k (snd (lease_step (InvalidateEntry k) w))"
  by (auto simp: unavailable_def invalidate_entry_def update_conv' delete_conv' split: option.splits)

lemma unavailable_step:
  assumes "unavailable k w" and "\<And>v. c \<noteq> PutEntry k v"
  shows "unavailable k (snd (lease_step c w))"
proof (cases c)
  case (PutEntry k' v)
  then show ?thesis using assms by (auto simp: unavailable_def put_entry_def update_conv')
next
  case (AcquireEntry k')
  then show ?thesis using assms(1) by (auto simp: unavailable_def acquire_entry_def update_conv' split: option.splits)
next
  case (CloseLease i)
  then show ?thesis
    using assms(1) by (auto simp: unavailable_def close_lease_def release_entry_def Let_def update_conv' delete_conv' split: option.splits)
next
  case (InvalidateEntry k')
  then show ?thesis
    using assms(1) by (auto simp: unavailable_def invalidate_entry_def update_conv' delete_conv' split: option.splits)
qed

text \<open>
  After an invalidation the key cannot be acquired until something is put under it, and the
  entry is gone exactly when the last lease on it is closed.
\<close>

theorem invalidation_outlives_the_leases:
  assumes "reachable (\<lambda>w. w = fresh_cache) lease_step w" and "\<forall>v. PutEntry k v \<notin> set cs"
  shows "acquire_entry k (cache_of (run_calls lease_step (InvalidateEntry k # cs) w))
       = (Inl CacheMiss, cache_of (run_calls lease_step (InvalidateEntry k # cs) w))
     \<and> (map_of (entries (cache_of (run_calls lease_step (InvalidateEntry k # cs) w))) k = None
        \<longleftrightarrow> (\<forall>l \<in> set (leases_out (run_calls lease_step (InvalidateEntry k # cs) w)). released l \<or> lease_key l \<noteq> k))"
proof -
  let ?w = "run_calls lease_step (InvalidateEntry k # cs) w"
  have inv: "lease_inv w" by (rule cache_leases.inv_reachable [OF assms(1)])
  then have inv': "lease_inv ?w" by (rule cache_leases.inv_run)
  have "unavailable k (run_calls lease_step cs (snd (lease_step (InvalidateEntry k) w)))"
  proof (rule cache_leases.run_keeps [where Q = "unavailable k", OF lease_step_inv [OF inv] invalidate_unavailable])
    show "unavailable k (snd (lease_step c v))" if "c \<in> set cs" "unavailable k v" for c v
      by (rule unavailable_step [OF that(2)]) (use that(1) assms(2) in blast)
  qed
  then have gone: "unavailable k ?w" by simp
  have "map_of (entries (cache_of ?w)) k = None" if "\<forall>l \<in> set (leases_out ?w). released l \<or> lease_key l \<noteq> k"
  proof (rule ccontr)
    assume "map_of (entries (cache_of ?w)) k \<noteq> None"
    then obtain e where e: "map_of (entries (cache_of ?w)) k = Some e" by blast
    have "open_on k (entry_oid e) (leases_out ?w) = 0" using that by (intro open_on_none) (auto simp: holds_entry_def)
    moreover have "invalidated e" using gone e by (simp add: unavailable_def)
    ultimately show False using lease_invD(1) [OF inv' e] by (auto simp: entry_ok_def)
  qed
  moreover have "released l \<or> lease_key l \<noteq> k"
    if "map_of (entries (cache_of ?w)) k = None" "l \<in> set (leases_out ?w)" for l
    using open_lease_entry [OF inv' that(2)] that(1) by fastforce
  ultimately show ?thesis using unavailable_acquire [OF gone] by blast
qed

lemma live_entries_counts_available_keys:
  assumes "reachable (\<lambda>w. w = fresh_cache) lease_step w"
  shows "live_entries (cache_of w) = card {k. succeeds (acquire_entry k (cache_of w))}"
proof -
  let ?es = "entries (cache_of w)" and ?P = "\<lambda>x. \<not> invalidated (snd x)"
  have d: "distinct (map fst ?es)" using lease_invD(3) [OF cache_leases.inv_reachable [OF assms]] .
  have "{k. succeeds (acquire_entry k (cache_of w))} = fst ` set (filter ?P ?es)"
  proof (rule set_eqI)
    fix k
    have "succeeds (acquire_entry k (cache_of w)) \<longleftrightarrow> (\<exists>e. map_of ?es k = Some e \<and> \<not> invalidated e)"
      by (auto simp: acquire_entry_def split: option.splits)
    then show "k \<in> {k. succeeds (acquire_entry k (cache_of w))} \<longleftrightarrow> k \<in> fst ` set (filter ?P ?es)"
      using map_of_eq_Some_iff [OF d] by (force simp: image_iff)
  qed
  moreover have "distinct (map fst (filter ?P ?es))" by (rule distinct_map_filter [OF d])
  ultimately show ?thesis
    unfolding live_entries_def by (metis distinct_card length_map set_map)
qed

text \<open>Two leases on one entry, invalidated while both are open.\<close>

definition demo_cache :: "(nat, int) lease_world" where
  "demo_cache = run_calls lease_step [PutEntry 5 70, AcquireEntry 5, AcquireEntry 5] fresh_cache"

lemma demo_cache_reachable: "reachable (\<lambda>w. w = fresh_cache) lease_step demo_cache"
  unfolding demo_cache_def by (intro reachable_run_calls reachable_init) simp

theorem leased_value_stays_until_closed_witness:
  "\<exists>e. map_of (entries (cache_of (run_calls lease_step [InvalidateEntry 5, CloseLease 1, PutEntry 5 71] demo_cache))) 5 = Some e
     \<and> entry_value e = 70 \<and> entry_pins e = 1"
proof -
  have "0 < length (leases_out demo_cache)" "\<not> released (leases_out demo_cache ! 0)"
    "lease_key (leases_out demo_cache ! 0) = 5" "lease_value (leases_out demo_cache ! 0) = 70" "lease_entry (leases_out demo_cache ! 0) = 0"
    "open_on 5 0 (leases_out (run_calls lease_step [InvalidateEntry 5, CloseLease 1, PutEntry 5 71] demo_cache)) = 1"
    by code_simp+
  then show ?thesis
    using leased_value_stays_until_closed [OF demo_cache_reachable, of 0 "[InvalidateEntry 5, CloseLease 1, PutEntry 5 71]"] by force
qed

theorem invalidation_outlives_the_leases_witness:
  "map_of (entries (cache_of (run_calls lease_step [InvalidateEntry 5, AcquireEntry 5, CloseLease 1] demo_cache))) 5 \<noteq> None
     \<and> map_of (entries (cache_of (run_calls lease_step [InvalidateEntry 5, CloseLease 1, CloseLease 0] demo_cache))) 5 = None"
proof -
  have "\<not> (\<forall>l \<in> set (leases_out (run_calls lease_step [InvalidateEntry 5, AcquireEntry 5, CloseLease 1] demo_cache)). released l \<or> lease_key l \<noteq> 5)"
    "\<forall>l \<in> set (leases_out (run_calls lease_step [InvalidateEntry 5, CloseLease 1, CloseLease 0] demo_cache)). released l \<or> lease_key l \<noteq> 5"
    by code_simp+
  then show ?thesis
    using invalidation_outlives_the_leases [OF demo_cache_reachable, of 5 "[AcquireEntry 5, CloseLease 1]"]
      invalidation_outlives_the_leases [OF demo_cache_reachable, of 5 "[CloseLease 1, CloseLease 0]"] by force
qed

end
