(* ===== verification/CachePlanes.thy ===== *)
theory CachePlanes
  imports Prelude "HOL-Library.AList" "HOL-Library.List_Lexorder" "HOL-Library.Char_ord" "HOL-Library.Product_Lexorder"
begin

text \<open>
  The planes of a prompt cache and their manifests (\<^verbatim>\<open>runtime/cache_planes.py\<close>): the values with
  their constructor checks, the independently invalidatable plane owners with their leases, and the
  manifest of layer segments.  Payloads are opaque and of the type parameter \<open>'p\<close>; the SHA-256
  digest of a token list and Python's \<open>str\<close> of a tuple are parameters where a fingerprint uses them.
\<close>

section \<open>Keys, fingerprints and segments\<close>

datatype plane_kind = PROMPT_HOST | TRANSCRIPT_LEDGER | ATTENTION_KV | ATTENTION_RING | QSA_SUMMARY
  | GDN_RECURRENT | MAMBA_RECURRENT | MTP_DRAFT | PLE_HINTS | COMPILED_SCHEDULE

fun plane_value :: "plane_kind \<Rightarrow> string" where
  "plane_value PROMPT_HOST = ''prompt_host''"
| "plane_value TRANSCRIPT_LEDGER = ''transcript_ledger''"
| "plane_value ATTENTION_KV = ''attention_kv''"
| "plane_value ATTENTION_RING = ''attention_ring''"
| "plane_value QSA_SUMMARY = ''qsa_summary''"
| "plane_value GDN_RECURRENT = ''gdn_recurrent''"
| "plane_value MAMBA_RECURRENT = ''mamba_recurrent''"
| "plane_value MTP_DRAFT = ''mtp_draft''"
| "plane_value PLE_HINTS = ''ple_hints''"
| "plane_value COMPILED_SCHEDULE = ''compiled_schedule''"

record segment_key =
  seg_kind :: plane_kind
  seg_layer :: int
  seg_index :: int
  seg_start :: int
  seg_stop :: int
  seg_role :: string

definition check_segment_key :: "segment_key \<Rightarrow> exc + unit" where
  "check_segment_key k = raise_if
     [(seg_layer k < 0 \<or> seg_index k < 0, ValueError ''cache segment indices must be non-negative''),
      (\<not> (0 \<le> seg_start k \<and> seg_start k \<le> seg_stop k), ValueError ''invalid cache segment token span''),
      (seg_role k = [], ValueError ''cache segment role is required'')]"

record plane_fingerprint =
  fp_kind :: plane_kind
  fp_schema :: int
  fp_identity :: "(string \<times> string) list"

definition check_plane_fingerprint :: "plane_fingerprint \<Rightarrow> exc + unit" where
  "check_plane_fingerprint f = raise_if
     [(fp_schema f < 1, ValueError ''cache-plane schema version must be positive''),
      (sort (fp_identity f) \<noteq> fp_identity f, ValueError ''cache-plane identity fields must be sorted'')]"

definition from_fields :: "plane_kind \<Rightarrow> int \<Rightarrow> (string \<times> string) list \<Rightarrow> exc + plane_fingerprint" where
  "from_fields kind schema items =
     (let f = \<lparr>fp_kind = kind, fp_schema = schema, fp_identity = sort items\<rparr>
      in bind_sum (check_plane_fingerprint f) (\<lambda>_. Inr f))"

record layer_segment =
  segment_key_of :: segment_key
  segment_fp :: plane_fingerprint
  logical_bytes :: int
  needed :: bool

definition check_layer_segment :: "layer_segment \<Rightarrow> exc + unit" where
  "check_layer_segment s = raise_if
     [(fp_kind (segment_fp s) \<noteq> seg_kind (segment_key_of s), ValueError ''cache segment kind and fingerprint disagree''),
      (logical_bytes s < 0, ValueError ''cache segment bytes must be non-negative'')]"

section \<open>Host planes\<close>

record prefix_span =
  span_name :: string
  span_token_start :: int
  span_token_stop :: int
  span_char_start :: int
  span_char_stop :: int

definition check_prefix_span :: "prefix_span \<Rightarrow> exc + unit" where
  "check_prefix_span s = raise_if
     [(span_name s = [], ValueError ''prompt prefix span needs a name''),
      (\<not> (0 \<le> span_token_start s \<and> span_token_start s \<le> span_token_stop s), ValueError ''invalid prompt token span''),
      (\<not> (0 \<le> span_char_start s \<and> span_char_start s \<le> span_char_stop s), ValueError ''invalid prompt character span'')]"

record key_provenance =
  prov_model :: string
  prov_revision :: string
  prov_adapter :: string
  prov_semantic :: string
  prov_layout :: string

record prompt_host =
  input_fingerprint :: string
  rendered_prompt :: string
  host_tokens :: "int list"
  prefix_spans :: "prefix_span list"
  token_offsets :: "int list"
  tokenizer_identity :: string
  tokenizer_version :: string
  template_identity :: string
  template_version :: string
  provenance :: key_provenance
  initial_state :: string

fun check_prefix_spans :: "prompt_host \<Rightarrow> prefix_span list \<Rightarrow> exc + unit" where
  "check_prefix_spans h [] = Inr ()"
| "check_prefix_spans h (s # ss) = bind_sum (raise_if
     [(span_token_stop s > int (length (host_tokens h)), ValueError ''prompt prefix span exceeds token count''),
      (span_char_stop s > int (length (rendered_prompt h)), ValueError ''prompt prefix span exceeds rendered prompt'')])
     (\<lambda>_. check_prefix_spans h ss)"

definition check_prompt_host :: "prompt_host \<Rightarrow> exc + unit" where
  "check_prompt_host h = bind_sum (raise_if
     [(input_fingerprint h = [], ValueError ''prompt input fingerprint is required''),
      (initial_state h = [], ValueError ''prompt initial state must be a non-empty string''),
      (tokenizer_identity h = [] \<or> template_identity h = [], ValueError ''tokenizer and chat-template identities are required''),
      (length (token_offsets h) \<notin> {0, length (host_tokens h)}, ValueError ''token offsets must be empty or match token IDs''),
      (\<exists>x \<in> set (token_offsets h). x < 0, ValueError ''prompt token offsets must be non-negative''),
      (sort (token_offsets h) \<noteq> token_offsets h, ValueError ''prompt token offsets must be monotone''),
      (token_offsets h \<noteq> [] \<and> List.last (token_offsets h) > int (length (rendered_prompt h)),
         ValueError ''prompt token offset exceeds rendered prompt''),
      (\<exists>x \<in> set (host_tokens h). x < 0, ValueError ''prompt token IDs must be non-negative integers'')])
     (\<lambda>_. check_prefix_spans h (prefix_spans h))"

definition host_fingerprint :: "prompt_host \<Rightarrow> exc + plane_fingerprint" where
  "host_fingerprint h = from_fields PROMPT_HOST 1
     [(''input'', input_fingerprint h), (''tokenizer'', tokenizer_identity h), (''tokenizer_version'', tokenizer_version h),
      (''chat_template'', template_identity h), (''chat_template_version'', template_version h),
      (''model'', prov_model (provenance h)), (''revision'', prov_revision (provenance h)),
      (''adapter'', prov_adapter (provenance h)), (''semantic'', prov_semantic (provenance h))]"

record transcript_segment =
  transcript_id :: string
  transcript_start :: int
  transcript_stop :: int
  transcript_tokens :: "int list"

definition check_transcript_segment :: "transcript_segment \<Rightarrow> exc + unit" where
  "check_transcript_segment s = raise_if
     [(transcript_id s = [], ValueError ''transcript segment needs an identity''),
      (\<not> (0 \<le> transcript_start s \<and> transcript_start s < transcript_stop s), ValueError ''invalid transcript segment token span''),
      (transcript_stop s - transcript_start s \<noteq> int (length (transcript_tokens s)),
         ValueError ''transcript segment span and token count disagree''),
      (\<exists>x \<in> set (transcript_tokens s). x < 0, ValueError ''transcript token IDs must be non-negative integers'')]"

record transcript_ledger =
  ledger_tokenizer :: string
  ledger_tokenizer_version :: string
  ledger_revision :: string
  ledger_segments :: "transcript_segment list"
  compaction_strategy :: string

fun check_ledger_from :: "int \<Rightarrow> string set \<Rightarrow> transcript_segment list \<Rightarrow> exc + unit" where
  "check_ledger_from cursor seen [] = Inr ()"
| "check_ledger_from cursor seen (s # ss) =
     (if transcript_id s \<in> seen then Inl (ValueError ''duplicate transcript segment identity'')
      else if transcript_start s \<noteq> cursor then Inl (ValueError ''transcript segments must be contiguous and ordered'')
      else check_ledger_from (transcript_stop s) (insert (transcript_id s) seen) ss)"

definition check_ledger :: "transcript_ledger \<Rightarrow> exc + unit" where
  "check_ledger l = bind_sum (raise_if
     [(ledger_tokenizer l = [] \<or> ledger_revision l = [], ValueError ''transcript ledger identity and revision are required''),
      (compaction_strategy l \<notin> {''oldest_contiguous'', ''largest_first'', ''lowest_importance''},
         ValueError ''unknown transcript compaction strategy'')])
     (\<lambda>_. check_ledger_from 0 {} (ledger_segments l))"

definition ledger_tokens :: "transcript_ledger \<Rightarrow> int list" where
  "ledger_tokens l = concat (map transcript_tokens (ledger_segments l))"

definition ledger_fingerprint :: "(int list \<Rightarrow> string) \<Rightarrow> ((string \<times> int \<times> int \<times> string) list \<Rightarrow> string) \<Rightarrow> transcript_ledger
    \<Rightarrow> exc + plane_fingerprint" where
  "ledger_fingerprint digest show_manifest l = from_fields TRANSCRIPT_LEDGER 1
     [(''tokenizer'', ledger_tokenizer l), (''tokenizer_version'', ledger_tokenizer_version l), (''revision'', ledger_revision l),
      (''compaction_strategy'', compaction_strategy l),
      (''segments'', show_manifest (map (\<lambda>s. (transcript_id s, transcript_start s, transcript_stop s, digest (transcript_tokens s))) (ledger_segments l)))]"

record ple_hints =
  policy_version :: string
  resident_layers :: "int list"
  backing_identity :: string

definition check_ple_hints :: "ple_hints \<Rightarrow> exc + unit" where
  "check_ple_hints h = raise_if
     [(\<exists>x \<in> set (resident_layers h). x < 0, ValueError ''resident layer ids must be nonnegative integers''),
      (card (set (resident_layers h)) \<noteq> length (resident_layers h), ValueError ''resident layer ids must be unique'')]"

definition compact_slot_by_layer :: "ple_hints \<Rightarrow> int \<Rightarrow> nat option" where
  "compact_slot_by_layer h = map_of (zip (resident_layers h) [0..<length (resident_layers h)])"

record schedule_metadata =
  implementation_digest :: string
  schedule_digest :: string
  runtime_fingerprint :: string
  geometry :: "int list"

section \<open>One plane\<close>

record plane_fallback =
  fallback_kind :: plane_kind
  fallback_reason :: string
  fallback_action :: string

record plane_counters =
  lookups :: int
  hits :: int
  misses :: int
  materializations :: int
  materialized_bytes :: int
  invalidations :: int
  fallbacks :: int
  active_leases :: int

record 'p plane_owner =
  owner_kind :: plane_kind
  owner_fp :: plane_fingerprint
  owner_payload :: "'p option"
  eligible :: bool
  owner_generation :: int
  owner_pins :: int
  invalid_reason :: "string option"
  counters :: plane_counters

definition zero_counters :: plane_counters where
  "zero_counters = \<lparr>lookups = 0, hits = 0, misses = 0, materializations = 0, materialized_bytes = 0, invalidations = 0, fallbacks = 0, active_leases = 0\<rparr>"

definition new_plane_owner :: "plane_kind \<Rightarrow> 'p \<Rightarrow> plane_fingerprint \<Rightarrow> bool \<Rightarrow> string option \<Rightarrow> exc + 'p plane_owner" where
  "new_plane_owner kind payload f ok reason =
     bind_sum (raise_if
       [(fp_kind f \<noteq> kind, ValueError ''cache-plane kind and fingerprint disagree''),
        (\<not> ok \<and> (reason = None \<or> reason = Some []), ValueError ''ineligible cache plane needs a reason'')])
     (\<lambda>_. Inr \<lparr>owner_kind = kind, owner_fp = f, owner_payload = Some payload, eligible = ok, owner_generation = 0, owner_pins = 0,
             invalid_reason = reason, counters = zero_counters\<rparr>)"

record 'p plane_lease =
  leased_kind :: plane_kind
  leased_generation :: int
  leased_fp :: plane_fingerprint
  leased_payload :: "'p option"
  lease_closed :: bool

datatype 'p adoption = Adopted "'p plane_lease" | Fallback plane_fallback

definition fallback_plane :: "string \<Rightarrow> 'p plane_owner \<Rightarrow> 'p adoption \<times> 'p plane_owner" where
  "fallback_plane reason p =
     (Fallback \<lparr>fallback_kind = owner_kind p, fallback_reason = reason, fallback_action = ''rebuild_'' @ plane_value (owner_kind p)\<rparr>,
      p\<lparr>counters := (counters p)\<lparr>misses := misses (counters p) + 1, fallbacks := fallbacks (counters p) + 1\<rparr>\<rparr>)"

definition try_adopt :: "plane_fingerprint \<Rightarrow> 'p plane_owner \<Rightarrow> 'p adoption \<times> 'p plane_owner" where
  "try_adopt expected p =
     (let p = p\<lparr>counters := (counters p)\<lparr>lookups := lookups (counters p) + 1\<rparr>\<rparr>
      in if \<not> eligible p
         then fallback_plane (case invalid_reason p of None \<Rightarrow> ''ineligible'' | Some r \<Rightarrow> if r = [] then ''ineligible'' else r) p
         else if expected \<noteq> owner_fp p then fallback_plane ''fingerprint_mismatch'' p
         else (Adopted \<lparr>leased_kind = owner_kind p, leased_generation = owner_generation p, leased_fp = owner_fp p,
                 leased_payload = owner_payload p, lease_closed = False\<rparr>,
               p\<lparr>owner_pins := owner_pins p + 1,
                 counters := (counters p)\<lparr>hits := hits (counters p) + 1, active_leases := active_leases (counters p) + 1\<rparr>\<rparr>))"

definition invalidate_owner :: "string \<Rightarrow> 'p plane_owner \<Rightarrow> (int, 'p plane_owner) res" where
  "invalidate_owner reason p =
     (if reason = [] then (Inl (ValueError ''cache-plane invalidation needs a reason''), p)
      else let p = (if eligible p
             then (let p = p\<lparr>eligible := False, owner_generation := owner_generation p + 1, invalid_reason := Some reason,
                       counters := (counters p)\<lparr>invalidations := invalidations (counters p) + 1\<rparr>\<rparr>
                   in if owner_pins p = 0 then p\<lparr>owner_payload := None\<rparr> else p)
             else p)
           in (Inr (owner_generation p), p))"

definition record_materialization :: "int \<Rightarrow> 'p plane_owner \<Rightarrow> (unit, 'p plane_owner) res" where
  "record_materialization nbytes p =
     (if nbytes < 0 then (Inl (ValueError ''materialized byte count must be non-negative''), p)
      else (Inr (), p\<lparr>counters := (counters p)\<lparr>materializations := materializations (counters p) + 1,
              materialized_bytes := materialized_bytes (counters p) + nbytes\<rparr>\<rparr>))"

definition release_owner :: "'p plane_owner \<Rightarrow> (unit, 'p plane_owner) res" where
  "release_owner p =
     (if owner_pins p \<le> 0 then (Inl (RuntimeError ''cache-plane lease underflow''), p)
      else let p = p\<lparr>owner_pins := owner_pins p - 1, counters := (counters p)\<lparr>active_leases := active_leases (counters p) - 1\<rparr>\<rparr>
           in (Inr (), if \<not> eligible p \<and> owner_pins p = 0 then p\<lparr>owner_payload := None\<rparr> else p))"

section \<open>The manifest of planes\<close>

type_synonym 'p manifest = "(plane_kind \<times> 'p plane_owner) list"

definition add_plane :: "'p plane_owner \<Rightarrow> 'p manifest \<Rightarrow> (unit, 'p manifest) res" where
  "add_plane p ms =
     (if map_of ms (owner_kind p) \<noteq> None then (Inl (ValueError (''duplicate cache plane: '' @ plane_value (owner_kind p))), ms)
      else (Inr (), AList.update (owner_kind p) p ms))"

definition adopt_plane :: "plane_kind \<Rightarrow> plane_fingerprint \<Rightarrow> 'p manifest \<Rightarrow> 'p adoption \<times> 'p manifest" where
  "adopt_plane kind expected ms =
     (case map_of ms kind of
        None \<Rightarrow> (Fallback \<lparr>fallback_kind = kind, fallback_reason = ''plane_absent'', fallback_action = ''rebuild_'' @ plane_value kind\<rparr>, ms)
      | Some p \<Rightarrow> (case try_adopt expected p of (a, p) \<Rightarrow> (a, AList.update kind p ms)))"

definition invalidate_in :: "plane_kind \<Rightarrow> string \<Rightarrow> 'p manifest \<Rightarrow> (int option, 'p manifest) res" where
  "invalidate_in kind reason ms =
     (case map_of ms kind of
        None \<Rightarrow> (Inr None, ms)
      | Some p \<Rightarrow> (case invalidate_owner reason p of (r, p) \<Rightarrow> (map_sum id Some r, AList.update kind p ms)))"

fun invalidate_all :: "string \<Rightarrow> 'p manifest \<Rightarrow> (unit, 'p manifest) res" where
  "invalidate_all reason [] = (Inr (), [])"
| "invalidate_all reason ((kind, p) # ms) =
     (case invalidate_owner reason p of
        (Inl e, p) \<Rightarrow> (Inl e, (kind, p) # ms)
      | (Inr _, p) \<Rightarrow> (case invalidate_all reason ms of (r, ms) \<Rightarrow> (r, (kind, p) # ms)))"

section \<open>The manifest of layer segments\<close>

record segment_manifest =
  segs :: "(segment_key \<times> layer_segment) list"
  invalid_segs :: "(segment_key \<times> string) list"

definition add_segment :: "layer_segment \<Rightarrow> segment_manifest \<Rightarrow> (unit, segment_manifest) res" where
  "add_segment s m =
     (if map_of (segs m) (segment_key_of s) \<noteq> None then (Inl (ValueError ''duplicate cache segment''), m)
      else (Inr (), m\<lparr>segs := AList.update (segment_key_of s) s (segs m)\<rparr>))"

fun add_segments :: "layer_segment list \<Rightarrow> segment_manifest \<Rightarrow> (unit, segment_manifest) res" where
  "add_segments [] m = (Inr (), m)"
| "add_segments (s # ss) m = bind_res (add_segment s m) (\<lambda>_ m. add_segments ss m)"

definition new_segment_manifest :: "layer_segment list \<Rightarrow> exc + segment_manifest" where
  "new_segment_manifest ss =
     (case add_segments ss \<lparr>segs = [], invalid_segs = []\<rparr> of (Inl e, _) \<Rightarrow> Inl e | (Inr _, m) \<Rightarrow> Inr m)"

definition set_default :: "'k \<Rightarrow> 'v \<Rightarrow> ('k \<times> 'v) list \<Rightarrow> ('k \<times> 'v) list" where
  "set_default k v xs = (if map_of xs k = None then AList.update k v xs else xs)"

definition invalidate_seg :: "segment_key \<Rightarrow> string \<Rightarrow> segment_manifest \<Rightarrow> (bool, segment_manifest) res" where
  "invalidate_seg k reason m =
     (if map_of (segs m) k = None then (Inr False, m)
      else if reason = [] then (Inl (ValueError ''cache segment invalidation needs a reason''), m)
      else (Inr True, m\<lparr>invalid_segs := set_default k reason (invalid_segs m)\<rparr>))"

fun mark_plane :: "plane_kind \<Rightarrow> string \<Rightarrow> segment_key list \<Rightarrow> (segment_key \<times> string) list \<Rightarrow> int \<times> (segment_key \<times> string) list" where
  "mark_plane kind reason [] bad = (0, bad)"
| "mark_plane kind reason (k # ks) bad =
     (if seg_kind k = kind \<and> map_of bad k = None
      then (case mark_plane kind reason ks (AList.update k reason bad) of (n, bad) \<Rightarrow> (n + 1, bad))
      else mark_plane kind reason ks bad)"

definition invalidate_plane_segs :: "plane_kind \<Rightarrow> string \<Rightarrow> segment_manifest \<Rightarrow> int \<times> segment_manifest" where
  "invalidate_plane_segs kind reason m =
     (case mark_plane kind reason (map fst (segs m)) (invalid_segs m) of (n, bad) \<Rightarrow> (n, m\<lparr>invalid_segs := bad\<rparr>))"

definition invalid_required :: "bool \<Rightarrow> segment_manifest \<Rightarrow> bool" where
  "invalid_required include_mtp m \<longleftrightarrow>
     (\<exists>(k, s) \<in> set (segs m). needed s \<and> map_of (invalid_segs m) k \<noteq> None \<and> (include_mtp \<or> seg_kind k \<noteq> MTP_DRAFT))"

record plane_summary =
  in_layers :: int
  in_segments :: int
  in_bytes :: int
  in_invalid :: int

record segment_summary =
  all_layers :: int
  all_plane_layers :: int
  all_segments :: int
  all_invalid :: int
  by_plane :: "(string \<times> plane_summary) list"

definition count_segment :: "(segment_key \<times> string) list \<Rightarrow> segment_key \<times> layer_segment \<Rightarrow> (string \<times> plane_summary) list \<Rightarrow> (string \<times> plane_summary) list" where
  "count_segment bad ks ps =
     (let name = plane_value (seg_kind (fst ks));
          ps = set_default name \<lparr>in_layers = 0, in_segments = 0, in_bytes = 0, in_invalid = 0\<rparr> ps
      in AList.map_entry name (\<lambda>v. v\<lparr>in_segments := in_segments v + 1, in_bytes := in_bytes v + logical_bytes (snd ks),
           in_invalid := in_invalid v + (if map_of bad (fst ks) \<noteq> None then 1 else 0)\<rparr>) ps)"

definition plane_layers :: "segment_manifest \<Rightarrow> (string \<times> int) set" where
  "plane_layers m = (\<lambda>ks. (plane_value (seg_kind (fst ks)), seg_layer (fst ks))) ` set (segs m)"

definition segment_totals :: "segment_manifest \<Rightarrow> segment_summary" where
  "segment_totals m =
     (let ps = fold (count_segment (invalid_segs m)) (segs m) []
      in \<lparr>all_layers = int (card (snd ` plane_layers m)), all_plane_layers = int (card (plane_layers m)),
          all_segments = int (length (segs m)), all_invalid = int (length (invalid_segs m)),
          by_plane = map (\<lambda>(name, v). (name, v\<lparr>in_layers := int (card {x \<in> plane_layers m. fst x = name})\<rparr>)) ps\<rparr>)"

section \<open>A manifest with its leases\<close>

text \<open>The leases are numbered in the order they were handed out; closing one runs its release once.\<close>

record 'p plane_world =
  planes_in :: "'p manifest"
  plane_leases :: "'p plane_lease list"

datatype 'p plane_call =
    AddPlane plane_kind 'p plane_fingerprint bool "string option"
  | AdoptPlane plane_kind plane_fingerprint
  | InvalidateIn plane_kind string
  | InvalidateAll string
  | Materialize plane_kind int
  | ClosePlaneLease nat

definition close_plane_lease :: "nat \<Rightarrow> 'p plane_world \<Rightarrow> (unit, 'p plane_world) res" where
  "close_plane_lease i w =
     (let l = plane_leases w ! i
      in if lease_closed l then (Inr (), w)
         else let w = w\<lparr>plane_leases := (plane_leases w)[i := l\<lparr>lease_closed := True, leased_payload := None\<rparr>]\<rparr>
              in case map_of (planes_in w) (leased_kind l) of
                   None \<Rightarrow> (Inr (), w)
                 | Some p \<Rightarrow> (case release_owner p of (r, p) \<Rightarrow> (r, w\<lparr>planes_in := AList.update (leased_kind l) p (planes_in w)\<rparr>)))"

fun plane_step :: "'p plane_call \<Rightarrow> 'p plane_world \<Rightarrow> (unit, 'p plane_world) res" where
  "plane_step (AddPlane kind payload f ok reason) w =
     lift_res (new_plane_owner kind payload f ok reason) w (\<lambda>p.
       case add_plane p (planes_in w) of (r, ms) \<Rightarrow> (r, w\<lparr>planes_in := ms\<rparr>))"
| "plane_step (AdoptPlane kind expected) w =
     (case adopt_plane kind expected (planes_in w) of
        (Adopted l, ms) \<Rightarrow> (Inr (), w\<lparr>planes_in := ms, plane_leases := plane_leases w @ [l]\<rparr>)
      | (Fallback _, ms) \<Rightarrow> (Inr (), w\<lparr>planes_in := ms\<rparr>))"
| "plane_step (InvalidateIn kind reason) w =
     (case invalidate_in kind reason (planes_in w) of (r, ms) \<Rightarrow> (map_sum id (\<lambda>_. ()) r, w\<lparr>planes_in := ms\<rparr>))"
| "plane_step (InvalidateAll reason) w = (case invalidate_all reason (planes_in w) of (r, ms) \<Rightarrow> (r, w\<lparr>planes_in := ms\<rparr>))"
| "plane_step (Materialize kind n) w =
     (case map_of (planes_in w) kind of
        None \<Rightarrow> (Inl (KeyError ''no such plane''), w)
      | Some p \<Rightarrow> (case record_materialization n p of (r, p) \<Rightarrow> (r, w\<lparr>planes_in := AList.update kind p (planes_in w)\<rparr>)))"
| "plane_step (ClosePlaneLease i) w =
     (if i < length (plane_leases w) then close_plane_lease i w else (Inl (IndexError ''no such lease''), w))"

definition no_planes :: "'p plane_world" where
  "no_planes = \<lparr>planes_in = [], plane_leases = []\<rparr>"

section \<open>Leases and payloads\<close>

definition open_in :: "plane_kind \<Rightarrow> 'p plane_lease list \<Rightarrow> nat" where
  "open_in kind ls = length (filter (\<lambda>l. \<not> lease_closed l \<and> leased_kind l = kind) ls)"

text \<open>The account of one plane: \<open>n\<close> leases on it are open.\<close>

definition plane_ok :: "nat \<Rightarrow> plane_kind \<Rightarrow> 'p plane_owner \<Rightarrow> bool" where
  "plane_ok n kind p \<longleftrightarrow> owner_kind p = kind \<and> owner_pins p = int n \<and> active_leases (counters p) = int n
     \<and> lookups (counters p) = hits (counters p) + misses (counters p) \<and> misses (counters p) = fallbacks (counters p)
     \<and> owner_generation p = invalidations (counters p) \<and> owner_generation p = (if eligible p then 0 else owner_generation p)
     \<and> 0 \<le> owner_generation p \<and> owner_generation p \<le> 1
     \<and> ((eligible p \<or> 0 < n) \<longrightarrow> owner_payload p \<noteq> None)"

definition plane_lease_ok :: "'p manifest \<Rightarrow> 'p plane_lease \<Rightarrow> bool" where
  "plane_lease_ok ms l \<longleftrightarrow> lease_closed l \<or> (\<exists>p. map_of ms (leased_kind l) = Some p \<and> leased_payload l = owner_payload p
     \<and> leased_payload l \<noteq> None \<and> leased_fp l = owner_fp p)"

definition plane_inv :: "'p plane_world \<Rightarrow> bool" where
  "plane_inv w \<longleftrightarrow> (\<forall>k p. map_of (planes_in w) k = Some p \<longrightarrow> plane_ok (open_in k (plane_leases w)) k p)
     \<and> (\<forall>l \<in> set (plane_leases w). plane_lease_ok (planes_in w) l)"

lemma plane_invI:
  assumes "\<And>k p. map_of (planes_in w) k = Some p \<Longrightarrow> plane_ok (open_in k (plane_leases w)) k p"
    and "\<And>l. l \<in> set (plane_leases w) \<Longrightarrow> plane_lease_ok (planes_in w) l"
  shows "plane_inv w"
  using assms by (auto simp: plane_inv_def)

lemma plane_invD:
  assumes "plane_inv w"
  shows "map_of (planes_in w) k = Some p \<Longrightarrow> plane_ok (open_in k (plane_leases w)) k p"
    and "l \<in> set (plane_leases w) \<Longrightarrow> plane_lease_ok (planes_in w) l"
  using assms by (auto simp: plane_inv_def)

lemma open_in_append [simp]:
  "open_in k (ls @ [l]) = open_in k ls + (if \<not> lease_closed l \<and> leased_kind l = k then 1 else 0)"
  by (simp add: open_in_def)

lemma open_in_close:
  "i < length ls \<Longrightarrow> \<not> lease_closed (ls ! i) \<Longrightarrow>
     open_in k (ls[i := (ls ! i)\<lparr>lease_closed := True, leased_payload := None\<rparr>]) + (if leased_kind (ls ! i) = k then 1 else 0) = open_in k ls"
  unfolding open_in_def
  by (drule filter_update_count [where P = "\<lambda>l. \<not> lease_closed l \<and> leased_kind l = k" and x = "(ls ! i)\<lparr>lease_closed := True, leased_payload := None\<rparr>"])
    simp

lemma open_in_pos: "l \<in> set ls \<Longrightarrow> \<not> lease_closed l \<Longrightarrow> 0 < open_in (leased_kind l) ls"
  by (auto simp: open_in_def filter_empty_conv)

text \<open>Each operation on one owner keeps its account.\<close>

lemma plane_ok_try_adopt:
  assumes "plane_ok n kind p" and "try_adopt f p = (a, q)"
  shows "plane_ok (case a of Adopted _ \<Rightarrow> n + 1 | Fallback _ \<Rightarrow> n) kind q \<and> owner_payload q = owner_payload p \<and> owner_fp q = owner_fp p
     \<and> (\<forall>l. a = Adopted l \<longrightarrow> eligible p \<and> f = owner_fp p \<and> leased_kind l = kind \<and> \<not> lease_closed l \<and> leased_payload l = owner_payload p
          \<and> leased_payload l \<noteq> None \<and> leased_fp l = owner_fp p \<and> leased_generation l = owner_generation p)"
  using assms by (auto simp: try_adopt_def fallback_plane_def plane_ok_def Let_def split: if_splits)

lemma plane_ok_invalidate:
  assumes "plane_ok n kind p" and "invalidate_owner reason p = (r, q)"
  shows "plane_ok n kind q \<and> (0 < n \<longrightarrow> owner_payload q = owner_payload p) \<and> owner_fp q = owner_fp p"
  using assms by (auto simp: invalidate_owner_def plane_ok_def Let_def split: if_splits)

lemma plane_ok_materialize:
  assumes "plane_ok n kind p" and "record_materialization b p = (r, q)"
  shows "plane_ok n kind q \<and> owner_payload q = owner_payload p \<and> owner_fp q = owner_fp p"
  using assms by (auto simp: record_materialization_def plane_ok_def split: if_splits)

lemma plane_ok_release:
  assumes "plane_ok (Suc n) kind p"
  obtains q where "release_owner p = (Inr (), q)" "plane_ok n kind q" "0 < n \<Longrightarrow> owner_payload q = owner_payload p" "owner_fp q = owner_fp p"
proof -
  have "fst (release_owner p) = Inr ()" "plane_ok n kind (snd (release_owner p))"
    "0 < n \<Longrightarrow> owner_payload (snd (release_owner p)) = owner_payload p" "owner_fp (snd (release_owner p)) = owner_fp p"
    using assms by (auto simp: release_owner_def plane_ok_def Let_def)
  then show ?thesis using that [of "snd (release_owner p)"] by (metis prod.collapse)
qed

text \<open>Replacing the owner of one kind, with the leases unchanged.\<close>

lemma plane_inv_update:
  assumes "plane_inv w" and "plane_ok (open_in kind (plane_leases w)) kind q"
    and "\<And>p. map_of (planes_in w) kind = Some p \<Longrightarrow> 0 < open_in kind (plane_leases w) \<Longrightarrow> owner_payload q = owner_payload p \<and> owner_fp q = owner_fp p"
  shows "plane_inv (w\<lparr>planes_in := AList.update kind q (planes_in w)\<rparr>)"
proof (rule plane_invI)
  show "plane_ok (open_in k (plane_leases (w\<lparr>planes_in := AList.update kind q (planes_in w)\<rparr>))) k p"
    if "map_of (planes_in (w\<lparr>planes_in := AList.update kind q (planes_in w)\<rparr>)) k = Some p" for k p
    using that assms(2) plane_invD(1) [OF assms(1)] by (auto simp: update_conv' split: if_splits)
next
  fix l assume l: "l \<in> set (plane_leases (w\<lparr>planes_in := AList.update kind q (planes_in w)\<rparr>))"
  then have ok: "plane_lease_ok (planes_in w) l" using plane_invD(2) [OF assms(1)] by simp
  show "plane_lease_ok (planes_in (w\<lparr>planes_in := AList.update kind q (planes_in w)\<rparr>)) l"
  proof (cases "lease_closed l \<or> leased_kind l \<noteq> kind")
    case True
    then show ?thesis using ok by (auto simp: plane_lease_ok_def update_conv')
  next
    case False
    then have "0 < open_in kind (plane_leases w)" using open_in_pos [of l "plane_leases w"] l by auto
    then show ?thesis using ok False assms(3) by (auto simp: plane_lease_ok_def update_conv')
  qed
qed

lemma invalidate_all_eq:
  assumes "reason \<noteq> []"
  shows "invalidate_all reason ms = (Inr (), map (\<lambda>(k, p). (k, snd (invalidate_owner reason p))) ms)"
proof (induction ms)
  case (Cons kp ms)
  have "\<exists>n q. invalidate_owner reason (snd kp) = (Inr n, q)" using assms by (simp add: invalidate_owner_def Let_def)
  then show ?case using Cons.IH by (cases kp) auto
qed simp

lemma invalidate_all_empty: "snd (invalidate_all [] ms) = ms"
  by (cases ms) (auto simp: invalidate_owner_def)

lemma map_of_invalidate_all:
  "map_of (map (\<lambda>(k, p). (k, snd (invalidate_owner reason p))) ms) k = map_option (\<lambda>p. snd (invalidate_owner reason p)) (map_of ms k)"
  by (induction ms) auto

lemma plane_inv_invalidate_all:
  assumes "plane_inv w"
  shows "plane_inv (snd (plane_step (InvalidateAll reason) w))"
proof (cases "reason = []")
  case True
  then show ?thesis using assms invalidate_all_empty [of "planes_in w"] by (cases "invalidate_all reason (planes_in w)") simp
next
  case False
  let ?ms = "map (\<lambda>(k, p). (k, snd (invalidate_owner reason p))) (planes_in w)"
  have step: "snd (plane_step (InvalidateAll reason) w) = w\<lparr>planes_in := ?ms\<rparr>" using False by (simp add: invalidate_all_eq)
  have keeps: "plane_ok n k (snd (invalidate_owner reason p)) \<and> (0 < n \<longrightarrow> owner_payload (snd (invalidate_owner reason p)) = owner_payload p)
      \<and> owner_fp (snd (invalidate_owner reason p)) = owner_fp p" if "plane_ok n k p" for n k and p :: "'a plane_owner"
    using plane_ok_invalidate [OF that] by (metis prod.collapse)
  show ?thesis
    unfolding step
  proof (rule plane_invI)
    show "plane_ok (open_in k (plane_leases (w\<lparr>planes_in := ?ms\<rparr>))) k p" if "map_of (planes_in (w\<lparr>planes_in := ?ms\<rparr>)) k = Some p" for k p
      using that keeps plane_invD(1) [OF assms] by (auto simp: map_of_invalidate_all)
  next
    fix l assume l: "l \<in> set (plane_leases (w\<lparr>planes_in := ?ms\<rparr>))"
    show "plane_lease_ok (planes_in (w\<lparr>planes_in := ?ms\<rparr>)) l"
    proof (cases "lease_closed l")
      case False
      moreover have "plane_lease_ok (planes_in w) l" using plane_invD(2) [OF assms, of l] l by simp
      ultimately obtain p where p: "map_of (planes_in w) (leased_kind l) = Some p" "leased_payload l = owner_payload p"
          "leased_payload l \<noteq> None" "leased_fp l = owner_fp p"
        unfolding plane_lease_ok_def by blast
      have "0 < open_in (leased_kind l) (plane_leases w)" using open_in_pos [of l "plane_leases w"] False l by simp
      then show ?thesis using keeps [OF plane_invD(1) [OF assms p(1)]] p by (auto simp: plane_lease_ok_def map_of_invalidate_all)
    qed (simp add: plane_lease_ok_def)
  qed
qed

lemma close_plane_lease_open:
  assumes inv: "plane_inv w" and i: "i < length (plane_leases w)" "\<not> lease_closed (plane_leases w ! i)"
  obtains p q where "map_of (planes_in w) (leased_kind (plane_leases w ! i)) = Some p" "release_owner p = (Inr (), q)"
    and "plane_ok (open_in (leased_kind (plane_leases w ! i)) (plane_leases w) - 1) (leased_kind (plane_leases w ! i)) q"
    and "1 < open_in (leased_kind (plane_leases w ! i)) (plane_leases w) \<Longrightarrow> owner_payload q = owner_payload p" and "owner_fp q = owner_fp p"
    and "plane_step (ClosePlaneLease i) w = (Inr (), w\<lparr>planes_in := AList.update (leased_kind (plane_leases w ! i)) q (planes_in w),
           plane_leases := (plane_leases w)[i := (plane_leases w ! i)\<lparr>lease_closed := True, leased_payload := None\<rparr>]\<rparr>)"
proof -
  let ?l = "plane_leases w ! i"
  have l: "?l \<in> set (plane_leases w)" using i(1) by simp
  obtain p where p: "map_of (planes_in w) (leased_kind ?l) = Some p"
    using plane_invD(2) [OF inv l] i(2) by (auto simp: plane_lease_ok_def)
  obtain n where n: "open_in (leased_kind ?l) (plane_leases w) = Suc n" using open_in_pos [OF l i(2)] by (cases "open_in (leased_kind ?l) (plane_leases w)") auto
  have "plane_ok (Suc n) (leased_kind ?l) p" using plane_invD(1) [OF inv p] n by simp
  then obtain q where q: "release_owner p = (Inr (), q)" "plane_ok n (leased_kind ?l) q" "0 < n \<Longrightarrow> owner_payload q = owner_payload p" "owner_fp q = owner_fp p"
    by (rule plane_ok_release) blast
  show ?thesis
    by (rule that [OF p q(1)]) (use q n p i in \<open>simp_all add: close_plane_lease_def Let_def\<close>)
qed

lemma plane_inv_close:
  assumes inv: "plane_inv w"
  shows "plane_inv (snd (plane_step (ClosePlaneLease i) w))"
proof (cases "i < length (plane_leases w) \<and> \<not> lease_closed (plane_leases w ! i)")
  case False
  then show ?thesis using inv by (auto simp: close_plane_lease_def Let_def)
next
  case True
  define l where "l = plane_leases w ! i"
  let ?ls = "(plane_leases w)[i := l\<lparr>lease_closed := True, leased_payload := None\<rparr>]"
  obtain p q where p: "map_of (planes_in w) (leased_kind l) = Some p"
    and q: "plane_ok (open_in (leased_kind l) (plane_leases w) - 1) (leased_kind l) q"
      "1 < open_in (leased_kind l) (plane_leases w) \<Longrightarrow> owner_payload q = owner_payload p" "owner_fp q = owner_fp p"
    and step: "plane_step (ClosePlaneLease i) w = (Inr (), w\<lparr>planes_in := AList.update (leased_kind l) q (planes_in w), plane_leases := ?ls\<rparr>)"
    unfolding l_def by (rule close_plane_lease_open [OF inv]) (use True in blast)+
  have drop_: "open_in k ?ls + (if leased_kind l = k then 1 else 0) = open_in k (plane_leases w)" for k
    using open_in_close [of i "plane_leases w" k] True by (simp add: l_def)
  have "plane_inv (w\<lparr>planes_in := AList.update (leased_kind l) q (planes_in w), plane_leases := ?ls\<rparr>)" (is "plane_inv ?v")
  proof (rule plane_invI)
    show "plane_ok (open_in k (plane_leases ?v)) k p'" if "map_of (planes_in ?v) k = Some p'" for k p'
    proof (cases "k = leased_kind l")
      case True
      then have "p' = q" using that by (simp add: update_conv')
      moreover have "open_in (leased_kind l) ?ls = open_in (leased_kind l) (plane_leases w) - 1" using drop_ [of "leased_kind l"] by simp
      ultimately show ?thesis using q(1) True by simp
    next
      case False
      then show ?thesis using that plane_invD(1) [OF inv, of k p'] drop_ [of k] by (simp add: update_conv')
    qed
  next
    fix x assume "x \<in> set (plane_leases ?v)"
    then have x: "x \<in> set ?ls" by simp
    show "plane_lease_ok (planes_in ?v) x"
    proof (cases "lease_closed x")
      case False
      then have "x \<in> set (plane_leases w)" using x set_update_subset_insert by fastforce
      then have ok: "plane_lease_ok (planes_in w) x" by (rule plane_invD(2) [OF inv])
      have "0 < open_in (leased_kind x) ?ls" using open_in_pos [OF x False] .
      then have "leased_kind x = leased_kind l \<Longrightarrow> owner_payload q = owner_payload p" using q(2) drop_ [of "leased_kind l"] by simp
      then show ?thesis using ok False p q(3) by (auto simp: plane_lease_ok_def update_conv')
    qed (simp add: plane_lease_ok_def)
  qed
  then show ?thesis using step by simp
qed

lemma plane_inv_add:
  assumes inv: "plane_inv w"
  shows "plane_inv (snd (plane_step (AddPlane kind payload f ok reason) w))"
proof (cases "new_plane_owner kind payload f ok reason")
  case (Inl e)
  then show ?thesis using inv by simp
next
  case (Inr p)
  then have p: "owner_kind p = kind" "plane_ok 0 kind p"
    by (auto simp: new_plane_owner_def plane_ok_def zero_counters_def)
  show ?thesis
  proof (cases "map_of (planes_in w) kind")
    case None
    have "open_in kind (plane_leases w) = 0"
    proof -
      have "lease_closed l \<or> leased_kind l \<noteq> kind" if "l \<in> set (plane_leases w)" for l
        using plane_invD(2) [OF inv that] None by (auto simp: plane_lease_ok_def)
      then show ?thesis by (auto simp: open_in_def filter_empty_conv)
    qed
    then show ?thesis using plane_inv_update [OF inv, of kind p] p None Inr by (simp add: add_plane_def)
  next
    case (Some q)
    then show ?thesis using inv Inr p(1) by (simp add: add_plane_def)
  qed
qed

lemma plane_inv_adopt:
  assumes inv: "plane_inv w"
  shows "plane_inv (snd (plane_step (AdoptPlane kind f) w))"
proof (cases "map_of (planes_in w) kind")
  case None
  then show ?thesis using inv by (simp add: adopt_plane_def)
next
  case (Some p)
  obtain a q where a: "try_adopt f p = (a, q)" by fastforce
  note ok = plane_ok_try_adopt [OF plane_invD(1) [OF inv Some] a]
  show ?thesis
  proof (cases a)
    case (Fallback b)
    then have "plane_inv (w\<lparr>planes_in := AList.update kind q (planes_in w)\<rparr>)"
      using plane_inv_update [OF inv, of kind q] ok Some by simp
    then show ?thesis using Some a Fallback by (simp add: adopt_plane_def)
  next
    case (Adopted l)
    let ?v = "w\<lparr>planes_in := AList.update kind q (planes_in w), plane_leases := plane_leases w @ [l]\<rparr>"
    have "plane_inv ?v"
    proof (rule plane_invI)
      show "plane_ok (open_in k (plane_leases ?v)) k p'" if "map_of (planes_in ?v) k = Some p'" for k p'
        using that ok Adopted plane_invD(1) [OF inv, of k p'] by (auto simp: update_conv' split: if_splits)
    next
      fix x assume "x \<in> set (plane_leases ?v)"
      then have "x = l \<or> x \<in> set (plane_leases w)" by auto
      then show "plane_lease_ok (planes_in ?v) x"
      proof
        assume "x = l"
        then show ?thesis using ok Adopted unfolding plane_lease_ok_def by (intro disjI2 exI [of _ q]) (simp add: update_conv', metis)
      next
        assume "x \<in> set (plane_leases w)"
        then have "plane_lease_ok (planes_in w) x" by (rule plane_invD(2) [OF inv])
        then show ?thesis using ok Some by (auto simp: plane_lease_ok_def update_conv')
      qed
    qed
    then show ?thesis using Some a Adopted by (simp add: adopt_plane_def)
  qed
qed

lemma plane_step_inv:
  assumes inv: "plane_inv w"
  shows "plane_inv (snd (plane_step c w))"
proof (cases c)
  case (AddPlane kind payload f ok reason)
  then show ?thesis using plane_inv_add [OF inv] by (simp only:)
next
  case (AdoptPlane kind f)
  then show ?thesis using plane_inv_adopt [OF inv] by (simp only:)
next
  case (InvalidateIn kind reason)
  show ?thesis
  proof (cases "map_of (planes_in w) kind")
    case (Some p)
    obtain r q where q: "invalidate_owner reason p = (r, q)" by fastforce
    have "plane_inv (w\<lparr>planes_in := AList.update kind q (planes_in w)\<rparr>)"
      using plane_inv_update [OF inv, of kind q] plane_ok_invalidate [OF plane_invD(1) [OF inv Some] q] Some by simp
    then show ?thesis using InvalidateIn Some q by (simp add: invalidate_in_def)
  qed (use inv InvalidateIn in \<open>simp add: invalidate_in_def\<close>)
next
  case (InvalidateAll reason)
  then show ?thesis using plane_inv_invalidate_all [OF inv] by (simp only:)
next
  case (Materialize kind n)
  show ?thesis
  proof (cases "map_of (planes_in w) kind")
    case (Some p)
    obtain r q where q: "record_materialization n p = (r, q)" by fastforce
    have "plane_inv (w\<lparr>planes_in := AList.update kind q (planes_in w)\<rparr>)"
      using plane_inv_update [OF inv, of kind q] plane_ok_materialize [OF plane_invD(1) [OF inv Some] q] Some by simp
    then show ?thesis using Materialize Some q by simp
  qed (use inv Materialize in simp)
next
  case (ClosePlaneLease i)
  then show ?thesis using plane_inv_close [OF inv] by (simp only:)
qed

interpretation cache_planes: stateful_component "\<lambda>w. w = no_planes" plane_step plane_inv
proof unfold_locales
  show "plane_inv w" if "w = no_planes" for w :: "'p plane_world"
    using that by (simp add: plane_inv_def no_planes_def)
qed (rule plane_step_inv)

text \<open>A call leaves the lease it does not close.\<close>

lemma plane_lease_stays:
  assumes "i < length (plane_leases w)" and "c \<noteq> ClosePlaneLease i"
  shows "i < length (plane_leases (snd (plane_step c w))) \<and> plane_leases (snd (plane_step c w)) ! i = plane_leases w ! i"
proof (cases c)
  case (AddPlane kind payload f ok reason)
  then show ?thesis using assms(1) by (cases "new_plane_owner kind payload f ok reason") (simp_all split: prod.splits)
next
  case (AdoptPlane kind f)
  then show ?thesis using assms(1)
    by (cases "adopt_plane kind f (planes_in w)"; cases "fst (adopt_plane kind f (planes_in w))") (auto simp: nth_append)
next
  case (Materialize kind n)
  then show ?thesis using assms(1) by (simp split: option.splits prod.splits)
next
  case (ClosePlaneLease j)
  then have "j \<noteq> i" using assms(2) by blast
  then show ?thesis using ClosePlaneLease assms(1) by (simp add: close_plane_lease_def Let_def split: option.splits prod.splits)
qed (use assms(1) in \<open>simp_all split: prod.splits\<close>)

lemma plane_lease_stays_run:
  assumes "plane_inv w" and "i < length (plane_leases w)" and "ClosePlaneLease i \<notin> set cs"
  shows "i < length (plane_leases (run_calls plane_step cs w)) \<and> plane_leases (run_calls plane_step cs w) ! i = plane_leases w ! i"
proof (rule cache_planes.run_keeps [where Q = "\<lambda>v. i < length (plane_leases v) \<and> plane_leases v ! i = plane_leases w ! i", OF assms(1)])
  show "i < length (plane_leases (snd (plane_step c v))) \<and> plane_leases (snd (plane_step c v)) ! i = plane_leases w ! i"
    if "c \<in> set cs" "i < length (plane_leases v) \<and> plane_leases v ! i = plane_leases w ! i" for c v
  proof -
    have "c \<noteq> ClosePlaneLease i" using that(1) assms(3) by blast
    then show ?thesis using plane_lease_stays that(2) by metis
  qed
qed (use assms(2) in simp)

text \<open>
  C35: Whatever planes are added, adopted, invalidated or released, an open lease keeps its
  payload and the plane keeps it too until that lease is closed; the pins of the plane count
  exactly its open leases and closing one never underflows.
\<close>

theorem plane_lease_keeps_its_payload:
  assumes "reachable (\<lambda>w. w = no_planes) plane_step w" and "i < length (plane_leases w)" and "\<not> lease_closed (plane_leases w ! i)"
    and "ClosePlaneLease i \<notin> set cs"
  shows "\<exists>p v. map_of (planes_in (run_calls plane_step cs w)) (leased_kind (plane_leases w ! i)) = Some p
     \<and> owner_payload p = Some v \<and> leased_payload (plane_leases w ! i) = Some v \<and> owner_fp p = leased_fp (plane_leases w ! i)
     \<and> owner_pins p = int (open_in (leased_kind (plane_leases w ! i)) (plane_leases (run_calls plane_step cs w)))
     \<and> fst (plane_step (ClosePlaneLease i) (run_calls plane_step cs w)) = Inr ()"
proof -
  let ?w = "run_calls plane_step cs w" and ?l = "plane_leases w ! i"
  have inv: "plane_inv w" by (rule cache_planes.inv_reachable [OF assms(1)])
  then have inv': "plane_inv ?w" by (rule cache_planes.inv_run)
  have same: "i < length (plane_leases ?w)" "plane_leases ?w ! i = ?l" using plane_lease_stays_run [OF inv assms(2,4)] by simp_all
  have "?l \<in> set (plane_leases ?w)" using nth_mem [OF same(1)] unfolding same(2) .
  then have "plane_lease_ok (planes_in ?w) ?l" by (rule plane_invD(2) [OF inv'])
  then obtain p where p: "map_of (planes_in ?w) (leased_kind ?l) = Some p" "leased_payload ?l = owner_payload p"
      "leased_payload ?l \<noteq> None" "leased_fp ?l = owner_fp p"
    using assms(3) unfolding plane_lease_ok_def by blast
  have "owner_pins p = int (open_in (leased_kind ?l) (plane_leases ?w))"
    using plane_invD(1) [OF inv' p(1)] by (simp add: plane_ok_def)
  moreover have "fst (plane_step (ClosePlaneLease i) ?w) = Inr ()"
    by (rule close_plane_lease_open [OF inv' same(1)]) (use same(2) assms(3) in simp_all)
  ultimately show ?thesis using p by (intro exI [of _ p]) auto
qed

text \<open>An invalidation is final: the plane falls back with its first reason and its generation stands.\<close>

definition plane_dead :: "plane_kind \<Rightarrow> int \<Rightarrow> string option \<Rightarrow> 'p plane_world \<Rightarrow> bool" where
  "plane_dead kind g reason w \<longleftrightarrow> (\<exists>p. map_of (planes_in w) kind = Some p \<and> owner_kind p = kind \<and> \<not> eligible p \<and> owner_generation p = g \<and> invalid_reason p = reason)"

definition shown_reason :: "string option \<Rightarrow> string" where
  "shown_reason r = (case r of None \<Rightarrow> ''ineligible'' | Some x \<Rightarrow> if x = [] then ''ineligible'' else x)"

lemma plane_dead_update:
  "plane_dead kind g r w \<Longrightarrow> (\<And>p. map_of (planes_in w) k = Some p \<Longrightarrow> k = kind \<Longrightarrow> \<not> eligible p \<Longrightarrow>
       \<not> eligible q \<and> owner_generation q = owner_generation p \<and> invalid_reason q = invalid_reason p \<and> owner_kind q = owner_kind p)
     \<Longrightarrow> plane_dead kind g r (w\<lparr>planes_in := AList.update k q (planes_in w)\<rparr>)"
  by (auto simp: plane_dead_def update_conv')

lemma dead_owner_steps:
  assumes "\<not> eligible p"
  shows "snd (invalidate_owner reason p) = p"
    and "try_adopt f p = (a, q) \<Longrightarrow> (\<exists>b. a = Fallback b) \<and> \<not> eligible q \<and> owner_generation q = owner_generation p \<and> invalid_reason q = invalid_reason p \<and> owner_kind q = owner_kind p"
    and "record_materialization n p = (r, q) \<Longrightarrow> \<not> eligible q \<and> owner_generation q = owner_generation p \<and> invalid_reason q = invalid_reason p \<and> owner_kind q = owner_kind p"
    and "release_owner p = (r, q) \<Longrightarrow> \<not> eligible q \<and> owner_generation q = owner_generation p \<and> invalid_reason q = invalid_reason p \<and> owner_kind q = owner_kind p"
  using assms by (auto simp: invalidate_owner_def try_adopt_def fallback_plane_def record_materialization_def release_owner_def Let_def split: if_splits)

lemma plane_dead_step:
  assumes "plane_dead kind g r w"
  shows "plane_dead kind g r (snd (plane_step c w))"
proof (cases c)
  case (AddPlane k payload f ok reason)
  show ?thesis
  proof (cases "new_plane_owner k payload f ok reason")
    case (Inr p)
    then have k: "owner_kind p = k" by (auto simp: new_plane_owner_def)
    show ?thesis
    proof (cases "map_of (planes_in w) k")
      case None
      then have "plane_dead kind g r (w\<lparr>planes_in := AList.update k p (planes_in w)\<rparr>)"
        by (intro plane_dead_update [OF assms]) simp
      then show ?thesis using AddPlane Inr k None by (simp add: add_plane_def)
    qed (use assms AddPlane Inr k in \<open>simp add: add_plane_def\<close>)
  qed (use assms AddPlane in simp)
next
  case (AdoptPlane k f)
  show ?thesis
  proof (cases "map_of (planes_in w) k")
    case (Some p)
    obtain a q where a: "try_adopt f p = (a, q)" by fastforce
    have "plane_dead kind g r (w\<lparr>planes_in := AList.update k q (planes_in w)\<rparr>)"
      using Some dead_owner_steps(2) [OF _ a] by (intro plane_dead_update [OF assms]) auto
    then show ?thesis using AdoptPlane Some a by (cases a) (simp_all add: adopt_plane_def plane_dead_def)
  qed (use assms AdoptPlane in \<open>simp add: adopt_plane_def\<close>)
next
  case (InvalidateIn k reason)
  show ?thesis
  proof (cases "map_of (planes_in w) k")
    case (Some p)
    obtain x q where q: "invalidate_owner reason p = (x, q)" by fastforce
    have "plane_dead kind g r (w\<lparr>planes_in := AList.update k q (planes_in w)\<rparr>)"
      using Some dead_owner_steps(1) [of p reason] q by (intro plane_dead_update [OF assms]) simp_all
    then show ?thesis using InvalidateIn Some q by (simp add: invalidate_in_def)
  qed (use assms InvalidateIn in \<open>simp add: invalidate_in_def\<close>)
next
  case (InvalidateAll reason)
  show ?thesis
  proof (cases "reason = []")
    case True
    then show ?thesis using assms InvalidateAll invalidate_all_empty [of "planes_in w"]
      by (cases "invalidate_all reason (planes_in w)") simp
  next
    case False
    then have "snd (plane_step c w) = w\<lparr>planes_in := map (\<lambda>(k, p). (k, snd (invalidate_owner reason p))) (planes_in w)\<rparr>"
      using InvalidateAll by (simp add: invalidate_all_eq)
    then show ?thesis using assms dead_owner_steps(1) [of _ reason] by (auto simp: plane_dead_def map_of_invalidate_all)
  qed
next
  case (Materialize k n)
  show ?thesis
  proof (cases "map_of (planes_in w) k")
    case (Some p)
    obtain x q where q: "record_materialization n p = (x, q)" by fastforce
    have "plane_dead kind g r (w\<lparr>planes_in := AList.update k q (planes_in w)\<rparr>)"
      using Some dead_owner_steps(3) [OF _ q] by (intro plane_dead_update [OF assms]) auto
    then show ?thesis using Materialize Some q by simp
  qed (use assms Materialize in simp)
next
  case (ClosePlaneLease i)
  have dead: "plane_dead kind g r (w\<lparr>plane_leases := ls\<rparr>)" for ls using assms by (simp add: plane_dead_def)
  let ?v = "w\<lparr>plane_leases := (plane_leases w)[i := (plane_leases w ! i)\<lparr>lease_closed := True, leased_payload := None\<rparr>]\<rparr>"
  show ?thesis
  proof (cases "i < length (plane_leases w) \<and> \<not> lease_closed (plane_leases w ! i)")
    case True
    show ?thesis
    proof (cases "map_of (planes_in w) (leased_kind (plane_leases w ! i))")
      case None
      then show ?thesis using ClosePlaneLease True dead by (simp add: close_plane_lease_def Let_def)
    next
      case (Some p)
      obtain x q where q: "release_owner p = (x, q)" by fastforce
      have "plane_dead kind g r (?v\<lparr>planes_in := AList.update (leased_kind (plane_leases w ! i)) q (planes_in ?v)\<rparr>)"
        using Some dead_owner_steps(4) [OF _ q] by (intro plane_dead_update [OF dead]) auto
      then show ?thesis using ClosePlaneLease True Some q by (simp add: close_plane_lease_def Let_def)
    qed
  qed (use assms ClosePlaneLease in \<open>auto simp: close_plane_lease_def Let_def\<close>)
qed

lemma plane_dead_run: "plane_dead kind g r w \<Longrightarrow> plane_dead kind g r (run_calls plane_step cs w)"
  by (induction cs arbitrary: w) (auto intro: plane_dead_step)

lemma plane_dead_adopt:
  assumes "plane_dead kind g r w"
  shows "fst (adopt_plane kind f (planes_in w))
    = Fallback \<lparr>fallback_kind = kind, fallback_reason = shown_reason r, fallback_action = ''rebuild_'' @ plane_value kind\<rparr>"
proof -
  obtain p where p: "map_of (planes_in w) kind = Some p" "owner_kind p = kind" "\<not> eligible p" "invalid_reason p = r"
    using assms by (auto simp: plane_dead_def)
  then have "fst (try_adopt f p) = Fallback \<lparr>fallback_kind = kind, fallback_reason = shown_reason r, fallback_action = ''rebuild_'' @ plane_value kind\<rparr>"
    by (simp add: try_adopt_def fallback_plane_def Let_def shown_reason_def)
  then show ?thesis using p(1) by (cases "try_adopt f p") (simp add: adopt_plane_def)
qed

text \<open>
  Invalidating a plane leaves every other plane and every lease as it was, and is final:
  whatever is called afterwards, the plane falls back with the first reason it was given and its
  generation stands.
\<close>

theorem invalidation_spares_other_planes:
  assumes "reachable (\<lambda>w. w = no_planes) plane_step w" and "map_of (planes_in w) kind = Some p" and "reason \<noteq> []"
  shows "(\<forall>k. k \<noteq> kind \<longrightarrow> map_of (planes_in (snd (plane_step (InvalidateIn kind reason) w))) k = map_of (planes_in w) k)
     \<and> plane_leases (snd (plane_step (InvalidateIn kind reason) w)) = plane_leases w
     \<and> (\<exists>q. map_of (planes_in (run_calls plane_step (InvalidateIn kind reason # cs) w)) kind = Some q
          \<and> owner_generation q = (if eligible p then 1 else owner_generation p))
     \<and> fst (adopt_plane kind f (planes_in (run_calls plane_step (InvalidateIn kind reason # cs) w)))
        = Fallback \<lparr>fallback_kind = kind, fallback_reason = (if eligible p then reason else shown_reason (invalid_reason p)),
            fallback_action = ''rebuild_'' @ plane_value kind\<rparr>"
proof -
  have inv: "plane_inv w" by (rule cache_planes.inv_reachable [OF assms(1)])
  have ok: "plane_ok (open_in kind (plane_leases w)) kind p" by (rule plane_invD(1) [OF inv assms(2)])
  obtain n q where q: "invalidate_owner reason p = (Inr n, q)" using assms(3) by (auto simp: invalidate_owner_def Let_def)
  have step: "snd (plane_step (InvalidateIn kind reason) w) = w\<lparr>planes_in := AList.update kind q (planes_in w)\<rparr>"
    using assms(2) q by (simp add: invalidate_in_def)
  let ?g = "if eligible p then 1 else owner_generation p" and ?r = "if eligible p then Some reason else invalid_reason p"
  have "owner_kind q = kind \<and> \<not> eligible q \<and> owner_generation q = ?g \<and> invalid_reason q = ?r"
    using q ok assms(3) by (auto simp: invalidate_owner_def plane_ok_def Let_def split: if_splits)
  then have "plane_dead kind ?g ?r (snd (plane_step (InvalidateIn kind reason) w))"
    unfolding step plane_dead_def by (simp add: update_conv')
  then have dead: "plane_dead kind ?g ?r (run_calls plane_step (InvalidateIn kind reason # cs) w)"
    by (simp only: run_calls.simps plane_dead_run)
  have "shown_reason ?r = (if eligible p then reason else shown_reason (invalid_reason p))" using assms(3) by (simp add: shown_reason_def)
  then have "fst (adopt_plane kind f (planes_in (run_calls plane_step (InvalidateIn kind reason # cs) w)))
        = Fallback \<lparr>fallback_kind = kind, fallback_reason = (if eligible p then reason else shown_reason (invalid_reason p)),
            fallback_action = ''rebuild_'' @ plane_value kind\<rparr>"
    using plane_dead_adopt [OF dead, of f] by simp
  moreover have "\<exists>q. map_of (planes_in (run_calls plane_step (InvalidateIn kind reason # cs) w)) kind = Some q \<and> owner_generation q = ?g"
    using dead unfolding plane_dead_def by blast
  ultimately show ?thesis unfolding step by (simp add: update_conv')
qed

section \<open>The transcript ledger\<close>

lemma check_ledger_from_tiles:
  assumes "check_ledger_from c seen ss = Inr u" and "\<forall>s \<in> set ss. check_transcript_segment s = Inr ()" and "0 \<le> c" and "i < length ss"
  shows "c \<le> transcript_start (ss ! i)
     \<and> take (nat (transcript_stop (ss ! i) - transcript_start (ss ! i))) (drop (nat (transcript_start (ss ! i) - c)) (concat (map transcript_tokens ss)))
        = transcript_tokens (ss ! i)
     \<and> transcript_stop (ss ! i) \<le> c + int (length (concat (map transcript_tokens ss)))"
  using assms
proof (induction ss arbitrary: c seen i)
  case Nil
  then show ?case by simp
next
  case (Cons s ss)
  have s: "transcript_start s = c" "check_ledger_from (transcript_stop s) (insert (transcript_id s) seen) ss = Inr u"
    using Cons.prems(1) by (auto split: if_splits)
  have len: "transcript_stop s - c = int (length (transcript_tokens s))" "c < transcript_stop s"
    using Cons.prems(2) s(1) by (auto simp: check_transcript_segment_def split: if_splits)
  show ?case
  proof (cases i)
    case 0
    then show ?thesis using s(1) len by simp
  next
    case (Suc j)
    have IH: "transcript_stop s \<le> transcript_start (ss ! j)"
      "take (nat (transcript_stop (ss ! j) - transcript_start (ss ! j))) (drop (nat (transcript_start (ss ! j) - transcript_stop s)) (concat (map transcript_tokens ss)))
        = transcript_tokens (ss ! j)"
      "transcript_stop (ss ! j) \<le> transcript_stop s + int (length (concat (map transcript_tokens ss)))"
      using Cons.IH [OF s(2), of j] Cons.prems(2-4) len Suc by simp_all
    have "nat (transcript_start (ss ! j) - c) = length (transcript_tokens s) + nat (transcript_start (ss ! j) - transcript_stop s)"
      using IH(1) len by linarith
    then show ?thesis using IH len Suc by simp
  qed
qed

lemma check_ledger_from_ids:
  "check_ledger_from c seen ss = Inr u \<Longrightarrow> distinct (map transcript_id ss) \<and> set (map transcript_id ss) \<inter> seen = {}"
  by (induction ss arbitrary: c seen) (auto split: if_splits)

lemma check_ledger_from_cover:
  assumes "check_ledger_from c seen ss = Inr u" and "\<forall>s \<in> set ss. check_transcript_segment s = Inr ()" and "0 \<le> c"
    and "c \<le> x" and "x < c + int (length (concat (map transcript_tokens ss)))"
  shows "\<exists>!s. s \<in> set ss \<and> transcript_start s \<le> x \<and> x < transcript_stop s"
  using assms
proof (induction ss arbitrary: c seen)
  case Nil
  then show ?case by simp
next
  case (Cons s ss)
  have s: "transcript_start s = c" "check_ledger_from (transcript_stop s) (insert (transcript_id s) seen) ss = Inr u"
    using Cons.prems(1) by (auto split: if_splits)
  have len: "transcript_stop s - c = int (length (transcript_tokens s))" "c < transcript_stop s"
    using Cons.prems(2) s(1) by (auto simp: check_transcript_segment_def split: if_splits)
  have later: "transcript_stop s \<le> transcript_start t" if t: "t \<in> set ss" for t
  proof -
    obtain i where "i < length ss" "ss ! i = t" using t by (auto simp: in_set_conv_nth)
    then show ?thesis using check_ledger_from_tiles [OF s(2), of i] Cons.prems(2,3) len by auto
  qed
  show ?case
  proof (cases "x < transcript_stop s")
    case True
    then show ?thesis using s(1) Cons.prems(4) later by (intro ex1I [of _ s]) force+
  next
    case False
    have "\<exists>!t. t \<in> set ss \<and> transcript_start t \<le> x \<and> x < transcript_stop t"
      using Cons.IH [OF s(2)] Cons.prems(2,3,5) len False by simp
    then show ?thesis using False by auto
  qed
qed

text \<open>
  C36: The segments of a constructed transcript ledger have distinct identities, each holds
  exactly its span of the token history, and every token of the history lies in exactly one of
  them.
\<close>

theorem transcript_segments_tile_the_history:
  assumes "check_ledger l = Inr ()" and "\<forall>s \<in> set (ledger_segments l). check_transcript_segment s = Inr ()"
  shows "distinct (map transcript_id (ledger_segments l))
     \<and> (\<forall>s \<in> set (ledger_segments l). 0 \<le> transcript_start s \<and> transcript_start s < transcript_stop s
          \<and> transcript_stop s \<le> int (length (ledger_tokens l))
          \<and> transcript_tokens s = take (nat (transcript_stop s - transcript_start s)) (drop (nat (transcript_start s)) (ledger_tokens l)))
     \<and> (\<forall>n < length (ledger_tokens l). \<exists>!s. s \<in> set (ledger_segments l) \<and> transcript_start s \<le> int n \<and> int n < transcript_stop s)"
proof -
  let ?ss = "ledger_segments l"
  have chain: "check_ledger_from 0 {} ?ss = Inr ()" using assms(1) by (simp add: check_ledger_def)
  have "0 \<le> transcript_start s \<and> transcript_start s < transcript_stop s \<and> transcript_stop s \<le> int (length (ledger_tokens l))
      \<and> transcript_tokens s = take (nat (transcript_stop s - transcript_start s)) (drop (nat (transcript_start s)) (ledger_tokens l))"
    if "s \<in> set ?ss" for s
  proof -
    obtain i where i: "i < length ?ss" "?ss ! i = s" using \<open>s \<in> set ?ss\<close> by (auto simp: in_set_conv_nth)
    have "transcript_start s < transcript_stop s"
      using assms(2) that by (auto simp: check_transcript_segment_def split: if_splits)
    then show ?thesis using check_ledger_from_tiles [OF chain assms(2) order_refl i(1)] i(2) by (simp add: ledger_tokens_def)
  qed
  moreover have "\<exists>!s. s \<in> set ?ss \<and> transcript_start s \<le> int n \<and> int n < transcript_stop s" if "n < length (ledger_tokens l)" for n
    by (rule check_ledger_from_cover [OF chain assms(2)]) (use that in \<open>simp_all add: ledger_tokens_def\<close>)
  ultimately show ?thesis using check_ledger_from_ids [OF chain] by blast
qed

section \<open>Facts of the segment manifest\<close>

lemma map_of_set_default: "map_of (set_default k v xs) x = (if x = k \<and> map_of xs k = None then Some v else map_of xs x)"
  by (auto simp: set_default_def update_conv')

lemma mark_plane_map_of:
  "map_of (snd (mark_plane kind reason ks bad)) x =
     (if x \<in> set ks \<and> seg_kind x = kind \<and> map_of bad x = None then Some reason else map_of bad x)"
proof (induction kind reason ks bad rule: mark_plane.induct)
  case (2 kind reason k ks bad)
  show ?case
  proof (cases "seg_kind k = kind \<and> map_of bad k = None")
    case True
    obtain n b where n: "mark_plane kind reason ks (AList.update k reason bad) = (n, b)" by fastforce
    have "map_of b x = (if x \<in> set ks \<and> seg_kind x = kind \<and> map_of (AList.update k reason bad) x = None then Some reason else map_of (AList.update k reason bad) x)"
      using 2(1) [OF True] n by simp
    then show ?thesis using True n by (auto simp: update_conv')
  next
    case False
    then show ?thesis using 2(2) by auto
  qed
qed simp

text \<open>What invalidating adds, and that nothing an invalidation recorded is lost.\<close>

lemma invalidate_seg_effect:
  assumes "invalidate_seg k reason m = (r, m')"
  shows "segs m' = segs m"
    and "map_of (invalid_segs m) x = Some y \<Longrightarrow> map_of (invalid_segs m') x = Some y"
    and "r = Inr True \<Longrightarrow> k \<in> fst ` set (segs m) \<and> map_of (invalid_segs m') k \<noteq> None"
proof -
  show "segs m' = segs m" using assms by (auto simp: invalidate_seg_def split: if_splits)
  show "map_of (invalid_segs m) x = Some y \<Longrightarrow> map_of (invalid_segs m') x = Some y"
    using assms by (auto simp: invalidate_seg_def map_of_set_default split: if_splits)
  assume r: "r = Inr True"
  then have "map_of (segs m) k \<noteq> None" "m' = m\<lparr>invalid_segs := set_default k reason (invalid_segs m)\<rparr>"
    using assms by (auto simp: invalidate_seg_def split: if_splits)
  then show "k \<in> fst ` set (segs m) \<and> map_of (invalid_segs m') k \<noteq> None"
    by (auto simp: map_of_set_default map_of_eq_None_iff [of "segs m"])
qed

lemma invalidate_plane_segs_effect:
  assumes "invalidate_plane_segs kind reason m = (n, m')"
  shows "segs m' = segs m"
    and "map_of (invalid_segs m) x = Some y \<Longrightarrow> map_of (invalid_segs m') x = Some y"
    and "k \<in> fst ` set (segs m) \<Longrightarrow> seg_kind k = kind \<Longrightarrow> map_of (invalid_segs m') k \<noteq> None"
proof -
  have bad: "invalid_segs m' = snd (mark_plane kind reason (map fst (segs m)) (invalid_segs m))" and same: "segs m' = segs m"
    using assms by (auto simp: invalidate_plane_segs_def split: prod.splits)
  show "segs m' = segs m" by (rule same)
  show "map_of (invalid_segs m) x = Some y \<Longrightarrow> map_of (invalid_segs m') x = Some y" by (simp add: bad mark_plane_map_of)
  show "k \<in> fst ` set (segs m) \<Longrightarrow> seg_kind k = kind \<Longrightarrow> map_of (invalid_segs m') k \<noteq> None" by (auto simp: bad mark_plane_map_of)
qed

lemma invalid_required_mono:
  assumes "invalid_required b m" and "segs m' = segs m"
    and "\<And>x y. map_of (invalid_segs m) x = Some y \<Longrightarrow> \<exists>z. map_of (invalid_segs m') x = Some z"
  shows "invalid_required b m'"
  using assms unfolding invalid_required_def by fastforce

section \<open>Concrete planes\<close>

definition demo_fp :: "plane_kind \<Rightarrow> plane_fingerprint" where
  "demo_fp kind = \<lparr>fp_kind = kind, fp_schema = 1, fp_identity = [(''layout'', ''a'')]\<rparr>"

definition demo_planes :: "int plane_world" where
  "demo_planes = run_calls plane_step
     [AddPlane ATTENTION_KV 7 (demo_fp ATTENTION_KV) True None, AddPlane MTP_DRAFT 9 (demo_fp MTP_DRAFT) True None,
      AdoptPlane ATTENTION_KV (demo_fp ATTENTION_KV), AdoptPlane ATTENTION_KV (demo_fp ATTENTION_KV)] no_planes"

lemma demo_planes_reachable: "reachable (\<lambda>w. w = no_planes) plane_step demo_planes"
  unfolding demo_planes_def by (intro reachable_run_calls reachable_init) simp

theorem plane_lease_keeps_its_payload_witness:
  "\<exists>p. map_of (planes_in (run_calls plane_step [InvalidateIn ATTENTION_KV ''evicted'', ClosePlaneLease 1] demo_planes)) ATTENTION_KV = Some p
     \<and> owner_payload p = Some 7 \<and> owner_pins p = 1"
proof -
  have "0 < length (plane_leases demo_planes)" "\<not> lease_closed (plane_leases demo_planes ! 0)"
    "leased_kind (plane_leases demo_planes ! 0) = ATTENTION_KV" "leased_payload (plane_leases demo_planes ! 0) = Some 7"
    "open_in ATTENTION_KV (plane_leases (run_calls plane_step [InvalidateIn ATTENTION_KV ''evicted'', ClosePlaneLease 1] demo_planes)) = 1"
    by code_simp+
  then show ?thesis
    using plane_lease_keeps_its_payload [OF demo_planes_reachable, of 0 "[InvalidateIn ATTENTION_KV ''evicted'', ClosePlaneLease 1]"] by force
qed

theorem invalidation_spares_other_planes_witness:
  "fst (adopt_plane MTP_DRAFT (demo_fp MTP_DRAFT) (planes_in (run_calls plane_step [InvalidateIn MTP_DRAFT ''stale'', InvalidateIn MTP_DRAFT ''later''] demo_planes)))
     = Fallback \<lparr>fallback_kind = MTP_DRAFT, fallback_reason = ''stale'', fallback_action = ''rebuild_mtp_draft''\<rparr>"
proof -
  obtain p where p: "map_of (planes_in demo_planes) MTP_DRAFT = Some p" "eligible p"
  proof -
    have "(case map_of (planes_in demo_planes) MTP_DRAFT of None \<Rightarrow> False | Some p \<Rightarrow> eligible p)" by code_simp
    then show ?thesis using that by (auto split: option.splits)
  qed
  then show ?thesis
    using invalidation_spares_other_planes [OF demo_planes_reachable p(1), of "''stale''" "[InvalidateIn MTP_DRAFT ''later'']" "demo_fp MTP_DRAFT"]
    by (simp only: simp_thms if_True plane_value.simps append.simps) simp
qed

definition demo_ledger :: transcript_ledger where
  "demo_ledger = \<lparr>ledger_tokenizer = ''t'', ledger_tokenizer_version = ''1'', ledger_revision = ''r'',
     ledger_segments = [\<lparr>transcript_id = ''a'', transcript_start = 0, transcript_stop = 2, transcript_tokens = [5, 6]\<rparr>,
       \<lparr>transcript_id = ''b'', transcript_start = 2, transcript_stop = 3, transcript_tokens = [7]\<rparr>],
     compaction_strategy = ''largest_first''\<rparr>"

theorem transcript_segments_tile_the_history_witness:
  "check_ledger demo_ledger = Inr () \<and> ledger_tokens demo_ledger = [5, 6, 7] \<and> (\<exists>!s. s \<in> set (ledger_segments demo_ledger) \<and> transcript_start s \<le> 2 \<and> 2 < transcript_stop s)"
proof -
  have ok: "check_ledger demo_ledger = Inr ()" "\<forall>s \<in> set (ledger_segments demo_ledger). check_transcript_segment s = Inr ()"
    "ledger_tokens demo_ledger = [5, 6, 7]"
    by code_simp+
  then show ?thesis using transcript_segments_tile_the_history [OF ok(1,2)] by (auto dest!: spec [of _ "2::nat"])
qed

end
