(* ===== verification/CowOwner.thy ===== *)
theory CowOwner
  imports CachePlanes
begin

text \<open>
  The copy-on-write owner of a frozen prompt cache and its branches (\<open>COWCacheOwner\<close>,
  \<open>COWPromptCacheBranch\<close>, \<open>COWFrozenPromptCache\<close> of \<^verbatim>\<open>runtime/cow_cache.py\<close>).

  Making a branch takes two critical sections: the first checks the generation and takes a pin,
  the graph is then cloned outside the lock, and the second checks again before the branch is
  adopted.  Between them any other call of any other thread may run, so a branch in the making is
  a \<open>pending\<close> value of the state and the two sections are two steps.  \<open>copy.deepcopy\<close> of a live
  branch holds the lock of that branch throughout: a call that would wait for it is not taken
  (\<open>lock_held\<close>).  A clone is a copy of the same value, of the opaque type \<open>'s\<close> (the list of cache
  objects) or \<open>'d\<close> (the sidecar); whether cloning raises is up to the environment.
\<close>

section \<open>Values\<close>

record 'k cow_metadata =
  meta_key :: 'k
  meta_tokens :: "int list"
  meta_type :: string
  meta_host :: "prompt_host option"
  meta_ledger :: "transcript_ledger option"
  meta_hints :: "ple_hints option"
  meta_schedule :: "schedule_metadata option"

record cow_telemetry =
  t_branches :: int
  t_failures :: int
  t_stale :: int
  t_invalidations :: int
  t_active :: int
  t_peak :: int
  t_releases :: int

definition zero_telemetry :: cow_telemetry where
  "zero_telemetry = \<lparr>t_branches = 0, t_failures = 0, t_stale = 0, t_invalidations = 0, t_active = 0, t_peak = 0, t_releases = 0\<rparr>"

definition lease_opened :: "cow_telemetry \<Rightarrow> cow_telemetry" where
  "lease_opened t = t\<lparr>t_active := t_active t + 1, t_peak := max (t_peak t) (t_active t + 1)\<rparr>"

definition telemetry_close :: "cow_telemetry \<Rightarrow> (unit, cow_telemetry) res" where
  "telemetry_close t =
     (if t_active t \<le> 0 then (Inl (RuntimeError ''COW cache lease accounting underflow''), t)
      else (Inr (), t\<lparr>t_active := t_active t - 1, t_releases := t_releases t + 1\<rparr>))"

record ('k, 's, 'd, 'p) cow_owner =
  cow_metadata :: "'k cow_metadata"
  cow_valid :: bool
  cow_generation :: int
  cow_pins :: int
  source_cache :: "'s option"
  source_sidecar :: "'d option"
  invalid_planes :: "(plane_kind \<times> string) list"
  plane_manifest :: "'p manifest"
  segment_manifest_of :: segment_manifest
  telemetry :: cow_telemetry

record ('k, 's, 'd) pending =
  p_generation :: int
  p_cache :: 's
  p_sidecar :: "'d option"
  p_metadata :: "'k cow_metadata"
  p_from :: "nat option"

record ('k, 's, 'd) cow_branch =
  b_generation :: int
  b_cache :: "'s option"
  b_sidecar :: "'d option"
  b_metadata :: "'k cow_metadata"
  b_closed :: bool

section \<open>The owner\<close>

definition TARGET_BLOCKING :: "plane_kind set" where
  "TARGET_BLOCKING = {ATTENTION_KV, ATTENTION_RING, QSA_SUMMARY, GDN_RECURRENT, MAMBA_RECURRENT}"

definition target_blocked :: "('k, 's, 'd, 'p) cow_owner \<Rightarrow> bool" where
  "target_blocked c \<longleftrightarrow> invalid_required False (segment_manifest_of c) \<or> (\<exists>kind \<in> fst ` set (invalid_planes c). kind \<in> TARGET_BLOCKING)"

definition branchable :: "int \<Rightarrow> ('k, 's, 'd, 'p) cow_owner \<Rightarrow> bool" where
  "branchable gen c \<longleftrightarrow> cow_valid c \<and> gen = cow_generation c \<and> source_cache c \<noteq> None \<and> \<not> target_blocked c"

definition plane_gone :: "plane_kind \<Rightarrow> ('k, 's, 'd, 'p) cow_owner \<Rightarrow> bool" where
  "plane_gone kind c \<longleftrightarrow> kind \<in> fst ` set (invalid_planes c)"

definition branch_metadata :: "('k, 's, 'd, 'p) cow_owner \<Rightarrow> 'k cow_metadata" where
  "branch_metadata c = (cow_metadata c)\<lparr>
     meta_host := (if plane_gone PROMPT_HOST c then None else meta_host (cow_metadata c)),
     meta_ledger := (if plane_gone TRANSCRIPT_LEDGER c then None else meta_ledger (cow_metadata c)),
     meta_hints := (if plane_gone PLE_HINTS c then None else meta_hints (cow_metadata c)),
     meta_schedule := (if plane_gone COMPILED_SCHEDULE c then None else meta_schedule (cow_metadata c))\<rparr>"

definition release_source :: "('k, 's, 'd, 'p) cow_owner \<Rightarrow> ('k, 's, 'd, 'p) cow_owner" where
  "release_source c = (if source_cache c \<noteq> None then c\<lparr>source_cache := None, source_sidecar := None\<rparr> else c)"

fun invalidate_all_segs :: "segment_key list \<Rightarrow> string \<Rightarrow> segment_manifest \<Rightarrow> segment_manifest" where
  "invalidate_all_segs [] reason m = m"
| "invalidate_all_segs (k # ks) reason m = invalidate_all_segs ks reason (snd (invalidate_seg k reason m))"

definition invalidate_cow :: "('k, 's, 'd, 'p) cow_owner \<Rightarrow> (int, ('k, 's, 'd, 'p) cow_owner) res" where
  "invalidate_cow c =
     (let c = (if cow_valid c
        then c\<lparr>cow_valid := False, cow_generation := cow_generation c + 1,
               telemetry := (telemetry c)\<lparr>t_invalidations := t_invalidations (telemetry c) + 1\<rparr>,
               plane_manifest := snd (invalidate_all ''owner_invalidated'' (plane_manifest c)),
               segment_manifest_of := invalidate_all_segs (map (\<lambda>ks. segment_key_of (snd ks)) (segs (segment_manifest_of c))) ''owner_invalidated'' (segment_manifest_of c)\<rparr>
        else c);
          c = (if cow_pins c = 0 then release_source c else c)
      in (Inr (cow_generation c), c))"

definition invalidate_cow_plane :: "plane_kind \<Rightarrow> string \<Rightarrow> ('k, 's, 'd, 'p) cow_owner \<Rightarrow> (int option, ('k, 's, 'd, 'p) cow_owner) res" where
  "invalidate_cow_plane kind reason c =
     (case invalidate_in kind reason (plane_manifest c) of
        (Inl e, ms) \<Rightarrow> (Inl e, c\<lparr>plane_manifest := ms\<rparr>)
      | (Inr None, ms) \<Rightarrow> (Inr None, c\<lparr>plane_manifest := ms\<rparr>)
      | (Inr (Some g), ms) \<Rightarrow> (Inr (Some g), c\<lparr>plane_manifest := ms, invalid_planes := AList.update kind reason (invalid_planes c),
           segment_manifest_of := snd (invalidate_plane_segs kind reason (segment_manifest_of c))\<rparr>))"

definition invalidate_cow_segment :: "segment_key \<Rightarrow> string \<Rightarrow> ('k, 's, 'd, 'p) cow_owner \<Rightarrow> (bool, ('k, 's, 'd, 'p) cow_owner) res" where
  "invalidate_cow_segment key reason c =
     (case invalidate_seg key reason (segment_manifest_of c) of
        (Inr True, m) \<Rightarrow>
          (case invalidate_in (seg_kind key) reason (plane_manifest c) of
             (r, ms) \<Rightarrow> (map_sum id (\<lambda>_. True) r, c\<lparr>segment_manifest_of := m, plane_manifest := ms,
                 invalid_planes := set_default (seg_kind key) reason (invalid_planes c)\<rparr>))
      | (r, m) \<Rightarrow> (r, c\<lparr>segment_manifest_of := m\<rparr>))"

definition release_pin :: "('k, 's, 'd, 'p) cow_owner \<Rightarrow> (unit, ('k, 's, 'd, 'p) cow_owner) res" where
  "release_pin c =
     (if cow_pins c \<le> 0 then (Inl (RuntimeError ''COW cache owner pin underflow''), c)
      else let c = c\<lparr>cow_pins := cow_pins c - 1\<rparr>;
               c = (if \<not> cow_valid c \<and> cow_pins c = 0 then release_source c else c)
           in case telemetry_close (telemetry c) of (r, t) \<Rightarrow> (r, c\<lparr>telemetry := t\<rparr>))"

definition take_pin :: "('k, 's, 'd, 'p) cow_owner \<Rightarrow> ('k, 's, 'd, 'p) cow_owner" where
  "take_pin c = c\<lparr>cow_pins := cow_pins c + 1, telemetry := lease_opened (telemetry c)\<rparr>"

definition count_stale :: "('k, 's, 'd, 'p) cow_owner \<Rightarrow> ('k, 's, 'd, 'p) cow_owner" where
  "count_stale c = c\<lparr>telemetry := (telemetry c)\<lparr>t_stale := t_stale (telemetry c) + 1\<rparr>\<rparr>"

definition count_branch :: "('k, 's, 'd, 'p) cow_owner \<Rightarrow> ('k, 's, 'd, 'p) cow_owner" where
  "count_branch c = c\<lparr>telemetry := (telemetry c)\<lparr>t_branches := t_branches (telemetry c) + 1\<rparr>\<rparr>"

text \<open>The first critical section of \<open>branch\<close>.\<close>

definition start_branch :: "int \<Rightarrow> ('k, 's, 'd, 'p) cow_owner \<Rightarrow> (('k, 's, 'd) pending, ('k, 's, 'd, 'p) cow_owner) res" where
  "start_branch gen c =
     (case source_cache c of
        Some src \<Rightarrow>
          if \<not> cow_valid c \<or> gen \<noteq> cow_generation c \<or> target_blocked c
          then (Inl (COWCacheStale ''APC COW source generation is stale''), count_stale c)
          else (Inr \<lparr>p_generation = gen, p_cache = src, p_sidecar = (if plane_gone MTP_DRAFT c then None else source_sidecar c),
                  p_metadata = cow_metadata c, p_from = None\<rparr>, take_pin c)
      | None \<Rightarrow> (Inl (COWCacheStale ''APC COW source generation is stale''), count_stale c))"

text \<open>The handler of \<open>branch\<close> and \<open>branch_live\<close>: whatever was raised, the pin is given back first.\<close>

definition fail_branch :: "exc \<Rightarrow> ('k, 's, 'd, 'p) cow_owner \<Rightarrow> (('k, 's, 'd) cow_branch, ('k, 's, 'd, 'p) cow_owner) res" where
  "fail_branch e c =
     bind_res (release_pin (c\<lparr>telemetry := (telemetry c)\<lparr>t_failures := t_failures (telemetry c) + 1\<rparr>\<rparr>)) (\<lambda>_ c. (Inl e, c))"

text \<open>Cloning (\<open>Some e\<close>: it raised \<open>e\<close>) and the second critical section.\<close>

definition finish_branch :: "('k, 's, 'd) pending \<Rightarrow> exc option \<Rightarrow> ('k, 's, 'd, 'p) cow_owner \<Rightarrow> (('k, 's, 'd) cow_branch, ('k, 's, 'd, 'p) cow_owner) res" where
  "finish_branch p outcome c =
     (case outcome of
        Some e \<Rightarrow> fail_branch e c
      | None \<Rightarrow>
          if p_from p = None \<and> (\<not> cow_valid c \<or> p_generation p \<noteq> cow_generation c \<or> target_blocked c)
          then fail_branch (COWCacheStale ''APC COW source changed before branch adoption'') (count_stale c)
          else (Inr \<lparr>b_generation = p_generation p, b_cache = Some (p_cache p),
                  b_sidecar = (if p_from p = None \<and> plane_gone MTP_DRAFT c then None else p_sidecar p),
                  b_metadata = (if p_from p = None then branch_metadata c else p_metadata p), b_closed = False\<rparr>, count_branch c))"

text \<open>The first critical section of \<open>branch_live\<close>.\<close>

definition start_live :: "nat \<Rightarrow> ('k, 's, 'd) cow_branch \<Rightarrow> ('k, 's, 'd, 'p) cow_owner \<Rightarrow> (('k, 's, 'd) pending, ('k, 's, 'd, 'p) cow_owner) res" where
  "start_live i b c =
     (case b_cache b of
        Some x \<Rightarrow>
          if b_closed b then (Inl (COWCacheError ''cannot deepcopy a closed COW cache branch''), c)
          else if cow_pins c \<le> 0 then (Inl (COWCacheStale ''live COW lineage is no longer pinned''), c)
          else (Inr \<lparr>p_generation = b_generation b, p_cache = x, p_sidecar = b_sidecar b, p_metadata = b_metadata b, p_from = Some i\<rparr>, take_pin c)
      | None \<Rightarrow> (Inl (COWCacheError ''cannot deepcopy a closed COW cache branch''), c))"

section \<open>The owner with its branches\<close>

record ('k, 's, 'd, 'p) cow_world =
  cow :: "('k, 's, 'd, 'p) cow_owner"
  pendings :: "('k, 's, 'd) pending option list"
  branches :: "('k, 's, 'd) cow_branch list"

datatype ('s, 'd) cow_call =
    StartBranch int
  | StartFork nat
  | StartLive nat
  | FinishBranch nat "exc option"
  | BranchRows int int "exc option list"
  | MutateBranch nat 's "'d option"
  | CloseBranch nat
  | InvalidateCow
  | InvalidateCowPlane plane_kind string
  | InvalidateCowSegment segment_key string

definition lock_held :: "nat \<Rightarrow> ('k, 's, 'd, 'p) cow_world \<Rightarrow> bool" where
  "lock_held i w \<longleftrightarrow> (\<exists>x \<in> set (pendings w). case x of None \<Rightarrow> False | Some p \<Rightarrow> p_from p = Some i)"

definition wait_for_lock :: "('k, 's, 'd, 'p) cow_world \<Rightarrow> (unit, ('k, 's, 'd, 'p) cow_world) res" where
  "wait_for_lock w = (Inl (RuntimeError ''waits for the lock of the branch''), w)"

definition begin_branch :: "(('k, 's, 'd) pending, ('k, 's, 'd, 'p) cow_owner) res \<Rightarrow> ('k, 's, 'd, 'p) cow_world \<Rightarrow> (unit, ('k, 's, 'd, 'p) cow_world) res" where
  "begin_branch r w =
     (case r of (Inl e, c) \<Rightarrow> (Inl e, w\<lparr>cow := c\<rparr>) | (Inr p, c) \<Rightarrow> (Inr (), w\<lparr>cow := c, pendings := pendings w @ [Some p]\<rparr>))"

definition close_branch :: "nat \<Rightarrow> ('k, 's, 'd, 'p) cow_world \<Rightarrow> (unit, ('k, 's, 'd, 'p) cow_world) res" where
  "close_branch i w =
     (if b_closed (branches w ! i) then (Inr (), w)
      else case release_pin (cow w) of
             (r, c) \<Rightarrow> (r, w\<lparr>cow := c, branches := (branches w)[i := (branches w ! i)\<lparr>b_closed := True, b_cache := None, b_sidecar := None\<rparr>]\<rparr>))"

text \<open>\<open>branch_rows\<close>: the branches made so far are closed when one of them cannot be made.\<close>

fun close_branches :: "nat list \<Rightarrow> ('k, 's, 'd, 'p) cow_world \<Rightarrow> (unit, ('k, 's, 'd, 'p) cow_world) res" where
  "close_branches [] w = (Inr (), w)"
| "close_branches (i # is) w = bind_res (close_branch i w) (\<lambda>_ w. close_branches is w)"

fun rows_loop :: "int \<Rightarrow> exc option list \<Rightarrow> nat list \<Rightarrow> ('k, 's, 'd, 'p) cow_world \<Rightarrow> (nat list, ('k, 's, 'd, 'p) cow_world) res" where
  "rows_loop gen [] made w = (Inr made, w)"
| "rows_loop gen (x # xs) made w =
     (case start_branch gen (cow w) of
        (Inl e, c) \<Rightarrow> bind_res (close_branches made (w\<lparr>cow := c\<rparr>)) (\<lambda>_ w. (Inl e, w))
      | (Inr p, c) \<Rightarrow>
          (case finish_branch p x c of
             (Inl e, c) \<Rightarrow> bind_res (close_branches made (w\<lparr>cow := c\<rparr>)) (\<lambda>_ w. (Inl e, w))
           | (Inr b, c) \<Rightarrow> rows_loop gen xs (made @ [length (branches w)]) (w\<lparr>cow := c, branches := branches w @ [b]\<rparr>)))"

definition branch_rows :: "int \<Rightarrow> int \<Rightarrow> exc option list \<Rightarrow> ('k, 's, 'd, 'p) cow_world \<Rightarrow> (nat list, ('k, 's, 'd, 'p) cow_world) res" where
  "branch_rows gen rows xs w =
     (if rows < 1 then (Inl (ValueError ''COW cache row count must be a positive integer''), w)
      else rows_loop gen (take (nat rows) (xs @ replicate (nat rows) None)) [] w)"

definition finish_pending :: "nat \<Rightarrow> exc option \<Rightarrow> ('k, 's, 'd, 'p) cow_world \<Rightarrow> (unit, ('k, 's, 'd, 'p) cow_world) res" where
  "finish_pending j x w =
     (if j < length (pendings w)
      then case pendings w ! j of
             None \<Rightarrow> (Inl (IndexError ''no branch in the making''), w)
           | Some p \<Rightarrow>
               (case finish_branch p x (cow w) of
                  (Inl e, c) \<Rightarrow> (Inl e, w\<lparr>cow := c, pendings := (pendings w)[j := None]\<rparr>)
                | (Inr b, c) \<Rightarrow> (Inr (), w\<lparr>cow := c, pendings := (pendings w)[j := None], branches := branches w @ [b]\<rparr>))
      else (Inl (IndexError ''no branch in the making''), w))"

fun cow_step :: "('s, 'd) cow_call \<Rightarrow> ('k, 's, 'd, 'p) cow_world \<Rightarrow> (unit, ('k, 's, 'd, 'p) cow_world) res" where
  "cow_step (StartBranch gen) w = begin_branch (start_branch gen (cow w)) w"
| "cow_step (StartFork i) w =
     (if i < length (branches w)
      then if lock_held i w then wait_for_lock w
           else if b_closed (branches w ! i) then (Inl (COWCacheError ''cannot fork a closed COW cache branch''), w)
           else begin_branch (start_branch (b_generation (branches w ! i)) (cow w)) w
      else (Inl (IndexError ''no such branch''), w))"
| "cow_step (StartLive i) w =
     (if i < length (branches w)
      then if lock_held i w then wait_for_lock w else begin_branch (start_live i (branches w ! i) (cow w)) w
      else (Inl (IndexError ''no such branch''), w))"
| "cow_step (FinishBranch j x) w = finish_pending j x w"
| "cow_step (BranchRows gen rows xs) w = (case branch_rows gen rows xs w of (r, w) \<Rightarrow> (map_sum id (\<lambda>_. ()) r, w))"
| "cow_step (MutateBranch i x sd) w =
     (if i < length (branches w)
      then if lock_held i w then wait_for_lock w
           else if b_closed (branches w ! i) then (Inl (COWCacheError ''cannot mutate a closed COW cache branch''), w)
           else (Inr (), w\<lparr>branches := (branches w)[i := (branches w ! i)\<lparr>b_cache := Some x, b_sidecar := sd\<rparr>]\<rparr>)
      else (Inl (IndexError ''no such branch''), w))"
| "cow_step (CloseBranch i) w =
     (if i < length (branches w) then if lock_held i w then wait_for_lock w else close_branch i w
      else (Inl (IndexError ''no such branch''), w))"
| "cow_step InvalidateCow w = (case invalidate_cow (cow w) of (r, c) \<Rightarrow> (map_sum id (\<lambda>_. ()) r, w\<lparr>cow := c\<rparr>))"
| "cow_step (InvalidateCowPlane kind reason) w = (case invalidate_cow_plane kind reason (cow w) of (r, c) \<Rightarrow> (map_sum id (\<lambda>_. ()) r, w\<lparr>cow := c\<rparr>))"
| "cow_step (InvalidateCowSegment key reason) w = (case invalidate_cow_segment key reason (cow w) of (r, c) \<Rightarrow> (map_sum id (\<lambda>_. ()) r, w\<lparr>cow := c\<rparr>))"

definition fresh_cow :: "'k cow_metadata \<Rightarrow> 's \<Rightarrow> 'd option \<Rightarrow> 'p manifest \<Rightarrow> segment_manifest \<Rightarrow> ('k, 's, 'd, 'p) cow_world" where
  "fresh_cow meta src sd ms sm =
     \<lparr>cow = \<lparr>cow_metadata = meta, cow_valid = True, cow_generation = 0, cow_pins = 0, source_cache = Some src, source_sidecar = sd,
        invalid_planes = [], plane_manifest = ms, segment_manifest_of = sm, telemetry = zero_telemetry\<rparr>,
      pendings = [], branches = []\<rparr>"

text \<open>
  \<open>__init__\<close>: the planes of the device arrays are computed from the arrays and are arguments, the
  host planes come from the metadata.  \<open>show_ints\<close> is Python's \<open>str\<close> of a tuple of integers.
\<close>

datatype 'x plane_payload = DevicePayload 'x | HostPayload prompt_host | LedgerPayload transcript_ledger
  | HintsPayload ple_hints | SchedulePayload schedule_metadata

definition hints_fingerprint :: "(int list \<Rightarrow> string) \<Rightarrow> ple_hints \<Rightarrow> exc + plane_fingerprint" where
  "hints_fingerprint show_ints h = from_fields PLE_HINTS 1
     [(''policy'', policy_version h), (''backing'', backing_identity h), (''layers'', show_ints (resident_layers h))]"

definition schedule_fingerprint :: "(int list \<Rightarrow> string) \<Rightarrow> schedule_metadata \<Rightarrow> exc + plane_fingerprint" where
  "schedule_fingerprint show_ints s = from_fields COMPILED_SCHEDULE 1
     [(''implementation'', implementation_digest s), (''schedule'', schedule_digest s),
      (''runtime'', runtime_fingerprint s), (''geometry'', show_ints (geometry s))]"

definition host_plane :: "plane_kind \<Rightarrow> ('a \<Rightarrow> 'p) \<Rightarrow> ('a \<Rightarrow> exc + plane_fingerprint) \<Rightarrow> 'a option \<Rightarrow> (exc + 'p plane_owner) list" where
  "host_plane kind payload fp x =
     (case x of None \<Rightarrow> [] | Some v \<Rightarrow> [bind_sum (fp v) (\<lambda>f. new_plane_owner kind (payload v) f True None)])"

definition metadata_planes :: "(int list \<Rightarrow> string) \<Rightarrow> ((string \<times> int \<times> int \<times> string) list \<Rightarrow> string) \<Rightarrow> (int list \<Rightarrow> string) \<Rightarrow> 'k cow_metadata
    \<Rightarrow> (exc + 'x plane_payload plane_owner) list" where
  "metadata_planes digest show_manifest show_ints meta =
     host_plane PROMPT_HOST HostPayload host_fingerprint (meta_host meta)
     @ host_plane TRANSCRIPT_LEDGER LedgerPayload (ledger_fingerprint digest show_manifest) (meta_ledger meta)
     @ host_plane PLE_HINTS HintsPayload (hints_fingerprint show_ints) (meta_hints meta)
     @ host_plane COMPILED_SCHEDULE SchedulePayload (schedule_fingerprint show_ints) (meta_schedule meta)"

fun add_planes :: "(exc + 'p plane_owner) list \<Rightarrow> 'p manifest \<Rightarrow> exc + 'p manifest" where
  "add_planes [] ms = Inr ms"
| "add_planes (p # ps) ms = bind_sum p (\<lambda>p. case add_plane p ms of (Inl e, _) \<Rightarrow> Inl e | (Inr _, ms) \<Rightarrow> add_planes ps ms)"

definition new_cow :: "(int list \<Rightarrow> string) \<Rightarrow> ((string \<times> int \<times> int \<times> string) list \<Rightarrow> string) \<Rightarrow> (int list \<Rightarrow> string) \<Rightarrow> 'k cow_metadata
    \<Rightarrow> 's \<Rightarrow> 'd option \<Rightarrow> 'x plane_payload plane_owner list \<Rightarrow> layer_segment list \<Rightarrow> exc + ('k, 's, 'd, 'x plane_payload) cow_world" where
  "new_cow digest show_manifest show_ints meta src sd device segments =
     bind_sum (add_planes (map Inr device @ metadata_planes digest show_manifest show_ints meta) []) (\<lambda>ms.
     bind_sum (new_segment_manifest segments) (\<lambda>sm. Inr (fresh_cow meta src sd ms sm)))"

lemma new_cow_reachable:
  "new_cow digest show_manifest show_ints meta src sd device segments = Inr w
     \<Longrightarrow> reachable (\<lambda>w. \<exists>ms sm. w = fresh_cow meta src sd ms sm) cow_step w"
  by (rule reachable_init) (auto simp: new_cow_def)

section \<open>The account of pins\<close>

lemma lock_held_iff: "lock_held i w \<longleftrightarrow> (\<exists>p. Some p \<in> set (pendings w) \<and> p_from p = Some i)"
  by (force simp: lock_held_def split: option.splits)

text \<open>The owner of the frozen cache \<open>src\<close> with sidecar \<open>sd\<close>, holding \<open>n\<close> pins.\<close>

definition owner_ok :: "'s \<Rightarrow> 'd option \<Rightarrow> 'k cow_metadata \<Rightarrow> nat \<Rightarrow> ('k, 's, 'd, 'p) cow_owner \<Rightarrow> bool" where
  "owner_ok src sd meta n c \<longleftrightarrow> cow_pins c = int n \<and> t_active (telemetry c) = int n
     \<and> source_cache c = (if \<not> cow_valid c \<and> n = 0 then None else Some src)
     \<and> source_sidecar c = (if \<not> cow_valid c \<and> n = 0 then None else sd)
     \<and> cow_generation c = (if cow_valid c then 0 else 1) \<and> cow_metadata c = meta"

lemma owner_ok_release:
  assumes "owner_ok src sd meta (Suc n) c"
  obtains c' where "release_pin c = (Inr (), c')" "owner_ok src sd meta n c'" "cow_valid c' = cow_valid c"
    "invalid_planes c' = invalid_planes c" "segment_manifest_of c' = segment_manifest_of c" "plane_manifest c' = plane_manifest c"
proof -
  have "fst (release_pin c) = Inr ()" "owner_ok src sd meta n (snd (release_pin c))" "cow_valid (snd (release_pin c)) = cow_valid c"
    "invalid_planes (snd (release_pin c)) = invalid_planes c" "segment_manifest_of (snd (release_pin c)) = segment_manifest_of c"
    "plane_manifest (snd (release_pin c)) = plane_manifest c"
    using assms by (auto simp: release_pin_def owner_ok_def telemetry_close_def release_source_def Let_def)
  then show ?thesis using that [of "snd (release_pin c)"] by (metis prod.collapse)
qed

lemma owner_ok_take:
  "owner_ok src sd meta n c \<Longrightarrow> cow_valid c \<or> 0 < n \<Longrightarrow> owner_ok src sd meta (Suc n) (take_pin c)"
  by (auto simp: owner_ok_def take_pin_def lease_opened_def)

lemma owner_ok_counts [simp]:
  "owner_ok src sd meta n (count_stale c) = owner_ok src sd meta n c"
  "owner_ok src sd meta n (count_branch c) = owner_ok src sd meta n c"
  "owner_ok src sd meta n (c\<lparr>telemetry := (telemetry c)\<lparr>t_failures := x\<rparr>\<rparr>) = owner_ok src sd meta n c"
  by (auto simp: owner_ok_def count_stale_def count_branch_def)

lemma guards_counts [simp]:
  "cow_valid (count_stale c) = cow_valid c" "target_blocked (count_stale c) = target_blocked c" "plane_gone k (count_stale c) = plane_gone k c"
  "cow_valid (count_branch c) = cow_valid c" "target_blocked (count_branch c) = target_blocked c" "plane_gone k (count_branch c) = plane_gone k c"
  "cow_valid (take_pin c) = cow_valid c" "target_blocked (take_pin c) = target_blocked c" "plane_gone k (take_pin c) = plane_gone k c"
  by (simp_all add: count_stale_def count_branch_def take_pin_def target_blocked_def plane_gone_def)

text \<open>What the environment may observe of the guards only ever gets stricter: \<open>later\<close>.\<close>

definition later :: "('k, 's, 'd, 'p) cow_owner \<Rightarrow> ('k, 's, 'd, 'p) cow_owner \<Rightarrow> bool" where
  "later c c' \<longleftrightarrow> (cow_valid c' \<longrightarrow> cow_valid c) \<and> (target_blocked c \<longrightarrow> target_blocked c') \<and> (\<forall>k. plane_gone k c \<longrightarrow> plane_gone k c')"

lemma later_refl [simp]: "later c c"
  by (simp add: later_def)

lemma later_trans: "later a b \<Longrightarrow> later b c \<Longrightarrow> later a c"
  by (auto simp: later_def)

lemma later_same:
  "cow_valid c' = cow_valid c \<Longrightarrow> invalid_planes c' = invalid_planes c \<Longrightarrow> segment_manifest_of c' = segment_manifest_of c \<Longrightarrow> later c c'"
  by (simp add: later_def target_blocked_def plane_gone_def)

lemma later_counts [simp]: "later c (count_stale c)" "later c (count_branch c)" "later c (take_pin c)"
  by (simp_all add: later_def)

lemma start_branch_cases [consumes 1, case_names refused done_]:
  assumes "owner_ok src sd meta n c"
  obtains (refused) e where "start_branch gen c = (Inl e, count_stale c)" "\<not> branchable gen c"
  | (done_) p where "start_branch gen c = (Inr p, take_pin c)" "branchable gen c" "owner_ok src sd meta (Suc n) (take_pin c)"
      "p = \<lparr>p_generation = gen, p_cache = src, p_sidecar = (if plane_gone MTP_DRAFT c then None else sd), p_metadata = meta, p_from = None\<rparr>"
proof (cases "branchable gen c")
  case True
  then have src: "source_cache c = Some src" "source_sidecar c = sd" "cow_metadata c = meta" "cow_valid c"
    using assms by (auto simp: owner_ok_def branchable_def)
  then have "start_branch gen c = (Inr \<lparr>p_generation = gen, p_cache = src, p_sidecar = (if plane_gone MTP_DRAFT c then None else sd),
      p_metadata = meta, p_from = None\<rparr>, take_pin c)"
    using True by (auto simp: start_branch_def branchable_def)
  then show ?thesis by (rule done_ [OF _ True owner_ok_take [OF assms]]) (use src(4) in simp_all)
next
  case False
  then have "start_branch gen c = (Inl (COWCacheStale ''APC COW source generation is stale''), count_stale c)"
    by (auto simp: start_branch_def branchable_def split: option.splits)
  then show ?thesis using refused False by blast
qed

lemma fail_branch_ok:
  assumes "owner_ok src sd meta (Suc n) c"
  obtains c' where "fail_branch e c = (Inl e, c')" "owner_ok src sd meta n c'" "later c c'"
proof -
  let ?c = "c\<lparr>telemetry := (telemetry c)\<lparr>t_failures := t_failures (telemetry c) + 1\<rparr>\<rparr>"
  obtain c' where c': "release_pin ?c = (Inr (), c')" "owner_ok src sd meta n c'" "cow_valid c' = cow_valid ?c"
      "invalid_planes c' = invalid_planes ?c" "segment_manifest_of c' = segment_manifest_of ?c"
    by (rule owner_ok_release [of src sd meta n ?c]) (use assms in simp_all)
  have "later c c'" by (rule later_same) (use c'(3-5) in simp_all)
  then show ?thesis using that c'(1,2) by (simp add: fail_branch_def)
qed

lemma fail_branch_raises: "fst (fail_branch e c) \<noteq> Inr b"
  by (cases "release_pin (c\<lparr>telemetry := (telemetry c)\<lparr>t_failures := t_failures (telemetry c) + 1\<rparr>\<rparr>)")
    (auto simp: fail_branch_def bind_res_def split: sum.splits)

lemma finish_branch_cases [consumes 1, case_names failed done_]:
  assumes "owner_ok src sd meta (Suc n) c"
  obtains (failed) e c' where "finish_branch p x c = (Inl e, c')" "owner_ok src sd meta n c'" "later c c'"
  | (done_) b where "finish_branch p x c = (Inr b, count_branch c)"
      "p_from p = None \<Longrightarrow> cow_valid c \<and> p_generation p = cow_generation c \<and> \<not> target_blocked c"
      "b = \<lparr>b_generation = p_generation p, b_cache = Some (p_cache p),
              b_sidecar = (if p_from p = None \<and> plane_gone MTP_DRAFT c then None else p_sidecar p),
              b_metadata = (if p_from p = None then branch_metadata c else p_metadata p), b_closed = False\<rparr>"
proof (cases x)
  case (Some e)
  obtain c' where "fail_branch e c = (Inl e, c' :: ('c, 'a, 'b, 'd) cow_owner)" "owner_ok src sd meta n c'" "later c c'"
    by (rule fail_branch_ok [OF assms])
  then show ?thesis using failed Some by (simp add: finish_branch_def)
next
  case None
  show ?thesis
  proof (cases "p_from p = None \<and> (\<not> cow_valid c \<or> p_generation p \<noteq> cow_generation c \<or> target_blocked c)")
    case True
    have ok: "owner_ok src sd meta (Suc n) (count_stale c)" using assms by simp
    obtain c' where c': "fail_branch (COWCacheStale ''APC COW source changed before branch adoption'') (count_stale c)
        = (Inl (COWCacheStale ''APC COW source changed before branch adoption''), c')" "owner_ok src sd meta n c'" "later (count_stale c) c'"
      by (rule fail_branch_ok [OF ok])
    have "finish_branch p x c = (Inl (COWCacheStale ''APC COW source changed before branch adoption''), c')"
      using None True c'(1) by (simp add: finish_branch_def)
    then show ?thesis by (rule failed [OF _ c'(2)]) (rule later_trans [OF later_counts(1) c'(3)])
  next
    case False
    then show ?thesis using done_ None by (auto simp: finish_branch_def)
  qed
qed

lemma invalidate_all_segs_effect:
  "segs (invalidate_all_segs ks reason m) = segs m
     \<and> (map_of (invalid_segs m) x = Some y \<longrightarrow> map_of (invalid_segs (invalidate_all_segs ks reason m)) x = Some y)"
proof (induction ks arbitrary: m)
  case (Cons k ks)
  obtain r m' where m': "invalidate_seg k reason m = (r, m')" by fastforce
  show ?case using Cons.IH [of m'] invalidate_seg_effect(1,2) [OF m'] m' by auto
qed simp

lemma invalidate_cow_ok:
  assumes "owner_ok src sd meta n c"
  obtains g c' where "invalidate_cow c = (Inr g, c')" "owner_ok src sd meta n c'" "later c c'" "\<not> cow_valid c'"
proof -
  have "fst (invalidate_cow c) = Inr (cow_generation (snd (invalidate_cow c)))" by (simp add: invalidate_cow_def Let_def)
  moreover have "owner_ok src sd meta n (snd (invalidate_cow c))" "\<not> cow_valid (snd (invalidate_cow c))"
    using assms by (auto simp: invalidate_cow_def owner_ok_def release_source_def Let_def)
  moreover have "target_blocked (snd (invalidate_cow c))" if "target_blocked c"
  proof -
    have planes: "invalid_planes (snd (invalidate_cow c)) = invalid_planes c"
      by (simp add: invalidate_cow_def release_source_def Let_def)
    have "invalid_required False (segment_manifest_of (snd (invalidate_cow c)))" if "invalid_required False (segment_manifest_of c)"
      by (rule invalid_required_mono [OF that]) (auto simp: invalidate_cow_def release_source_def invalidate_all_segs_effect Let_def)
    then show ?thesis using that planes by (auto simp: target_blocked_def)
  qed
  moreover have "plane_gone k (snd (invalidate_cow c)) = plane_gone k c" for k
    by (simp add: plane_gone_def invalidate_cow_def release_source_def Let_def)
  ultimately show ?thesis
    by (intro that [of "cow_generation (snd (invalidate_cow c))" "snd (invalidate_cow c)"]) (simp_all add: later_def prod_eq_iff)
qed

lemma gone_update: "fst ` set (AList.update kind r xs) = insert kind (fst ` set xs)"
  using dom_map_of_conv_image_fst [of "AList.update kind r xs"] dom_map_of_conv_image_fst [of xs] by (auto simp: update_conv')

lemma gone_set_default: "fst ` set (set_default kind r xs) = insert kind (fst ` set xs)"
  using gone_update [of kind r xs] map_of_eq_None_iff [of xs kind] by (auto simp: set_default_def)

lemma target_blocked_mono:
  assumes "target_blocked c" and "fst ` set (invalid_planes c) \<subseteq> fst ` set (invalid_planes c')"
    and "segs (segment_manifest_of c') = segs (segment_manifest_of c)"
    and "\<And>x y. map_of (invalid_segs (segment_manifest_of c)) x = Some y \<Longrightarrow> map_of (invalid_segs (segment_manifest_of c')) x = Some y"
  shows "target_blocked c'"
proof -
  have "invalid_required False (segment_manifest_of c')" if "invalid_required False (segment_manifest_of c)"
    by (rule invalid_required_mono [OF that assms(3)]) (use assms(4) in blast)
  then show ?thesis using assms(1,2) unfolding target_blocked_def by blast
qed

lemma invalidate_cow_plane_ok:
  assumes "owner_ok src sd meta n c" and "invalidate_cow_plane kind reason c = (r, c')"
  shows "owner_ok src sd meta n c' \<and> later c c' \<and> cow_valid c' = cow_valid c \<and> (\<forall>g. r = Inr (Some g) \<longrightarrow> plane_gone kind c')"
proof -
  obtain x ms where x: "invalidate_in kind reason (plane_manifest c) = (x, ms)" by fastforce
  show ?thesis
  proof (cases "\<exists>g. x = Inr (Some g)")
    case False
    then have "c' = c\<lparr>plane_manifest := ms\<rparr>" "\<forall>g. r \<noteq> Inr (Some g)"
      using assms(2) x by (auto simp: invalidate_cow_plane_def split: sum.splits option.splits)
    then show ?thesis using assms(1) by (auto simp: owner_ok_def intro!: later_same)
  next
    case True
    then obtain n' sm where sm: "invalidate_plane_segs kind reason (segment_manifest_of c) = (n', sm)"
      and c': "c' = c\<lparr>plane_manifest := ms, invalid_planes := AList.update kind reason (invalid_planes c), segment_manifest_of := sm\<rparr>"
      using assms(2) x by (cases "invalidate_plane_segs kind reason (segment_manifest_of c)") (auto simp: invalidate_cow_plane_def)
    have "target_blocked c'" if "target_blocked c"
      by (rule target_blocked_mono [OF that])
        (use invalidate_plane_segs_effect(1,2) [OF sm] in \<open>simp_all add: c' gone_update subset_insertI\<close>)
    then show ?thesis using assms(1) by (auto simp: c' owner_ok_def later_def plane_gone_def gone_update)
  qed
qed

lemma invalidate_cow_segment_ok:
  assumes "owner_ok src sd meta n c" and "invalidate_cow_segment key reason c = (r, c')"
  shows "owner_ok src sd meta n c' \<and> later c c' \<and> cow_valid c' = cow_valid c \<and> (r = Inr True \<longrightarrow> plane_gone (seg_kind key) c')"
proof -
  obtain x m where x: "invalidate_seg key reason (segment_manifest_of c) = (x, m)" by fastforce
  note keeps = invalidate_seg_effect(1,2) [OF x]
  show ?thesis
  proof (cases "x = Inr True")
    case False
    then have c': "c' = c\<lparr>segment_manifest_of := m\<rparr>" "r \<noteq> Inr True"
      using assms(2) x by (auto simp: invalidate_cow_segment_def split: sum.splits bool.splits)
    have "target_blocked c'" if "target_blocked c" by (rule target_blocked_mono [OF that]) (use keeps in \<open>auto simp: c'\<close>)
    then show ?thesis using assms(1) c' by (auto simp: owner_ok_def later_def plane_gone_def)
  next
    case True
    obtain y ms where y: "invalidate_in (seg_kind key) reason (plane_manifest c) = (y, ms)" by fastforce
    then have c': "c' = c\<lparr>segment_manifest_of := m, plane_manifest := ms, invalid_planes := set_default (seg_kind key) reason (invalid_planes c)\<rparr>"
      using assms(2) x True by (simp add: invalidate_cow_segment_def)
    have "target_blocked c'" if "target_blocked c"
      by (rule target_blocked_mono [OF that]) (use keeps in \<open>simp_all add: c' gone_set_default subset_insertI\<close>)
    then show ?thesis using assms(1) by (auto simp: c' owner_ok_def later_def plane_gone_def gone_set_default)
  qed
qed

section \<open>The invariant of owner and branches\<close>

definition in_progress :: "('k, 's, 'd) pending option list \<Rightarrow> nat" where
  "in_progress ps = length (filter (\<lambda>p. p \<noteq> None) ps)"

definition open_branches :: "('k, 's, 'd) cow_branch list \<Rightarrow> nat" where
  "open_branches bs = length (filter (\<lambda>b. \<not> b_closed b) bs)"

definition pending_ok :: "'s \<Rightarrow> 'd option \<Rightarrow> 'k cow_metadata \<Rightarrow> ('k, 's, 'd, 'p) cow_owner \<Rightarrow> ('k, 's, 'd) cow_branch list \<Rightarrow> ('k, 's, 'd) pending \<Rightarrow> bool" where
  "pending_ok src sd meta c bs p \<longleftrightarrow> (case p_from p of
     None \<Rightarrow> p_cache p = src \<and> (p_sidecar p = sd \<or> p_sidecar p = None \<and> plane_gone MTP_DRAFT c)
   | Some i \<Rightarrow> i < length bs \<and> \<not> b_closed (bs ! i) \<and> b_cache (bs ! i) = Some (p_cache p) \<and> p_sidecar p = b_sidecar (bs ! i)
       \<and> p_generation p = b_generation (bs ! i) \<and> p_metadata p = b_metadata (bs ! i))"

definition cow_branch_ok :: "('k, 's, 'd) cow_branch \<Rightarrow> bool" where
  "cow_branch_ok b \<longleftrightarrow> b_closed b \<or> b_cache b \<noteq> None"

definition cow_inv :: "'s \<Rightarrow> 'd option \<Rightarrow> 'k cow_metadata \<Rightarrow> ('k, 's, 'd, 'p) cow_world \<Rightarrow> bool" where
  "cow_inv src sd meta w \<longleftrightarrow> owner_ok src sd meta (in_progress (pendings w) + open_branches (branches w)) (cow w)
     \<and> (\<forall>p. Some p \<in> set (pendings w) \<longrightarrow> pending_ok src sd meta (cow w) (branches w) p) \<and> (\<forall>b \<in> set (branches w). cow_branch_ok b)"

lemma cow_invI:
  assumes "owner_ok src sd meta (in_progress (pendings w) + open_branches (branches w)) (cow w)"
    and "\<And>p. Some p \<in> set (pendings w) \<Longrightarrow> pending_ok src sd meta (cow w) (branches w) p" and "\<And>b. b \<in> set (branches w) \<Longrightarrow> cow_branch_ok b"
  shows "cow_inv src sd meta w"
  using assms by (simp add: cow_inv_def)

lemma cow_invD:
  assumes "cow_inv src sd meta w"
  shows "owner_ok src sd meta (in_progress (pendings w) + open_branches (branches w)) (cow w)"
    and "Some p \<in> set (pendings w) \<Longrightarrow> pending_ok src sd meta (cow w) (branches w) p"
    and "b \<in> set (branches w) \<Longrightarrow> cow_branch_ok b"
  using assms by (auto simp: cow_inv_def)

lemma in_progress_append [simp]: "in_progress (ps @ [Some p]) = Suc (in_progress ps)"
  by (simp add: in_progress_def)

lemma open_branches_append [simp]: "open_branches (bs @ [b]) = open_branches bs + (if b_closed b then 0 else 1)"
  by (simp add: open_branches_def)

lemma in_progress_done: "j < length ps \<Longrightarrow> ps ! j = Some p \<Longrightarrow> Suc (in_progress (ps[j := None])) = in_progress ps"
  using filter_update_count [of j ps "\<lambda>p. p \<noteq> None" None] by (simp add: in_progress_def)

lemma open_branches_close:
  "i < length bs \<Longrightarrow> \<not> b_closed (bs ! i) \<Longrightarrow> b_closed b \<Longrightarrow> Suc (open_branches (bs[i := b])) = open_branches bs"
  using filter_update_count [of i bs "\<lambda>b. \<not> b_closed b" b] by (simp add: open_branches_def)

lemma open_branches_keep:
  "i < length bs \<Longrightarrow> b_closed b = b_closed (bs ! i) \<Longrightarrow> open_branches (bs[i := b]) = open_branches bs"
  using filter_update_count [of i bs "\<lambda>b. \<not> b_closed b" b] by (simp add: open_branches_def split: if_splits)

lemma open_branches_pos: "i < length bs \<Longrightarrow> \<not> b_closed (bs ! i) \<Longrightarrow> 0 < open_branches bs"
  by (force simp: open_branches_def filter_empty_conv in_set_conv_nth)

lemma pending_ok_later: "pending_ok src sd meta c bs p \<Longrightarrow> later c c' \<Longrightarrow> pending_ok src sd meta c' bs p"
  by (auto simp: pending_ok_def later_def split: option.splits)

lemma pending_ok_append: "pending_ok src sd meta c bs p \<Longrightarrow> pending_ok src sd meta c (bs @ [b]) p"
  by (auto simp: pending_ok_def nth_append split: option.splits)

lemma pending_ok_update:
  "pending_ok src sd meta c bs p \<Longrightarrow> p_from p \<noteq> Some i \<Longrightarrow> pending_ok src sd meta c (bs[i := b]) p"
  by (auto simp: pending_ok_def split: option.splits)

text \<open>A step that only lets the guards of the owner become stricter.\<close>

lemma cow_inv_owner:
  assumes "cow_inv src sd meta w" and "owner_ok src sd meta (in_progress (pendings w) + open_branches (branches w)) c" and "later (cow w) c"
  shows "cow_inv src sd meta (w\<lparr>cow := c\<rparr>)"
proof (rule cow_invI)
  show "pending_ok src sd meta (cow (w\<lparr>cow := c\<rparr>)) (branches (w\<lparr>cow := c\<rparr>)) p" if "Some p \<in> set (pendings (w\<lparr>cow := c\<rparr>))" for p
    using pending_ok_later [OF cow_invD(2) [OF assms(1)] assms(3)] that by simp
qed (use assms(2) cow_invD(3) [OF assms(1)] in simp_all)

lemma cow_inv_begin:
  assumes inv: "cow_inv src sd meta w" and p: "pending_ok src sd meta (cow w) (branches w) p"
    and c: "owner_ok src sd meta (Suc (in_progress (pendings w) + open_branches (branches w))) c" "later (cow w) c"
  shows "cow_inv src sd meta (w\<lparr>cow := c, pendings := pendings w @ [Some p]\<rparr>)"
proof (rule cow_invI)
  show "pending_ok src sd meta (cow (w\<lparr>cow := c, pendings := pendings w @ [Some p]\<rparr>)) (branches (w\<lparr>cow := c, pendings := pendings w @ [Some p]\<rparr>)) q"
    if "Some q \<in> set (pendings (w\<lparr>cow := c, pendings := pendings w @ [Some p]\<rparr>))" for q
    using that pending_ok_later [OF _ c(2)] p cow_invD(2) [OF inv] by auto
qed (use c(1) cow_invD(3) [OF inv] in simp_all)

lemma cow_inv_stale: "cow_inv src sd meta w \<Longrightarrow> cow_inv src sd meta (w\<lparr>cow := count_stale (cow w)\<rparr>)"
  by (rule cow_inv_owner) (auto dest: cow_invD(1))

lemma begin_start_inv:
  assumes inv: "cow_inv src sd meta w"
  shows "cow_inv src sd meta (snd (begin_branch (start_branch gen (cow w)) w))"
  using cow_invD(1) [OF inv]
proof (cases rule: start_branch_cases [where gen = gen])
  case (refused e)
  then show ?thesis using cow_inv_stale [OF inv] by (simp add: begin_branch_def)
next
  case (done_ p)
  have "cow_inv src sd meta (w\<lparr>cow := take_pin (cow w), pendings := pendings w @ [Some p]\<rparr>)"
    by (rule cow_inv_begin [OF inv _ done_(3)]) (auto simp: pending_ok_def done_(4))
  then show ?thesis using done_(1) by (simp add: begin_branch_def)
qed

text \<open>An open branch pins the owner, so a live copy is never told that the lineage is gone.\<close>

lemma start_live_ok:
  assumes inv: "cow_inv src sd meta w" and i: "i < length (branches w)" "\<not> b_closed (branches w ! i)"
  obtains x p where "b_cache (branches w ! i) = Some x" "start_live i (branches w ! i) (cow w) = (Inr p, take_pin (cow w))"
    "p = \<lparr>p_generation = b_generation (branches w ! i), p_cache = x, p_sidecar = b_sidecar (branches w ! i),
       p_metadata = b_metadata (branches w ! i), p_from = Some i\<rparr>"
    "owner_ok src sd meta (Suc (in_progress (pendings w) + open_branches (branches w))) (take_pin (cow w))"
proof -
  have "cow_branch_ok (branches w ! i)" using cow_invD(3) [OF inv] i(1) by simp
  then obtain x where x: "b_cache (branches w ! i) = Some x" using i(2) by (auto simp: cow_branch_ok_def)
  have pos: "0 < open_branches (branches w)" by (rule open_branches_pos [OF i])
  note ok = cow_invD(1) [OF inv]
  have "\<not> cow_pins (cow w) \<le> 0" using ok pos by (simp add: owner_ok_def)
  then show ?thesis using that x i(2) owner_ok_take [OF ok] pos by (simp add: start_live_def)
qed

lemma begin_live_inv:
  assumes inv: "cow_inv src sd meta w" and i: "i < length (branches w)"
  shows "cow_inv src sd meta (snd (begin_branch (start_live i (branches w ! i) (cow w)) w))"
proof (cases "b_closed (branches w ! i)")
  case True
  then have "snd (begin_branch (start_live i (branches w ! i) (cow w)) w) = w"
    by (auto simp: start_live_def begin_branch_def split: option.splits)
  then show ?thesis using inv by (simp only:)
next
  case False
  obtain x p where p: "b_cache (branches w ! i) = Some x" "start_live i (branches w ! i) (cow w) = (Inr p, take_pin (cow w))"
    "p = \<lparr>p_generation = b_generation (branches w ! i), p_cache = x, p_sidecar = b_sidecar (branches w ! i),
       p_metadata = b_metadata (branches w ! i), p_from = Some i\<rparr>"
    "owner_ok src sd meta (Suc (in_progress (pendings w) + open_branches (branches w))) (take_pin (cow w))"
    by (rule start_live_ok [OF inv i False])
  have "cow_inv src sd meta (w\<lparr>cow := take_pin (cow w), pendings := pendings w @ [Some p]\<rparr>)"
    by (rule cow_inv_begin [OF inv _ p(4)]) (use p(1) False i in \<open>auto simp: pending_ok_def p(3)\<close>)
  then show ?thesis using p(2) by (simp add: begin_branch_def)
qed

lemma some_in_update: "Some q \<in> set (ps[j := None]) \<Longrightarrow> Some q \<in> set ps"
  using set_update_subset_insert by fastforce

lemma finish_pending_inv:
  assumes inv: "cow_inv src sd meta w"
  shows "cow_inv src sd meta (snd (finish_pending j x w)) \<and> later (cow w) (cow (snd (finish_pending j x w)))"
proof (cases "j < length (pendings w) \<and> pendings w ! j \<noteq> None")
  case False
  then show ?thesis using inv by (auto simp: finish_pending_def)
next
  case True
  then obtain p where j: "j < length (pendings w)" "pendings w ! j = Some p" by blast
  have drop_: "Suc (in_progress ((pendings w)[j := None])) = in_progress (pendings w)" by (rule in_progress_done [OF j])
  have ok: "owner_ok src sd meta (Suc (in_progress ((pendings w)[j := None]) + open_branches (branches w))) (cow w)"
    using cow_invD(1) [OF inv] drop_ by (metis add_Suc)
  from ok show ?thesis
  proof (cases rule: finish_branch_cases [where p = p and x = x])
    case (failed e c')
    have "cow_inv src sd meta (w\<lparr>cow := c', pendings := (pendings w)[j := None]\<rparr>)"
    proof (rule cow_invI)
      show "pending_ok src sd meta (cow (w\<lparr>cow := c', pendings := (pendings w)[j := None]\<rparr>)) (branches (w\<lparr>cow := c', pendings := (pendings w)[j := None]\<rparr>)) q"
        if "Some q \<in> set (pendings (w\<lparr>cow := c', pendings := (pendings w)[j := None]\<rparr>))" for q
        using pending_ok_later [OF cow_invD(2) [OF inv some_in_update] failed(3)] that by simp
    qed (use failed(2) cow_invD(3) [OF inv] in simp_all)
    then show ?thesis using failed(1,3) j by (simp add: finish_pending_def)
  next
    case (done_ b)
    let ?v = "w\<lparr>cow := count_branch (cow w), pendings := (pendings w)[j := None], branches := branches w @ [b]\<rparr>"
    have "cow_inv src sd meta ?v"
    proof (rule cow_invI)
      show "pending_ok src sd meta (cow ?v) (branches ?v) q" if "Some q \<in> set (pendings ?v)" for q
        using pending_ok_append [OF pending_ok_later [OF cow_invD(2) [OF inv some_in_update] later_counts(2)]] that by simp
    qed (use ok cow_invD(3) [OF inv] done_(3) in \<open>auto simp: cow_branch_ok_def\<close>)
    then show ?thesis using done_(1) j by (simp add: finish_pending_def)
  qed
qed

lemma close_branch_inv:
  assumes inv: "cow_inv src sd meta w" and i: "i < length (branches w)" and free_: "\<not> lock_held i w"
  shows "fst (close_branch i w) = Inr () \<and> cow_inv src sd meta (snd (close_branch i w)) \<and> later (cow w) (cow (snd (close_branch i w)))
     \<and> pendings (snd (close_branch i w)) = pendings w \<and> length (branches (snd (close_branch i w))) = length (branches w)
     \<and> (\<forall>k. k \<noteq> i \<longrightarrow> branches (snd (close_branch i w)) ! k = branches w ! k) \<and> b_closed (branches (snd (close_branch i w)) ! i)"
proof (cases "b_closed (branches w ! i)")
  case True
  then show ?thesis using inv by (simp add: close_branch_def)
next
  case False
  let ?b = "(branches w ! i)\<lparr>b_closed := True, b_cache := None, b_sidecar := None\<rparr>"
  have drop_: "Suc (open_branches ((branches w)[i := ?b])) = open_branches (branches w)" by (rule open_branches_close [OF i False]) simp
  have ok: "owner_ok src sd meta (Suc (in_progress (pendings w) + open_branches ((branches w)[i := ?b]))) (cow w)"
    using cow_invD(1) [OF inv] drop_ by (metis add_Suc_right)
  obtain c where c: "release_pin (cow w) = (Inr (), c)" "owner_ok src sd meta (in_progress (pendings w) + open_branches ((branches w)[i := ?b])) c"
      "cow_valid c = cow_valid (cow w)" "invalid_planes c = invalid_planes (cow w)" "segment_manifest_of c = segment_manifest_of (cow w)"
    by (rule owner_ok_release [OF ok])
  have l: "later (cow w) c" by (rule later_same [OF c(3-5)])
  let ?v = "w\<lparr>cow := c, branches := (branches w)[i := ?b]\<rparr>"
  have "cow_inv src sd meta ?v"
  proof (rule cow_invI)
    show "pending_ok src sd meta (cow ?v) (branches ?v) q" if "Some q \<in> set (pendings ?v)" for q
    proof -
      have "Some q \<in> set (pendings w)" using that by simp
      moreover from this have "p_from q \<noteq> Some i" using free_ by (auto simp: lock_held_iff)
      ultimately show ?thesis using pending_ok_update [OF pending_ok_later [OF cow_invD(2) [OF inv] l]] by simp
    qed
    show "cow_branch_ok b" if "b \<in> set (branches ?v)" for b
    proof -
      have "b = ?b \<or> b \<in> set (branches w)" using that set_update_subset_insert by fastforce
      then show ?thesis using cow_invD(3) [OF inv] by (auto simp: cow_branch_ok_def)
    qed
  qed (use c(2) in simp)
  then show ?thesis using False c(1) l i by (simp add: close_branch_def)
qed

text \<open>Closing several branches that nobody is copying.\<close>

lemma close_branches_inv:
  assumes "cow_inv src sd meta w" and "\<forall>i \<in> set is. i < length (branches w) \<and> \<not> lock_held i w"
  shows "fst (close_branches is w) = Inr () \<and> cow_inv src sd meta (snd (close_branches is w)) \<and> later (cow w) (cow (snd (close_branches is w)))
     \<and> pendings (snd (close_branches is w)) = pendings w \<and> length (branches (snd (close_branches is w))) = length (branches w)
     \<and> (\<forall>k. k \<notin> set is \<longrightarrow> branches (snd (close_branches is w)) ! k = branches w ! k)
     \<and> (\<forall>k. k \<in> set is \<or> b_closed (branches w ! k) \<longrightarrow> b_closed (branches (snd (close_branches is w)) ! k))"
  using assms
proof (induction "is" arbitrary: w)
  case Nil
  then show ?case by simp
next
  case (Cons i "is")
  obtain r v where v: "close_branch i w = (r, v)" by fastforce
  have c: "r = Inr ()" "cow_inv src sd meta v" "later (cow w) (cow v)" "pendings v = pendings w" "length (branches v) = length (branches w)"
    "\<forall>k. k \<noteq> i \<longrightarrow> branches v ! k = branches w ! k" "b_closed (branches v ! i)"
    using close_branch_inv [OF Cons.prems(1), of i] Cons.prems(2) v by simp_all
  have "\<forall>k \<in> set is. k < length (branches v) \<and> \<not> lock_held k v" using Cons.prems(2) c(4,5) by (simp add: lock_held_iff)
  note IH = Cons.IH [OF c(2) this]
  have "close_branches (i # is) w = close_branches is v" using v c(1) by simp
  then show ?case
    using IH c(4-7) later_trans [OF c(3)] by (metis set_ConsD list.set_intros)
qed

text \<open>
  The rows of one call, made behind the first \<open>N\<close> branches: either every one of them is open on the
  frozen cache, or all that were made are closed again.
\<close>

definition rows_ok :: "'s \<Rightarrow> 'd option \<Rightarrow> 'k cow_metadata \<Rightarrow> nat \<Rightarrow> ('k, 's, 'd, 'p) cow_world \<Rightarrow> nat \<Rightarrow> (nat list, ('k, 's, 'd, 'p) cow_world) res \<Rightarrow> bool" where
  "rows_ok src sd meta N w n r \<longleftrightarrow> cow_inv src sd meta (snd r) \<and> later (cow w) (cow (snd r)) \<and> pendings (snd r) = pendings w
     \<and> length (branches w) \<le> length (branches (snd r)) \<and> take N (branches (snd r)) = take N (branches w)
     \<and> (case fst r of
          Inl e \<Rightarrow> (\<forall>i. N \<le> i \<and> i < length (branches (snd r)) \<longrightarrow> b_closed (branches (snd r) ! i))
        | Inr made \<Rightarrow> made = [N..<length (branches (snd r))] \<and> length (branches (snd r)) = length (branches w) + n
            \<and> (\<forall>i. N \<le> i \<and> i < length (branches (snd r)) \<longrightarrow> \<not> b_closed (branches (snd r) ! i) \<and> b_cache (branches (snd r) ! i) = Some src))"

lemma rows_give_up:
  assumes inv: "cow_inv src sd meta (w\<lparr>cow := c\<rparr>)" and l: "later (cow w) c" and "N \<le> length (branches w)"
    and free_: "\<forall>p i. Some p \<in> set (pendings w) \<and> p_from p = Some i \<longrightarrow> i < N"
  shows "rows_ok src sd meta N w n (bind_res (close_branches [N..<length (branches w)] (w\<lparr>cow := c\<rparr>)) (\<lambda>_ w. (Inl e, w)))"
proof -
  have ok: "\<forall>i \<in> set [N..<length (branches w)]. i < length (branches (w\<lparr>cow := c\<rparr>)) \<and> \<not> lock_held i (w\<lparr>cow := c\<rparr>)"
    using free_ by (fastforce simp: lock_held_iff)
  obtain r v where v: "close_branches [N..<length (branches w)] (w\<lparr>cow := c\<rparr>) = (r, v)" by fastforce
  have *: "r = Inr ()" "cow_inv src sd meta v" "later c (cow v)" "pendings v = pendings w" "length (branches v) = length (branches w)"
    "\<forall>k. k < N \<longrightarrow> branches v ! k = branches w ! k" "\<forall>k. N \<le> k \<and> k < length (branches w) \<longrightarrow> b_closed (branches v ! k)"
    using close_branches_inv [OF inv ok] v by simp_all
  have "take N (branches v) = take N (branches w)" using *(5,6) assms(3) by (intro nth_equalityI) simp_all
  then show ?thesis using * v later_trans [OF l *(3)] by (simp add: rows_ok_def)
qed

lemma rows_loop_ok:
  assumes "cow_inv src sd meta w" and "N \<le> length (branches w)" and "\<forall>p i. Some p \<in> set (pendings w) \<and> p_from p = Some i \<longrightarrow> i < N"
    and "\<forall>i. N \<le> i \<and> i < length (branches w) \<longrightarrow> \<not> b_closed (branches w ! i) \<and> b_cache (branches w ! i) = Some src"
  shows "rows_ok src sd meta N w (length xs) (rows_loop gen xs [N..<length (branches w)] w)"
  using assms
proof (induction xs arbitrary: w)
  case Nil
  then show ?case by (simp add: rows_ok_def)
next
  case (Cons x xs)
  note inv = Cons.prems(1)
  from cow_invD(1) [OF inv] show ?case
  proof (cases rule: start_branch_cases [where gen = gen])
    case (refused e)
    have "rows_ok src sd meta N w (length (x # xs))
        (bind_res (close_branches [N..<length (branches w)] (w\<lparr>cow := count_stale (cow w)\<rparr>)) (\<lambda>_ w. (Inl e, w)))"
      by (rule rows_give_up [OF cow_inv_stale [OF inv] later_counts(1) Cons.prems(2,3)])
    then show ?thesis using refused(1) by simp
  next
    case (done_ p)
    note p = done_
    from p(3) show ?thesis
    proof (cases rule: finish_branch_cases [where p = p and x = x])
      case (failed e c)
      have l: "later (cow w) c" by (rule later_trans [OF later_counts(3) failed(3)])
      have "rows_ok src sd meta N w (length (x # xs)) (bind_res (close_branches [N..<length (branches w)] (w\<lparr>cow := c\<rparr>)) (\<lambda>_ w. (Inl e, w)))"
        by (rule rows_give_up [OF cow_inv_owner [OF inv failed(2) l] l Cons.prems(2,3)])
      then show ?thesis using p(1) failed(1) by simp
    next
      case (done_ b)
      let ?c = "count_branch (take_pin (cow w))" and ?v = "w\<lparr>cow := count_branch (take_pin (cow w)), branches := branches w @ [b]\<rparr>"
      have b: "\<not> b_closed b" "b_cache b = Some src" using done_(3) p(4) by simp_all
      have l: "later (cow w) ?c" by (rule later_trans [OF later_counts(3) later_counts(2)])
      have "cow_inv src sd meta ?v"
      proof (rule cow_invI)
        show "pending_ok src sd meta (cow ?v) (branches ?v) q" if "Some q \<in> set (pendings ?v)" for q
          using pending_ok_append [OF pending_ok_later [OF cow_invD(2) [OF inv] l]] that by simp
      qed (use p(3) b cow_invD(3) [OF inv] in \<open>auto simp: cow_branch_ok_def\<close>)
      moreover have "\<forall>i. N \<le> i \<and> i < length (branches ?v) \<longrightarrow> \<not> b_closed (branches ?v ! i) \<and> b_cache (branches ?v ! i) = Some src"
        using Cons.prems(4) b by (auto simp: nth_append)
      ultimately have "rows_ok src sd meta N ?v (length xs) (rows_loop gen xs [N..<length (branches ?v)] ?v)"
        using Cons.prems(2,3) by (intro Cons.IH) simp_all
      moreover have "rows_loop gen (x # xs) [N..<length (branches w)] w = rows_loop gen xs [N..<length (branches ?v)] ?v"
        using p(1) done_(1) Cons.prems(2) by simp
      ultimately show ?thesis using later_trans [OF l] Cons.prems(2) by (simp add: rows_ok_def split: sum.splits)
    qed
  qed
qed

lemma branch_rows_ok:
  assumes inv: "cow_inv src sd meta w" and "0 < rows"
  shows "rows_ok src sd meta (length (branches w)) w (nat rows) (branch_rows gen rows xs w)"
proof -
  have "\<forall>p i. Some p \<in> set (pendings w) \<and> p_from p = Some i \<longrightarrow> i < length (branches w)"
    using cow_invD(2) [OF inv] by (fastforce simp: pending_ok_def)
  then have "rows_ok src sd meta (length (branches w)) w (length (take (nat rows) (xs @ replicate (nat rows) None)))
      (rows_loop gen (take (nat rows) (xs @ replicate (nat rows) None)) [length (branches w)..<length (branches w)] w)"
    by (intro rows_loop_ok [OF inv]) auto
  moreover have "length (take (nat rows) (xs @ replicate (nat rows) None)) = nat rows" by (simp add: min_def)
  ultimately show ?thesis using assms(2) by (simp add: branch_rows_def)
qed

text \<open>Every call keeps the invariant and never makes a guard of the owner weaker.\<close>

lemma cow_step_keeps:
  assumes inv: "cow_inv src sd meta w"
  shows "cow_inv src sd meta (snd (cow_step c w)) \<and> later (cow w) (cow (snd (cow_step c w)))"
proof (cases c)
  case (StartBranch gen)
  have "later (cow w) (cow (snd (begin_branch (start_branch gen (cow w)) w)))"
    using cow_invD(1) [OF inv] by (cases rule: start_branch_cases [where gen = gen]) (simp_all add: begin_branch_def)
  then show ?thesis using begin_start_inv [OF inv] StartBranch by simp
next
  case (StartFork i)
  have "later (cow w) (cow (snd (begin_branch (start_branch gen (cow w)) w)))" for gen
    using cow_invD(1) [OF inv] by (cases rule: start_branch_cases [where gen = gen]) (simp_all add: begin_branch_def)
  then show ?thesis using begin_start_inv [OF inv] StartFork inv by (simp add: wait_for_lock_def)
next
  case (StartLive i)
  have "later (cow w) (cow (snd (begin_branch (start_live i (branches w ! i) (cow w)) w)))"
    by (auto simp: begin_branch_def start_live_def split: option.splits)
  then show ?thesis using begin_live_inv [OF inv] StartLive inv by (simp add: wait_for_lock_def)
next
  case (FinishBranch j x)
  then show ?thesis using finish_pending_inv [OF inv] by simp
next
  case (BranchRows gen rows xs)
  show ?thesis
  proof (cases "0 < rows")
    case True
    then show ?thesis
      using branch_rows_ok [OF inv True, of gen xs] BranchRows by (cases "branch_rows gen rows xs w") (simp add: rows_ok_def)
  qed (use BranchRows inv in \<open>simp add: branch_rows_def\<close>)
next
  case (MutateBranch i x s)
  show ?thesis
  proof (cases "i < length (branches w) \<and> \<not> lock_held i w \<and> \<not> b_closed (branches w ! i)")
    case True
    let ?b = "(branches w ! i)\<lparr>b_cache := Some x, b_sidecar := s\<rparr>"
    let ?v = "w\<lparr>branches := (branches w)[i := ?b]\<rparr>"
    have "cow_inv src sd meta ?v"
    proof (rule cow_invI)
      show "owner_ok src sd meta (in_progress (pendings ?v) + open_branches (branches ?v)) (cow ?v)"
        using cow_invD(1) [OF inv] open_branches_keep [of i "branches w" ?b] True by simp
      show "pending_ok src sd meta (cow ?v) (branches ?v) q" if "Some q \<in> set (pendings ?v)" for q
      proof -
        have "p_from q \<noteq> Some i" using True that by (auto simp: lock_held_iff)
        then show ?thesis using pending_ok_update [OF cow_invD(2) [OF inv]] that by simp
      qed
      show "cow_branch_ok b" if "b \<in> set (branches ?v)" for b
      proof -
        have "b = ?b \<or> b \<in> set (branches w)" using that set_update_subset_insert by fastforce
        then show ?thesis using cow_invD(3) [OF inv] by (auto simp: cow_branch_ok_def)
      qed
    qed
    then show ?thesis using True MutateBranch by simp
  qed (use MutateBranch inv in \<open>auto simp: wait_for_lock_def\<close>)
next
  case (CloseBranch i)
  then show ?thesis using close_branch_inv [OF inv, of i] inv by (simp add: wait_for_lock_def)
next
  case InvalidateCow
  obtain g c' where "invalidate_cow (cow w) = (Inr g, c')"
      "owner_ok src sd meta (in_progress (pendings w) + open_branches (branches w)) c'" "later (cow w) c'"
    by (rule invalidate_cow_ok [OF cow_invD(1) [OF inv]])
  then show ?thesis using InvalidateCow cow_inv_owner [OF inv] by simp
next
  case (InvalidateCowPlane kind reason)
  obtain r c' where r: "invalidate_cow_plane kind reason (cow w) = (r, c')" by fastforce
  show ?thesis using InvalidateCowPlane r invalidate_cow_plane_ok [OF cow_invD(1) [OF inv] r] cow_inv_owner [OF inv] by simp
next
  case (InvalidateCowSegment key reason)
  obtain r c' where r: "invalidate_cow_segment key reason (cow w) = (r, c')" by fastforce
  show ?thesis using InvalidateCowSegment r invalidate_cow_segment_ok [OF cow_invD(1) [OF inv] r] cow_inv_owner [OF inv] by simp
qed

lemma fresh_cow_inv: "cow_inv src sd meta (fresh_cow meta src sd ms sm)"
  by (simp add: cow_inv_def fresh_cow_def owner_ok_def in_progress_def open_branches_def zero_telemetry_def)

interpretation cow_branches: stateful_component "\<lambda>w. \<exists>ms sm. w = fresh_cow meta src sd ms sm" cow_step "cow_inv src sd meta"
  for meta src sd
proof unfold_locales
  show "\<exists>ms sm. w = fresh_cow meta src sd ms sm \<Longrightarrow> cow_inv src sd meta w" for w
    by (elim exE) (simp only: fresh_cow_inv)
  show "cow_inv src sd meta w \<Longrightarrow> cow_inv src sd meta (snd (cow_step c w))" for w c
    by (rule conjunct1 [OF cow_step_keeps])
qed

lemma later_run: "cow_inv src sd meta w \<Longrightarrow> later (cow w) (cow (run_calls cow_step cs w))"
proof (induction cs arbitrary: w)
  case (Cons c cs)
  then show ?case using cow_step_keeps [OF Cons.prems, of c] later_trans by fastforce
qed simp

section \<open>What the owner guarantees\<close>

text \<open>
  C37: The pins of the owner count exactly the branches that are open or in the making, the
  frozen source is kept exactly while the owner is valid or pinned, and closing or copying an
  open branch never reports a lost pin.
\<close>

theorem source_lives_with_its_branches:
  assumes "reachable (\<lambda>w. \<exists>ms sm. w = fresh_cow meta src sd ms sm) cow_step w"
  shows "cow_pins (cow w) = int (in_progress (pendings w) + open_branches (branches w)) \<and> t_active (telemetry (cow w)) = cow_pins (cow w)
     \<and> source_cache (cow w) = (if cow_valid (cow w) \<or> 0 < cow_pins (cow w) then Some src else None)
     \<and> (\<forall>i < length (branches w). \<not> b_closed (branches w ! i) \<and> \<not> lock_held i w \<longrightarrow>
          fst (cow_step (CloseBranch i) w) = Inr () \<and> fst (cow_step (StartLive i) w) = Inr ())"
proof -
  have inv: "cow_inv src sd meta w" by (rule cow_branches.inv_reachable [OF assms])
  have "fst (cow_step (CloseBranch i) w) = Inr () \<and> fst (cow_step (StartLive i) w) = Inr ()"
    if i: "i < length (branches w)" "\<not> b_closed (branches w ! i)" "\<not> lock_held i w" for i
  proof -
    obtain x p where "start_live i (branches w ! i) (cow w) = (Inr p, take_pin (cow w))"
      by (rule start_live_ok [OF inv i(1,2)])
    then have "fst (cow_step (StartLive i) w) = Inr ()" using i by (simp add: begin_branch_def)
    moreover have "fst (cow_step (CloseBranch i) w) = Inr ()" using close_branch_inv [OF inv i(1,3)] i by simp
    ultimately show ?thesis by blast
  qed
  moreover have "cow_pins (cow w) = int (in_progress (pendings w) + open_branches (branches w))" "t_active (telemetry (cow w)) = cow_pins (cow w)"
    "source_cache (cow w) = (if cow_valid (cow w) \<or> 0 < cow_pins (cow w) then Some src else None)"
    using cow_invD(1) [OF inv] by (auto simp: owner_ok_def)
  ultimately show ?thesis by blast
qed

text \<open>The slot of a branch in the making is emptied when it is finished and never reused.\<close>

definition slot_kept :: "nat \<Rightarrow> ('k, 's, 'd) pending option list \<Rightarrow> ('k, 's, 'd) pending option list \<Rightarrow> bool" where
  "slot_kept j ps qs \<longleftrightarrow> j < length qs \<and> (qs ! j = ps ! j \<or> qs ! j = None)"

lemma slot_kept_refl [simp]: "j < length ps \<Longrightarrow> slot_kept j ps ps"
  by (simp add: slot_kept_def)



lemma finished_pending:
  "fst (finish_pending j x w) = Inr () \<Longrightarrow> \<exists>p b. j < length (pendings w) \<and> pendings w ! j = Some p \<and> finish_branch p x (cow w) = (Inr b, snd (finish_branch p x (cow w)))
     \<and> branches (snd (finish_pending j x w)) = branches w @ [b]"
  by (auto simp: finish_pending_def split: if_splits option.splits prod.splits sum.splits)

lemma finished_pending_of:
  assumes "fst (finish_pending j x w) = Inr ()" and "pendings w ! j = Some p"
  shows "\<exists>b c. finish_branch p x (cow w) = (Inr b, c) \<and> branches (snd (finish_pending j x w)) = branches w @ [b]"
  using finished_pending [OF assms(1)] assms(2) by force




text \<open>Once the owner is invalidated, or a plane the target needs, no call makes a branch of the frozen cache.\<close>

lemma blocked_calls:
  assumes inv: "cow_inv src sd meta w" and blocked: "\<not> cow_valid (cow w) \<or> target_blocked (cow w)"
    and more: "length (branches (snd (cow_step d w))) \<noteq> length (branches w)"
  shows "\<exists>j x p i. d = FinishBranch j x \<and> j < length (pendings w) \<and> pendings w ! j = Some p \<and> p_from p = Some i"
proof -
  have same: "length (branches (snd (begin_branch r w))) = length (branches w)" for r
    by (simp add: begin_branch_def split: prod.splits sum.splits)
  have stale: "\<exists>e. start_branch gen (cow w) = (Inl e, count_stale (cow w))" for gen
    using cow_invD(1) [OF inv] by (cases rule: start_branch_cases [where gen = gen]) (use blocked in \<open>auto simp: branchable_def\<close>)
  show ?thesis
  proof (cases d)
    case (BranchRows gen rows xs)
    have "length (branches (snd (branch_rows gen rows xs w))) = length (branches w)"
    proof (cases "take (nat rows) (xs @ replicate (nat rows) None)")
      case Nil
      then show ?thesis unfolding branch_rows_def Nil by simp
    next
      case (Cons y ys)
      obtain e where "start_branch gen (cow w) = (Inl e, count_stale (cow w))" using stale by blast
      then show ?thesis unfolding branch_rows_def Cons by simp
    qed
    then show ?thesis using more BranchRows by (simp split: prod.splits)
  next
    case (FinishBranch j x)
    have j: "j < length (pendings w)" "pendings w ! j \<noteq> None" using more FinishBranch by (auto simp: finish_pending_def split: if_splits option.splits)
    then obtain p where p: "pendings w ! j = Some p" by blast
    have "p_from p \<noteq> None"
    proof
      assume "p_from p = None"
      then have "\<not> (\<exists>b c. finish_branch p x (cow w) = (Inr b, c))"
        using blocked by (auto simp: finish_branch_def fail_branch_def split: option.splits)
      then show False using more FinishBranch j(1) p by (auto simp: finish_pending_def split: prod.splits sum.splits)
    qed
    then show ?thesis using FinishBranch j(1) p by auto
  qed (use more same in \<open>auto simp: wait_for_lock_def close_branch_def split: if_splits prod.splits\<close>)
qed

text \<open>
  C38: After the owner, or a plane the target needs, is invalidated no call ever makes another
  branch of the frozen source; the only branch that can still appear is a copy of a live branch,
  equal to it.
\<close>

theorem invalidation_ends_branching_but_not_branches:
  assumes "reachable (\<lambda>w. \<exists>ms sm. w = fresh_cow meta src sd ms sm) cow_step w"
    and "c = InvalidateCow \<or> (\<exists>kind reason. c = InvalidateCowPlane kind reason \<and> kind \<in> TARGET_BLOCKING
           \<and> map_of (plane_manifest (cow w)) kind \<noteq> None \<and> reason \<noteq> [])"
    and "length (branches (snd (cow_step d (run_calls cow_step (c # cs) w)))) \<noteq> length (branches (run_calls cow_step (c # cs) w))"
  shows "\<exists>j x p i. d = FinishBranch j x \<and> pendings (run_calls cow_step (c # cs) w) ! j = Some p \<and> p_from p = Some i
     \<and> b_cache (branches (run_calls cow_step (c # cs) w) ! i) = Some (p_cache p)
     \<and> branches (snd (cow_step d (run_calls cow_step (c # cs) w))) = branches (run_calls cow_step (c # cs) w)
         @ [branches (run_calls cow_step (c # cs) w) ! i]"
proof -
  let ?v = "run_calls cow_step (c # cs) w"
  have inv: "cow_inv src sd meta w" by (rule cow_branches.inv_reachable [OF assms(1)])
  have inv_u: "cow_inv src sd meta (snd (cow_step c w))" using cow_step_keeps [OF inv] by blast
  have inv_v: "cow_inv src sd meta ?v" by (rule cow_branches.inv_run [OF inv])
  have "\<not> cow_valid (cow (snd (cow_step c w))) \<or> target_blocked (cow (snd (cow_step c w)))"
    using assms(2)
  proof (elim disjE exE conjE)
    assume "c = InvalidateCow"
    moreover obtain g c' where "invalidate_cow (cow w) = (Inr g, c')" "\<not> cow_valid c'" by (rule invalidate_cow_ok [OF cow_invD(1) [OF inv]])
    ultimately show ?thesis by simp
  next
    fix kind reason
    assume c: "c = InvalidateCowPlane kind reason" "kind \<in> TARGET_BLOCKING" "map_of (plane_manifest (cow w)) kind \<noteq> None" "reason \<noteq> []"
    obtain g ms where "invalidate_in kind reason (plane_manifest (cow w)) = (Inr (Some g), ms)"
      using c(3,4) by (auto simp: invalidate_in_def invalidate_owner_def Let_def)
    then have "fst (invalidate_cow_plane kind reason (cow w)) = Inr (Some g)" by (simp add: invalidate_cow_plane_def)
    then have "plane_gone kind (snd (invalidate_cow_plane kind reason (cow w)))"
      using invalidate_cow_plane_ok [OF cow_invD(1) [OF inv], of kind reason] by (metis prod.collapse)
    then show ?thesis using c(1,2) by (auto simp: target_blocked_def plane_gone_def split: prod.splits)
  qed
  moreover have "later (cow (snd (cow_step c w))) (cow ?v)" using later_run [OF inv_u] by simp
  ultimately have "\<not> cow_valid (cow ?v) \<or> target_blocked (cow ?v)" by (auto simp: later_def)
  from blocked_calls [OF inv_v this assms(3)] obtain j x p i where
    d: "d = FinishBranch j x" "j < length (pendings ?v)" "pendings ?v ! j = Some p" "p_from p = Some i"
    by blast
  have "Some p \<in> set (pendings ?v)" using d(2,3) by (metis nth_mem)
  then have ok: "pending_ok src sd meta (cow ?v) (branches ?v) p" by (rule cow_invD(2) [OF inv_v])
  have "fst (finish_pending j x ?v) = Inr ()"
    using assms(3) d(2,3) unfolding d(1) cow_step.simps by (auto simp: finish_pending_def split: prod.splits sum.splits)
  then obtain b c' where b: "finish_branch p x (cow ?v) = (Inr b, c')"
      "branches (snd (finish_pending j x ?v)) = branches ?v @ [b]"
    using finished_pending_of [of j x ?v p] d(3) by blast
  have "b = branches ?v ! i"
    using b(1) d(4) ok fail_branch_raises [of _ "cow ?v" b] by (cases x) (auto simp: finish_branch_def pending_ok_def dest: arg_cong [where f = fst])
  then show ?thesis
    using d b(2) ok by (intro exI [of _ j] exI [of _ x] exI [of _ p] exI [of _ i]) (simp add: pending_ok_def)
qed


section \<open>A concrete owner\<close>

definition demo_segment :: layer_segment where
  "demo_segment = \<lparr>segment_key_of = \<lparr>seg_kind = ATTENTION_KV, seg_layer = 0, seg_index = 0, seg_start = 0, seg_stop = 4, seg_role = ''tail''\<rparr>,
     segment_fp = demo_fp ATTENTION_KV, logical_bytes = 64, needed = True\<rparr>"

definition demo_meta :: "nat cow_metadata" where
  "demo_meta = \<lparr>meta_key = 1, meta_tokens = [5, 6, 7, 8], meta_type = ''kv'', meta_host = None, meta_ledger = Some demo_ledger, meta_hints = None, meta_schedule = None\<rparr>"

definition demo_cow :: "(nat, int list, int, int) cow_world" where
  "demo_cow = fresh_cow demo_meta [1, 2] (Some 3) (planes_in demo_planes) \<lparr>segs = [(segment_key_of demo_segment, demo_segment)], invalid_segs = []\<rparr>"

definition demo_branches :: "(nat, int list, int, int) cow_world" where
  "demo_branches = run_calls cow_step [BranchRows 0 2 [], StartLive 0, CloseBranch 1] demo_cow"

lemma demo_cow_reachable: "reachable (\<lambda>w. \<exists>ms sm. w = fresh_cow demo_meta [1, 2] (Some 3) ms sm) cow_step (run_calls cow_step cs demo_cow)"
  unfolding demo_cow_def by (intro reachable_run_calls reachable_init) blast

lemma demo_branches_reachable: "reachable (\<lambda>w. \<exists>ms sm. w = fresh_cow demo_meta [1, 2] (Some 3) ms sm) cow_step demo_branches"
  unfolding demo_branches_def by (rule demo_cow_reachable)

theorem source_lives_with_its_branches_witness:
  "cow_pins (cow (run_calls cow_step [InvalidateCow] demo_branches)) = 2
     \<and> source_cache (cow (run_calls cow_step [InvalidateCow] demo_branches)) = Some [1, 2]
     \<and> source_cache (cow (run_calls cow_step [InvalidateCow, FinishBranch 0 (Some CacheMiss), CloseBranch 0] demo_branches)) = None"
proof -
  have r: "reachable (\<lambda>w. \<exists>ms sm. w = fresh_cow demo_meta [1, 2] (Some 3) ms sm) cow_step (run_calls cow_step cs demo_branches)" for cs
    by (rule reachable_run_calls [OF demo_branches_reachable])
  have "in_progress (pendings (run_calls cow_step [InvalidateCow] demo_branches)) + open_branches (branches (run_calls cow_step [InvalidateCow] demo_branches)) = 2"
    "in_progress (pendings (run_calls cow_step [InvalidateCow, FinishBranch 0 (Some CacheMiss), CloseBranch 0] demo_branches))
       + open_branches (branches (run_calls cow_step [InvalidateCow, FinishBranch 0 (Some CacheMiss), CloseBranch 0] demo_branches)) = 0"
    "\<not> cow_valid (cow (run_calls cow_step [InvalidateCow, FinishBranch 0 (Some CacheMiss), CloseBranch 0] demo_branches))"
    by code_simp+
  then show ?thesis
    using source_lives_with_its_branches [OF r, of "[InvalidateCow]"]
      source_lives_with_its_branches [OF r, of "[InvalidateCow, FinishBranch 0 (Some CacheMiss), CloseBranch 0]"]
    by (simp only: int_ops) simp
qed


theorem invalidation_ends_branching_but_not_branches_witness:
  "length (branches (run_calls cow_step [InvalidateCow, StartBranch 1, FinishBranch 0 None] demo_branches)) = 3
     \<and> branches (run_calls cow_step [InvalidateCow, StartBranch 1, FinishBranch 0 None] demo_branches)
         = branches (run_calls cow_step [InvalidateCow, StartBranch 1] demo_branches) @ [branches (run_calls cow_step [InvalidateCow, StartBranch 1] demo_branches) ! 0]"
proof -
  let ?v = "run_calls cow_step (InvalidateCow # [StartBranch 1]) demo_branches"
  have n: "length (branches (snd (cow_step (FinishBranch 0 None) ?v))) = 3" "length (branches ?v) = 2"
    "map_option p_from (pendings ?v ! 0) = Some (Some 0)"
    by code_simp+
  then have more: "length (branches (snd (cow_step (FinishBranch 0 None) ?v))) \<noteq> length (branches ?v)" by simp
  obtain j x p i where "FinishBranch 0 None = (FinishBranch j x :: (int list, int) cow_call)" "pendings ?v ! j = Some p" "p_from p = Some i"
      "branches (snd (cow_step (FinishBranch 0 None) ?v)) = branches ?v @ [branches ?v ! i]"
    using invalidation_ends_branching_but_not_branches [OF demo_branches_reachable disjI1 [OF refl] more] by blast
  then have "branches (snd (cow_step (FinishBranch 0 None) ?v)) = branches ?v @ [branches ?v ! 0]" using n(3) by auto
  then show ?thesis using n(1) by (simp only: run_calls.simps)
qed


end
