(* ===== verification/AdapterConfig.thy ===== *)
theory AdapterConfig
  imports Prelude "HOL-Library.Word" "HOL-Library.List_Lexorder" "HOL-Library.Char_ord"
begin

text \<open>
  Reading a LoRA adapter directory: \<open>read_lora_config\<close> of \<^verbatim>\<open>runtime/lora.py\<close> and the header check
  \<open>_safetensors_header\<close> of \<^verbatim>\<open>runtime/multi_lora.py\<close>.

  A parsed JSON text is a \<open>json\<close> value; the parser itself, which either raises \<open>ValueError\<close> or returns,
  is an argument.  Error messages leave out the values the source prints into them, and \<open>scale\<close> keeps
  the number it was given.
\<close>

section \<open>Configuration\<close>

datatype json = JNull | JBool bool | JInt int | JFloat py_float | JText string | JList "json list" | JDict "(string \<times> json) list"

fun is_number :: "json \<Rightarrow> bool" where
  "is_number (JInt _) \<longleftrightarrow> True"
| "is_number (JFloat _) \<longleftrightarrow> True"
| "is_number _ \<longleftrightarrow> False"

text \<open>\<open>v == n\<close> for an integer \<open>n\<close>: a bool is 0 or 1, a float equals the integer it denotes.\<close>

fun equals_int :: "json \<Rightarrow> int \<Rightarrow> bool" where
  "equals_int (JInt i) n \<longleftrightarrow> i = n"
| "equals_int (JFloat (Finite q)) n \<longleftrightarrow> q = of_int n"
| "equals_int (JBool b) n \<longleftrightarrow> (if b then 1 else 0) = n"
| "equals_int _ n \<longleftrightarrow> False"

record lora_config =
  config_rank :: int
  config_scale :: json
  config_keys :: "string list"

fun text_keys :: "json list \<Rightarrow> string list option" where
  "text_keys [] = Some []"
| "text_keys (JText k # ks) = (if k = [] \<or> hd k = CHR ''.'' then None else map_option (Cons k) (text_keys ks))"
| "text_keys (_ # ks) = None"

definition get_or :: "(string \<times> json) list \<Rightarrow> string \<Rightarrow> json \<Rightarrow> json" where
  "get_or d k v = (case map_of d k of None \<Rightarrow> v | Some x \<Rightarrow> x)"

definition lora_parameters :: "json \<Rightarrow> exc + (string \<times> json) list" where
  "lora_parameters config =
     (case config of
        JDict d \<Rightarrow>
          if get_or d ''fine_tune_type'' (JText ''lora'') \<noteq> JText ''lora'' then Inl (ValueError ''dynamic serving supports LoRA adapters only'')
          else (case get_or d ''lora_parameters'' JNull of JDict p \<Rightarrow> Inr p | _ \<Rightarrow> Inl (ValueError ''LoRA config requires lora_parameters''))
      | _ \<Rightarrow> Inl (ValueError ''dynamic serving supports LoRA adapters only''))"

definition parameter_rank :: "json \<Rightarrow> exc + int" where
  "parameter_rank v =
     (let bad = Inl (ValueError ''LoRA rank must be an integer from 1 to 1024'')
      in case v of JInt r \<Rightarrow> if 1 \<le> r \<and> r \<le> 1024 then Inr r else bad | _ \<Rightarrow> bad)"

definition parameter_keys :: "json \<Rightarrow> exc + string list" where
  "parameter_keys v =
     (let bad = Inl (ValueError ''serving LoRA requires a nonempty explicit keys list'')
      in case v of
           JList (k # ks) \<Rightarrow>
             (case text_keys (k # ks) of
                None \<Rightarrow> bad
              | Some keys \<Rightarrow> if \<not> distinct keys then Inl (ValueError ''LoRA keys must be unique'') else Inr keys)
         | _ \<Rightarrow> bad)"

definition read_lora_config :: "bool \<Rightarrow> exc + json \<Rightarrow> exc + lora_config" where
  "read_lora_config files_exist parsed =
     (if \<not> files_exist then Inl (ValueError ''LoRA directory requires adapter_config.json and adapters.safetensors'')
      else bind_sum parsed (\<lambda>config.
           bind_sum (lora_parameters config) (\<lambda>p.
             if \<exists>k \<in> fst ` set p. k \<notin> {''rank'', ''scale'', ''dropout'', ''keys''} then Inl (ValueError ''unsupported LoRA parameters'')
             else bind_sum (parameter_rank (get_or p ''rank'' (JInt 8))) (\<lambda>rank.
               if \<not> is_number (get_or p ''scale'' (JFloat (Finite 20))) then Inl (ValueError ''LoRA scale must be numeric'')
               else if \<not> equals_int (get_or p ''dropout'' (JFloat (Finite 0))) 0 then Inl (ValueError ''serving LoRA dropout must be zero'')
               else bind_sum (parameter_keys (get_or p ''keys'' JNull)) (\<lambda>keys.
                 Inr \<lparr>config_rank = rank, config_scale = get_or p ''scale'' (JFloat (Finite 20)), config_keys = keys\<rparr>)))))"

section \<open>The header of the weights file\<close>

type_synonym payload = "8 word list"

definition SAFETENSORS_DTYPES :: "string list" where
  "SAFETENSORS_DTYPES = [''F64'', ''F32'', ''F16'', ''BF16'', ''I64'', ''I32'', ''I16'', ''I8'', ''U8'', ''BOOL'']"

text \<open>\<open>struct.unpack("<Q", payload[:8])\<close>\<close>

definition header_length :: "payload \<Rightarrow> nat" where
  "header_length bs = nat (foldr (\<lambda>b n. uint b + 256 * n) (take 8 bs) 0)"

text \<open>A value that cannot be hashed raises in the \<open>in\<close> test of a dict.\<close>

definition check_entry :: "json \<Rightarrow> exc + json list" where
  "check_entry entry =
     (let bad = Inl (ValueError ''LoRA safetensors entry is malformed'')
      in case entry of
           JDict d \<Rightarrow>
             (case get_or d ''dtype'' JNull of
                JText t \<Rightarrow>
                  if t \<notin> set SAFETENSORS_DTYPES then bad
                  else (case get_or d ''shape'' JNull of JList dims \<Rightarrow> Inr dims | _ \<Rightarrow> bad)
              | JList _ \<Rightarrow> Inl (TypeError ''unhashable type: list'')
              | JDict _ \<Rightarrow> Inl (TypeError ''unhashable type: dict'')
              | _ \<Rightarrow> bad)
         | _ \<Rightarrow> bad)"

fun check_entries :: "(string \<times> json) list \<Rightarrow> exc + (string \<times> json list) list" where
  "check_entries [] = Inr []"
| "check_entries ((k, entry) # es) =
     bind_sum (check_entry entry) (\<lambda>dims. bind_sum (check_entries es) (\<lambda>rest. Inr ((k, dims) # rest)))"

definition safetensors_header :: "(payload \<Rightarrow> json option) \<Rightarrow> payload \<Rightarrow> exc + (string \<times> json list) list" where
  "safetensors_header loads bs =
     (if length bs < 8 then Inl (ValueError ''LoRA safetensors file is truncated'')
      else let n = header_length bs
           in if length bs - 8 < n \<or> 100 * 2 ^ 20 < int n then Inl (ValueError ''LoRA safetensors header is malformed'')
              else (case loads (take n (drop 8 bs)) of
                      Some (JDict d) \<Rightarrow> check_entries [e \<leftarrow> d. fst e \<noteq> ''__metadata__'']
                    | _ \<Rightarrow> Inl (ValueError ''LoRA safetensors header is malformed'')))"

lemma parameter_keys_ok: "parameter_keys v = Inr keys \<Longrightarrow> keys \<noteq> [] \<and> distinct keys"
proof -
  have "text_keys (k # ks) = Some keys \<Longrightarrow> keys \<noteq> []" for k ks
    by (cases k) (auto split: if_splits)
  then show "parameter_keys v = Inr keys \<Longrightarrow> keys \<noteq> [] \<and> distinct keys"
    by (auto simp: parameter_keys_def Let_def split: json.splits list.splits option.splits if_splits)
qed

lemma read_lora_config_ok:
  assumes "read_lora_config files parsed = Inr c"
  shows "1 \<le> config_rank c" and "config_rank c \<le> 1024" and "config_keys c \<noteq> []" and "distinct (config_keys c)"
    and "is_number (config_scale c)"
  using assms by (auto simp: read_lora_config_def parameter_rank_def Let_def dest: parameter_keys_ok
      split: if_splits sum.splits json.splits simp: bind_sum_def)

end
