(* ===== verification/MultiLora.thy ===== *)
theory MultiLora
  imports AdapterConfig "HOL-Library.AList"
begin

text \<open>
  The slot table of concurrent multi-LoRA serving (\<open>MultiLoRAManager\<close> of
  \<^verbatim>\<open>runtime/multi_lora.py\<close>) with the calls the serving loop makes for a request: look up its adapter,
  acquire a slot, bind the request's row, unbind and release at the end.

  The pair of tensors an adapter has for a key is an opaque value of type \<open>'t\<close>, computed by MLX from the
  bytes of the file; the digest, the JSON parser, the model's key resolution and the shapes of its linear modules
  are parameters too (\<open>lora_env\<close>).  A wrapped module is the function from slots to what the slot holds,
  \<open>None\<close> for zeros.  Whether reading a file, making a wrapper or writing arrays raises is up to the
  environment.  The receipts and byte sums, which only print, are left out, as is \<open>detach\<close>.
\<close>

section \<open>The manager\<close>

record 't lora_env =
  digest_of :: "payload \<Rightarrow> int \<Rightarrow> json \<Rightarrow> string list \<Rightarrow> string"
  tensor_of :: "payload \<Rightarrow> json \<Rightarrow> string \<Rightarrow> 't"
  parse_json :: "payload \<Rightarrow> json option"
  resolve_key :: "string \<Rightarrow> string"
  linear_dims :: "string \<Rightarrow> (int \<times> int) option"

record 't adapter =
  a_name :: string
  a_fingerprint :: string
  a_rank :: int
  a_scale :: json
  a_keys :: "string list"
  a_module_keys :: "string list"
  a_tensors :: "(string \<times> 't) list"

record 't wrapped_module =
  installed :: bool
  slot_values :: "nat \<Rightarrow> 't option"

record 't lora =
  max_loras :: nat
  max_rank :: int
  registry :: "(string \<times> 't adapter) list"
  wrapped :: "(string \<times> 't wrapped_module) list"
  resident :: "(nat \<times> string) list"
  pins :: "nat \<Rightarrow> int"
  uid_slots :: "int \<Rightarrow> nat option"
  map_version :: int
  bound_key :: "(int \<times> int list) option"
  bound_slots :: "nat list"
  row_ids :: "nat list option"
  bound_rows :: "nat option"
  lora_counts :: "string \<Rightarrow> int"
  rows_by_adapter :: "string \<Rightarrow> int"

definition new_lora :: "int \<Rightarrow> int \<Rightarrow> exc + 't lora" where
  "new_lora n rank = bind_sum (raise_if
     [(\<not> (1 \<le> n \<and> n \<le> 64), ValueError ''max_loras must be an integer from 1 to 64''),
      (\<not> (1 \<le> rank \<and> rank \<le> 1024), ValueError ''max_lora_rank must be an integer from 1 to 1024'')])
     (\<lambda>_. Inr \<lparr>max_loras = nat n, max_rank = rank, registry = [], wrapped = [], resident = [], pins = (\<lambda>_. 0),
        uid_slots = (\<lambda>_. None), map_version = 0, bound_key = None, bound_slots = [], row_ids = None, bound_rows = None,
        lora_counts = (\<lambda>_. 0), rows_by_adapter = (\<lambda>_. 0)\<rparr>)"

definition bump :: "string \<Rightarrow> int \<Rightarrow> 't lora \<Rightarrow> 't lora" where
  "bump name n m = m\<lparr>lora_counts := (lora_counts m)(name := lora_counts m name + n)\<rparr>"

definition adapter_modules :: "'t adapter \<Rightarrow> string list" where
  "adapter_modules a = (if a_module_keys a = [] then a_keys a else a_module_keys a)"

section \<open>Preparing an adapter\<close>

text \<open>\<open>shape == (m, n)\<close> for a shape read from the header.\<close>

definition shape_is :: "json list \<Rightarrow> int \<Rightarrow> int \<Rightarrow> bool" where
  "shape_is dims m n \<longleftrightarrow> length dims = 2 \<and> equals_int (dims ! 0) m \<and> equals_int (dims ! 1) n"

definition expected_tensors :: "string list \<Rightarrow> string set" where
  "expected_tensors keys = (\<Union>k \<in> set keys. {k @ ''.lora_a'', k @ ''.lora_b''})"

text \<open>The loop over the keys and their modules; a module that is a wrapper needs no new wrap.\<close>

fun check_modules :: "(string \<Rightarrow> (int \<times> int) option) \<Rightarrow> (string \<Rightarrow> bool) \<Rightarrow> (string \<times> json list) list \<Rightarrow> int
    \<Rightarrow> (string \<times> string) list \<Rightarrow> string list \<Rightarrow> exc + string list" where
  "check_modules dims wrapper header rank [] new = Inr new"
| "check_modules dims wrapper header rank ((key, mk) # rest) new =
     (case dims mk of
        None \<Rightarrow> Inl (ValueError ''LoRA key is not a Linear/QuantizedLinear module'')
      | Some (i, n) \<Rightarrow>
          (case (map_of header (key @ ''.lora_a''), map_of header (key @ ''.lora_b'')) of
             (Some a, Some b) \<Rightarrow>
               if \<not> (shape_is a i rank \<and> shape_is b rank n) then Inl (ValueError ''LoRA tensor has unexpected shapes'')
               else check_modules dims wrapper header rank rest (if wrapper mk then new else new @ [mk])
           | _ \<Rightarrow> Inl (KeyError key)))"

definition is_wrapper :: "'t lora \<Rightarrow> string \<Rightarrow> bool" where
  "is_wrapper m k \<longleftrightarrow> (case map_of (wrapped m) k of Some w \<Rightarrow> installed w | None \<Rightarrow> False)"

text \<open>\<open>parsed\<close> and \<open>content\<close> are what parsing the configuration and reading the weights file returned or raised.\<close>

definition prepare_adapter :: "'t lora_env \<Rightarrow> string \<Rightarrow> bool \<Rightarrow> exc + json \<Rightarrow> exc + payload \<Rightarrow> 't lora \<Rightarrow> exc + ('t adapter \<times> string list)" where
  "prepare_adapter E name files_exist parsed content m =
     (if \<not> (1 \<le> length name \<and> length name \<le> 128) then Inl (ValueError ''lora_name must contain 1 to 128 characters'')
      else bind_sum (read_lora_config files_exist parsed) (\<lambda>c.
        if config_rank c > max_rank m then Inl (ValueError ''LoRA rank exceeds max_lora_rank'')
        else bind_sum content (\<lambda>bs.
        bind_sum (safetensors_header (parse_json E) bs) (\<lambda>header.
          if fst ` set header \<noteq> expected_tensors (config_keys c) then Inl (ValueError ''LoRA tensor coverage mismatch'')
          else let mks = map (resolve_key E) (config_keys c)
               in if [] \<in> set mks then Inl (ValueError ''LoRA module key mapping returned an invalid key'')
                  else if \<not> distinct mks then Inl (ValueError ''LoRA module key mapping is not one-to-one'')
                  else bind_sum (check_modules (linear_dims E) (is_wrapper m) header (config_rank c) (zip (config_keys c) mks) []) (\<lambda>new.
                    Inr (\<lparr>a_name = name, a_fingerprint = digest_of E bs (config_rank c) (config_scale c) (sort (config_keys c)),
                          a_rank = config_rank c, a_scale = config_scale c, a_keys = config_keys c, a_module_keys = mks,
                          a_tensors = []\<rparr>, new))))))"

section \<open>Registry and residency\<close>

text \<open>
  \<open>wrap_keys\<close> records a wrapper in \<open>self.wrapped\<close> as it is made and installs all of them in the model
  afterwards; \<open>fails\<close> is the number of wrappers made before making the next one raises.
\<close>

fun make_wrappers :: "string list \<Rightarrow> (nat \<times> exc) option \<Rightarrow> (string \<times> 't wrapped_module) list \<Rightarrow> int \<Rightarrow> (int, (string \<times> 't wrapped_module) list) res" where
  "make_wrappers [] fails ws n = (Inr n, ws)"
| "make_wrappers (k # ks) fails ws n =
     (if map_of ws k \<noteq> None then make_wrappers ks fails ws n
      else case fails of
             Some (0, e) \<Rightarrow> (Inl e, ws)
           | Some (Suc i, e) \<Rightarrow> make_wrappers ks (Some (i, e)) (AList.update k \<lparr>installed = False, slot_values = (\<lambda>_. None)\<rparr> ws) (n + 1)
           | None \<Rightarrow> make_wrappers ks None (AList.update k \<lparr>installed = False, slot_values = (\<lambda>_. None)\<rparr> ws) (n + 1))"

definition install :: "string list \<Rightarrow> (string \<times> 't wrapped_module) list \<Rightarrow> (string \<times> 't wrapped_module) list" where
  "install new ws = map (\<lambda>(k, w). (k, if k \<in> set new then w\<lparr>installed := True\<rparr> else w)) ws"

definition wrap_keys :: "string list \<Rightarrow> (nat \<times> exc) option \<Rightarrow> 't lora \<Rightarrow> (int, 't lora) res" where
  "wrap_keys ks fails m =
     (if ks = [] then (Inr 0, m)
      else case make_wrappers ks fails (wrapped m) 0 of
             (Inl e, ws) \<Rightarrow> (Inl e, m\<lparr>wrapped := ws\<rparr>)
           | (Inr n, ws) \<Rightarrow>
               if n = 0 then (Inr 0, m\<lparr>wrapped := ws\<rparr>)
               else (Inr n, bump ''structural_wraps'' n (m\<lparr>wrapped := install [k \<leftarrow> ks. map_of (wrapped m) k = None] ws\<rparr>)))"

definition commit_adapter :: "'t adapter \<Rightarrow> 't lora \<Rightarrow> (unit, 't lora) res" where
  "commit_adapter a m =
     (if map_of (registry m) (a_name a) \<noteq> None then (Inl (ValueError ''LoRA adapter is already loaded''), m)
      else if \<exists>k \<in> set (adapter_modules a). map_of (wrapped m) k = None then (Inl (RuntimeError ''LoRA keys must be wrapped before registration''), m)
      else (Inr (), bump ''registrations'' 1 (m\<lparr>registry := AList.update (a_name a) a (registry m)\<rparr>)))"

fun drop_resident :: "string \<Rightarrow> (nat \<times> string) list \<Rightarrow> 't lora \<Rightarrow> (unit, 't lora) res" where
  "drop_resident name [] m = (Inr (), m)"
| "drop_resident name ((slot, r) # rs) m =
     (if r = name
      then if pins m slot \<noteq> 0 then (Inl (ValueError ''LoRA adapter is in use by live requests''), m)
           else drop_resident name rs (m\<lparr>resident := AList.delete slot (resident m)\<rparr>)
      else drop_resident name rs m)"

definition unregister :: "string \<Rightarrow> 't lora \<Rightarrow> (unit, 't lora) res" where
  "unregister name m =
     (if map_of (registry m) name = None then (Inl (ValueError ''LoRA adapter is not loaded''), m)
      else bind_res (drop_resident name (resident m) m) (\<lambda>_ m.
        (Inr (), bump ''unregistrations'' 1 (m\<lparr>registry := AList.delete name (registry m)\<rparr>))))"

definition loaded_tensors :: "'t lora_env \<Rightarrow> payload \<Rightarrow> 't adapter \<Rightarrow> (string \<times> 't) list" where
  "loaded_tensors E bs a =
     (let pairs = zip (a_keys a) (adapter_modules a)
      in AList.updates (map snd pairs) (map (\<lambda>(k, _). tensor_of E bs (a_scale a) k) pairs) [])"

definition fingerprint_of :: "'t lora_env \<Rightarrow> payload \<Rightarrow> 't adapter \<Rightarrow> string" where
  "fingerprint_of E bs a = digest_of E bs (a_rank a) (a_scale a) (sort (a_keys a))"

text \<open>
  \<open>_materialize\<close>, which fills the registered adapter in place: \<open>content\<close> is what reading the file
  returned or raised, \<open>load_error\<close> what loading the checked bytes raised.
\<close>

definition materialize_adapter :: "'t lora_env \<Rightarrow> exc + payload \<Rightarrow> exc option \<Rightarrow> 't adapter \<Rightarrow> 't lora \<Rightarrow> ('t adapter, 't lora) res" where
  "materialize_adapter E content load_error a m =
     (if a_tensors a \<noteq> [] then (Inr a, m)
      else case content of
             Inl e \<Rightarrow> (Inl e, m)
           | Inr bs \<Rightarrow>
               if fingerprint_of E bs a \<noteq> a_fingerprint a then (Inl (ValueError ''LoRA adapter weights changed after registration''), m)
               else if \<exists>mk \<in> set (map snd (zip (a_keys a) (adapter_modules a))). map_of (wrapped m) mk = None then (Inl (KeyError ''module''), m)
               else (case load_error of
                       Some e \<Rightarrow> (Inl e, m)
                     | None \<Rightarrow>
                         let a = a\<lparr>a_tensors := loaded_tensors E bs a\<rparr>
                         in (Inr a, bump ''materializations'' 1 (m\<lparr>registry := AList.update (a_name a) a (registry m)\<rparr>))))"

text \<open>\<open>_write_slot\<close>: \<open>fails\<close> is how many modules are written before one raises.\<close>

fun write_modules :: "nat \<Rightarrow> (string \<times> 't) list \<Rightarrow> (nat \<times> exc) option \<Rightarrow> (string \<times> 't wrapped_module) list \<Rightarrow> (unit, (string \<times> 't wrapped_module) list) res" where
  "write_modules slot ts fails [] = (case fails of None \<Rightarrow> (Inr (), []) | Some (_, e) \<Rightarrow> (Inl e, []))"
| "write_modules slot ts fails ((k, w) # ws) =
     (let w' = w\<lparr>slot_values := (slot_values w)(slot := map_of ts k)\<rparr>
      in case fails of
           Some (0, e) \<Rightarrow> (Inl e, (k, w) # ws)
         | Some (Suc i, e) \<Rightarrow> (case write_modules slot ts (Some (i, e)) ws of (r, ws) \<Rightarrow> (r, (k, w') # ws))
         | None \<Rightarrow> (case write_modules slot ts None ws of (r, ws) \<Rightarrow> (r, (k, w') # ws)))"

definition find_resident :: "string \<Rightarrow> (nat \<times> string) list \<Rightarrow> nat option" where
  "find_resident name rs = map_option fst (List.find (\<lambda>sr. snd sr = name) rs)"

definition move_to_end :: "nat \<Rightarrow> (nat \<times> string) list \<Rightarrow> (nat \<times> string) list" where
  "move_to_end slot rs = [sr \<leftarrow> rs. fst sr \<noteq> slot] @ [sr \<leftarrow> rs. fst sr = slot]"

definition pin :: "nat \<Rightarrow> 't lora \<Rightarrow> 't lora" where
  "pin slot m = m\<lparr>pins := (pins m)(slot := pins m slot + 1)\<rparr>"

text \<open>The slot to load into, after the least recently used unpinned one was evicted if none is free.\<close>

definition choose_slot :: "'t lora \<Rightarrow> (nat \<times> string, 't lora) res" where
  "choose_slot m =
     (case [s \<leftarrow> [1..<Suc (max_loras m)]. map_of (resident m) s = None] of
        s # _ \<Rightarrow> (Inr (s, ''loaded''), m)
      | [] \<Rightarrow>
          (case [sr \<leftarrow> resident m. pins m (fst sr) = 0] of
             [] \<Rightarrow> (Inl (SlotUnavailable ''every multi-LoRA slot is pinned by a live request''), bump ''slot_deferred'' 1 m)
           | (s, _) # _ \<Rightarrow> (Inr (s, ''evicted''), bump ''slot_evictions'' 1 (m\<lparr>resident := AList.delete s (resident m)\<rparr>))))"

definition acquire_slot :: "'t lora_env \<Rightarrow> string \<Rightarrow> string option \<Rightarrow> exc + payload \<Rightarrow> exc option \<Rightarrow> (nat \<times> exc) option \<Rightarrow> 't lora \<Rightarrow> (nat \<times> string, 't lora) res" where
  "acquire_slot E name expected content load_error writes m =
     (case map_of (registry m) name of
        None \<Rightarrow> (Inl (ValueError ''LoRA adapter is not loaded''), m)
      | Some a \<Rightarrow>
          if expected \<noteq> None \<and> expected \<noteq> Some (a_fingerprint a) then (Inl (ValueError ''LoRA adapter changed before admission''), m)
          else case find_resident name (resident m) of
                 Some s \<Rightarrow> (Inr (s, ''hit''), bump ''slot_hits'' 1 (pin s (m\<lparr>resident := move_to_end s (resident m)\<rparr>)))
               | None \<Rightarrow>
                   bind_res (choose_slot m) (\<lambda>(s, residency) m.
                   bind_res (materialize_adapter E content load_error a m) (\<lambda>a m.
                     case write_modules s (a_tensors a) writes (wrapped m) of
                       (Inl e, ws) \<Rightarrow> (Inl e, m\<lparr>wrapped := ws\<rparr>)
                     | (Inr _, ws) \<Rightarrow> (Inr (s, residency),
                         bump ''slot_loads'' 1 (pin s (m\<lparr>wrapped := ws, resident := AList.update s name (resident m)\<rparr>))))))"

definition release_slot :: "nat \<Rightarrow> 't lora \<Rightarrow> (unit, 't lora) res" where
  "release_slot slot m =
     (if pins m slot \<le> 0 then (Inl (RuntimeError ''multi-LoRA slot is not pinned''), m)
      else (Inr (), m\<lparr>pins := (pins m)(slot := pins m slot - 1)\<rparr>))"

definition bind_uid :: "int \<Rightarrow> nat \<Rightarrow> 't lora \<Rightarrow> 't lora" where
  "bind_uid uid slot m = m\<lparr>uid_slots := (uid_slots m)(uid := Some slot), map_version := map_version m + 1\<rparr>"

definition unbind_uid :: "int \<Rightarrow> 't lora \<Rightarrow> 't lora" where
  "unbind_uid uid m =
     (if uid_slots m uid = None then m else m\<lparr>uid_slots := (uid_slots m)(uid := None), map_version := map_version m + 1\<rparr>)"

section \<open>Binding the rows of a forward\<close>

definition row_slot :: "'t lora \<Rightarrow> int \<Rightarrow> nat" where
  "row_slot m uid = (case uid_slots m uid of None \<Rightarrow> 0 | Some s \<Rightarrow> s)"

definition count_row :: "nat \<Rightarrow> 't lora \<Rightarrow> 't lora" where
  "count_row slot m =
     (let name = (case map_of (resident m) slot of None \<Rightarrow> ''?'' | Some n \<Rightarrow> n)
      in if slot = 0 then m else m\<lparr>rows_by_adapter := (rows_by_adapter m)(name := rows_by_adapter m name + 1)\<rparr>)"

definition bind_rows :: "int list \<Rightarrow> 't lora \<Rightarrow> 't lora" where
  "bind_rows uids m =
     (let key = (map_version m, uids);
          m = bump ''forwards'' 1 m;
          m = (if Some key \<noteq> bound_key m then m\<lparr>bound_key := Some key, bound_slots := map (row_slot m) uids\<rparr> else m);
          slots = bound_slots m;
          ids = (if \<exists>s \<in> set slots. s \<noteq> 0 then Some slots else None);
          m = m\<lparr>row_ids := ids, bound_rows := Some (length slots)\<rparr>;
          adapters = int (length [s \<leftarrow> slots. s \<noteq> 0])
      in if ids = None then bump ''rows_base'' (int (length slots)) (bump ''base_only_forwards'' 1 m)
         else let m = fold count_row slots m;
                  m = bump ''rows_base'' (int (length slots) - adapters) (bump ''rows_adapter'' adapters m)
              in if adapters \<noteq> int (length slots) \<or> 1 < card (set slots) then bump ''mixed_forwards'' 1 m
                 else bump ''single_adapter_forwards'' 1 m)"

text \<open>
  The forward of a wrapped module on a batch of \<open>n\<close> rows, as the tensors it gathers for each row
  (\<open>None\<close> is a zero delta).
\<close>

definition apply_rows :: "'t wrapped_module \<Rightarrow> nat list option \<Rightarrow> nat \<Rightarrow> exc + 't option list" where
  "apply_rows wm ids n =
     (case ids of
        None \<Rightarrow> Inr (replicate n None)
      | Some slots \<Rightarrow>
          if length slots \<noteq> n then Inl (RuntimeError ''multi-LoRA row binding does not match the forward batch'')
          else Inr (map (slot_values wm) slots))"

definition clear_rows :: "'t lora \<Rightarrow> 't lora" where
  "clear_rows m = m\<lparr>row_ids := None, bound_rows := None\<rparr>"

definition lookup_adapter :: "string \<Rightarrow> 't lora \<Rightarrow> (string \<times> string) option" where
  "lookup_adapter name m = map_option (\<lambda>a. (a_name a, a_fingerprint a)) (map_of (registry m) name)"

text \<open>The load of \<open>_load_multi_lora_adapter\<close> after its \<open>prepare\<close>.\<close>

definition load_prepared :: "'t adapter \<times> string list \<Rightarrow> (nat \<times> exc) option \<Rightarrow> 't lora \<Rightarrow> (unit, 't lora) res" where
  "load_prepared prep fails m =
     (let (a, new) = prep
      in if map_of (registry m) (a_name a) \<noteq> None then (Inl (ValueError ''LoRA adapter is already loaded''), m)
         else if new \<noteq> [] then bind_res (wrap_keys new fails m) (\<lambda>_ m. commit_adapter a m)
         else commit_adapter a m)"

section \<open>Requests of the serving loop\<close>

text \<open>
  A job has the name and fingerprint its adapter had at submission, holds a slot from its admission
  to its end and a row (a uid) of the batch in between; the batch never gives two live jobs one uid.
  The prepared adapters of concurrent load calls wait in \<open>prepared\<close>; a load consumes its own.
\<close>

record lora_job =
  j_name :: string
  j_fingerprint :: string
  j_slot :: "nat option"
  j_uid :: "int option"

record 't lora_world =
  manager :: "'t lora"
  prepared :: "('t adapter \<times> string list) option list"
  lora_jobs :: "lora_job list"

definition submit_job :: "string \<Rightarrow> 't lora_world \<Rightarrow> (unit, 't lora_world) res" where
  "submit_job name w =
     (case lookup_adapter name (manager w) of
        None \<Rightarrow> (Inl (ResourceNotFound ''unknown model''), w)
      | Some (n, fp) \<Rightarrow> (Inr (), w\<lparr>lora_jobs := lora_jobs w @ [\<lparr>j_name = n, j_fingerprint = fp, j_slot = None, j_uid = None\<rparr>]\<rparr>))"

definition set_job :: "nat \<Rightarrow> lora_job \<Rightarrow> 't lora_world \<Rightarrow> 't lora_world" where
  "set_job i j w = w\<lparr>lora_jobs := (lora_jobs w)[i := j]\<rparr>"

definition admit_job :: "'t lora_env \<Rightarrow> nat \<Rightarrow> exc + payload \<Rightarrow> exc option \<Rightarrow> (nat \<times> exc) option \<Rightarrow> 't lora_world \<Rightarrow> (unit, 't lora_world) res" where
  "admit_job E i content load_error writes w =
     (let j = lora_jobs w ! i
      in if j_slot j \<noteq> None then (Inr (), w)
         else case acquire_slot E (j_name j) (Some (j_fingerprint j)) content load_error writes (manager w) of
                (Inl e, m) \<Rightarrow> (Inl e, w\<lparr>manager := m\<rparr>)
              | (Inr (s, _), m) \<Rightarrow> (Inr (), set_job i (j\<lparr>j_slot := Some s\<rparr>) (w\<lparr>manager := m\<rparr>)))"

definition attach_job :: "nat \<Rightarrow> int \<Rightarrow> 't lora_world \<Rightarrow> (unit, 't lora_world) res" where
  "attach_job i u w =
     (let j = lora_jobs w ! i
      in case j_slot j of
           None \<Rightarrow> (Inr (), w)
         | Some s \<Rightarrow> (Inr (), set_job i (j\<lparr>j_uid := Some u\<rparr>) (w\<lparr>manager := bind_uid u s (manager w)\<rparr>)))"

definition finish_job :: "nat \<Rightarrow> 't lora_world \<Rightarrow> (unit, 't lora_world) res" where
  "finish_job i w =
     (let j = lora_jobs w ! i; w = set_job i (j\<lparr>j_slot := None, j_uid := None\<rparr>) w
      in case j_slot j of
           None \<Rightarrow> (Inr (), w)
         | Some s \<Rightarrow>
             (case release_slot s (case j_uid j of None \<Rightarrow> manager w | Some u \<Rightarrow> unbind_uid u (manager w)) of
                (r, m) \<Rightarrow> (r, w\<lparr>manager := m\<rparr>)))"

datatype lora_call =
    PrepareAdapter string bool "exc + json" "exc + payload"
  | LoadAdapter nat "(nat \<times> exc) option"
  | UnloadAdapter string
  | SubmitJob string
  | AdmitJob nat "exc + payload" "exc option" "(nat \<times> exc) option"
  | AttachJob nat int
  | FinishJob nat
  | Forward "int list"
  | ClearRows

fun lora_step :: "'t lora_env \<Rightarrow> lora_call \<Rightarrow> 't lora_world \<Rightarrow> (unit, 't lora_world) res" where
  "lora_step E (PrepareAdapter name files_exist parsed content) w =
     (case prepare_adapter E name files_exist parsed content (manager w) of
        Inl e \<Rightarrow> (Inl e, w)
      | Inr p \<Rightarrow> (Inr (), w\<lparr>prepared := prepared w @ [Some p]\<rparr>))"
| "lora_step E (LoadAdapter i fails) w =
     (if i < length (prepared w)
      then (case prepared w ! i of
              None \<Rightarrow> (Inl (IndexError ''the prepared adapter was used''), w)
            | Some p \<Rightarrow> (case load_prepared p fails (manager w) of (r, m) \<Rightarrow> (r, w\<lparr>manager := m, prepared := (prepared w)[i := None]\<rparr>)))
      else (Inl (IndexError ''no such prepared adapter''), w))"
| "lora_step E (UnloadAdapter name) w = (case unregister name (manager w) of (r, m) \<Rightarrow> (r, w\<lparr>manager := m\<rparr>))"
| "lora_step E (SubmitJob name) w = submit_job name w"
| "lora_step E (AdmitJob i content load_error writes) w =
     (if i < length (lora_jobs w) then admit_job E i content load_error writes w else (Inl (IndexError ''no such job''), w))"
| "lora_step E (AttachJob i u) w =
     (if i < length (lora_jobs w) \<and> j_uid (lora_jobs w ! i) = None \<and> Some u \<notin> j_uid ` set (lora_jobs w)
      then attach_job i u w else (Inl (IndexError ''no such job to attach''), w))"
| "lora_step E (FinishJob i) w = (if i < length (lora_jobs w) then finish_job i w else (Inl (IndexError ''no such job''), w))"
| "lora_step E (Forward uids) w = (Inr (), w\<lparr>manager := bind_rows uids (manager w)\<rparr>)"
| "lora_step E ClearRows w = (Inr (), w\<lparr>manager := clear_rows (manager w)\<rparr>)"

definition lora_start :: "'t lora_world \<Rightarrow> bool" where
  "lora_start w \<longleftrightarrow> (\<exists>n rank m. new_lora n rank = Inr m \<and> w = \<lparr>manager = m, prepared = [], lora_jobs = []\<rparr>)"

section \<open>The invariant\<close>

text \<open>
  What a registered adapter is: its modules are wrapped and its tensors are those of bytes with its
  fingerprint, once they are loaded.
\<close>

definition genuine :: "'t lora_env \<Rightarrow> 't adapter \<Rightarrow> bool" where
  "genuine E a \<longleftrightarrow> (\<exists>bs. fingerprint_of E bs a = a_fingerprint a \<and> a_tensors a = loaded_tensors E bs a)"

definition adapter_wellformed :: "'t adapter \<Rightarrow> bool" where
  "adapter_wellformed a \<longleftrightarrow> a_keys a \<noteq> [] \<and> distinct (a_module_keys a) \<and> length (a_module_keys a) = length (a_keys a) \<and> a_tensors a = []"

definition adapter_ok :: "'t lora_env \<Rightarrow> 't lora \<Rightarrow> string \<Rightarrow> 't adapter \<Rightarrow> bool" where
  "adapter_ok E m n a \<longleftrightarrow> a_name a = n \<and> adapter_wellformed (a\<lparr>a_tensors := []\<rparr>)
     \<and> set (a_module_keys a) \<subseteq> fst ` set (wrapped m) \<and> (a_tensors a = [] \<or> genuine E a)"

definition slots_of :: "(string \<times> 't wrapped_module) list \<Rightarrow> (string \<times> (nat \<Rightarrow> 't option)) list" where
  "slots_of ws = map (map_prod id slot_values) ws"

definition resident_ok :: "'t lora \<Rightarrow> nat \<Rightarrow> string \<Rightarrow> bool" where
  "resident_ok m s n \<longleftrightarrow> 1 \<le> s \<and> s \<le> max_loras m \<and> (\<exists>a. map_of (registry m) n = Some a \<and> a_tensors a \<noteq> []
     \<and> (\<forall>(k, v) \<in> set (slots_of (wrapped m)). v s = map_of (a_tensors a) k))"

definition manager_ok :: "'t lora_env \<Rightarrow> 't lora \<Rightarrow> bool" where
  "manager_ok E m \<longleftrightarrow> (\<forall>n a. map_of (registry m) n = Some a \<longrightarrow> adapter_ok E m n a)
     \<and> distinct (map fst (wrapped m)) \<and> (\<forall>(k, v) \<in> set (slots_of (wrapped m)). v 0 = None)
     \<and> distinct (map fst (resident m)) \<and> distinct (map snd (resident m)) \<and> (\<forall>(s, n) \<in> set (resident m). resident_ok m s n)"

definition cache_fresh :: "'t lora \<Rightarrow> bool" where
  "cache_fresh m \<longleftrightarrow> (\<forall>v us. bound_key m = Some (v, us) \<longrightarrow> v \<le> map_version m \<and> (v = map_version m \<longrightarrow> bound_slots m = map (row_slot m) us))"

definition holders :: "nat \<Rightarrow> lora_job list \<Rightarrow> nat" where
  "holders s js = length [j \<leftarrow> js. j_slot j = Some s]"

definition job_ok :: "'t lora \<Rightarrow> lora_job \<Rightarrow> bool" where
  "job_ok m j \<longleftrightarrow> (j_slot j = None \<longrightarrow> j_uid j = None)
     \<and> (\<forall>s. j_slot j = Some s \<longrightarrow> map_of (resident m) s = Some (j_name j)
          \<and> (\<exists>a. map_of (registry m) (j_name j) = Some a \<and> a_fingerprint a = j_fingerprint j))
     \<and> (\<forall>u. j_uid j = Some u \<longrightarrow> uid_slots m u = j_slot j)"

definition row_map_ok :: "'t lora \<Rightarrow> lora_job list \<Rightarrow> bool" where
  "row_map_ok m js \<longleftrightarrow> (\<forall>u. uid_slots m u \<noteq> None \<longrightarrow> Some u \<in> j_uid ` set js)
     \<and> (\<forall>i < length js. \<forall>k < length js. i \<noteq> k \<longrightarrow> j_uid (js ! i) \<noteq> None \<longrightarrow> j_uid (js ! i) \<noteq> j_uid (js ! k))"

definition lora_inv :: "'t lora_env \<Rightarrow> 't lora_world \<Rightarrow> bool" where
  "lora_inv E w \<longleftrightarrow> manager_ok E (manager w) \<and> cache_fresh (manager w)
     \<and> (\<forall>p \<in> set (prepared w). \<forall>a new. p = Some (a, new) \<longrightarrow> adapter_wellformed a)
     \<and> (\<forall>s. pins (manager w) s = int (holders s (lora_jobs w)))
     \<and> (\<forall>j \<in> set (lora_jobs w). job_ok (manager w) j) \<and> row_map_ok (manager w) (lora_jobs w)"

text \<open>What the operations that bind no rows leave alone, and what they keep of a pinned slot.\<close>

definition same_rows :: "'t lora \<Rightarrow> 't lora \<Rightarrow> bool" where
  "same_rows m m' \<longleftrightarrow> uid_slots m' = uid_slots m \<and> map_version m' = map_version m \<and> bound_key m' = bound_key m
     \<and> bound_slots m' = bound_slots m"

definition keeps_pinned :: "'t lora \<Rightarrow> 't lora \<Rightarrow> bool" where
  "keeps_pinned m m' \<longleftrightarrow> (\<forall>s n a. pins m s \<noteq> 0 \<longrightarrow> map_of (resident m) s = Some n \<longrightarrow> map_of (registry m) n = Some a \<longrightarrow>
     map_of (resident m') s = Some n \<and> (\<exists>a'. map_of (registry m') n = Some a' \<and> a_fingerprint a' = a_fingerprint a))"

lemma bump_simps [simp]:
  "max_loras (bump c n m) = max_loras m" "max_rank (bump c n m) = max_rank m" "registry (bump c n m) = registry m"
  "wrapped (bump c n m) = wrapped m" "resident (bump c n m) = resident m" "pins (bump c n m) = pins m"
  "uid_slots (bump c n m) = uid_slots m" "map_version (bump c n m) = map_version m" "bound_key (bump c n m) = bound_key m"
  "bound_slots (bump c n m) = bound_slots m" "row_ids (bump c n m) = row_ids m" "bound_rows (bump c n m) = bound_rows m"
  by (simp_all add: bump_def)

lemma keys_slots_of [simp]: "map fst (slots_of ws) = map fst ws" "fst ` set (slots_of ws) = fst ` set ws"
  by (simp_all add: slots_of_def image_image)

text \<open>The invariant of the manager reads only these fields.\<close>

lemma manager_ok_cong:
  assumes "registry m' = registry m" "slots_of (wrapped m') = slots_of (wrapped m)" "resident m' = resident m" "max_loras m' = max_loras m"
  shows "manager_ok E m' \<longleftrightarrow> manager_ok E m"
proof -
  have "map fst (wrapped m') = map fst (wrapped m)" "fst ` set (wrapped m') = fst ` set (wrapped m)"
    using keys_slots_of assms(2) by metis+
  then show ?thesis using assms by (simp add: manager_ok_def adapter_ok_def resident_ok_def)
qed

lemma same_rows_refl [simp]: "same_rows m m" and keeps_refl [simp]: "keeps_pinned m m"
  by (simp_all add: same_rows_def keeps_pinned_def)

lemma keeps_trans: "keeps_pinned m m' \<Longrightarrow> pins m' = pins m \<Longrightarrow> keeps_pinned m' m'' \<Longrightarrow> keeps_pinned m m''"
  unfolding keeps_pinned_def by metis

lemma same_rows_trans: "same_rows m m' \<Longrightarrow> same_rows m' m'' \<Longrightarrow> same_rows m m''"
  by (simp add: same_rows_def)

section \<open>The operations of the manager\<close>

lemma update_new: "map_of ws k = None \<Longrightarrow> AList.update k v ws = ws @ [(k, v)]"
  by (induction ws) auto

lemma make_wrappers_slots:
  assumes "make_wrappers ks fails ws n = (r, ws')"
  shows "\<exists>new. slots_of ws' = slots_of ws @ map (\<lambda>k. (k, \<lambda>_. None)) new \<and> distinct new \<and> set new \<inter> fst ` set ws = {}"
  using assms
proof (induction ks fails ws n arbitrary: r ws' rule: make_wrappers.induct)
  case (2 k ks fails ws n)
  let ?ws = "AList.update k \<lparr>installed = False, slot_values = (\<lambda>_. None)\<rparr> ws"
  have extend: "\<exists>new. slots_of ws' = slots_of ws @ map (\<lambda>k. (k, \<lambda>_. None)) new \<and> distinct new \<and> set new \<inter> fst ` set ws = {}"
    if "map_of ws k = None" "slots_of ws' = slots_of ?ws @ map (\<lambda>k. (k, \<lambda>_. None)) new" "distinct new" "set new \<inter> fst ` set ?ws = {}" for new
    using that by (intro exI [of _ "k # new"]) (auto simp: update_new slots_of_def map_of_eq_None_iff)
  show ?case
  proof (cases "map_of ws k = None")
    case True
    show ?thesis
    proof (cases fails)
      case None
      then show ?thesis using 2(2) 2(4) True extend by fastforce
    next
      case (Some f)
      then obtain i e where f: "fails = Some (i, e)" by (cases f) auto
      show ?thesis
      proof (cases i)
        case 0
        then show ?thesis using 2(4) True f by (intro exI [of _ "[]"]) auto
      next
        case (Suc i')
        then show ?thesis using 2(3) 2(4) True f Suc extend by fastforce
      qed
    qed
  qed (use 2 in auto)
qed (intro exI [of _ "[]"], simp)

text \<open>Wrapping more modules: what a resident adapter does not cover is zero in them.\<close>

lemma manager_okD:
  assumes "manager_ok E m"
  shows "map_of (registry m) n = Some a \<Longrightarrow> adapter_ok E m n a" and "distinct (map fst (wrapped m))"
    and "(k, v) \<in> set (slots_of (wrapped m)) \<Longrightarrow> v 0 = None" and "distinct (map fst (resident m))"
    and "distinct (map snd (resident m))" and "map_of (resident m) s = Some n \<Longrightarrow> resident_ok m s n"
  using assms by (auto simp: manager_ok_def dest: map_of_SomeD)

lemma manager_okI:
  assumes "\<And>n a. map_of (registry m) n = Some a \<Longrightarrow> adapter_ok E m n a" and "distinct (map fst (wrapped m))"
    and "\<And>k v. (k, v) \<in> set (slots_of (wrapped m)) \<Longrightarrow> v 0 = None" and "distinct (map fst (resident m))"
    and "distinct (map snd (resident m))" and "\<And>s n. (s, n) \<in> set (resident m) \<Longrightarrow> resident_ok m s n"
  shows "manager_ok E m"
  using assms by (auto simp: manager_ok_def)

lemma tensor_modules:
  assumes "adapter_ok E m n a" and "map_of (a_tensors a) k = Some t"
  shows "k \<in> fst ` set (wrapped m)"
proof -
  have g: "genuine E a" using assms by (auto simp: adapter_ok_def)
  have p: "length (a_module_keys a) = length (a_keys a)" "a_keys a \<noteq> []" "set (a_module_keys a) \<subseteq> fst ` set (wrapped m)"
    using assms(1) by (auto simp: adapter_ok_def adapter_wellformed_def)
  have mk: "adapter_modules a = a_module_keys a" using p(1,2) by (auto simp: adapter_modules_def)
  obtain bs where "a_tensors a = loaded_tensors E bs a" using g by (auto simp: genuine_def)
  then have "k \<in> dom (map_of (loaded_tensors E bs a))" using assms(2) by auto
  then have "k \<in> set (a_module_keys a)"
    using p(1) by (auto simp: loaded_tensors_def Let_def updates_conv' mk dest: in_set_takeD)
  then show ?thesis using p(3) by auto
qed

lemma extend_wrapped:
  assumes ok: "manager_ok E m" and slots: "slots_of (wrapped m') = slots_of (wrapped m) @ map (\<lambda>k. (k, \<lambda>_. None)) new"
    and new: "distinct new" "set new \<inter> fst ` set (wrapped m) = {}"
    and same: "registry m' = registry m" "resident m' = resident m" "max_loras m' = max_loras m"
  shows "manager_ok E m'"
proof -
  have keys: "map fst (wrapped m') = map fst (wrapped m) @ new"
    using arg_cong [OF slots, of "map fst"] by (simp add: comp_def)
  then have dom: "fst ` set (wrapped m') = fst ` set (wrapped m) \<union> set new" by (metis set_append set_map)
  have "map_of (a_tensors a) k = None" if "map_of (registry m) n = Some a" "k \<in> set new" for n a k
    using tensor_modules [OF manager_okD(1)[OF ok that(1)]] that(2) new(2) by (cases "map_of (a_tensors a) k") auto
  then have res: "resident_ok m' s n" if "resident_ok m s n" for s n
    using that same slots by (auto simp: resident_ok_def)
  have "adapter_ok E m' n a" if "map_of (registry m') n = Some a" for n a
    using manager_okD(1)[OF ok, of n a] that same(1) dom by (auto simp: adapter_ok_def)
  moreover have "distinct (map fst (wrapped m'))" using keys manager_okD(2)[OF ok] new by auto
  moreover have "v 0 = None" if "(k, v) \<in> set (slots_of (wrapped m'))" for k v
    using that slots manager_okD(3)[OF ok] by auto
  moreover have "resident_ok m' s n" if "(s, n) \<in> set (resident m')" for s n
    using that res ok same(2) by (auto simp: manager_ok_def)
  ultimately show ?thesis using manager_okD(4,5)[OF ok] same(2) by (intro manager_okI) simp_all
qed

lemma slots_of_install [simp]: "slots_of (install new ws) = slots_of ws"
  by (auto simp: slots_of_def install_def)

lemma wrap_keys_ok:
  assumes "manager_ok E m" and "wrap_keys ks fails m = (r, m')"
  shows "manager_ok E m'" and "same_rows m m'" and "keeps_pinned m m'" and "pins m' = pins m" and "registry m' = registry m"
proof -
  obtain r' ws where ws: "make_wrappers ks fails (wrapped m) 0 = (r', ws)" by fastforce
  obtain new where new: "slots_of ws = slots_of (wrapped m) @ map (\<lambda>k. (k, \<lambda>_. None)) new" "distinct new" "set new \<inter> fst ` set (wrapped m) = {}"
    using make_wrappers_slots [OF ws] by blast
  have r: "m' = m \<or> slots_of (wrapped m') = slots_of ws" "registry m' = registry m" "resident m' = resident m" "max_loras m' = max_loras m"
    "pins m' = pins m" "same_rows m m'"
    using assms(2) ws by (auto simp: wrap_keys_def same_rows_def split: if_splits sum.splits)
  show "manager_ok E m'" using r(1)
  proof
    assume "slots_of (wrapped m') = slots_of ws"
    then show ?thesis using extend_wrapped [OF assms(1) _ new(2,3) r(2-4)] new(1) by simp
  qed (use assms(1) in simp)
  show "same_rows m m'" "keeps_pinned m m'" "pins m' = pins m" "registry m' = registry m"
    using r by (auto simp: keeps_pinned_def)
qed

lemma commit_adapter_ok:
  assumes ok: "manager_ok E m" and a: "adapter_wellformed a" and c: "commit_adapter a m = (r, m')"
  shows "manager_ok E m'" and "same_rows m m'" and "keeps_pinned m m'" and "pins m' = pins m"
proof -
  have mk: "adapter_modules a = a_module_keys a" using a by (auto simp: adapter_modules_def adapter_wellformed_def)
  show "same_rows m m'" "pins m' = pins m"
    using c by (auto simp: commit_adapter_def same_rows_def split: if_splits)
  have m': "m' = m \<or> (map_of (registry m) (a_name a) = None \<and> set (a_module_keys a) \<subseteq> fst ` set (wrapped m)
     \<and> m' = bump ''registrations'' 1 (m\<lparr>registry := AList.update (a_name a) a (registry m)\<rparr>))"
    using c by (auto simp: commit_adapter_def mk map_of_eq_None_iff split: if_splits)
  show "keeps_pinned m m'" using m' by (auto simp: keeps_pinned_def update_conv')
  show "manager_ok E m'" using m'
  proof
    assume n: "map_of (registry m) (a_name a) = None \<and> set (a_module_keys a) \<subseteq> fst ` set (wrapped m)
     \<and> m' = bump ''registrations'' 1 (m\<lparr>registry := AList.update (a_name a) a (registry m)\<rparr>)"
    have "resident_ok m' s n" if "resident_ok m s n" for s n
      using that n by (auto simp: resident_ok_def update_conv')
    moreover have "adapter_ok E m' n b" if "map_of (registry m') n = Some b" for n b
      using that n a ok by (auto simp: update_conv' manager_ok_def adapter_ok_def adapter_wellformed_def split: if_splits)
    ultimately show ?thesis using ok n by (auto simp: manager_ok_def)
  qed (use ok in simp)
qed

lemma load_prepared_ok:
  assumes "manager_ok E m" and "adapter_wellformed (fst p)" and "load_prepared p fails m = (r, m')"
  shows "manager_ok E m'" and "same_rows m m'" and "keeps_pinned m m'" and "pins m' = pins m"
proof -
  have "manager_ok E m' \<and> same_rows m m' \<and> keeps_pinned m m' \<and> pins m' = pins m"
  proof (cases "map_of (registry m) (a_name (fst p)) \<noteq> None \<or> snd p = []")
    case True
    then show ?thesis using assms commit_adapter_ok [OF assms(1,2)] by (auto simp: load_prepared_def split: prod.splits if_splits)
  next
    case False
    obtain r1 m1 where w: "wrap_keys (snd p) fails m = (r1, m1)" by fastforce
    note w_ok = wrap_keys_ok [OF assms(1) w]
    have "m' = m1 \<or> commit_adapter (fst p) m1 = (r, m')"
      using assms(3) False w by (cases r1) (auto simp: load_prepared_def split: prod.splits)
    then show ?thesis
    proof
      assume "commit_adapter (fst p) m1 = (r, m')"
      note c_ok = commit_adapter_ok [OF w_ok(1) assms(2) this]
      then show ?thesis using w_ok keeps_trans same_rows_trans by metis
    qed (use w_ok in simp)
  qed
  then show "manager_ok E m'" "same_rows m m'" "keeps_pinned m m'" "pins m' = pins m" by auto
qed

text \<open>Slots that nobody pins may leave the table.\<close>

lemma map_of_filter_keys: "map_of [kv \<leftarrow> xs. fst kv \<notin> S] k = (if k \<in> S then None else map_of xs k)"
  by (induction xs) auto

lemma map_of_SomeI: "distinct (map fst xs) \<Longrightarrow> (k, v) \<in> set xs \<Longrightarrow> map_of xs k = Some v"
  by simp

definition without_slots :: "nat set \<Rightarrow> 't lora \<Rightarrow> 't lora" where
  "without_slots S m = m\<lparr>resident := [sr \<leftarrow> resident m. fst sr \<notin> S]\<rparr>"

lemma without_slots_ok:
  assumes "manager_ok E m" and "\<And>s. s \<in> S \<Longrightarrow> pins m s = 0"
  shows "manager_ok E (without_slots S m)" and "keeps_pinned m (without_slots S m)" and "same_rows m (without_slots S m)"
proof -
  show "manager_ok E (without_slots S m)"
    using assms(1) by (auto simp: manager_ok_def without_slots_def adapter_ok_def resident_ok_def distinct_map_filter)
  show "keeps_pinned m (without_slots S m)"
    using assms(2) by (auto simp: keeps_pinned_def without_slots_def map_of_filter_keys)
qed (simp add: same_rows_def without_slots_def)

lemma drop_resident_without:
  assumes "drop_resident name rs m = (r, m')"
  shows "\<exists>S. m' = without_slots S m \<and> (\<forall>s \<in> S. pins m s = 0) \<and> (r = Inr () \<longrightarrow> S = {s. (s, name) \<in> set rs})"
  using assms
proof (induction name rs m rule: drop_resident.induct)
  case (1 name m)
  then show ?case by (intro exI [of _ "{}"]) (auto simp: without_slots_def)
next
  case (2 name slot n rs m)
  note prems = 2(3)
  consider "n \<noteq> name" | "n = name" "pins m slot \<noteq> 0" | "n = name" "pins m slot = 0" by blast
  then show ?case
  proof cases
    case 1
    then show ?thesis using 2(2)[OF 1] 2(3) by auto
  next
    case 2
    then show ?thesis using prems by (intro exI [of _ "{}"]) (auto simp: without_slots_def)
  next
    case 3
    then obtain S where S: "m' = without_slots S (m\<lparr>resident := AList.delete slot (resident m)\<rparr>)" "\<forall>s \<in> S. pins m s = 0"
      "r = Inr () \<longrightarrow> S = {s. (s, name) \<in> set rs}"
      using 2(1)[OF 3(1)] 2(3) by auto
    have "m' = without_slots (insert slot S) m"
      unfolding S(1) by (auto simp: without_slots_def AList.delete_eq case_prod_unfold conj_commute intro!: arg_cong [where f = "\<lambda>x. m\<lparr>resident := x\<rparr>"] filter_cong)
    then show ?thesis using S(2,3) 3 by (intro exI [of _ "insert slot S"]) auto
  qed
qed

lemma unregister_ok:
  assumes ok: "manager_ok E m" and u: "unregister name m = (r, m')"
  shows "manager_ok E m'" and "same_rows m m'" and "keeps_pinned m m'" and "pins m' = pins m"
proof -
  obtain r1 m1 where d: "drop_resident name (resident m) m = (r1, m1)" by fastforce
  obtain S where S: "m1 = without_slots S m" "\<forall>s \<in> S. pins m s = 0" "r1 = Inr () \<longrightarrow> S = {s. (s, name) \<in> set (resident m)}"
    using drop_resident_without [OF d] by blast
  note s_ok = without_slots_ok [OF ok, of S]
  consider "m' = m" | "m' = m1" | "r1 = Inr ()" "m' = bump ''unregistrations'' 1 (m1\<lparr>registry := AList.delete name (registry m1)\<rparr>)"
    using u d by (cases r1) (auto simp: unregister_def split: if_splits)
  then have "manager_ok E m' \<and> same_rows m m' \<and> keeps_pinned m m' \<and> pins m' = pins m"
  proof cases
    case 3
    have reg: "map_of (registry m') n = (if n = name then None else map_of (registry m) n)" for n
      by (simp add: 3(2) S(1) without_slots_def delete_conv')
    have res: "resident m' = [sr \<leftarrow> resident m. snd sr \<noteq> name]"
    proof -
      have member: "s \<notin> S \<longleftrightarrow> n \<noteq> name" if sn: "(s, n) \<in> set (resident m)" for s n
      proof -
        have "s \<in> S \<longleftrightarrow> (s, name) \<in> set (resident m)" using S(3) 3(1) by simp
        also have "\<dots> \<longleftrightarrow> n = name" using sn eq_key_imp_eq_value [OF manager_okD(4)[OF ok] sn, of name] by metis
        finally show ?thesis by simp
      qed
      have "without_slots S m = m\<lparr>resident := [sr \<leftarrow> resident m. snd sr \<noteq> name]\<rparr>"
        using member by (auto simp: without_slots_def intro!: filter_cong arg_cong [where f = "\<lambda>x. m\<lparr>resident := x\<rparr>"])
      then show ?thesis using 3(2) S(1) by simp
    qed
    have rest: "wrapped m' = wrapped m" "max_loras m' = max_loras m" by (simp_all add: 3(2) S(1) without_slots_def)
    have "manager_ok E m'"
    proof (rule manager_okI)
      show "adapter_ok E m' n a" if "map_of (registry m') n = Some a" for n a
        using that manager_okD(1)[OF ok, of n a] rest by (auto simp: reg adapter_ok_def split: if_splits)
      show "resident_ok m' s n" if "(s, n) \<in> set (resident m')" for s n
        using that ok rest by (auto simp: res reg resident_ok_def manager_ok_def split: if_splits)
    qed (use manager_okD [OF ok] rest in \<open>auto simp: res distinct_map_filter\<close>)
    moreover have "keeps_pinned m m'"
      unfolding keeps_pinned_def
    proof (intro allI impI)
      fix s n a
      assume a: "pins m s \<noteq> 0" "map_of (resident m) s = Some n" "map_of (registry m) n = Some a"
      then have "s \<notin> S" using S(2) by auto
      then have "map_of (resident m') s = Some n"
        using a(2) by (simp add: 3(2) S(1) without_slots_def map_of_filter_keys)
      moreover have "n \<noteq> name" using \<open>s \<notin> S\<close> S(3) 3(1) a(2) by (auto dest: map_of_SomeD)
      ultimately have "n \<noteq> name" "map_of (resident m') s = Some n" by auto
      then show "map_of (resident m') s = Some n \<and> (\<exists>a'. map_of (registry m') n = Some a' \<and> a_fingerprint a' = a_fingerprint a)"
        using a(3) reg by auto
    qed
    ultimately show ?thesis by (simp add: 3(2) S(1) without_slots_def same_rows_def)
  qed (use ok s_ok S in \<open>auto simp: without_slots_def\<close>)
  then show "manager_ok E m'" "same_rows m m'" "keeps_pinned m m'" "pins m' = pins m" by auto
qed

text \<open>The slot chosen for a load is free, and whatever was evicted was not pinned.\<close>

lemma choose_slot_ok:
  assumes ok: "manager_ok E m" and c: "choose_slot m = (r, m')"
  shows "manager_ok E m'" and "same_rows m m'" and "keeps_pinned m m'" and "pins m' = pins m" and "registry m' = registry m"
    and "set (resident m') \<subseteq> set (resident m)" and "max_loras m' = max_loras m"
    and "r = Inr (s, why) \<Longrightarrow> 1 \<le> s \<and> s \<le> max_loras m \<and> map_of (resident m') s = None"
proof -
  consider (free) f fs where "[s \<leftarrow> [1..<Suc (max_loras m)]. map_of (resident m) s = None] = f # fs" "r = Inr (f, ''loaded'')" "m' = m"
    | (none) e where "m' = bump ''slot_deferred'' 1 m" "r = Inl e"
    | (victim) v n vs where "[sr \<leftarrow> resident m. pins m (fst sr) = 0] = (v, n) # vs" "r = Inr (v, ''evicted'')"
        "m' = bump ''slot_evictions'' 1 (without_slots {v} m)"
  proof (cases "[s \<leftarrow> [1..<Suc (max_loras m)]. map_of (resident m) s = None]")
    case (Cons f fs)
    show ?thesis using c that(1)[OF Cons] unfolding choose_slot_def Cons by simp
  next
    case no_free: Nil
    show ?thesis
    proof (cases "[sr \<leftarrow> resident m. pins m (fst sr) = 0]")
      case Nil
      show ?thesis using c that(2) unfolding choose_slot_def no_free Nil by auto
    next
      case (Cons vn vs)
      have "AList.delete (fst vn) (resident m) = [sr \<leftarrow> resident m. fst sr \<noteq> fst vn]"
        by (auto simp: AList.delete_eq intro!: filter_cong)
      then show ?thesis using c that(3)[of "fst vn" "snd vn" vs] Cons
        unfolding choose_slot_def no_free Cons by (simp add: without_slots_def case_prod_unfold)
    qed
  qed
  then have "manager_ok E m' \<and> same_rows m m' \<and> keeps_pinned m m' \<and> pins m' = pins m \<and> registry m' = registry m
     \<and> set (resident m') \<subseteq> set (resident m) \<and> max_loras m' = max_loras m
     \<and> (r = Inr (s, why) \<longrightarrow> 1 \<le> s \<and> s \<le> max_loras m \<and> map_of (resident m') s = None)"
  proof cases
    case free
    have "f \<in> set [s \<leftarrow> [1..<Suc (max_loras m)]. map_of (resident m) s = None]" using free(1) by simp
    then show ?thesis using free ok by auto
  next
    case none
    then show ?thesis using ok manager_ok_cong [of "bump ''slot_deferred'' 1 m" m E] by (auto simp: same_rows_def keeps_pinned_def)
  next
    case victim
    have "(v, n) \<in> set [sr \<leftarrow> resident m. pins m (fst sr) = 0]" using victim(1) by simp
    then have v: "pins m v = 0" "(v, n) \<in> set (resident m)" by auto
    have "manager_ok E (without_slots {v} m)" "keeps_pinned m (without_slots {v} m)"
      using without_slots_ok [OF ok, of "{v}"] v(1) by auto
    moreover have "1 \<le> v \<and> v \<le> max_loras m" using ok v(2) by (auto simp: manager_ok_def resident_ok_def)
    moreover have "map_of (resident m') v = None"
      using map_of_filter_keys [of "{v}" "resident m" v] by (simp add: victim(3) without_slots_def)
    ultimately show ?thesis using manager_ok_cong [of m' "without_slots {v} m" E]
      by (auto simp: victim(2,3) same_rows_def keeps_pinned_def without_slots_def)
  qed
  then show "manager_ok E m'" "same_rows m m'" "keeps_pinned m m'" "pins m' = pins m" "registry m' = registry m"
    "set (resident m') \<subseteq> set (resident m)" "max_loras m' = max_loras m"
    "r = Inr (s, why) \<Longrightarrow> 1 \<le> s \<and> s \<le> max_loras m \<and> map_of (resident m') s = None" by auto
qed

lemma loaded_tensors_nonempty:
  assumes "length (a_module_keys a) = length (a_keys a)" and "a_keys a \<noteq> []"
  shows "loaded_tensors E bs a \<noteq> []"
proof
  assume empty: "loaded_tensors E bs a = []"
  have mk: "adapter_modules a = a_module_keys a" using assms by (auto simp: adapter_modules_def)
  have "dom (map_of (loaded_tensors E bs a)) = set (a_module_keys a)"
    using assms(1) by (simp add: loaded_tensors_def Let_def updates_conv' mk)
  then have "a_module_keys a = []" using empty by simp
  then show False using assms by simp
qed

lemma materialize_ok:
  assumes ok: "manager_ok E m" and a: "map_of (registry m) n = Some a" and mat: "materialize_adapter E content load_error a m = (r, m')"
  shows "manager_ok E m'" and "same_rows m m'" and "keeps_pinned m m'" and "pins m' = pins m" and "resident m' = resident m"
    and "wrapped m' = wrapped m" and "max_loras m' = max_loras m"
    and "r = Inr a' \<Longrightarrow> map_of (registry m') n = Some a' \<and> a_tensors a' \<noteq> [] \<and> a_fingerprint a' = a_fingerprint a"
proof -
  note a_ok = manager_okD(1)[OF ok a]
  have name: "a_name a = n" "adapter_wellformed (a\<lparr>a_tensors := []\<rparr>)" using a_ok by (auto simp: adapter_ok_def)
  consider (same) "m' = m" "r = Inr a' \<longrightarrow> a' = a \<and> a_tensors a \<noteq> []"
    | (loaded) bs b where "a_tensors a = []" "fingerprint_of E bs a = a_fingerprint a" "b = a\<lparr>a_tensors := loaded_tensors E bs a\<rparr>"
        "r = Inr b" "m' = bump ''materializations'' 1 (m\<lparr>registry := AList.update n b (registry m)\<rparr>)"
  proof (cases "a_tensors a = []")
    case False
    then show ?thesis using mat that(1) by (auto simp: materialize_adapter_def)
  next
    case True
    show ?thesis
    proof (cases content)
      case (Inl e)
      then show ?thesis using mat True that(1) by (auto simp: materialize_adapter_def)
    next
      case (Inr bs)
      have "r = Inr (a\<lparr>a_tensors := loaded_tensors E bs a\<rparr>) \<and> fingerprint_of E bs a = a_fingerprint a
        \<and> m' = bump ''materializations'' 1 (m\<lparr>registry := AList.update n (a\<lparr>a_tensors := loaded_tensors E bs a\<rparr>) (registry m)\<rparr>)
        \<or> m' = m \<and> (\<exists>e. r = Inl e)"
        using mat True Inr name(1) unfolding materialize_adapter_def Let_def
        by (cases load_error) (auto split: if_splits)
      then show ?thesis using that(1) that(2)[OF True, of bs "a\<lparr>a_tensors := loaded_tensors E bs a\<rparr>"] by fastforce
    qed
  qed
  then have "manager_ok E m' \<and> same_rows m m' \<and> keeps_pinned m m' \<and> pins m' = pins m \<and> resident m' = resident m
     \<and> wrapped m' = wrapped m \<and> max_loras m' = max_loras m
     \<and> (r = Inr a' \<longrightarrow> map_of (registry m') n = Some a' \<and> a_tensors a' \<noteq> [] \<and> a_fingerprint a' = a_fingerprint a)"
  proof cases
    case same
    then show ?thesis using ok a by auto
  next
    case (loaded bs b)
    have "a_tensors b \<noteq> []"
      using loaded_tensors_nonempty [of a E bs] name(2) loaded(3) by (auto simp: adapter_wellformed_def)
    have "genuine E b"
      using loaded(2) by (auto simp: genuine_def loaded(3) fingerprint_of_def loaded_tensors_def adapter_modules_def intro!: exI [of _ bs])
    have reg: "map_of (registry m') = (map_of (registry m))(n \<mapsto> b)" by (simp add: loaded(5) update_conv')
    have rest: "wrapped m' = wrapped m" "resident m' = resident m" "max_loras m' = max_loras m" by (simp_all add: loaded(5))
    have "manager_ok E m'"
    proof (rule manager_okI)
      show "adapter_ok E m' i c" if "map_of (registry m') i = Some c" for i c
        using that manager_okD(1)[OF ok, of i] a_ok \<open>genuine E b\<close> rest(1)
        by (auto simp: reg adapter_ok_def loaded(3) adapter_wellformed_def split: if_splits)
      show "resident_ok m' s i" if "(s, i) \<in> set (resident m')" for s i
      proof -
        have "resident_ok m s i" using that ok rest(2) by (auto simp: manager_ok_def)
        then show ?thesis using a loaded(1) rest reg by (auto simp: resident_ok_def)
      qed
    qed (use manager_okD [OF ok] rest in auto)
    moreover have "keeps_pinned m m'"
      using a by (auto simp: keeps_pinned_def reg rest loaded(3))
    ultimately show ?thesis
      using \<open>a_tensors b \<noteq> []\<close> reg by (auto simp: loaded(3,4)) (simp_all add: loaded(5) same_rows_def)
  qed
  then show "manager_ok E m'" "same_rows m m'" "keeps_pinned m m'" "pins m' = pins m" "resident m' = resident m"
    "wrapped m' = wrapped m" "max_loras m' = max_loras m"
    "r = Inr a' \<Longrightarrow> map_of (registry m') n = Some a' \<and> a_tensors a' \<noteq> [] \<and> a_fingerprint a' = a_fingerprint a" by auto
qed

lemma write_modules_slots:
  assumes "write_modules s ts fails ws = (r, ws')"
  shows "map fst ws' = map fst ws
     \<and> (\<forall>k v'. (k, v') \<in> set (slots_of ws') \<longrightarrow> (\<exists>v. (k, v) \<in> set (slots_of ws) \<and> (\<forall>s'. s' \<noteq> s \<longrightarrow> v' s' = v s')) \<and> (r = Inr () \<longrightarrow> v' s = map_of ts k))"
  using assms
proof (induction s ts fails ws arbitrary: r ws' rule: write_modules.induct)
  case (1 slot ts fails)
  then show ?case by (auto simp: slots_of_def split: option.splits)
next
  case (2 slot ts fails k w ws)
  have step: "map fst ws' = map fst ((k, w) # ws) \<and> (\<forall>j v'. (j, v') \<in> set (slots_of ws') \<longrightarrow>
      (\<exists>v. (j, v) \<in> set (slots_of ((k, w) # ws)) \<and> (\<forall>s'. s' \<noteq> slot \<longrightarrow> v' s' = v s')) \<and> (r = Inr () \<longrightarrow> v' slot = map_of ts j))"
    if rest: "ws' = (k, w\<lparr>slot_values := (slot_values w)(slot := map_of ts k)\<rparr>) # ws1"
      and ih: "map fst ws1 = map fst ws \<and> (\<forall>j v'. (j, v') \<in> set (slots_of ws1) \<longrightarrow>
        (\<exists>v. (j, v) \<in> set (slots_of ws) \<and> (\<forall>s'. s' \<noteq> slot \<longrightarrow> v' s' = v s')) \<and> (r = Inr () \<longrightarrow> v' slot = map_of ts j))" for ws1
  proof (intro conjI allI impI)
    fix j v'
    assume "(j, v') \<in> set (slots_of ws')"
    then consider "j = k" "v' = (slot_values w)(slot := map_of ts k)" | "(j, v') \<in> set (slots_of ws1)"
      by (auto simp: rest slots_of_def)
    then have "(\<exists>v. (j, v) \<in> set (slots_of ((k, w) # ws)) \<and> (\<forall>s'. s' \<noteq> slot \<longrightarrow> v' s' = v s')) \<and> (r = Inr () \<longrightarrow> v' slot = map_of ts j)"
    proof cases
      case 1
      then show ?thesis by (auto simp: slots_of_def intro!: exI [of _ "slot_values w"])
    next
      case 2
      have "set (slots_of ws) \<subseteq> set (slots_of ((k, w) # ws))" by (auto simp: slots_of_def)
      then show ?thesis using 2 ih by blast
    qed
    then show "\<exists>v. (j, v) \<in> set (slots_of ((k, w) # ws)) \<and> (\<forall>s'. s' \<noteq> slot \<longrightarrow> v' s' = v s')" and "r = Inr () \<Longrightarrow> v' slot = map_of ts j"
      by auto
  qed (use rest ih in auto)
  show ?case
  proof (cases fails)
    case None
    obtain r1 ws1 where rec: "write_modules slot ts None ws = (r1, ws1)" by fastforce
    then show ?thesis using 2(1)[OF refl None] 2(3) None step by auto
  next
    case (Some f)
    then obtain i e where f: "fails = Some (i, e)" by (cases f) auto
    show ?thesis
    proof (cases i)
      case 0
      then show ?thesis using 2(3) f by (auto simp: slots_of_def)
    next
      case (Suc i')
      obtain r1 ws1 where rec: "write_modules slot ts (Some (i', e)) ws = (r1, ws1)" by fastforce
      then show ?thesis using 2(2)[OF refl f refl Suc] 2(3) f Suc step by auto
    qed
  qed
qed

text \<open>
  A load writes its own adapter into every module of a slot that nobody uses, so a pinned slot keeps
  what it holds; the slot counts as resident only when every module was written.
\<close>

lemma write_slot_ok:
  assumes ok: "manager_ok E m" and free: "map_of (resident m) s = None" and s: "1 \<le> s"
    and w: "write_modules s ts fails (wrapped m) = (r, ws)"
  shows "manager_ok E (m\<lparr>wrapped := ws\<rparr>)"
    and "r = Inr () \<Longrightarrow> (k, v) \<in> set (slots_of ws) \<Longrightarrow> v s = map_of ts k"
proof -
  have slots: "\<exists>v. (k, v) \<in> set (slots_of (wrapped m)) \<and> (\<forall>s'. s' \<noteq> s \<longrightarrow> v' s' = v s')" if "(k, v') \<in> set (slots_of ws)" for k v'
    using write_modules_slots [OF w] that by blast
  have keys: "map fst ws = map fst (wrapped m)" using write_modules_slots [OF w] by blast
  then have dom: "fst ` set ws = fst ` set (wrapped m)" by (metis set_map)
  show "manager_ok E (m\<lparr>wrapped := ws\<rparr>)"
  proof (rule manager_okI)
    show "adapter_ok E (m\<lparr>wrapped := ws\<rparr>) n a" if "map_of (registry (m\<lparr>wrapped := ws\<rparr>)) n = Some a" for n a
      using that manager_okD(1)[OF ok, of n a] dom by (simp add: adapter_ok_def)
    show "v 0 = None" if "(k, v) \<in> set (slots_of (wrapped (m\<lparr>wrapped := ws\<rparr>)))" for k v
      using slots [of k v] that s manager_okD(3)[OF ok] by fastforce
    show "resident_ok (m\<lparr>wrapped := ws\<rparr>) s' n" if "(s', n) \<in> set (resident (m\<lparr>wrapped := ws\<rparr>))" for s' n
    proof -
      have "s' \<noteq> s" using that free by (force simp: map_of_eq_None_iff)
      moreover have "resident_ok m s' n" using that ok by (auto simp: manager_ok_def)
      ultimately show ?thesis using slots by (fastforce simp: resident_ok_def)
    qed
  qed (use manager_okD [OF ok] keys in simp_all)
  show "v s = map_of ts k" if "r = Inr ()" "(k, v) \<in> set (slots_of ws)"
    using write_modules_slots [OF w] that by blast
qed

lemma find_resident_Some: "find_resident n rs = Some s \<Longrightarrow> (s, n) \<in> set rs"
  by (auto simp: find_resident_def find_Some_iff) (metis nth_mem snd_conv)

lemma find_resident_None: "find_resident n rs = None \<longleftrightarrow> n \<notin> snd ` set rs"
  by (force simp: find_resident_def find_None_iff)

lemma set_move_to_end [simp]: "set (move_to_end s rs) = set rs"
  by (auto simp: move_to_end_def)

lemma distinct_move_to_end: "distinct (map f rs) \<Longrightarrow> distinct (map f (move_to_end s rs))"
  by (auto simp: move_to_end_def distinct_map_filter distinct_map inj_on_def) 

lemma hit_slot_ok:
  assumes ok: "manager_ok E m" and hit: "find_resident name (resident m) = Some s" and a: "map_of (registry m) name = Some a"
    and m': "m' = bump ''slot_hits'' 1 (pin s (m\<lparr>resident := move_to_end s (resident m)\<rparr>))"
  shows "manager_ok E m'" and "same_rows m m'" and "keeps_pinned m m'" and "pins m' = (pins m)(s := pins m s + 1)"
    and "registry m' = registry m" and "map_of (resident m') s = Some name"
proof -
  have d: "distinct (map fst (resident m'))" "set (resident m') = set (resident m)" "registry m' = registry m" "wrapped m' = wrapped m"
    "max_loras m' = max_loras m"
    using distinct_move_to_end manager_okD(4)[OF ok] by (auto simp: m' pin_def)
  have look: "map_of (resident m') t = map_of (resident m) t" for t
    using d(1,2) manager_okD(4)[OF ok] map_of_inject_set by metis
  show "manager_ok E m'"
    using ok d distinct_move_to_end by (auto simp: manager_ok_def adapter_ok_def resident_ok_def m' pin_def)
  show "keeps_pinned m m'" using look d(3) by (simp add: keeps_pinned_def)
  show "map_of (resident m') s = Some name" using look find_resident_Some [OF hit] manager_okD(4)[OF ok] by simp
qed (simp_all add: m' pin_def same_rows_def)

lemma load_slot_ok:
  assumes ok: "manager_ok E m" and a: "map_of (registry m) name = Some a" "a_tensors a \<noteq> []" and absent: "name \<notin> snd ` set (resident m)"
    and free: "map_of (resident m) s = None" and s: "1 \<le> s" "s \<le> max_loras m"
    and w: "write_modules s (a_tensors a) writes (wrapped m) = (Inr (), ws)"
    and m': "m' = bump ''slot_loads'' 1 (pin s (m\<lparr>wrapped := ws, resident := AList.update s name (resident m)\<rparr>))"
  shows "manager_ok E m'" and "same_rows m m'" and "keeps_pinned m m'" and "pins m' = (pins m)(s := pins m s + 1)"
    and "registry m' = registry m" and "map_of (resident m') s = Some name"
proof -
  note w_ok = write_slot_ok [OF ok free s(1) w]
  have res: "resident m' = resident m @ [(s, name)]" by (simp add: m' pin_def update_new [OF free])
  have rest: "registry m' = registry m" "wrapped m' = ws" "max_loras m' = max_loras m" by (simp_all add: m' pin_def)
  show "manager_ok E m'"
  proof (rule manager_okI)
    show "resident_ok m' t n" if "(t, n) \<in> set (resident m')" for t n
    proof (cases "(t, n) = (s, name)")
      case True
      then show ?thesis using s a w_ok(2) rest by (auto simp: resident_ok_def)
    next
      case False
      then have "resident_ok (m\<lparr>wrapped := ws\<rparr>) t n" using that w_ok(1) res by (auto simp: manager_ok_def)
      then show ?thesis using rest by (simp add: resident_ok_def)
    qed
    show "distinct (map fst (resident m'))" "distinct (map snd (resident m'))"
      using res free absent manager_okD(4,5)[OF ok] by (auto simp: map_of_eq_None_iff)
    show "adapter_ok E m' n b" if "map_of (registry m') n = Some b" for n b
      using manager_okD(1)[OF w_ok(1)] that rest by (simp add: adapter_ok_def)
  qed (use manager_okD(2,3)[OF w_ok(1)] rest in simp_all)
  show "keeps_pinned m m'" using free rest by (auto simp: keeps_pinned_def res map_add_def split: option.splits)
  show "map_of (resident m') s = Some name" using free by (simp add: res map_add_def)
qed (simp_all add: m' pin_def same_rows_def)


text \<open>What a call that pins a slot for an adapter does to the manager, whichever way it ends.\<close>

definition pinned_for :: "'t lora_env \<Rightarrow> string \<Rightarrow> string \<Rightarrow> 't lora \<Rightarrow> exc + nat \<times> string \<Rightarrow> 't lora \<Rightarrow> bool" where
  "pinned_for E name fp m r m' \<longleftrightarrow> manager_ok E m' \<and> same_rows m m' \<and> keeps_pinned m m'
     \<and> (case r of
          Inl _ \<Rightarrow> pins m' = pins m
        | Inr (s, _) \<Rightarrow> pins m' = (pins m)(s := pins m s + 1) \<and> map_of (resident m') s = Some name
            \<and> (\<exists>a. map_of (registry m') name = Some a \<and> a_fingerprint a = fp))"

lemma pinned_for_failed:
  "manager_ok E m' \<Longrightarrow> same_rows m m' \<Longrightarrow> keeps_pinned m m' \<Longrightarrow> pins m' = pins m \<Longrightarrow> pinned_for E name fp m (Inl e) m'"
  by (simp add: pinned_for_def)

lemma pinned_for_after:
  assumes "same_rows m m1" "keeps_pinned m m1" "pins m1 = pins m" and "pinned_for E name fp m1 r m'"
  shows "pinned_for E name fp m r m'"
  using assms keeps_trans [OF assms(2,3), of m'] same_rows_trans [OF assms(1), of m']
  by (auto simp: pinned_for_def split: sum.splits)

definition fill_slot :: "'t lora_env \<Rightarrow> string \<Rightarrow> 't adapter \<Rightarrow> exc + payload \<Rightarrow> exc option \<Rightarrow> (nat \<times> exc) option \<Rightarrow> nat \<times> string
    \<Rightarrow> 't lora \<Rightarrow> (nat \<times> string, 't lora) res" where
  "fill_slot E name a content load_error writes sr m =
     bind_res (materialize_adapter E content load_error a m) (\<lambda>a m.
       case write_modules (fst sr) (a_tensors a) writes (wrapped m) of
         (Inl e, ws) \<Rightarrow> (Inl e, m\<lparr>wrapped := ws\<rparr>)
       | (Inr _, ws) \<Rightarrow> (Inr sr, bump ''slot_loads'' 1 (pin (fst sr) (m\<lparr>wrapped := ws, resident := AList.update (fst sr) name (resident m)\<rparr>))))"

lemma acquire_slot_fill:
  assumes "map_of (registry m) name = Some a" and "find_resident name (resident m) = None"
  shows "acquire_slot E name (Some (a_fingerprint a)) content load_error writes m
     = bind_res (choose_slot m) (fill_slot E name a content load_error writes)"
  using assms by (auto simp: acquire_slot_def fill_slot_def case_prod_unfold split: sum.split)

lemma fill_slot_ok:
  assumes ok: "manager_ok E m" and a: "map_of (registry m) name = Some a" and absent: "name \<notin> snd ` set (resident m)"
    and s: "map_of (resident m) s = None" "1 \<le> s" "s \<le> max_loras m"
  shows "case fill_slot E name a content load_error writes (s, why) m of (r, m') \<Rightarrow> pinned_for E name (a_fingerprint a) m r m'"
proof -
  obtain r1 m1 where mat: "materialize_adapter E content load_error a m = (r1, m1)" by fastforce
  note m_ok = materialize_ok [OF ok a mat]
  show ?thesis
  proof (cases r1)
    case (Inl e)
    then show ?thesis using m_ok(1-4) mat by (simp add: fill_slot_def pinned_for_failed)
  next
    case (Inr b)
    note b = m_ok(8)[OF Inr]
    have free: "map_of (resident m1) s = None" "name \<notin> snd ` set (resident m1)" "s \<le> max_loras m1" using s absent m_ok(5,7) by auto
    obtain r2 ws where w: "write_modules s (a_tensors b) writes (wrapped m1) = (r2, ws)" by fastforce
    have "pinned_for E name (a_fingerprint a) m1 r m'" if "fill_slot E name a content load_error writes (s, why) m = (r, m')" for r m'
    proof (cases r2)
      case (Inl e)
      then have r: "r = Inl e" "m' = m1\<lparr>wrapped := ws\<rparr>" using that mat Inr w by (auto simp: fill_slot_def)
      then show ?thesis
        using write_slot_ok(1)[OF m_ok(1) free(1) s(2) w] by (auto simp: same_rows_def keeps_pinned_def intro!: pinned_for_failed)
    next
      case u: (Inr u)
      then have w': "write_modules s (a_tensors b) writes (wrapped m1) = (Inr (), ws)" using w by simp
      have r: "r = Inr (s, why)" "m' = bump ''slot_loads'' 1 (pin s (m1\<lparr>wrapped := ws, resident := AList.update s name (resident m1)\<rparr>))"
        using that mat Inr w u by (auto simp: fill_slot_def)
      show ?thesis
        using load_slot_ok [OF m_ok(1) _ _ free(2,1) s(2) free(3) w' r(2)] b by (simp add: pinned_for_def r(1))
    qed
    then show ?thesis using pinned_for_after [OF m_ok(2-4)] by (auto split: prod.split)
  qed
qed

lemma acquire_slot_ok:
  assumes ok: "manager_ok E m" and q: "acquire_slot E name (Some fp) content load_error writes m = (r, m')"
  shows "pinned_for E name fp m r m'"
proof (cases "\<exists>a. map_of (registry m) name = Some a \<and> a_fingerprint a = fp")
  case False
  then have "\<exists>e. r = Inl e" "m' = m" using q by (auto simp: acquire_slot_def split: option.splits if_splits)
  then show ?thesis using ok by (auto simp: pinned_for_def)
next
  case True
  then obtain a where a: "map_of (registry m) name = Some a" "a_fingerprint a = fp" by blast
  show ?thesis
  proof (cases "find_resident name (resident m)")
    case hit: (Some s)
    have r: "r = Inr (s, ''hit'')" "m' = bump ''slot_hits'' 1 (pin s (m\<lparr>resident := move_to_end s (resident m)\<rparr>))"
      using q a hit by (auto simp: acquire_slot_def)
    show ?thesis using hit_slot_ok [OF ok hit a(1) r(2)] r(1) a by (simp add: pinned_for_def)
  next
    case None
    obtain r1 m1 where c: "choose_slot m = (r1, m1)" by fastforce
    note c_ok = choose_slot_ok [OF ok c]
    have absent: "name \<notin> snd ` set (resident m1)" "map_of (registry m1) name = Some a"
      using None c_ok(5,6) a(1) by (auto simp: find_resident_None)
    have run: "(r, m') = bind_res (r1, m1) (fill_slot E name a content load_error writes)"
      using q acquire_slot_fill [OF a(1) None] a(2) c by simp
    show ?thesis
    proof (cases r1)
      case (Inl e)
      then show ?thesis using run c_ok(1-4) by (simp add: pinned_for_failed)
    next
      case (Inr sr)
      obtain s why where sr: "sr = (s, why)" by fastforce
      have s: "map_of (resident m1) s = None" "1 \<le> s" "s \<le> max_loras m1" using c_ok(7,8) Inr sr by auto
      have "pinned_for E name fp m1 r m'"
        using fill_slot_ok [OF c_ok(1) absent(2,1) s, of content load_error writes why] run Inr sr a(2) by (auto split: prod.splits)
      then show ?thesis by (rule pinned_for_after [OF c_ok(2-4)])
    qed
  qed
qed


lemma prepare_adapter_ok:
  assumes "prepare_adapter E name files_exist parsed content m = Inr (a, new)"
  shows "adapter_wellformed a"
  using assms read_lora_config_ok [of files_exist parsed]
  by (auto simp: prepare_adapter_def Let_def adapter_wellformed_def split: if_splits)

section \<open>Every step keeps the invariant\<close>

lemma row_slot_cong: "uid_slots m' = uid_slots m \<Longrightarrow> row_slot m' = row_slot m"
  by (simp add: row_slot_def fun_eq_iff)

lemma cache_fresh_same: "same_rows m m' \<Longrightarrow> cache_fresh m \<Longrightarrow> cache_fresh m'"
  by (auto simp: cache_fresh_def same_rows_def dest: row_slot_cong)

lemma holders_pos: "j \<in> set js \<Longrightarrow> j_slot j = Some s \<Longrightarrow> 0 < holders s js"
  by (auto simp: holders_def filter_empty_conv)

lemma holders_update:
  "i < length js \<Longrightarrow> holders s (js[i := j]) + (if j_slot (js ! i) = Some s then 1 else 0)
     = holders s js + (if j_slot j = Some s then 1 else 0)"
  unfolding holders_def by (rule filter_update_count)

lemma job_ok_kept:
  assumes "keeps_pinned m m'" and "uid_slots m' = uid_slots m" and "\<And>s. pins m s = int (holders s js)"
    and "j \<in> set js" and "job_ok m j"
  shows "job_ok m' j"
proof -
  have "map_of (resident m') s = Some (j_name j) \<and> (\<exists>a. map_of (registry m') (j_name j) = Some a \<and> a_fingerprint a = j_fingerprint j)"
    if s: "j_slot j = Some s" for s
  proof -
    have "pins m s \<noteq> 0" using assms(3) holders_pos [OF assms(4) s] by simp
    moreover obtain a where "map_of (resident m) s = Some (j_name j)" "map_of (registry m) (j_name j) = Some a" "a_fingerprint a = j_fingerprint j"
      using assms(5) s by (auto simp: job_ok_def)
    ultimately show ?thesis using assms(1) unfolding keeps_pinned_def by metis
  qed
  then show ?thesis using assms(2,5) by (simp add: job_ok_def)
qed

lemma lora_invD:
  assumes "lora_inv E w"
  shows "manager_ok E (manager w)" and "cache_fresh (manager w)"
    and "Some (a, new) \<in> set (prepared w) \<Longrightarrow> adapter_wellformed a" and "pins (manager w) s = int (holders s (lora_jobs w))"
    and "j \<in> set (lora_jobs w) \<Longrightarrow> job_ok (manager w) j" and "row_map_ok (manager w) (lora_jobs w)"
  using assms by (auto simp: lora_inv_def)

lemma lora_invI:
  assumes "manager_ok E (manager w)" and "cache_fresh (manager w)"
    and "\<And>a new. Some (a, new) \<in> set (prepared w) \<Longrightarrow> adapter_wellformed a" and "\<And>s. pins (manager w) s = int (holders s (lora_jobs w))"
    and "\<And>j. j \<in> set (lora_jobs w) \<Longrightarrow> job_ok (manager w) j" and "row_map_ok (manager w) (lora_jobs w)"
  shows "lora_inv E w"
  using assms by (auto simp: lora_inv_def)

text \<open>A call on the manager that pins nothing and binds nothing.\<close>

lemma manager_call_inv:
  assumes inv: "lora_inv E w" and "manager_ok E m'" "same_rows (manager w) m'" "keeps_pinned (manager w) m'" "pins m' = pins (manager w)"
    and ps: "set ps \<subseteq> insert None (set (prepared w))"
  shows "lora_inv E (w\<lparr>manager := m', prepared := ps\<rparr>)"
proof (rule lora_invI)
  have uid: "uid_slots m' = uid_slots (manager w)" using assms(3) by (simp add: same_rows_def)
  show "job_ok (manager (w\<lparr>manager := m', prepared := ps\<rparr>)) j" if "j \<in> set (lora_jobs (w\<lparr>manager := m', prepared := ps\<rparr>))" for j
    using job_ok_kept [OF assms(4) uid lora_invD(4)[OF inv], of j] that lora_invD(5)[OF inv] by simp
  show "row_map_ok (manager (w\<lparr>manager := m', prepared := ps\<rparr>)) (lora_jobs (w\<lparr>manager := m', prepared := ps\<rparr>))"
    using lora_invD(6)[OF inv] uid by (simp add: row_map_ok_def)
qed (use assms lora_invD [OF inv] cache_fresh_same in auto)

lemma manager_call_inv':
  assumes "lora_inv E w" "manager_ok E m'" "same_rows (manager w) m'" "keeps_pinned (manager w) m'" "pins m' = pins (manager w)"
  shows "lora_inv E (w\<lparr>manager := m'\<rparr>)"
  using manager_call_inv [OF assms, of "prepared w"] by auto

lemma submit_job_inv: "lora_inv E w \<Longrightarrow> lora_inv E (snd (submit_job name w))"
  unfolding submit_job_def
  by (auto simp: lora_inv_def holders_def row_map_ok_def job_ok_def nth_append less_Suc_eq split: option.split)

lemma row_map_ok_update:
  assumes "row_map_ok m js" and "i < length js" and "uid_slots m' = (uid_slots m)" and "j_uid j = j_uid (js ! i)"
  shows "row_map_ok m' (js[i := j])"
proof -
  have "map j_uid (js[i := j]) = map j_uid js" using assms(2,4) by (simp add: map_update list_update_same_conv)
  then have "j_uid ` set (js[i := j]) = j_uid ` set js" by (metis set_map)
  moreover have "j_uid (js[i := j] ! k) = j_uid (js ! k)" for k using assms(2,4) by (cases "k = i") simp_all
  ultimately show ?thesis using assms(1,3) by (simp add: row_map_ok_def)
qed

lemma admit_job_inv:
  assumes inv: "lora_inv E w" and i: "i < length (lora_jobs w)"
  shows "lora_inv E (snd (admit_job E i content load_error writes w))"
proof (cases "j_slot (lora_jobs w ! i)")
  case (Some s)
  then show ?thesis using inv by (simp add: admit_job_def)
next
  case None
  let ?j = "lora_jobs w ! i"
  obtain r m' where q: "acquire_slot E (j_name ?j) (Some (j_fingerprint ?j)) content load_error writes (manager w) = (r, m')" by fastforce
  note p = acquire_slot_ok [OF lora_invD(1)[OF inv] q]
  show ?thesis
  proof (cases r)
    case (Inl e)
    then show ?thesis using manager_call_inv' [OF inv, of m'] p q None by (auto simp: admit_job_def pinned_for_def)
  next
    case (Inr sw)
    obtain s why where sw: "sw = (s, why)" by fastforce
    let ?w = "set_job i (?j\<lparr>j_slot := Some s\<rparr>) (w\<lparr>manager := m'\<rparr>)"
    have m': "manager_ok E m'" "same_rows (manager w) m'" "keeps_pinned (manager w) m'" "pins m' = (pins (manager w))(s := pins (manager w) s + 1)"
      "map_of (resident m') s = Some (j_name ?j)" "\<exists>a. map_of (registry m') (j_name ?j) = Some a \<and> a_fingerprint a = j_fingerprint ?j"
      using p Inr sw by (auto simp: pinned_for_def)
    have uid: "uid_slots m' = uid_slots (manager w)" using m'(2) by (simp add: same_rows_def)
    have old: "job_ok m' j" if "j \<in> set (lora_jobs w)" for j
      using job_ok_kept [OF m'(3) uid lora_invD(4)[OF inv] that] lora_invD(5)[OF inv that] by blast
    have no_row: "j_uid ?j = None" using lora_invD(5)[OF inv nth_mem [OF i]] None by (simp add: job_ok_def)
    have "lora_inv E ?w"
    proof (rule lora_invI)
      show "pins (manager ?w) t = int (holders t (lora_jobs ?w))" for t
        using holders_update [OF i, of t "?j\<lparr>j_slot := Some s\<rparr>"] lora_invD(4)[OF inv, of t] None by (simp add: set_job_def m'(4) split: if_splits)
      show "job_ok (manager ?w) j" if "j \<in> set (lora_jobs ?w)" for j
      proof -
        have "j = ?j\<lparr>j_slot := Some s\<rparr> \<or> j \<in> set (lora_jobs w)" using that set_update_subset_insert by (fastforce simp: set_job_def)
        then show ?thesis using old m'(5,6) no_row by (auto simp: set_job_def job_ok_def)
      qed
      show "row_map_ok (manager ?w) (lora_jobs ?w)"
        using row_map_ok_update [OF lora_invD(6)[OF inv] i uid, of "?j\<lparr>j_slot := Some s\<rparr>"] by (simp add: set_job_def)
    qed (use m'(1,2) lora_invD [OF inv] cache_fresh_same in \<open>auto simp: set_job_def\<close>)
    then show ?thesis using q None Inr sw by (simp add: admit_job_def)
  qed
qed


lemma uids_differ:
  assumes "row_map_ok m js" and "a < length js" and "b < length js" and "a \<noteq> b" and "j_uid (js ! a) \<noteq> None"
  shows "j_uid (js ! a) \<noteq> j_uid (js ! b)"
  using assms unfolding row_map_ok_def by blast

lemma attach_job_inv:
  assumes inv: "lora_inv E w" and i: "i < length (lora_jobs w)" and free: "j_uid (lora_jobs w ! i) = None" "Some u \<notin> j_uid ` set (lora_jobs w)"
  shows "lora_inv E (snd (attach_job i u w))"
proof (cases "j_slot (lora_jobs w ! i)")
  case None
  then show ?thesis using inv by (simp add: attach_job_def)
next
  case (Some s)
  let ?j = "(lora_jobs w ! i)\<lparr>j_uid := Some u\<rparr>"
  let ?w = "set_job i ?j (w\<lparr>manager := bind_uid u s (manager w)\<rparr>)"
  have m: "registry (manager ?w) = registry (manager w)" "resident (manager ?w) = resident (manager w)" "wrapped (manager ?w) = wrapped (manager w)"
    "max_loras (manager ?w) = max_loras (manager w)" "pins (manager ?w) = pins (manager w)" "lora_jobs ?w = (lora_jobs w)[i := ?j]"
    "uid_slots (manager ?w) = (uid_slots (manager w))(u \<mapsto> s)" "prepared ?w = prepared w"
    by (simp_all add: set_job_def bind_uid_def)
  have "lora_inv E ?w"
  proof (rule lora_invI)
    show "manager_ok E (manager ?w)" using manager_ok_cong [of "manager ?w" "manager w" E] lora_invD(1)[OF inv] m by simp
    show "cache_fresh (manager ?w)" using lora_invD(2)[OF inv] by (auto simp: cache_fresh_def set_job_def bind_uid_def)
    show "pins (manager ?w) t = int (holders t (lora_jobs ?w))" for t
      using holders_update [OF i, of t ?j] lora_invD(4)[OF inv, of t] by (simp add: m split: if_splits)
    show "job_ok (manager ?w) j" if j: "j \<in> set (lora_jobs ?w)" for j
    proof -
      consider "j = ?j" | "j \<in> set (lora_jobs w)"
        using j set_update_subset_insert [of "lora_jobs w" i ?j] unfolding m by blast
      then show ?thesis
      proof cases
        case 1
        then show ?thesis using lora_invD(5)[OF inv nth_mem [OF i]] Some by (auto simp: job_ok_def m)
      next
        case 2
        then have "j_uid j \<noteq> Some u" using free(2) by (metis imageI)
        then show ?thesis using lora_invD(5)[OF inv 2] by (auto simp: job_ok_def m)
      qed
    qed
    show "row_map_ok (manager ?w) (lora_jobs ?w)"
      unfolding row_map_ok_def
    proof (intro conjI allI impI)
      fix v
      assume "uid_slots (manager ?w) v \<noteq> None"
      then have "v = u \<or> Some v \<in> j_uid ` set (lora_jobs w)" using lora_invD(6)[OF inv] by (auto simp: m row_map_ok_def split: if_splits)
      then obtain k where k: "k < length (lora_jobs w)" "v = u \<and> k = i \<or> j_uid (lora_jobs w ! k) = Some v"
        using i by (auto simp: in_set_conv_nth)
      then have "j_uid (lora_jobs ?w ! k) = Some v" using free(1) by (cases "k = i") (auto simp: m)
      then show "Some v \<in> j_uid ` set (lora_jobs ?w)" using k(1) by (metis imageI nth_mem m(6) length_list_update)
    next
      fix a b
      assume ab: "a < length (lora_jobs ?w)" "b < length (lora_jobs ?w)" "a \<noteq> b" "j_uid (lora_jobs ?w ! a) \<noteq> None"
      have "j_uid (lora_jobs w ! k) \<noteq> Some u" "Some u \<noteq> j_uid (lora_jobs w ! k)" if "k < length (lora_jobs w)" for k
        using free(2) that by (metis imageI nth_mem)+
      then show "j_uid (lora_jobs ?w ! a) \<noteq> j_uid (lora_jobs ?w ! b)"
        using ab uids_differ [OF lora_invD(6)[OF inv], of a b] by (cases "a = i"; cases "b = i") (auto simp: m)
    qed
  qed (use lora_invD(3)[OF inv] m in auto)
  then show ?thesis using Some by (simp add: attach_job_def)
qed

lemma finish_job_runs:
  assumes inv: "lora_inv E w" and i: "i < length (lora_jobs w)" and s: "j_slot (lora_jobs w ! i) = Some s"
  shows "finish_job i w = (Inr (), w\<lparr>lora_jobs := (lora_jobs w)[i := (lora_jobs w ! i)\<lparr>j_slot := None, j_uid := None\<rparr>],
     manager := (let m = (case j_uid (lora_jobs w ! i) of None \<Rightarrow> manager w | Some u \<Rightarrow> unbind_uid u (manager w))
       in m\<lparr>pins := (pins m)(s := pins m s - 1)\<rparr>)\<rparr>)"
proof -
  have "0 < pins (manager w) s" using lora_invD(4)[OF inv, of s] holders_pos [OF nth_mem [OF i] s] by simp
  then show ?thesis
    by (auto simp: finish_job_def set_job_def s release_slot_def unbind_uid_def Let_def split: option.split)
qed

lemma finish_job_inv:
  assumes inv: "lora_inv E w" and i: "i < length (lora_jobs w)"
  shows "lora_inv E (snd (finish_job i w))"
proof (cases "j_slot (lora_jobs w ! i)")
  case None
  then have "j_uid (lora_jobs w ! i) = None" using lora_invD(5)[OF inv nth_mem [OF i]] by (simp add: job_ok_def)
  then have "(lora_jobs w)[i := (lora_jobs w ! i)\<lparr>j_slot := None, j_uid := None\<rparr>] = lora_jobs w"
    using None by (simp add: list_update_same_conv [OF i])
  then show ?thesis using inv None by (simp add: finish_job_def set_job_def)
next
  case (Some s)
  let ?old = "lora_jobs w ! i" and ?w = "snd (finish_job i w)"
  let ?j = "?old\<lparr>j_slot := None, j_uid := None\<rparr>"
  note f = finish_job_runs [OF inv i Some]
  have uid: "uid_slots (manager ?w) = (\<lambda>v. if j_uid ?old = Some v then None else uid_slots (manager w) v)"
    by (auto simp: f Let_def unbind_uid_def fun_eq_iff split: option.split)
  have m: "registry (manager ?w) = registry (manager w)" "resident (manager ?w) = resident (manager w)" "wrapped (manager ?w) = wrapped (manager w)"
    "max_loras (manager ?w) = max_loras (manager w)" "pins (manager ?w) = (pins (manager w))(s := pins (manager w) s - 1)"
    "lora_jobs ?w = (lora_jobs w)[i := ?j]" "prepared ?w = prepared w"
    by (simp_all add: f Let_def unbind_uid_def split: option.split)
  have apart: "j_uid (lora_jobs w ! k) \<noteq> j_uid ?old" if "k < length (lora_jobs w)" "k \<noteq> i" "j_uid ?old \<noteq> None" for k
    using lora_invD(6)[OF inv] that i by (metis row_map_ok_def)
  show ?thesis
  proof (rule lora_invI)
    show "manager_ok E (manager ?w)" using manager_ok_cong [of "manager ?w" "manager w" E] lora_invD(1)[OF inv] m by simp
    show "cache_fresh (manager ?w)"
      using lora_invD(2)[OF inv] by (auto simp: f Let_def cache_fresh_def unbind_uid_def row_slot_def split: option.splits)
    show "pins (manager ?w) t = int (holders t (lora_jobs ?w))" for t
      using holders_update [OF i, of t ?j] lora_invD(4)[OF inv, of t] Some by (simp add: m split: if_splits)
    show "job_ok (manager ?w) j" if j: "j \<in> set (lora_jobs ?w)" for j
    proof -
      obtain k where k: "k < length (lora_jobs w)" "j = (lora_jobs w)[i := ?j] ! k"
        using j unfolding m by (metis in_set_conv_nth length_list_update)
      show ?thesis
      proof (cases "k = i")
        case True
        then show ?thesis using k i by (simp add: job_ok_def)
      next
        case False
        then have "j = lora_jobs w ! k" using k by simp
        then show ?thesis using lora_invD(5)[OF inv nth_mem [OF k(1)]] apart [OF k(1) False] by (auto simp: job_ok_def m uid)
      qed
    qed
    show "row_map_ok (manager ?w) (lora_jobs ?w)"
      unfolding row_map_ok_def
    proof (intro conjI allI impI)
      fix v
      assume v: "uid_slots (manager ?w) v \<noteq> None"
      then have "Some v \<in> j_uid ` set (lora_jobs w)" "j_uid ?old \<noteq> Some v"
        using lora_invD(6)[OF inv] by (auto simp: uid row_map_ok_def split: if_splits)
      then obtain k where "k < length (lora_jobs w)" "k \<noteq> i" "j_uid (lora_jobs w ! k) = Some v"
        by (auto simp: in_set_conv_nth) metis
      then have "k < length (lora_jobs ?w)" "j_uid (lora_jobs ?w ! k) = Some v" by (auto simp: m)
      then show "Some v \<in> j_uid ` set (lora_jobs ?w)" by (metis imageI nth_mem)
    next
      fix a b
      assume ab: "a < length (lora_jobs ?w)" "b < length (lora_jobs ?w)" "a \<noteq> b" "j_uid (lora_jobs ?w ! a) \<noteq> None"
      then have a: "a \<noteq> i" using i by (auto simp: m)
      then have "j_uid (lora_jobs w ! a) \<noteq> j_uid (lora_jobs w ! b)" "j_uid (lora_jobs w ! a) \<noteq> None"
        using ab uids_differ [OF lora_invD(6)[OF inv], of a b] by (auto simp: m)
      then show "j_uid (lora_jobs ?w ! a) \<noteq> j_uid (lora_jobs ?w ! b)"
        using ab a i by (cases "b = i") (auto simp: m)
    qed
  qed (use lora_invD(3)[OF inv] m in auto)
qed


lemma bind_rows_fields [simp]:
  "max_loras (bind_rows us m) = max_loras m" "registry (bind_rows us m) = registry m" "wrapped (bind_rows us m) = wrapped m"
  "resident (bind_rows us m) = resident m" "pins (bind_rows us m) = pins m" "uid_slots (bind_rows us m) = uid_slots m"
  "map_version (bind_rows us m) = map_version m"
proof -
  have count: "max_loras (fold count_row ss m) = max_loras m \<and> registry (fold count_row ss m) = registry m \<and> wrapped (fold count_row ss m) = wrapped m
     \<and> resident (fold count_row ss m) = resident m \<and> pins (fold count_row ss m) = pins m \<and> uid_slots (fold count_row ss m) = uid_slots m
     \<and> map_version (fold count_row ss m) = map_version m" for ss and m :: "'a lora"
    by (induction ss arbitrary: m) (simp_all add: count_row_def Let_def)
  show "max_loras (bind_rows us m) = max_loras m" "registry (bind_rows us m) = registry m" "wrapped (bind_rows us m) = wrapped m"
    "resident (bind_rows us m) = resident m" "pins (bind_rows us m) = pins m" "uid_slots (bind_rows us m) = uid_slots m"
    "map_version (bind_rows us m) = map_version m"
    by (simp_all add: bind_rows_def Let_def count)
qed

text \<open>The cached binding is the one the row map gives now.\<close>

lemma bind_rows_binds:
  assumes "cache_fresh m"
  shows "bound_key (bind_rows us m) = Some (map_version m, us)" and "bound_slots (bind_rows us m) = map (row_slot m) us"
    and "row_ids (bind_rows us m) = (if \<exists>u \<in> set us. row_slot m u \<noteq> 0 then Some (map (row_slot m) us) else None)"
    and "bound_rows (bind_rows us m) = Some (length us)"
proof -
  have count: "bound_key (fold count_row ss m) = bound_key m \<and> bound_slots (fold count_row ss m) = bound_slots m
     \<and> row_ids (fold count_row ss m) = row_ids m \<and> bound_rows (fold count_row ss m) = bound_rows m" for ss and m :: "'a lora"
    by (induction ss arbitrary: m) (simp_all add: count_row_def Let_def)
  have slot: "row_slot (bump c n m) = row_slot m" for c n by (simp add: row_slot_def fun_eq_iff)
  have "bound_key m = Some (map_version m, us) \<Longrightarrow> bound_slots m = map (row_slot m) us"
    using assms by (auto simp: cache_fresh_def)
  then show "bound_key (bind_rows us m) = Some (map_version m, us)" "bound_slots (bind_rows us m) = map (row_slot m) us"
    "row_ids (bind_rows us m) = (if \<exists>u \<in> set us. row_slot m u \<noteq> 0 then Some (map (row_slot m) us) else None)"
    "bound_rows (bind_rows us m) = Some (length us)"
    by (auto simp: bind_rows_def Let_def count slot)
qed

lemma bind_rows_inv:
  assumes inv: "lora_inv E w"
  shows "lora_inv E (w\<lparr>manager := bind_rows us (manager w)\<rparr>)"
proof -
  note b = bind_rows_binds [OF lora_invD(2)[OF inv], of us]
  have "row_slot (bind_rows us (manager w)) = row_slot (manager w)" by (rule row_slot_cong) simp
  then have "cache_fresh (bind_rows us (manager w))" using b by (simp add: cache_fresh_def)
  moreover have "manager_ok E (bind_rows us (manager w))"
    using manager_ok_cong [of "bind_rows us (manager w)" "manager w" E] lora_invD(1)[OF inv] by simp
  ultimately show ?thesis using inv by (simp add: lora_inv_def job_ok_def row_map_ok_def)
qed

lemma clear_rows_inv: "lora_inv E w \<Longrightarrow> lora_inv E (w\<lparr>manager := clear_rows (manager w)\<rparr>)"
  by (rule manager_call_inv') (auto simp: clear_rows_def same_rows_def keeps_pinned_def lora_inv_def manager_ok_def adapter_ok_def resident_ok_def)

lemma lora_start_inv: "lora_start w \<Longrightarrow> lora_inv E w"
  by (auto simp: lora_start_def new_lora_def lora_inv_def manager_ok_def cache_fresh_def holders_def row_map_ok_def slots_of_def)

lemma lora_step_inv:
  assumes inv: "lora_inv E w"
  shows "lora_inv E (snd (lora_step E c w))"
proof (cases c)
  case (PrepareAdapter name files_exist parsed content)
  then show ?thesis using inv prepare_adapter_ok by (auto simp: lora_inv_def split: sum.split)
next
  case (LoadAdapter i fails)
  show ?thesis
  proof (cases "i < length (prepared w) \<and> prepared w ! i \<noteq> None")
    case True
    then obtain a new where p: "prepared w ! i = Some (a, new)" by auto
    obtain r m' where l: "load_prepared (a, new) fails (manager w) = (r, m')" by fastforce
    have "adapter_wellformed (fst (a, new))" using lora_invD(3)[OF inv, of a new] p True nth_mem [of i "prepared w"] by simp
    note l_ok = load_prepared_ok [OF lora_invD(1)[OF inv] this l]
    have "lora_inv E (w\<lparr>manager := m', prepared := (prepared w)[i := None]\<rparr>)"
      by (rule manager_call_inv [OF inv l_ok set_update_subset_insert])
    then show ?thesis using LoadAdapter True p l by simp
  qed (use inv LoadAdapter in \<open>auto split: option.split\<close>)
next
  case (UnloadAdapter name)
  obtain r m' where u: "unregister name (manager w) = (r, m')" by fastforce
  then show ?thesis using manager_call_inv' [OF inv unregister_ok [OF lora_invD(1)[OF inv] u]] UnloadAdapter by simp
qed (use inv submit_job_inv admit_job_inv attach_job_inv finish_job_inv bind_rows_inv clear_rows_inv in auto)

interpretation lora_serving: stateful_component lora_start "lora_step E" "lora_inv E" for E
  using lora_start_inv lora_step_inv by unfold_locales blast+


section \<open>What a request gets\<close>






text \<open>A row of no job uses slot 0, which is zero in every module.\<close>

lemma base_rows_get_zeros:
  assumes "reachable lora_start (lora_step E) w" and "m = manager (snd (lora_step E (Forward us) w))"
    and "k < length us" and "Some (us ! k) \<notin> j_uid ` set (lora_jobs w)"
  shows "\<forall>(mk, wm) \<in> set (wrapped m). \<exists>ts. apply_rows wm (row_ids m) (length us) = Inr ts \<and> ts ! k = None"
proof -
  have inv: "lora_inv E w" by (rule lora_serving.inv_reachable [OF assms(1)])
  have "uid_slots (manager w) (us ! k) = None"
    using lora_invD(6)[OF inv] assms(4) by (auto simp: row_map_ok_def)
  moreover have "\<forall>(mk, wm) \<in> set (wrapped (manager w)). slot_values wm 0 = None"
    using manager_okD(3)[OF lora_invD(1)[OF inv]] by (force simp: slots_of_def)
  ultimately show ?thesis
    using bind_rows_binds(3)[OF lora_invD(2)[OF inv], of us] assms(2,3) by (auto simp: row_slot_def apply_rows_def)
qed

text \<open>
  When the file still has its fingerprint and nothing fails, admission fails exactly when the adapter
  is not resident and a live request holds every slot.
\<close>

definition all_held :: "'t lora_world \<Rightarrow> bool" where
  "all_held w \<longleftrightarrow> (\<forall>s \<in> set [1..<Suc (max_loras (manager w))]. \<exists>j \<in> set (lora_jobs w). j_slot j = Some s)"

lemma all_held_iff: "all_held w \<longleftrightarrow> (\<forall>s. 1 \<le> s \<and> s \<le> max_loras (manager w) \<longrightarrow> (\<exists>j \<in> set (lora_jobs w). j_slot j = Some s))"
  by (auto simp: all_held_def simp del: upt_Suc)

lemma held_iff_pinned:
  assumes "lora_inv E w"
  shows "(\<exists>j \<in> set (lora_jobs w). j_slot j = Some s) \<longleftrightarrow> pins (manager w) s \<noteq> 0"
  using lora_invD(4)[OF assms, of s] by (auto simp: holders_def filter_empty_conv)

lemma write_modules_quiet: "\<exists>ws'. write_modules s ts None ws = (Inr (), ws')"
proof (induction ws)
  case (Cons kw ws)
  then show ?case by (cases kw) (auto simp: Let_def)
qed simp

lemma fill_slot_quiet:
  assumes ok: "manager_ok E m" and a: "map_of (registry m) n = Some a" and bs: "fingerprint_of E bs a = a_fingerprint a"
  shows "\<exists>m'. fill_slot E n a (Inr bs) None None sr m = (Inr sr, m')"
proof -
  have p: "length (a_module_keys a) = length (a_keys a)" "adapter_modules a = a_module_keys a"
    "set (a_module_keys a) \<subseteq> fst ` set (wrapped m)"
    using manager_okD(1)[OF ok a] by (auto simp: adapter_ok_def adapter_wellformed_def adapter_modules_def)
  then have "\<not> (\<exists>mk \<in> set (map snd (zip (a_keys a) (adapter_modules a))). map_of (wrapped m) mk = None)"
    by (auto simp: map_of_eq_None_iff)
  then have "\<exists>b m1. materialize_adapter E (Inr bs) None a m = (Inr b, m1)"
    using bs unfolding materialize_adapter_def Let_def by auto
  then obtain b m1 where b: "materialize_adapter E (Inr bs) None a m = (Inr b, m1)" by blast
  obtain ws where "write_modules (fst sr) (a_tensors b) None (wrapped m1) = (Inr (), ws)" using write_modules_quiet by blast
  then show ?thesis using b by (simp add: fill_slot_def)
qed

lemma choose_slot_fails:
  assumes inv: "lora_inv E w" and c: "choose_slot (manager w) = (r, m')"
  shows "if all_held w then r = Inl (SlotUnavailable ''every multi-LoRA slot is pinned by a live request'') else \<exists>sr. r = Inr sr"
proof -
  let ?m = "manager w"
  note ok = lora_invD(1)[OF inv]
  have held: "map_of (resident ?m) s \<noteq> None" if pinned: "pins ?m s \<noteq> 0" for s
  proof -
    obtain j where "j \<in> set (lora_jobs w)" "j_slot j = Some s" using pinned held_iff_pinned [OF inv, of s] by auto
    then show ?thesis using lora_invD(5)[OF inv, of j] by (simp add: job_ok_def)
  qed
  have in_range: "1 \<le> s \<and> s \<le> max_loras ?m" if "(s, n) \<in> set (resident ?m)" for s n
    using that ok by (auto simp: manager_ok_def resident_ok_def)
  have iff: "all_held w \<longleftrightarrow> [s \<leftarrow> [1..<Suc (max_loras ?m)]. map_of (resident ?m) s = None] = [] \<and> [sr \<leftarrow> resident ?m. pins ?m (fst sr) = 0] = []"
    (is "_ \<longleftrightarrow> ?free = [] \<and> ?unpinned = []")
  proof
    assume "all_held w"
    then have pinned: "pins ?m s \<noteq> 0" if "1 \<le> s" "s \<le> max_loras ?m" for s
      using that held_iff_pinned [OF inv] by (auto simp: all_held_iff)
    have "?free = []" using pinned held by (auto simp: filter_empty_conv simp del: upt_Suc)
    moreover have "?unpinned = []" using pinned in_range by (force simp: filter_empty_conv)
    ultimately show "?free = [] \<and> ?unpinned = []" by blast
  next
    assume e: "?free = [] \<and> ?unpinned = []"
    have "pins ?m s \<noteq> 0" if "1 \<le> s" "s \<le> max_loras ?m" for s
    proof -
      have "map_of (resident ?m) s \<noteq> None" using e that by (auto simp: filter_empty_conv simp del: upt_Suc)
      then obtain n where "(s, n) \<in> set (resident ?m)" by (auto dest: map_of_SomeD)
      then show ?thesis using e by (force simp: filter_empty_conv)
    qed
    then show "all_held w" using held_iff_pinned [OF inv] by (auto simp: all_held_iff)
  qed
  show ?thesis
  proof (cases ?free)
    case (Cons f fs)
    then show ?thesis using c iff unfolding choose_slot_def Cons by auto
  next
    case no_free: Nil
    show ?thesis
    proof (cases ?unpinned)
      case Nil
      then show ?thesis using c iff no_free unfolding choose_slot_def no_free Nil by auto
    next
      case (Cons v vs)
      then show ?thesis using c iff unfolding choose_slot_def no_free Cons by (cases v) auto
    qed
  qed
qed

text \<open>
  C40: When its file still has the registered fingerprint and nothing fails, admitting an
  adapter is deferred exactly when the adapter is not resident and a live request holds every
  slot; otherwise the request gets a slot of its adapter with one more pin.
\<close>

theorem admission_defers_only_when_every_slot_is_held:
  assumes "reachable lora_start (lora_step E) w" and "map_of (registry (manager w)) name = Some a"
    and "fingerprint_of E bs a = a_fingerprint a"
    and "(r, m') = acquire_slot E name (Some (a_fingerprint a)) (Inr bs) None None (manager w)"
  shows "if name \<notin> snd ` set (resident (manager w)) \<and> all_held w
     then r = Inl (SlotUnavailable ''every multi-LoRA slot is pinned by a live request'')
     else \<exists>s why. r = Inr (s, why) \<and> map_of (resident m') s = Some name \<and> pins m' s = pins (manager w) s + 1"
proof -
  have inv: "lora_inv E w" by (rule lora_serving.inv_reachable [OF assms(1)])
  note p = acquire_slot_ok [OF lora_invD(1)[OF inv] assms(4)[symmetric]]
  have good: "map_of (resident m') s = Some name \<and> pins m' s = pins (manager w) s + 1" if "r = Inr (s, why)" for s why
    using p that by (auto simp: pinned_for_def)
  show ?thesis
  proof (cases "find_resident name (resident (manager w))")
    case (Some s)
    then have "name \<in> snd ` set (resident (manager w))" "r = Inr (s, ''hit'')"
      using assms(2,4) find_resident_None [of name "resident (manager w)"] by (auto simp: acquire_slot_def)
    then show ?thesis using good by auto
  next
    case None
    then have absent: "name \<notin> snd ` set (resident (manager w))" by (simp add: find_resident_None)
    obtain r1 m1 where c: "choose_slot (manager w) = (r1, m1)" by fastforce
    note c_ok = choose_slot_ok [OF lora_invD(1)[OF inv] c]
    have run: "(r, m') = bind_res (r1, m1) (fill_slot E name a (Inr bs) None None)"
      using assms(4) acquire_slot_fill [OF assms(2) None] c by simp
    have a1: "map_of (registry m1) name = Some a" using assms(2) c_ok(5) by simp
    show ?thesis
    proof (cases r1)
      case (Inl e)
      then show ?thesis using choose_slot_fails [OF inv c] run absent by (simp split: if_splits)
    next
      case (Inr sr)
      obtain m2 where "fill_slot E name a (Inr bs) None None sr m1 = (Inr sr, m2)"
        using fill_slot_quiet [OF c_ok(1) a1 assms(3)] by blast
      then have "r = Inr sr" "\<not> all_held w" using run choose_slot_fails [OF inv c] Inr by (auto split: if_splits)
      then show ?thesis using good [of "fst sr" "snd sr"] by (cases sr) auto
    qed
  qed
qed


section \<open>A wrapper that was never installed\<close>

text \<open>
  \<open>wrap_keys\<close> records a wrapper before the model has it and skips recorded keys, so what a failed
  call left behind is never installed, although \<open>commit\<close> accepts it.
\<close>

lemma recorded_wrapper_stays_out:
  assumes "map_of (wrapped m) k = Some wm" and "\<not> installed wm" and "wrap_keys ks fails m = (r, m')"
  shows "map_of (wrapped m') k = Some wm"
proof -
  have made: "map_of ws' k = map_of ws k" if "make_wrappers ks fails ws n = (r1, ws')" "map_of ws k \<noteq> None" for ks fails ws n r1 ws'
    using that
  proof (induction ks fails ws n arbitrary: r1 rule: make_wrappers.induct)
    case (2 j js fails ws n)
    then show ?case by (auto simp: update_new map_add_def split: if_splits option.splits prod.splits nat.splits)
  qed simp
  have inst: "map_of (install new ws) k = map_of ws k" if "k \<notin> set new" for new and ws :: "(string \<times> 'a wrapped_module) list"
    using that by (induction ws) (auto simp: install_def)
  show ?thesis
    using assms made [of ks fails "wrapped m" 0] inst [of "[k \<leftarrow> ks. map_of (wrapped m) k = None]"]
    by (auto simp: wrap_keys_def split: if_splits sum.splits prod.splits)
qed

section \<open>A concrete run\<close>

definition demo_lora_env :: "int lora_env" where
  "demo_lora_env = \<lparr>digest_of = (\<lambda>bs r sc ks. concat ks), tensor_of = (\<lambda>bs sc k. int (length k)),
     parse_json = (\<lambda>bs. Some (JDict [(''q.lora_a'', JDict [(''dtype'', JText ''F32''), (''shape'', JList [JInt 4, JInt 2])]),
        (''q.lora_b'', JDict [(''dtype'', JText ''F32''), (''shape'', JList [JInt 2, JInt 6])])])),
     resolve_key = (\<lambda>k. k), linear_dims = (\<lambda>k. Some (4, 6))\<rparr>"

definition demo_adapter_config :: json where
  "demo_adapter_config = JDict [(''lora_parameters'', JDict [(''rank'', JInt 2), (''keys'', JList [JText ''q''])])]"

definition demo_payload :: payload where
  "demo_payload = replicate 8 0"

definition demo_lora_start :: "int lora_world" where
  "demo_lora_start = \<lparr>manager = (case new_lora 1 4 of Inr m \<Rightarrow> m), prepared = [], lora_jobs = []\<rparr>"

definition demo_lora :: "int lora_world" where
  "demo_lora = run_calls (lora_step demo_lora_env)
     [PrepareAdapter ''a'' True (Inr demo_adapter_config) (Inr demo_payload), LoadAdapter 0 None, SubmitJob ''a'',
      AdmitJob 0 (Inr demo_payload) None None, AttachJob 0 7] demo_lora_start"

lemma demo_lora_reachable: "reachable lora_start (lora_step demo_lora_env) demo_lora"
proof -
  have "lora_start demo_lora_start"
    unfolding lora_start_def demo_lora_start_def new_lora_def by (intro exI [of _ 1] exI [of _ 4]) simp
  then show ?thesis unfolding demo_lora_def by (intro reachable_run_calls reachable_init)
qed



text \<open>A second adapter, while the only slot is held.\<close>

definition demo_lora_full :: "int lora_world" where
  "demo_lora_full = run_calls (lora_step demo_lora_env)
     [PrepareAdapter ''b'' True (Inr demo_adapter_config) (Inr demo_payload), LoadAdapter 1 None] demo_lora"

lemma demo_lora_full_reachable: "reachable lora_start (lora_step demo_lora_env) demo_lora_full"
  unfolding demo_lora_full_def by (rule reachable_run_calls [OF demo_lora_reachable])

definition demo_second :: "int adapter" where
  "demo_second = \<lparr>a_name = ''b'', a_fingerprint = ''q'', a_rank = 2, a_scale = JFloat (Finite 20), a_keys = [''q''], a_module_keys = [''q''], a_tensors = []\<rparr>"

lemma demo_lora_full_state:
  "map_of (registry (manager demo_lora_full)) ''b'' = Some demo_second" "resident (manager demo_lora_full) = [(1, ''a'')]" "all_held demo_lora_full"
  "fingerprint_of demo_lora_env demo_payload demo_second = a_fingerprint demo_second"
  by code_simp+

theorem admission_defers_only_when_every_slot_is_held_witness:
  "fst (acquire_slot demo_lora_env ''b'' (Some ''q'') (Inr demo_payload) None None (manager demo_lora_full))
     = Inl (SlotUnavailable ''every multi-LoRA slot is pinned by a live request'')"
  using admission_defers_only_when_every_slot_is_held [OF demo_lora_full_reachable demo_lora_full_state(1,4) prod.collapse] demo_lora_full_state(2,3)
  by (simp add: demo_second_def)

text \<open>The first of two wrappers was made when the second one failed; loading again registers the adapter without it.\<close>

lemma lost_wrapper_is_committed:
  "let m = snd (wrap_keys [''k'', ''l''] (Some (1, MemoryError ''x'')) (manager demo_lora_start));
       (r, m') = load_prepared (demo_second\<lparr>a_keys := [''k'', ''l''], a_module_keys := [''k'', ''l'']\<rparr>, [''k'', ''l'']) None m
   in r = Inr () \<and> \<not> is_wrapper m' ''k'' \<and> is_wrapper m' ''l''"
  by code_simp

end
