(* ===== verification/Spec2Isabelle.thy ===== *)
theory Spec2Isabelle
  imports AttentionPlan AtomicOwner BatchAdmission PrefillPlan BatchGeometry InteriorPlacement ProposalCascade CopyDraft DraftLoop PagedCache StateOwner CowOwner MultiLora
begin

text \<open>
  A verification library for the host-side control logic of mlx2, an inference runtime for MLX
  models.  All paths below are under \<^verbatim>\<open>src/src/mlx2/\<close>.  The library models the Python code that
  decides who owns which memory, when a value may be reused, what is published and in which order
  work is run; the tensor arithmetic between those decisions belongs to MLX and is not modelled.

  \<^bold>\<open>The parts of the program and how they interact.\<close>

  \<^item> Paged KV memory.  A request's key and value rows live in fixed pages of one pool.  A page table
    of a request holds leases of pages; a native submission pins the pages it touches until the
    backend reports its end; a plan of an attention call names the pages the kernel will read.
    The write owner ties these together and the private cache is what a model's layer sees.
  \<^item> Request publication.  The pack scheduler chooses what one forward does, the request transaction
    runs a candidate and publishes or rolls back, and the atomic owner holds the public snapshot.
  \<^item> Admission and geometry.  Admission prices a cohort in bytes, the prefill and batch planners
    decide the shapes of forwards, interior placement decides where a prompt is checkpointed.
  \<^item> Speculation.  Proposal cascades choose which drafted path to verify next, copy drafting proposes
    tokens from the request's own history, the draft loop decides how deep a drafter goes.
  \<^item> Routing, request state and caches.  The router picks a qualified profile for a request, the state
    owner publishes manifests by transaction, the cache planes and the copy-on-write owner let many
    requests share one frozen prompt cache.
  \<^item> Adapters.  The LoRA manager keeps a few adapters in slots of the wrapped modules and maps each row
    of a batch to the slot of its request.

  \<^bold>\<open>Conventions.\<close>  Python code raises and keeps what it mutated before the raise, so an operation
  returns its outcome together with the state it leaves behind (\<open>res\<close> of \<open>Prelude\<close>); every raise and
  early return of the source is a branch.  An exception is a value of \<open>exc\<close> with the source's message.
  Integers of the source are \<open>int\<close>, as Python's are unbounded; a value that is never negative by
  construction, such as a page id, is a \<open>nat\<close>.  The epochs and generations the native side stores in 64
  bits are bounded by \<open>U64_MAX\<close>, as the guards of the source say; the bytes a
  private cache holds and stages are a list of \<open>8 word\<close>.  Where object identity matters (\<open>is\<close>, or an object
  as a dict key) the identity is an explicit number.  A lock makes a method one step; where the
  source leaves its lock in the middle of a method, the method is two steps.  Each stateful component is
  a step function over a datatype of its calls, and \<open>reachable\<close> is the set of states any sequence of
  calls leads to, refused calls included.

  \<^bold>\<open>Theories, and the code they model.\<close>

  \<^descr> \<open>Prelude\<close>: results, exceptions, \<open>_uint\<close> and \<open>_positive\<close> of \<^verbatim>\<open>runtime/paged_kv_pool.py\<close>, the rules
    for \<open>atomic_res\<close> (a call that raises leaves its state), reachability, and the locale
    \<open>stateful_component\<close> whose lemmas carry an invariant and a stable fact through any run.
  \<^descr> \<open>PagedPool\<close>: \<open>PagedKVPool\<close> of \<^verbatim>\<open>runtime/paged_kv_pool.py\<close> (reserve, retain, release, retire and the
    checks on handles).  Lemmas: the slots are free, active or retired, each exactly once; generations
    only grow, so a handle of an older generation is refused for ever.
  \<^descr> \<open>PagedLeases\<close>: the contract of the pool towards its clients, a multiset of outstanding leases
    (\<open>lease_exact\<close>), as the locale \<open>lease_provider\<close> with the pool as its interpretation.
  \<^descr> \<open>PagedSequence\<close>: \<open>PagedKVSequence\<close> of the same file (append, staged append, commit, discard, fork, trim,
    truncate, abort), proved over \<open>lease_provider\<close>: every operation keeps exactly one lease per entry of the
    table, and one that raises changes nothing.
  \<^descr> \<open>PagedCompletion\<close>: \<open>PagedKVCompletionLedger\<close> of \<^verbatim>\<open>runtime/paged_kv_native.py\<close> with its watermark loop.
  \<^descr> \<open>PagedWorld\<close>: one pool, any number of page tables and the ledger under any interleaving of their calls.
    Lemmas: the leases of the pool are exactly those of the tables, the staged appends and the pending
    uses together; a page that somebody can read is never given out again; a page that is written in
    place has one owner; a pinned page stays pinned until its submission ends; a failed submission
    quarantines its pages; a completion is accepted once.
  \<^descr> \<open>AttentionPlan\<close>: \<open>SequenceSpan\<close>, \<open>PagedAttentionPlan\<close> and \<open>page_for_token\<close> of \<^verbatim>\<open>runtime/paged_attention_plan.py\<close>;
    every token a row of an accepted plan may read resolves to a listed page of the recorded generation, and
    the pages of an accepted plan can be pinned.
  \<^descr> \<open>PagedWrite\<close>: \<open>PagedKVWriteOwner\<close> of \<^verbatim>\<open>runtime/paged_kv_write.py\<close>.
  \<^descr> \<open>PagedCache\<close>: \<open>PagedKVPrivateCache\<close>, \<open>FrozenPagedKV\<close> with its branches and the reader pins \<open>AttentionUse\<close> of
    \<^verbatim>\<open>runtime/paged_kv_cache.py\<close>, several caches on one write owner.  Lemmas: accepted tokens have pages,
    and accepted bytes only grow by bytes whose native writes are recorded as done; a frozen prefix keeps its pages; a
    refused attention call leaves the pins as they were.
  \<^descr> \<open>PackScheduler\<close>, \<open>RequestTransaction\<close>, \<open>AtomicOwner\<close>: \<^verbatim>\<open>runtime/paged_pack_scheduler.py\<close>,
    \<^verbatim>\<open>runtime/paged_request_transaction.py\<close> and \<^verbatim>\<open>runtime/paged_atomic_owner.py\<close>.  The Protocol of the second
    file is the locale \<open>atomic_request_owner\<close>, the owner of the third its interpretation.  Lemmas: an accepted
    pack keeps every reserved row and misses no reserved deadline; a request is published whole or not at all; publication is
    a compare and swap on the snapshot.
  \<^descr> \<open>BatchAdmission\<close>: \<^verbatim>\<open>runtime/batch_admission.py\<close> and \<open>estimate_paged_memory\<close> of \<^verbatim>\<open>runtime/memory_policy.py\<close>;
    the incremental price of every prefix of a cohort is the price of that cohort alone.
  \<^descr> \<open>PrefillPlan\<close>: \<^verbatim>\<open>runtime/prefill_plan.py\<close> and \<open>aligned_prompt_rows\<close> of \<^verbatim>\<open>runtime/mixed_step.py\<close>; the segments
    of a recurrence cover each token once, and the loops end.
  \<^descr> \<open>BatchGeometry\<close>: \<^verbatim>\<open>runtime/batch_geometry.py\<close>; plans within budget, policies that survive printing
    and reading.
  \<^descr> \<open>InteriorPlacement\<close>: \<^verbatim>\<open>runtime/interior_placement.py\<close>; the planned positions are ascending, inside the
    prompt and at most as many as asked for.
  \<^descr> \<open>PrefixCascade\<close>, \<open>ProposalCascade\<close>: \<^verbatim>\<open>runtime/prefix_cascade.py\<close> and \<^verbatim>\<open>runtime/proposal_cascade.py\<close>; the
    longest proposal that can still win is launched next, and after a rejection the attempt resumes at
    the correction token.
  \<^descr> \<open>CopyIndex\<close>, \<open>CopyPolicy\<close>, \<open>CopyDraft\<close>: \<^verbatim>\<open>runtime/copy_draft.py\<close>.  The locale \<open>watermark_store\<close> is
    the shared history the lanes cut and extend.  Lemmas: lanes that share one store behave as lanes with
    a private history each; a copied proposal is a verbatim stretch of the history.
  \<^descr> \<open>DraftLoop\<close>: \<^verbatim>\<open>runtime/draft_loop.py\<close>; an accepted policy resolves to one topology at every width.
  \<^descr> \<open>Routing\<close>: the descriptors of \<^verbatim>\<open>contracts.py\<close> and \<open>RoutePlanner\<close> of \<^verbatim>\<open>routing.py\<close>; a route is declared,
    qualified and independent of the order of registration.
  \<^descr> \<open>StateOwner\<close>: \<^verbatim>\<open>state.py\<close> and \<^verbatim>\<open>cache.py\<close>; commits lose no update, a leased value stays under its key
    until its lease is closed.
  \<^descr> \<open>CachePlanes\<close>: \<^verbatim>\<open>runtime/cache_planes.py\<close>; leases of a plane, independent invalidation, segments that tile
    the history.
  \<^descr> \<open>CowOwner\<close>: \<open>COWCacheOwner\<close>, \<open>COWPromptCacheBranch\<close> and \<open>COWFrozenPromptCache\<close> of \<^verbatim>\<open>runtime/cow_cache.py\<close>; the source
    lives as long as a branch does, an adopted branch was current from its start to its adoption, and rows are made
    all or none.
  \<^descr> \<open>AdapterConfig\<close>, \<open>MultiLora\<close>: \<open>read_lora_config\<close> of \<^verbatim>\<open>runtime/lora.py\<close>, \<open>MultiLoRAManager\<close> of
    \<^verbatim>\<open>runtime/multi_lora.py\<close> and the life of a job around it in \<^verbatim>\<open>serving.py\<close>; a live row is always computed
    with the tensors of the adapter it was submitted for, and admission is deferred only when every slot is held.

  \<^bold>\<open>How the proofs are built.\<close>  Every stateful component has an invariant, a lemma that each call keeps it,
  and an interpretation of \<open>stateful_component\<close> on its own step function; properties of all runs follow
  from the facts of that interpretation.  The contracts between components are the locales
  \<open>lease_provider\<close> (pool and its clients), \<open>atomic_request_owner\<close> (transaction and owner) and
  \<open>watermark_store\<close> (lane and shared history).  Atomicity is proved with the
  introduction rules \<open>atomic_intros\<close>, which follow the shape of the code.

  \<^bold>\<open>Termination and bounds.\<close>  No definition uses fuel.  Loops that count down or walk a list are
  \<open>fun\<close> or \<open>function\<close> with a measure (\<open>trim_loop\<close>, \<open>agreement_from\<close>, \<open>truncate_store\<close>, \<open>py_range\<close>, \<open>append_spans\<close>,
  \<open>watermark\<close>, \<open>bit_length\<close>).  The \<open>while\<close> loops whose end depends on their input are
  \<open>partial_function (option)\<close>, where \<open>None\<close> is a run that does not return (\<open>halve_rows\<close>,
  \<open>segments_from\<close>, \<open>pow2_loop\<close>, \<open>tail_loop\<close>), and that they return on every input their callers accept is proved.

  \<^bold>\<open>Parameters.\<close>  What is not under \<^verbatim>\<open>src/\<close> or depends on the machine is an argument.
  \<open>CopyPolicy\<close> rounds through \<open>rnd\<close> (monotone, exact on small integers, where a lemma needs it);
  \<open>BatchGeometry\<close> divides through \<open>fdiv\<close>; \<open>PackScheduler\<close> takes the measured price profile;
  \<open>InteriorPlacement\<close> takes the tokenizer; \<open>PagedWrite\<close> and \<open>PagedCache\<close> take what the backend answered
  (whether an enqueue returned or raised, and the events it delivers); \<open>CachePlanes\<close> takes the digest and the
  printing of a tuple; \<open>CowOwner\<close> takes whether a clone was made or raised;
  \<open>MultiLora\<close> takes the digest, the JSON parser, the tensors of a file, the shapes of the model's linear modules, and what
  reading, wrapping and writing raised.

  \<^bold>\<open>Restrictions.\<close>  The facts about the private cache hold for branches taken without staging headroom; the
  headroom itself is modelled in \<open>branch\<close> and \<open>close\<close>.  Byte counts in \<open>BatchAdmission\<close> are whole
  numbers.  In \<open>CowOwner\<close> a copy of a live branch holds that branch's lock, and a call that would wait for it is
  not taken.

  \<^bold>\<open>Not modelled.\<close>  Model graphs, attention kernels and Metal text (arithmetic of MLX arrays); the generation
  loops, drafters and the serving loop (each step is a call of a model); the persistent cache and capsules,
  distributed serving, HTTP and the desktop application (file, network and process glue); telemetry and the qualification harness
  (they report measured values); the native library and its binding (other languages).  Of the modelled files the
  following is left out: fingerprints of a configuration and probes of the environment in
  \<^verbatim>\<open>runtime/prefill_plan.py\<close> and \<^verbatim>\<open>runtime/mixed_step.py\<close>; the binding class \<open>NativeWriteBackend\<close>; \<open>PagedCandidateReceipt\<close>; the
  cloning, layout digests, recovery snapshots and byte counters of \<^verbatim>\<open>runtime/cow_cache.py\<close>; detaching the LoRA manager and the
  offline \<open>register\<close> helper; methods that only print a record.
\<close>

end
